(* ===== verification/Prelude.thy ===== *)
theory Prelude
  imports Main "HOL-Library.Word" "HOL-Library.Multiset"
begin

unbundle bit_operations_syntax

section \<open>Shared vocabulary: C buffers, C integers, faults\<close>

text \<open>
  What the components share. A C buffer is the list of the characters of one allocation
  (\<^typ>\<open>string\<close>); a pointer into it is an offset, an \<^typ>\<open>int\<close> because the code also
  moves pointers backwards. Code whose behaviour the C standard leaves undefined (a read past
  an allocation, a \<open>NULL\<close> dereference, an overrun array, a signed overflow) is a value of
  \<open>fault\<close>, so that each operation says on which inputs it has a defined result. The
  functions of the C library the programs call (\<open>strstr\<close>, \<open>strncpy\<close>, \<open>atoi\<close>,
  \<open>strcasecmp\<close>, \<open>strncasecmp\<close>, \<open>sprintf\<close> with \<open>%d\<close> and \<open>%u\<close>) are modelled
  here, as glibc behaves where the standard is silent.
\<close>

named_theorems res_simps
named_theorems buf_simps

datatype fault =
    Null_deref
  | Out_of_bounds
  | Buffer_overflow
  | Signed_overflow
  | Use_after_free
  | Double_free
  | Assert_failed
  | Out_of_memory
  | Indeterminate_value
  | Division_by_zero

type_synonym 'a res = "fault + 'a"

definition fbind :: "'a res \<Rightarrow> ('a \<Rightarrow> 'b res) \<Rightarrow> 'b res" where
  "fbind m f = (case m of Inl e \<Rightarrow> Inl e | Inr x \<Rightarrow> f x)"

definition fmap :: "('a \<Rightarrow> 'b) \<Rightarrow> 'a res \<Rightarrow> 'b res" where
  "fmap f m = (case m of Inl e \<Rightarrow> Inl e | Inr x \<Rightarrow> Inr (f x))"

lemma fbind_Inl [simp, res_simps]: "fbind (Inl e) f = Inl e"
  by (simp add: fbind_def)

lemma fbind_Inr [simp, res_simps]: "fbind (Inr x) f = f x"
  by (simp add: fbind_def)

lemma fmap_Inl [simp, res_simps]: "fmap f (Inl e) = Inl e"
  by (simp add: fmap_def)

lemma fmap_Inr [simp, res_simps]: "fmap f (Inr x) = Inr (f x)"
  by (simp add: fmap_def)

lemma fbind_eq_Inr [res_simps]: "fbind m f = Inr y \<longleftrightarrow> (\<exists>x. m = Inr x \<and> f x = Inr y)"
  by (cases m) auto

lemma fmap_eq_Inr [res_simps]: "fmap f m = Inr y \<longleftrightarrow> (\<exists>x. m = Inr x \<and> f x = y)"
  by (cases m) auto

subsection \<open>Characters and C strings\<close>

abbreviation NUL :: char where "NUL \<equiv> CHR 0x00"
abbreviation CR :: char where "CR \<equiv> CHR 0x0D"
abbreviation LF :: char where "LF \<equiv> CHR 0x0A"
abbreviation CRLF :: string where "CRLF \<equiv> [CR, LF]"

definition is_digit :: "char \<Rightarrow> bool" where
  "is_digit c \<longleftrightarrow> 48 \<le> (of_char c :: nat) \<and> (of_char c :: nat) \<le> 57"

definition digit_val :: "char \<Rightarrow> nat" where
  "digit_val c = of_char c - 48"

definition digit_char :: "nat \<Rightarrow> char" where
  "digit_char d = char_of (48 + d)"

text \<open>\<open>isspace\<close> in the C locale: space and the five control characters from tab to return.\<close>

definition is_space :: "char \<Rightarrow> bool" where
  "is_space c \<longleftrightarrow> c = CHR '' '' \<or> (9 \<le> (of_char c :: nat) \<and> (of_char c :: nat) \<le> 13)"

definition to_lower :: "char \<Rightarrow> char" where
  "to_lower c = (if 65 \<le> (of_char c :: nat) \<and> (of_char c :: nat) \<le> 90
     then char_of ((of_char c :: nat) + 32) else c)"

text \<open>\<open>p[0]\<close> for a pointer at offset \<open>i\<close> of the buffer.\<close>

definition c_get :: "string \<Rightarrow> int \<Rightarrow> char res" where
  "c_get b i = (if 0 \<le> i \<and> i < int (length b) then Inr (b ! nat i) else Inl Out_of_bounds)"

lemma c_get_nat [buf_simps]: "n < length b \<Longrightarrow> c_get b (int n) = Inr (b ! n)"
  by (simp add: c_get_def)

text \<open>\<open>strstr\<close>, given the bytes from the pointer to the end of the allocation. The search stops
  at the terminating NUL; running off the allocation is a fault.\<close>

fun c_strstr :: "string \<Rightarrow> string \<Rightarrow> nat option res" where
  "c_strstr needle [] = Inl Out_of_bounds"
| "c_strstr needle (c # cs) =
     (if take (length needle) (c # cs) = needle then Inr (Some 0)
      else if c = NUL then Inr None
      else fmap (map_option Suc) (c_strstr needle cs))"

text \<open>\<open>strcasecmp(p, lit) == 0\<close> and \<open>strncasecmp(p, lit, strlen(lit)) == 0\<close>, for a literal
  \<open>lit\<close> (no NUL inside).\<close>

fun c_strcaseeq :: "string \<Rightarrow> string \<Rightarrow> bool res" where
  "c_strcaseeq [] lit = Inl Out_of_bounds"
| "c_strcaseeq (c # cs) [] = Inr (c = NUL)"
| "c_strcaseeq (c # cs) (d # lit) =
     (if to_lower c = to_lower d then c_strcaseeq cs lit else Inr False)"

fun c_strncaseeq :: "string \<Rightarrow> string \<Rightarrow> bool res" where
  "c_strncaseeq cs [] = Inr True"
| "c_strncaseeq [] (d # lit) = Inl Out_of_bounds"
| "c_strncaseeq (c # cs) (d # lit) =
     (if to_lower c = to_lower d then c_strncaseeq cs lit else Inr False)"

text \<open>A C string read from a buffer: the bytes before the first NUL (\<open>strlen\<close>, \<open>%s\<close>).\<close>

definition c_str :: "string \<Rightarrow> string res" where
  "c_str b = (if NUL \<in> set b then Inr (takeWhile (\<lambda>c. c \<noteq> NUL) b) else Inl Out_of_bounds)"

lemma c_str_append: "NUL \<notin> set s \<Longrightarrow> c_str (s @ NUL # r) = Inr s"
  by (induction s) (auto simp: c_str_def)

subsection \<open>Integers\<close>

definition INT_MAX :: int where "INT_MAX = 2147483647"

text \<open>Conversion to a 32-bit \<open>int\<close> and the saturation of \<open>strtol\<close> at 64 bits.\<close>

definition to_i32 :: "int \<Rightarrow> int" where
  "to_i32 v = sint (word_of_int v :: 32 word)"

definition clamp_long :: "int \<Rightarrow> int" where
  "clamp_long v = max (- (2 ^ 63)) (min (2 ^ 63 - 1) v)"

lemma to_i32_small [simp]: "- (2 ^ 31) \<le> v \<Longrightarrow> v < 2 ^ 31 \<Longrightarrow> to_i32 v = v"
  by (simp add: to_i32_def sint_word_ariths(1) sint_sbintrunc' signed_take_bit_int_eq_self)

lemma clamp_long_small [simp]: "- (2 ^ 63) \<le> v \<Longrightarrow> v < 2 ^ 63 \<Longrightarrow> clamp_long v = v"
  by (simp add: clamp_long_def)

lemma to_i32_range: "- (2 ^ 31) \<le> to_i32 v \<and> to_i32 v < 2 ^ 31"
  using sint_ge [of "word_of_int v :: 32 word"] sint_lt [of "word_of_int v :: 32 word"]
  by (simp add: to_i32_def)

text \<open>\<open>atoi\<close>: white space, an optional sign, digits; the characters come from a buffer, which
  the scan must not leave.\<close>

fun atoi_digits :: "int \<Rightarrow> string \<Rightarrow> int res" where
  "atoi_digits a [] = Inl Out_of_bounds"
| "atoi_digits a (c # cs) =
     (if is_digit c then atoi_digits (10 * a + int (digit_val c)) cs else Inr a)"

fun atoi_sign :: "string \<Rightarrow> int res" where
  "atoi_sign [] = Inl Out_of_bounds"
| "atoi_sign (c # cs) =
     (if c = CHR ''-'' then fmap uminus (atoi_digits 0 cs)
      else if c = CHR ''+'' then atoi_digits 0 cs
      else atoi_digits 0 (c # cs))"

definition c_atoi :: "string \<Rightarrow> int res" where
  "c_atoi b = fmap (\<lambda>v. to_i32 (clamp_long v)) (atoi_sign (dropWhile is_space b))"

text \<open>\<open>%d\<close> and \<open>%u\<close> of a non-negative number.\<close>

fun show_nat :: "nat \<Rightarrow> string" where
  "show_nat n = (if n < 10 then [digit_char n] else show_nat (n div 10) @ [digit_char (n mod 10)])"

declare show_nat.simps [simp del]

definition show_int :: "int \<Rightarrow> string" where
  "show_int i = (if i < 0 then CHR ''-'' # show_nat (nat (- i)) else show_nat (nat i))"

text \<open>C division truncates towards zero.\<close>

definition c_div :: "int \<Rightarrow> int \<Rightarrow> int" where
  "c_div a b = sgn a * sgn b * (\<bar>a\<bar> div \<bar>b\<bar>)"

subsubsection \<open>Digits\<close>

lemma of_char_digit_char: "d < 10 \<Longrightarrow> (of_char (digit_char d) :: nat) = 48 + d"
  by (simp add: digit_char_def of_char_of)

lemma is_digit_digit_char [simp]: "d < 10 \<Longrightarrow> is_digit (digit_char d)"
  by (simp add: is_digit_def of_char_digit_char)

lemma digit_val_digit_char [simp]: "d < 10 \<Longrightarrow> digit_val (digit_char d) = d"
  by (simp add: digit_val_def of_char_digit_char)

lemma is_digit_neq:
  assumes "is_digit c"
  shows "c \<noteq> CR" "c \<noteq> LF" "c \<noteq> NUL" "c \<noteq> CHR ''-''" "c \<noteq> CHR ''+''" "\<not> is_space c"
  using assms by (auto simp: is_digit_def is_space_def)

lemma not_digit [simp]: "\<not> is_digit CR" "\<not> is_digit NUL"
  by (simp_all add: is_digit_def)

lemma show_nat_digits: "c \<in> set (show_nat n) \<Longrightarrow> is_digit c"
proof (induction n arbitrary: c rule: show_nat.induct)
  case (1 n)
  show ?case
  proof (cases "n < 10")
    case True
    with "1.prems" show ?thesis by (simp add: show_nat.simps [of n])
  next
    case False
    with "1.prems" "1.IH" show ?thesis by (auto simp: show_nat.simps [of n])
  qed
qed

lemma show_nat_ne [simp]: "show_nat n \<noteq> []"
  by (simp add: show_nat.simps [of n])

lemma length_show_nat: "n < 10 ^ k \<Longrightarrow> 0 < k \<Longrightarrow> length (show_nat n) \<le> k"
proof (induction n arbitrary: k rule: show_nat.induct)
  case (1 n)
  show ?case
  proof (cases "n < 10")
    case True
    with "1.prems" show ?thesis by (simp add: show_nat.simps [of n])
  next
    case False
    from "1.prems" obtain j where k: "k = Suc j"
      by (cases k) auto
    with False "1.prems" have j: "0 < j"
      by (cases j) auto
    from "1.prems" k have "n div 10 < 10 ^ j"
      by (simp add: less_mult_imp_div_less mult.commute)
    then have "length (show_nat (n div 10)) \<le> j"
      using "1.IH" False j by blast
    with False k show ?thesis by (simp add: show_nat.simps [of n])
  qed
qed

lemma length_show_nat_ge: "10 ^ k \<le> n \<Longrightarrow> k < length (show_nat n)"
proof (induction n arbitrary: k rule: show_nat.induct)
  case (1 n)
  show ?case
  proof (cases "n < 10 \<or> k = 0")
    case True
    then show ?thesis
    proof
      assume "n < 10"
      have "k = 0"
      proof (rule ccontr)
        assume "k \<noteq> 0"
        then have "(10::nat) ^ 1 \<le> 10 ^ k" by (intro power_increasing) auto
        with "1.prems" \<open>n < 10\<close> show False by simp
      qed
      then show ?thesis by (simp add: show_nat.simps [of n])
    qed simp
  next
    case False
    then obtain j where k: "k = Suc j" by (cases k) auto
    from "1.prems" k have "10 ^ j \<le> n div 10"
      by (simp add: less_eq_div_iff_mult_less_eq mult.commute)
    then have "j < length (show_nat (n div 10))"
      using "1.IH" False by blast
    with False k show ?thesis by (simp add: show_nat.simps [of n])
  qed
qed

lemma atoi_digits_append:
  "(\<forall>c \<in> set ds. is_digit c) \<Longrightarrow>
   atoi_digits a (ds @ r) = atoi_digits (foldl (\<lambda>x c. 10 * x + int (digit_val c)) a ds) r"
  by (induction ds arbitrary: a) auto

lemma foldl_show_nat:
  "foldl (\<lambda>x c. 10 * x + int (digit_val c)) 0 (show_nat n) = int n"
proof (induction n rule: show_nat.induct)
  case (1 n)
  show ?case
  proof (cases "n < 10")
    case True
    then show ?thesis by (simp add: show_nat.simps [of n])
  next
    case False
    with "1.IH" have "foldl (\<lambda>x c. 10 * x + int (digit_val c)) 0 (show_nat n)
      = 10 * int (n div 10) + int (n mod 10)"
      by (subst show_nat.simps) simp
    also have "\<dots> = int n"
      by (metis mult_div_mod_eq of_nat_add of_nat_mult of_nat_numeral)
    finally show ?thesis .
  qed
qed

lemma c_atoi_show_nat:
  assumes "int n \<le> INT_MAX" and "\<not> is_digit c"
  shows "c_atoi (show_nat n @ c # r) = Inr (int n)"
proof -
  obtain d ds where dd: "show_nat n = d # ds"
    by (cases "show_nat n") auto
  have dig: "\<forall>c \<in> set (show_nat n). is_digit c"
    by (simp add: show_nat_digits)
  with dd have d: "is_digit d" by simp
  have "atoi_digits 0 (show_nat n @ c # r) = Inr (int n)"
    using dig assms(2) by (simp add: atoi_digits_append foldl_show_nat)
  then have "atoi_sign (dropWhile is_space (show_nat n @ c # r)) = Inr (int n)"
    using dd d is_digit_neq [OF d] by simp
  then show ?thesis
    using assms(1) by (simp add: c_atoi_def INT_MAX_def)
qed

lemma c_strstr_skip:
  assumes "\<forall>c \<in> set ds. c \<noteq> CR \<and> c \<noteq> NUL"
  shows "c_strstr CRLF (ds @ r) = fmap (map_option (\<lambda>k. length ds + k)) (c_strstr CRLF r)"
  using assms
proof (induction ds)
  case Nil
  show ?case
    by (cases "c_strstr CRLF r") (simp_all add: option.map_ident)
next
  case (Cons d ds)
  then show ?case
    by (cases "c_strstr CRLF r") (simp_all add: option.map_comp o_def)
qed

lemma c_strstr_digits [buf_simps]:
  assumes "\<forall>c \<in> set ds. c \<noteq> CR \<and> c \<noteq> NUL"
  shows "c_strstr CRLF (ds @ CR # LF # r) = Inr (Some (length ds))"
  by (simp add: c_strstr_skip [OF assms])

lemma c_strstr_nul:
  assumes "\<forall>c \<in> set ds. c \<noteq> CR \<and> c \<noteq> NUL"
  shows "c_strstr CRLF (ds @ NUL # r) = Inr None"
  by (simp add: c_strstr_skip [OF assms])

lemma show_nat_no_cr: "\<forall>c \<in> set (show_nat n). c \<noteq> CR \<and> c \<noteq> NUL"
  using is_digit_neq show_nat_digits by blast

subsection \<open>Bounded printing\<close>

text \<open>\<open>snprintf(buf, n, ...)\<close> of the text \<open>s\<close>: at most \<open>n - 1\<close> characters and a NUL.\<close>

definition c_snprintf :: "nat \<Rightarrow> string \<Rightarrow> string \<Rightarrow> string" where
  "c_snprintf n s buf = (let t = take (n - 1) s in t @ NUL # drop (Suc (length t)) buf)"

lemma c_str_snprintf:
  assumes "NUL \<notin> set t" "length t < n" "n \<le> length b"
  shows "c_str (c_snprintf n t b) = Inr t" "length (c_snprintf n t b) = length b"
  using assms by (simp_all add: c_snprintf_def c_str_append)

subsection \<open>C string functions on terminated strings\<close>

lemma of_char_zero: "(of_char d :: nat) = 0 \<longleftrightarrow> d = NUL"
  by (cases d) (simp add: of_char_def; auto)

lemma to_lower_nul [simp]: "to_lower c = NUL \<longleftrightarrow> c = NUL"
proof (cases "65 \<le> (of_char c :: nat) \<and> (of_char c :: nat) \<le> 90")
  case True
  then have "(of_char (to_lower c) :: nat) \<noteq> 0" by (simp add: to_lower_def of_char_of)
  moreover have "(of_char c :: nat) \<noteq> 0" using True by simp
  ultimately show ?thesis unfolding of_char_zero by simp
qed (auto simp: to_lower_def)

lemma c_strstr_total: "NUL \<in> set b \<Longrightarrow> \<exists>r. c_strstr needle b = Inr r"
proof (induction b)
  case (Cons c b)
  then show ?case by (cases "c = NUL") auto
qed simp

lemma c_strcaseeq_total: "NUL \<in> set b \<Longrightarrow> NUL \<notin> set lit \<Longrightarrow> \<exists>q. c_strcaseeq b lit = Inr q"
proof (induction b arbitrary: lit)
  case (Cons c b)
  then show ?case
  proof (cases lit)
    case lit: (Cons d ds)
    have "to_lower c \<noteq> to_lower d" if "c = NUL"
      using lit Cons.prems(2) to_lower_nul [of d] to_lower_nul [of NUL] that by (metis list.set_intros(1))
    then show ?thesis using Cons lit by auto
  qed simp
qed simp

lemma c_strncaseeq_total: "NUL \<in> set b \<Longrightarrow> NUL \<notin> set lit \<Longrightarrow> \<exists>q. c_strncaseeq b lit = Inr q"
proof (induction b arbitrary: lit)
  case (Cons c b)
  then show ?case
  proof (cases lit)
    case lit: (Cons d ds)
    have "to_lower c \<noteq> to_lower d" if "c = NUL"
      using lit Cons.prems(2) to_lower_nul [of d] to_lower_nul [of NUL] that by (metis list.set_intros(1))
    then show ?thesis using Cons lit by auto
  qed auto
qed simp

subsection \<open>Bytes in memory\<close>

text \<open>An \<open>unsigned int\<close> in memory on the little-endian machines the programs are built for.\<close>

type_synonym byte = "8 word"
definition le32_bytes :: "32 word \<Rightarrow> byte list" where
  "le32_bytes w = [ucast w, ucast (drop_bit 8 w), ucast (drop_bit 16 w), ucast (drop_bit 24 w)]"

fun le32 :: "byte list \<Rightarrow> 32 word" where
  "le32 (a # b # c # d # r) = ucast a OR push_bit 8 (ucast b) OR push_bit 16 (ucast c) OR push_bit 24 (ucast d)"
| "le32 _ = 0"

lemma le32_le32_bytes [simp]: "le32 (le32_bytes w @ r) = w"
proof (rule bit_word_eqI)
  fix n assume "n < LENGTH(32)"
  then have "n < 32" by simp
  then show "bit (le32 (le32_bytes w @ r)) n \<longleftrightarrow> bit w n"
    by (cases "n < 8"; cases "n < 16"; cases "n < 24") (auto simp: le32_bytes_def bit_simps)
qed

lemma byte_high [simp]: "8 \<le> n \<Longrightarrow> \<not> bit (x :: byte) n"
  using bit_imp_le_length [of x n] by auto

lemma le32_bytes_le32 [simp]: "length b = 4 \<Longrightarrow> le32_bytes (le32 b) = b"
  by (cases b rule: le32.cases)
    (auto simp: le32_bytes_def bit_simps intro!: bit_word_eqI)

lemma length_le32_bytes [simp]: "length (le32_bytes w) = 4"
  by (simp add: le32_bytes_def)

text \<open>An unsigned integer of \<open>n\<close> bytes in memory, lowest byte first.\<close>

fun le_word :: "byte list \<Rightarrow> 'w::len word" where
  "le_word [] = 0"
| "le_word (b # bs) = ucast b OR push_bit 8 (le_word bs)"

end
