(* ===== verification/Resp.thy ===== *)
theory Resp
  imports Prelude
begin

section \<open>The request and reply scanners of the proxy (redis-proxy/echo.c)\<close>

text \<open>
  \<open>redis-proxy\<close> loads its command module \<open>echo.so\<close>, whose scanners decide from the bytes
  received so far whether a request or a reply is complete: 1 complete, 0 more bytes needed,
  -1 protocol error, -2 the client asked to quit. The functions below take the whole
  allocation \<open>b\<close> and the number \<open>rlen\<close> of bytes received; the scanners look for a line end
  with \<open>strstr\<close>, so they may also look at what lies behind the received bytes. Every pointer
  the code moves is an offset, and every read is checked against the allocation.
\<close>

subsection \<open>Definitions\<close>

text \<open>\<open>exit\<close> ends the process; the other way out of the scanner is its return value.\<close>

datatype req_out = Ret int | Proc_exit int

definition ends_crlf :: "string \<Rightarrow> int \<Rightarrow> bool res" where
  "ends_crlf b rlen =
     fbind (c_get b (rlen - 2)) (\<lambda>c. if c \<noteq> CR then Inr False
       else fmap (\<lambda>d. d = LF) (c_get b (rlen - 1)))"

text \<open>The decimal line after \<open>*\<close> or \<open>$\<close>: \<open>memset(slen,0,11)\<close>, \<open>strstr\<close> for the line end,
  \<open>strncpy\<close> of the line into \<open>slen[11]\<close>, \<open>atoi\<close>. Gives the number and the offset behind the
  line end. A missing line end makes \<open>p\<close> \<open>NULL\<close>; a line of more than 11 bytes overruns
  \<open>slen\<close>; a line of exactly 11 digits leaves it without a terminator.\<close>

definition read_len :: "string \<Rightarrow> int \<Rightarrow> (int \<times> int) res" where
  "read_len b i =
     (if i < 0 \<or> int (length b) < i then Inl Out_of_bounds
      else fbind (c_strstr CRLF (drop (nat i) b)) (\<lambda>p. case p of
          None \<Rightarrow> Inl Null_deref
        | Some k \<Rightarrow>
            if 11 < k then Inl Buffer_overflow
            else let slen = take k (drop (nat i) b) @ replicate (11 - k) NUL
                 in fmap (\<lambda>n. (n, i + int k + 2)) (c_atoi slen)))"

text \<open>\<open>rbuf += ilen + 2\<close>, the skip over a bulk and its line end; a length of -1 (the nil bulk)
  does not move.\<close>

definition skip_bulk :: "int \<Rightarrow> int \<Rightarrow> int res" where
  "skip_bulk ilen p =
     (if ilen = -1 then Inr p
      else if INT_MAX < ilen + 2 then Inl Signed_overflow
      else Inr (p + (ilen + 2)))"

text \<open>The loop over the bulks, \<open>argc\<close> of them left, the pointer at offset \<open>pos\<close>.\<close>

fun bulk_loop :: "string \<Rightarrow> int \<Rightarrow> nat \<Rightarrow> int \<Rightarrow> int res" where
  "bulk_loop b rlen 0 pos = Inr (if pos \<noteq> rlen then -1 else 1)"
| "bulk_loop b rlen (Suc argc) pos =
     fbind (c_get b pos) (\<lambda>c.
       if c \<noteq> CHR ''$'' then Inr (-1)
       else fbind (read_len b (pos + 1)) (\<lambda>(ilen, p).
         fbind (skip_bulk ilen p) (\<lambda>q.
           if rlen < q then Inr 0
           else if q = rlen \<and> Suc argc \<noteq> 1 then Inr 0
           else bulk_loop b rlen argc q)))"

definition processRequestBuffer :: "string \<Rightarrow> int \<Rightarrow> req_out res" where
  "processRequestBuffer b rlen =
     (if rlen < 3 then Inr (Ret 0)
      else fbind (ends_crlf b rlen) (\<lambda>e.
        if \<not> e then Inr (Ret 0)
        else fbind (c_get b 0) (\<lambda>c.
          if c \<noteq> CHR ''*'' then
            fbind (c_strcaseeq b (''quit'' @ CRLF)) (\<lambda>quit.
              if quit then Inr (Ret (-2))
              else fbind (c_strcaseeq b (''exit'' @ CRLF)) (\<lambda>ex.
                if ex then Inr (Proc_exit 1) else Inr (Ret 1)))
          else fbind (read_len b 1) (\<lambda>(argc, p).
            if argc \<le> 0 \<or> 1024 < argc then Inr (Ret (-1))
            else if rlen \<le> p then Inr (Ret 0)
            else fmap Ret (bulk_loop b rlen (nat argc) p)))))"

text \<open>The three one-line replies: status, error, integer. They differ in the first byte only.\<close>

definition line_response :: "char \<Rightarrow> string \<Rightarrow> int \<Rightarrow> int res" where
  "line_response tag b rlen =
     fbind (c_get b 0) (\<lambda>c.
       if c \<noteq> tag then Inr (-1)
       else if rlen < 3 then Inr 0
       else fbind (ends_crlf b rlen) (\<lambda>e.
         if \<not> e then Inr 0
         else fbind (c_strstr CRLF b) (\<lambda>p. case p of
             None \<Rightarrow> Inl Null_deref
           | Some k \<Rightarrow> Inr (if int k + 2 \<noteq> rlen then -1 else 1))))"

definition validSingleLineResponseBuffer :: "string \<Rightarrow> int \<Rightarrow> int res" where
  "validSingleLineResponseBuffer = line_response (CHR ''+'')"

definition validErrorMsgResponseBuffer :: "string \<Rightarrow> int \<Rightarrow> int res" where
  "validErrorMsgResponseBuffer = line_response (CHR ''-'')"

definition validIntegerReplyResponseBuffer :: "string \<Rightarrow> int \<Rightarrow> int res" where
  "validIntegerReplyResponseBuffer = line_response (CHR '':'')"

definition validBulkReplyResponseBuffer :: "string \<Rightarrow> int \<Rightarrow> int res" where
  "validBulkReplyResponseBuffer b rlen =
     fbind (c_get b 0) (\<lambda>c.
       if c \<noteq> CHR ''$'' then Inr (-1)
       else if rlen < 3 then Inr 0
       else fbind (ends_crlf b rlen) (\<lambda>e.
         if \<not> e then Inr 0
         else fbind (read_len b 1) (\<lambda>(ilen, p).
           fbind (skip_bulk ilen p) (\<lambda>q.
             Inr (if rlen < q then 0 else if q = rlen then 1 else -1)))))"

definition validMultiBuckResponseBuffer :: "string \<Rightarrow> int \<Rightarrow> int res" where
  "validMultiBuckResponseBuffer b rlen =
     fbind (c_get b 0) (\<lambda>c.
       if c \<noteq> CHR ''*'' then Inr (-1)
       else if rlen < 3 then Inr 0
       else fbind (ends_crlf b rlen) (\<lambda>e.
         if \<not> e then Inr 0
         else fbind (read_len b 1) (\<lambda>(argc, p).
           if argc < 0 \<or> 1024 < argc then Inr (-1)
           else if argc = 0 \<and> p = rlen then Inr 1
           else if argc \<noteq> 0 \<and> p = rlen then Inr 0
           else bulk_loop b rlen (nat argc) p)))"

definition processResponseBuffer :: "string \<Rightarrow> int \<Rightarrow> int res" where
  "processResponseBuffer b rlen =
     fbind (c_get b 0) (\<lambda>s.
       if s = CHR ''+'' then validSingleLineResponseBuffer b rlen
       else if s = CHR ''-'' then validErrorMsgResponseBuffer b rlen
       else if s = CHR '':'' then validIntegerReplyResponseBuffer b rlen
       else if s = CHR ''$'' then validBulkReplyResponseBuffer b rlen
       else if s = CHR ''*'' then validMultiBuckResponseBuffer b rlen
       else Inr (-1))"

subsection \<open>The protocol, as a writer produces it\<close>

definition enc_len :: "char \<Rightarrow> nat \<Rightarrow> string" where
  "enc_len tag n = tag # show_nat n @ CRLF"

definition enc_bulk :: "string \<Rightarrow> string" where
  "enc_bulk s = enc_len (CHR ''$'') (length s) @ s @ CRLF"

definition enc_nil :: string where
  "enc_nil = ''$-1'' @ CRLF"

fun enc_item :: "string option \<Rightarrow> string" where
  "enc_item None = enc_nil"
| "enc_item (Some s) = enc_bulk s"

definition enc_items :: "string option list \<Rightarrow> string" where
  "enc_items xs = concat (map enc_item xs)"

definition enc_request :: "string list \<Rightarrow> string" where
  "enc_request args = enc_len (CHR ''*'') (length args) @ concat (map enc_bulk args)"

datatype reply =
    Status string
  | Err string
  | Integer int
  | Bulk "string option"
  | Multi "string option list"

fun enc_reply :: "reply \<Rightarrow> string" where
  "enc_reply (Status s) = CHR ''+'' # s @ CRLF"
| "enc_reply (Err s) = CHR ''-'' # s @ CRLF"
| "enc_reply (Integer i) = CHR '':'' # show_int i @ CRLF"
| "enc_reply (Bulk x) = enc_item x"
| "enc_reply (Multi xs) = enc_len (CHR ''*'') (length xs) @ enc_items xs"

text \<open>What fits the scanners: a line holds neither a carriage return nor a NUL, a bulk is
  shorter than the largest \<open>int\<close> less its line end, at most 1024 items.\<close>

definition ok_line :: "string \<Rightarrow> bool" where
  "ok_line s \<longleftrightarrow> CR \<notin> set s \<and> NUL \<notin> set s"

definition ok_bulk :: "string \<Rightarrow> bool" where
  "ok_bulk s \<longleftrightarrow> int (length s) + 2 \<le> INT_MAX"

fun ok_item :: "string option \<Rightarrow> bool" where
  "ok_item None = True"
| "ok_item (Some s) = ok_bulk s"

fun ok_reply :: "reply \<Rightarrow> bool" where
  "ok_reply (Status s) = ok_line s"
| "ok_reply (Err s) = ok_line s"
| "ok_reply (Integer i) = True"
| "ok_reply (Bulk x) = ok_item x"
| "ok_reply (Multi xs) = (length xs \<le> 1024 \<and> list_all ok_item xs)"

definition ok_request :: "string list \<Rightarrow> bool" where
  "ok_request args \<longleftrightarrow> 1 \<le> length args \<and> length args \<le> 1024 \<and> list_all ok_bulk args"

subsection \<open>Reading one length line\<close>

lemma enc_request_items: "concat (map enc_bulk args) = enc_items (map Some args)"
  by (simp add: enc_items_def o_def)

lemma enc_items_simps [simp]: "enc_items [] = []" "enc_items (x # xs) = enc_item x @ enc_items xs"
  by (simp_all add: enc_items_def)

lemma show_nat_len11: "int n \<le> INT_MAX \<Longrightarrow> length (show_nat n) \<le> 10"
  by (rule length_show_nat) (auto simp: INT_MAX_def)

lemma read_len_digits:
  assumes "int n \<le> INT_MAX"
  shows "read_len (pre @ show_nat n @ CRLF @ r) (int (length pre))
    = Inr (int n, int (length pre + length (show_nat n) + 2))"
proof -
  have len: "length (show_nat n) \<le> 10" by (rule show_nat_len11 [OF assms])
  have atoi: "c_atoi (show_nat n @ replicate (11 - length (show_nat n)) NUL) = Inr (int n)"
  proof -
    obtain m where "11 - length (show_nat n) = Suc m"
      using len by (cases "11 - length (show_nat n)") auto
    then show ?thesis using c_atoi_show_nat [OF assms, of NUL] by simp
  qed
  show ?thesis
    using len atoi by (simp add: read_len_def c_strstr_digits [OF show_nat_no_cr])
qed

lemma read_len_enc_len:
  assumes "int n \<le> INT_MAX"
  shows "read_len (pre @ enc_len t n @ r) (int (length pre) + 1)
    = Inr (int n, int (length pre + length (enc_len t n)))"
  using read_len_digits [OF assms, of "pre @ [t]" r] by (simp add: enc_len_def add.commute)

lemma read_len_nil:
  "read_len (pre @ enc_nil @ r) (int (length pre) + 1) = Inr (-1, int (length pre + 5))"
proof -
  have drp: "drop (nat (int (length pre) + 1)) (pre @ enc_nil @ r) = ''-1'' @ CR # LF # r"
    by (simp add: nat_add_distrib enc_nil_def)
  have "c_strstr CRLF (''-1'' @ CR # LF # r) = Inr (Some 2)"
    using c_strstr_digits [of "''-1''" r] by simp
  moreover have "c_atoi (''-1'' @ replicate 9 NUL) = Inr (- 1)"
    by (simp add: c_atoi_def is_space_def is_digit_def digit_val_def numeral_eq_Suc)
  ultimately show ?thesis
    unfolding read_len_def drp by (simp add: enc_nil_def)
qed

lemma skip_bulk_ok:
  "ok_bulk s \<Longrightarrow> skip_bulk (int (length s)) p = Inr (p + int (length s) + 2)"
  by (simp add: skip_bulk_def ok_bulk_def)

lemma ok_bulk_int: "ok_bulk s \<Longrightarrow> int (length s) \<le> INT_MAX"
  by (simp add: ok_bulk_def)

text \<open>A received piece that ends in a line feed holds the length line of the item it starts.\<close>

lemma enc_item_dollar: "\<exists>t. enc_item x = CHR ''$'' # t"
  by (cases x) (auto simp: enc_nil_def enc_bulk_def enc_len_def)

lemma header_prefix:
  assumes "h @ body = d @ d3" "d \<noteq> []" "last d = LF" "LF \<notin> set (butlast h)"
  shows "\<exists>d4. d = h @ d4"
proof (rule ccontr)
  assume no: "\<not> ?thesis"
  with assms(1) obtain us where h: "h = d @ us" and "us \<noteq> []"
    by (metis append_eq_append_conv2 append_Nil2)
  then have "butlast h = d @ butlast us" by (simp add: butlast_append)
  moreover have "LF \<in> set d" using assms(2,3) last_in_set by metis
  ultimately show False using assms(4) by simp
qed

lemma enc_len_lf: "t \<noteq> LF \<Longrightarrow> LF \<notin> set (butlast (enc_len t n))"
  using is_digit_neq(2) show_nat_digits [of _ n] by (auto simp: enc_len_def butlast_append)

lemma item_step:
  assumes "ok_item x" "enc_item x = d @ d3" "d \<noteq> []" "last d = LF"
  shows "\<exists>v p. read_len (pre @ d @ r) (int (length pre) + 1) = Inr (v, p)
    \<and> skip_bulk v p = Inr (int (length pre + length (enc_item x)))"
proof (cases x)
  case None
  have "LF \<notin> set (butlast enc_nil)" by (simp add: enc_nil_def)
  with None assms obtain d4 where "d = enc_nil @ d4"
    using header_prefix [of enc_nil "[]" d d3] by auto
  then show ?thesis
    using None read_len_nil [of pre "d4 @ r"] by (simp add: enc_nil_def skip_bulk_def)
next
  case (Some s)
  let ?h = "enc_len (CHR ''$'') (length s)"
  from Some assms have ok: "ok_bulk s" by simp
  from Some assms obtain d4 where d: "d = ?h @ d4"
    using header_prefix [of ?h "s @ CRLF" d d3] enc_len_lf [of "CHR ''$''"]
    by (auto simp: enc_bulk_def)
  have "read_len (pre @ d @ r) (int (length pre) + 1)
    = Inr (int (length s), int (length pre + length ?h))"
    using read_len_enc_len [OF ok_bulk_int [OF ok], of pre "CHR ''$''" "d4 @ r"] d by simp
  with Some show ?thesis
    by (simp add: skip_bulk_ok [OF ok] enc_bulk_def)
qed

lemma enc_item_last: "enc_item x \<noteq> [] \<and> last (enc_item x) = LF"
  by (cases x) (auto simp: enc_nil_def enc_bulk_def)

lemma enc_item_ne [simp]: "enc_item x \<noteq> []"
  by (simp add: enc_item_last)

lemma enc_bulk_ne [simp]: "enc_bulk s \<noteq> []"
  using enc_item_ne [of "Some s"] by simp

lemma bulk_loop_step:
  assumes "ok_item x" "enc_item x = d @ d3" "d \<noteq> []" "last d = LF"
    and "q = int (length pre + length (enc_item x))"
  shows "bulk_loop (pre @ d @ r) rlen (Suc n) (int (length pre)) =
    (if rlen < q then Inr 0 else if q = rlen \<and> n \<noteq> 0 then Inr 0
     else bulk_loop (pre @ d @ r) rlen n q)"
proof -
  obtain t where "enc_item x = CHR ''$'' # t" using enc_item_dollar by blast
  with assms(2,3) obtain t' where "d = CHR ''$'' # t'" by (cases d) auto
  then have "c_get (pre @ d @ r) (int (length pre)) = Inr (CHR ''$'')"
    by (simp add: c_get_def nth_append)
  moreover obtain v p where "read_len (pre @ d @ r) (int (length pre) + 1) = Inr (v, p)"
    "skip_bulk v p = Inr q"
    using item_step [OF assms(1-4)] assms(5) by blast
  ultimately show ?thesis by simp
qed

declare bulk_loop.simps(2) [simp del]

lemma bulk_loop_complete:
  assumes "list_all ok_item xs"
  shows "bulk_loop (pre @ enc_items xs @ r) (int (length pre + length (enc_items xs) + k))
    (length xs) (int (length pre)) = Inr (if k = 0 then 1 else -1)"
  using assms
proof (induction xs arbitrary: pre)
  case Nil
  show ?case by simp
next
  case (Cons x xs)
  let ?rlen = "int (length pre + length (enc_items (x # xs)) + k)"
  let ?q = "int (length pre + length (enc_item x))"
  have "\<not> (?q = ?rlen \<and> length xs \<noteq> 0)"
    by (cases xs) (auto simp: add_nonneg_eq_0_iff)
  then have "bulk_loop (pre @ enc_items (x # xs) @ r) ?rlen (length (x # xs)) (int (length pre))
    = bulk_loop ((pre @ enc_item x) @ enc_items xs @ r) ?rlen (length xs) ?q"
    using bulk_loop_step [of x "enc_item x" "[]" ?q pre "enc_items xs @ r" ?rlen "length xs"]
      Cons.prems enc_item_last by auto
  also have "\<dots> = Inr (if k = 0 then 1 else -1)"
    using Cons.IH [of "pre @ enc_item x"] Cons.prems by (simp add: add.assoc)
  finally show ?case .
qed

lemma bulk_loop_prefix:
  assumes "list_all ok_item xs" "enc_items xs = d @ d2" "d2 \<noteq> []" "d \<noteq> []" "last d = LF"
  shows "bulk_loop (pre @ d @ r) (int (length pre + length d)) (length xs) (int (length pre))
    = Inr 0"
  using assms
proof (induction xs arbitrary: pre d)
  case Nil
  then show ?case by simp
next
  case (Cons x xs)
  let ?rlen = "int (length pre + length d)"
  let ?q = "int (length pre + length (enc_item x))"
  show ?case
  proof (cases "length d < length (enc_item x)")
    case True
    then obtain d3 where "enc_item x = d @ d3"
      using Cons.prems(2) by (auto simp: append_eq_append_conv2)
    then show ?thesis
      using bulk_loop_step [of x d d3 ?q pre r ?rlen "length xs"] Cons.prems True by simp
  next
    case False
    then obtain d' where d: "d = enc_item x @ d'" and rest: "enc_items xs = d' @ d2"
      using Cons.prems(2) by (auto simp: append_eq_append_conv2)
    have step: "bulk_loop (pre @ d @ r) ?rlen (length (x # xs)) (int (length pre))
      = (if d' = [] \<and> xs \<noteq> [] then Inr 0
         else bulk_loop ((pre @ enc_item x) @ d' @ r) ?rlen (length xs) ?q)"
      using bulk_loop_step [of x "enc_item x" "[]" ?q pre "d' @ r" ?rlen "length xs"]
        Cons.prems(1) enc_item_last d by auto
    show ?thesis
    proof (cases "d' = []")
      case True
      with rest Cons.prems(3) have "xs \<noteq> []" by auto
      with True step show ?thesis by simp
    next
      case False
      then show ?thesis
        using step Cons.IH [of d' "pre @ enc_item x"] rest Cons.prems d
        by (simp add: add.assoc)
    qed
  qed
qed

subsection \<open>Requests and replies as they arrive\<close>

lemma ends_crlf_received:
  assumes "2 \<le> length d"
  shows "ends_crlf (d @ r) (int (length d)) = Inr (\<exists>d'. d = d' @ CRLF)"
proof -
  from assms obtain d0 y where "d = d0 @ [y]" "d0 \<noteq> []"
    by (cases d rule: rev_cases) (auto simp: Suc_le_eq)
  moreover from this obtain d1 x where "d0 = d1 @ [x]" by (cases d0 rule: rev_cases) auto
  ultimately have "d = d1 @ [x, y]" by simp
  then show ?thesis
    by (auto simp: ends_crlf_def c_get_def nth_append nat_add_distrib)
qed

lemma enc_items_crlf: "xs \<noteq> [] \<Longrightarrow> \<exists>d. enc_items xs = d @ CRLF"
proof (induction xs rule: rev_induct)
  case (snoc x xs)
  have "\<exists>d. enc_item x = d @ CRLF" by (cases x) (auto simp: enc_nil_def enc_bulk_def)
  then show ?case by (auto simp: enc_items_def)
qed simp

text \<open>The scan of a length line and its items, whatever has arrived of them.\<close>

lemma count_line:
  assumes "int n \<le> INT_MAX" "enc_len t n @ body = d @ d3" "d \<noteq> []" "last d = LF" "t \<noteq> LF"
  shows "\<exists>d4. d = enc_len t n @ d4 \<and>
    read_len (d @ r) 1 = Inr (int n, int (length (enc_len t n)))"
proof -
  from assms obtain d4 where d: "d = enc_len t n @ d4"
    using header_prefix [of "enc_len t n" body d d3] enc_len_lf [of t n] by auto
  then show ?thesis
    using read_len_enc_len [OF assms(1), of "[]" t "d4 @ r"] by simp
qed

lemma scan_items:
  assumes "list_all ok_item xs" "h @ enc_items xs = d @ d3" "d = h @ d4" "d \<noteq> []" "last d = LF"
    "d4 \<noteq> [] \<or> xs = []"
  shows "bulk_loop (d @ r) (int (length d)) (length xs) (int (length h))
    = Inr (if d3 = [] then 1 else 0)"
proof (cases "d3 = []")
  case True
  with assms(2,3) show ?thesis
    using bulk_loop_complete [OF assms(1), of h r 0] by simp
next
  case False
  with assms(2,3) have items: "enc_items xs = d4 @ d3" by simp
  with False assms(6) have "d4 \<noteq> []" by auto
  with assms(3,5) have "last d4 = LF" by simp
  with False items \<open>d4 \<noteq> []\<close> show ?thesis
    using bulk_loop_prefix [OF assms(1), of d4 d3 h r] assms(3) by simp
qed

lemma c_get_first: "b \<noteq> [] \<Longrightarrow> c_get (b @ r) 0 = Inr (hd b)"
  by (cases b) (simp_all add: c_get_def)

lemma hd_prefix: "x # h = d @ d3 \<Longrightarrow> d \<noteq> [] \<Longrightarrow> hd d = x"
  by (cases d) auto

text \<open>Both counted forms (a request, a multi-bulk reply) once their first line is in.\<close>

lemma counted:
  assumes "list_all ok_item xs" "length xs \<le> 1024" "t \<noteq> LF"
    and enc: "enc_len t (length xs) @ enc_items xs = d @ d3" and "d \<noteq> []" "last d = LF"
  obtains p where "c_get (d @ r) 0 = Inr t" "read_len (d @ r) 1 = Inr (int (length xs), p)"
    "p \<le> int (length d)" "p = int (length d) \<Longrightarrow> d3 = [] \<longleftrightarrow> xs = []"
    "p < int (length d) \<or> xs = [] \<Longrightarrow> bulk_loop (d @ r) (int (length d)) (length xs) p
      = Inr (if d3 = [] then 1 else 0)"
proof -
  let ?h = "enc_len t (length xs)"
  have le: "int (length xs) \<le> INT_MAX" using assms(2) by (simp add: INT_MAX_def)
  obtain d4 where d4: "d = ?h @ d4" "read_len (d @ r) 1 = Inr (int (length xs), int (length ?h))"
    using count_line [OF le enc assms(5,6,3), of r] by blast
  have "hd d = t"
    using hd_prefix [of t "show_nat (length xs) @ CRLF @ enc_items xs" d d3] enc assms(5)
    by (simp add: enc_len_def)
  then have "c_get (d @ r) 0 = Inr t" using c_get_first [OF assms(5)] by metis
  moreover have "d4 = [] \<Longrightarrow> d3 = [] \<longleftrightarrow> xs = []"
    using enc d4(1) by (cases xs) auto
  ultimately show ?thesis
    using that [of "int (length ?h)"] d4
      scan_items [OF assms(1) enc d4(1) assms(5,6), of r] by auto
qed

lemma length_enc_len: "4 \<le> length (enc_len t n)"
  using show_nat_ne [of n] by (cases "show_nat n") (simp_all add: enc_len_def)

lemma short_piece: "enc_len t n @ b = d @ d3 \<Longrightarrow> length d < 3 \<Longrightarrow> d3 \<noteq> []"
  using length_enc_len [of t n] by (auto dest: arg_cong [where f = length])

lemma request_piece:
  assumes ok: "ok_request args" and enc: "enc_request args = d @ d3"
  shows "processRequestBuffer (d @ r) (int (length d)) = Inr (Ret (if d3 = [] then 1 else 0))"
proof -
  let ?xs = "map Some args"
  from enc have enc': "enc_len (CHR ''*'') (length ?xs) @ enc_items ?xs = d @ d3"
    by (simp add: enc_request_def enc_request_items)
  from ok have items: "list_all ok_item ?xs" "length ?xs \<le> 1024" "?xs \<noteq> []"
    by (auto simp: ok_request_def list_all_iff)
  show ?thesis
  proof (cases "3 \<le> length d")
    case False
    then show ?thesis using short_piece [OF enc'] by (simp add: processRequestBuffer_def)
  next
    case True
    then have e: "ends_crlf (d @ r) (int (length d)) = Inr (\<exists>d'. d = d' @ CRLF)"
      by (intro ends_crlf_received) simp
    from True have ne: "d \<noteq> []" by auto
    show ?thesis
    proof (cases "\<exists>d'. d = d' @ CRLF")
      case False
      moreover have "d3 \<noteq> []"
      proof
        assume "d3 = []"
        with enc' enc_items_crlf [OF items(3)] obtain d' where "d = d' @ CRLF"
          by (metis append.assoc append_Nil2)
        with False show False by blast
      qed
      ultimately show ?thesis using e True by (simp add: processRequestBuffer_def)
    next
      case lf: True
      then have "last d = LF" by auto
      then obtain p where p: "c_get (d @ r) 0 = Inr (CHR ''*'')"
        "read_len (d @ r) 1 = Inr (int (length ?xs), p)" "p \<le> int (length d)"
        "p = int (length d) \<Longrightarrow> d3 = [] \<longleftrightarrow> ?xs = []"
        "p < int (length d) \<or> ?xs = [] \<Longrightarrow> bulk_loop (d @ r) (int (length d)) (length ?xs) p
          = Inr (if d3 = [] then 1 else 0)"
        using counted [OF items(1,2) _ enc' ne] by auto
      have "0 < length args" "length args \<le> 1024" using items by auto
      with True e lf p show ?thesis
        by (auto simp: processRequestBuffer_def)
    qed
  qed
qed

subsection \<open>Replies as they arrive\<close>

lemma c_strstr_line: "ok_line s \<Longrightarrow> c_strstr CRLF (t # s @ CRLF @ r) = Inr (Some (length s + 1))"
  if "t \<noteq> CR" "t \<noteq> NUL" for t
  using c_strstr_digits [of "t # s" r] that by (auto simp: ok_line_def)

lemma line_piece:
  assumes ok: "ok_line s" and enc: "t # s @ CRLF = d @ d3" and ne: "d \<noteq> []"
    and t: "t \<noteq> CR" "t \<noteq> NUL"
  shows "line_response t (d @ r) (int (length d)) = Inr (if d3 = [] then 1 else 0)"
proof -
  have first: "c_get (d @ r) 0 = Inr t"
    using c_get_first [OF ne, of r] hd_prefix [OF enc ne] by simp
  have len: "length d < 3 \<Longrightarrow> d3 \<noteq> []"
    using arg_cong [OF enc, of length] by auto
  have cr: "d3 = []" if "d = d' @ CRLF" for d'
  proof (rule ccontr)
    assume "d3 \<noteq> []"
    then obtain d0 y where "d3 = d0 @ [y]" by (cases d3 rule: rev_cases) auto
    with enc that have "t # s @ [CR] = d' @ [CR, LF] @ d0" by simp
    then have "CR \<in> set (t # s)" by (cases d0 rule: rev_cases) (auto simp: append_eq_Cons_conv)
    with ok t show False by (simp add: ok_line_def)
  qed
  show ?thesis
  proof (cases "d3 = []")
    case True
    with enc have d: "d = (t # s) @ CRLF" by simp
    then have "ends_crlf (d @ r) (int (length d)) = Inr True"
      using ends_crlf_received [of d r] by auto
    with True d first show ?thesis
      using c_strstr_line [OF t ok, of r] by (simp add: line_response_def)
  next
    case False
    with cr have "\<not> (\<exists>d'. d = d' @ CRLF)" by blast
    with False first show ?thesis
      using ends_crlf_received [of d r] by (simp add: line_response_def)
  qed
qed

lemma bulk_piece:
  assumes ok: "ok_item x" and enc: "enc_item x = d @ d3" and ne: "d \<noteq> []"
  shows "validBulkReplyResponseBuffer (d @ r) (int (length d)) = Inr (if d3 = [] then 1 else 0)"
proof -
  obtain i where i: "enc_item x = CHR ''$'' # i" using enc_item_dollar by blast
  have first: "c_get (d @ r) 0 = Inr (CHR ''$'')"
    using c_get_first [OF ne, of r] hd_prefix [of _ i d d3] enc ne i by simp
  obtain y where y: "enc_item x = y @ CRLF"
    using enc_items_crlf [of "[x]"] by auto
  with enc_item_last [of x] i have len: "3 \<le> length (enc_item x)" by (cases y) auto
  show ?thesis
  proof (cases "3 \<le> length d \<and> (\<exists>d'. d = d' @ CRLF)")
    case True
    then have lf: "last d = LF" and e: "ends_crlf (d @ r) (int (length d)) = Inr True"
      using ends_crlf_received [of d r] by auto
    obtain v p where "read_len (d @ r) 1 = Inr (v, p)"
      "skip_bulk v p = Inr (int (length (enc_item x)))"
      using item_step [OF ok enc ne lf, of "[]" r] by auto
    moreover have "length (enc_item x) = length d + length d3" using enc by simp
    ultimately show ?thesis
      using True first e by (simp add: validBulkReplyResponseBuffer_def)
  next
    case False
    with enc y len have "d3 \<noteq> []" by auto
    then show ?thesis
      using False first ends_crlf_received [of d r] by (auto simp: validBulkReplyResponseBuffer_def)
  qed
qed

lemma multi_piece:
  assumes ok: "list_all ok_item xs" "length xs \<le> 1024" and ne: "d \<noteq> []"
    and enc: "enc_len (CHR ''*'') (length xs) @ enc_items xs = d @ d3"
  shows "validMultiBuckResponseBuffer (d @ r) (int (length d)) = Inr (if d3 = [] then 1 else 0)"
proof -
  have first: "c_get (d @ r) 0 = Inr (CHR ''*'')"
    using c_get_first [OF ne, of r] hd_prefix [of "CHR ''*''" _ d d3] enc ne
    by (simp add: enc_len_def)
  have crlf: "\<exists>d'. enc_len (CHR ''*'') (length xs) @ enc_items xs = d' @ CRLF"
    using enc_items_crlf [of xs] by (cases "xs = []") (auto simp: enc_len_def)
  show ?thesis
  proof (cases "3 \<le> length d \<and> (\<exists>d'. d = d' @ CRLF)")
    case True
    then have lf: "last d = LF" and e: "ends_crlf (d @ r) (int (length d)) = Inr True"
      using ends_crlf_received [of d r] by auto
    from counted [OF ok _ enc ne lf, of r] obtain p where
      "read_len (d @ r) 1 = Inr (int (length xs), p)" "p \<le> int (length d)"
      "p = int (length d) \<Longrightarrow> d3 = [] \<longleftrightarrow> xs = []"
      "p < int (length d) \<or> xs = [] \<Longrightarrow> bulk_loop (d @ r) (int (length d)) (length xs) p
        = Inr (if d3 = [] then 1 else 0)" by auto
    note p = this
    have len: "3 \<le> int (length d)" using True by simp
    have argc: "\<not> (int (length xs) < 0 \<or> 1024 < int (length xs))" using ok(2) by simp
    have whole: "xs = [] \<Longrightarrow> p = int (length d) \<and> d3 = []"
      using p(3,4) by (cases "p = int (length d)"; cases "d3 = []") auto
    have start: "validMultiBuckResponseBuffer (d @ r) (int (length d)) =
      (if xs = [] \<and> p = int (length d) then Inr 1
       else if xs \<noteq> [] \<and> p = int (length d) then Inr 0
       else bulk_loop (d @ r) (int (length d)) (length xs) p)"
      using len first e p(1) argc by (simp add: validMultiBuckResponseBuffer_def)
    show ?thesis
    proof (cases "p = int (length d)")
      case True
      with start p(3) [OF True] show ?thesis by simp
    next
      case False
      with p(2) whole have "p < int (length d)" "xs \<noteq> []" by auto
      with start p(4) show ?thesis by simp
    qed
  next
    case False
    have "d3 \<noteq> []"
    proof
      assume "d3 = []"
      with enc crlf have "\<exists>d'. d = d' @ CRLF" by simp
      moreover have "3 \<le> length d" using short_piece [OF enc] \<open>d3 = []\<close> by linarith
      ultimately show False using False by blast
    qed
    then show ?thesis
      using False first ends_crlf_received [of d r] by (auto simp: validMultiBuckResponseBuffer_def)
  qed
qed

lemma ok_line_show_int: "ok_line (show_int i)"
  using is_digit_neq show_nat_digits by (force simp: ok_line_def show_int_def)

lemmas response_defs = validSingleLineResponseBuffer_def validErrorMsgResponseBuffer_def
  validIntegerReplyResponseBuffer_def

lemma reply_piece:
  assumes "ok_reply x" "enc_reply x = d @ d3" "d \<noteq> []"
  shows "processResponseBuffer (d @ r) (int (length d)) = Inr (if d3 = [] then 1 else 0)"
proof (cases x)
  case (Status s)
  with assms c_get_first [OF assms(3), of r] hd_prefix [of _ _ d d3] line_piece [of s _ d d3 r]
  show ?thesis by (simp add: processResponseBuffer_def response_defs)
next
  case (Err s)
  with assms c_get_first [OF assms(3), of r] hd_prefix [of _ _ d d3] line_piece [of s _ d d3 r]
  show ?thesis by (simp add: processResponseBuffer_def response_defs)
next
  case (Integer i)
  with assms c_get_first [OF assms(3), of r] hd_prefix [of _ _ d d3]
    line_piece [OF ok_line_show_int, of _ i d d3 r]
  show ?thesis by (simp add: processResponseBuffer_def response_defs)
next
  case (Bulk y)
  moreover obtain i where "enc_item y = CHR ''$'' # i" using enc_item_dollar by blast
  ultimately show ?thesis
    using assms c_get_first [OF assms(3), of r] hd_prefix [of _ i d d3] bulk_piece [of y d d3 r]
    by (simp add: processResponseBuffer_def)
next
  case (Multi xs)
  with assms c_get_first [OF assms(3), of r] hd_prefix [of "CHR ''*''" _ d d3]
    multi_piece [of xs d d3 r]
  show ?thesis by (simp add: processResponseBuffer_def enc_len_def)
qed

subsection \<open>Properties of the scanners\<close>

text \<open>C1. A request is recognised exactly when its last byte has arrived. For any request that
  fits the protocol and any number of its bytes received (the rest of the buffer holding
  anything), the scanner answers 0 while bytes are missing and 1 when all are there: it never
  fails, never reports an error, never accepts early.\<close>

theorem request_stream:
  assumes "ok_request args" "n \<le> length (enc_request args)"
  shows "processRequestBuffer (take n (enc_request args) @ r) (int n)
    = Inr (Ret (if n = length (enc_request args) then 1 else 0))"
  using request_piece [OF assms(1), of "take n (enc_request args)" "drop n (enc_request args)" r]
    assms(2) by (simp add: min.absorb2)

theorem request_stream_witness:
  "processRequestBuffer (take 13 (enc_request [''GET'', ''k'']) @ [NUL]) 13 = Inr (Ret 0)"
proof -
  have l: "length (enc_request [''GET'', ''k'']) = 20"
    by (simp add: enc_request_def enc_bulk_def enc_len_def show_nat.simps)
  have "ok_request [''GET'', ''k'']"
    by (simp add: ok_request_def ok_bulk_def INT_MAX_def)
  from request_stream [OF this, of 13 "[NUL]"] l show ?thesis by simp
qed

text \<open>C4. The same for the replies of the backend: every reply the protocol can carry (status,
  error, integer, bulk, nil, multi-bulk), cut after any positive number of bytes, is reported
  complete exactly at its last byte.\<close>

theorem reply_stream:
  assumes "ok_reply x" "1 \<le> n" "n \<le> length (enc_reply x)"
  shows "processResponseBuffer (take n (enc_reply x) @ r) (int n)
    = Inr (if n = length (enc_reply x) then 1 else 0)"
proof -
  from assms have "take n (enc_reply x) \<noteq> []" by auto
  with reply_piece [OF assms(1), of "take n (enc_reply x)" "drop n (enc_reply x)" r] assms(3)
  show ?thesis by (simp add: min.absorb2)
qed

theorem reply_stream_witness:
  "processResponseBuffer (take 4 (enc_reply (Status ''OK''))) 4 = Inr 0
   \<and> processResponseBuffer (take 5 (enc_reply (Status ''OK''))) 5 = Inr 1"
proof -
  have ok: "ok_reply (Status ''OK'')" by (simp add: ok_line_def)
  show ?thesis
    using reply_stream [OF ok, of 4 "[]"] reply_stream [OF ok, of 5 "[]"] by simp
qed

text \<open>Requests are not pipelined: when more bytes have arrived behind a complete request and
  they end a line, the scanner reports a protocol error (the server then drops the client).\<close>

theorem request_pipelined:
  assumes "ok_request args"
  shows "processRequestBuffer (enc_request args @ x @ CRLF @ r)
    (int (length (enc_request args) + length x + 2)) = Inr (Ret (-1))"
proof -
  let ?xs = "map Some args"
  let ?h = "enc_len (CHR ''*'') (length ?xs)"
  let ?b = "enc_request args @ x @ CRLF @ r"
  let ?rlen = "int (length (enc_request args) + length x + 2)"
  have enc: "enc_request args = ?h @ enc_items ?xs"
    by (simp add: enc_request_def enc_request_items)
  have ok: "list_all ok_item ?xs" "0 < length args" "length args \<le> 1024"
    using assms by (auto simp: ok_request_def list_all_iff)
  have "ends_crlf (((enc_request args @ x) @ CRLF) @ r) ?rlen = Inr True"
    using ends_crlf_received [of "(enc_request args @ x) @ CRLF" r] by (simp add: add.commute)
  moreover have "c_get ?b 0 = Inr (CHR ''*'')"
    by (simp add: enc enc_len_def c_get_def)
  moreover have "read_len ?b 1 = Inr (int (length args), int (length ?h))"
    using read_len_enc_len [of "length args" "[]" "CHR ''*''"] ok(3)
    by (simp add: enc INT_MAX_def)
  moreover have "bulk_loop ?b ?rlen (length args) (int (length ?h)) = Inr (-1)"
    using bulk_loop_complete [OF ok(1), of ?h "x @ CRLF @ r" "length x + 2"]
    by (simp add: enc add.assoc)
  moreover have "int (length ?h) < ?rlen" by (simp add: enc)
  ultimately show ?thesis
    using ok length_enc_len [of "CHR ''*''" "length ?xs"]
    by (simp add: processRequestBuffer_def enc)
qed

theorem request_pipelined_witness:
  "processRequestBuffer (enc_request [''A''] @ ''B'' @ CRLF @ [])
    (int (length (enc_request [''A'']) + length ''B'' + 2)) = Inr (Ret (-1))"
  by (rule request_pipelined) (simp add: ok_request_def ok_bulk_def INT_MAX_def)

text \<open>What the fixed array of eleven characters costs: a first line of more than eleven
  bytes overruns it, and a first line with a NUL byte in it leaves \<open>strstr\<close> without a match,
  whose \<open>NULL\<close> the code then uses. Both from bytes any client can send.\<close>

theorem request_first_line_faults:
  assumes "\<forall>c \<in> set h. c \<noteq> CR \<and> c \<noteq> NUL"
  shows "(11 < length h \<longrightarrow>
      processRequestBuffer (CHR ''*'' # h @ CRLF @ r) (int (length h + 3)) = Inl Buffer_overflow)
    \<and> processRequestBuffer (CHR ''*'' # h @ NUL # x @ CRLF @ r)
      (int (length h + length x + 4)) = Inl Null_deref"
proof -
  have e1: "ends_crlf (CHR ''*'' # h @ CRLF @ r) (int (length h + 3)) = Inr True"
    using ends_crlf_received [of "(CHR ''*'' # h) @ CRLF" r] by (simp add: add.commute)
  have e2: "ends_crlf (CHR ''*'' # h @ NUL # x @ CRLF @ r) (int (length h + length x + 4)) = Inr True"
    using ends_crlf_received [of "(CHR ''*'' # h @ NUL # x) @ CRLF" r]
    by (simp add: add.commute add.left_commute)
  show ?thesis
    using e1 e2 c_strstr_digits [OF assms, of r] c_strstr_nul [OF assms, of "x @ CRLF @ r"]
    by (simp add: processRequestBuffer_def c_get_def read_len_def)
qed

theorem request_first_line_faults_witness:
  "processRequestBuffer (CHR ''*'' # ''123456789012'' @ CRLF @ []) (int (length ''123456789012'' + 3))
    = Inl Buffer_overflow"
proof -
  have "\<forall>c \<in> set ''123456789012''. c \<noteq> CR \<and> c \<noteq> NUL" by simp
  from request_first_line_faults [OF this, of "[]" "[]"] show ?thesis by simp
qed

lemma bulk_loop_codes: "bulk_loop b rlen n pos = Inr v \<Longrightarrow> v \<in> {-1, 0, 1}"
proof (induction n arbitrary: pos)
  case 0
  then show ?case by (auto split: if_splits)
next
  case (Suc n)
  then show ?case
    by (auto simp: bulk_loop.simps(2) fbind_eq_Inr split: if_splits prod.splits)
qed

text \<open>The scanner of requests answers only with the four codes its caller distinguishes, and
  it ends the process only on the word \<open>exit\<close>, in any case of letters, with status 1.\<close>

theorem request_codes:
  assumes "processRequestBuffer b rlen = Inr x"
  shows "x \<in> {Ret (-2), Ret (-1), Ret 0, Ret 1}
    \<or> x = Proc_exit 1 \<and> c_strcaseeq b (''exit'' @ CRLF) = Inr True"
  using assms bulk_loop_codes [of b rlen]
  by (auto simp: processRequestBuffer_def fbind_eq_Inr fmap_eq_Inr split: if_splits)

theorem request_codes_witness:
  "Proc_exit 1 \<in> {Ret (-2), Ret (-1), Ret 0, Ret 1}
    \<or> Proc_exit 1 = Proc_exit 1 \<and> c_strcaseeq (''eXit'' @ CRLF @ [NUL]) (''exit'' @ CRLF) = Inr True"
proof (rule request_codes)
  show "processRequestBuffer (''eXit'' @ CRLF @ [NUL]) 6 = Inr (Proc_exit 1)"
    by code_simp
qed

end
