(* ===== verification/Backend.thy ===== *)
theory Backend
  imports Resp
begin

section \<open>The command module of the proxy (redis-proxy/echo.c)\<close>

text \<open>
  \<open>_redisCommandProc\<close> runs in an I/O thread: it writes the client's request to the backend
  Redis over the connection the thread keeps, collects the reply until the reply scanner
  reports it complete, and retries once, on a new connection, when the connection broke.

  What the system calls of one pass answer is an \<open>attempt\<close>: the result of \<open>connect\<close>, the
  clock at the start of each loop, one entry per turn of the two \<open>poll\<close> loops, and whether the
  error reply finds memory. A loop that comes to the end of its entries is still waiting (\<open>Starved\<close>); a theorem below shows
  which entries make every loop end.
\<close>

subsection \<open>Client and module state\<close>

text \<open>\<open>struct RedisClient\<close> of redis-proxy/redis.h; the two buffers are allocations or \<open>NULL\<close>.\<close>

record redisClient =
  cl_fd :: int
  cl_rbuf :: "string option"
  cl_wbuf :: "string option"
  cl_rlen :: int
  cl_wlen :: int
  cl_wpos :: int
  cl_last :: int

type_synonym timeval = "int \<times> int"

text \<open>\<open>timeout\<close>: milliseconds passed, in an \<open>int\<close>; C division truncates towards zero.\<close>

definition timeout :: "timeval \<Rightarrow> timeval \<Rightarrow> int" where
  "timeout now begun = to_i32 (to_i32 ((fst now - fst begun) * 1000)
     + c_div (snd now - snd begun) 1000)"

definition SERVER_TIME_OUT :: int where "SERVER_TIME_OUT = 1000"

definition CONN_ERR :: string where "CONN_ERR = ''-ERR: Connection error'' @ CRLF"

definition CONN_ERR_LEN :: int where "CONN_ERR_LEN = 24"

datatype wstep =
    W_poll_stop
  | W_wrote int timeval
  | W_again timeval
  | W_error timeval

datatype rstep =
    R_poll_stop
  | R_data timeval string
  | R_again timeval
  | R_eof timeval
  | R_error timeval
  | R_no_memory timeval

record attempt =
  at_connect :: int
  at_wbegin :: timeval
  at_writes :: "wstep list"
  at_rbegin :: timeval
  at_reads :: "rstep list"
  at_memory :: bool

datatype act = Connected int | Closed int | Sent string

datatype 'a run = Done 'a | Starved | Exited int

record module =
  md_fd :: int
  md_trace :: "act list"

subsection \<open>The operations\<close>

definition connectRedis :: "attempt \<Rightarrow> module \<Rightarrow> module" where
  "connectRedis a m =
     (if at_connect a = -1 then m\<lparr>md_fd := -1\<rparr>
      else m\<lparr>md_fd := at_connect a, md_trace := md_trace m @ [Connected (at_connect a)]\<rparr>)"

definition close_fd :: "module \<Rightarrow> module" where
  "close_fd m = m\<lparr>md_fd := -1, md_trace := md_trace m @ [Closed (md_fd m)]\<rparr>"

definition redisCommandInit :: "attempt \<Rightarrow> module" where
  "redisCommandInit a = connectRedis a \<lparr>md_fd = -1, md_trace = []\<rparr>"

definition redisCommandDeinit :: "module \<Rightarrow> module" where
  "redisCommandDeinit m = close_fd m"

text \<open>\<open>setClientError\<close>: \<open>realloc\<close> to 25 bytes, which ends the process when there is no memory,
  then \<open>memset\<close> and \<open>strcpy\<close>. \<open>give_up\<close> is the call that ends the command.\<close>

definition set_error :: "redisClient \<Rightarrow> redisClient" where
  "set_error c = c\<lparr>cl_wbuf := Some (CONN_ERR @ [NUL]), cl_wlen := CONN_ERR_LEN\<rparr>"

definition setClientError :: "bool \<Rightarrow> redisClient \<Rightarrow> redisClient run" where
  "setClientError mem c = (if mem then Done (set_error c) else Exited (-1))"

definition give_up :: "bool \<Rightarrow> redisClient \<Rightarrow> module \<Rightarrow> (redisClient \<times> module) run" where
  "give_up mem c m = (case setClientError mem c of
       Done c' \<Rightarrow> Done (c', m) | Starved \<Rightarrow> Starved | Exited e \<Rightarrow> Exited e)"

lemma give_up_simps [simp]: "give_up mem c m \<noteq> Starved"
  "give_up mem c m = Done r \<longleftrightarrow> mem \<and> r = (set_error c, m)"
  "give_up mem c m = Exited e \<longleftrightarrow> \<not> mem \<and> e = -1"
  by (auto simp: give_up_def setClientError_def)

text \<open>One turn of a loop either leaves it (with \<open>err\<close>), goes round again, or ends the process.\<close>

datatype 'a turn = Leave int 'a | Stay 'a | Die int

text \<open>The write loop; the result is \<open>err\<close> and the number of bytes that went out. The clock is read
  after the write: a write that comes back late has sent its bytes, but the loop gives up.\<close>

fun write_turn :: "int \<Rightarrow> timeval \<Rightarrow> wstep \<Rightarrow> int \<Rightarrow> int turn" where
  "write_turn rlen begun W_poll_stop nwrite = Leave 1 nwrite"
| "write_turn rlen begun (W_wrote rc now) nwrite =
     (if SERVER_TIME_OUT \<le> timeout now begun then Leave 1 (nwrite + max 0 rc)
      else if 0 < rc then
        (if nwrite + rc = rlen then Leave 0 (nwrite + rc) else Stay (nwrite + rc))
      else Stay nwrite)"
| "write_turn rlen begun (W_again now) nwrite =
     (if SERVER_TIME_OUT \<le> timeout now begun then Leave 1 nwrite else Stay nwrite)"
| "write_turn rlen begun (W_error now) nwrite =
     (if SERVER_TIME_OUT \<le> timeout now begun then Leave 1 nwrite else Leave 2 nwrite)"

fun write_loop :: "int \<Rightarrow> timeval \<Rightarrow> wstep list \<Rightarrow> int \<Rightarrow> (int \<times> int) run" where
  "write_loop rlen begun [] nwrite = Starved"
| "write_loop rlen begun (w # ws) nwrite =
     (case write_turn rlen begun w nwrite of
        Leave err n \<Rightarrow> Done (err, n)
      | Stay n \<Rightarrow> write_loop rlen begun ws n
      | Die e \<Rightarrow> Exited e)"

text \<open>The reply buffer after one \<open>read\<close>: \<open>realloc\<close> to \<open>wlen + WRITE_BUF_LEN\<close>, the new part
  zeroed, the data at \<open>wlen\<close>.\<close>

definition WRITE_BUF_LEN :: nat where "WRITE_BUF_LEN = 1024"

definition grow :: "string option \<Rightarrow> int \<Rightarrow> string \<Rightarrow> string" where
  "grow buf len data = take (nat len) (case buf of None \<Rightarrow> [] | Some b \<Rightarrow> b) @ data
     @ replicate (WRITE_BUF_LEN - length data) NUL"

definition got :: "string \<Rightarrow> redisClient \<Rightarrow> redisClient" where
  "got data c = c\<lparr>cl_wbuf := Some (grow (cl_wbuf c) (cl_wlen c) data),
     cl_wlen := cl_wlen c + int (length data)\<rparr>"

fun rstep_clock :: "rstep \<Rightarrow> timeval option" where
  "rstep_clock R_poll_stop = None"
| "rstep_clock (R_data now data) = Some now"
| "rstep_clock (R_again now) = Some now"
| "rstep_clock (R_eof now) = Some now"
| "rstep_clock (R_error now) = Some now"
| "rstep_clock (R_no_memory now) = Some now"

text \<open>\<open>c->wlen+WRITE_BUF_LEN\<close> is a sum of \<open>int\<close>s.\<close>

definition room :: "redisClient \<Rightarrow> 'a res \<Rightarrow> 'a res" where
  "room c x = (if INT_MAX < cl_wlen c + int WRITE_BUF_LEN then Inl Signed_overflow else x)"

lemma room_eq_Inr [simp]: "room c x = Inr y \<longleftrightarrow> cl_wlen c + int WRITE_BUF_LEN \<le> INT_MAX \<and> x = Inr y"
  by (auto simp: room_def)

fun read_turn :: "rstep \<Rightarrow> redisClient \<Rightarrow> redisClient turn res" where
  "read_turn R_poll_stop c = Inr (Leave 1 c)"
| "read_turn (R_no_memory now) c = room c (Inr (Die (-1)))"
| "read_turn (R_again now) c = room c (Inr (Stay (got [] c)))"
| "read_turn (R_error now) c = room c (Inr (Leave 2 (got [] c)))"
| "read_turn (R_eof now) c = room c (Inr (Leave 2 (got [] c)))"
| "read_turn (R_data now data) c =
     room c (let c' = got data c
      in fmap (\<lambda>v. if v = 1 then Leave 0 c' else if v = 0 then Stay c'
          else if v = -1 then Leave 1 c' else Stay c')
        (processResponseBuffer (the (cl_wbuf c')) (cl_wlen c')))"

definition late :: "timeval \<Rightarrow> timeval option \<Rightarrow> bool" where
  "late begun t = (case t of None \<Rightarrow> False | Some now \<Rightarrow> SERVER_TIME_OUT \<le> timeout now begun)"

fun read_loop :: "timeval \<Rightarrow> rstep list \<Rightarrow> redisClient \<Rightarrow> (int \<times> redisClient) run res" where
  "read_loop begun [] c = Inr Starved"
| "read_loop begun (r # rs) c =
     (if late begun (rstep_clock r) then Inr (Done (1, c))
      else fbind (read_turn r c) (\<lambda>t. case t of
          Leave err c' \<Rightarrow> Inr (Done (err, c'))
        | Stay c' \<Rightarrow> read_loop begun rs c'
        | Die e \<Rightarrow> Inr (Exited e)))"

text \<open>\<open>_redisCommandProc\<close> from the label \<open>again\<close> on, \<open>ntry\<close> as it is after its increment.\<close>

fun proc_again :: "nat \<Rightarrow> attempt list \<Rightarrow> redisClient \<Rightarrow> module \<Rightarrow> (redisClient \<times> module) run res"
  where
  "proc_again ntry [] c m = Inr Starved"
| "proc_again ntry (a # as) c m =
     (let m1 = (if md_fd m = -1 then connectRedis a m else m);
          rb = (case cl_rbuf c of None \<Rightarrow> [] | Some b \<Rightarrow> b)
      in if md_fd m1 = -1 then Inr (give_up (at_memory a) c m1)
      else case write_loop (cl_rlen c) (at_wbegin a) (at_writes a) 0 of
          Starved \<Rightarrow> Inr Starved
        | Exited e \<Rightarrow> Inr (Exited e)
        | Done (err, n) \<Rightarrow>
            let m2 = m1\<lparr>md_trace := md_trace m1 @ [Sent (take (nat n) rb)]\<rparr>
            in if err = 2 \<and> ntry < 2 then proc_again (Suc ntry) as c (close_fd m2)
            else if err = 2 \<or> err = 1 then Inr (give_up (at_memory a) c (close_fd m2))
            else fbind (read_loop (at_rbegin a) (at_reads a) c) (\<lambda>r. case r of
                Starved \<Rightarrow> Inr Starved
              | Exited e \<Rightarrow> Inr (Exited e)
              | Done (err2, c2) \<Rightarrow>
                  if err2 = 2 \<and> ntry < 2
                  then proc_again (Suc ntry) as (c2\<lparr>cl_wbuf := None, cl_wlen := 0\<rparr>) (close_fd m2)
                  else if err2 = 2 \<or> err2 = 1 then Inr (give_up (at_memory a) c2 (close_fd m2))
                  else Inr (Done (c2, m2))))"

declare proc_again.simps(2) [simp del]

definition redisCommandProc :: "attempt list \<Rightarrow> redisClient \<Rightarrow> module \<Rightarrow> (redisClient \<times> module) run res"
  where "redisCommandProc = proc_again 1"

subsection \<open>The reply that leaves the module is a whole reply\<close>

definition error_reply :: reply where
  "error_reply = Err ''ERR: Connection error''"

lemma conn_err_enc: "CONN_ERR = enc_reply error_reply"
  by (simp add: CONN_ERR_def error_reply_def)

lemma conn_err_valid: "processResponseBuffer (CONN_ERR @ [NUL]) CONN_ERR_LEN = Inr 1"
proof -
  have "ok_reply error_reply" by (simp add: error_reply_def ok_line_def)
  from reply_piece [OF this, of "enc_reply error_reply" "[]" "[NUL]"] show ?thesis
    by (simp add: conn_err_enc CONN_ERR_LEN_def) (simp add: error_reply_def)
qed

definition whole_reply :: "redisClient \<Rightarrow> bool" where
  "whole_reply c \<longleftrightarrow>
     (case cl_wbuf c of None \<Rightarrow> False | Some b \<Rightarrow> processResponseBuffer b (cl_wlen c) = Inr 1)"

definition is_conn_err :: "redisClient \<Rightarrow> bool" where
  "is_conn_err c \<longleftrightarrow> cl_wbuf c = Some (CONN_ERR @ [NUL]) \<and> cl_wlen c = CONN_ERR_LEN"

lemma is_conn_err_set [simp]: "is_conn_err (set_error c)"
  by (simp add: is_conn_err_def set_error_def)

lemma conn_err_whole: "is_conn_err c \<Longrightarrow> whole_reply c"
  by (simp add: is_conn_err_def whole_reply_def conn_err_valid)

text \<open>The reply length is within the reply buffer.\<close>

definition fits :: "redisClient \<Rightarrow> bool" where
  "fits c \<longleftrightarrow> 0 \<le> cl_wlen c
     \<and> cl_wlen c \<le> int (length (case cl_wbuf c of None \<Rightarrow> [] | Some b \<Rightarrow> b))"

text \<open>What the command leaves alone.\<close>

definition same_request :: "redisClient \<Rightarrow> redisClient \<Rightarrow> bool" where
  "same_request c c' \<longleftrightarrow> cl_rbuf c' = cl_rbuf c \<and> cl_rlen c' = cl_rlen c
     \<and> cl_fd c' = cl_fd c \<and> cl_wpos c' = cl_wpos c \<and> (fits c \<longrightarrow> fits c')"

lemma fits_got: "fits c \<Longrightarrow> fits (got d c)"
  by (auto simp: fits_def got_def grow_def split: option.splits)

lemma fits_error [simp]: "fits (set_error c)"
  by (simp add: fits_def set_error_def CONN_ERR_def CONN_ERR_LEN_def)

lemma same_request_refl [simp]: "same_request c c"
  by (simp add: same_request_def)

lemma same_request_error: "same_request c c2 \<Longrightarrow> same_request c (set_error c2)"
  using fits_error [of c2] by (simp add: same_request_def) (simp add: set_error_def)

lemma same_request_trans: "same_request a b \<Longrightarrow> same_request b c \<Longrightarrow> same_request a c"
  by (simp add: same_request_def)

lemma got_simps [simp]: "same_request c (got d c)" "cl_rbuf (got d c) = cl_rbuf c"
  "cl_rlen (got d c) = cl_rlen c" "cl_wlen (got d c) = cl_wlen c + int (length d)"
  using fits_got [of c d] by (simp_all add: got_def same_request_def)

lemma whole_got:
  "whole_reply (got d c) \<longleftrightarrow>
   processResponseBuffer (the (cl_wbuf (got d c))) (cl_wlen c + int (length d)) = Inr 1"
  by (simp add: whole_reply_def) (simp add: got_def)

lemma read_turn_leave:
  "read_turn r c = Inr (Leave e c') \<Longrightarrow>
   same_request c c' \<and> e \<in> {0, 1, 2} \<and> (e = 0 \<longrightarrow> whole_reply c')"
  by (cases r) (auto simp: Let_def fmap_eq_Inr whole_got split: if_splits)

lemma read_turn_stay: "read_turn r c = Inr (Stay c') \<Longrightarrow> same_request c c'"
  by (cases r) (auto simp: Let_def fmap_eq_Inr split: if_splits)

lemma read_loop_done:
  "read_loop begun rs c = Inr (Done (e, c')) \<Longrightarrow>
   same_request c c' \<and> e \<in> {0, 1, 2} \<and> (e = 0 \<longrightarrow> whole_reply c')"
proof (induction begun rs c rule: read_loop.induct)
  case (1 begun c)
  then show ?case by simp
next
  case (2 begun r rs c)
  show ?case
  proof (cases "late begun (rstep_clock r)")
    case True
    with 2(2) show ?thesis by simp
  next
    case False
    with 2(2) obtain t where t: "read_turn r c = Inr t"
      by (auto simp: fbind_eq_Inr)
    show ?thesis
    proof (cases t)
      case (Leave err c2)
      with 2(2) t False show ?thesis using read_turn_leave [of r c err c2] by simp
    next
      case (Stay c2)
      with 2(2) t False have "read_loop begun rs c2 = Inr (Done (e, c'))" by simp
      with 2(1) [OF False, of c2] have "same_request c2 c' \<and> e \<in> {0, 1, 2} \<and> (e = 0 \<longrightarrow> whole_reply c')"
        by blast
      with Stay t show ?thesis using read_turn_stay same_request_trans by blast
    next
      case (Die k)
      with 2(2) t False show ?thesis by simp
    qed
  qed
qed

lemma write_turn_leave:
  "write_turn rlen begun w n = Leave e k \<Longrightarrow> e \<in> {0, 1, 2} \<and> (e = 0 \<longrightarrow> k = rlen)"
  by (cases w) (auto split: if_splits)

lemma write_loop_err:
  "write_loop rlen begun ws n = Done (e, k) \<Longrightarrow> e \<in> {0, 1, 2} \<and> (e = 0 \<longrightarrow> k = rlen)"
proof (induction rlen begun ws n rule: write_loop.induct)
  case (2 rlen begun w ws n)
  then show ?case
    using write_turn_leave [of rlen begun w n] by (cases "write_turn rlen begun w n") auto
qed simp

lemma write_loop_lives: "write_loop rlen begun ws n \<noteq> Exited e"
proof (induction ws arbitrary: n)
  case (Cons w ws)
  then show ?case by (cases w) auto
qed simp

lemma close_fd_fd [simp]: "md_fd (close_fd m) = -1"
  by (simp add: close_fd_def)

text \<open>What one attempt comes to when the command returns: an error reply, a whole reply, or the
  second attempt.\<close>

definition outcome :: "redisClient \<Rightarrow> redisClient \<Rightarrow> module \<Rightarrow> bool" where
  "outcome c c' m' \<longleftrightarrow> same_request c c' \<and> (if md_fd m' = -1 then is_conn_err c' else whole_reply c')"

lemma outcome_err: "same_request c c2 \<Longrightarrow> outcome c (set_error c2) (close_fd m)"
  by (simp add: outcome_def same_request_error)

lemma proc_again_done:
  assumes run: "proc_again ntry (a # as) c m = Inr (Done (c', m'))"
  shows "outcome c c' m' \<or> (\<exists>c2 m2. ntry < 2 \<and> same_request c c2 \<and>
    proc_again (Suc ntry) as c2 m2 = Inr (Done (c', m')))"
proof -
  define m1 where "m1 = (if md_fd m = -1 then connectRedis a m else m)"
  define rb where "rb = (case cl_rbuf c of None \<Rightarrow> [] | Some b \<Rightarrow> b)"
  note body = run [unfolded proc_again.simps(2), folded m1_def rb_def, simplified Let_def]
  show ?thesis
  proof (cases "md_fd m1 = -1")
    case True
    with body show ?thesis
      using same_request_error [OF same_request_refl [of c]] by (auto simp: outcome_def)
  next
    case conn: False
    then obtain err n where w: "write_loop (cl_rlen c) (at_wbegin a) (at_writes a) 0 = Done (err, n)"
      using body by (auto split: run.splits)
    define m2 where "m2 = m1\<lparr>md_trace := md_trace m1 @ [Sent (take (nat n) rb)]\<rparr>"
    have fd2: "md_fd m2 \<noteq> -1" using conn by (simp add: m2_def)
    note body2 = body [simplified conn w, simplified, folded m2_def]
    show ?thesis
    proof (cases "err = 0")
      case False
      then have "err = 1 \<or> err = 2" using write_loop_err [OF w] by auto
      with body2 outcome_err [OF same_request_refl, of c m2] show ?thesis
        by (auto split: if_splits)
    next
      case True
      with body2 obtain x where x: "read_loop (at_rbegin a) (at_reads a) c = Inr x"
        by (cases "read_loop (at_rbegin a) (at_reads a) c") simp_all
      with body2 True obtain e2 c2 where
        r: "read_loop (at_rbegin a) (at_reads a) c = Inr (Done (e2, c2))"
        by (cases x) auto
      note d = read_loop_done [OF r]
      then have same: "same_request c (c2\<lparr>cl_wbuf := None, cl_wlen := 0\<rparr>)"
        by (simp add: same_request_def fits_def)
      from d have "e2 = 0 \<or> e2 = 1 \<or> e2 = 2" by auto
      then show ?thesis
        using body2 True r d fd2 same outcome_err [of c c2 m2]
        by (auto simp: outcome_def split: if_splits)
    qed
  qed
qed

lemma proc_outcome:
  "proc_again ntry as c m = Inr (Done (c', m')) \<Longrightarrow> outcome c c' m'"
proof (induction as arbitrary: ntry c m)
  case (Cons a as)
  from proc_again_done [OF Cons.prems] show ?case
  proof
    assume "\<exists>c2 m2. ntry < 2 \<and> same_request c c2 \<and>
      proc_again (Suc ntry) as c2 m2 = Inr (Done (c', m'))"
    with Cons.IH show ?thesis
      using same_request_trans by (fastforce simp: outcome_def)
  qed
qed simp


lemma command_outcome:
  "redisCommandProc as c m = Inr (Done (c', m')) \<Longrightarrow> same_request c c' \<and> whole_reply c'"
  using proc_outcome [of 1 as c m c' m'] conn_err_whole [of c']
  by (auto simp: redisCommandProc_def outcome_def split: if_splits)


definition idle_client :: redisClient where
  "idle_client = \<lparr>cl_fd = 7, cl_rbuf = Some (''PING'' @ CRLF @ [NUL]), cl_wbuf = None,
     cl_rlen = 6, cl_wlen = 0, cl_wpos = 0, cl_last = 0\<rparr>"

definition refusing :: attempt where
  "refusing = \<lparr>at_connect = -1, at_wbegin = (0, 0), at_writes = [W_poll_stop],
     at_rbegin = (0, 0), at_reads = [R_poll_stop], at_memory = True\<rparr>"


subsection \<open>Every loop ends\<close>

fun wstep_ends :: "timeval \<Rightarrow> wstep \<Rightarrow> bool" where
  "wstep_ends begun W_poll_stop = True"
| "wstep_ends begun (W_wrote rc now) = (SERVER_TIME_OUT \<le> timeout now begun)"
| "wstep_ends begun (W_again now) = (SERVER_TIME_OUT \<le> timeout now begun)"
| "wstep_ends begun (W_error now) = True"

fun rstep_ends :: "timeval \<Rightarrow> rstep \<Rightarrow> bool" where
  "rstep_ends begun R_poll_stop = True"
| "rstep_ends begun r = late begun (rstep_clock r)"

definition patient :: "attempt \<Rightarrow> bool" where
  "patient a \<longleftrightarrow> list_ex (wstep_ends (at_wbegin a)) (at_writes a)
     \<and> list_ex (rstep_ends (at_rbegin a)) (at_reads a)"

lemma write_loop_ends:
  "list_ex (wstep_ends begun) ws \<Longrightarrow> write_loop rlen begun ws n \<noteq> Starved"
proof (induction ws arbitrary: n)
  case (Cons w ws)
  then show ?case by (cases w) (auto split: turn.splits)
qed simp

lemma read_loop_ends:
  "list_ex (rstep_ends begun) rs \<Longrightarrow> read_loop begun rs c \<noteq> Inr Starved"
proof (induction rs arbitrary: c)
  case (Cons r rs)
  show ?case
  proof (cases "rstep_ends begun r")
    case True
    then show ?thesis by (cases r) (auto simp: late_def)
  next
    case False
    with Cons show ?thesis by (auto simp: fbind_eq_Inr split: turn.splits)
  qed
qed simp

text \<open>What a client holds after the first \<open>n\<close> bytes of a reply.\<close>

definition holds :: "redisClient \<Rightarrow> string \<Rightarrow> bool" where
  "holds c d \<longleftrightarrow> cl_wlen c = int (length d)
     \<and> take (length d) (case cl_wbuf c of None \<Rightarrow> [] | Some b \<Rightarrow> b) = d"

lemma got_holds:
  assumes "holds c d"
  shows "holds (got x c) (d @ x) \<and> (\<exists>r. cl_wbuf (got x c) = Some ((d @ x) @ r))"
  using assms by (simp add: holds_def got_def grow_def)

lemma proc_again_ends:
  "list_all patient as \<Longrightarrow> ntry + length as = 3 \<Longrightarrow> ntry < 3 \<Longrightarrow>
   proc_again ntry as c m \<noteq> Inr Starved"
proof (induction as arbitrary: ntry c m)
  case (Cons a as)
  have again: "ntry < 2 \<Longrightarrow> proc_again (Suc ntry) as c2 m2 \<noteq> Inr Starved" for c2 m2
    using Cons by simp
  have "write_loop (cl_rlen c) (at_wbegin a) (at_writes a) 0 \<noteq> Starved"
    "read_loop (at_rbegin a) (at_reads a) c \<noteq> Inr Starved"
    using Cons.prems write_loop_ends read_loop_ends by (auto simp: patient_def)
  with again show ?case
    by (auto simp: proc_again.simps(2) Let_def fbind_eq_Inr split: run.splits if_splits)
qed simp

text \<open>The other ways a command can end: the process exits for want of memory, or a turn of the read
  loop faults. \<open>turns\<close> are the results of the turns on the buffer as it fills.\<close>

definition is_no_memory :: "rstep \<Rightarrow> bool" where
  "is_no_memory r = (case r of R_no_memory now \<Rightarrow> True | _ \<Rightarrow> False)"

definition out_of_memory :: "attempt \<Rightarrow> bool" where
  "out_of_memory a \<longleftrightarrow> \<not> at_memory a \<or> list_ex is_no_memory (at_reads a)"

fun rdata :: "rstep \<Rightarrow> string" where
  "rdata (R_data now data) = data"
| "rdata _ = []"

fun turns :: "rstep list \<Rightarrow> redisClient \<Rightarrow> redisClient turn res list" where
  "turns [] c = []"
| "turns (r # rs) c = read_turn r c # turns rs (if r = R_poll_stop then c else got (rdata r) c)"

definition no_reply :: "redisClient \<Rightarrow> redisClient" where
  "no_reply c = c\<lparr>cl_wbuf := None, cl_wlen := 0\<rparr>"

lemma no_reply_got [simp]: "no_reply (got d c) = no_reply c"
  by (simp add: no_reply_def got_def)

lemma read_turn_got: "read_turn r c = Inr (Stay c') \<Longrightarrow> c' = got (rdata r) c \<and> r \<noteq> R_poll_stop"
  by (cases r) (auto simp: Let_def fmap_eq_Inr split: if_splits)

lemma read_turn_die: "read_turn r c = Inr (Die e) \<Longrightarrow> e = -1 \<and> is_no_memory r"
  by (cases r) (auto simp: Let_def fmap_eq_Inr is_no_memory_def split: if_splits)

lemma read_turn_no_reply: "read_turn r c = Inr (Leave e c') \<Longrightarrow> no_reply c' = no_reply c"
  by (cases r) (auto simp: Let_def fmap_eq_Inr split: if_splits)

lemma read_loop_result:
  "case read_loop begun rs c of Inl f \<Rightarrow> Inl f \<in> set (turns rs c)
   | Inr (Exited e) \<Rightarrow> e = -1 \<and> list_ex is_no_memory rs
   | Inr (Done (e, c')) \<Rightarrow> no_reply c' = no_reply c
   | Inr Starved \<Rightarrow> True"
proof (induction rs arbitrary: c)
  case (Cons r rs)
  show ?case
  proof (cases "late begun (rstep_clock r)")
    case False
    show ?thesis
    proof (cases "read_turn r c")
      case (Inr t)
      with False Cons.IH [where c = "got (rdata r) c"] read_turn_got [of r c] read_turn_die [of r c] read_turn_no_reply [of r c]
      show ?thesis by (cases t) (auto split: sum.splits run.splits)
    qed (use False in simp)
  qed simp
qed simp

lemma proc_again_result:
  "case proc_again ntry as c m of
     Inl f \<Rightarrow> (\<exists>a \<in> set as. \<exists>c1 \<in> {c, no_reply c}. Inl f \<in> set (turns (at_reads a) c1))
   | Inr (Exited e) \<Rightarrow> e = -1 \<and> list_ex out_of_memory as
   | Inr x \<Rightarrow> True"
proof (induction as arbitrary: ntry c m)
  case (Cons a as)
  define m1 where "m1 = (if md_fd m = -1 then connectRedis a m else m)"
  define rb where "rb = (case cl_rbuf c of None \<Rightarrow> [] | Some b \<Rightarrow> b)"
  note body = proc_again.simps(2) [of ntry a as c m, folded m1_def rb_def, unfolded Let_def]
  have quit: ?case if "proc_again ntry (a # as) c m = Inr (give_up (at_memory a) c2 m2)" for c2 m2
    using that by (cases "give_up (at_memory a) c2 m2") (auto simp: out_of_memory_def)
  have again: ?case if "proc_again ntry (a # as) c m = proc_again (Suc ntry) as c2 m2" "c2 = c \<or> c2 = no_reply c" for c2 m2
  proof -
    have "no_reply (no_reply c) = no_reply c" by (simp add: no_reply_def)
    with Cons.IH [where ntry = "Suc ntry" and c = c2 and m = m2] that show ?thesis by (auto split: sum.splits run.splits)
  qed
  show ?case
  proof (cases "md_fd m1 = -1")
    case True
    with body quit show ?thesis by simp
  next
    case conn: False
    show ?thesis
    proof (cases "write_loop (cl_rlen c) (at_wbegin a) (at_writes a) 0")
      case (Done w)
      obtain err n where w: "w = (err, n)" by (cases w)
      note body2 = body [simplified conn Done w, simplified]
      note rl = read_loop_result [where begun = "at_rbegin a" and rs = "at_reads a" and c = c]
      have "err = 0 \<or> err = 1 \<or> err = 2" using write_loop_err Done w by fastforce
      then show ?thesis
      proof (elim disjE)
        assume "err = 0"
        note body3 = body2 [simplified this, simplified]
        show ?thesis
        proof (cases "read_loop (at_rbegin a) (at_reads a) c")
          case (Inl f)
          with body3 rl show ?thesis by auto
        next
          case (Inr x)
          show ?thesis
          proof (cases x)
            case (Done y)
            obtain e2 c2 where y: "y = (e2, c2)" by (cases y)
            have "no_reply c2 = no_reply c" using rl Inr Done y by simp
            then show ?thesis using body3 [unfolded Inr Done y] quit again [of "no_reply c"]
              by (auto simp: no_reply_def split: if_splits)
          qed (use body3 rl Inr in \<open>auto simp: out_of_memory_def\<close>)
        qed
      qed (use body2 quit again [of c] in \<open>auto split: if_splits\<close>)
    qed (use body conn write_loop_lives in \<open>auto\<close>)
  qed
qed simp

text \<open>A backend that speaks the protocol: what it sends is an initial part of a reply, and short
  enough for its length to be counted in an \<open>int\<close>.\<close>

definition speaks :: "attempt \<Rightarrow> bool" where
  "speaks a \<longleftrightarrow> (\<exists>x r. ok_reply x \<and> enc_reply x = concat (map rdata (at_reads a)) @ r)
     \<and> list_all (\<lambda>s. \<forall>now. s \<noteq> R_data now []) (at_reads a)
     \<and> int (length (concat (map rdata (at_reads a)))) + int WRITE_BUF_LEN \<le> INT_MAX"

lemma turns_answer:
  assumes "ok_reply x" "enc_reply x = d @ concat (map rdata rs) @ r" "holds c d"
    and "list_all (\<lambda>s. \<forall>now. s \<noteq> R_data now []) rs"
    and "int (length (d @ concat (map rdata rs))) + int WRITE_BUF_LEN \<le> INT_MAX"
  shows "Inl f \<notin> set (turns rs c)"
  using assms(2-)
proof (induction rs arbitrary: c d)
  case (Cons s rs)
  have room: "\<not> INT_MAX < cl_wlen c + int WRITE_BUF_LEN" using Cons.prems by (simp add: holds_def)
  obtain q where q: "holds (got (rdata s) c) (d @ rdata s)" "cl_wbuf (got (rdata s) c) = Some ((d @ rdata s) @ q)"
    using got_holds [OF Cons.prems(2)] by blast
  have enc: "enc_reply x = (d @ rdata s) @ concat (map rdata rs) @ r" using Cons.prems(1) by simp
  have turn: "read_turn s c \<noteq> Inl f"
  proof (cases s)
    case (R_data now y)
    then have "y \<noteq> []" using Cons.prems(3) by auto
    then have "processResponseBuffer ((d @ y) @ q) (int (length (d @ y)))
      = Inr (if concat (map rdata rs) @ r = [] then 1 else 0)"
      using reply_piece [OF assms(1) enc, of q] R_data by simp
    then show ?thesis using R_data q room by (auto simp: Let_def room_def holds_def)
  qed (use room in \<open>simp_all add: room_def\<close>)
  have next_turn: "Inl f \<notin> set (turns rs (got (rdata s) c))" by (rule Cons.IH [OF _ q(1)]) (use enc Cons.prems in auto)
  have stop: "Inl f \<notin> set (turns rs c)" if "s = R_poll_stop"
    by (rule Cons.IH [OF _ Cons.prems(2)]) (use that Cons.prems in auto)
  show ?case using turn next_turn stop by auto
qed simp

text \<open>C5. The command returns. Give it two attempts in each of which both loops meet, at some
  turn, a \<open>poll\<close> that reports nothing within its tenth of a second, or a clock one second past
  the start of the loop; what happens before that turn is arbitrary: partial writes, \<open>EAGAIN\<close>,
  partial replies. Then it waits for nothing more. It returns, or it ends the process because an
  allocation failed, or a turn of a read loop faults on what the backend sent. With memory, and a
  backend that sends nothing but initial parts of replies, it returns.\<close>

theorem proxy_command_returns:
  assumes "patient a1" "patient a2"
  shows "((\<exists>c' m'. redisCommandProc [a1, a2] c m = Inr (Done (c', m')))
      \<or> (redisCommandProc [a1, a2] c m = Inr (Exited (-1)) \<and> (out_of_memory a1 \<or> out_of_memory a2))
      \<or> (\<exists>f. redisCommandProc [a1, a2] c m = Inl f
          \<and> (\<exists>a \<in> {a1, a2}. \<exists>c1 \<in> {c, no_reply c}. Inl f \<in> set (turns (at_reads a) c1))))
    \<and> (cl_wlen c = 0 \<and> speaks a1 \<and> speaks a2 \<and> \<not> out_of_memory a1 \<and> \<not> out_of_memory a2 \<longrightarrow>
        (\<exists>c' m'. redisCommandProc [a1, a2] c m = Inr (Done (c', m'))))"
    (is "?ends \<and> (?good \<longrightarrow> ?returns)")
proof -
  have "redisCommandProc [a1, a2] c m \<noteq> Inr Starved"
    using proc_again_ends [of "[a1, a2]" 1] assms by (simp add: redisCommandProc_def)
  with proc_again_result [where ntry = 1 and as = "[a1, a2]" and c = c and m = m] have ends: ?ends
    by (auto simp: redisCommandProc_def split: sum.splits run.splits)
  moreover have ?returns if good: ?good
  proof -
    have "holds c1 []" if "c1 \<in> {c, no_reply c}" for c1
      using that good by (auto simp: holds_def no_reply_def)
    then have "Inl f \<notin> set (turns (at_reads a) c1)" if "a \<in> {a1, a2}" "c1 \<in> {c, no_reply c}" for f a c1
      using turns_answer [of _ "[]" "at_reads a" _ c1 f] that good by (auto simp: speaks_def)
    with ends good show ?thesis by blast
  qed
  ultimately show ?thesis by blast
qed

definition broken_attempt :: attempt where
  "broken_attempt = \<lparr>at_connect = 9, at_wbegin = (5, 0), at_writes = [W_wrote 2 (5, 10), W_again (5, 20), W_wrote 4 (5, 30), W_poll_stop],
     at_rbegin = (5, 40), at_reads = [R_data (5, 50) ''+PO'', R_again (5, 60), R_eof (5, 70), R_poll_stop], at_memory = True\<rparr>"

theorem proxy_command_returns_witness:
  "\<exists>c' m'. redisCommandProc [broken_attempt, broken_attempt] idle_client \<lparr>md_fd = 9, md_trace = []\<rparr> = Inr (Done (c', m'))"
proof -
  have "ok_reply (Status ''PONG'') \<and> enc_reply (Status ''PONG'') = concat (map rdata (at_reads broken_attempt)) @ ''NG'' @ CRLF"
    by (simp add: ok_line_def broken_attempt_def)
  then have "\<exists>x r. ok_reply x \<and> enc_reply x = concat (map rdata (at_reads broken_attempt)) @ r" by blast
  then have "speaks broken_attempt"
    unfolding speaks_def by (rule conjI) (simp add: broken_attempt_def INT_MAX_def WRITE_BUF_LEN_def)
  then show ?thesis
    by (intro proxy_command_returns [THEN conjunct2, THEN mp])
      (simp_all add: patient_def broken_attempt_def idle_client_def out_of_memory_def is_no_memory_def)
qed

subsection \<open>The request goes out at most twice\<close>

fun is_sent :: "act \<Rightarrow> bool" where
  "is_sent (Sent x) = True"
| "is_sent _ = False"

definition sends :: "module \<Rightarrow> string list" where
  "sends m = concat (map (\<lambda>x. case x of Sent s \<Rightarrow> [s] | _ \<Rightarrow> []) (md_trace m))"

lemma sends_simps [simp]: "sends (close_fd m) = sends m" "sends (connectRedis a m) = sends m"
  "sends (m\<lparr>md_trace := md_trace m @ [Sent x]\<rparr>) = sends m @ [x]"
  by (simp_all add: sends_def close_fd_def connectRedis_def)

definition req_bytes :: "redisClient \<Rightarrow> string" where
  "req_bytes c = (case cl_rbuf c of None \<Rightarrow> [] | Some b \<Rightarrow> b)"

definition sent_within :: "nat \<Rightarrow> redisClient \<Rightarrow> module \<Rightarrow> module \<Rightarrow> bool" where
  "sent_within k c m m' \<longleftrightarrow> (\<exists>xs. sends m' = sends m @ xs \<and> length xs \<le> k
     \<and> list_all (\<lambda>x. \<exists>n. x = take n (req_bytes c)) xs)"

lemma sent_within_refl [simp]: "sent_within k c m m"
  by (auto simp: sent_within_def)

lemma sent_within_step:
  assumes "sends m2 = sends m @ [take n (req_bytes c)]" "sent_within k c m2 m'"
  shows "sent_within (Suc k) c m m'"
  using assms by (force simp: sent_within_def)

lemma proc_again_sends:
  "proc_again ntry as c m = Inr (Done (c', m')) \<Longrightarrow> ntry < 3 \<Longrightarrow> sent_within (3 - ntry) c m m'"
proof (induction as arbitrary: ntry c m)
  case (Cons a as)
  define m1 where "m1 = (if md_fd m = -1 then connectRedis a m else m)"
  have s1: "sends m1 = sends m" by (simp add: m1_def)
  note body = Cons.prems(1) [unfolded proc_again.simps(2), folded m1_def req_bytes_def,
    simplified Let_def]
  show ?case
  proof (cases "md_fd m1 = -1")
    case True
    with body s1 show ?thesis by (auto simp: sent_within_def)
  next
    case False
    with body obtain err n where w: "write_loop (cl_rlen c) (at_wbegin a) (at_writes a) 0 = Done (err, n)"
      by (auto split: run.splits)
    define m2 where "m2 = m1\<lparr>md_trace := md_trace m1 @ [Sent (take (nat n) (req_bytes c))]\<rparr>"
    have s2: "sends m2 = sends m @ [take (nat n) (req_bytes c)]" by (simp add: m2_def s1)
    have k: "3 - ntry = Suc (2 - ntry)" using Cons.prems(2) by simp
    have stop: "sends m' = sends m2 \<Longrightarrow> ?thesis"
      unfolding k by (rule sent_within_step [OF s2]) (auto simp: sent_within_def)
    have again: ?thesis if "ntry < 2" "req_bytes c2 = req_bytes c"
      "proc_again (Suc ntry) as c2 (close_fd m2) = Inr (Done (c', m'))" for c2
    proof -
      have "sent_within (3 - Suc ntry) c2 (close_fd m2) m'"
        using Cons.IH [OF that(3)] that(1) by simp
      with that(2) have "sent_within (2 - ntry) c m2 m'" by (simp add: sent_within_def)
      then show ?thesis unfolding k by (rule sent_within_step [OF s2])
    qed
    note body2 = body [simplified False w, simplified, folded m2_def]
    show ?thesis
    proof (cases "err = 0")
      case False
      then have "err = 1 \<or> err = 2" using write_loop_err [OF w] by auto
      with body2 stop again [of c] show ?thesis by (auto split: if_splits)
    next
      case True
      with body2 obtain x where x: "read_loop (at_rbegin a) (at_reads a) c = Inr x"
        by (cases "read_loop (at_rbegin a) (at_reads a) c") simp_all
      with body2 True obtain e2 c2 where
        r: "read_loop (at_rbegin a) (at_reads a) c = Inr (Done (e2, c2))"
        by (cases x) auto
      then have "req_bytes (c2\<lparr>cl_wbuf := None, cl_wlen := 0\<rparr>) = req_bytes c"
        using read_loop_done by (auto simp: req_bytes_def same_request_def)
      with body2 True r stop again show ?thesis by (auto split: if_splits)
    qed
  qed
qed simp

text \<open>A command that returns has written the request to the backend at most twice, and what
  it wrote each time is an initial part of the client's request. (Twice is possible even for a
  request the backend already executed: the retry after a broken read repeats it.)\<close>

theorem proxy_sends_at_most_twice:
  assumes "redisCommandProc as c m = Inr (Done (c', m'))"
  shows "\<exists>xs. sends m' = sends m @ xs \<and> length xs \<le> 2
    \<and> list_all (\<lambda>x. \<exists>n. x = take n (req_bytes c)) xs"
  using proc_again_sends [of 1 as c m c' m'] assms
  by (simp add: redisCommandProc_def sent_within_def)

theorem proxy_sends_at_most_twice_witness:
  "\<exists>xs. sends \<lparr>md_fd = -1, md_trace = []\<rparr> = sends \<lparr>md_fd = -1, md_trace = []\<rparr> @ xs \<and> length xs \<le> 2
    \<and> list_all (\<lambda>x. \<exists>n. x = take n (req_bytes idle_client)) xs"
proof -
  have "redisCommandProc [refusing] idle_client \<lparr>md_fd = -1, md_trace = []\<rparr>
    = Inr (Done (set_error idle_client, \<lparr>md_fd = -1, md_trace = []\<rparr>))"
    by (simp add: redisCommandProc_def proc_again.simps(2) connectRedis_def refusing_def)
  from proxy_sends_at_most_twice [OF this] show ?thesis .
qed

subsection \<open>A healthy backend is relayed exactly\<close>

definition in_time :: "timeval \<Rightarrow> timeval \<Rightarrow> bool" where
  "in_time begun now \<longleftrightarrow> timeout now begun < SERVER_TIME_OUT"

text \<open>The request goes out in pieces of the given positive sizes; the reply comes in the given
  non-empty pieces; every turn is in time.\<close>

lemma write_loop_pieces:
  assumes "list_all (\<lambda>(k, t). 0 < k \<and> in_time begun t) ks" "ks \<noteq> []"
    and "n + sum_list (map fst ks) = rlen"
  shows "write_loop rlen begun (map (\<lambda>(k, t). W_wrote k t) ks) n = Done (0, rlen)"
  using assms
proof (induction ks arbitrary: n)
  case (Cons k ks)
  obtain j t where k: "k = (j, t)" by (cases k)
  show ?case
  proof (cases "ks = []")
    case True
    with Cons.prems k show ?thesis by (simp add: in_time_def)
  next
    case False
    then obtain k2 ks2 where ks: "ks = k2 # ks2" by (cases ks) auto
    have "0 < fst k2" "0 \<le> sum_list (map fst ks2)"
      using Cons.prems(1) ks by (auto simp: list_all_iff intro!: sum_list_nonneg) force
    then have "n + j \<noteq> rlen" using Cons.prems(3) k ks by simp
    with Cons.prems k show ?thesis using Cons.IH [of "n + j"] False
      by (simp add: in_time_def add.assoc)
  qed
qed simp

lemma read_loop_pieces:
  assumes "ok_reply x" "enc_reply x = d @ concat (map snd ds)" "holds c d" "ds \<noteq> []"
    and "list_all (\<lambda>(t, y). y \<noteq> [] \<and> in_time begun t) ds"
  shows "(\<exists>c'. read_loop begun (map (\<lambda>(t, y). R_data t y) ds) c = Inr (Done (0, c')) \<and> holds c' (enc_reply x))
    \<or> (INT_MAX < int (length (enc_reply x)) + int WRITE_BUF_LEN
        \<and> read_loop begun (map (\<lambda>(t, y). R_data t y) ds) c = Inl Signed_overflow)"
  using assms
proof (induction ds arbitrary: c d)
  case (Cons p ds)
  obtain t y where p: "p = (t, y)" by (cases p)
  from Cons.prems p have y: "y \<noteq> []" "\<not> late begun (Some t)"
    by (auto simp: in_time_def late_def)
  obtain r where r: "holds (got y c) (d @ y)" "cl_wbuf (got y c) = Some ((d @ y) @ r)"
    using got_holds [OF Cons.prems(3)] by blast
  have enc: "enc_reply x = (d @ y) @ concat (map snd ds)" using Cons.prems(2) p by simp
  with reply_piece [OF Cons.prems(1) this, of r] y
  have v: "processResponseBuffer ((d @ y) @ r) (cl_wlen (got y c))
    = Inr (if concat (map snd ds) = [] then 1 else 0)"
    using r(1) by (simp add: holds_def)
  show ?case
  proof (cases "INT_MAX < cl_wlen c + int WRITE_BUF_LEN")
    case True
    then have "INT_MAX < int (length (enc_reply x)) + int WRITE_BUF_LEN"
      using Cons.prems(3) enc by (simp add: holds_def)
    with True y p show ?thesis by (simp add: room_def)
  next
    case room: False
    show ?thesis
    proof (cases "ds = []")
      case True
      with v r p y room Cons.prems(2) show ?thesis by (simp add: Let_def room_def)
    next
      case False
      then have "concat (map snd ds) \<noteq> []"
        using Cons.prems(5) by (cases ds) auto
      with v have "processResponseBuffer ((d @ y) @ r) (cl_wlen (got y c)) = Inr 0"
        by metis
      with r p y room have "read_loop begun (map (\<lambda>(t, y). R_data t y) (p # ds)) c
        = read_loop begun (map (\<lambda>(t, y). R_data t y) ds) (got y c)"
        by (simp add: Let_def room_def)
      then show ?thesis
        using Cons.IH [OF Cons.prems(1) _ r(1) False] Cons.prems(2,5) p by simp
    qed
  qed
qed simp

text \<open>A turn of the environment in which the backend is up: the request leaves in any positive
  pieces, the reply comes back cut anywhere, no turn is late.\<close>

definition healthy :: "attempt \<Rightarrow> int \<Rightarrow> string \<Rightarrow> (int \<times> timeval) list \<Rightarrow> (timeval \<times> string) list \<Rightarrow> bool"
  where
  "healthy a rlen answer ks ds \<longleftrightarrow>
     at_writes a = map (\<lambda>(k, t). W_wrote k t) ks \<and> ks \<noteq> []
     \<and> list_all (\<lambda>(k, t). 0 < k \<and> in_time (at_wbegin a) t) ks \<and> sum_list (map fst ks) = rlen
     \<and> at_reads a = map (\<lambda>(t, y). R_data t y) ds \<and> ds \<noteq> []
     \<and> list_all (\<lambda>(t, y). y \<noteq> [] \<and> in_time (at_rbegin a) t) ds \<and> concat (map snd ds) = answer"

text \<open>C3. With a healthy backend the proxy is transparent: on an open connection it writes exactly
  the client's request, once, and hands back exactly the reply's bytes, however the network cut
  the two streams. The only other outcome needs a reply of nearly \<open>2 ^ 31\<close> bytes, whose length does
  not fit the \<open>int\<close> that counts it.\<close>

theorem proxy_relays:
  assumes "md_fd m \<noteq> -1" "ok_reply x"
    and "cl_rbuf c = Some b" "cl_wbuf c = None" "cl_wlen c = 0"
    and "healthy a (cl_rlen c) (enc_reply x) ks ds"
  shows "(\<exists>c' m'. redisCommandProc (a # as) c m = Inr (Done (c', m'))
      \<and> (\<exists>r. cl_wbuf c' = Some (enc_reply x @ r)) \<and> cl_wlen c' = int (length (enc_reply x))
      \<and> md_fd m' = md_fd m \<and> md_trace m' = md_trace m @ [Sent (take (nat (cl_rlen c)) b)])
    \<or> (INT_MAX < int (length (enc_reply x)) + int WRITE_BUF_LEN
        \<and> redisCommandProc (a # as) c m = Inl Signed_overflow)"
proof -
  note h = assms(6) [unfolded healthy_def]
  have w: "write_loop (cl_rlen c) (at_wbegin a) (at_writes a) 0 = Done (0, cl_rlen c)"
    using write_loop_pieces [of "at_wbegin a" ks 0] h by simp
  have "holds c []" using assms(4,5) by (simp add: holds_def)
  then consider c' where "read_loop (at_rbegin a) (at_reads a) c = Inr (Done (0, c'))" "holds c' (enc_reply x)"
    | "INT_MAX < int (length (enc_reply x)) + int WRITE_BUF_LEN"
      "read_loop (at_rbegin a) (at_reads a) c = Inl Signed_overflow"
    using read_loop_pieces [OF assms(2), of "[]" ds c "at_rbegin a"] h by auto
  then show ?thesis
  proof cases
    case (1 c')
    have ne: "enc_reply x \<noteq> []" by (cases x) (auto simp: enc_len_def)
    have "\<exists>r. cl_wbuf c' = Some (enc_reply x @ r)"
    proof (cases "cl_wbuf c'")
      case None
      with 1(2) ne show ?thesis by (simp add: holds_def)
    next
      case (Some w)
      with 1(2) have "w = enc_reply x @ drop (length (enc_reply x)) w"
        by (metis append_take_drop_id holds_def option.simps(5))
      with Some show ?thesis by metis
    qed
    with w 1 assms(1,3) show ?thesis
      by (simp add: redisCommandProc_def proc_again.simps(2) holds_def)
  next
    case 2
    with w assms(1) show ?thesis by (simp add: redisCommandProc_def proc_again.simps(2) Let_def)
  qed
qed

definition pong_attempt :: attempt where
  "pong_attempt = \<lparr>at_connect = -1, at_wbegin = (5, 0), at_writes = [W_wrote 4 (5, 10), W_wrote 2 (5, 20)],
     at_rbegin = (5, 30), at_reads = [R_data (5, 40) ''+PO'', R_data (5, 50) (''NG'' @ CRLF)], at_memory = True\<rparr>"

theorem proxy_relays_witness:
  "\<exists>c' m'. redisCommandProc [pong_attempt] idle_client \<lparr>md_fd = 9, md_trace = []\<rparr> = Inr (Done (c', m'))
    \<and> (\<exists>r. cl_wbuf c' = Some (enc_reply (Status ''PONG'') @ r))
    \<and> cl_wlen c' = int (length (enc_reply (Status ''PONG'')))
    \<and> md_fd m' = 9 \<and> md_trace m' = [Sent (''PING'' @ CRLF)]"
proof -
  let ?ks = "[(4, (5, 10)), (2, (5, 20))] :: (int \<times> timeval) list"
  let ?ds = "[((5, 40), ''+PO''), ((5, 50), ''NG'' @ CRLF)] :: (timeval \<times> string) list"
  have "healthy pong_attempt 6 (enc_reply (Status ''PONG'')) ?ks ?ds"
    by (simp add: healthy_def pong_attempt_def in_time_def timeout_def c_div_def SERVER_TIME_OUT_def)
  then have "healthy pong_attempt (cl_rlen idle_client) (enc_reply (Status ''PONG'')) ?ks ?ds"
    by (simp add: idle_client_def)
  from proxy_relays [OF _ _ _ _ _ this, of "\<lparr>md_fd = 9, md_trace = []\<rparr>" "''PING'' @ CRLF @ [NUL]" "[]"]
  show ?thesis by (simp add: ok_line_def idle_client_def INT_MAX_def WRITE_BUF_LEN_def)
qed

subsection \<open>The clock\<close>

text \<open>\<open>timeout\<close> measures: for times less than twenty days apart, with proper microsecond
  parts, it is within one millisecond of the time passed.\<close>

theorem timeout_accuracy:
  assumes "0 \<le> u0" "u0 < 1000000" "0 \<le> u1" "u1 < 1000000" "0 \<le> s1 - s0" "s1 - s0 < 1728000"
  shows "\<bar>1000 * timeout (s1, u1) (s0, u0) - ((s1 - s0) * 1000000 + (u1 - u0))\<bar> < 1000"
proof -
  have d: "- 1000 < c_div (u1 - u0) 1000" "c_div (u1 - u0) 1000 < 1000"
    "\<bar>1000 * c_div (u1 - u0) 1000 - (u1 - u0)\<bar> < 1000"
    using assms(1-4) by (auto simp: c_div_def sgn_if; linarith)+
  have a: "to_i32 ((s1 - s0) * 1000) = (s1 - s0) * 1000"
    using assms(5,6) by (intro to_i32_small) auto
  have "timeout (s1, u1) (s0, u0) = (s1 - s0) * 1000 + c_div (u1 - u0) 1000"
    using assms(5,6) d by (simp add: timeout_def a)
  with d show ?thesis by simp
qed

theorem timeout_accuracy_witness:
  "\<bar>1000 * timeout (12, 100) (10, 999900) - ((12 - 10) * 1000000 + (100 - 999900))\<bar> < 1000"
  by (rule timeout_accuracy) simp_all

end
