(* ===== verification/Adlist.thy ===== *)
theory Adlist
  imports Prelude
begin

section \<open>The doubly linked list (adlist.c)\<close>

text \<open>
  \<open>adlist.c\<close> of redis-proxy (redis-server has the same file) links nodes on the C heap. The
  model keeps the pointers: a heap maps addresses to nodes, a freed node is no longer in it,
  and every access through a pointer is checked (\<open>Null_deref\<close>, \<open>Use_after_free\<close>). The
  address \<open>malloc\<close> returns is an argument, \<open>None\<close> when it fails. \<open>chain\<close> relates a heap
  segment to the sequence of its nodes; each operation is shown to do to that sequence what its
  name says. The header \<open>len\<close> is the code's \<open>unsigned int\<close>.
\<close>

subsection \<open>Data\<close>

type_synonym ptr = "nat option"

record 'v listNode =
  nd_prev :: ptr
  nd_next :: ptr
  nd_value :: 'v

record 'v clist =
  l_head :: ptr
  l_tail :: ptr
  l_dup :: "('v \<Rightarrow> 'v option) option"
  l_free :: bool
  l_match :: "('v \<Rightarrow> 'v \<Rightarrow> bool) option"
  l_len :: "32 word"

type_synonym 'v cells = "nat \<Rightarrow> 'v listNode option"

text \<open>A list with the heap it lives in and the values handed to its \<open>free\<close> method so far.\<close>

record 'v lstate =
  ls_list :: "'v clist"
  ls_cells :: "'v cells"
  ls_freed :: "'v list"

datatype direction = AL_START_HEAD | AL_START_TAIL

record listIter =
  it_next :: ptr
  it_direction :: direction

definition deref :: "'v cells \<Rightarrow> ptr \<Rightarrow> (nat \<times> 'v listNode) res" where
  "deref h p = (case p of None \<Rightarrow> Inl Null_deref
     | Some a \<Rightarrow> (case h a of None \<Rightarrow> Inl Use_after_free | Some n \<Rightarrow> Inr (a, n)))"

definition set_prev :: "'v cells \<Rightarrow> ptr \<Rightarrow> ptr \<Rightarrow> 'v cells res" where
  "set_prev h p q = fmap (\<lambda>(a, n). h(a \<mapsto> n\<lparr>nd_prev := q\<rparr>)) (deref h p)"

definition set_next :: "'v cells \<Rightarrow> ptr \<Rightarrow> ptr \<Rightarrow> 'v cells res" where
  "set_next h p q = fmap (\<lambda>(a, n). h(a \<mapsto> n\<lparr>nd_next := q\<rparr>)) (deref h p)"

subsection \<open>Operations\<close>

definition listCreate :: "bool \<Rightarrow> 'v clist option" where
  "listCreate mem_ok = (if mem_ok then Some \<lparr>l_head = None, l_tail = None, l_dup = None,
     l_free = False, l_match = None, l_len = 0\<rparr> else None)"

definition call_free :: "'v \<Rightarrow> 'v lstate \<Rightarrow> 'v lstate" where
  "call_free v s = (if l_free (ls_list s) then s\<lparr>ls_freed := ls_freed s @ [v]\<rparr> else s)"

text \<open>The loop \<open>while(len--)\<close> of \<open>listRelease\<close>: the header itself is freed by the caller's
  last step, which the result (no list any more) stands for.\<close>

fun release_loop :: "nat \<Rightarrow> ptr \<Rightarrow> 'v lstate \<Rightarrow> 'v lstate res" where
  "release_loop 0 cur s = Inr s"
| "release_loop (Suc len) cur s =
     fbind (deref (ls_cells s) cur) (\<lambda>(a, n).
       let s1 = call_free (nd_value n) s
       in release_loop len (nd_next n) (s1\<lparr>ls_cells := (ls_cells s1)(a := None)\<rparr>))"

definition listRelease :: "'v lstate \<Rightarrow> ('v cells \<times> 'v list) res" where
  "listRelease s = fmap (\<lambda>s. (ls_cells s, ls_freed s))
     (release_loop (unat (l_len (ls_list s))) (l_head (ls_list s)) s)"

text \<open>\<open>NULL\<close> on failure of \<open>malloc\<close>, the list unaltered.\<close>

definition listAddNodeHead :: "nat option \<Rightarrow> 'v \<Rightarrow> 'v lstate \<Rightarrow> 'v lstate option res" where
  "listAddNodeHead mem v s =
     (case mem of None \<Rightarrow> Inr None
      | Some a \<Rightarrow>
          let l = ls_list s; h = ls_cells s in
          if l_len l = 0 then
            Inr (Some (s\<lparr>ls_list := l\<lparr>l_head := Some a, l_tail := Some a, l_len := l_len l + 1\<rparr>,
              ls_cells := h(a \<mapsto> \<lparr>nd_prev = None, nd_next = None, nd_value = v\<rparr>)\<rparr>))
          else
            let h1 = h(a \<mapsto> \<lparr>nd_prev = None, nd_next = l_head l, nd_value = v\<rparr>) in
            fmap (\<lambda>h2. Some (s\<lparr>ls_list := l\<lparr>l_head := Some a, l_len := l_len l + 1\<rparr>, ls_cells := h2\<rparr>))
              (set_prev h1 (l_head l) (Some a)))"

definition listAddNodeTail :: "nat option \<Rightarrow> 'v \<Rightarrow> 'v lstate \<Rightarrow> 'v lstate option res" where
  "listAddNodeTail mem v s =
     (case mem of None \<Rightarrow> Inr None
      | Some a \<Rightarrow>
          let l = ls_list s; h = ls_cells s in
          if l_len l = 0 then
            Inr (Some (s\<lparr>ls_list := l\<lparr>l_head := Some a, l_tail := Some a, l_len := l_len l + 1\<rparr>,
              ls_cells := h(a \<mapsto> \<lparr>nd_prev = None, nd_next = None, nd_value = v\<rparr>)\<rparr>))
          else
            let h1 = h(a \<mapsto> \<lparr>nd_prev = l_tail l, nd_next = None, nd_value = v\<rparr>) in
            fmap (\<lambda>h2. Some (s\<lparr>ls_list := l\<lparr>l_tail := Some a, l_len := l_len l + 1\<rparr>, ls_cells := h2\<rparr>))
              (set_next h1 (l_tail l) (Some a)))"

text \<open>The two conditionals of \<open>listDelNode\<close>: the left part is linked past the node, then the right.\<close>

definition unlink_left :: "'v lstate \<Rightarrow> 'v listNode \<Rightarrow> ('v clist \<times> 'v cells) res" where
  "unlink_left s n = (if nd_prev n \<noteq> None
     then fmap (\<lambda>h. (ls_list s, h)) (set_next (ls_cells s) (nd_prev n) (nd_next n))
     else Inr ((ls_list s)\<lparr>l_head := nd_next n\<rparr>, ls_cells s))"

definition unlink_right :: "'v clist \<Rightarrow> 'v cells \<Rightarrow> 'v listNode \<Rightarrow> ('v clist \<times> 'v cells) res" where
  "unlink_right l h n = (if nd_next n \<noteq> None
     then fmap (\<lambda>h. (l, h)) (set_prev h (nd_next n) (nd_prev n))
     else Inr (l\<lparr>l_tail := nd_prev n\<rparr>, h))"

definition listDelNode :: "ptr \<Rightarrow> 'v lstate \<Rightarrow> 'v lstate res" where
  "listDelNode node s =
     fbind (deref (ls_cells s) node) (\<lambda>(a, n).
     fbind (unlink_left s n) (\<lambda>(l1, h1).
     fbind (deref h1 node) (\<lambda>(a1, n1).
     fbind (unlink_right l1 h1 n1) (\<lambda>(l2, h2).
     fbind (deref h2 node) (\<lambda>(a2, n2).
       let s3 = call_free (nd_value n2) (s\<lparr>ls_list := l2, ls_cells := h2\<rparr>)
       in Inr (s3\<lparr>ls_list := (ls_list s3)\<lparr>l_len := l_len (ls_list s3) - 1\<rparr>,
              ls_cells := (ls_cells s3)(a := None)\<rparr>))))))"

definition listGetIterator :: "bool \<Rightarrow> 'v clist \<Rightarrow> direction \<Rightarrow> listIter option" where
  "listGetIterator mem_ok l d = (if mem_ok then Some
     \<lparr>it_next = (case d of AL_START_HEAD \<Rightarrow> l_head l | AL_START_TAIL \<Rightarrow> l_tail l), it_direction = d\<rparr>
     else None)"

definition listRewind :: "'v clist \<Rightarrow> listIter" where
  "listRewind l = \<lparr>it_next = l_head l, it_direction = AL_START_HEAD\<rparr>"

definition listRewindTail :: "'v clist \<Rightarrow> listIter" where
  "listRewindTail l = \<lparr>it_next = l_tail l, it_direction = AL_START_TAIL\<rparr>"

definition listNext :: "'v cells \<Rightarrow> listIter \<Rightarrow> (ptr \<times> listIter) res" where
  "listNext h it =
     (if it_next it = None then Inr (None, it)
      else fmap (\<lambda>(a, n). (it_next it, it\<lparr>it_next :=
          (case it_direction it of AL_START_HEAD \<Rightarrow> nd_next n | AL_START_TAIL \<Rightarrow> nd_prev n)\<rparr>))
        (deref h (it_next it)))"

text \<open>The loops over an iterator walk at most as many nodes as fuel allows; a list of \<open>n\<close> nodes
  needs \<open>n + 1\<close> turns.\<close>

fun search_loop :: "nat \<Rightarrow> 'v lstate \<Rightarrow> 'v \<Rightarrow> listIter \<Rightarrow> ptr option res" where
  "search_loop 0 s key it = Inr None"
| "search_loop (Suc fuel) s key it =
     fbind (listNext (ls_cells s) it) (\<lambda>(p, it').
       if p = None then Inr (Some None)
       else fbind (deref (ls_cells s) p) (\<lambda>(a, n).
         if (case l_match (ls_list s) of Some f \<Rightarrow> f (nd_value n) key | None \<Rightarrow> key = nd_value n)
         then Inr (Some p)
         else search_loop fuel s key it'))"

definition listSearchKey :: "bool \<Rightarrow> 'v lstate \<Rightarrow> 'v \<Rightarrow> ptr option res" where
  "listSearchKey mem_ok s key =
     (case listGetIterator mem_ok (ls_list s) AL_START_HEAD of
        None \<Rightarrow> Inl Null_deref
      | Some it \<Rightarrow> search_loop (Suc (unat (l_len (ls_list s)))) s key it)"

text \<open>\<open>listDup\<close>: the copy grows in the same heap; \<open>mems\<close> are the answers of \<open>malloc\<close>, one per
  node. A failing \<open>dup\<close> method or \<open>malloc\<close> releases the copy and gives \<open>NULL\<close>; the heap and
  the values handed to the copy's \<open>free\<close> method come back either way.\<close>

type_synonym 'v dup_result = "'v cells \<times> 'v list \<times> 'v lstate option"

definition dup_fail :: "'v lstate \<Rightarrow> 'v dup_result option res" where
  "dup_fail c = fmap (\<lambda>(h, f). Some (h, f, None)) (listRelease c)"

fun dup_loop :: "nat \<Rightarrow> 'v lstate \<Rightarrow> listIter \<Rightarrow> nat option list
  \<Rightarrow> 'v dup_result option res" where
  "dup_loop 0 c it mems = Inr None"
| "dup_loop (Suc fuel) c it mems =
     fbind (listNext (ls_cells c) it) (\<lambda>(p, it').
       if p = None then Inr (Some (ls_cells c, ls_freed c, Some c))
       else fbind (deref (ls_cells c) p) (\<lambda>(a, n).
         case (case l_dup (ls_list c) of Some d \<Rightarrow> d (nd_value n) | None \<Rightarrow> Some (nd_value n)) of
           None \<Rightarrow> dup_fail c
         | Some v \<Rightarrow>
             fbind (listAddNodeTail (case mems of [] \<Rightarrow> None | m # ms \<Rightarrow> m) v c) (\<lambda>r. case r of
                 None \<Rightarrow> dup_fail c
               | Some c' \<Rightarrow> dup_loop fuel c' it' (tl mems))))"

definition listDup :: "bool \<Rightarrow> bool \<Rightarrow> nat option list \<Rightarrow> 'v lstate
  \<Rightarrow> 'v dup_result option res" where
  "listDup create_ok iter_ok mems orig =
     (case listCreate create_ok of
        None \<Rightarrow> Inr (Some (ls_cells orig, [], None))
      | Some l \<Rightarrow>
          let copy = \<lparr>ls_list = l\<lparr>l_dup := l_dup (ls_list orig), l_free := l_free (ls_list orig),
                l_match := l_match (ls_list orig)\<rparr>, ls_cells = ls_cells orig, ls_freed = []\<rparr>
          in (case listGetIterator iter_ok (ls_list orig) AL_START_HEAD of
                None \<Rightarrow> Inl Null_deref
              | Some it \<Rightarrow> dup_loop (Suc (unat (l_len (ls_list orig)))) copy it mems))"

fun walk :: "(('v listNode) \<Rightarrow> ptr) \<Rightarrow> nat \<Rightarrow> 'v cells \<Rightarrow> ptr \<Rightarrow> ptr res" where
  "walk f 0 h n = Inr n"
| "walk f (Suc k) h n =
     (if n = None then Inr n else fbind (deref h n) (\<lambda>(a, x). walk f k h (f x)))"

definition listIndex :: "'v lstate \<Rightarrow> int \<Rightarrow> ptr res" where
  "listIndex s index =
     (if index < 0 then
        (if INT_MAX < - index then Inl Signed_overflow
         else walk nd_prev (nat (- index - 1)) (ls_cells s) (l_tail (ls_list s)))
      else walk nd_next (nat index) (ls_cells s) (l_head (ls_list s)))"

subsection \<open>Heap segments and sequences\<close>

fun chain :: "'v cells \<Rightarrow> ptr \<Rightarrow> ptr \<Rightarrow> (nat \<times> 'v) list \<Rightarrow> ptr \<Rightarrow> ptr \<Rightarrow> bool" where
  "chain h pr cu [] la nx \<longleftrightarrow> cu = nx \<and> pr = la"
| "chain h pr cu ((a, v) # xs) la nx \<longleftrightarrow> cu = Some a \<and>
     (\<exists>q. h a = Some \<lparr>nd_prev = pr, nd_next = q, nd_value = v\<rparr> \<and> chain h (Some a) q xs la nx)"

definition list_rep :: "'v lstate \<Rightarrow> (nat \<times> 'v) list \<Rightarrow> bool" where
  "list_rep s xs \<longleftrightarrow> chain (ls_cells s) None (l_head (ls_list s)) xs (l_tail (ls_list s)) None
     \<and> distinct (map fst xs) \<and> l_len (ls_list s) = of_nat (length xs) \<and> length xs < 2 ^ 32"

lemma chain_append:
  "chain h pr cu (xs @ ys) la nx \<longleftrightarrow>
   (\<exists>m n. chain h pr cu xs m n \<and> chain h m n ys la nx)"
  by (induction xs arbitrary: pr cu) force+

lemma chain_frame:
  "a \<notin> fst ` set xs \<Longrightarrow> chain (h(a := y)) pr cu xs la nx = chain h pr cu xs la nx"
  by (induction xs arbitrary: pr cu) auto

lemma chain_snoc:
  "chain h pr cu (xs @ [(a, v)]) la nx \<longleftrightarrow> la = Some a \<and>
   (\<exists>m. chain h pr cu xs m (Some a) \<and> h a = Some \<lparr>nd_prev = m, nd_next = nx, nd_value = v\<rparr>)"
  by (auto simp: chain_append)

lemma chain_dom: "chain h pr cu xs la nx \<Longrightarrow> a \<in> fst ` set xs \<Longrightarrow> h a \<noteq> None"
  by (induction xs arbitrary: pr cu) force+

lemma chain_ends:
  assumes "chain h pr cu xs la nx" "xs \<noteq> []"
  shows "cu = Some (fst (hd xs)) \<and> la = Some (fst (last xs))"
proof -
  have "cu = Some (fst (hd xs))" using assms by (cases xs) auto
  moreover obtain b w zs where "xs = zs @ [(b, w)]"
    using assms(2) by (cases xs rule: rev_cases) auto
  ultimately show ?thesis using assms(1) by (simp add: chain_snoc)
qed

lemma rep_len_zero: "list_rep s xs \<Longrightarrow> l_len (ls_list s) = 0 \<longleftrightarrow> xs = []"
  by (auto simp: list_rep_def word_of_nat_eq_0_iff dest: nat_dvd_not_less)

lemma rep_unat_len: "list_rep s xs \<Longrightarrow> unat (l_len (ls_list s)) = length xs"
  by (simp add: list_rep_def unsigned_of_nat take_bit_nat_eq_self)

lemma rep_fresh: "list_rep s xs \<Longrightarrow> ls_cells s a = None \<Longrightarrow> a \<notin> fst ` set xs"
  using chain_dom by (fastforce simp: list_rep_def)

lemma chain_new_prev:
  assumes "chain h None cu ((b, w) # xs) la nx" "b \<notin> fst ` set xs"
  shows "chain (h(b \<mapsto> (the (h b))\<lparr>nd_prev := p\<rparr>)) p cu ((b, w) # xs) la nx"
  using assms by (auto simp: chain_frame)

lemma chain_new_next:
  assumes "chain h pr cu (xs @ [(b, w)]) la nx" "b \<notin> fst ` set xs"
  shows "chain (h(b \<mapsto> (the (h b))\<lparr>nd_next := q\<rparr>)) pr cu (xs @ [(b, w)]) la q"
  using assms by (auto simp: chain_snoc chain_frame)

subsection \<open>Adding a node\<close>

text \<open>The rest of the heap stays as it is.\<close>

definition cells_outside :: "nat set \<Rightarrow> 'v cells \<Rightarrow> 'v cells \<Rightarrow> bool" where
  "cells_outside A h h' \<longleftrightarrow> (\<forall>b. b \<notin> A \<longrightarrow> h' b = h b)"

lemma listAddNodeTail_ok:
  assumes rep: "list_rep s xs" and a: "ls_cells s a = None" and len: "Suc (length xs) < 2 ^ 32"
  shows "\<exists>s'. listAddNodeTail (Some a) v s = Inr (Some s') \<and> list_rep s' (xs @ [(a, v)])
    \<and> cells_outside (insert a (fst ` set xs)) (ls_cells s) (ls_cells s')
    \<and> ls_freed s' = ls_freed s \<and> l_free (ls_list s') = l_free (ls_list s)"
proof (cases "xs = []")
  case True
  then show ?thesis
    using rep len rep_len_zero [OF rep]
    by (simp add: listAddNodeTail_def Let_def list_rep_def cells_outside_def)
next
  case False
  then obtain ys b w where xs: "xs = ys @ [(b, w)]"
    by (cases xs rule: rev_cases) auto
  have fresh: "a \<notin> fst ` set xs" by (rule rep_fresh [OF rep a])
  let ?h = "ls_cells s" and ?l = "ls_list s"
  let ?h1 = "?h(a \<mapsto> \<lparr>nd_prev = l_tail ?l, nd_next = None, nd_value = v\<rparr>)"
  have ch: "chain ?h None (l_head ?l) (ys @ [(b, w)]) (l_tail ?l) None"
    and dist: "distinct (map fst xs)" using rep xs by (auto simp: list_rep_def)
  then obtain n where n: "?h b = Some n" and tl: "l_tail ?l = Some b"
    by (auto simp: chain_snoc)
  have ab: "a \<noteq> b" "a \<notin> fst ` set ys" "b \<notin> fst ` set ys"
    using fresh xs dist by auto
  let ?h2 = "?h1(b \<mapsto> n\<lparr>nd_next := Some a\<rparr>)"
  have "chain ?h1 None (l_head ?l) (ys @ [(b, w)]) (l_tail ?l) None"
    using ch chain_frame [of a "ys @ [(b, w)]"] ab by simp
  from chain_new_next [OF this ab(3), of "Some a"]
  have "chain ?h2 None (l_head ?l) (ys @ [(b, w)]) (l_tail ?l) (Some a)"
    using n ab by simp
  then have "chain ?h2 None (l_head ?l) (xs @ [(a, v)]) (Some a) None"
    using xs ab tl by (auto simp: chain_append)
  moreover have "set_next ?h1 (l_tail ?l) (Some a) = Inr ?h2"
    using n tl ab by (simp add: set_next_def deref_def)
  ultimately show ?thesis
    using False rep len fresh dist xs rep_len_zero [OF rep]
    by (auto simp: listAddNodeTail_def Let_def list_rep_def cells_outside_def)
qed

lemma listAddNodeHead_ok:
  assumes rep: "list_rep s xs" and a: "ls_cells s a = None" and len: "Suc (length xs) < 2 ^ 32"
  shows "\<exists>s'. listAddNodeHead (Some a) v s = Inr (Some s') \<and> list_rep s' ((a, v) # xs)
    \<and> cells_outside (insert a (fst ` set xs)) (ls_cells s) (ls_cells s')
    \<and> ls_freed s' = ls_freed s \<and> l_free (ls_list s') = l_free (ls_list s)"
proof (cases "xs = []")
  case True
  then show ?thesis
    using rep len rep_len_zero [OF rep]
    by (simp add: listAddNodeHead_def Let_def list_rep_def cells_outside_def)
next
  case False
  then obtain ys b w where xs: "xs = (b, w) # ys" by (cases xs) auto
  have fresh: "a \<notin> fst ` set xs" by (rule rep_fresh [OF rep a])
  let ?h = "ls_cells s" and ?l = "ls_list s"
  let ?h1 = "?h(a \<mapsto> \<lparr>nd_prev = None, nd_next = l_head ?l, nd_value = v\<rparr>)"
  have ch: "chain ?h None (l_head ?l) ((b, w) # ys) (l_tail ?l) None"
    and dist: "distinct (map fst xs)" using rep xs by (auto simp: list_rep_def)
  then obtain n where n: "?h b = Some n" and hd: "l_head ?l = Some b" by auto
  have ab: "a \<noteq> b" "a \<notin> fst ` set ys" "b \<notin> fst ` set ys"
    using fresh xs dist by auto
  let ?h2 = "?h1(b \<mapsto> n\<lparr>nd_prev := Some a\<rparr>)"
  have "chain ?h1 None (l_head ?l) ((b, w) # ys) (l_tail ?l) None"
    using ch ab by (simp add: chain_frame)
  from chain_new_prev [OF this ab(3), of "Some a"]
  have "chain ?h2 (Some a) (l_head ?l) ((b, w) # ys) (l_tail ?l) None"
    using n ab hd by auto
  then have "chain ?h2 None (Some a) ((a, v) # xs) (l_tail ?l) None"
    using xs ab hd by auto
  moreover have "set_prev ?h1 (l_head ?l) (Some a) = Inr ?h2"
    using n hd ab by (simp add: set_prev_def deref_def)
  ultimately show ?thesis
    using False rep len fresh dist xs rep_len_zero [OF rep]
    by (auto simp: listAddNodeHead_def Let_def list_rep_def cells_outside_def)
qed

subsection \<open>Deleting a node\<close>

lemma unlink_left_ok:
  assumes ch: "chain (ls_cells s) None (l_head (ls_list s)) xs (nd_prev n) (Some a)"
    and dist: "distinct (map fst xs)"
  obtains l1 h1 where "unlink_left s n = Inr (l1, h1)"
    "chain h1 None (l_head l1) xs (nd_prev n) (nd_next n)"
    "l1 = (ls_list s)\<lparr>l_head := l_head l1\<rparr>" "cells_outside (fst ` set xs) (ls_cells s) h1"
proof (cases "xs = []")
  case True
  with ch show ?thesis
    using that [of "(ls_list s)\<lparr>l_head := nd_next n\<rparr>" "ls_cells s"]
    by (simp add: unlink_left_def cells_outside_def)
next
  case False
  then obtain ys b w where xs: "xs = ys @ [(b, w)]" by (cases xs rule: rev_cases) auto
  with ch obtain k where k: "ls_cells s b = Some k" "nd_prev n = Some b"
    by (auto simp: chain_snoc)
  from xs dist have "b \<notin> fst ` set ys" by auto
  from chain_new_next [OF ch [unfolded xs] this] k xs show ?thesis
    using that [of "ls_list s" "(ls_cells s)(b \<mapsto> k\<lparr>nd_next := nd_next n\<rparr>)"]
    by (simp add: unlink_left_def set_next_def deref_def cells_outside_def)
qed

lemma unlink_right_ok:
  assumes ch: "chain h (Some a) (nd_next n) ys (l_tail l) None"
    and dist: "distinct (map fst ys)"
  obtains l2 h2 where "unlink_right l h n = Inr (l2, h2)"
    "chain h2 (nd_prev n) (nd_next n) ys (l_tail l2) None"
    "l2 = l\<lparr>l_tail := l_tail l2\<rparr>" "cells_outside (fst ` set ys) h h2"
proof (cases "ys = []")
  case True
  with ch show ?thesis
    using that [of "l\<lparr>l_tail := nd_prev n\<rparr>" h]
    by (simp add: unlink_right_def cells_outside_def)
next
  case False
  then obtain zs b w where ys: "ys = (b, w) # zs" by (cases ys) auto
  with ch obtain k where k: "h b = Some k" "nd_next n = Some b" by auto
  from ys dist have b: "b \<notin> fst ` set zs" by auto
  have "chain (h(b \<mapsto> k\<lparr>nd_prev := nd_prev n\<rparr>)) (nd_prev n) (nd_next n) ys (l_tail l) None"
    using ch k b ys by (auto simp: chain_frame)
  with k ys show ?thesis
    using that [of l "h(b \<mapsto> k\<lparr>nd_prev := nd_prev n\<rparr>)"]
    by (simp add: unlink_right_def set_prev_def deref_def cells_outside_def)
qed

lemma chain_outside:
  "cells_outside A h h' \<Longrightarrow> fst ` set xs \<inter> A = {} \<Longrightarrow>
   chain h pr cu xs la nx \<Longrightarrow> chain h' pr cu xs la nx"
  by (induction xs arbitrary: pr cu) (auto simp: cells_outside_def)

lemma listDelNode_ok:
  assumes rep: "list_rep s (xs @ (a, v) # ys)"
  shows "\<exists>s'. listDelNode (Some a) s = Inr s' \<and> list_rep s' (xs @ ys) \<and> ls_cells s' a = None
    \<and> cells_outside (fst ` set (xs @ (a, v) # ys)) (ls_cells s) (ls_cells s')
    \<and> ls_freed s' = ls_freed s @ (if l_free (ls_list s) then [v] else [])
    \<and> l_free (ls_list s') = l_free (ls_list s)"
proof -
  let ?h = "ls_cells s"
  obtain n where n: "?h a = Some n" "nd_value n = v"
    and left: "chain ?h None (l_head (ls_list s)) xs (nd_prev n) (Some a)"
    and right: "chain ?h (Some a) (nd_next n) ys (l_tail (ls_list s)) None"
    using rep by (auto simp: list_rep_def chain_append)
  have d: "distinct (map fst xs)" "distinct (map fst ys)" "a \<notin> fst ` set xs" "a \<notin> fst ` set ys"
    "fst ` set xs \<inter> fst ` set ys = {}"
    using rep by (auto simp: list_rep_def)
  obtain l1 h1 where u1: "unlink_left s n = Inr (l1, h1)"
    "chain h1 None (l_head l1) xs (nd_prev n) (nd_next n)"
    "l1 = (ls_list s)\<lparr>l_head := l_head l1\<rparr>" "cells_outside (fst ` set xs) ?h h1"
    using unlink_left_ok [OF left d(1)] by blast
  have h1a: "h1 a = Some n" using u1(4) n(1) d(3) by (simp add: cells_outside_def)
  have t1: "l_tail l1 = l_tail (ls_list s)" "l_free l1 = l_free (ls_list s)" "l_len l1 = l_len (ls_list s)"
    using arg_cong [OF u1(3), of l_tail] arg_cong [OF u1(3), of l_free]
      arg_cong [OF u1(3), of l_len] by simp_all
  have r1: "chain h1 (Some a) (nd_next n) ys (l_tail l1) None"
    using chain_outside [OF u1(4) _ right] d(5) t1 by (simp add: Int_commute)
  obtain l2 h2 where u2: "unlink_right l1 h1 n = Inr (l2, h2)"
    "chain h2 (nd_prev n) (nd_next n) ys (l_tail l2) None"
    "l2 = l1\<lparr>l_tail := l_tail l2\<rparr>" "cells_outside (fst ` set ys) h1 h2"
    using unlink_right_ok [OF r1 d(2)] by blast
  have h2a: "h2 a = Some n" using u2(4) h1a d(4) by (simp add: cells_outside_def)
  have t2: "l_head l2 = l_head l1" "l_free l2 = l_free (ls_list s)" "l_len l2 = l_len (ls_list s)"
    using arg_cong [OF u2(3), of l_head] arg_cong [OF u2(3), of l_free]
      arg_cong [OF u2(3), of l_len] t1 by simp_all
  have "chain h2 None (l_head l2) xs (nd_prev n) (nd_next n)"
    using chain_outside [OF u2(4) _ u1(2)] d(5) t2 by simp
  with u2(2) have whole: "chain (h2(a := None)) None (l_head l2) (xs @ ys) (l_tail l2) None"
    using d(3,4) by (auto simp: chain_append chain_frame)
  have outside: "cells_outside (fst ` set (xs @ (a, v) # ys)) ?h (h2(a := None))"
    using u1(4) u2(4) by (auto simp: cells_outside_def image_Un)
  let ?s3 = "call_free v (s\<lparr>ls_list := l2, ls_cells := h2\<rparr>)"
  let ?s' = "?s3\<lparr>ls_list := (ls_list ?s3)\<lparr>l_len := l_len (ls_list ?s3) - 1\<rparr>,
    ls_cells := (ls_cells ?s3)(a := None)\<rparr>"
  have "listDelNode (Some a) s = Inr ?s'"
    using n h1a h2a u1(1) u2(1)
    by (simp add: listDelNode_def deref_def Let_def)
  moreover have parts: "ls_cells ?s' = h2(a := None)" "l_head (ls_list ?s') = l_head l2"
    "l_tail (ls_list ?s') = l_tail l2" "l_len (ls_list ?s') = l_len l2 - 1"
    "l_free (ls_list ?s') = l_free l2"
    "ls_freed ?s' = ls_freed s @ (if l_free l2 then [v] else [])"
    by (simp_all add: call_free_def)
  moreover have "list_rep ?s' (xs @ ys)"
  proof -
    have "l_len l2 = of_nat (length (xs @ (a, v) # ys))" "length (xs @ (a, v) # ys) < 2 ^ 32"
      using rep t2 by (simp_all add: list_rep_def)
    then have "l_len l2 - 1 = of_nat (length (xs @ ys))" "length (xs @ ys) < 2 ^ 32"
      by simp_all
    then show ?thesis
      using whole d unfolding list_rep_def parts by auto
  qed
  ultimately show ?thesis
    using outside t2 by (intro exI [of _ ?s']) simp
qed

subsection \<open>Indexing, searching, releasing\<close>

lemma walk_next:
  "chain h pr cu xs la None \<Longrightarrow>
   walk nd_next k h cu = Inr (if k < length xs then Some (fst (xs ! k)) else None)"
proof (induction xs arbitrary: pr cu k)
  case Nil
  then show ?case by (cases k) auto
next
  case (Cons x xs)
  then show ?case by (cases x; cases k) (auto simp: deref_def)
qed

lemma walk_prev:
  "chain h None cu xs la nx \<Longrightarrow>
   walk nd_prev k h la = Inr (if k < length xs then Some (fst (xs ! (length xs - 1 - k))) else None)"
proof (induction xs arbitrary: la nx k rule: rev_induct)
  case Nil
  then show ?case by (cases k) auto
next
  case (snoc x xs)
  obtain a v where x: "x = (a, v)" by (cases x)
  with snoc.prems obtain m where m: "la = Some a" "chain h None cu xs m (Some a)"
    "h a = Some \<lparr>nd_prev = m, nd_next = nx, nd_value = v\<rparr>" by (auto simp: chain_snoc)
  show ?case
  proof (cases k)
    case 0
    with m x show ?thesis by simp
  next
    case (Suc j)
    with m x snoc.IH [OF m(2), of j] show ?thesis by (auto simp: deref_def nth_append)
  qed
qed

lemma search_loop_ok:
  assumes "chain (ls_cells s) pr cu xs la None" "length xs < fuel"
  shows "search_loop fuel s key \<lparr>it_next = cu, it_direction = AL_START_HEAD\<rparr> =
    Inr (Some (map_option fst (find (\<lambda>(a, v).
      case l_match (ls_list s) of Some f \<Rightarrow> f v key | None \<Rightarrow> key = v) xs)))"
  using assms
proof (induction xs arbitrary: pr cu fuel)
  case Nil
  then show ?case by (cases fuel) (auto simp: listNext_def)
next
  case (Cons x xs)
  obtain a v where x: "x = (a, v)" by (cases x)
  obtain f where fuel: "fuel = Suc f" "length xs < f" using Cons.prems(2) by (cases fuel) auto
  from Cons.prems(1) x obtain q where q: "cu = Some a"
    "ls_cells s a = Some \<lparr>nd_prev = pr, nd_next = q, nd_value = v\<rparr>"
    "chain (ls_cells s) (Some a) q xs la None" by auto
  with Cons.IH [OF q(3) fuel(2)] x fuel show ?case
    by (auto simp: listNext_def deref_def split: option.splits)
qed

lemma release_loop_ok:
  assumes "chain (ls_cells s) pr cu xs la None" "distinct (map fst xs)"
  shows "\<exists>s'. release_loop (length xs) cu s = Inr s'
    \<and> ls_cells s' = (\<lambda>b. if b \<in> fst ` set xs then None else ls_cells s b)
    \<and> ls_freed s' = ls_freed s @ (if l_free (ls_list s) then map snd xs else [])"
  using assms
proof (induction xs arbitrary: pr cu s)
  case (Cons x xs)
  obtain a v where x: "x = (a, v)" by (cases x)
  from Cons.prems x obtain q where q: "cu = Some a"
    "ls_cells s a = Some \<lparr>nd_prev = pr, nd_next = q, nd_value = v\<rparr>"
    "chain (ls_cells s) (Some a) q xs la None" by auto
  let ?s1 = "(call_free v s)\<lparr>ls_cells := (ls_cells s)(a := None)\<rparr>"
  have ch: "chain (ls_cells ?s1) (Some a) q xs la None"
    using q(3) Cons.prems(2) x by (simp add: chain_frame)
  have dist: "distinct (map fst xs)" using Cons.prems(2) by simp
  obtain s' where "release_loop (length xs) q ?s1 = Inr s'"
    "ls_cells s' = (\<lambda>b. if b \<in> fst ` set xs then None else ls_cells ?s1 b)"
    "ls_freed s' = ls_freed ?s1 @ (if l_free (ls_list ?s1) then map snd xs else [])"
    using Cons.IH [OF ch dist] by blast
  with q x show ?case
    by (auto simp: deref_def call_free_def Let_def fun_eq_iff)
qed simp

lemma listSearchKey_ok:
  assumes "list_rep s xs"
  shows "listSearchKey True s key = Inr (Some (map_option fst (find (\<lambda>(a, v).
      case l_match (ls_list s) of Some f \<Rightarrow> f v key | None \<Rightarrow> key = v) xs)))"
proof -
  have "chain (ls_cells s) None (l_head (ls_list s)) xs (l_tail (ls_list s)) None"
    using assms by (simp add: list_rep_def)
  from search_loop_ok [OF this lessI, of key] show ?thesis
    by (simp add: listSearchKey_def listGetIterator_def rep_unat_len [OF assms]
      del: search_loop.simps)
qed

text \<open>The loop of \<open>listDup\<close> copies one node for every successful \<open>malloc\<close>.\<close>

lemma dup_loop_steps:
  assumes "chain (ls_cells c) pr cu (xs @ ys) la None" "length xs \<le> fuel" "length as = length xs"
    and "list_rep c zs" "l_dup (ls_list c) = None" "distinct as"
    and "\<forall>a \<in> set as. ls_cells c a = None" "length zs + length xs < 2 ^ 32"
    and "fst ` set zs \<inter> fst ` set (xs @ ys) = {}"
  shows "\<exists>c' q r. dup_loop fuel c \<lparr>it_next = cu, it_direction = AL_START_HEAD\<rparr> (map Some as @ ms)
      = dup_loop (fuel - length xs) c' \<lparr>it_next = q, it_direction = AL_START_HEAD\<rparr> ms
    \<and> chain (ls_cells c') r q ys la None
    \<and> list_rep c' (zs @ zip as (map snd xs)) \<and> ls_freed c' = ls_freed c
    \<and> l_dup (ls_list c') = None \<and> l_free (ls_list c') = l_free (ls_list c)
    \<and> cells_outside (set as \<union> fst ` set zs) (ls_cells c) (ls_cells c')"
  using assms
proof (induction xs arbitrary: pr cu fuel as zs c)
  case Nil
  then show ?case
    by (intro exI [of _ c] exI [of _ cu] exI [of _ pr]) (simp add: cells_outside_def)
next
  case (Cons x xs)
  obtain a v where x: "x = (a, v)" by (cases x)
  obtain f where fuel: "fuel = Suc f" "length xs \<le> f" using Cons.prems(2) by (cases fuel) auto
  obtain b bs where as: "as = b # bs" using Cons.prems(3) by (cases as) auto
  from Cons.prems(1) x obtain q where q: "cu = Some a"
    "ls_cells c a = Some \<lparr>nd_prev = pr, nd_next = q, nd_value = v\<rparr>"
    "chain (ls_cells c) (Some a) q (xs @ ys) la None" by auto
  have b: "ls_cells c b = None" using Cons.prems(7) as by simp
  have len: "Suc (length zs) < 2 ^ 32" using Cons.prems(8) by simp
  obtain c' where c': "listAddNodeTail (Some b) v c = Inr (Some c')" "list_rep c' (zs @ [(b, v)])"
    "cells_outside (insert b (fst ` set zs)) (ls_cells c) (ls_cells c')" "ls_freed c' = ls_freed c"
    "l_free (ls_list c') = l_free (ls_list c)"
    using listAddNodeTail_ok [OF Cons.prems(4) b len, of v] by blast
  have dup: "l_dup (ls_list c') = None"
    using c'(1) Cons.prems(5)
    by (auto simp: listAddNodeTail_def Let_def fmap_eq_Inr split: if_splits)
  have nb: "b \<notin> fst ` set (xs @ ys)" using chain_dom [OF q(3), of b] b by blast
  have ch: "chain (ls_cells c') (Some a) q (xs @ ys) la None"
    using chain_outside [OF c'(3) _ q(3)] nb Cons.prems(9) x by auto
  have fresh: "\<forall>a \<in> set bs. ls_cells c' a = None"
  proof
    fix e assume e: "e \<in> set bs"
    then have "ls_cells c e = None" "e \<noteq> b" using Cons.prems(6,7) as by auto
    moreover have "e \<notin> fst ` set zs" using rep_fresh [OF Cons.prems(4)] calculation(1) by blast
    ultimately show "ls_cells c' e = None" using c'(3) by (simp add: cells_outside_def)
  qed
  have disj: "fst ` set (zs @ [(b, v)]) \<inter> fst ` set (xs @ ys) = {}"
    using Cons.prems(9) nb x by auto
  have bs: "length bs = length xs" "distinct bs" "length (zs @ [(b, v)]) + length xs < 2 ^ 32"
    using Cons.prems(3,6,8) as by auto
  from Cons.IH [OF ch fuel(2) bs(1) c'(2) dup bs(2) fresh bs(3) disj]
  obtain c'' q' r where c'': "dup_loop f c' \<lparr>it_next = q, it_direction = AL_START_HEAD\<rparr> (map Some bs @ ms)
      = dup_loop (f - length xs) c'' \<lparr>it_next = q', it_direction = AL_START_HEAD\<rparr> ms"
    "chain (ls_cells c'') r q' ys la None"
    "list_rep c'' ((zs @ [(b, v)]) @ zip bs (map snd xs))" "ls_freed c'' = ls_freed c'"
    "l_dup (ls_list c'') = None" "l_free (ls_list c'') = l_free (ls_list c')"
    "cells_outside (set bs \<union> fst ` set (zs @ [(b, v)])) (ls_cells c') (ls_cells c'')" by blast
  have "cells_outside (set as \<union> fst ` set zs) (ls_cells c) (ls_cells c'')"
    using c''(7) c'(3) by (auto simp: cells_outside_def as image_Un)
  moreover have "dup_loop fuel c \<lparr>it_next = cu, it_direction = AL_START_HEAD\<rparr> (map Some as @ ms)
      = dup_loop (fuel - length (x # xs)) c'' \<lparr>it_next = q', it_direction = AL_START_HEAD\<rparr> ms"
    using c'(1) q x fuel Cons.prems(5) as c''(1) by (simp add: listNext_def deref_def)
  ultimately show ?case
    using c'' c'(4,5) x as by (intro exI [of _ c''] exI [of _ q'] exI [of _ r]) simp
qed

lemma listRelease_ok:
  assumes "list_rep s xs"
  shows "listRelease s = Inr ((\<lambda>b. if b \<in> fst ` set xs then None else ls_cells s b),
    ls_freed s @ (if l_free (ls_list s) then map snd xs else []))"
proof -
  from assms have "chain (ls_cells s) None (l_head (ls_list s)) xs (l_tail (ls_list s)) None"
    "distinct (map fst xs)" by (simp_all add: list_rep_def)
  from release_loop_ok [OF this] obtain s' where
    "release_loop (length xs) (l_head (ls_list s)) s = Inr s'"
    "ls_cells s' = (\<lambda>b. if b \<in> fst ` set xs then None else ls_cells s b)"
    "ls_freed s' = ls_freed s @ (if l_free (ls_list s) then map snd xs else [])" by blast
  then show ?thesis by (simp add: listRelease_def rep_unat_len [OF assms])
qed

text \<open>The header \<open>listDup\<close> starts from: an empty list with the methods of the original.\<close>

definition dup_start :: "'v lstate \<Rightarrow> 'v lstate" where
  "dup_start orig = \<lparr>ls_list = \<lparr>l_head = None, l_tail = None, l_dup = l_dup (ls_list orig),
     l_free = l_free (ls_list orig), l_match = l_match (ls_list orig), l_len = 0\<rparr>,
     ls_cells = ls_cells orig, ls_freed = []\<rparr>"

lemma listDup_unfold:
  assumes "list_rep s xs"
  shows "listDup True True mems s = dup_loop (Suc (length xs)) (dup_start s)
    \<lparr>it_next = l_head (ls_list s), it_direction = AL_START_HEAD\<rparr> mems"
  using rep_unat_len [OF assms]
  by (simp add: listDup_def listCreate_def listGetIterator_def dup_start_def Let_def
    del: dup_loop.simps)

lemma list_rep_outside:
  assumes rep: "list_rep s xs" and "cells_outside A (ls_cells s) h" "\<forall>a \<in> A. ls_cells s a = None"
  shows "list_rep (s\<lparr>ls_cells := h\<rparr>) xs"
proof -
  have "fst ` set xs \<inter> A = {}" using rep_fresh [OF rep] assms(3) by blast
  with rep chain_outside [OF assms(2) this] show ?thesis by (simp add: list_rep_def)
qed

lemma dup_start_rep: "list_rep (dup_start s) []"
  by (simp add: list_rep_def dup_start_def)

text \<open>What the worker threads and the completion handler of \<open>redis.c\<close> do to take a job:
  \<open>listLength\<close>, \<open>listFirst\<close>, the value, \<open>listDelNode\<close>.\<close>

definition listPopFirst :: "'v lstate \<Rightarrow> ('v \<times> 'v lstate) option res" where
  "listPopFirst s =
     (if l_len (ls_list s) = 0 then Inr None
      else fbind (deref (ls_cells s) (l_head (ls_list s))) (\<lambda>(a, n).
        fmap (\<lambda>s'. Some (nd_value n, s')) (listDelNode (l_head (ls_list s)) s)))"

lemma listPopFirst_empty: "list_rep s [] \<Longrightarrow> listPopFirst s = Inr None"
  by (simp add: listPopFirst_def list_rep_def)

lemma listPopFirst_cons:
  assumes rep: "list_rep s ((a, v) # xs)"
  shows "\<exists>s'. listPopFirst s = Inr (Some (v, s')) \<and> list_rep s' xs
    \<and> cells_outside (fst ` set ((a, v) # xs)) (ls_cells s) (ls_cells s') \<and> ls_cells s' a = None"
proof -
  obtain s' where s': "listDelNode (Some a) s = Inr s'" "list_rep s' xs" "ls_cells s' a = None"
    "cells_outside (fst ` set ((a, v) # xs)) (ls_cells s) (ls_cells s')"
    using listDelNode_ok [of s "[]" a v xs] rep by auto
  have "l_head (ls_list s) = Some a" "\<exists>n. ls_cells s a = Some n \<and> nd_value n = v"
    using rep by (auto simp: list_rep_def)
  with s' rep_len_zero [OF rep] show ?thesis
    by (auto simp: listPopFirst_def deref_def)
qed

subsection \<open>The list as a queue\<close>

text \<open>What the servers use lists for: jobs go in at the tail and come out at the head. The
  contract names an abstraction, a push that needs a free address and room, and a pop.\<close>

fun push_all :: "('a \<Rightarrow> 'v \<Rightarrow> 's \<Rightarrow> 's option res) \<Rightarrow> ('a \<times> 'v) list \<Rightarrow> 's \<Rightarrow> 's option res" where
  "push_all push [] s = Inr (Some s)"
| "push_all push ((a, v) # js) s = fbind (push a v s) (\<lambda>r.
     case r of None \<Rightarrow> Inr None | Some s' \<Rightarrow> push_all push js s')"

fun pop_many :: "('s \<Rightarrow> ('v \<times> 's) option res) \<Rightarrow> nat \<Rightarrow> 's \<Rightarrow> ('v list \<times> 's) res" where
  "pop_many pop 0 s = Inr ([], s)"
| "pop_many pop (Suc k) s = fbind (pop s) (\<lambda>r. case r of None \<Rightarrow> Inr ([], s)
     | Some (v, s') \<Rightarrow> fmap (\<lambda>(vs, s''). (v # vs, s'')) (pop_many pop k s'))"

locale fifo_queue =
  fixes rep :: "'s \<Rightarrow> 'v list \<Rightarrow> bool"
    and free_at :: "'a \<Rightarrow> 's \<Rightarrow> bool"
    and room :: nat
    and push :: "'a \<Rightarrow> 'v \<Rightarrow> 's \<Rightarrow> 's option res"
    and pop :: "'s \<Rightarrow> ('v \<times> 's) option res"
  assumes push_law: "\<lbrakk>rep s vs; free_at a s; Suc (length vs) < room\<rbrakk> \<Longrightarrow>
      \<exists>s'. push a v s = Inr (Some s') \<and> rep s' (vs @ [v])
        \<and> (\<forall>b. b \<noteq> a \<longrightarrow> free_at b s \<longrightarrow> free_at b s')"
    and pop_empty_law: "rep s [] \<Longrightarrow> pop s = Inr None"
    and pop_law: "rep s (v # vs) \<Longrightarrow> \<exists>s'. pop s = Inr (Some (v, s')) \<and> rep s' vs"
begin

lemma push_all_ok:
  "\<lbrakk>rep s vs; distinct (map fst js); \<forall>a \<in> fst ` set js. free_at a s;
    length vs + length js < room\<rbrakk> \<Longrightarrow>
   \<exists>s'. push_all push js s = Inr (Some s') \<and> rep s' (vs @ map snd js)"
proof (induction js arbitrary: s vs)
  case (Cons j js)
  obtain a v where j: "j = (a, v)" by (cases j)
  have "free_at a s" "Suc (length vs) < room" using Cons.prems j by auto
  then obtain s' where s': "push a v s = Inr (Some s')" "rep s' (vs @ [v])"
    "\<And>b. b \<noteq> a \<Longrightarrow> free_at b s \<Longrightarrow> free_at b s'"
    using push_law [OF Cons.prems(1)] by blast
  have "\<forall>b \<in> fst ` set js. free_at b s'" using Cons.prems(2,3) j s'(3) by force
  with Cons.IH [OF s'(2)] Cons.prems j s'(1) show ?case by auto
qed auto

lemma pop_many_ok:
  "rep s (vs @ ws) \<Longrightarrow> \<exists>s'. pop_many pop (length vs) s = Inr (vs, s') \<and> rep s' ws"
proof (induction vs arbitrary: s)
  case (Cons v vs)
  then obtain s' where s': "pop s = Inr (Some (v, s'))" "rep s' (vs @ ws)"
    using pop_law by force
  then show ?case using Cons.IH [OF s'(2)] by auto
qed auto

lemma pop_many_short:
  "rep s vs \<Longrightarrow> \<exists>s'. pop_many pop (length vs + k) s = Inr (vs, s') \<and> rep s' []"
proof (induction vs arbitrary: s)
  case Nil
  then show ?case using pop_empty_law by (cases k) auto
next
  case (Cons v vs)
  then obtain s' where s': "pop s = Inr (Some (v, s'))" "rep s' vs" using pop_law by force
  then show ?case using Cons.IH [OF s'(2)] by auto
qed

lemma fifo:
  assumes "rep s []" "distinct (map fst js)" "\<forall>a \<in> fst ` set js. free_at a s" "length js < room"
  shows "\<exists>s' s''. push_all push js s = Inr (Some s') \<and>
    pop_many pop (length js) s' = Inr (map snd js, s'') \<and> rep s'' []"
proof -
  obtain s' where s': "push_all push js s = Inr (Some s')" "rep s' (map snd js)"
    using push_all_ok [OF assms(1-3)] assms(4) by auto
  obtain s'' where "pop_many pop (length (map snd js)) s' = Inr (map snd js, s'')" "rep s'' []"
    using pop_many_ok [of s' "map snd js" "[]"] s'(2) by auto
  with s' show ?thesis by auto
qed

end

text \<open>The contents of a list without the addresses.\<close>

definition list_vals :: "'v lstate \<Rightarrow> 'v list \<Rightarrow> bool" where
  "list_vals s vs \<longleftrightarrow> (\<exists>xs. list_rep s xs \<and> map snd xs = vs)"

interpretation adlist: fifo_queue list_vals "\<lambda>a s. ls_cells s a = None" "2 ^ 32"
  "\<lambda>a. listAddNodeTail (Some a)" listPopFirst
proof unfold_locales
  fix s :: "'v lstate" and vs a v
  assume "list_vals s vs" and a: "ls_cells s a = None" and n: "Suc (length vs) < 2 ^ 32"
  then obtain xs where xs: "list_rep s xs" "map snd xs = vs" by (auto simp: list_vals_def)
  then have "Suc (length xs) < 2 ^ 32" using n by auto
  from listAddNodeTail_ok [OF xs(1) a this, of v] obtain s' where
    s': "listAddNodeTail (Some a) v s = Inr (Some s')" "list_rep s' (xs @ [(a, v)])"
    "cells_outside (insert a (fst ` set xs)) (ls_cells s) (ls_cells s')" by blast
  have "ls_cells s' b = None" if "b \<noteq> a" "ls_cells s b = None" for b
    using rep_fresh [OF xs(1) that(2)] that s'(3) by (simp add: cells_outside_def)
  moreover have "list_vals s' (vs @ [v])"
    unfolding list_vals_def using s'(2) xs(2) by (intro exI [of _ "xs @ [(a, v)]"]) simp
  ultimately show "\<exists>s'. listAddNodeTail (Some a) v s = Inr (Some s') \<and> list_vals s' (vs @ [v])
    \<and> (\<forall>b. b \<noteq> a \<longrightarrow> ls_cells s b = None \<longrightarrow> ls_cells s' b = None)"
    using s'(1) by blast
next
  fix s :: "'v lstate"
  assume "list_vals s []"
  then show "listPopFirst s = Inr None" by (auto simp: list_vals_def listPopFirst_empty)
next
  fix s :: "'v lstate" and v vs
  assume "list_vals s (v # vs)"
  then obtain a xs where "list_rep s ((a, v) # xs)" "map snd xs = vs"
    by (auto simp: list_vals_def)
  with listPopFirst_cons [of s a v xs] show "\<exists>s'. listPopFirst s = Inr (Some (v, s')) \<and> list_vals s' vs"
    unfolding list_vals_def by blast
qed

subsection \<open>Properties\<close>

text \<open>C6. Used as the servers use it, the list is a first-in first-out queue: pushing any jobs at
  the tail, at distinct free addresses and fewer than \<open>2 ^ 32\<close> of them, and then popping as many
  times gives the jobs back in order, without touching a freed or a null node, and leaves the
  list empty.\<close>

theorem adlist_fifo:
  assumes "list_vals s []" "distinct (map fst js)" "\<forall>a \<in> fst ` set js. ls_cells s a = None"
    and "length js < 2 ^ 32"
  shows "\<exists>s' s''. push_all (\<lambda>a. listAddNodeTail (Some a)) js s = Inr (Some s') \<and>
    pop_many listPopFirst (length js) s' = Inr (map snd js, s'') \<and> list_vals s'' []"
  using assms by (rule adlist.fifo)

definition empty_list :: "'v lstate" where
  "empty_list = \<lparr>ls_list = the (listCreate True), ls_cells = (\<lambda>_. None), ls_freed = []\<rparr>"

lemma empty_list_rep: "list_rep empty_list []"
  by (simp add: empty_list_def list_rep_def listCreate_def)

definition three_nodes :: "nat lstate" where
  "three_nodes = \<lparr>ls_list = \<lparr>l_head = Some 1, l_tail = Some 3, l_dup = None, l_free = True,
      l_match = None, l_len = 3\<rparr>,
     ls_cells = [1 \<mapsto> \<lparr>nd_prev = None, nd_next = Some 2, nd_value = 10\<rparr>,
       2 \<mapsto> \<lparr>nd_prev = Some 1, nd_next = Some 3, nd_value = 20\<rparr>,
       3 \<mapsto> \<lparr>nd_prev = Some 2, nd_next = None, nd_value = 30\<rparr>], ls_freed = []\<rparr>"

lemma three_nodes_rep: "list_rep three_nodes [(1, 10), (2, 20), (3, 30)]"
  by (simp add: three_nodes_def list_rep_def)

lemma empty_nat_list: "list_vals (empty_list :: nat lstate) []"
  using empty_list_rep by (auto simp: list_vals_def)

theorem adlist_fifo_witness:
  "\<exists>s' s'' :: nat lstate. push_all (\<lambda>a. listAddNodeTail (Some a)) [(4, 7), (2, 8)] empty_list = Inr (Some s') \<and>
    pop_many listPopFirst (length [(4 :: nat, 7 :: nat), (2, 8)]) s' = Inr ([7, 8], s'') \<and> list_vals s'' []"
  using adlist_fifo [OF empty_nat_list, of "[(4, 7), (2, 8)]"]
  by (simp add: empty_list_def del: push_all.simps pop_many.simps)

text \<open>\<open>listDelNode\<close> on any node of a list takes exactly that node out: the list represents the
  remaining values in order, the node's memory is free, no memory outside the list changes, and
  the \<open>free\<close> method, when set, has been given the node's value once.\<close>

theorem adlist_delete:
  assumes "list_rep s (xs @ (a, v) # ys)"
  shows "\<exists>s'. listDelNode (Some a) s = Inr s' \<and> list_rep s' (xs @ ys) \<and> ls_cells s' a = None
    \<and> cells_outside (fst ` set (xs @ (a, v) # ys)) (ls_cells s) (ls_cells s')
    \<and> ls_freed s' = ls_freed s @ (if l_free (ls_list s) then [v] else [])"
  using listDelNode_ok [OF assms] by blast

theorem adlist_delete_witness:
  "\<exists>s'. listDelNode (Some 2) three_nodes = Inr s' \<and> list_rep s' [(1, 10), (3, 30)]
    \<and> ls_cells s' 2 = None \<and> cells_outside {1, 2, 3} (ls_cells three_nodes) (ls_cells s')
    \<and> ls_freed s' = [20]"
  using adlist_delete [of three_nodes "[(1, 10)]" 2 20 "[(3, 30)]"] three_nodes_rep
  by (simp add: three_nodes_def)

text \<open>\<open>listIndex\<close> answers, for every \<open>int\<close> but the smallest, the node at that position counted
  from the head, or from the tail for negative numbers, and \<open>NULL\<close> exactly when there is no such
  node; for the smallest \<open>int\<close> its negation overflows.\<close>

theorem adlist_index:
  assumes "list_rep s xs" "- INT_MAX - 1 \<le> i" "i \<le> INT_MAX"
  shows "listIndex s i =
    (if i = - INT_MAX - 1 then Inl Signed_overflow
     else if 0 \<le> i \<and> i < int (length xs) then Inr (Some (fst (xs ! nat i)))
     else if i < 0 \<and> - int (length xs) \<le> i then Inr (Some (fst (xs ! nat (int (length xs) + i))))
     else Inr None)"
proof -
  have ch: "chain (ls_cells s) None (l_head (ls_list s)) xs (l_tail (ls_list s)) None"
    using assms(1) by (simp add: list_rep_def)
  have "length xs - 1 - nat (- i - 1) = nat (int (length xs) + i)"
    if "i < 0" "- int (length xs) \<le> i" using that by arith
  moreover have "nat (- i - 1) < length xs \<longleftrightarrow> - int (length xs) \<le> i" if "i < 0"
    using that by arith
  ultimately show ?thesis
    using assms(2,3) walk_next [OF ch, of "nat i"] walk_prev [OF ch, of "nat (- i - 1)"]
    by (auto simp: listIndex_def nat_less_iff)
qed

theorem adlist_index_witness:
  "listIndex three_nodes 1 = Inr (Some 2) \<and> listIndex three_nodes (- 1) = Inr (Some 3)
    \<and> listIndex three_nodes 3 = Inr None \<and> listIndex three_nodes (- 2147483648) = Inl Signed_overflow"
  using adlist_index [OF three_nodes_rep, of 1] adlist_index [OF three_nodes_rep, of "- 1"]
    adlist_index [OF three_nodes_rep, of 3] adlist_index [OF three_nodes_rep, of "- 2147483648"]
  by (simp add: INT_MAX_def)

text \<open>With memory enough and no \<open>dup\<close> method, \<open>listDup\<close> returns a second list with the same
  values in the same order at the new addresses, and the original is what it was.\<close>

theorem adlist_dup:
  assumes rep: "list_rep s xs" and dup: "l_dup (ls_list s) = None"
    and "length as = length xs" "distinct as" "\<forall>a \<in> set as. ls_cells s a = None"
  shows "\<exists>c. listDup True True (map Some as) s = Inr (Some (ls_cells c, [], Some c))
    \<and> list_rep c (zip as (map snd xs)) \<and> list_rep (s\<lparr>ls_cells := ls_cells c\<rparr>) xs"
proof -
  have ch: "chain (ls_cells (dup_start s)) None (l_head (ls_list s)) (xs @ []) (l_tail (ls_list s)) None"
    and len: "length xs < 2 ^ 32" using rep by (simp_all add: list_rep_def dup_start_def)
  obtain c q r where c: "dup_loop (Suc (length xs)) (dup_start s)
      \<lparr>it_next = l_head (ls_list s), it_direction = AL_START_HEAD\<rparr> (map Some as @ [])
      = dup_loop 1 c \<lparr>it_next = q, it_direction = AL_START_HEAD\<rparr> []"
    "chain (ls_cells c) r q [] (l_tail (ls_list s)) None" "list_rep c (zip as (map snd xs))"
    "ls_freed c = []" "cells_outside (set as) (ls_cells s) (ls_cells c)"
    using dup_loop_steps [OF ch, of "Suc (length xs)" as "[]" "[]"] dup_start_rep [of s] assms len
    by (fastforce simp: dup_start_def)
  have "list_rep (s\<lparr>ls_cells := ls_cells c\<rparr>) xs"
    by (rule list_rep_outside [OF rep c(5) assms(5)])
  with c show ?thesis
    unfolding listDup_unfold [OF rep] by (intro exI [of _ c]) (simp add: listNext_def)
qed

theorem adlist_dup_witness:
  "\<exists>c. listDup True True [Some 4, Some 5, Some 6] three_nodes = Inr (Some (ls_cells c, [], Some c))
    \<and> list_rep c [(4, 10), (5, 20), (6, 30)]
    \<and> list_rep (three_nodes\<lparr>ls_cells := ls_cells c\<rparr>) [(1, 10), (2, 20), (3, 30)]"
  using adlist_dup [OF three_nodes_rep, of "[4, 5, 6]"] by (simp add: three_nodes_def)

text \<open>When memory runs out inside \<open>listDup\<close> and the list has a \<open>free\<close> method but no \<open>dup\<close>
  method, releasing the half-made copy hands to that method every value copied so far, although
  the original still holds them; its nodes are unaltered.\<close>

theorem adlist_dup_oom:
  assumes rep: "list_rep s (xs @ y # ys)" and dup: "l_dup (ls_list s) = None"
    and "length as = length xs" "distinct as" "\<forall>a \<in> set as. ls_cells s a = None"
  shows "\<exists>h. listDup True True (map Some as @ [None]) s
      = Inr (Some (h, if l_free (ls_list s) then map snd xs else [], None))
    \<and> list_rep (s\<lparr>ls_cells := h\<rparr>) (xs @ y # ys)"
proof -
  obtain b w where y: "y = (b, w)" by (cases y)
  have ch: "chain (ls_cells (dup_start s)) None (l_head (ls_list s)) (xs @ y # ys) (l_tail (ls_list s)) None"
    and len: "length xs < 2 ^ 32" using rep by (simp_all add: list_rep_def dup_start_def)
  have fuel: "length xs \<le> Suc (length (xs @ y # ys))"
    and dif: "Suc (length (xs @ y # ys)) - length xs = Suc (Suc (length ys))" by simp_all
  obtain c q r where c: "dup_loop (Suc (length (xs @ y # ys))) (dup_start s)
      \<lparr>it_next = l_head (ls_list s), it_direction = AL_START_HEAD\<rparr> (map Some as @ [None])
      = dup_loop (Suc (Suc (length ys))) c \<lparr>it_next = q, it_direction = AL_START_HEAD\<rparr> [None]"
    "chain (ls_cells c) r q (y # ys) (l_tail (ls_list s)) None" "list_rep c (zip as (map snd xs))"
    "ls_freed c = []" "l_dup (ls_list c) = None" "l_free (ls_list c) = l_free (ls_list s)"
    "cells_outside (set as) (ls_cells s) (ls_cells c)"
    using dup_loop_steps [OF ch fuel, of as "[]" "[None]"] dup_start_rep [of s] assms len
    unfolding dif by (fastforce simp: dup_start_def)
  let ?h = "\<lambda>b. if b \<in> fst ` set (zip as (map snd xs)) then None else ls_cells c b"
  have "dup_fail c = Inr (Some (?h, if l_free (ls_list s) then map snd xs else [], None))"
    unfolding dup_fail_def listRelease_ok [OF c(3)] using c(4,6) assms(3) by (simp add: fmap_def)
  moreover have "dup_loop (Suc (Suc (length ys))) c \<lparr>it_next = q, it_direction = AL_START_HEAD\<rparr> [None]
      = dup_fail c"
    using c(2,5) y by (auto simp: listNext_def deref_def listAddNodeTail_def)
  moreover have "list_rep (s\<lparr>ls_cells := ?h\<rparr>) (xs @ y # ys)"
  proof (rule list_rep_outside [OF rep _ assms(5)])
    show "cells_outside (set as) (ls_cells s) ?h"
      using c(7) assms(3) by (auto simp: cells_outside_def dest: set_zip_leftD)
  qed
  ultimately show ?thesis
    unfolding listDup_unfold [OF rep] c(1) by (intro exI [of _ ?h]) (simp only: simp_thms)
qed

theorem adlist_dup_oom_witness:
  "\<exists>h. listDup True True [Some 4, Some 5, None] three_nodes = Inr (Some (h, [10, 20], None))
    \<and> list_rep (three_nodes\<lparr>ls_cells := h\<rparr>) [(1, 10), (2, 20), (3, 30)]"
  using adlist_dup_oom [of three_nodes "[(1, 10), (2, 20)]" "(3, 30)" "[]" "[4, 5]"] three_nodes_rep
  by (simp add: three_nodes_def)

subsection \<open>The heap of a queue\<close>

text \<open>Only finitely many addresses are in use, so \<open>malloc\<close> can find another one.\<close>

definition few :: "nat lstate \<Rightarrow> bool" where
  "few q \<longleftrightarrow> finite (dom (ls_cells q))"

lemma few_push: "\<lbrakk>listAddNodeTail mem v q = Inr (Some q'); few q\<rbrakk> \<Longrightarrow> few q'"
  by (auto simp: few_def listAddNodeTail_def Let_def res_simps set_next_def split: option.splits if_splits)

lemma few_del: "\<lbrakk>listDelNode p q = Inr q'; few q\<rbrakk> \<Longrightarrow> few q'"
  by (auto simp: few_def listDelNode_def unlink_left_def unlink_right_def call_free_def Let_def res_simps set_next_def set_prev_def
      split: if_splits)

lemma few_pop: "\<lbrakk>listPopFirst q = Inr (Some (v, q')); few q\<rbrakk> \<Longrightarrow> few q'"
  by (auto simp: listPopFirst_def res_simps split: if_splits dest: few_del)

lemma few_address: "few q \<Longrightarrow> \<exists>b. ls_cells q b = None"
  using infinite_UNIV_nat unfolding few_def by (metis domIff ex_new_if_finite)

end
