(* ===== verification/AeLoop.thy ===== *)
theory AeLoop
  imports Prelude "HOL-Library.Signed_Division"
begin

section \<open>The event loop (ae.c, ae_epoll.c)\<close>

text \<open>
  The event library under all four servers. File descriptors are \<open>int\<close>s, masks 32-bit words;
  the table \<open>events\<close> is a function read and written only below \<open>AE_SETSIZE\<close>. A handler is a
  name; what it does to the loop and to the rest of the program (\<open>'w\<close>) is the parameter
  \<open>handlers\<close>. Every \<open>epoll_ctl\<close> request is logged with the kernel's answer (a parameter), every
  \<open>epoll_wait\<close> with its timeout; \<open>replay\<close> reads the interest set off the log. \<open>now\<close> gives the
  successive answers of \<open>gettimeofday\<close>. \<open>long\<close> values are unbounded; the conversion of the
  timeout to the \<open>int\<close> that \<open>epoll_wait\<close> takes is written out.
\<close>

subsection \<open>Data\<close>

definition AE_SETSIZE :: int where "AE_SETSIZE = 10240"

abbreviation (input) AE_NONE :: "32 word" where "AE_NONE \<equiv> 0"
abbreviation (input) AE_READABLE :: "32 word" where "AE_READABLE \<equiv> 1"
abbreviation (input) AE_WRITABLE :: "32 word" where "AE_WRITABLE \<equiv> 2"
abbreviation (input) AE_FILE_EVENTS :: "32 word" where "AE_FILE_EVENTS \<equiv> 1"
abbreviation (input) AE_TIME_EVENTS :: "32 word" where "AE_TIME_EVENTS \<equiv> 2"
abbreviation (input) AE_ALL_EVENTS :: "32 word" where "AE_ALL_EVENTS \<equiv> 3"
abbreviation (input) AE_DONT_WAIT :: "32 word" where "AE_DONT_WAIT \<equiv> 4"
abbreviation (input) EPOLLIN :: "32 word" where "EPOLLIN \<equiv> 1"
abbreviation (input) EPOLLOUT :: "32 word" where "EPOLLOUT \<equiv> 4"
abbreviation (input) AE_OK :: int where "AE_OK \<equiv> 0"
abbreviation (input) AE_ERR :: int where "AE_ERR \<equiv> - 1"
abbreviation (input) AE_NOMORE :: int where "AE_NOMORE \<equiv> - 1"

record ('p, 'c) aeFileEvent =
  fe_mask :: "32 word"
  fe_rfileProc :: "'p option"
  fe_wfileProc :: "'p option"
  fe_clientData :: "'c option"

record ('p, 'c) aeTimeEvent =
  te_id :: int
  te_when_sec :: int
  te_when_ms :: int
  te_timeProc :: 'p
  te_finalizerProc :: "'p option"
  te_clientData :: "'c option"

datatype ctl_op = EPOLL_CTL_ADD | EPOLL_CTL_MOD | EPOLL_CTL_DEL

type_synonym ctl = "ctl_op \<times> int \<times> 32 word \<times> bool"

record ('p, 'c) aeEventLoop =
  el_maxfd :: int
  el_timeEventNextId :: int
  el_events :: "int \<Rightarrow> ('p, 'c) aeFileEvent"
  el_fired :: "(int \<times> 32 word) list"
  el_timers :: "('p, 'c) aeTimeEvent list"
  el_stop :: bool
  el_beforesleep :: "'p option"
  el_ctl :: "ctl list"
  el_waits :: "int list"
  el_tick :: nat

definition no_event :: "('p, 'c) aeFileEvent" where
  "no_event = \<lparr>fe_mask = AE_NONE, fe_rfileProc = None, fe_wfileProc = None, fe_clientData = None\<rparr>"

definition new_loop :: "('p, 'c) aeEventLoop" where
  "new_loop = \<lparr>el_maxfd = - 1, el_timeEventNextId = 0, el_events = (\<lambda>_. no_event), el_fired = [],
     el_timers = [], el_stop = False, el_beforesleep = None, el_ctl = [], el_waits = [], el_tick = 0\<rparr>"

text \<open>\<open>None\<close> when \<open>malloc\<close> or \<open>epoll_create\<close> (\<open>aeApiCreate\<close>) fails.\<close>

definition aeCreateEventLoop :: "bool \<Rightarrow> bool \<Rightarrow> ('p, 'c) aeEventLoop option" where
  "aeCreateEventLoop mem_ok api_ok = (if mem_ok \<and> api_ok then Some new_loop else None)"

definition aeStop :: "('p, 'c) aeEventLoop \<Rightarrow> ('p, 'c) aeEventLoop" where
  "aeStop L = L\<lparr>el_stop := True\<rparr>"

definition aeSetBeforeSleepProc :: "('p, 'c) aeEventLoop \<Rightarrow> 'p \<Rightarrow> ('p, 'c) aeEventLoop" where
  "aeSetBeforeSleepProc L p = L\<lparr>el_beforesleep := Some p\<rparr>"

subsection \<open>File events\<close>

definition epoll_bits :: "32 word \<Rightarrow> 32 word" where
  "epoll_bits msk = (if msk AND AE_READABLE \<noteq> 0 then EPOLLIN else 0)
     OR (if msk AND AE_WRITABLE \<noteq> 0 then EPOLLOUT else 0)"

text \<open>The log entry \<open>aeApiAddEvent\<close> and \<open>aeApiDelEvent\<close> make; the second also needs the table as
  it is after the mask was cleared.\<close>

definition aeApiAddEvent :: "bool \<Rightarrow> ('p, 'c) aeEventLoop \<Rightarrow> int \<Rightarrow> 32 word \<Rightarrow> ('p, 'c) aeEventLoop" where
  "aeApiAddEvent ok L fd msk =
     (let old = fe_mask (el_events L fd);
          op = if old = AE_NONE then EPOLL_CTL_ADD else EPOLL_CTL_MOD
      in L\<lparr>el_ctl := (op, fd, epoll_bits (msk OR old), ok) # el_ctl L\<rparr>)"

definition aeApiDelEvent :: "bool \<Rightarrow> ('p, 'c) aeEventLoop \<Rightarrow> int \<Rightarrow> 32 word \<Rightarrow> ('p, 'c) aeEventLoop" where
  "aeApiDelEvent ok L fd delmask =
     (let msk = fe_mask (el_events L fd) AND NOT delmask;
          op = if msk \<noteq> AE_NONE then EPOLL_CTL_MOD else EPOLL_CTL_DEL
      in L\<lparr>el_ctl := (op, fd, epoll_bits msk, ok) # el_ctl L\<rparr>)"

definition aeCreateFileEvent :: "bool \<Rightarrow> ('p, 'c) aeEventLoop \<Rightarrow> int \<Rightarrow> 32 word \<Rightarrow> 'p \<Rightarrow> 'c option
  \<Rightarrow> (int \<times> ('p, 'c) aeEventLoop) res" where
  "aeCreateFileEvent ok L fd msk proc data =
     (if fd \<ge> AE_SETSIZE then Inr (AE_ERR, L)
      else if fd < 0 then Inl Out_of_bounds
      else
        let L1 = aeApiAddEvent ok L fd msk in
        if \<not> ok then Inr (AE_ERR, L1)
        else
          let fe = el_events L1 fd;
              fe1 = fe\<lparr>fe_mask := fe_mask fe OR msk\<rparr>;
              fe2 = (if msk AND AE_READABLE \<noteq> 0 then fe1\<lparr>fe_rfileProc := Some proc\<rparr> else fe1);
              fe3 = (if msk AND AE_WRITABLE \<noteq> 0 then fe2\<lparr>fe_wfileProc := Some proc\<rparr> else fe2);
              fe4 = fe3\<lparr>fe_clientData := data\<rparr>
          in Inr (AE_OK, L1\<lparr>el_events := (el_events L1)(fd := fe4),
               el_maxfd := (if fd > el_maxfd L1 then fd else el_maxfd L1)\<rparr>))"

text \<open>\<open>for (j = maxfd-1; j >= 0; j--) if (events[j].mask != AE_NONE) break\<close>\<close>

primrec highest :: "(int \<Rightarrow> ('p, 'c) aeFileEvent) \<Rightarrow> nat \<Rightarrow> int" where
  "highest ev 0 = - 1"
| "highest ev (Suc j) = (if fe_mask (ev (int j)) \<noteq> AE_NONE then int j else highest ev j)"

definition aeDeleteFileEvent :: "bool \<Rightarrow> ('p, 'c) aeEventLoop \<Rightarrow> int \<Rightarrow> 32 word
  \<Rightarrow> ('p, 'c) aeEventLoop res" where
  "aeDeleteFileEvent ok L fd msk =
     (if fd \<ge> AE_SETSIZE then Inr L
      else if fd < 0 then Inl Out_of_bounds
      else
        let fe = el_events L fd in
        if fe_mask fe = AE_NONE then Inr L
        else
          let fe1 = fe\<lparr>fe_mask := fe_mask fe AND NOT msk\<rparr>;
              L1 = L\<lparr>el_events := (el_events L)(fd := fe1)\<rparr>;
              L2 = (if fd = el_maxfd L1 \<and> fe_mask fe1 = AE_NONE
                    then L1\<lparr>el_maxfd := highest (el_events L1) (nat (el_maxfd L1))\<rparr> else L1)
          in Inr (aeApiDelEvent ok L2 fd msk))"

subsection \<open>Time events\<close>

definition aeGetTime :: "(nat \<Rightarrow> int \<times> int) \<Rightarrow> ('p, 'c) aeEventLoop
  \<Rightarrow> (int \<times> int) \<times> ('p, 'c) aeEventLoop" where
  "aeGetTime now L = ((fst (now (el_tick L)), snd (now (el_tick L)) sdiv 1000), L\<lparr>el_tick := Suc (el_tick L)\<rparr>)"

definition aeAddMillisecondsToNow :: "(nat \<Rightarrow> int \<times> int) \<Rightarrow> int \<Rightarrow> ('p, 'c) aeEventLoop
  \<Rightarrow> (int \<times> int) \<times> ('p, 'c) aeEventLoop" where
  "aeAddMillisecondsToNow now milliseconds L =
     (let ((cur_sec, cur_ms), L1) = aeGetTime now L;
          when_sec = cur_sec + milliseconds sdiv 1000;
          when_ms = cur_ms + milliseconds smod 1000
      in (if when_ms \<ge> 1000 then (when_sec + 1, when_ms - 1000) else (when_sec, when_ms), L1))"

definition aeCreateTimeEvent :: "(nat \<Rightarrow> int \<times> int) \<Rightarrow> bool \<Rightarrow> ('p, 'c) aeEventLoop \<Rightarrow> int \<Rightarrow> 'p
  \<Rightarrow> 'c option \<Rightarrow> 'p option \<Rightarrow> int \<times> ('p, 'c) aeEventLoop" where
  "aeCreateTimeEvent now mem_ok L milliseconds proc data fin =
     (let id = el_timeEventNextId L;
          L1 = L\<lparr>el_timeEventNextId := id + 1\<rparr> in
      if \<not> mem_ok then (AE_ERR, L1)
      else
        let ((s, m), L2) = aeAddMillisecondsToNow now milliseconds L1 in
        (id, L2\<lparr>el_timers := \<lparr>te_id = id, te_when_sec = s, te_when_ms = m, te_timeProc = proc,
              te_finalizerProc = fin, te_clientData = data\<rparr> # el_timers L2\<rparr>))"

text \<open>What the program's functions do when the loop calls them.\<close>

record ('p, 'c, 'w) handlers =
  h_file :: "'p \<Rightarrow> int \<Rightarrow> 'c option \<Rightarrow> 32 word \<Rightarrow> ('p, 'c) aeEventLoop \<times> 'w
    \<Rightarrow> (('p, 'c) aeEventLoop \<times> 'w) res"
  h_time :: "'p \<Rightarrow> int \<Rightarrow> 'c option \<Rightarrow> ('p, 'c) aeEventLoop \<times> 'w
    \<Rightarrow> (int \<times> ('p, 'c) aeEventLoop \<times> 'w) res"
  h_final :: "'p \<Rightarrow> 'c option \<Rightarrow> ('p, 'c) aeEventLoop \<times> 'w \<Rightarrow> (('p, 'c) aeEventLoop \<times> 'w) res"
  h_before :: "'p \<Rightarrow> ('p, 'c) aeEventLoop \<times> 'w \<Rightarrow> (('p, 'c) aeEventLoop \<times> 'w) res"

text \<open>The first timer with the id leaves the list, then its finalizer runs.\<close>

fun drop_timer :: "int \<Rightarrow> ('p, 'c) aeTimeEvent list
  \<Rightarrow> (('p, 'c) aeTimeEvent \<times> ('p, 'c) aeTimeEvent list) option" where
  "drop_timer i [] = None"
| "drop_timer i (te # ts) = (if te_id te = i then Some (te, ts)
     else map_option (\<lambda>(t, us). (t, te # us)) (drop_timer i ts))"

definition aeDeleteTimeEvent :: "('p, 'c, 'w) handlers \<Rightarrow> int \<Rightarrow> ('p, 'c) aeEventLoop \<times> 'w
  \<Rightarrow> (int \<times> ('p, 'c) aeEventLoop \<times> 'w) res" where
  "aeDeleteTimeEvent H i s =
     (case drop_timer i (el_timers (fst s)) of
        None \<Rightarrow> Inr (AE_ERR, s)
      | Some (te, ts) \<Rightarrow>
          let s1 = ((fst s)\<lparr>el_timers := ts\<rparr>, snd s)
          in (case te_finalizerProc te of
                None \<Rightarrow> Inr (AE_OK, s1)
              | Some p \<Rightarrow> fmap (\<lambda>s2. (AE_OK, s2)) (h_final H p (te_clientData te) s1)))"

definition sooner :: "('p, 'c) aeTimeEvent \<Rightarrow> ('p, 'c) aeTimeEvent \<Rightarrow> bool" where
  "sooner te n \<longleftrightarrow> te_when_sec te < te_when_sec n \<or>
     (te_when_sec te = te_when_sec n \<and> te_when_ms te < te_when_ms n)"

fun nearest_loop :: "('p, 'c) aeTimeEvent list \<Rightarrow> ('p, 'c) aeTimeEvent option
  \<Rightarrow> ('p, 'c) aeTimeEvent option" where
  "nearest_loop [] nearest = nearest"
| "nearest_loop (te # ts) nearest = nearest_loop ts
     (case nearest of None \<Rightarrow> Some te | Some n \<Rightarrow> if sooner te n then Some te else nearest)"

definition aeSearchNearestTimer :: "('p, 'c) aeEventLoop \<Rightarrow> ('p, 'c) aeTimeEvent option" where
  "aeSearchNearestTimer L = nearest_loop (el_timers L) None"

text \<open>The write through \<open>te\<close> after its handler ran: \<open>Use_after_free\<close> when the handler has deleted
  the timer itself.\<close>

definition reschedule :: "(nat \<Rightarrow> int \<times> int) \<Rightarrow> int \<Rightarrow> int \<Rightarrow> ('p, 'c) aeEventLoop
  \<Rightarrow> ('p, 'c) aeEventLoop res" where
  "reschedule now retval i L =
     (let ((s, m), L1) = aeAddMillisecondsToNow now retval L in
      if i \<in> te_id ` set (el_timers L1)
      then Inr (L1\<lparr>el_timers := map (\<lambda>t. if te_id t = i then t\<lparr>te_when_sec := s, te_when_ms := m\<rparr> else t)
             (el_timers L1)\<rparr>)
      else Inl Use_after_free)"

text \<open>One pass of \<open>processTimeEvents\<close>: \<open>ts\<close> is the rest of the list from \<open>te\<close>; after a handler the
  walk starts again from the head. \<open>None\<close> when the fuel is used up.\<close>

fun time_loop :: "('p, 'c, 'w) handlers \<Rightarrow> (nat \<Rightarrow> int \<times> int) \<Rightarrow> nat \<Rightarrow> int
  \<Rightarrow> ('p, 'c) aeTimeEvent list \<Rightarrow> nat \<Rightarrow> ('p, 'c) aeEventLoop \<times> 'w
  \<Rightarrow> (nat \<times> ('p, 'c) aeEventLoop \<times> 'w) option res" where
  "time_loop H now 0 maxId ts processed s = Inr None"
| "time_loop H now (Suc fuel) maxId [] processed s = Inr (Some (processed, s))"
| "time_loop H now (Suc fuel) maxId (te # ts) processed s =
     (if te_id te > maxId then time_loop H now fuel maxId ts processed s
      else
        let ((now_sec, now_ms), L1) = aeGetTime now (fst s); s1 = (L1, snd s) in
        if now_sec > te_when_sec te \<or> now_sec = te_when_sec te \<and> now_ms \<ge> te_when_ms te then
          fbind (h_time H (te_timeProc te) (te_id te) (te_clientData te) s1) (\<lambda>(retval, s2).
          fbind (if retval \<noteq> AE_NOMORE
                 then fmap (\<lambda>L. (L, snd s2)) (reschedule now retval (te_id te) (fst s2))
                 else fmap snd (aeDeleteTimeEvent H (te_id te) s2)) (\<lambda>s3.
          time_loop H now fuel maxId (el_timers (fst s3)) (Suc processed) s3))
        else time_loop H now fuel maxId ts processed s1)"

definition processTimeEvents :: "('p, 'c, 'w) handlers \<Rightarrow> (nat \<Rightarrow> int \<times> int) \<Rightarrow> nat
  \<Rightarrow> ('p, 'c) aeEventLoop \<times> 'w \<Rightarrow> (nat \<times> ('p, 'c) aeEventLoop \<times> 'w) option res" where
  "processTimeEvents H now fuel s =
     time_loop H now fuel (el_timeEventNextId (fst s) - 1) (el_timers (fst s)) 0 s"

subsection \<open>The round of the loop\<close>

definition fired_of :: "(int \<times> 32 word) list \<Rightarrow> (int \<times> 32 word) list" where
  "fired_of evs = map (\<lambda>(fd, e). (fd, (if e AND EPOLLIN \<noteq> 0 then AE_READABLE else 0)
     OR (if e AND EPOLLOUT \<noteq> 0 then AE_WRITABLE else 0))) evs"

text \<open>\<open>aeApiPoll\<close>: the timeout in milliseconds is converted to \<open>int\<close>, \<open>evs\<close> is the kernel's answer
  (none when \<open>epoll_wait\<close> returns 0 or fails).\<close>

definition aeApiPoll :: "(int \<times> int) option \<Rightarrow> (int \<times> 32 word) list \<Rightarrow> ('p, 'c) aeEventLoop
  \<Rightarrow> nat \<times> ('p, 'c) aeEventLoop" where
  "aeApiPoll tvp evs L =
     (let t = (case tvp of None \<Rightarrow> - 1 | Some (sec, usec) \<Rightarrow> to_i32 (sec * 1000 + usec sdiv 1000))
      in (length evs, L\<lparr>el_waits := t # el_waits L,
            el_fired := fired_of evs @ drop (length evs) (el_fired L)\<rparr>))"

definition call_proc :: "('p, 'c, 'w) handlers \<Rightarrow> 'p option \<Rightarrow> int \<Rightarrow> 'c option \<Rightarrow> 32 word
  \<Rightarrow> ('p, 'c) aeEventLoop \<times> 'w \<Rightarrow> (('p, 'c) aeEventLoop \<times> 'w) res" where
  "call_proc H p fd data msk s = (case p of None \<Rightarrow> Inl Null_deref | Some q \<Rightarrow> h_file H q fd data msk s)"

text \<open>The body of the loop over the fired events: the table is read again before the second
  handler, since the first may have changed it.\<close>

definition fire_one :: "('p, 'c, 'w) handlers \<Rightarrow> nat \<Rightarrow> ('p, 'c) aeEventLoop \<times> 'w
  \<Rightarrow> (('p, 'c) aeEventLoop \<times> 'w) res" where
  "fire_one H j s =
     (if j \<ge> length (el_fired (fst s)) then Inl Out_of_bounds
      else
        let (fd, msk) = el_fired (fst s) ! j in
        if fd < 0 \<or> fd \<ge> AE_SETSIZE then Inl Out_of_bounds
        else
          let fe = el_events (fst s) fd;
              rfired = (fe_mask fe AND msk AND AE_READABLE \<noteq> 0)
          in fbind (if rfired then call_proc H (fe_rfileProc fe) fd (fe_clientData fe) msk s else Inr s) (\<lambda>s1.
             let fe' = el_events (fst s1) fd in
             if fe_mask fe' AND msk AND AE_WRITABLE \<noteq> 0
                \<and> (\<not> rfired \<or> fe_wfileProc fe' \<noteq> fe_rfileProc fe')
             then call_proc H (fe_wfileProc fe') fd (fe_clientData fe') msk s1
             else Inr s1))"

fun fire_loop :: "('p, 'c, 'w) handlers \<Rightarrow> nat \<Rightarrow> nat \<Rightarrow> ('p, 'c) aeEventLoop \<times> 'w
  \<Rightarrow> (('p, 'c) aeEventLoop \<times> 'w) res" where
  "fire_loop H 0 j s = Inr s"
| "fire_loop H (Suc n) j s = fbind (fire_one H j s) (\<lambda>s'. fire_loop H n (Suc j) s')"

text \<open>The time to the nearest timer, never negative.\<close>

definition wait_time :: "('p, 'c) aeTimeEvent \<Rightarrow> int \<times> int \<Rightarrow> int \<times> int" where
  "wait_time te now =
     (let (now_sec, now_ms) = now; sec = te_when_sec te - now_sec;
          (sec', usec) = (if te_when_ms te < now_ms
             then (sec - 1, ((te_when_ms te + 1000) - now_ms) * 1000)
             else (sec, (te_when_ms te - now_ms) * 1000))
      in (if sec' < 0 then 0 else sec', if usec < 0 then 0 else usec))"

definition poll_timeout :: "(nat \<Rightarrow> int \<times> int) \<Rightarrow> 32 word \<Rightarrow> ('p, 'c) aeEventLoop
  \<Rightarrow> (int \<times> int) option \<times> ('p, 'c) aeEventLoop" where
  "poll_timeout now flags L =
     (case (if flags AND AE_TIME_EVENTS \<noteq> 0 \<and> flags AND AE_DONT_WAIT = 0
            then aeSearchNearestTimer L else None) of
        Some te \<Rightarrow> let (t, L1) = aeGetTime now L in (Some (wait_time te t), L1)
      | None \<Rightarrow> (if flags AND AE_DONT_WAIT \<noteq> 0 then Some (0, 0) else None, L))"

definition aeProcessEvents :: "('p, 'c, 'w) handlers \<Rightarrow> (nat \<Rightarrow> int \<times> int) \<Rightarrow> nat
  \<Rightarrow> (int \<times> 32 word) list \<Rightarrow> 32 word \<Rightarrow> ('p, 'c) aeEventLoop \<times> 'w
  \<Rightarrow> (nat \<times> ('p, 'c) aeEventLoop \<times> 'w) option res" where
  "aeProcessEvents H now fuel evs flags s =
     (if flags AND AE_TIME_EVENTS = 0 \<and> flags AND AE_FILE_EVENTS = 0 then Inr (Some (0, s))
      else
        fbind (if el_maxfd (fst s) \<noteq> - 1 \<or> flags AND AE_TIME_EVENTS \<noteq> 0 \<and> flags AND AE_DONT_WAIT = 0
          then let (tvp, L1) = poll_timeout now flags (fst s);
                   (numevents, L2) = aeApiPoll tvp evs L1
               in fmap (\<lambda>s'. (numevents, s')) (fire_loop H numevents 0 (L2, snd s))
          else Inr (0, s)) (\<lambda>(processed, s1).
        if flags AND AE_TIME_EVENTS \<noteq> 0
        then fmap (map_option (\<lambda>(k, s2). (processed + k, s2))) (processTimeEvents H now fuel s1)
        else Inr (Some (processed, s1))))"

text \<open>\<open>aeMain\<close>: the kernel's answers, one per round; \<open>None\<close> when they are used up before a handler
  stops the loop. The flags are \<open>AE_FILE_EVENTS\<close>, in redis-server \<open>AE_ALL_EVENTS\<close>.\<close>

fun main_loop :: "('p, 'c, 'w) handlers \<Rightarrow> (nat \<Rightarrow> int \<times> int) \<Rightarrow> nat \<Rightarrow> 32 word
  \<Rightarrow> (int \<times> 32 word) list list \<Rightarrow> ('p, 'c) aeEventLoop \<times> 'w
  \<Rightarrow> (('p, 'c) aeEventLoop \<times> 'w) option res" where
  "main_loop H now fuel flags rounds s =
     (if el_stop (fst s) then Inr (Some s)
      else case rounds of
        [] \<Rightarrow> Inr None
      | evs # rest \<Rightarrow>
          fbind (case el_beforesleep (fst s) of None \<Rightarrow> Inr s | Some p \<Rightarrow> h_before H p s) (\<lambda>s1.
          fbind (aeProcessEvents H now fuel evs flags s1) (\<lambda>r. case r of
              None \<Rightarrow> Inr None
            | Some (_, s2) \<Rightarrow> main_loop H now fuel flags rest s2)))"

definition aeMain :: "('p, 'c, 'w) handlers \<Rightarrow> (nat \<Rightarrow> int \<times> int) \<Rightarrow> nat \<Rightarrow> 32 word
  \<Rightarrow> (int \<times> 32 word) list list \<Rightarrow> ('p, 'c) aeEventLoop \<times> 'w
  \<Rightarrow> (('p, 'c) aeEventLoop \<times> 'w) option res" where
  "aeMain H now fuel flags rounds s =
     main_loop H now fuel flags rounds ((fst s)\<lparr>el_stop := False\<rparr>, snd s)"

text \<open>\<open>select\<close> on one descriptor: its answer, and whether the descriptor came back readable and
  writable. An \<open>fd_set\<close> holds 1024 bits.\<close>

definition aeWait :: "int \<times> bool \<times> bool \<Rightarrow> int \<Rightarrow> 32 word \<Rightarrow> (int \<times> 32 word) res" where
  "aeWait answer fd msk =
     (if (msk AND AE_READABLE \<noteq> 0 \<or> msk AND AE_WRITABLE \<noteq> 0) \<and> (fd < 0 \<or> fd \<ge> 1024)
      then Inl Buffer_overflow
      else let (retval, r, w) = answer in
        if retval > 0 then
          (if fd < 0 \<or> fd \<ge> 1024 then Inl Out_of_bounds
           else Inr (0, (if r then AE_READABLE else 0) OR (if w then AE_WRITABLE else 0)))
        else Inr (retval, 0))"

subsection \<open>The table and the kernel\<close>

text \<open>The interest set the kernel holds after the logged requests, newest first, and the rule that
  it only accepts \<open>ADD\<close> for a descriptor it does not watch, \<open>MOD\<close> and \<open>DEL\<close> for one it does.\<close>

primrec replay :: "ctl list \<Rightarrow> int \<Rightarrow> 32 word option" where
  "replay [] = (\<lambda>_. None)"
| "replay (c # cs) = (case c of (op, fd, ev, ok) \<Rightarrow>
     if \<not> ok then replay cs
     else if op = EPOLL_CTL_DEL then (replay cs)(fd := None) else (replay cs)(fd \<mapsto> ev))"

primrec ctl_legal :: "ctl list \<Rightarrow> bool" where
  "ctl_legal [] \<longleftrightarrow> True"
| "ctl_legal (c # cs) \<longleftrightarrow> (case c of (op, fd, ev, ok) \<Rightarrow>
     (op = EPOLL_CTL_ADD \<longleftrightarrow> replay cs fd = None)) \<and> ctl_legal cs"

abbreviation mask_of :: "('p, 'c) aeEventLoop \<Rightarrow> int \<Rightarrow> 32 word" where
  "mask_of L fd \<equiv> fe_mask (el_events L fd)"

definition procs_set :: "('p, 'c) aeFileEvent \<Rightarrow> bool" where
  "procs_set fe \<longleftrightarrow> (fe_mask fe AND AE_READABLE \<noteq> 0 \<longrightarrow> fe_rfileProc fe \<noteq> None)
     \<and> (fe_mask fe AND AE_WRITABLE \<noteq> 0 \<longrightarrow> fe_wfileProc fe \<noteq> None)"

definition maxfd_ok :: "('p, 'c) aeEventLoop \<Rightarrow> bool" where
  "maxfd_ok L \<longleftrightarrow> - 1 \<le> el_maxfd L \<and> el_maxfd L < AE_SETSIZE
     \<and> (\<forall>fd. mask_of L fd \<noteq> AE_NONE \<longrightarrow> 0 \<le> fd \<and> fd \<le> el_maxfd L)
     \<and> (el_maxfd L = - 1 \<or> mask_of L (el_maxfd L) \<noteq> AE_NONE)"

definition kernel_ok :: "('p, 'c) aeEventLoop \<Rightarrow> bool" where
  "kernel_ok L \<longleftrightarrow> ctl_legal (el_ctl L)
     \<and> (\<forall>fd. replay (el_ctl L) fd = (if mask_of L fd = AE_NONE then None else Some (epoll_bits (mask_of L fd))))"

definition loop_inv :: "('p, 'c) aeEventLoop \<Rightarrow> bool" where
  "loop_inv L \<longleftrightarrow> maxfd_ok L \<and> kernel_ok L \<and> (\<forall>fd. procs_set (el_events L fd))"

lemma new_loop_inv: "loop_inv new_loop"
  by (simp add: loop_inv_def maxfd_ok_def kernel_ok_def procs_set_def new_loop_def no_event_def
      AE_SETSIZE_def)

lemma word_or_zero: "(a :: 32 word) OR b = 0 \<longleftrightarrow> a = 0 \<and> b = 0"
  by (rule or_eq_0_iff)

lemma highest_spec:
  "- 1 \<le> highest ev n \<and> highest ev n < int n
   \<and> (highest ev n \<noteq> - 1 \<longrightarrow> 0 \<le> highest ev n \<and> fe_mask (ev (highest ev n)) \<noteq> AE_NONE)
   \<and> (\<forall>fd. 0 \<le> fd \<and> fd < int n \<and> fe_mask (ev fd) \<noteq> AE_NONE \<longrightarrow> fd \<le> highest ev n)"
proof (induction n)
  case (Suc n)
  show ?case
  proof (cases "fe_mask (ev (int n)) \<noteq> AE_NONE")
    case True
    then show ?thesis by auto
  next
    case False
    have "fd < int n" if "fd < int (Suc n)" "fe_mask (ev fd) \<noteq> AE_NONE" for fd
      using that False by (cases "fd = int n") auto
    then show ?thesis using Suc.IH False by auto
  qed
qed auto

lemma highest_maxfd:
  assumes "\<forall>g. mask_of L g \<noteq> AE_NONE \<longrightarrow> 0 \<le> g \<and> g < int n"
    and "el_maxfd L = highest (el_events L) n" and "int n \<le> AE_SETSIZE"
  shows "maxfd_ok L"
proof -
  have "- 1 \<le> el_maxfd L" "el_maxfd L < int n" "el_maxfd L = - 1 \<or> mask_of L (el_maxfd L) \<noteq> AE_NONE"
    "\<And>g. \<lbrakk>0 \<le> g; g < int n; mask_of L g \<noteq> AE_NONE\<rbrakk> \<Longrightarrow> g \<le> el_maxfd L"
    using highest_spec [of "el_events L" n] unfolding assms(2) by blast+
  then show ?thesis using assms(1,3) unfolding maxfd_ok_def by auto
qed

lemma maxfd_keep:
  assumes "maxfd_ok L" "el_maxfd L' = el_maxfd L"
    and "\<And>g. mask_of L' g \<noteq> AE_NONE \<Longrightarrow> mask_of L g \<noteq> AE_NONE"
    and "mask_of L (el_maxfd L) \<noteq> AE_NONE \<Longrightarrow> mask_of L' (el_maxfd L) \<noteq> AE_NONE"
  shows "maxfd_ok L'"
  using assms unfolding maxfd_ok_def by metis

lemma create_kernel:
  assumes "kernel_ok L" "msk \<noteq> 0"
  shows "kernel_ok (aeApiAddEvent False L fd msk)"
    and "el_events L1 = (el_events L)(fd := fe) \<Longrightarrow> fe_mask fe = mask_of L fd OR msk \<Longrightarrow>
      el_ctl L1 = el_ctl (aeApiAddEvent True L fd msk) \<Longrightarrow> kernel_ok L1"
  using assms by (auto simp: kernel_ok_def aeApiAddEvent_def Let_def word_or_zero or.commute)

definition reg_entry :: "('p, 'c) aeFileEvent \<Rightarrow> 32 word \<Rightarrow> 'p \<Rightarrow> 'c option \<Rightarrow> ('p, 'c) aeFileEvent" where
  "reg_entry fe msk p d = \<lparr>fe_mask = fe_mask fe OR msk,
     fe_rfileProc = (if msk AND AE_READABLE \<noteq> 0 then Some p else fe_rfileProc fe),
     fe_wfileProc = (if msk AND AE_WRITABLE \<noteq> 0 then Some p else fe_wfileProc fe), fe_clientData = d\<rparr>"

lemma fe_mask_reg_entry [simp]: "fe_mask (reg_entry fe msk p d) = fe_mask fe OR msk"
  by (simp add: reg_entry_def)

lemma aeCreateFileEvent_ok:
  assumes "0 \<le> fd" "fd < AE_SETSIZE"
  shows "aeCreateFileEvent ok L fd msk p d = Inr (if ok
     then (AE_OK, (aeApiAddEvent True L fd msk)\<lparr>
       el_events := (el_events L)(fd := reg_entry (el_events L fd) msk p d),
       el_maxfd := max (el_maxfd L) fd\<rparr>)
     else (AE_ERR, aeApiAddEvent False L fd msk))"
  using assms
  by (cases "el_events L fd") (auto simp: aeCreateFileEvent_def Let_def reg_entry_def aeApiAddEvent_def max_def)

lemma procs_reg_entry: "procs_set fe \<Longrightarrow> procs_set (reg_entry fe msk p d)"
  by (auto simp: procs_set_def reg_entry_def word_ao_dist word_or_zero)

lemma api_add_keeps [simp]:
  "el_events (aeApiAddEvent ok L fd msk) = el_events L" "el_maxfd (aeApiAddEvent ok L fd msk) = el_maxfd L"
  by (simp_all add: aeApiAddEvent_def Let_def)

lemma create_inv:
  assumes inv: "loop_inv L" and "msk \<noteq> 0" "0 \<le> fd"
  shows "\<exists>r L'. aeCreateFileEvent ok L fd msk p d = Inr (r, L') \<and> loop_inv L'
    \<and> (\<forall>g. mask_of L' g = (if g = fd \<and> ok \<and> fd < AE_SETSIZE then mask_of L g OR msk else mask_of L g))"
proof (cases "fd < AE_SETSIZE")
  case False
  then show ?thesis using inv by (simp add: aeCreateFileEvent_def)
next
  case True
  have mx: "maxfd_ok L" and k: "kernel_ok L" and pr: "\<And>g. procs_set (el_events L g)"
    using inv by (auto simp: loop_inv_def)
  show ?thesis
  proof (cases ok)
    case False
    then show ?thesis
      using aeCreateFileEvent_ok [OF assms(3) True, of ok L msk p d] create_kernel(1) [OF k assms(2)] mx pr
      by (simp add: loop_inv_def maxfd_ok_def)
  next
    case ok: True
    let ?fe = "reg_entry (el_events L fd) msk p d"
    let ?L = "(aeApiAddEvent True L fd msk)\<lparr>el_events := (el_events L)(fd := ?fe),
       el_maxfd := max (el_maxfd L) fd\<rparr>"
    have "kernel_ok ?L" by (rule create_kernel(2) [where fe = ?fe, OF k assms(2)]) simp_all
    moreover have "maxfd_ok ?L"
      using mx assms(2,3) True by (auto simp: maxfd_ok_def word_or_zero max_def)
    moreover have "procs_set (el_events ?L g)" for g by (auto intro: pr procs_reg_entry)
    ultimately show ?thesis
      using aeCreateFileEvent_ok [OF assms(3) True, of ok L msk p d] ok True
      by (simp add: loop_inv_def)
  qed
qed

lemma delete_inv:
  assumes inv: "loop_inv L" and "0 \<le> fd"
  shows "\<exists>L'. aeDeleteFileEvent True L fd msk = Inr L' \<and> loop_inv L'
    \<and> (\<forall>g. mask_of L' g = (if g = fd then mask_of L g AND NOT msk else mask_of L g))"
proof -
  have mx: "maxfd_ok L" and k: "kernel_ok L" and pr: "\<And>g. procs_set (el_events L g)"
    using inv by (auto simp: loop_inv_def)
  show ?thesis
  proof (cases "mask_of L fd = 0")
    case True
    then show ?thesis
      using inv assms(2) by (auto simp: aeDeleteFileEvent_def)
  next
    case False
    then have fd: "fd < AE_SETSIZE" "fd \<le> el_maxfd L" using mx by (auto simp: maxfd_ok_def)
    let ?fe = "(el_events L fd)\<lparr>fe_mask := mask_of L fd AND NOT msk\<rparr>"
    let ?ev = "(el_events L)(fd := ?fe)"
    let ?m = "if fd = el_maxfd L \<and> fe_mask ?fe = 0 then highest ?ev (nat (el_maxfd L)) else el_maxfd L"
    let ?L1 = "L\<lparr>el_events := ?ev, el_maxfd := ?m\<rparr>"
    let ?L = "aeApiDelEvent True ?L1 fd msk"
    have eq: "aeDeleteFileEvent True L fd msk = Inr ?L"
      using False fd assms(2) by (auto simp: aeDeleteFileEvent_def Let_def)
    have parts: "el_events ?L = ?ev" "el_maxfd ?L = ?m"
      by (simp_all add: aeApiDelEvent_def Let_def)
    have pos: "0 \<le> fd" and nz: "mask_of L fd \<noteq> 0" using assms(2) False by auto
    have "maxfd_ok ?L"
    proof (cases "fd = el_maxfd L \<and> fe_mask ?fe = 0")
      case True
      have lt: "g < int (nat (el_maxfd L))" if "fe_mask (?ev g) \<noteq> 0" for g
        using mx that True by (auto simp: maxfd_ok_def split: if_splits)
      have "0 \<le> g" if "fe_mask (?ev g) \<noteq> 0" for g
        using mx that pos by (auto simp: maxfd_ok_def split: if_splits)
      with lt have "\<forall>g. fe_mask (el_events ?L g) \<noteq> 0 \<longrightarrow> 0 \<le> g \<and> g < int (nat (el_maxfd L))"
        unfolding parts by blast
      moreover have "el_maxfd ?L = highest (el_events ?L) (nat (el_maxfd L))"
        unfolding parts using True by argo
      moreover have "int (nat (el_maxfd L)) \<le> AE_SETSIZE" using fd True assms(2) by linarith
      ultimately show ?thesis by (rule highest_maxfd)
    next
      case False
      then have "el_maxfd ?L = el_maxfd L" unfolding parts by argo
      moreover have "mask_of L g \<noteq> AE_NONE" if "mask_of ?L g \<noteq> AE_NONE" for g
        using that nz unfolding parts by (cases "g = fd") auto
      moreover have "mask_of ?L (el_maxfd L) \<noteq> AE_NONE" if "mask_of L (el_maxfd L) \<noteq> AE_NONE"
        using that False unfolding parts by (cases "fd = el_maxfd L") auto
      ultimately show ?thesis by (rule maxfd_keep [OF mx])
    qed
    moreover have "kernel_ok ?L"
      using k False unfolding kernel_ok_def parts
      by (auto simp: aeApiDelEvent_def Let_def and.assoc)
    moreover have "procs_set (el_events ?L g)" for g
      unfolding parts
      using pr [of g] by (auto simp: procs_set_def)
        (metis and.assoc and.commute and_zero_eq)+
    moreover have "\<forall>g. mask_of ?L g = (if g = fd then mask_of L g AND NOT msk else mask_of L g)"
      unfolding parts by simp
    ultimately show ?thesis
      unfolding eq loop_inv_def by blast
  qed
qed

subsection \<open>Registering and unregistering\<close>

datatype ('p, 'c) reg = Create bool int "32 word" 'p "'c option" | Delete int "32 word"

fun run_regs :: "('p, 'c) reg list \<Rightarrow> ('p, 'c) aeEventLoop \<Rightarrow> ('p, 'c) aeEventLoop res" where
  "run_regs [] L = Inr L"
| "run_regs (Create ok fd msk p d # rs) L = fbind (aeCreateFileEvent ok L fd msk p d) (\<lambda>(r, L'). run_regs rs L')"
| "run_regs (Delete fd msk # rs) L = fbind (aeDeleteFileEvent True L fd msk) (run_regs rs)"

fun reg_ok :: "('p, 'c) reg \<Rightarrow> bool" where
  "reg_ok (Create ok fd msk p d) \<longleftrightarrow> 0 \<le> fd \<and> msk \<noteq> 0"
| "reg_ok (Delete fd msk) \<longleftrightarrow> 0 \<le> fd"

text \<open>What the masks should be: a map from descriptors to masks, updated by each successful call.\<close>

fun spec_masks :: "('p, 'c) reg list \<Rightarrow> (int \<Rightarrow> 32 word) \<Rightarrow> int \<Rightarrow> 32 word" where
  "spec_masks [] m = m"
| "spec_masks (Create ok fd msk p d # rs) m =
     spec_masks rs (if ok \<and> fd < AE_SETSIZE then m(fd := m fd OR msk) else m)"
| "spec_masks (Delete fd msk # rs) m = spec_masks rs (m(fd := m fd AND NOT msk))"

lemma run_regs_ok:
  "\<lbrakk>loop_inv L; \<forall>r \<in> set rs. reg_ok r\<rbrakk> \<Longrightarrow>
   \<exists>L'. run_regs rs L = Inr L' \<and> loop_inv L' \<and> mask_of L' = spec_masks rs (mask_of L)"
proof (induction rs arbitrary: L)
  case (Cons r rs)
  show ?case
  proof (cases r)
    case (Create ok fd msk p d)
    with Cons.prems obtain x L1 where L1: "aeCreateFileEvent ok L fd msk p d = Inr (x, L1)" "loop_inv L1"
      "\<forall>g. mask_of L1 g = (if g = fd \<and> ok \<and> fd < AE_SETSIZE then mask_of L g OR msk else mask_of L g)"
      using create_inv [OF Cons.prems(1), of msk fd ok p d] by auto
    then have "mask_of L1 = (if ok \<and> fd < AE_SETSIZE then (mask_of L)(fd := mask_of L fd OR msk) else mask_of L)"
      by auto
    with Cons.IH [OF L1(2)] Cons.prems(2) L1(1) Create show ?thesis by auto
  next
    case (Delete fd msk)
    with Cons.prems obtain L1 where L1: "aeDeleteFileEvent True L fd msk = Inr L1" "loop_inv L1"
      "\<forall>g. mask_of L1 g = (if g = fd then mask_of L g AND NOT msk else mask_of L g)"
      using delete_inv [OF Cons.prems(1), of fd msk] by auto
    then have "mask_of L1 = (mask_of L)(fd := mask_of L fd AND NOT msk)" by auto
    with Cons.IH [OF L1(2)] Cons.prems(2) L1(1) Delete show ?thesis by auto
  qed
qed simp

text \<open>C7. After any sequence of registrations and removals, from the creation of the loop on, with
  the kernel accepting or refusing any of the additions: the masks are the ones asked for,
  \<open>maxfd\<close> is the greatest descriptor with an event or -1, the kernel watches exactly the
  descriptors of the table with exactly their masks, it never saw an \<open>ADD\<close> for a watched or a
  \<open>MOD\<close> or \<open>DEL\<close> for an unwatched descriptor, and every registered bit has its handler.\<close>

theorem ae_registry:
  assumes "\<forall>r \<in> set rs. reg_ok r"
  shows "\<exists>L. run_regs rs (the (aeCreateEventLoop True True)) = Inr L
    \<and> mask_of L = spec_masks rs (\<lambda>_. AE_NONE) \<and> maxfd_ok L \<and> kernel_ok L
    \<and> (\<forall>fd. procs_set (el_events L fd))"
proof -
  have "mask_of (new_loop :: ('a, 'b) aeEventLoop) = (\<lambda>_. AE_NONE)"
    by (simp add: new_loop_def no_event_def)
  then obtain L where "run_regs rs new_loop = Inr L" "loop_inv L" "mask_of L = spec_masks rs (\<lambda>_. AE_NONE)"
    using run_regs_ok [OF new_loop_inv assms] by metis
  then show ?thesis
    unfolding aeCreateEventLoop_def loop_inv_def by (intro exI [of _ L]) simp
qed

theorem ae_registry_witness:
  "\<exists>L. run_regs [Create True 5 AE_READABLE ''r'' None, Create True 9 3 ''w'' (Some ()),
        Create False 7 AE_WRITABLE ''w'' None, Delete 9 AE_ALL_EVENTS] (the (aeCreateEventLoop True True)) = Inr L
    \<and> mask_of L = spec_masks [Create True 5 AE_READABLE ''r'' None, Create True 9 3 ''w'' (Some ()),
        Create False 7 AE_WRITABLE ''w'' None, Delete 9 AE_ALL_EVENTS] (\<lambda>_. AE_NONE)
    \<and> maxfd_ok L \<and> kernel_ok L \<and> (\<forall>fd. procs_set (el_events L fd))"
  by (rule ae_registry) simp

subsection \<open>Dispatching\<close>

definition registered :: "('p, 'c) aeEventLoop \<Rightarrow> 'p \<Rightarrow> int \<Rightarrow> 32 word \<Rightarrow> bool" where
  "registered L p fd msk \<longleftrightarrow>
     mask_of L fd AND msk AND AE_READABLE \<noteq> 0 \<and> fe_rfileProc (el_events L fd) = Some p \<or>
     mask_of L fd AND msk AND AE_WRITABLE \<noteq> 0 \<and> fe_wfileProc (el_events L fd) = Some p"

text \<open>The contract of a handler table: \<open>I\<close> holds of the states between calls, a handler that is
  registered for what fired keeps it.\<close>

definition handlers_keep :: "('p, 'c, 'w) handlers \<Rightarrow> (int \<times> 32 word) list
  \<Rightarrow> (('p, 'c) aeEventLoop \<times> 'w \<Rightarrow> bool) \<Rightarrow> bool" where
  "handlers_keep H fired I \<longleftrightarrow>
     (\<forall>s. I s \<longrightarrow> (\<forall>fd. procs_set (el_events (fst s) fd)) \<and> take (length fired) (el_fired (fst s)) = fired) \<and>
     (\<forall>s p fd msk. I s \<longrightarrow> (fd, msk) \<in> set fired \<longrightarrow> registered (fst s) p fd msk \<longrightarrow>
        (\<exists>s'. h_file H p fd (fe_clientData (el_events (fst s) fd)) msk s = Inr s' \<and> I s'))"

lemma mask_and_bit: "(a :: 32 word) AND m AND b \<noteq> 0 \<Longrightarrow> a AND b \<noteq> 0"
proof
  assume ne: "a AND m AND b \<noteq> 0" and z: "a AND b = 0"
  have "a AND m AND b = (a AND b) AND m" by (simp only: and.assoc and.commute [of m b])
  with z ne show False by simp
qed

lemma fire_one_ok:
  assumes H: "handlers_keep H fired I" and I: "I s" and j: "j < length fired"
    and fd: "\<forall>(fd, m) \<in> set fired. 0 \<le> fd \<and> fd < AE_SETSIZE"
  shows "\<exists>s'. fire_one H j s = Inr s' \<and> I s'"
proof -
  obtain g m where gm: "fired ! j = (g, m)" by (cases "fired ! j")
  then have mem: "(g, m) \<in> set fired" using j by (metis nth_mem)
  have inv: "(\<forall>fd. procs_set (el_events (fst s) fd)) \<and> take (length fired) (el_fired (fst s)) = fired"
    if "I s" for s using H that unfolding handlers_keep_def by blast
  have call: "\<exists>s'. h_file H p g (fe_clientData (el_events (fst s) g)) m s = Inr s' \<and> I s'"
    if "I s" "registered (fst s) p g m" for s p using H that mem unfolding handlers_keep_def by blast
  have at: "el_fired (fst s) ! j = (g, m)" "j < length (el_fired (fst s))"
    using inv [OF I] gm j by (metis nth_take, metis length_take min_less_iff_conj)
  have gr: "0 \<le> g" "g < AE_SETSIZE" using fd mem by auto
  have rd: "\<exists>s'. call_proc H (fe_rfileProc (el_events (fst s) g)) g (fe_clientData (el_events (fst s) g)) m s = Inr s' \<and> I s'"
    if a: "I s" and b: "mask_of (fst s) g AND m AND AE_READABLE \<noteq> 0" for s
  proof -
    obtain p where "fe_rfileProc (el_events (fst s) g) = Some p"
      using inv [OF a] mask_and_bit [OF b] by (auto simp: procs_set_def)
    with call [OF a, of p] b show ?thesis by (simp add: call_proc_def registered_def)
  qed
  have wr: "\<exists>s'. call_proc H (fe_wfileProc (el_events (fst s) g)) g (fe_clientData (el_events (fst s) g)) m s = Inr s' \<and> I s'"
    if a: "I s" and b: "mask_of (fst s) g AND m AND AE_WRITABLE \<noteq> 0" for s
  proof -
    obtain p where "fe_wfileProc (el_events (fst s) g) = Some p"
      using inv [OF a] mask_and_bit [OF b] by (auto simp: procs_set_def)
    with call [OF a, of p] b show ?thesis by (simp add: call_proc_def registered_def)
  qed
  obtain s1 where s1: "(if mask_of (fst s) g AND m AND AE_READABLE \<noteq> 0
      then call_proc H (fe_rfileProc (el_events (fst s) g)) g (fe_clientData (el_events (fst s) g)) m s
      else Inr s) = Inr s1" "I s1"
    using rd [OF I] I by (cases "mask_of (fst s) g AND m AND AE_READABLE \<noteq> 0") metis+
  show ?thesis
    using at gr s1 wr [OF s1(2)] by (cases s1) (auto simp: fire_one_def Let_def)
qed

lemma fire_loop_ok:
  assumes "handlers_keep H fired I" "\<forall>(fd, m) \<in> set fired. 0 \<le> fd \<and> fd < AE_SETSIZE"
  shows "I s \<Longrightarrow> j + n \<le> length fired \<Longrightarrow> \<exists>s'. fire_loop H n j s = Inr s' \<and> I s'"
proof (induction n arbitrary: j s)
  case (Suc n)
  then obtain s1 where "fire_one H j s = Inr s1" "I s1"
    using fire_one_ok [OF assms(1) Suc.prems(1) _ assms(2), of j] by auto
  with Suc.IH [of s1 "Suc j"] Suc.prems(2) show ?case by auto
qed simp

text \<open>C8. A round of the loop over file events, with any answer of \<open>epoll_wait\<close> about descriptors
  of the table, calls a handler only when at that moment the event that fired is registered and
  the handler is the registered one; so whatever invariant these calls keep holds after the
  round, which ends without a fault and answers the number of events.\<close>

theorem ae_dispatch:
  assumes "handlers_keep H (fired_of evs) I"
    and "\<forall>(fd, e) \<in> set evs. 0 \<le> fd \<and> fd < AE_SETSIZE"
    and "el_maxfd L \<noteq> - 1"
    and "I (L\<lparr>el_waits := - 1 # el_waits L, el_fired := fired_of evs @ drop (length evs) (el_fired L)\<rparr>, w)"
  shows "\<exists>s'. aeProcessEvents H now fuel evs AE_FILE_EVENTS (L, w) = Inr (Some (length evs, s')) \<and> I s'"
proof -
  have "\<forall>(fd, m) \<in> set (fired_of evs). 0 \<le> fd \<and> fd < AE_SETSIZE"
    using assms(2) by (auto simp: fired_of_def)
  from fire_loop_ok [OF assms(1) this assms(4), of 0 "length evs"]
  obtain s' where "fire_loop H (length evs) 0 (L\<lparr>el_waits := - 1 # el_waits L,
    el_fired := fired_of evs @ drop (length evs) (el_fired L)\<rparr>, w) = Inr s'" "I s'"
    by (auto simp: fired_of_def)
  with assms(3) show ?thesis
    by (simp add: aeProcessEvents_def poll_timeout_def aeApiPoll_def)
qed

text \<open>A table where the handler of descriptor 5 withdraws descriptor 6, which fires in the same round.\<close>

definition two_readers :: "(string, unit) aeEventLoop" where
  "two_readers = new_loop\<lparr>el_maxfd := 6, el_events := (\<lambda>fd. if fd = 5 \<or> fd = 6
     then no_event\<lparr>fe_mask := 1, fe_rfileProc := Some ''r''\<rparr> else no_event)\<rparr>"

definition withdrawing :: "(string, unit, unit) handlers" where
  "withdrawing = \<lparr>h_file = (\<lambda>p fd d m (L, w). if fd = 5
       then fmap (\<lambda>L'. (L', w)) (aeDeleteFileEvent True L 6 1) else Inr (L, w)),
     h_time = (\<lambda>p i d s. Inr (AE_NOMORE, s)), h_final = (\<lambda>p d s. Inr s), h_before = (\<lambda>p s. Inr s)\<rparr>"

definition both_fired :: "(string, unit) aeEventLoop" where
  "both_fired = two_readers\<lparr>el_waits := [- 1], el_fired := [(5, 1), (6, 1)]\<rparr>"

definition one_left :: "(string, unit) aeEventLoop" where
  "one_left = both_fired\<lparr>el_maxfd := 5, el_events := (el_events both_fired)(6 := no_event\<lparr>fe_rfileProc := Some ''r''\<rparr>),
     el_ctl := [(EPOLL_CTL_DEL, 6, 0, True)]\<rparr>"

lemma withdraw_once: "aeDeleteFileEvent True both_fired 6 1 = Inr one_left"
  by (simp add: aeDeleteFileEvent_def both_fired_def one_left_def two_readers_def new_loop_def
      no_event_def AE_SETSIZE_def Let_def aeApiDelEvent_def epoll_bits_def eval_nat_numeral fun_eq_iff)

lemma withdraw_twice: "aeDeleteFileEvent True one_left 6 1 = Inr one_left"
  by (simp add: aeDeleteFileEvent_def one_left_def no_event_def AE_SETSIZE_def Let_def)

lemma withdrawing_keeps:
  "handlers_keep withdrawing (fired_of [(5, EPOLLIN), (6, EPOLLIN)]) (\<lambda>s. fst s = both_fired \<or> fst s = one_left)"
  unfolding handlers_keep_def
  using withdraw_once withdraw_twice
  by (auto simp: fired_of_def withdrawing_def procs_set_def both_fired_def one_left_def two_readers_def
      no_event_def)

theorem ae_dispatch_witness:
  "\<exists>s'. aeProcessEvents withdrawing (\<lambda>_. (0, 0)) 0 [(5, EPOLLIN), (6, EPOLLIN)] AE_FILE_EVENTS (two_readers, ())
      = Inr (Some (length [(5 :: int, EPOLLIN), (6, EPOLLIN)], s')) \<and> (fst s' = both_fired \<or> fst s' = one_left)"
  by (rule ae_dispatch [OF withdrawing_keeps])
    (simp_all add: AE_SETSIZE_def both_fired_def two_readers_def new_loop_def fired_of_def)

subsection \<open>Timers\<close>

abbreviation when_of :: "('p, 'c) aeTimeEvent \<Rightarrow> int" where
  "when_of te \<equiv> te_when_sec te * 1000 + te_when_ms te"

definition ms_ok :: "('p, 'c) aeTimeEvent \<Rightarrow> bool" where
  "ms_ok te \<longleftrightarrow> 0 \<le> te_when_ms te \<and> te_when_ms te < 1000"

text \<open>The time of day in milliseconds, as the code truncates it.\<close>

definition clock_ms :: "(nat \<Rightarrow> int \<times> int) \<Rightarrow> nat \<Rightarrow> int" where
  "clock_ms now t = fst (now t) * 1000 + snd (now t) sdiv 1000"

definition clock_ok :: "(nat \<Rightarrow> int \<times> int) \<Rightarrow> bool" where
  "clock_ok now \<longleftrightarrow> (\<forall>t. 0 \<le> snd (now t) \<and> snd (now t) < 1000000)"

lemma sdiv_pos: "0 \<le> (a :: int) \<Longrightarrow> 0 < b \<Longrightarrow> a sdiv b = a div b"
  by (cases "a = 0") (simp_all add: signed_divide_int_def)

lemma smod_pos: "0 \<le> (a :: int) \<Longrightarrow> 0 < b \<Longrightarrow> a smod b = a mod b"
  by (cases "a = 0") (simp_all add: signed_modulo_int_def sdiv_pos minus_div_mult_eq_mod)

lemma clock_ms_range:
  "clock_ok now \<Longrightarrow> 0 \<le> snd (now t) sdiv 1000 \<and> snd (now t) sdiv 1000 < 1000"
proof -
  assume "clock_ok now"
  then have "0 \<le> snd (now t)" "snd (now t) < 1000000" by (auto simp: clock_ok_def)
  then show ?thesis using zdiv_mono1 [of "snd (now t)" 999999 1000] by (simp add: sdiv_pos)
qed

lemma sooner_when: "ms_ok te \<Longrightarrow> ms_ok n \<Longrightarrow> sooner te n \<longleftrightarrow> when_of te < when_of n"
  by (auto simp: sooner_def ms_ok_def)

lemma nearest_loop_spec:
  "\<lbrakk>\<forall>te \<in> set (n # ts). ms_ok te\<rbrakk> \<Longrightarrow>
   \<exists>m. nearest_loop ts (Some n) = Some m \<and> m \<in> set (n # ts) \<and> (\<forall>te \<in> set (n # ts). when_of m \<le> when_of te)"
proof (induction ts arbitrary: n)
  case (Cons te ts)
  let ?n = "if sooner te n then te else n"
  have "\<forall>te \<in> set (?n # ts). ms_ok te" using Cons.prems by auto
  from Cons.IH [OF this] obtain m where m: "nearest_loop ts (Some ?n) = Some m" "m \<in> set (?n # ts)"
    "\<forall>te \<in> set (?n # ts). when_of m \<le> when_of te" by auto
  moreover have "nearest_loop (te # ts) (Some n) = nearest_loop ts (Some ?n)" by simp
  moreover have "when_of ?n \<le> when_of te" "when_of ?n \<le> when_of n"
    using sooner_when [of te n] Cons.prems by auto
  ultimately show ?case
    by (intro exI [of _ m]) (auto split: if_splits intro: order.trans)
qed simp

lemma nearest_spec:
  assumes "el_timers L \<noteq> []" "\<forall>te \<in> set (el_timers L). ms_ok te"
  shows "\<exists>m. aeSearchNearestTimer L = Some m \<and> m \<in> set (el_timers L)
    \<and> (\<forall>te \<in> set (el_timers L). when_of m \<le> when_of te)"
proof -
  obtain n ts where ts: "el_timers L = n # ts" using assms(1) by (cases "el_timers L") auto
  with nearest_loop_spec [of n ts] assms(2) show ?thesis by (simp add: aeSearchNearestTimer_def)
qed

lemma wait_time_ms:
  assumes "ms_ok te" "0 \<le> n" "n < 1000"
  shows "(case wait_time te (s, n) of (sec, usec) \<Rightarrow> sec * 1000 + usec sdiv 1000)
    = (let d = when_of te - (s * 1000 + n) in if 0 \<le> d then d else d mod 1000)"
proof -
  define r where "r = (if te_when_ms te < n then te_when_ms te + 1000 - n else te_when_ms te - n)"
  define q where "q = (if te_when_ms te < n then te_when_sec te - s - 1 else te_when_sec te - s)"
  have r: "0 \<le> r" "r < 1000" using assms by (auto simp: r_def ms_ok_def)
  have d: "when_of te - (s * 1000 + n) = q * 1000 + r" by (simp add: q_def r_def)
  have w: "wait_time te (s, n) = (if q < 0 then 0 else q, r * 1000)"
    using r by (cases "te_when_ms te < n") (simp_all add: wait_time_def Let_def q_def r_def)
  have "(q * 1000 + r) mod 1000 = r" using r by simp
  moreover have "0 \<le> q * 1000 + r \<longleftrightarrow> 0 \<le> q" using r by linarith
  ultimately show ?thesis
    unfolding w d Let_def using r by (auto simp: sdiv_pos)
qed

text \<open>With timers set, the timeout of \<open>epoll_wait\<close> in a round of all events is the time to the
  nearest timer in milliseconds, converted to \<open>int\<close>; when that timer is overdue the timeout is not
  0: it is the overdue time modulo one second, up to 999 milliseconds.\<close>

theorem ae_sleep:
  assumes "el_timers L \<noteq> []" "\<forall>te \<in> set (el_timers L). ms_ok te" "clock_ok now"
  shows "el_waits (snd (aeApiPoll (fst (poll_timeout now AE_ALL_EVENTS L)) evs (snd (poll_timeout now AE_ALL_EVENTS L))))
    = to_i32 (let d = Min (when_of ` set (el_timers L)) - clock_ms now (el_tick L)
              in if 0 \<le> d then d else d mod 1000) # el_waits L"
proof -
  obtain m where m: "aeSearchNearestTimer L = Some m" "m \<in> set (el_timers L)"
    "\<forall>te \<in> set (el_timers L). when_of m \<le> when_of te"
    using nearest_spec [OF assms(1,2)] by blast
  have "Min (when_of ` set (el_timers L)) = when_of m"
    using m(2,3) by (intro Min_eqI) auto
  moreover have "(case wait_time m (fst (now (el_tick L)), snd (now (el_tick L)) sdiv 1000) of
      (sec, usec) \<Rightarrow> sec * 1000 + usec sdiv 1000)
    = (let d = when_of m - clock_ms now (el_tick L) in if 0 \<le> d then d else d mod 1000)"
    unfolding clock_ms_def
    using wait_time_ms [of m] assms(2) m(2) clock_ms_range [OF assms(3)] by simp
  ultimately show ?thesis
    using m(1) by (simp add: poll_timeout_def aeGetTime_def aeApiPoll_def Let_def case_prod_unfold)
qed

definition late_timer :: "(string, unit) aeEventLoop" where
  "late_timer = new_loop\<lparr>el_timeEventNextId := 1, el_timers := [\<lparr>te_id = 0, te_when_sec = 10,
     te_when_ms = 500, te_timeProc = ''cron'', te_finalizerProc = None, te_clientData = None\<rparr>]\<rparr>"

theorem ae_sleep_witness:
  "el_waits (snd (aeApiPoll (fst (poll_timeout (\<lambda>_. (12, 300000)) AE_ALL_EVENTS late_timer)) []
     (snd (poll_timeout (\<lambda>_. (12, 300000)) AE_ALL_EVENTS late_timer)))) = [200]"
  using ae_sleep [of late_timer "\<lambda>_. (12, 300000)" "[]"]
  by (simp add: late_timer_def new_loop_def ms_ok_def clock_ok_def clock_ms_def sdiv_pos to_i32_def)

text \<open>The timers a pass of \<open>processTimeEvents\<close> may fire.\<close>

definition old_timers :: "int \<Rightarrow> ('p, 'c) aeEventLoop \<Rightarrow> ('p, 'c) aeTimeEvent list" where
  "old_timers maxId L = filter (\<lambda>t. te_id t \<le> maxId) (el_timers L)"

text \<open>Handlers that are done after one call: they may set new timers, whose ids are beyond \<open>maxId\<close>,
  and leave the other timers alone.\<close>

definition one_shot :: "('p, 'c, 'w) handlers \<Rightarrow> int \<Rightarrow> bool" where
  "one_shot H maxId \<longleftrightarrow> (\<forall>p i d L w. \<exists>L' w' new. h_time H p i d (L, w) = Inr (AE_NOMORE, L', w')
     \<and> el_timers L' = new @ el_timers L \<and> (\<forall>t \<in> set new. te_id t > maxId \<and> te_finalizerProc t = None))"

definition timers_ok :: "('p, 'c) aeTimeEvent list \<Rightarrow> bool" where
  "timers_ok ts \<longleftrightarrow> (\<forall>t \<in> set ts. te_finalizerProc t = None)"

lemma drop_timer_spec:
  "i \<in> te_id ` set ts \<Longrightarrow> \<exists>us t vs. ts = us @ t # vs \<and> te_id t = i \<and> drop_timer i ts = Some (t, us @ vs)"
proof (induction ts)
  case (Cons te ts)
  show ?case
  proof (cases "te_id te = i")
    case True
    then show ?thesis by (intro exI [of _ "[]"] exI [of _ te] exI [of _ ts]) simp
  next
    case False
    with Cons obtain us t vs where "ts = us @ t # vs" "te_id t = i" "drop_timer i ts = Some (t, us @ vs)" by auto
    with False show ?thesis by (intro exI [of _ "te # us"] exI [of _ t] exI [of _ vs]) simp
  qed
qed simp

lemma fire_timer_old:
  assumes H: "one_shot H maxId" and te: "te \<in> set (el_timers L)" "te_id te \<le> maxId" and ok: "timers_ok (el_timers L)"
  shows "\<exists>s2 s3. h_time H (te_timeProc te) (te_id te) (te_clientData te) (L, w) = Inr (AE_NOMORE, s2)
    \<and> aeDeleteTimeEvent H (te_id te) s2 = Inr (AE_OK, s3)
    \<and> length (old_timers maxId L) = Suc (length (old_timers maxId (fst s3))) \<and> timers_ok (el_timers (fst s3))"
proof -
  obtain L' w' new where h: "h_time H (te_timeProc te) (te_id te) (te_clientData te) (L, w) = Inr (AE_NOMORE, L', w')"
    "el_timers L' = new @ el_timers L" "\<forall>t \<in> set new. te_id t > maxId \<and> te_finalizerProc t = None"
    using H unfolding one_shot_def by blast
  obtain us t vs where d: "el_timers L' = us @ t # vs" "te_id t = te_id te"
    "drop_timer (te_id te) (el_timers L') = Some (t, us @ vs)"
    using drop_timer_spec [of "te_id te" "el_timers L'"] te(1) h(2) by auto
  have ok': "timers_ok (el_timers L')" using ok h(2,3) by (auto simp: timers_ok_def)
  then have "te_finalizerProc t = None" using d(1) by (auto simp: timers_ok_def)
  then have "aeDeleteTimeEvent H (te_id te) (L', w') = Inr (AE_OK, L'\<lparr>el_timers := us @ vs\<rparr>, w')"
    using d(3) by (simp add: aeDeleteTimeEvent_def)
  moreover have "filter (\<lambda>t. te_id t \<le> maxId) new = []"
    using h(3) by (auto simp: filter_empty_conv not_le)
  then have "old_timers maxId L = filter (\<lambda>t. te_id t \<le> maxId) (us @ t # vs)"
    using d(1) h(2) by (metis append_Nil filter_append old_timers_def)
  then have "length (old_timers maxId L) = Suc (length (old_timers maxId (L'\<lparr>el_timers := us @ vs\<rparr>)))"
    using d(2) te(2) by (simp add: old_timers_def)
  moreover have "timers_ok (us @ vs)" using ok' d(1) by (auto simp: timers_ok_def)
  ultimately show ?thesis
    using h(1) by (intro exI [of _ "(L', w')"] exI [of _ "(L'\<lparr>el_timers := us @ vs\<rparr>, w')"]) simp
qed

lemma old_timers_tick [simp]: "old_timers maxId (L\<lparr>el_tick := t\<rparr>) = old_timers maxId L"
  by (simp add: old_timers_def)

lemma time_loop_one_shot:
  assumes H: "one_shot H maxId"
  shows "\<lbrakk>length (old_timers maxId (fst s)) = n; set ts \<subseteq> set (el_timers (fst s));
      timers_ok (el_timers (fst s))\<rbrakk> \<Longrightarrow>
    \<exists>fuel k s'. time_loop H now fuel maxId ts p s = Inr (Some (p + k, s'))
      \<and> n = k + length (old_timers maxId (fst s'))"
proof (induction n arbitrary: ts p s rule: less_induct)
  case (less n)
  show ?case
    using less.prems
  proof (induction ts arbitrary: s)
    case Nil
    then show ?case by (intro exI [of _ 1] exI [of _ 0] exI [of _ s]) simp
  next
    case (Cons te ts)
    obtain L w where s: "s = (L, w)" by (cases s)
    let ?L1 = "L\<lparr>el_tick := Suc (el_tick L)\<rparr>"
    have te: "te \<in> set (el_timers ?L1)" "timers_ok (el_timers ?L1)" using Cons.prems s by auto
    consider (young) "te_id te > maxId"
      | (due) "te_id te \<le> maxId" "fst (fst (aeGetTime now L)) > te_when_sec te \<or>
          fst (fst (aeGetTime now L)) = te_when_sec te \<and> snd (fst (aeGetTime now L)) \<ge> te_when_ms te"
      | (later) "te_id te \<le> maxId" "\<not> (fst (fst (aeGetTime now L)) > te_when_sec te \<or>
          fst (fst (aeGetTime now L)) = te_when_sec te \<and> snd (fst (aeGetTime now L)) \<ge> te_when_ms te)"
      by linarith
    then show ?case
    proof cases
      case young
      obtain fuel k s' where "time_loop H now fuel maxId ts p s = Inr (Some (p + k, s'))"
        "n = k + length (old_timers maxId (fst s'))"
        using Cons.IH [of s] Cons.prems by auto
      with young show ?thesis by (intro exI [of _ "Suc fuel"] exI [of _ k] exI [of _ s']) simp
    next
      case later
      obtain fuel k s' where "time_loop H now fuel maxId ts p (?L1, w) = Inr (Some (p + k, s'))"
        "n = k + length (old_timers maxId (fst s'))"
        using Cons.IH [of "(?L1, w)"] Cons.prems s by auto
      with later s show ?thesis
        by (intro exI [of _ "Suc fuel"] exI [of _ k] exI [of _ s']) (auto simp: aeGetTime_def Let_def)
    next
      case due
      obtain s2 s3 where f: "h_time H (te_timeProc te) (te_id te) (te_clientData te) (?L1, w) = Inr (AE_NOMORE, s2)"
        "aeDeleteTimeEvent H (te_id te) s2 = Inr (AE_OK, s3)"
        "length (old_timers maxId ?L1) = Suc (length (old_timers maxId (fst s3)))" "timers_ok (el_timers (fst s3))"
        using fire_timer_old [OF H te(1) due(1) te(2)] by blast
      have "length (old_timers maxId (fst s3)) < n" using f(3) Cons.prems(1) s by simp
      from less.IH [OF this refl subset_refl f(4), of "Suc p"] obtain fuel k s' where
        g: "time_loop H now fuel maxId (el_timers (fst s3)) (Suc p) s3 = Inr (Some (Suc p + k, s'))"
        "length (old_timers maxId (fst s3)) = k + length (old_timers maxId (fst s'))" by blast
      have "time_loop H now (Suc fuel) maxId (te # ts) p s = Inr (Some (Suc p + k, s'))"
        using due f(1,2) g(1) s by (auto simp: aeGetTime_def Let_def)
      then show ?thesis
        using f(3) g(2) Cons.prems(1) s
        by (intro exI [of _ "Suc fuel"] exI [of _ "Suc k"] exI [of _ s']) simp
    qed
  qed
qed

text \<open>When every handler is done after one call, a pass over the time events ends, whatever the
  clock does and however many new timers the handlers set: it fires each timer that was set before
  the pass at most once, removes exactly the ones it fired and counts them.\<close>

theorem ae_timers_end:
  assumes "one_shot H (el_timeEventNextId (fst s) - 1)" "timers_ok (el_timers (fst s))"
  shows "\<exists>fuel k s'. processTimeEvents H now fuel s = Inr (Some (k, s')) \<and>
    length (old_timers (el_timeEventNextId (fst s) - 1) (fst s))
      = k + length (old_timers (el_timeEventNextId (fst s) - 1) (fst s'))"
  using time_loop_one_shot [OF assms(1) refl subset_refl assms(2), of now 0]
  by (simp add: processTimeEvents_def)

theorem ae_timers_end_witness:
  "\<exists>fuel k s'. processTimeEvents withdrawing (\<lambda>_. (12, 300000)) fuel (late_timer, ()) = Inr (Some (k, s')) \<and>
    length (old_timers 0 late_timer) = k + length (old_timers 0 (fst s'))"
proof -
  have "one_shot withdrawing 0"
    unfolding one_shot_def
  proof (intro allI)
    fix p i d and L :: "(string, unit) aeEventLoop" and w :: unit
    show "\<exists>L' w' new. h_time withdrawing p i d (L, w) = Inr (AE_NOMORE, L', w')
      \<and> el_timers L' = new @ el_timers L \<and> (\<forall>t \<in> set new. 0 < te_id t \<and> te_finalizerProc t = None)"
      by (intro exI [of _ L] exI [of _ w] exI [of _ "[]"]) (simp add: withdrawing_def)
  qed
  then show ?thesis
    using ae_timers_end [of withdrawing "(late_timer, ())" "\<lambda>_. (12, 300000)"]
    by (simp add: late_timer_def new_loop_def timers_ok_def)
qed

lemma again_at_once:
  assumes clock: "clock_ok now" "\<forall>t. clock_ms now t \<le> clock_ms now (Suc t)"
    and H: "\<forall>p i d s. h_time H p i d s = Inr (0, s)"
  shows "\<lbrakk>el_timers L = [te]; te_id te \<le> maxId; ms_ok te; when_of te \<le> clock_ms now (el_tick L)\<rbrakk> \<Longrightarrow>
    time_loop H now fuel maxId (el_timers L) p (L, w) = Inr None"
proof (induction fuel arbitrary: L te p w)
  case (Suc fuel)
  let ?t = "el_tick L"
  let ?te = "te\<lparr>te_when_sec := fst (now (Suc ?t)), te_when_ms := snd (now (Suc ?t)) sdiv 1000\<rparr>"
  let ?L = "L\<lparr>el_tick := Suc (Suc ?t), el_timers := [?te]\<rparr>"
  have rs: "0 \<le> snd (now ?t) sdiv 1000" "snd (now ?t) sdiv 1000 < 1000"
    "0 \<le> snd (now (Suc ?t)) sdiv 1000" "snd (now (Suc ?t)) sdiv 1000 < 1000"
    using clock_ms_range [OF clock(1)] by auto
  have due: "fst (now ?t) > te_when_sec te \<or>
      fst (now ?t) = te_when_sec te \<and> snd (now ?t) sdiv 1000 \<ge> te_when_ms te"
    using Suc.prems(3,4) rs unfolding clock_ms_def ms_ok_def by linarith
  have "when_of ?te \<le> clock_ms now (Suc (Suc ?t))"
    using clock(2) by (simp add: clock_ms_def)
  then have "time_loop H now fuel maxId (el_timers ?L) (Suc p) (?L, w) = Inr None"
    using Suc.prems(2) rs by (intro Suc.IH [of ?L ?te]) (simp_all add: ms_ok_def)
  moreover have "reschedule now 0 (te_id te) (L\<lparr>el_tick := Suc ?t\<rparr>) = Inr ?L"
    using Suc.prems(1) rs
    by (simp add: reschedule_def aeAddMillisecondsToNow_def aeGetTime_def Let_def
        signed_divide_int_def signed_modulo_int_def)
  ultimately show ?case
    using Suc.prems(1,2) H due by (simp add: aeGetTime_def Let_def)
qed simp

text \<open>A timer whose handler answers 0, to be called again at once, is due again when the walk
  restarts: with any clock that does not go back the pass never ends, although the comment in
  \<open>processTimeEvents\<close> promises that it does not loop.\<close>

theorem ae_timer_zero:
  assumes "clock_ok now" "\<forall>t. clock_ms now t \<le> clock_ms now (Suc t)"
    and "\<forall>p i d s. h_time H p i d s = Inr (0, s)"
    and "el_timers L = [te]" "te_id te < el_timeEventNextId L" "ms_ok te"
    and "when_of te \<le> clock_ms now (el_tick L)"
  shows "processTimeEvents H now fuel (L, w) = Inr None"
  using again_at_once [OF assms(1-4), of "el_timeEventNextId L - 1" fuel 0 w] assms(5-7)
  by (simp add: processTimeEvents_def)

definition impatient :: "(string, unit, unit) handlers" where
  "impatient = \<lparr>h_file = (\<lambda>p fd d m s. Inr s), h_time = (\<lambda>p i d s. Inr (0, s)),
     h_final = (\<lambda>p d s. Inr s), h_before = (\<lambda>p s. Inr s)\<rparr>"

theorem ae_timer_zero_witness:
  "processTimeEvents impatient (\<lambda>t. (12 + int t, 300000)) 1000000 (late_timer, ()) = Inr None"
  by (rule ae_timer_zero [of _ _ _ "\<lparr>te_id = 0, te_when_sec = 10, te_when_ms = 500, te_timeProc = ''cron'',
      te_finalizerProc = None, te_clientData = None\<rparr>"])
    (simp_all add: impatient_def late_timer_def new_loop_def ms_ok_def clock_ok_def clock_ms_def sdiv_pos)

text \<open>\<open>AE_SETSIZE\<close> is ten times the size of an \<open>fd_set\<close>: for the descriptors above 1023 that the loop
  accepts, \<open>aeWait\<close> writes outside its sets.\<close>

lemma aeWait_overrun:
  "1024 \<le> fd \<Longrightarrow> fd < AE_SETSIZE \<Longrightarrow> aeWait answer fd AE_READABLE = Inl Buffer_overflow"
  by (simp add: aeWait_def)

end
