(* ===== verification/Conns.thy ===== *)
theory Conns
  imports AeLoop
begin

section \<open>The connections of a server\<close>

text \<open>
  The four servers keep their clients the same way: an event loop whose entries point to client
  structures on the heap, a counter, one descriptor per client. \<open>conns\<close> is that part of their
  state (each server extends it); the locale \<open>client_table\<close> has the invariant every server needs
  of it, for any type of clients and any condition on a single client, and how the invariant
  follows a client that comes, changes or goes. The servers interpret it.
\<close>

subsection \<open>State\<close>

text \<open>\<open>sv_open\<close> are the descriptors of the event thread, \<open>sv_sent\<close> the bytes written to each client
  since it was created.\<close>

record ('p, 'c) conns =
  sv_el :: "('p, nat) aeEventLoop"
  sv_clients :: "32 word"
  sv_heap :: "nat \<Rightarrow> 'c option"
  sv_open :: "int set"
  sv_sent :: "nat \<Rightarrow> string"

definition client_at :: "nat \<Rightarrow> ('p, 'c, 'z) conns_scheme \<Rightarrow> 'c res" where
  "client_at a s = (case sv_heap s a of None \<Rightarrow> Inl Use_after_free | Some c \<Rightarrow> Inr c)"

definition put :: "nat \<Rightarrow> 'c \<Rightarrow> ('p, 'c, 'z) conns_scheme \<Rightarrow> ('p, 'c, 'z) conns_scheme" where
  "put a c s = s\<lparr>sv_heap := (sv_heap s)(a \<mapsto> c)\<rparr>"

text \<open>The two uses of the event table; the result of the second is \<open>AE_OK\<close> or \<open>AE_ERR\<close>.\<close>

definition unregister :: "int \<Rightarrow> 32 word \<Rightarrow> ('p, 'c, 'z) conns_scheme \<Rightarrow> ('p, 'c, 'z) conns_scheme res" where
  "unregister fd msk s = fmap (\<lambda>L. s\<lparr>sv_el := L\<rparr>) (aeDeleteFileEvent True (sv_el s) fd msk)"

definition register :: "bool \<Rightarrow> int \<Rightarrow> 32 word \<Rightarrow> 'p \<Rightarrow> nat option \<Rightarrow> ('p, 'c, 'z) conns_scheme
  \<Rightarrow> (int \<times> ('p, 'c, 'z) conns_scheme) res" where
  "register ok fd msk p d s = fmap (\<lambda>(r, L). (r, s\<lparr>sv_el := L\<rparr>)) (aeCreateFileEvent ok (sv_el s) fd msk p d)"

lemma client_at_Some [simp]: "sv_heap s a = Some c \<Longrightarrow> client_at a s = Inr c"
  by (simp add: client_at_def)

lemma put_simps [simp]: "sv_heap (put a c s) = (sv_heap s)(a \<mapsto> c)" "sv_el (put a c s) = sv_el s"
  "sv_open (put a c s) = sv_open s" "sv_clients (put a c s) = sv_clients s" "sv_sent (put a c s) = sv_sent s"
  "conns.more (put a c s) = conns.more s"
  by (simp_all add: put_def)

subsection \<open>The event table under register and unregister\<close>

lemma register_ok:
  assumes "loop_inv (sv_el s)" "0 \<le> fd" "fd < AE_SETSIZE" "msk \<noteq> 0"
  shows "\<exists>L. register True fd msk p d s = Inr (AE_OK, s\<lparr>sv_el := L\<rparr>) \<and> loop_inv L
    \<and> el_events L = (el_events (sv_el s))(fd := reg_entry (el_events (sv_el s) fd) msk p d)"
  using create_inv [OF assms(1,4,2), of True p d] aeCreateFileEvent_ok [OF assms(2,3), of True "sv_el s" msk p d]
  by (auto simp: register_def)

lemma register_refused:
  assumes "loop_inv (sv_el s)" "0 \<le> fd" "msk \<noteq> 0" "\<not> ok \<or> AE_SETSIZE \<le> fd"
  shows "\<exists>L. register ok fd msk p d s = Inr (AE_ERR, s\<lparr>sv_el := L\<rparr>) \<and> loop_inv L
    \<and> el_events L = el_events (sv_el s)"
proof (cases "AE_SETSIZE \<le> fd")
  case True
  then show ?thesis
    using assms(1) by (intro exI [of _ "sv_el s"]) (simp add: register_def aeCreateFileEvent_def)
next
  case False
  then have "fd < AE_SETSIZE" "\<not> ok" using assms(4) by auto
  with create_inv [OF assms(1,3,2), of ok p d] aeCreateFileEvent_ok [OF assms(2), of ok "sv_el s" msk p d]
  show ?thesis by (auto simp: register_def)
qed

lemma aeDelete_others:
  "aeDeleteFileEvent ok L fd msk = Inr L' \<Longrightarrow> g \<noteq> fd \<Longrightarrow> el_events L' g = el_events L g"
  by (auto simp: aeDeleteFileEvent_def Let_def aeApiDelEvent_def split: if_splits)

lemma unregister_ok:
  assumes "loop_inv (sv_el s)" "0 \<le> fd"
  shows "\<exists>L. unregister fd msk s = Inr (s\<lparr>sv_el := L\<rparr>) \<and> loop_inv L
    \<and> (\<forall>g. g \<noteq> fd \<longrightarrow> el_events L g = el_events (sv_el s) g)
    \<and> mask_of L fd = mask_of (sv_el s) fd AND NOT msk"
  using delete_inv [OF assms, of msk] aeDelete_others [of True "sv_el s" fd msk]
  by (auto simp: unregister_def)

text \<open>Both bits cleared.\<close>

lemma unregister_both:
  assumes "loop_inv (sv_el s)" "0 \<le> fd" "mask_of (sv_el s) fd \<in> {0, 1, 2}"
    and ms: "(m1, m2) = (AE_READABLE, AE_WRITABLE) \<or> (m1, m2) = (AE_WRITABLE, AE_READABLE)"
  shows "\<exists>L1 L. unregister fd m1 s = Inr (s\<lparr>sv_el := L1\<rparr>)
    \<and> unregister fd m2 (s\<lparr>sv_el := L1\<rparr>) = Inr (s\<lparr>sv_el := L\<rparr>)
    \<and> loop_inv L \<and> (\<forall>g. g \<noteq> fd \<longrightarrow> el_events L g = el_events (sv_el s) g) \<and> mask_of L fd = 0"
proof -
  obtain L1 where L1: "unregister fd m1 s = Inr (s\<lparr>sv_el := L1\<rparr>)" "loop_inv L1"
    "\<forall>g. g \<noteq> fd \<longrightarrow> el_events L1 g = el_events (sv_el s) g" "mask_of L1 fd = mask_of (sv_el s) fd AND NOT m1"
    using unregister_ok [OF assms(1,2), of m1] by blast
  have "loop_inv (sv_el (s\<lparr>sv_el := L1\<rparr>))" using L1(2) by simp
  from unregister_ok [OF this assms(2), of m2] obtain L where
    "unregister fd m2 (s\<lparr>sv_el := L1\<rparr>) = Inr (s\<lparr>sv_el := L\<rparr>)" "loop_inv L"
    "\<forall>g. g \<noteq> fd \<longrightarrow> el_events L g = el_events L1 g" "mask_of L fd = mask_of L1 fd AND NOT m2" by auto
  moreover have "mask_of (sv_el s) fd AND NOT m1 AND NOT m2 = 0"
    using assms(3) ms by auto
  ultimately show ?thesis using L1 by (auto simp: and.assoc)
qed

subsection \<open>The invariant\<close>

definition entry :: "('p, nat) aeEventLoop \<Rightarrow> int \<Rightarrow> 32 word \<Rightarrow> 'p \<Rightarrow> nat option \<Rightarrow> bool" where
  "entry L fd msk p d \<longleftrightarrow> mask_of L fd = msk \<and> fe_clientData (el_events L fd) = d
     \<and> (msk = AE_READABLE \<longrightarrow> fe_rfileProc (el_events L fd) = Some p)
     \<and> (msk = AE_WRITABLE \<longrightarrow> fe_wfileProc (el_events L fd) = Some p)"

lemma entry_readable: "entry L fd AE_READABLE p d \<Longrightarrow> registered L q fd msk \<Longrightarrow> q = p"
  using mask_and_bit [of 1 msk 2] by (auto simp: entry_def registered_def)

lemma entry_writable: "entry L fd AE_WRITABLE p d \<Longrightarrow> registered L q fd msk \<Longrightarrow> q = p"
  using mask_and_bit [of 2 msk 1] by (auto simp: entry_def registered_def)

lemma registered_mask: "registered L p fd msk \<Longrightarrow> mask_of L fd \<noteq> 0"
  by (auto simp: registered_def)

text \<open>\<open>roots\<close> are the descriptors that are not clients (the listening socket, a pipe) with their
  handlers, \<open>fdf\<close> gives a client's descriptor.\<close>

definition fd_inv :: "(int \<Rightarrow> 'p option) \<Rightarrow> ('c \<Rightarrow> int) \<Rightarrow> ('p, 'c, 'z) conns_scheme \<Rightarrow> bool" where
  "fd_inv roots fdf s \<longleftrightarrow>
     (\<forall>fd p. roots fd = Some p \<longrightarrow> fd \<in> sv_open s \<and> entry (sv_el s) fd AE_READABLE p None)
     \<and> (\<forall>a c. sv_heap s a = Some c \<longrightarrow> 0 \<le> fdf c \<and> fdf c < AE_SETSIZE \<and> fdf c \<in> sv_open s \<and> roots (fdf c) = None)
     \<and> (\<forall>a b c d. sv_heap s a = Some c \<longrightarrow> sv_heap s b = Some d \<longrightarrow> fdf c = fdf d \<longrightarrow> a = b)
     \<and> (\<forall>fd. mask_of (sv_el s) fd \<noteq> 0 \<longrightarrow> roots fd \<noteq> None \<or> (\<exists>a c. sv_heap s a = Some c \<and> fdf c = fd))
     \<and> finite (dom (sv_heap s)) \<and> sv_clients s = of_nat (card (dom (sv_heap s)))"

text \<open>\<open>st\<close> gives each client its stage, \<open>ok\<close> says what a stage means: of the client's entry in the
  table, its data and what it has been sent.\<close>

definition cli_inv :: "(int \<Rightarrow> 'p option) \<Rightarrow> ('c \<Rightarrow> int)
  \<Rightarrow> (('p, nat) aeEventLoop \<Rightarrow> string \<Rightarrow> nat \<Rightarrow> 'c \<Rightarrow> 'g \<Rightarrow> bool) \<Rightarrow> (nat \<Rightarrow> 'g option)
  \<Rightarrow> ('p, 'c, 'z) conns_scheme \<Rightarrow> bool" where
  "cli_inv roots fdf ok st s \<longleftrightarrow> loop_inv (sv_el s) \<and> fd_inv roots fdf s \<and> dom st = dom (sv_heap s)
     \<and> (\<forall>a c g. sv_heap s a = Some c \<longrightarrow> st a = Some g \<longrightarrow> ok (sv_el s) (sv_sent s a) a c g)"

locale client_table =
  fixes fdf :: "'c \<Rightarrow> int"
    and ok :: "('p, nat) aeEventLoop \<Rightarrow> string \<Rightarrow> nat \<Rightarrow> 'c \<Rightarrow> 'g \<Rightarrow> bool"
  assumes ok_cong: "el_events L' (fdf c) = el_events L (fdf c) \<Longrightarrow> ok L' out a c g = ok L out a c g"
    and ok_mask: "ok L out a c g \<Longrightarrow> mask_of L (fdf c) \<in> {0, 1, 2}"
begin

lemma cli_fd:
  assumes "cli_inv roots fdf ok st s" "sv_heap s a = Some c"
  shows "0 \<le> fdf c" "fdf c < AE_SETSIZE" "fdf c \<in> sv_open s" "roots (fdf c) = None"
    "loop_inv (sv_el s)" "\<exists>g. st a = Some g \<and> ok (sv_el s) (sv_sent s a) a c g"
proof -
  have "a \<in> dom st" using assms by (auto simp: cli_inv_def)
  then obtain g where "st a = Some g" by auto
  with assms show "\<exists>g. st a = Some g \<and> ok (sv_el s) (sv_sent s a) a c g"
    by (auto simp: cli_inv_def)
qed (use assms in \<open>auto simp: cli_inv_def fd_inv_def\<close>)

lemma cli_live:
  assumes "cli_inv roots fdf ok st s" "st a = Some g"
  shows "\<exists>c. sv_heap s a = Some c"
proof -
  have "a \<in> dom (sv_heap s)" using assms unfolding cli_inv_def by (metis domI)
  then show ?thesis by auto
qed

lemma cli_other:
  assumes "cli_inv roots fdf ok st s" "sv_heap s a = Some c" "sv_heap s b = Some d" "a \<noteq> b"
  shows "fdf d \<noteq> fdf c"
  using assms unfolding cli_inv_def fd_inv_def by metis

lemma fd_inv_update:
  assumes fi: "fd_inv roots fdf s" and a: "sv_heap s a = Some c"
    and ev: "\<And>g. g \<noteq> fdf c \<Longrightarrow> el_events (sv_el s') g = el_events (sv_el s) g"
    and s': "sv_heap s' = (sv_heap s)(a \<mapsto> c')" "fdf c' = fdf c" "sv_open s' = sv_open s"
      "sv_clients s' = sv_clients s"
  shows "fd_inv roots fdf s'"
proof -
  have n: "roots g \<noteq> None \<Longrightarrow> g \<noteq> fdf c" for g using fi a by (auto simp: fd_inv_def)
  have old: "\<exists>d. sv_heap s b = Some d \<and> fdf d = fdf e" if "sv_heap s' b = Some e" for b e
    using that a s'(1,2) by (auto split: if_splits)
  have inj: "a' = b" if "sv_heap s' a' = Some x" "sv_heap s' b = Some y" "fdf x = fdf y" for a' b x y
    using old [OF that(1)] old [OF that(2)] that(3) fi unfolding fd_inv_def by metis
  have mask: "roots fd \<noteq> None \<or> (\<exists>b d. sv_heap s' b = Some d \<and> fdf d = fd)"
    if m: "mask_of (sv_el s') fd \<noteq> 0" for fd
  proof (cases "fd = fdf c")
    case True
    then show ?thesis using s'(1,2) by (metis fun_upd_same)
  next
    case False
    then have "mask_of (sv_el s) fd \<noteq> 0" using m ev by simp
    then consider "roots fd \<noteq> None" | b d where "sv_heap s b = Some d" "fdf d = fd"
      using fi unfolding fd_inv_def by blast
    then show ?thesis
    proof cases
      case 2
      then have "b \<noteq> a" using False a by auto
      then show ?thesis using 2 s'(1) by (metis fun_upd_other)
    qed blast
  qed
  have dom: "dom (sv_heap s') = dom (sv_heap s)" using a s'(1) by auto
  show ?thesis
    unfolding fd_inv_def dom s'(3,4)
  proof (intro conjI)
    show "\<forall>fd p. roots fd = Some p \<longrightarrow> fd \<in> sv_open s \<and> entry (sv_el s') fd AE_READABLE p None"
      using fi n ev by (auto simp: fd_inv_def entry_def)
    show "\<forall>b d. sv_heap s' b = Some d \<longrightarrow> 0 \<le> fdf d \<and> fdf d < AE_SETSIZE \<and> fdf d \<in> sv_open s
        \<and> roots (fdf d) = None"
    proof (intro allI impI)
      fix b d assume "sv_heap s' b = Some d"
      then obtain e where "sv_heap s b = Some e" "fdf e = fdf d" using old by blast
      then show "0 \<le> fdf d \<and> fdf d < AE_SETSIZE \<and> fdf d \<in> sv_open s \<and> roots (fdf d) = None"
        using fi unfolding fd_inv_def by metis
    qed
  qed (use fi inj mask in \<open>auto simp: fd_inv_def\<close>)
qed

lemma cli_update:
  assumes inv: "cli_inv roots fdf ok st s" and a: "sv_heap s a = Some c"
    and ev: "\<And>g. g \<noteq> fdf c \<Longrightarrow> el_events (sv_el s') g = el_events (sv_el s) g"
    and s': "sv_heap s' = (sv_heap s)(a \<mapsto> c')" "fdf c' = fdf c" "sv_open s' = sv_open s"
      "sv_clients s' = sv_clients s" "loop_inv (sv_el s')"
    and sent: "\<And>b. b \<noteq> a \<Longrightarrow> sv_sent s' b = sv_sent s b"
    and new: "ok (sv_el s') (sv_sent s' a) a c' g"
  shows "cli_inv roots fdf ok (st(a \<mapsto> g)) s'"
  unfolding cli_inv_def
proof (intro conjI allI impI)
  show "fd_inv roots fdf s'"
    using inv fd_inv_update [OF _ a ev s'(1-4)] by (simp add: cli_inv_def)
  show "dom (st(a \<mapsto> g)) = dom (sv_heap s')" using inv a s'(1) by (auto simp: cli_inv_def)
  fix b d h assume b: "sv_heap s' b = Some d" "(st(a \<mapsto> g)) b = Some h"
  show "ok (sv_el s') (sv_sent s' b) b d h"
  proof (cases "b = a")
    case True
    then show ?thesis using b s'(1) new by simp
  next
    case False
    then have "sv_heap s b = Some d" "st b = Some h" using b s'(1) by auto
    moreover from this have "fdf d \<noteq> fdf c" using cli_other [OF inv a _, of b d] False by auto
    ultimately show ?thesis
      using inv ok_cong [OF ev] sent [OF False] by (auto simp: cli_inv_def)
  qed
qed (rule s'(5))

lemma cli_free:
  assumes inv: "cli_inv roots fdf ok st s" and a: "sv_heap s a = Some c"
    and ev: "\<And>g. g \<noteq> fdf c \<Longrightarrow> el_events (sv_el s') g = el_events (sv_el s) g" "mask_of (sv_el s') (fdf c) = 0"
    and s': "sv_heap s' = (sv_heap s)(a := None)" "sv_open s' = sv_open s - {fdf c}"
      "sv_clients s' = sv_clients s - 1" "loop_inv (sv_el s')" "sv_sent s' = sv_sent s"
  shows "cli_inv roots fdf ok (st(a := None)) s'"
proof -
  have fi: "fd_inv roots fdf s" using inv by (simp add: cli_inv_def)
  have n: "roots g \<noteq> None \<Longrightarrow> g \<noteq> fdf c" for g using cli_fd(4) [OF inv a] by auto
  have old: "sv_heap s b = Some d \<and> b \<noteq> a \<and> fdf d \<noteq> fdf c" if "sv_heap s' b = Some d" for b d
    using that s'(1) cli_other [OF inv a, of b d] by (auto split: if_splits)
  have mask: "roots fd \<noteq> None \<or> (\<exists>b d. sv_heap s' b = Some d \<and> fdf d = fd)"
    if m: "mask_of (sv_el s') fd \<noteq> 0" for fd
  proof -
    have ne: "fd \<noteq> fdf c" using m ev(2) by auto
    then have "mask_of (sv_el s) fd \<noteq> 0" using m ev by simp
    then consider "roots fd \<noteq> None" | b d where "sv_heap s b = Some d" "fdf d = fd"
      using fi unfolding fd_inv_def by blast
    then show ?thesis
    proof cases
      case 2
      then have "b \<noteq> a" using ne a by auto
      then show ?thesis using 2 s'(1) by (metis fun_upd_other)
    qed blast
  qed
  have dom: "dom (sv_heap s') = dom (sv_heap s) - {a}" using s'(1) by auto
  have fin: "finite (dom (sv_heap s))" "a \<in> dom (sv_heap s)" using fi a by (auto simp: fd_inv_def)
  then have pos: "0 < card (dom (sv_heap s))" by (auto simp: card_gt_0_iff)
  have card: "sv_clients s' = of_nat (card (dom (sv_heap s')))"
    using fi fin pos s'(3) unfolding dom fd_inv_def by (simp add: card_Diff_singleton of_nat_diff Suc_leI)
  have "fd_inv roots fdf s'"
    unfolding fd_inv_def
  proof (intro conjI)
    show "\<forall>fd p. roots fd = Some p \<longrightarrow> fd \<in> sv_open s' \<and> entry (sv_el s') fd AE_READABLE p None"
      using fi n ev s'(2) by (auto simp: fd_inv_def entry_def)
    show "\<forall>b d. sv_heap s' b = Some d \<longrightarrow> 0 \<le> fdf d \<and> fdf d < AE_SETSIZE \<and> fdf d \<in> sv_open s'
        \<and> roots (fdf d) = None"
      using fi old unfolding fd_inv_def s'(2) by blast
    show "\<forall>b e d f. sv_heap s' b = Some d \<longrightarrow> sv_heap s' e = Some f \<longrightarrow> fdf d = fdf f \<longrightarrow> b = e"
      using fi old unfolding fd_inv_def by metis
    show "finite (dom (sv_heap s'))" unfolding dom using fin by simp
  qed (use fi n mask card s'(2) in \<open>auto simp: fd_inv_def\<close>)
  moreover have "dom (st(a := None)) = dom (sv_heap s')" using inv unfolding dom by (auto simp: cli_inv_def)
  moreover have "ok (sv_el s') (sv_sent s' b) b d h"
    if "sv_heap s' b = Some d" "(st(a := None)) b = Some h" for b d h
    using old [OF that(1)] that(2) inv ok_cong [OF ev(1)] s'(5) by (auto simp: cli_inv_def split: if_splits)
  ultimately show ?thesis using s'(4) by (auto simp: cli_inv_def)
qed

lemma clients_bound:
  assumes "cli_inv roots fdf ok st s"
  shows "finite (dom st)" "card (dom st) \<le> 10240"
proof -
  have fi: "fd_inv roots fdf s" and dom: "dom st = dom (sv_heap s)" using assms by (auto simp: cli_inv_def)
  then show fin: "finite (dom st)" by (simp add: fd_inv_def)
  let ?f = "\<lambda>a. nat (fdf (the (sv_heap s a)))"
  have "inj_on ?f (dom st)"
  proof (rule inj_onI)
    fix a b assume "a \<in> dom st" "b \<in> dom st" and eq: "?f a = ?f b"
    then obtain c d where "sv_heap s a = Some c" "sv_heap s b = Some d" unfolding dom by auto
    moreover from this eq have "fdf c = fdf d" using cli_fd(1) [OF assms] by (simp add: nat_eq_iff)
    ultimately show "a = b" using fi unfolding fd_inv_def by metis
  qed
  moreover have "?f ` dom st \<subseteq> {..<10240}"
    unfolding dom using cli_fd(1,2) [OF assms] by (force simp: AE_SETSIZE_def)
  ultimately have "card (dom st) \<le> card {..<10240 :: nat}" by (intro card_inj_on_le) auto
  then show "card (dom st) \<le> 10240" by simp
qed

lemma cli_cong:
  assumes "cli_inv roots fdf ok st s" "loop_inv (sv_el s')" "el_events (sv_el s') = el_events (sv_el s)"
    "sv_heap s' = sv_heap s" "sv_open s' = sv_open s" "sv_clients s' = sv_clients s"
    "\<And>a. a \<in> dom (sv_heap s) \<Longrightarrow> sv_sent s' a = sv_sent s a"
  shows "cli_inv roots fdf ok st s'"
proof -
  have "entry (sv_el s') fd m p d = entry (sv_el s) fd m p d" for fd m p d using assms(3) by (simp add: entry_def)
  then have "fd_inv roots fdf s'" using assms by (simp add: cli_inv_def fd_inv_def)
  moreover have "ok (sv_el s') out a c g = ok (sv_el s) out a c g" for out a c g
    by (rule ok_cong) (simp add: assms(3))
  ultimately show ?thesis using assms by (simp add: cli_inv_def) (metis domI)
qed

lemma cli_new:
  assumes inv: "cli_inv roots fdf ok st s" and a: "sv_heap s a = None" and fd: "fd \<notin> sv_open s" "0 \<le> fd" "fd < AE_SETSIZE"
    and fdc: "fdf c = fd"
    and ev: "\<And>g. g \<noteq> fd \<Longrightarrow> el_events (sv_el s') g = el_events (sv_el s) g"
    and s': "loop_inv (sv_el s')" "sv_heap s' = (sv_heap s)(a \<mapsto> c)" "sv_open s' = insert fd (sv_open s)"
      "sv_clients s' = sv_clients s + 1" "\<And>b. b \<noteq> a \<Longrightarrow> sv_sent s' b = sv_sent s b"
    and new: "ok (sv_el s') (sv_sent s' a) a c g"
  shows "cli_inv roots fdf ok (st(a \<mapsto> g)) s'"
proof -
  have fi: "fd_inv roots fdf s" using inv by (simp add: cli_inv_def)
  have n: "roots g \<noteq> None \<Longrightarrow> g \<noteq> fd" for g using fi fd(1) by (auto simp: fd_inv_def)
  have old: "sv_heap s b = Some d \<and> fdf d \<noteq> fd" if "sv_heap s' b = Some d" "b \<noteq> a" for b d
    using that s'(2) fd(1) cli_fd(3) [OF inv, of b d] by auto
  have "fd_inv roots fdf s'"
    unfolding fd_inv_def
  proof (intro conjI)
    show "\<forall>fd p. roots fd = Some p \<longrightarrow> fd \<in> sv_open s' \<and> entry (sv_el s') fd AE_READABLE p None"
      using fi n ev s'(3) by (auto simp: fd_inv_def entry_def)
    show "\<forall>b d. sv_heap s' b = Some d \<longrightarrow> 0 \<le> fdf d \<and> fdf d < AE_SETSIZE \<and> fdf d \<in> sv_open s'
        \<and> roots (fdf d) = None"
    proof (intro allI impI)
      fix b d assume b: "sv_heap s' b = Some d"
      show "0 \<le> fdf d \<and> fdf d < AE_SETSIZE \<and> fdf d \<in> sv_open s' \<and> roots (fdf d) = None"
      proof (cases "b = a")
        case True
        then have "fdf d = fd" using b s'(2) fdc by simp
        moreover have "roots fd = None" using n [of fd] by blast
        ultimately show ?thesis using s'(3) fd by simp
      next
        case False
        then show ?thesis using old [OF b] cli_fd [OF inv, of b d] s'(3) by auto
      qed
    qed
    show "\<forall>b e d f. sv_heap s' b = Some d \<longrightarrow> sv_heap s' e = Some f \<longrightarrow> fdf d = fdf f \<longrightarrow> b = e"
    proof (intro allI impI)
      fix b e d f assume h: "sv_heap s' b = Some d" "sv_heap s' e = Some f" "fdf d = fdf f"
      have "fdf x = fd" if "sv_heap s' a = Some x" for x
        using that s'(2) fdc by auto
      then have "b = a \<longleftrightarrow> e = a" using h old [OF h(1)] old [OF h(2)] by metis
      then show "b = e"
        using h(3) old [OF h(1)] old [OF h(2)] cli_other [OF inv, of b d e f] by (cases "b = a") auto
    qed
    show "\<forall>g. mask_of (sv_el s') g \<noteq> 0 \<longrightarrow> roots g \<noteq> None \<or> (\<exists>b d. sv_heap s' b = Some d \<and> fdf d = g)"
    proof (intro allI impI)
      fix g assume g: "mask_of (sv_el s') g \<noteq> 0"
      show "roots g \<noteq> None \<or> (\<exists>b d. sv_heap s' b = Some d \<and> fdf d = g)"
      proof (cases "g = fd")
        case True
        have "sv_heap s' a = Some c" "fdf c = fd" using s'(2) fdc by simp_all
        then show ?thesis using True by blast
      next
        case False
        then have "mask_of (sv_el s) g \<noteq> 0" using g ev by simp
        then consider "roots g \<noteq> None" | b d where "sv_heap s b = Some d" "fdf d = g"
          using fi unfolding fd_inv_def by blast
        then show ?thesis
        proof cases
          case 2
          then have "sv_heap s' b = Some d" using s'(2) a by auto
          then show ?thesis using 2 by blast
        qed blast
      qed
    qed
    have "dom (sv_heap s') = insert a (dom (sv_heap s))" "a \<notin> dom (sv_heap s)" using s'(2) a by auto
    then show "finite (dom (sv_heap s'))" "sv_clients s' = of_nat (card (dom (sv_heap s')))"
      using fi s'(4) by (simp_all add: fd_inv_def)
  qed
  moreover have "dom (st(a \<mapsto> g)) = dom (sv_heap s')" using inv s'(2) by (auto simp: cli_inv_def)
  moreover have "ok (sv_el s') (sv_sent s' b) b d h"
    if b: "sv_heap s' b = Some d" "(st(a \<mapsto> g)) b = Some h" for b d h
  proof (cases "b = a")
    case True
    then show ?thesis using b s'(2) new by simp
  next
    case False
    then show ?thesis
      using old [OF b(1) False] b(2) inv s'(5) ok_cong [OF ev, of d] by (auto simp: cli_inv_def)
  qed
  ultimately show ?thesis using s'(1) by (auto simp: cli_inv_def)
qed

text \<open>A registered handler is a root's or that of a client whose mask is not empty.\<close>

lemma registered_root:
  assumes "cli_inv roots fdf ok st s" "registered (sv_el s) p fd msk"
  shows "roots fd = Some p \<or> (\<exists>a c g. sv_heap s a = Some c \<and> fdf c = fd \<and> st a = Some g
    \<and> ok (sv_el s) (sv_sent s a) a c g)"
proof -
  have fi: "fd_inv roots fdf s" using assms(1) by (simp add: cli_inv_def)
  with registered_mask [OF assms(2)] consider q where "roots fd = Some q" | a c where "sv_heap s a = Some c" "fdf c = fd"
    unfolding fd_inv_def by blast
  then show ?thesis
  proof cases
    case 1
    then show ?thesis using fi entry_readable [OF _ assms(2)] by (auto simp: fd_inv_def)
  next
    case 2
    then show ?thesis using cli_fd(6) [OF assms(1)] by blast
  qed
qed

lemma close_client:
  assumes inv: "cli_inv roots fdf ok st s" and a: "sv_heap s a = Some c"
  shows "\<exists>L1 L. unregister (fdf c) AE_READABLE s = Inr (s\<lparr>sv_el := L1\<rparr>)
    \<and> unregister (fdf c) AE_WRITABLE (s\<lparr>sv_el := L1\<rparr>) = Inr (s\<lparr>sv_el := L\<rparr>) \<and> loop_inv L
    \<and> (\<forall>g. g \<noteq> fdf c \<longrightarrow> el_events L g = el_events (sv_el s) g) \<and> mask_of L (fdf c) = 0"
proof -
  obtain g where "ok (sv_el s) (sv_sent s a) a c g" using cli_fd(6) [OF inv a] by blast
  then have "mask_of (sv_el s) (fdf c) \<in> {0, 1, 2}" by (rule ok_mask)
  then show ?thesis
    using unregister_both [OF cli_fd(5,1) [OF inv a], of AE_READABLE AE_WRITABLE] by blast
qed

end

end
