(* ===== verification/ProxyServer.thy ===== *)
theory ProxyServer
  imports Backend Adlist Conns
begin

section \<open>The threaded proxy server (redis-proxy/redis.c)\<close>

text \<open>
  The main thread owns the clients and the event loop; worker threads take clients from
  \<open>io_newjobs\<close>, run the command module on them and put them on \<open>io_processed\<close>, writing one byte
  to a pipe for each. The state is \<open>server\<close>; a client is an address of \<open>sv_heap\<close>, its data in the
  event table is that address. The two queues are the lists of theory Adlist, with the lock
  around each access one step; the threads interleave between these steps (\<open>sstep\<close>). What the
  kernel and \<open>malloc\<close> answer is the argument \<open>answer\<close> of a step. Log output is left out.
\<close>

subsection \<open>State\<close>

datatype proc = AcceptHandler | ReadQueryFromClient | SendReplyToClient | CompletedJob

datatype phase = Waiting | Working nat | Finished nat | Signalling

text \<open>The connections (theory Conns) and what this server adds; \<open>sv_leaks\<close> are buffers whose last
  pointer is gone.\<close>

record server = "(proc, redisClient) conns" +
  sv_maxclients :: "32 word"
  sv_numconnections :: int
  sv_newjobs :: "nat lstate"
  sv_processed :: "nat lstate"
  sv_pipe :: nat
  sv_workers :: "(phase \<times> module) list"
  sv_leaks :: "string list"

record config =
  cf_port :: int
  cf_verbosity :: int
  cf_maxidletime :: int
  cf_daemonize :: bool
  cf_pidfile :: string
  cf_maxclients :: "32 word"
  cf_shutdown_asap :: bool
  cf_vm_max_threads :: nat
  cf_extension :: string

definition REDIS_SERVERPORT :: int where "REDIS_SERVERPORT = 6378"
definition REDIS_MAXIDLETIME :: int where "REDIS_MAXIDLETIME = 60 * 5"
definition REDIS_FATAL :: int where "REDIS_FATAL = 4"
definition READ_BUF_LEN :: nat where "READ_BUF_LEN = 1024"

definition initServerConfig :: config where
  "initServerConfig = \<lparr>cf_port = REDIS_SERVERPORT, cf_verbosity = REDIS_FATAL,
     cf_maxidletime = REDIS_MAXIDLETIME, cf_daemonize = True, cf_pidfile = ''/var/run/redis.pid'',
     cf_maxclients = 0, cf_shutdown_asap = False, cf_vm_max_threads = 100, cf_extension = ''./echo.so''\<rparr>"

subsection \<open>Clients come and go\<close>

text \<open>\<open>free(c->rbuf); c->wbuf=NULL;\<close>: with a request buffer the reply buffer is lost.\<close>

definition freeClient :: "nat \<Rightarrow> server \<Rightarrow> server res" where
  "freeClient a s =
     fbind (client_at a s) (\<lambda>c.
     fbind (unregister (cl_fd c) AE_READABLE s) (\<lambda>s1.
     fbind (unregister (cl_fd c) AE_WRITABLE s1) (\<lambda>s2.
       Inr (s2\<lparr>sv_open := sv_open s2 - {cl_fd c},
         sv_leaks := sv_leaks s2 @ (case (cl_rbuf c, cl_wbuf c) of (Some _, Some w) \<Rightarrow> [w] | _ \<Rightarrow> []),
         sv_heap := (sv_heap s2)(a := None),
         sv_clients := sv_clients s2 - 1\<rparr>))))"

definition new_client :: "int \<Rightarrow> redisClient" where
  "new_client fd = \<lparr>cl_fd = fd, cl_rbuf = None, cl_wbuf = None, cl_rlen = 0, cl_wlen = 0, cl_wpos = 0, cl_last = 0\<rparr>"

text \<open>\<open>None\<close> for \<open>NULL\<close>; when the registration fails the descriptor is closed.\<close>

definition createClient :: "nat option \<Rightarrow> bool \<Rightarrow> int \<Rightarrow> server \<Rightarrow> (nat option \<times> server) res" where
  "createClient mem ok fd s =
     (case mem of None \<Rightarrow> Inr (None, s)
      | Some a \<Rightarrow>
          fbind (register ok fd AE_READABLE ReadQueryFromClient (Some a) s) (\<lambda>(r, s1).
            if r = AE_ERR then Inr (None, s1\<lparr>sv_open := sv_open s1 - {fd}\<rparr>)
            else Inr (Some a, (put a (new_client fd) s1)\<lparr>sv_clients := sv_clients s1 + 1,
                   sv_sent := (sv_sent s1)(a := [])\<rparr>)))"

datatype read_answer = Rd_oom | Rd_error | Rd_again | Rd_bytes string
datatype write_answer = Wr_error | Wr_again | Wr_bytes nat

datatype answer =
    An_accept int "nat option" bool
  | An_read read_answer int "nat option"
  | An_write write_answer int bool
  | An_pipe bool

definition acceptHandler :: "int \<Rightarrow> nat option \<Rightarrow> bool \<Rightarrow> server \<Rightarrow> server res" where
  "acceptHandler cfd mem ok s =
     (if cfd = AE_ERR then Inr s
      else
        fbind (createClient mem ok cfd (s\<lparr>sv_open := insert cfd (sv_open s)\<rparr>)) (\<lambda>(r, s1).
        case r of
          None \<Rightarrow> Inr (s1\<lparr>sv_open := sv_open s1 - {cfd}\<rparr>)
        | Some a \<Rightarrow>
            if sv_maxclients s1 \<noteq> 0 \<and> sv_clients s1 > sv_maxclients s1
            then freeClient a (s1\<lparr>sv_sent := (sv_sent s1)(a :=
              sv_sent s1 a @ ''-ERR max number of clients reached'' @ CRLF)\<rparr>)
            else Inr (s1\<lparr>sv_numconnections := sv_numconnections s1 + 1\<rparr>)))"

subsection \<open>Requests and replies\<close>

definition queueIOJob :: "nat option \<Rightarrow> nat \<Rightarrow> server \<Rightarrow> server res" where
  "queueIOJob mem a s = fmap (\<lambda>r. case r of None \<Rightarrow> s | Some q \<Rightarrow> s\<lparr>sv_newjobs := q\<rparr>)
     (listAddNodeTail mem a (sv_newjobs s))"

definition processInputBuffer :: "nat option \<Rightarrow> nat \<Rightarrow> server \<Rightarrow> server run res" where
  "processInputBuffer mem a s =
     fbind (client_at a s) (\<lambda>c.
     fbind (processRequestBuffer (the (cl_rbuf c)) (cl_rlen c)) (\<lambda>v. case v of
         Proc_exit e \<Rightarrow> Inr (Exited e)
       | Ret v \<Rightarrow>
           if v = - 1 then fmap Done (freeClient a s)
           else fmap Done
             (fbind (if v = - 2 then freeClient a s else Inr s) (\<lambda>s1.
              if v = 1 then
                fbind (unregister (cl_fd c) AE_READABLE s1) (queueIOJob mem a)
              else Inr s1))))"

text \<open>The request buffer after \<open>realloc\<close>, \<open>memset\<close> and \<open>read\<close>.\<close>

definition grow_rbuf :: "string option \<Rightarrow> int \<Rightarrow> string \<Rightarrow> string" where
  "grow_rbuf buf len data = take (nat len) (case buf of None \<Rightarrow> [] | Some b \<Rightarrow> b) @ data
     @ replicate (READ_BUF_LEN - length data) NUL"

definition readQueryFromClient :: "read_answer \<Rightarrow> int \<Rightarrow> nat option \<Rightarrow> nat \<Rightarrow> server \<Rightarrow> server run res" where
  "readQueryFromClient ans now mem a s =
     fbind (client_at a s) (\<lambda>c.
       if cl_rlen c + int READ_BUF_LEN > INT_MAX then Inl Signed_overflow
       else case ans of
         Rd_oom \<Rightarrow> Inl Out_of_memory
       | Rd_error \<Rightarrow> fmap Done (freeClient a (put a (c\<lparr>cl_rbuf := Some (grow_rbuf (cl_rbuf c) (cl_rlen c) [])\<rparr>) s))
       | Rd_again \<Rightarrow> Inr (Done (put a (c\<lparr>cl_rbuf := Some (grow_rbuf (cl_rbuf c) (cl_rlen c) [])\<rparr>) s))
       | Rd_bytes data \<Rightarrow>
           let c1 = c\<lparr>cl_rbuf := Some (grow_rbuf (cl_rbuf c) (cl_rlen c) data)\<rparr> in
           if data = [] then fmap Done (freeClient a (put a c1 s))
           else processInputBuffer mem a
             (put a (c1\<lparr>cl_rlen := cl_rlen c + int (length data), cl_last := now\<rparr>) s))"

definition resetClient :: "bool \<Rightarrow> nat \<Rightarrow> server \<Rightarrow> server res" where
  "resetClient ok a s =
     fbind (client_at a s) (\<lambda>c.
     fbind (unregister (cl_fd c) AE_WRITABLE
       (put a (c\<lparr>cl_rbuf := None, cl_wbuf := None, cl_rlen := 0, cl_wpos := 0, cl_wlen := 0\<rparr>) s)) (\<lambda>s1.
     fbind (unregister (cl_fd c) AE_READABLE s1) (\<lambda>s2.
     fmap snd (register ok (cl_fd c) AE_READABLE ReadQueryFromClient (Some a) s2))))"

text \<open>\<open>write(fd, wbuf + wpos, wlen - wpos)\<close> takes as many bytes as the kernel answers.\<close>

definition sendReplyToClient :: "write_answer \<Rightarrow> int \<Rightarrow> bool \<Rightarrow> nat \<Rightarrow> server \<Rightarrow> server res" where
  "sendReplyToClient ans now ok a s =
     fbind (client_at a s) (\<lambda>c.
     let b = (case cl_wbuf c of None \<Rightarrow> [] | Some b \<Rightarrow> b) in
     if cl_wlen c > int (length b) then Inl Out_of_bounds
     else case ans of
       Wr_error \<Rightarrow> freeClient a s
     | Wr_again \<Rightarrow> if cl_wpos c = cl_wlen c then resetClient ok a s else Inr s
     | Wr_bytes n \<Rightarrow>
         let c1 = (if 0 < n then c\<lparr>cl_last := now, cl_wpos := cl_wpos c + int n\<rparr> else c);
             s1 = (put a c1 s)\<lparr>sv_sent := (sv_sent s)(a := sv_sent s a @ take n (drop (nat (cl_wpos c)) b))\<rparr>
         in if cl_wpos c1 = cl_wlen c1 then resetClient ok a s1 else Inr s1)"

text \<open>One turn of the loop of \<open>vmThreadedIOCompletedJob\<close>: \<open>None\<close> when the pipe is empty.\<close>

definition completed_turn :: "bool \<Rightarrow> server \<Rightarrow> server option res" where
  "completed_turn ok s =
     (if sv_pipe s = 0 then Inr None
      else
        fbind (listPopFirst (sv_processed s)) (\<lambda>r. case r of
            None \<Rightarrow> Inl Assert_failed
          | Some (a, q) \<Rightarrow>
              fbind (client_at a s) (\<lambda>c.
                fmap (\<lambda>(r, s1). Some s1) (register ok (cl_fd c) AE_WRITABLE SendReplyToClient (Some a)
                  (s\<lparr>sv_pipe := sv_pipe s - 1, sv_processed := q\<rparr>)))))"

text \<open>The handler itself, when no worker comes between: one answer of \<open>epoll_ctl\<close> per byte; the
  first refusal ends it.\<close>

fun vmThreadedIOCompletedJob :: "bool list \<Rightarrow> server \<Rightarrow> server res" where
  "vmThreadedIOCompletedJob [] s = Inr s"
| "vmThreadedIOCompletedJob (ok # oks) s = fbind (completed_turn ok s) (\<lambda>r. case r of
       None \<Rightarrow> Inr s
     | Some s1 \<Rightarrow> if ok then vmThreadedIOCompletedJob oks s1 else Inr s1)"

subsection \<open>Worker threads\<close>

text \<open>The locked sections and the steps between them of \<open>IOThreadEntryPoint\<close>. An empty queue leaves
  the thread waiting.\<close>

definition set_worker :: "nat \<Rightarrow> phase \<times> module \<Rightarrow> server \<Rightarrow> server" where
  "set_worker t w s = s\<lparr>sv_workers := (sv_workers s)[t := w]\<rparr>"

definition worker_take :: "nat \<Rightarrow> server \<Rightarrow> server res" where
  "worker_take t s =
     fmap (\<lambda>r. case r of None \<Rightarrow> s
       | Some (a, q) \<Rightarrow> set_worker t (Working a, snd (sv_workers s ! t)) (s\<lparr>sv_newjobs := q\<rparr>))
     (listPopFirst (sv_newjobs s))"

definition worker_run :: "nat \<Rightarrow> attempt list \<Rightarrow> nat \<Rightarrow> server \<Rightarrow> server run res" where
  "worker_run t as a s =
     fbind (client_at a s) (\<lambda>c.
     fmap (\<lambda>r. case r of
         Done (c', m') \<Rightarrow> Done (set_worker t (Finished a, m') (put a c' s))
       | Starved \<Rightarrow> Starved
       | Exited e \<Rightarrow> Exited e)
     (redisCommandProc as c (snd (sv_workers s ! t))))"

definition worker_push :: "nat \<Rightarrow> nat option \<Rightarrow> nat \<Rightarrow> server \<Rightarrow> server res" where
  "worker_push t mem a s =
     fmap (\<lambda>r. set_worker t (Signalling, snd (sv_workers s ! t))
         (case r of None \<Rightarrow> s | Some q \<Rightarrow> s\<lparr>sv_processed := q\<rparr>))
     (listAddNodeTail mem a (sv_processed s))"

definition worker_signal :: "nat \<Rightarrow> server \<Rightarrow> server" where
  "worker_signal t s = set_worker t (Waiting, snd (sv_workers s ! t)) (s\<lparr>sv_pipe := Suc (sv_pipe s)\<rparr>)"

subsection \<open>The steps of the program\<close>

definition run_handler :: "proc \<Rightarrow> nat option \<Rightarrow> answer \<Rightarrow> server \<Rightarrow> server run res" where
  "run_handler p d ans s =
     (case (p, d, ans) of
        (AcceptHandler, _, An_accept cfd mem ok) \<Rightarrow> fmap Done (acceptHandler cfd mem ok s)
      | (ReadQueryFromClient, Some a, An_read r now mem) \<Rightarrow> readQueryFromClient r now mem a s
      | (SendReplyToClient, Some a, An_write w now ok) \<Rightarrow> fmap Done (sendReplyToClient w now ok a s)
      | (CompletedJob, _, An_pipe ok) \<Rightarrow> fmap (\<lambda>r. Done (case r of None \<Rightarrow> s | Some s1 \<Rightarrow> s1)) (completed_turn ok s)
      | _ \<Rightarrow> Inl Null_deref)"

text \<open>The answers the kernel and \<open>malloc\<close> may give: a new descriptor is not open, a new address
  not in use, \<open>write\<close> takes no more than it was offered. The three allocations whose failure the
  code does not handle (a queue node, a registration on a descriptor that was registered before)
  succeed here.\<close>

fun answer_ok :: "nat option \<Rightarrow> answer \<Rightarrow> server \<Rightarrow> bool" where
  "answer_ok d (An_accept cfd mem ok) s \<longleftrightarrow>
     cfd = - 1 \<or> (0 \<le> cfd \<and> cfd \<notin> sv_open s \<and> (\<forall>a. mem = Some a \<longrightarrow> sv_heap s a = None))"
| "answer_ok d (An_read r now mem) s \<longleftrightarrow>
     (\<forall>data. r = Rd_bytes data \<longrightarrow> length data \<le> READ_BUF_LEN)
     \<and> (\<exists>b. mem = Some b \<and> ls_cells (sv_newjobs s) b = None)"
| "answer_ok d (An_write w now ok) s \<longleftrightarrow> ok
     \<and> (\<forall>n a c. w = Wr_bytes n \<longrightarrow> d = Some a \<longrightarrow> sv_heap s a = Some c \<longrightarrow> int n \<le> cl_wlen c - cl_wpos c)"
| "answer_ok d (An_pipe ok) s \<longleftrightarrow> ok"

fun answers :: "proc \<Rightarrow> answer \<Rightarrow> bool" where
  "answers AcceptHandler (An_accept cfd mem ok) = True"
| "answers ReadQueryFromClient (An_read r now mem) = True"
| "answers SendReplyToClient (An_write w now ok) = True"
| "answers CompletedJob (An_pipe ok) = True"
| "answers p a = False"

inductive sstep :: "server \<Rightarrow> server \<Rightarrow> bool" where
  handler: "\<lbrakk>registered (sv_el s) p fd msk; answers p ans;
      answer_ok (fe_clientData (el_events (sv_el s) fd)) ans s;
      run_handler p (fe_clientData (el_events (sv_el s) fd)) ans s = Inr (Done s')\<rbrakk> \<Longrightarrow> sstep s s'"
| take_job: "\<lbrakk>t < length (sv_workers s); fst (sv_workers s ! t) = Waiting; worker_take t s = Inr s'\<rbrakk> \<Longrightarrow> sstep s s'"
| run_job: "\<lbrakk>t < length (sv_workers s); fst (sv_workers s ! t) = Working a;
      worker_run t as a s = Inr (Done s')\<rbrakk> \<Longrightarrow> sstep s s'"
| push_job: "\<lbrakk>t < length (sv_workers s); fst (sv_workers s ! t) = Finished a;
      ls_cells (sv_processed s) b = None; worker_push t (Some b) a s = Inr s'\<rbrakk> \<Longrightarrow> sstep s s'"
| signal: "\<lbrakk>t < length (sv_workers s); fst (sv_workers s ! t) = Signalling\<rbrakk> \<Longrightarrow> sstep s (worker_signal t s)"

text \<open>\<open>initServer\<close>: the listening socket, the pipe, the threads; the two registrations succeed.\<close>

definition initServer :: "int \<Rightarrow> int \<Rightarrow> module list \<Rightarrow> 32 word \<Rightarrow> server res" where
  "initServer lfd pfd mods maxc =
     (let s = \<lparr>sv_el = new_loop, sv_clients = 0, sv_heap = (\<lambda>_. None), sv_open = {lfd, pfd}, sv_sent = (\<lambda>_. []),
        sv_maxclients = maxc, sv_numconnections = 0, sv_newjobs = empty_list, sv_processed = empty_list,
        sv_pipe = 0, sv_workers = map (\<lambda>m. (Waiting, m)) mods, sv_leaks = []\<rparr>
      in fbind (register True lfd AE_READABLE AcceptHandler None s) (\<lambda>(r, s1).
         if r = AE_ERR then Inl Out_of_memory
         else fbind (register True pfd AE_READABLE CompletedJob None s1) (\<lambda>(r2, s2).
           if r2 = AE_ERR then Inl Out_of_memory else Inr s2)))"

inductive reachable :: "int \<Rightarrow> int \<Rightarrow> module list \<Rightarrow> 32 word \<Rightarrow> server \<Rightarrow> bool"
  for lfd pfd mods maxc where
  start: "initServer lfd pfd mods maxc = Inr s \<Longrightarrow> reachable lfd pfd mods maxc s"
| step: "\<lbrakk>reachable lfd pfd mods maxc s; sstep s s'\<rbrakk> \<Longrightarrow> reachable lfd pfd mods maxc s'"

subsection \<open>Where a client is\<close>

datatype stage = Reading | Queued | Running | Ran | Processed | Writing

text \<open>No reply yet and the request buffer holds what was read; a whole request; a whole reply of
  which \<open>wpos\<close> bytes are out.\<close>

definition idle :: "redisClient \<Rightarrow> bool" where
  "idle c \<longleftrightarrow> cl_wbuf c = None \<and> cl_wlen c = 0 \<and> cl_wpos c = 0 \<and> 0 \<le> cl_rlen c
     \<and> cl_rlen c \<le> int (length (case cl_rbuf c of None \<Rightarrow> [] | Some b \<Rightarrow> b))"

definition asked :: "redisClient \<Rightarrow> bool" where
  "asked c \<longleftrightarrow> idle c \<and> (\<exists>b. cl_rbuf c = Some b \<and> processRequestBuffer b (cl_rlen c) = Inr (Ret 1))"

definition answered :: "redisClient \<Rightarrow> bool" where
  "answered c \<longleftrightarrow> whole_reply c \<and> fits c \<and> 0 \<le> cl_wpos c \<and> cl_wpos c \<le> cl_wlen c \<and> cl_rbuf c \<noteq> None"

fun stage_ok :: "(proc, nat) aeEventLoop \<Rightarrow> nat \<Rightarrow> redisClient \<Rightarrow> stage \<Rightarrow> bool" where
  "stage_ok L a c Reading \<longleftrightarrow> entry L (cl_fd c) AE_READABLE ReadQueryFromClient (Some a) \<and> idle c"
| "stage_ok L a c Writing \<longleftrightarrow> entry L (cl_fd c) AE_WRITABLE SendReplyToClient (Some a) \<and> answered c"
| "stage_ok L a c Queued \<longleftrightarrow> mask_of L (cl_fd c) = AE_NONE \<and> asked c"
| "stage_ok L a c Running \<longleftrightarrow> mask_of L (cl_fd c) = AE_NONE \<and> asked c"
| "stage_ok L a c Ran \<longleftrightarrow> mask_of L (cl_fd c) = AE_NONE \<and> answered c \<and> cl_wpos c = 0"
| "stage_ok L a c Processed \<longleftrightarrow> mask_of L (cl_fd c) = AE_NONE \<and> answered c \<and> cl_wpos c = 0"

text \<open>Bytes that are one whole reply; what a client has got: whole replies, then the first \<open>wpos\<close>
  bytes of the one under way.\<close>

definition is_reply :: "string \<Rightarrow> bool" where
  "is_reply r \<longleftrightarrow> (\<exists>b n. processResponseBuffer b n = Inr 1 \<and> 0 \<le> n \<and> n \<le> int (length b) \<and> r = take (nat n) b)"

definition sent_ok :: "string \<Rightarrow> redisClient \<Rightarrow> bool" where
  "sent_ok out c \<longleftrightarrow> (\<exists>rs. (\<forall>r \<in> set rs. is_reply r)
     \<and> out = concat rs @ take (nat (cl_wpos c)) (case cl_wbuf c of None \<Rightarrow> [] | Some b \<Rightarrow> b))"

definition client_ok :: "(proc, nat) aeEventLoop \<Rightarrow> string \<Rightarrow> nat \<Rightarrow> redisClient \<Rightarrow> stage \<Rightarrow> bool" where
  [simp]: "client_ok L out a c g \<longleftrightarrow> stage_ok L a c g \<and> sent_ok out c"

lemma stage_mask: "stage_ok L a c g \<Longrightarrow> mask_of L (cl_fd c) \<in> {0, 1, 2}"
  by (cases g) (auto simp: entry_def)

text \<open>The entry of a client is all of the table a stage speaks of.\<close>

lemma stage_ok_cong:
  "el_events L' (cl_fd c) = el_events L (cl_fd c) \<Longrightarrow> stage_ok L' a c g = stage_ok L a c g"
  by (cases g) (simp_all add: entry_def)

interpretation px: client_table cl_fd client_ok
proof unfold_locales
  show "client_ok L' out a c g = client_ok L out a c g"
    if "el_events L' (cl_fd c) = el_events L (cl_fd c)" for L' L out a c g
    using stage_ok_cong [OF that] by simp
  show "mask_of L (cl_fd c) \<in> {0, 1, 2}" if "client_ok L out a c g" for L out a c g
    using stage_mask that by auto
qed

definition proxy_roots :: "int \<Rightarrow> int \<Rightarrow> int \<Rightarrow> proc option" where
  "proxy_roots lfd pfd = [lfd \<mapsto> AcceptHandler, pfd \<mapsto> CompletedJob]"

abbreviation px_inv :: "int \<Rightarrow> int \<Rightarrow> (nat \<Rightarrow> stage option) \<Rightarrow> server \<Rightarrow> bool" where
  "px_inv lfd pfd \<equiv> cli_inv (proxy_roots lfd pfd) cl_fd client_ok"

lemma client_stage:
  "px_inv lfd pfd st s \<Longrightarrow> sv_heap s a = Some c \<Longrightarrow>
   \<exists>g. st a = Some g \<and> stage_ok (sv_el s) a c g \<and> sent_ok (sv_sent s a) c"
  using px.cli_fd(6) [of "proxy_roots lfd pfd" st s a c] by simp

definition wk :: "server \<Rightarrow> nat \<Rightarrow> phase option" where
  "wk s t = (if t < length (sv_workers s) then Some (fst (sv_workers s ! t)) else None)"

definition hands :: "(nat \<Rightarrow> stage option) \<Rightarrow> stage \<Rightarrow> (nat \<Rightarrow> phase) \<Rightarrow> (nat \<Rightarrow> phase option) \<Rightarrow> bool" where
  "hands st g f w \<longleftrightarrow> (\<forall>a. st a = Some g \<longleftrightarrow> (\<exists>t. w t = Some (f a)))
     \<and> (\<forall>t u a. w t = Some (f a) \<longrightarrow> w u = Some (f a) \<longrightarrow> t = u)"

definition queue_of :: "(nat \<Rightarrow> stage option) \<Rightarrow> stage \<Rightarrow> nat lstate \<Rightarrow> nat list \<Rightarrow> bool" where
  "queue_of st g q as \<longleftrightarrow> list_vals q as \<and> distinct as \<and> set as = {a. st a = Some g}"

definition job_inv :: "(nat \<Rightarrow> stage option) \<Rightarrow> server \<Rightarrow> bool" where
  "job_inv st s \<longleftrightarrow> (\<exists>ns. queue_of st Queued (sv_newjobs s) ns)
     \<and> hands st Running Working (wk s) \<and> hands st Ran Finished (wk s)
     \<and> (\<exists>ps. queue_of st Processed (sv_processed s) ps
          \<and> sv_pipe s + card {t. wk s t = Some Signalling} = length ps)"

subsection \<open>One client changes\<close>

text \<open>What the queues and threads are does not change.\<close>

definition same_jobs :: "server \<Rightarrow> server \<Rightarrow> bool" where
  "same_jobs s s' \<longleftrightarrow> sv_newjobs s' = sv_newjobs s \<and> sv_processed s' = sv_processed s
     \<and> sv_pipe s' = sv_pipe s \<and> sv_workers s' = sv_workers s \<and> sv_maxclients s' = sv_maxclients s"

lemma freeClient_ok:
  assumes inv: "px_inv lfd pfd st s" and a: "sv_heap s a = Some c"
  shows "\<exists>s'. freeClient a s = Inr s' \<and> px_inv lfd pfd (st(a := None)) s' \<and> same_jobs s s'
    \<and> sv_leaks s' = sv_leaks s @ (case (cl_rbuf c, cl_wbuf c) of (Some _, Some w) \<Rightarrow> [w] | _ \<Rightarrow> [])
    \<and> sv_numconnections s' = sv_numconnections s"
proof -
  obtain L1 L where L: "unregister (cl_fd c) AE_READABLE s = Inr (s\<lparr>sv_el := L1\<rparr>)"
    "unregister (cl_fd c) AE_WRITABLE (s\<lparr>sv_el := L1\<rparr>) = Inr (s\<lparr>sv_el := L\<rparr>)"
    "loop_inv L" "\<forall>g. g \<noteq> cl_fd c \<longrightarrow> el_events L g = el_events (sv_el s) g" "mask_of L (cl_fd c) = 0"
    using px.close_client [OF inv a] by blast
  let ?s = "s\<lparr>sv_el := L, sv_open := sv_open s - {cl_fd c},
    sv_leaks := sv_leaks s @ (case (cl_rbuf c, cl_wbuf c) of (Some _, Some w) \<Rightarrow> [w] | _ \<Rightarrow> []),
    sv_heap := (sv_heap s)(a := None), sv_clients := sv_clients s - 1\<rparr>"
  have "freeClient a s = Inr ?s"
    using a L(1,2) by (simp add: freeClient_def client_at_def)
  moreover have "px_inv lfd pfd (st(a := None)) ?s"
    using L by (intro px.cli_free [OF inv a]) auto
  ultimately show ?thesis by (simp add: same_jobs_def)
qed

subsection \<open>Queues and hands\<close>

lemma queue_length:
  assumes "queue_of st g q as" "finite (dom st)"
  shows "length as \<le> card (dom st)"
proof -
  have "set as \<subseteq> dom st" using assms(1) by (auto simp: queue_of_def)
  then show ?thesis
    using assms card_mono [of "dom st" "set as"] distinct_card [of as] by (simp add: queue_of_def)
qed

lemma queue_push:
  assumes "queue_of st g q as" "st a \<noteq> Some g" "ls_cells q b = None" "length as < 20000"
  shows "\<exists>q'. listAddNodeTail (Some b) a q = Inr (Some q') \<and> queue_of (st(a \<mapsto> g)) g q' (as @ [a])"
proof -
  obtain q' where "listAddNodeTail (Some b) a q = Inr (Some q')" "list_vals q' (as @ [a])"
    using adlist.push_law [of q as b a] assms by (auto simp: queue_of_def)
  moreover have "a \<notin> set as" using assms(1,2) by (auto simp: queue_of_def)
  ultimately show ?thesis using assms(1) by (auto simp: queue_of_def)
qed

lemma queue_pop:
  assumes "queue_of st g q (a # as)" "h \<noteq> g"
  shows "\<exists>q'. listPopFirst q = Inr (Some (a, q')) \<and> queue_of (st(a \<mapsto> h)) g q' as"
proof -
  obtain q' where q': "listPopFirst q = Inr (Some (a, q'))" "list_vals q' as"
    using adlist.pop_law [of q a as] assms(1) by (auto simp: queue_of_def)
  have set: "insert a (set as) = {b. st b = Some g}" "a \<notin> set as" "distinct as"
    using assms(1) by (auto simp: queue_of_def)
  have "set as = {b. (st(a \<mapsto> h)) b = Some g}"
  proof (rule set_eqI)
    fix b
    show "b \<in> set as \<longleftrightarrow> b \<in> {b. (st(a \<mapsto> h)) b = Some g}"
      using set(1,2) assms(2) by (cases "b = a") auto
  qed
  with q' set(3) show ?thesis by (auto simp: queue_of_def)
qed

lemma queue_other:
  "queue_of st g q as \<Longrightarrow> st a \<noteq> Some g \<Longrightarrow> h \<noteq> Some g \<Longrightarrow> queue_of (st(a := h)) g q as"
  by (auto simp: queue_of_def)

lemma hands_iff: "hands st g f w \<Longrightarrow> st a = Some g \<longleftrightarrow> (\<exists>t. w t = Some (f a))"
  by (simp add: hands_def)

lemma hands_unique: "hands st g f w \<Longrightarrow> w t = Some (f a) \<Longrightarrow> w u = Some (f a) \<Longrightarrow> t = u"
  by (auto simp: hands_def)

lemma hands_other:
  "hands st g f w \<Longrightarrow> st a \<noteq> Some g \<Longrightarrow> h \<noteq> Some g \<Longrightarrow> hands (st(a := h)) g f w"
  by (auto simp: hands_def)

lemma hands_move:
  assumes "hands st g f w" "w t = Some p" "\<forall>b. p \<noteq> f b" "\<forall>b. p' \<noteq> f b"
  shows "hands st g f (w(t \<mapsto> p'))"
proof -
  have "(w(t \<mapsto> p')) u = Some (f b) \<longleftrightarrow> w u = Some (f b)" for u b
    using assms(2-4) by (cases "u = t") auto
  then show ?thesis using assms(1) unfolding hands_def by presburger
qed

lemma hands_take:
  assumes h: "hands st g f w" and "st a \<noteq> Some g" "w t = Some p" "\<forall>b. p \<noteq> f b" "inj f"
  shows "hands (st(a \<mapsto> g)) g f (w(t \<mapsto> f a))"
proof -
  have char: "(w(t \<mapsto> f a)) u = Some (f b) \<longleftrightarrow> (u = t \<and> b = a) \<or> w u = Some (f b)" for u b
    using assms(3-5) by (cases "u = t") (auto dest: injD)
  have no: "w u \<noteq> Some (f a)" for u using hands_iff [OF h, of a] assms(2) by blast
  have "(st(a \<mapsto> g)) b = Some g \<longleftrightarrow> (\<exists>u. (w(t \<mapsto> f a)) u = Some (f b))" for b
    unfolding char using hands_iff [OF h, of b] by (cases "b = a") auto
  moreover have "u = v" if "(w(t \<mapsto> f a)) u = Some (f b)" "(w(t \<mapsto> f a)) v = Some (f b)" for u v b
    using that no hands_unique [OF h, of u b v] unfolding char by auto
  ultimately show ?thesis unfolding hands_def by blast
qed

lemma hands_drop:
  assumes h: "hands st g f w" and "w t = Some (f a)" "h' \<noteq> g" "\<forall>b. p' \<noteq> f b" "inj f"
  shows "hands (st(a \<mapsto> h')) g f (w(t \<mapsto> p'))"
proof -
  have char: "(w(t \<mapsto> p')) u = Some (f b) \<longleftrightarrow> b \<noteq> a \<and> w u = Some (f b)" for u b
  proof (cases "b = a")
    case True
    then show ?thesis using hands_unique [OF h, of u a t] assms(2,4) by auto
  next
    case False
    then show ?thesis using assms(2,4,5) by (cases "u = t") (auto dest: injD)
  qed
  have "(st(a \<mapsto> h')) b = Some g \<longleftrightarrow> (\<exists>u. (w(t \<mapsto> p')) u = Some (f b))" for b
    unfolding char using hands_iff [OF h, of b] assms(3) by (cases "b = a") auto
  moreover have "u = v" if "(w(t \<mapsto> p')) u = Some (f b)" "(w(t \<mapsto> p')) v = Some (f b)" for u v b
    using that hands_unique [OF h, of u b v] unfolding char by auto
  ultimately show ?thesis unfolding hands_def by blast
qed

definition job_stage :: "stage option \<Rightarrow> bool" where
  "job_stage x \<longleftrightarrow> x \<in> {Some Queued, Some Running, Some Ran, Some Processed}"

lemma job_inv_same:
  assumes "job_inv st s" "same_jobs s s'" "\<not> job_stage (st a)" "\<not> job_stage x"
  shows "job_inv (st(a := x)) s'"
proof -
  have "wk s' = wk s" using assms(2) by (auto simp: same_jobs_def wk_def fun_eq_iff)
  moreover obtain ns ps where "queue_of st Queued (sv_newjobs s) ns" "queue_of st Processed (sv_processed s) ps"
    "hands st Running Working (wk s)" "hands st Ran Finished (wk s)"
    "sv_pipe s + card {t. wk s t = Some Signalling} = length ps"
    using assms(1) by (auto simp: job_inv_def)
  moreover from this have "queue_of (st(a := x)) Queued (sv_newjobs s) ns"
    "queue_of (st(a := x)) Processed (sv_processed s) ps"
    "hands (st(a := x)) Running Working (wk s)" "hands (st(a := x)) Ran Finished (wk s)"
    using assms(3,4) by (simp_all add: queue_other hands_other job_stage_def)
  ultimately show ?thesis using assms(2) by (auto simp: job_inv_def same_jobs_def)
qed

lemma signalling_move:
  assumes "w t = Some p" "p \<noteq> Signalling" "p' \<noteq> Signalling"
  shows "{u. (w(t \<mapsto> p')) u = Some Signalling} = {u. w u = Some Signalling}"
  using assms by auto

lemma wk_set [simp]:
  "t < length (sv_workers s) \<Longrightarrow> wk (set_worker t w s) = (wk s)(t \<mapsto> fst w)"
  by (auto simp: wk_def set_worker_def fun_eq_iff)

lemma wk_cong: "sv_workers s' = sv_workers s \<Longrightarrow> wk s' = wk s"
  by (auto simp: wk_def fun_eq_iff)

lemma wk_finite: "finite {t. wk s t = Some p}"
  by (rule finite_subset [of _ "{..<length (sv_workers s)}"]) (auto simp: wk_def split: if_splits)

subsection \<open>The handlers keep the invariant\<close>

definition srv_inv :: "int \<Rightarrow> int \<Rightarrow> server \<Rightarrow> bool" where
  "srv_inv lfd pfd s \<longleftrightarrow> (\<exists>st. px_inv lfd pfd st s \<and> job_inv st s)"

lemma invI: "px_inv lfd pfd st s \<Longrightarrow> job_inv st s \<Longrightarrow> srv_inv lfd pfd s"
  by (auto simp: srv_inv_def)

lemma sent_ok_zero: "cl_wpos c = 0 \<Longrightarrow> cl_wpos c' = 0 \<Longrightarrow> sent_ok out c = sent_ok out c'"
  by (simp add: sent_ok_def)

lemma put_newjobs [simp]: "sv_newjobs (put a c s) = sv_newjobs s"
  by (simp add: put_def)

lemma same_jobs_refl [simp]: "same_jobs s s"
  by (simp add: same_jobs_def)

lemma same_jobs_put [simp]: "same_jobs s (put a c s)"
  by (simp add: same_jobs_def put_def)

lemma same_jobs_trans: "same_jobs s t \<Longrightarrow> same_jobs t u \<Longrightarrow> same_jobs s u"
  by (simp add: same_jobs_def)

lemma put_reading:
  assumes inv: "px_inv lfd pfd st s" "sv_heap s a = Some c" "st a = Some Reading" "job_inv st s"
    and c': "cl_fd c' = cl_fd c" "idle c'"
  shows "px_inv lfd pfd st (put a c' s)" "job_inv st (put a c' s)"
proof -
  have ok: "stage_ok (sv_el s) a c Reading" "sent_ok (sv_sent s a) c" using client_stage [OF inv(1,2)] inv(3) by auto
  have "cl_wpos c = 0" "cl_wpos c' = 0" using ok(1) c'(2) by (simp_all add: idle_def)
  with sent_ok_zero ok(2) have "sent_ok (sv_sent s a) c'" by blast
  moreover have "stage_ok (sv_el s) a c' Reading" using ok(1) c' by simp
  ultimately have "px_inv lfd pfd (st(a \<mapsto> Reading)) (put a c' s)"
    using px.cli_fd(5) [OF inv(1,2)] c' by (intro px.cli_update [OF inv(1,2), where c' = c']) simp_all
  moreover have "st(a \<mapsto> Reading) = st" using inv(3) by auto
  ultimately show "px_inv lfd pfd st (put a c' s)" by simp
  show "job_inv st (put a c' s)"
    using job_inv_same [OF inv(4) same_jobs_put, of a "st a" a c'] inv(3) by (simp add: job_stage_def fun_upd_idem)
qed

lemma free_inv:
  assumes "px_inv lfd pfd st s" "job_inv st s" "sv_heap s a = Some c" "\<not> job_stage (st a)"
  shows "\<exists>s'. freeClient a s = Inr s' \<and> srv_inv lfd pfd s'"
proof -
  obtain s' where "freeClient a s = Inr s'" "px_inv lfd pfd (st(a := None)) s'" "same_jobs s s'"
    using freeClient_ok [OF assms(1,3)] by blast
  moreover from this have "job_inv (st(a := None)) s'"
    using job_inv_same [OF assms(2) _ assms(4)] by (simp add: job_stage_def)
  ultimately show ?thesis by (auto intro: invI)
qed

lemma grow_rbuf_length: "idle c \<Longrightarrow> cl_rlen c + int (length d) \<le> int (length (grow_rbuf (cl_rbuf c) (cl_rlen c) d))"
  by (auto simp: idle_def grow_rbuf_def split: option.splits)

lemma queue_job_inv:
  assumes inv: "px_inv lfd pfd st s" "job_inv st s" and a: "sv_heap s a = Some c" "st a = Some Reading"
    and asked: "asked c" and b: "ls_cells (sv_newjobs s) b = None"
  shows "\<exists>s1 s'. unregister (cl_fd c) AE_READABLE s = Inr s1 \<and> queueIOJob (Some b) a s1 = Inr s' \<and> srv_inv lfd pfd s'"
proof -
  have ok: "stage_ok (sv_el s) a c Reading" "sent_ok (sv_sent s a) c" using client_stage [OF inv(1) a(1)] a(2) by auto
  obtain L where L: "unregister (cl_fd c) AE_READABLE s = Inr (s\<lparr>sv_el := L\<rparr>)" "loop_inv L"
    "\<forall>g. g \<noteq> cl_fd c \<longrightarrow> el_events L g = el_events (sv_el s) g"
    "mask_of L (cl_fd c) = mask_of (sv_el s) (cl_fd c) AND NOT AE_READABLE"
    using unregister_ok [OF px.cli_fd(5,1) [OF inv(1) a(1)], of AE_READABLE] by blast
  have m: "mask_of L (cl_fd c) = 0" using L(4) ok(1) by (simp add: entry_def)
  obtain ns where ns: "queue_of st Queued (sv_newjobs s) ns" using inv(2) by (auto simp: job_inv_def)
  then have "length ns < 20000" using queue_length px.clients_bound [OF inv(1)] by fastforce
  from queue_push [OF ns _ b this, of a] a(2) obtain q where q:
    "listAddNodeTail (Some b) a (sv_newjobs s) = Inr (Some q)" "queue_of (st(a \<mapsto> Queued)) Queued q (ns @ [a])" by auto
  let ?s = "s\<lparr>sv_el := L, sv_newjobs := q\<rparr>"
  have "px_inv lfd pfd (st(a \<mapsto> Queued)) ?s"
    using L m asked ok a(1) by (intro px.cli_update [OF inv(1) a(1), where c' = c]) auto
  moreover have "job_inv (st(a \<mapsto> Queued)) ?s"
    using inv(2) q(2) a(2) queue_other [of st Processed _ _ a "Some Queued"] hands_other [of st _ _ _ a "Some Queued"]
      wk_cong [of ?s s] by (fastforce simp: job_inv_def)
  ultimately have "srv_inv lfd pfd ?s" by (rule invI)
  then show ?thesis using L(1) q(1) by (simp add: queueIOJob_def)
qed

lemma process_inv:
  assumes inv: "px_inv lfd pfd st s" "job_inv st s" and a: "sv_heap s a = Some c" "st a = Some Reading"
    and b: "ls_cells (sv_newjobs s) b = None" "cl_rbuf c \<noteq> None" "idle c"
  shows "(\<exists>e. processRequestBuffer (the (cl_rbuf c)) (cl_rlen c) = Inl e \<and> processInputBuffer (Some b) a s = Inl e)
    \<or> (\<exists>e. processRequestBuffer (the (cl_rbuf c)) (cl_rlen c) = Inr (Proc_exit e) \<and> processInputBuffer (Some b) a s = Inr (Exited e))
    \<or> (\<exists>s'. processInputBuffer (Some b) a s = Inr (Done s') \<and> srv_inv lfd pfd s')"
proof (cases "processRequestBuffer (the (cl_rbuf c)) (cl_rlen c)")
  case (Inl e)
  then show ?thesis using a by (simp add: processInputBuffer_def)
next
  case (Inr r)
  obtain rb where rb: "cl_rbuf c = Some rb" using b(2) by auto
  obtain sf where sf: "freeClient a s = Inr sf" "srv_inv lfd pfd sf"
    using free_inv [OF inv a(1)] a(2) by (auto simp: job_stage_def)
  show ?thesis
  proof (cases r)
    case (Proc_exit e)
    then show ?thesis using Inr a by (simp add: processInputBuffer_def)
  next
    case (Ret v)
    consider "v = - 1" | "v = - 2" | "v = 1" | "v \<noteq> - 1" "v \<noteq> - 2" "v \<noteq> 1" by blast
    then show ?thesis
    proof cases
      case 3
      then have "asked c" using Inr Ret rb b(3) by (simp add: asked_def)
      with queue_job_inv [OF inv a _ b(1)] 3 Inr Ret a show ?thesis
        by (auto simp: processInputBuffer_def)
    next
      case 4
      then show ?thesis using Inr Ret a invI [OF inv] by (simp add: processInputBuffer_def)
    qed (use Inr Ret a sf in \<open>simp_all add: processInputBuffer_def\<close>)
  qed
qed

text \<open>The ways \<open>readQueryFromClient\<close> can fail to return.\<close>

definition read_fault :: "read_answer \<Rightarrow> redisClient \<Rightarrow> fault \<Rightarrow> bool" where
  "read_fault r c e \<longleftrightarrow> (r = Rd_oom \<and> e = Out_of_memory)
     \<or> (INT_MAX < cl_rlen c + int READ_BUF_LEN \<and> e = Signed_overflow)
     \<or> (\<exists>data. r = Rd_bytes data \<and>
          processRequestBuffer (grow_rbuf (cl_rbuf c) (cl_rlen c) data) (cl_rlen c + int (length data)) = Inl e)"

lemma read_inv:
  assumes inv: "px_inv lfd pfd st s" "job_inv st s" and a: "sv_heap s a = Some c" "st a = Some Reading"
    and b: "ls_cells (sv_newjobs s) b = None"
  shows "case readQueryFromClient r now (Some b) a s of
      Inr (Done s') \<Rightarrow> srv_inv lfd pfd s' | Inr _ \<Rightarrow> True | Inl e \<Rightarrow> read_fault r c e"
proof -
  have idle: "idle c" using client_stage [OF inv(1) a(1)] a(2) by auto
  show ?thesis
  proof (cases "cl_rlen c + int READ_BUF_LEN > INT_MAX")
    case True
    then show ?thesis using a by (simp add: readQueryFromClient_def read_fault_def)
  next
    case small: False
    define c1 where "c1 d = c\<lparr>cl_rbuf := Some (grow_rbuf (cl_rbuf c) (cl_rlen c) d)\<rparr>" for d
    have c1: "cl_fd (c1 d) = cl_fd c" "idle (c1 d)" for d
      using idle grow_rbuf_length [OF idle, of d] by (simp_all add: c1_def idle_def)
    note p = put_reading [OF inv(1) a(1,2) inv(2) c1]
    have here: "srv_inv lfd pfd (put a (c1 d) s)" for d by (rule invI [OF p])
    have free: "\<exists>s'. freeClient a (put a (c1 d) s) = Inr s' \<and> srv_inv lfd pfd s'" for d
      using a(2) by (intro free_inv [OF p]) (simp_all add: job_stage_def)
    show ?thesis
    proof (cases r)
      case Rd_oom
      then show ?thesis using a small by (simp add: readQueryFromClient_def read_fault_def)
    next
      case Rd_error
      then show ?thesis using a small free [of "[]"] by (auto simp: readQueryFromClient_def c1_def)
    next
      case Rd_again
      then show ?thesis
        using a small here [of "[]"] by (simp add: readQueryFromClient_def c1_def)
    next
      case (Rd_bytes d)
      show ?thesis
      proof (cases "d = []")
        case True
        then show ?thesis using a small Rd_bytes free [of "[]"] by (auto simp: readQueryFromClient_def c1_def)
      next
        case False
        let ?c = "(c1 d)\<lparr>cl_rlen := cl_rlen c + int (length d), cl_last := now\<rparr>"
        have c2: "cl_fd ?c = cl_fd c" "idle ?c"
          using idle grow_rbuf_length [OF idle, of d] by (simp_all add: c1_def idle_def)
        note q = put_reading [OF inv(1) a(1,2) inv(2) c2]
        have run: "readQueryFromClient r now (Some b) a s = processInputBuffer (Some b) a (put a ?c s)"
          using a small Rd_bytes False by (simp add: readQueryFromClient_def c1_def Let_def)
        have "(\<exists>e. processRequestBuffer (the (cl_rbuf ?c)) (cl_rlen ?c) = Inl e \<and> processInputBuffer (Some b) a (put a ?c s) = Inl e)
          \<or> (\<exists>e. processRequestBuffer (the (cl_rbuf ?c)) (cl_rlen ?c) = Inr (Proc_exit e)
               \<and> processInputBuffer (Some b) a (put a ?c s) = Inr (Exited e))
          \<or> (\<exists>s'. processInputBuffer (Some b) a (put a ?c s) = Inr (Done s') \<and> srv_inv lfd pfd s')"
          using a(2) b c2 by (intro process_inv [OF q]) (simp_all add: c1_def)
        then show ?thesis
          unfolding run by (elim disjE exE conjE) (simp_all add: read_fault_def Rd_bytes c1_def)
      qed
    qed
  qed
qed

text \<open>The client as it is after \<open>resetClient\<close>.\<close>

definition reset_client :: "redisClient \<Rightarrow> redisClient" where
  "reset_client c = c\<lparr>cl_rbuf := None, cl_wbuf := None, cl_rlen := 0, cl_wpos := 0, cl_wlen := 0\<rparr>"

lemma reset_effect:
  assumes a: "sv_heap s a = Some c" and fd: "0 \<le> cl_fd c" "cl_fd c < AE_SETSIZE"
    and el: "loop_inv (sv_el s)" "mask_of (sv_el s) (cl_fd c) \<in> {0, 1, 2}"
  shows "\<exists>L. resetClient True a s = Inr ((put a (reset_client c) s)\<lparr>sv_el := L\<rparr>) \<and> loop_inv L
    \<and> (\<forall>g. g \<noteq> cl_fd c \<longrightarrow> el_events L g = el_events (sv_el s) g)
    \<and> entry L (cl_fd c) AE_READABLE ReadQueryFromClient (Some a)"
proof -
  let ?s = "put a (reset_client c) s"
  have m: "mask_of (sv_el ?s) (cl_fd c) \<in> {0, 1, 2}" "loop_inv (sv_el ?s)"
    using el by simp_all
  obtain L1 L where L: "unregister (cl_fd c) AE_WRITABLE ?s = Inr (?s\<lparr>sv_el := L1\<rparr>)"
    "unregister (cl_fd c) AE_READABLE (?s\<lparr>sv_el := L1\<rparr>) = Inr (?s\<lparr>sv_el := L\<rparr>)"
    "loop_inv L" "\<forall>g. g \<noteq> cl_fd c \<longrightarrow> el_events L g = el_events (sv_el ?s) g" "mask_of L (cl_fd c) = 0"
    using unregister_both [OF m(2) fd(1) m(1), of AE_WRITABLE AE_READABLE] by auto
  have "loop_inv (sv_el (?s\<lparr>sv_el := L\<rparr>))" using L(3) by simp
  from register_ok [OF this fd, of AE_READABLE ReadQueryFromClient "Some a"]
  obtain L2 where L2: "register True (cl_fd c) AE_READABLE ReadQueryFromClient (Some a) (?s\<lparr>sv_el := L\<rparr>)
      = Inr (AE_OK, ?s\<lparr>sv_el := L2\<rparr>)" "loop_inv L2"
    "el_events L2 = (el_events L)(cl_fd c := reg_entry (el_events L (cl_fd c)) AE_READABLE ReadQueryFromClient (Some a))"
    by auto
  have "resetClient True a s = Inr (?s\<lparr>sv_el := L2\<rparr>)"
    using a L(1,2) L2(1) by (simp add: resetClient_def reset_client_def)
  moreover have "entry L2 (cl_fd c) AE_READABLE ReadQueryFromClient (Some a)"
    using L(5) L2(3) by (simp add: entry_def reg_entry_def)
  ultimately show ?thesis using L(4) L2(2,3) by (intro exI [of _ L2]) simp
qed

lemma reset_inv:
  assumes inv: "px_inv lfd pfd st s" "job_inv st s" and a: "sv_heap s a = Some c" "st a = Some Writing"
    and full: "cl_wpos c = cl_wlen c"
  shows "\<exists>s'. resetClient True a s = Inr s' \<and> srv_inv lfd pfd s'"
proof -
  have ok: "stage_ok (sv_el s) a c Writing" "sent_ok (sv_sent s a) c" using client_stage [OF inv(1) a(1)] a(2) by auto
  let ?c = "reset_client c"
  let ?s = "put a ?c s"
  obtain L2 where L2: "resetClient True a s = Inr (?s\<lparr>sv_el := L2\<rparr>)" "loop_inv L2"
    "\<forall>g. g \<noteq> cl_fd c \<longrightarrow> el_events L2 g = el_events (sv_el s) g" "entry L2 (cl_fd c) AE_READABLE ReadQueryFromClient (Some a)"
    using reset_effect [OF a(1) px.cli_fd(1,2,5) [OF inv(1) a(1)] stage_mask [OF ok(1)]] by blast
  obtain rs where rs: "\<forall>r \<in> set rs. is_reply r"
    "sv_sent s a = concat rs @ take (nat (cl_wpos c)) (case cl_wbuf c of None \<Rightarrow> [] | Some b \<Rightarrow> b)"
    using ok(2) by (auto simp: sent_ok_def)
  obtain b where b: "cl_wbuf c = Some b" "processResponseBuffer b (cl_wlen c) = Inr 1"
    "0 \<le> cl_wlen c" "cl_wlen c \<le> int (length b)"
    using ok(1) by (auto simp: answered_def whole_reply_def fits_def split: option.splits)
  then have "is_reply (take (nat (cl_wpos c)) b)" using full by (auto simp: is_reply_def)
  then have "sent_ok (sv_sent s a) ?c"
    unfolding sent_ok_def reset_client_def using rs b(1) by (intro exI [of _ "rs @ [take (nat (cl_wpos c)) b]"]) auto
  moreover have "stage_ok L2 a ?c Reading"
    using L2(4) by (simp add: idle_def reset_client_def)
  ultimately have "px_inv lfd pfd (st(a \<mapsto> Reading)) (?s\<lparr>sv_el := L2\<rparr>)"
    using L2(2,3) by (intro px.cli_update [OF inv(1) a(1), where c' = ?c]) (auto simp: reset_client_def)
  moreover have "job_inv (st(a \<mapsto> Reading)) (?s\<lparr>sv_el := L2\<rparr>)"
    using a(2) by (intro job_inv_same [OF inv(2)]) (simp_all add: same_jobs_def job_stage_def put_def)
  ultimately have "srv_inv lfd pfd (?s\<lparr>sv_el := L2\<rparr>)" by (rule invI)
  then show ?thesis using L2(1) by blast
qed

lemma send_inv:
  assumes inv: "px_inv lfd pfd st s" "job_inv st s" and a: "sv_heap s a = Some c" "st a = Some Writing"
    and n: "\<And>n. w = Wr_bytes n \<Longrightarrow> int n \<le> cl_wlen c - cl_wpos c"
  shows "\<exists>s'. sendReplyToClient w now True a s = Inr s' \<and> srv_inv lfd pfd s'"
proof -
  have ok: "stage_ok (sv_el s) a c Writing" "sent_ok (sv_sent s a) c" using client_stage [OF inv(1) a(1)] a(2) by auto
  obtain b where b: "cl_wbuf c = Some b" "0 \<le> cl_wpos c" "cl_wlen c \<le> int (length b)" "cl_wpos c \<le> cl_wlen c"
    using ok(1) by (auto simp: answered_def whole_reply_def fits_def split: option.splits)
  show ?thesis
  proof (cases w)
    case Wr_error
    then show ?thesis
      using free_inv [OF inv a(1)] a b by (auto simp: sendReplyToClient_def job_stage_def)
  next
    case Wr_again
    then show ?thesis
      using reset_inv [OF inv a] a b invI [OF inv] by (auto simp: sendReplyToClient_def)
  next
    case (Wr_bytes k)
    let ?c = "if 0 < k then c\<lparr>cl_last := now, cl_wpos := cl_wpos c + int k\<rparr> else c"
    let ?s = "(put a ?c s)\<lparr>sv_sent := (sv_sent s)(a := sv_sent s a @ take k (drop (nat (cl_wpos c)) b))\<rparr>"
    have k: "int k \<le> cl_wlen c - cl_wpos c" using n Wr_bytes by blast
    have c: "cl_fd ?c = cl_fd c" "cl_wbuf ?c = cl_wbuf c" "cl_wlen ?c = cl_wlen c" "cl_wpos ?c = cl_wpos c + int k"
      "cl_rbuf ?c = cl_rbuf c" by auto
    obtain rs where rs: "\<forall>r \<in> set rs. is_reply r" "sv_sent s a = concat rs @ take (nat (cl_wpos c)) b"
      using ok(2) b(1) by (auto simp: sent_ok_def)
    have "nat (cl_wpos c + int k) = nat (cl_wpos c) + k" using b(2) by simp
    then have "sent_ok (sv_sent ?s a) ?c"
      unfolding sent_ok_def c using rs b(1) by (intro exI [of _ rs]) (simp add: take_add)
    moreover have "stage_ok (sv_el ?s) a ?c Writing"
      using ok(1) b k unfolding stage_ok.simps answered_def whole_reply_def fits_def c by (simp add: c)
    ultimately have "px_inv lfd pfd (st(a \<mapsto> Writing)) ?s"
      using px.cli_fd(5) [OF inv(1) a(1)] c by (intro px.cli_update [OF inv(1) a(1), where c' = ?c]) auto
    then have cli: "px_inv lfd pfd st ?s" using a(2) by (simp add: fun_upd_idem)
    have "job_inv (st(a := Some Writing)) ?s"
      using a(2) by (intro job_inv_same [OF inv(2)]) (simp_all add: same_jobs_def job_stage_def put_def)
    then have job: "job_inv st ?s" using a(2) by (simp add: fun_upd_idem)
    have heap: "sv_heap ?s a = Some ?c" by simp
    have run: "sendReplyToClient w now True a s
      = (if cl_wpos ?c = cl_wlen ?c then resetClient True a ?s else Inr ?s)"
      using a(1) b Wr_bytes by (simp add: sendReplyToClient_def Let_def)
    show ?thesis
      unfolding run using reset_inv [OF cli job heap a(2)] invI [OF cli job] by simp
  qed
qed

lemma completed_inv:
  assumes inv: "px_inv lfd pfd st s" "job_inv st s" and pipe: "0 < sv_pipe s"
  shows "\<exists>s'. completed_turn True s = Inr (Some s') \<and> srv_inv lfd pfd s'"
proof -
  obtain ps where ps: "queue_of st Processed (sv_processed s) ps"
    "sv_pipe s + card {t. wk s t = Some Signalling} = length ps" using inv(2) by (auto simp: job_inv_def)
  with pipe obtain a qs where qs: "ps = a # qs" by (cases ps) auto
  with ps(1) have sa: "st a = Some Processed" by (auto simp: queue_of_def)
  then obtain c where a: "sv_heap s a = Some c" using px.cli_live [OF inv(1)] by blast
  have ok: "stage_ok (sv_el s) a c Processed" "sent_ok (sv_sent s a) c" using client_stage [OF inv(1) a] sa by auto
  obtain q where q: "listPopFirst (sv_processed s) = Inr (Some (a, q))" "queue_of (st(a \<mapsto> Writing)) Processed q qs"
    using queue_pop [of st Processed _ a qs Writing] ps(1) qs by auto
  let ?s = "s\<lparr>sv_pipe := sv_pipe s - 1, sv_processed := q\<rparr>"
  have "loop_inv (sv_el ?s)" using px.cli_fd(5) [OF inv(1) a] by simp
  from register_ok [OF this px.cli_fd(1,2) [OF inv(1) a], of AE_WRITABLE SendReplyToClient "Some a"]
  obtain L where L: "register True (cl_fd c) AE_WRITABLE SendReplyToClient (Some a) ?s = Inr (AE_OK, ?s\<lparr>sv_el := L\<rparr>)"
    "loop_inv L" "el_events L = (el_events (sv_el s))(cl_fd c := reg_entry (el_events (sv_el s) (cl_fd c)) AE_WRITABLE SendReplyToClient (Some a))"
    by auto
  have "stage_ok L a c Writing" using ok(1) L(3) by (simp add: entry_def reg_entry_def)
  then have "px_inv lfd pfd (st(a \<mapsto> Writing)) (?s\<lparr>sv_el := L\<rparr>)"
    using L(2,3) ok(2) a by (intro px.cli_update [OF inv(1) a, where c' = c]) auto
  moreover have "job_inv (st(a \<mapsto> Writing)) (?s\<lparr>sv_el := L\<rparr>)"
  proof -
    obtain ns where "queue_of st Queued (sv_newjobs s) ns" "hands st Running Working (wk s)" "hands st Ran Finished (wk s)"
      using inv(2) by (auto simp: job_inv_def)
    then have "queue_of (st(a \<mapsto> Writing)) Queued (sv_newjobs s) ns" "hands (st(a \<mapsto> Writing)) Running Working (wk s)"
      "hands (st(a \<mapsto> Writing)) Ran Finished (wk s)" using sa by (simp_all add: queue_other hands_other)
    moreover have "wk (?s\<lparr>sv_el := L\<rparr>) = wk s" by (rule wk_cong) simp
    ultimately show ?thesis using q(2) ps(2) qs pipe by (auto simp: job_inv_def)
  qed
  ultimately have "srv_inv lfd pfd (?s\<lparr>sv_el := L\<rparr>)" by (rule invI)
  then show ?thesis using pipe q(1) a L(1) by (simp add: completed_turn_def)
qed

lemma take_inv:
  assumes "srv_inv lfd pfd s" and t: "t < length (sv_workers s)" "fst (sv_workers s ! t) = Waiting"
  shows "\<exists>s'. worker_take t s = Inr s' \<and> srv_inv lfd pfd s'"
proof -
  obtain st where inv: "px_inv lfd pfd st s" "job_inv st s" using assms(1) by (auto simp: srv_inv_def)
  obtain ns where ns: "queue_of st Queued (sv_newjobs s) ns" using inv(2) by (auto simp: job_inv_def)
  show ?thesis
  proof (cases ns)
    case Nil
    then have "listPopFirst (sv_newjobs s) = Inr None"
      using ns adlist.pop_empty_law by (auto simp: queue_of_def)
    then show ?thesis using assms(1) by (simp add: worker_take_def)
  next
    case (Cons a ms)
    with ns have sa: "st a = Some Queued" by (auto simp: queue_of_def)
    then obtain c where a: "sv_heap s a = Some c" using px.cli_live [OF inv(1)] by blast
    have ok: "stage_ok (sv_el s) a c Queued" "sent_ok (sv_sent s a) c" using client_stage [OF inv(1) a] sa by auto
    obtain q where q: "listPopFirst (sv_newjobs s) = Inr (Some (a, q))" "queue_of (st(a \<mapsto> Running)) Queued q ms"
      using queue_pop [of st Queued _ a ms Running] ns Cons by auto
    let ?s = "set_worker t (Working a, snd (sv_workers s ! t)) (s\<lparr>sv_newjobs := q\<rparr>)"
    have w: "wk s t = Some Waiting" using t by (simp add: wk_def)
    have ws: "wk ?s = (wk s)(t \<mapsto> Working a)" using t wk_cong [of "s\<lparr>sv_newjobs := q\<rparr>" s] by simp
    have "px_inv lfd pfd (st(a \<mapsto> Running)) ?s"
      using ok a px.cli_fd(5) [OF inv(1) a] by (intro px.cli_update [OF inv(1) a, where c' = c]) (auto simp: set_worker_def)
    moreover have "job_inv (st(a \<mapsto> Running)) ?s"
    proof -
      obtain ps where ps: "queue_of st Processed (sv_processed s) ps" "hands st Running Working (wk s)"
        "hands st Ran Finished (wk s)" "sv_pipe s + card {t. wk s t = Some Signalling} = length ps"
        using inv(2) by (auto simp: job_inv_def)
      have "hands (st(a \<mapsto> Running)) Running Working (wk ?s)"
        unfolding ws using sa by (intro hands_take [OF ps(2) _ w]) (auto simp: inj_def)
      moreover have "hands (st(a \<mapsto> Running)) Ran Finished (wk ?s)"
        unfolding ws using sa by (intro hands_move [OF hands_other [OF ps(3)] w]) auto
      moreover have "queue_of (st(a \<mapsto> Running)) Processed (sv_processed s) ps"
        using ps(1) sa by (simp add: queue_other)
      ultimately show ?thesis
        using q(2) ps(4) signalling_move [where w = "wk s", OF w, of "Working a"] unfolding job_inv_def ws
        by (auto simp: set_worker_def)
    qed
    ultimately have "srv_inv lfd pfd ?s" by (rule invI)
    then show ?thesis using q(1) by (simp add: worker_take_def)
  qed
qed

lemma run_inv:
  assumes "srv_inv lfd pfd s" and t: "t < length (sv_workers s)" "fst (sv_workers s ! t) = Working a"
    and run: "worker_run t as a s = Inr (Done s')"
  shows "srv_inv lfd pfd s'"
proof -
  obtain st where inv: "px_inv lfd pfd st s" "job_inv st s" using assms(1) by (auto simp: srv_inv_def)
  have w: "wk s t = Some (Working a)" using t by (simp add: wk_def)
  obtain ns ps where j: "queue_of st Queued (sv_newjobs s) ns" "queue_of st Processed (sv_processed s) ps"
    "hands st Running Working (wk s)" "hands st Ran Finished (wk s)"
    "sv_pipe s + card {t. wk s t = Some Signalling} = length ps"
    using inv(2) by (auto simp: job_inv_def)
  have sa: "st a = Some Running" using hands_iff [OF j(3)] w by blast
  then obtain c where a: "sv_heap s a = Some c" using px.cli_live [OF inv(1)] by blast
  have ok: "stage_ok (sv_el s) a c Running" "sent_ok (sv_sent s a) c" using client_stage [OF inv(1) a] sa by auto
  obtain x where x: "redisCommandProc as c (snd (sv_workers s ! t)) = Inr x"
    using run a by (auto simp: worker_run_def fmap_eq_Inr)
  then obtain c' m' where "x = Done (c', m')"
    using run a by (cases x) (auto simp: worker_run_def)
  with x have c': "redisCommandProc as c (snd (sv_workers s ! t)) = Inr (Done (c', m'))" by simp
  with run a have s': "s' = set_worker t (Finished a, m') (put a c' s)" by (simp add: worker_run_def)
  have same: "same_request c c'" "whole_reply c'" using command_outcome [OF c'] by auto
  have zero: "cl_wpos c = 0" "cl_wlen c = 0" using ok(1) by (simp_all add: asked_def idle_def)
  have "fits c" using ok(1) by (simp add: asked_def idle_def fits_def)
  then have c: "cl_fd c' = cl_fd c" "cl_wpos c' = 0" "fits c'" "cl_rbuf c' = cl_rbuf c"
    using same(1) zero by (simp_all add: same_request_def)
  then have "stage_ok (sv_el s') a c' Ran" using ok(1) same(2) s' by (auto simp: answered_def asked_def fits_def set_worker_def)
  moreover have "sent_ok (sv_sent s' a) c'" using ok(2) sent_ok_zero [OF zero(1) c(2)] s' by (simp add: set_worker_def)
  ultimately have "px_inv lfd pfd (st(a \<mapsto> Ran)) s'"
    using c(1) px.cli_fd(5) [OF inv(1) a] s'
    by (intro px.cli_update [OF inv(1) a, where c' = c']) (auto simp: set_worker_def)
  moreover have "job_inv (st(a \<mapsto> Ran)) s'"
  proof -
    have "t < length (sv_workers (put a c' s))" "wk (put a c' s) = wk s"
      using t(1) by (simp_all add: put_def wk_def fun_eq_iff)
    then have ws: "wk s' = (wk s)(t \<mapsto> Finished a)" using s' by simp
    have "hands (st(a \<mapsto> Ran)) Running Working (wk s')"
      unfolding ws by (rule hands_drop [OF j(3) w]) (auto simp: inj_def)
    moreover have "hands (st(a \<mapsto> Ran)) Ran Finished (wk s')"
      unfolding ws using sa by (intro hands_take [OF j(4) _ w]) (auto simp: inj_def)
    moreover have "queue_of (st(a \<mapsto> Ran)) Queued (sv_newjobs s) ns" "queue_of (st(a \<mapsto> Ran)) Processed (sv_processed s) ps"
      using j(1,2) sa by (simp_all add: queue_other)
    ultimately show ?thesis
      using j(5) signalling_move [where w = "wk s", OF w, of "Finished a"] unfolding job_inv_def ws
      by (auto simp: s' set_worker_def put_def)
  qed
  ultimately show ?thesis by (rule invI)
qed

lemma push_inv:
  assumes "srv_inv lfd pfd s" and t: "t < length (sv_workers s)" "fst (sv_workers s ! t) = Finished a"
    and b: "ls_cells (sv_processed s) b = None"
  shows "\<exists>s'. worker_push t (Some b) a s = Inr s' \<and> srv_inv lfd pfd s'"
proof -
  obtain st where inv: "px_inv lfd pfd st s" "job_inv st s" using assms(1) by (auto simp: srv_inv_def)
  have w: "wk s t = Some (Finished a)" using t by (simp add: wk_def)
  obtain ns ps where j: "queue_of st Queued (sv_newjobs s) ns" "queue_of st Processed (sv_processed s) ps"
    "hands st Running Working (wk s)" "hands st Ran Finished (wk s)"
    "sv_pipe s + card {t. wk s t = Some Signalling} = length ps"
    using inv(2) by (auto simp: job_inv_def)
  have sa: "st a = Some Ran" using hands_iff [OF j(4)] w by blast
  then obtain c where a: "sv_heap s a = Some c" using px.cli_live [OF inv(1)] by blast
  have ok: "stage_ok (sv_el s) a c Ran" "sent_ok (sv_sent s a) c" using client_stage [OF inv(1) a] sa by auto
  have "length ps < 20000" using queue_length [OF j(2)] px.clients_bound [OF inv(1)] by fastforce
  from queue_push [OF j(2) _ b this, of a] sa obtain q where q:
    "listAddNodeTail (Some b) a (sv_processed s) = Inr (Some q)" "queue_of (st(a \<mapsto> Processed)) Processed q (ps @ [a])" by auto
  let ?s = "set_worker t (Signalling, snd (sv_workers s ! t)) (s\<lparr>sv_processed := q\<rparr>)"
  have ws: "wk ?s = (wk s)(t \<mapsto> Signalling)" using t wk_cong [of "s\<lparr>sv_processed := q\<rparr>" s] by simp
  have "px_inv lfd pfd (st(a \<mapsto> Processed)) ?s"
    using ok a px.cli_fd(5) [OF inv(1) a] by (intro px.cli_update [OF inv(1) a, where c' = c]) (auto simp: set_worker_def)
  moreover have "job_inv (st(a \<mapsto> Processed)) ?s"
  proof -
    have "hands (st(a \<mapsto> Processed)) Ran Finished (wk ?s)"
      unfolding ws by (rule hands_drop [OF j(4) w]) (auto simp: inj_def)
    moreover have "hands (st(a \<mapsto> Processed)) Running Working (wk ?s)"
      unfolding ws using sa by (intro hands_move [OF hands_other [OF j(3)] w]) auto
    moreover have "queue_of (st(a \<mapsto> Processed)) Queued (sv_newjobs s) ns" using j(1) sa by (simp add: queue_other)
    moreover have "card {u. wk ?s u = Some Signalling} = Suc (card {u. wk s u = Some Signalling})"
    proof -
      have "{u. wk ?s u = Some Signalling} = insert t {u. wk s u = Some Signalling}" unfolding ws by auto
      then show ?thesis using w wk_finite [of s Signalling] by simp
    qed
    ultimately show ?thesis
      using q(2) j(5) by (auto simp: job_inv_def) (auto simp: set_worker_def)
  qed
  ultimately have "srv_inv lfd pfd ?s" by (rule invI)
  then show ?thesis using q(1) by (simp add: worker_push_def)
qed

lemma signal_inv:
  assumes "srv_inv lfd pfd s" and t: "t < length (sv_workers s)" "fst (sv_workers s ! t) = Signalling"
  shows "srv_inv lfd pfd (worker_signal t s)"
proof -
  obtain st where inv: "px_inv lfd pfd st s" "job_inv st s" using assms(1) by (auto simp: srv_inv_def)
  let ?s = "worker_signal t s"
  have w: "wk s t = Some Signalling" using t by (simp add: wk_def)
  have ws: "wk ?s = (wk s)(t \<mapsto> Waiting)"
    using t wk_cong [of "s\<lparr>sv_pipe := Suc (sv_pipe s)\<rparr>" s] by (simp add: worker_signal_def)
  have "{u. wk s u = Some Signalling} = insert t {u. wk ?s u = Some Signalling}" "t \<notin> {u. wk ?s u = Some Signalling}"
    unfolding ws using w by auto
  then have card: "card {u. wk s u = Some Signalling} = Suc (card {u. wk ?s u = Some Signalling})"
    using wk_finite [of ?s Signalling] by simp
  have "px_inv lfd pfd st ?s" using inv(1) by (simp add: cli_inv_def fd_inv_def worker_signal_def set_worker_def)
  moreover have "job_inv st ?s"
  proof -
    obtain ns ps where j: "queue_of st Queued (sv_newjobs s) ns" "queue_of st Processed (sv_processed s) ps"
      "hands st Running Working (wk s)" "hands st Ran Finished (wk s)"
      "sv_pipe s + card {t. wk s t = Some Signalling} = length ps"
      using inv(2) by (auto simp: job_inv_def)
    have "hands st Running Working (wk ?s)" "hands st Ran Finished (wk ?s)"
      unfolding ws using hands_move [OF j(3) w, of Waiting] hands_move [OF j(4) w, of Waiting] by auto
    moreover have "sv_pipe ?s = Suc (sv_pipe s)" "sv_newjobs ?s = sv_newjobs s" "sv_processed ?s = sv_processed s"
      by (simp_all add: worker_signal_def set_worker_def)
    ultimately show ?thesis using j(1,2,5) card by (auto simp: job_inv_def)
  qed
  ultimately show ?thesis by (rule invI)
qed

lemma new_client_fd [simp]: "cl_fd (new_client fd) = fd"
  by (simp add: new_client_def)

lemma accept_inv:
  assumes "srv_inv lfd pfd s" and ans: "answer_ok d (An_accept cfd mem ok) s"
  shows "\<exists>s'. acceptHandler cfd mem ok s = Inr s' \<and> srv_inv lfd pfd s'"
proof -
  obtain st where inv: "px_inv lfd pfd st s" "job_inv st s" using assms(1) by (auto simp: srv_inv_def)
  have li: "loop_inv (sv_el s)" using inv(1) by (simp add: cli_inv_def)
  show ?thesis
  proof (cases "cfd = - 1")
    case True
    then show ?thesis using assms(1) by (simp add: acceptHandler_def)
  next
    case False
    then have fd: "0 \<le> cfd" "cfd \<notin> sv_open s" using ans by auto
    let ?s0 = "s\<lparr>sv_open := insert cfd (sv_open s)\<rparr>"
    show ?thesis
    proof (cases mem)
      case None
      have "srv_inv lfd pfd (s\<lparr>sv_open := sv_open s\<rparr>)" using assms(1) by simp
      then show ?thesis using None False fd by (simp add: acceptHandler_def createClient_def insert_absorb)
    next
      case (Some a)
      then have a: "sv_heap s a = None" using ans False by auto
      have l0: "loop_inv (sv_el ?s0)" using li by simp
      show ?thesis
      proof (cases "ok \<and> cfd < AE_SETSIZE")
        case refused: False
        then have "\<not> ok \<or> AE_SETSIZE \<le> cfd" by auto
        from register_refused [OF l0 fd(1) _ this, of AE_READABLE ReadQueryFromClient "Some a"]
        obtain L where L: "register ok cfd AE_READABLE ReadQueryFromClient (Some a) ?s0 = Inr (AE_ERR, ?s0\<lparr>sv_el := L\<rparr>)"
          "loop_inv L" "el_events L = el_events (sv_el s)" by auto
        let ?s = "s\<lparr>sv_el := L\<rparr>"
        have "px_inv lfd pfd st ?s" using L by (intro px.cli_cong [OF inv(1)]) auto
        moreover have "job_inv st ?s" using inv(2) wk_cong [of ?s s] by (simp add: job_inv_def)
        ultimately have "srv_inv lfd pfd ?s" by (rule invI)
        moreover have "insert cfd (sv_open s) - {cfd} - {cfd} = sv_open s" using fd(2) by auto
        ultimately show ?thesis using L(1) Some False by (simp add: acceptHandler_def createClient_def)
      next
        case True
        with register_ok [OF l0 fd(1), of AE_READABLE ReadQueryFromClient "Some a"]
        obtain L where L: "register ok cfd AE_READABLE ReadQueryFromClient (Some a) ?s0 = Inr (AE_OK, ?s0\<lparr>sv_el := L\<rparr>)"
          "loop_inv L" "el_events L = (el_events (sv_el s))(cfd := reg_entry (el_events (sv_el s) cfd) AE_READABLE ReadQueryFromClient (Some a))"
          by auto
        let ?t = "\<lambda>out n. (put a (new_client cfd) (?s0\<lparr>sv_el := L\<rparr>))\<lparr>sv_clients := sv_clients s + 1,
          sv_sent := (sv_sent s)(a := out), sv_numconnections := n\<rparr>"
        have "mask_of (sv_el s) cfd = 0"
          using inv(1) fd(2) unfolding cli_inv_def fd_inv_def by (metis option.exhaust)
        then have entry_new: "stage_ok L a (new_client cfd) Reading"
          using L(3) by (simp add: entry_def reg_entry_def idle_def) (simp add: new_client_def)
        have sent_new: "sent_ok [] (new_client cfd)"
          unfolding sent_ok_def by (intro exI [of _ "[]"]) (simp add: new_client_def)
        have new: "px_inv lfd pfd (st(a \<mapsto> Reading)) (?t [] n)" for n
          using True fd L entry_new sent_new by (intro px.cli_new [OF inv(1) a fd(2,1), where c = "new_client cfd"]) (auto simp: put_def)
        have sa: "st a = None" using inv(1) a by (auto simp: cli_inv_def)
        have job: "job_inv (st(a \<mapsto> Reading)) (?t out n)" for out n
          using sa by (intro job_inv_same [OF inv(2)]) (simp_all add: same_jobs_def job_stage_def put_def)
        have create: "createClient mem ok cfd ?s0 = Inr (Some a, ?t [] (sv_numconnections s))"
          using L(1) Some by (simp add: createClient_def put_def)
        show ?thesis
        proof (cases "sv_maxclients s \<noteq> 0 \<and> sv_clients s + 1 > sv_maxclients s")
          case True
          let ?err = "''-ERR max number of clients reached'' @ CRLF"
          have run: "acceptHandler cfd mem ok s = freeClient a (?t ?err (sv_numconnections s))"
            using create False True by (simp add: acceptHandler_def put_def)
          have "freeClient a (?t ?err n) = fmap (\<lambda>s'. s'\<lparr>sv_sent := (sv_sent s)(a := ?err)\<rparr>) (freeClient a (?t [] n))" for n
            by (simp add: freeClient_def client_at_def put_def unregister_def fmap_def fbind_def split: sum.splits)
          moreover obtain s' where s': "freeClient a (?t [] (sv_numconnections s)) = Inr s'"
            "px_inv lfd pfd (st(a \<mapsto> Reading, a := None)) s'" "same_jobs (?t [] (sv_numconnections s)) s'"
            using freeClient_ok [OF new [of "sv_numconnections s"], of a "new_client cfd"] by (auto simp: put_def)
          have sent: "sv_sent s' = (sv_sent s)(a := [])" "sv_heap s' a = None"
            using s'(1) by (auto simp: freeClient_def fbind_eq_Inr unregister_def fmap_eq_Inr)
          let ?s = "s'\<lparr>sv_sent := (sv_sent s)(a := ?err)\<rparr>"
          have "px_inv lfd pfd (st(a \<mapsto> Reading, a := None)) ?s"
            using s'(2) sent by (intro px.cli_cong [OF s'(2)]) (auto simp: cli_inv_def)
          moreover have "job_inv (st(a \<mapsto> Reading, a := None)) ?s"
            using s'(3) by (intro job_inv_same [OF job]) (simp_all add: same_jobs_def job_stage_def)
          ultimately show ?thesis unfolding run using s'(1) by (auto intro: invI)
        next
          case small: False
          have "acceptHandler cfd mem ok s = Inr (?t [] (sv_numconnections s + 1))"
            using create False small by (auto simp: acceptHandler_def put_def)
          then show ?thesis using invI [OF new job] by auto
        qed
      qed
    qed
  qed
qed

subsection \<open>Every reachable state\<close>

text \<open>Whose event it is.\<close>

lemma registered_who:
  assumes inv: "px_inv lfd pfd st s" and r: "registered (sv_el s) p fd msk"
  obtains (listen) "p = AcceptHandler" | (pipe) "p = CompletedJob"
  | (read) a c where "sv_heap s a = Some c" "fe_clientData (el_events (sv_el s) fd) = Some a" "st a = Some Reading"
      "p = ReadQueryFromClient"
  | (send) a c where "sv_heap s a = Some c" "fe_clientData (el_events (sv_el s) fd) = Some a" "st a = Some Writing"
      "p = SendReplyToClient"
proof -
  from px.registered_root [OF inv r] consider "proxy_roots lfd pfd fd = Some p"
    | a c g where "sv_heap s a = Some c" "cl_fd c = fd" "st a = Some g" "stage_ok (sv_el s) a c g" by auto
  then show thesis
  proof cases
    case 1
    then show thesis using listen pipe by (auto simp: proxy_roots_def split: if_splits)
  next
    case (2 a c g)
    show thesis
    proof (cases g)
      case Reading
      then show thesis
        using 2 read [OF 2(1)] entry_readable [OF _ r] by (auto simp: entry_def)
    next
      case Writing
      then show thesis
        using 2 send [OF 2(1)] entry_writable [OF _ r] by (auto simp: entry_def)
    qed (use 2 registered_mask [OF r] in auto)
  qed
qed

lemma handler_inv:
  assumes "srv_inv lfd pfd s" and r: "registered (sv_el s) p fd msk" and ans: "answers p ans"
    and ok: "answer_ok (fe_clientData (el_events (sv_el s) fd)) ans s"
  shows "case run_handler p (fe_clientData (el_events (sv_el s) fd)) ans s of
      Inr (Done s') \<Rightarrow> srv_inv lfd pfd s' | Inr _ \<Rightarrow> True
    | Inl e \<Rightarrow> \<exists>a c rd now mem. ans = An_read rd now mem \<and> sv_heap s a = Some c \<and> read_fault rd c e"
proof -
  obtain st where inv: "px_inv lfd pfd st s" "job_inv st s" using assms(1) by (auto simp: srv_inv_def)
  show ?thesis
  proof (cases rule: registered_who [OF inv(1) r])
    case 1
    then obtain cfd mem k where a: "ans = An_accept cfd mem k" using ans by (cases ans) auto
    with accept_inv [OF assms(1)] ok obtain s' where "acceptHandler cfd mem k s = Inr s'" "srv_inv lfd pfd s'" by blast
    then show ?thesis using 1 a by (simp add: run_handler_def)
  next
    case 2
    then obtain k where a: "ans = An_pipe k" using ans by (cases ans) auto
    show ?thesis
    proof (cases "sv_pipe s = 0")
      case True
      then show ?thesis using 2 a assms(1) by (simp add: run_handler_def completed_turn_def)
    next
      case False
      then show ?thesis using completed_inv [OF inv] 2 a ok by (auto simp: run_handler_def)
    qed
  next
    case (3 a c)
    then obtain rd now mem where a: "ans = An_read rd now mem" using ans by (cases ans) auto
    then obtain b where b: "mem = Some b" "ls_cells (sv_newjobs s) b = None" using ok by auto
    have "run_handler p (fe_clientData (el_events (sv_el s) fd)) ans s = readQueryFromClient rd now (Some b) a s"
      using 3 a b by (simp add: run_handler_def)
    then show ?thesis
      using read_inv [OF inv 3(1,3) b(2), of rd now] 3(1) a by (auto split: sum.splits run.splits)
  next
    case (4 a c)
    then obtain w now k where a: "ans = An_write w now k" using ans by (cases ans) auto
    with ok 4 have "k" "\<And>n. w = Wr_bytes n \<Longrightarrow> int n \<le> cl_wlen c - cl_wpos c" by auto
    with send_inv [OF inv 4(1,3), of w now] obtain s' where "sendReplyToClient w now k a s = Inr s'" "srv_inv lfd pfd s'"
      by auto
    then show ?thesis using 4 a by (simp add: run_handler_def)
  qed
qed

lemma step_inv: "sstep s s' \<Longrightarrow> srv_inv lfd pfd s \<Longrightarrow> srv_inv lfd pfd s'"
proof (induction rule: sstep.induct)
  case (handler s p fd msk ans s')
  then show ?case using handler_inv [of lfd pfd s p fd msk ans] by simp
next
  case (take_job t s s')
  then show ?case using take_inv [of lfd pfd s t] by auto
next
  case (run_job t s a as s')
  then show ?case using run_inv by blast
next
  case (push_job t s a b s')
  then show ?case using push_inv [of lfd pfd s t a b] by auto
next
  case (signal t s)
  then show ?case by (simp add: signal_inv)
qed

definition ports_ok :: "int \<Rightarrow> int \<Rightarrow> bool" where
  "ports_ok lfd pfd \<longleftrightarrow> 0 \<le> lfd \<and> lfd < AE_SETSIZE \<and> 0 \<le> pfd \<and> pfd < AE_SETSIZE \<and> lfd \<noteq> pfd"

lemma init_inv:
  assumes "ports_ok lfd pfd"
  shows "\<exists>s. initServer lfd pfd mods maxc = Inr s \<and> srv_inv lfd pfd s \<and> sv_maxclients s = maxc \<and> sv_clients s = 0"
proof -
  define s0 :: server where "s0 = \<lparr>sv_el = new_loop, sv_clients = 0, sv_heap = (\<lambda>_. None), sv_open = {lfd, pfd}, sv_sent = (\<lambda>_. []),
    sv_maxclients = maxc, sv_numconnections = 0, sv_newjobs = empty_list, sv_processed = empty_list,
    sv_pipe = 0, sv_workers = map (\<lambda>m. (Waiting, m)) mods, sv_leaks = []\<rparr>"
  have ports: "0 \<le> lfd" "lfd < AE_SETSIZE" "0 \<le> pfd" "pfd < AE_SETSIZE" "lfd \<noteq> pfd"
    using assms by (auto simp: ports_ok_def)
  have "loop_inv (sv_el s0)" by (simp add: s0_def new_loop_inv)
  from register_ok [OF this ports(1,2), of AE_READABLE AcceptHandler None] obtain L1 where
    L1: "register True lfd AE_READABLE AcceptHandler None s0 = Inr (AE_OK, s0\<lparr>sv_el := L1\<rparr>)" "loop_inv L1"
    "el_events L1 = (el_events (sv_el s0))(lfd := reg_entry (el_events (sv_el s0) lfd) AE_READABLE AcceptHandler None)"
    by auto
  have "loop_inv (sv_el (s0\<lparr>sv_el := L1\<rparr>))" using L1(2) by simp
  from register_ok [OF this ports(3,4), of AE_READABLE CompletedJob None] obtain L2 where
    L2: "register True pfd AE_READABLE CompletedJob None (s0\<lparr>sv_el := L1\<rparr>) = Inr (AE_OK, s0\<lparr>sv_el := L2\<rparr>)" "loop_inv L2"
    "el_events L2 = (el_events L1)(pfd := reg_entry (el_events L1 pfd) AE_READABLE CompletedJob None)" by auto
  let ?s = "s0\<lparr>sv_el := L2\<rparr>"
  have ev: "el_events L2 g = (if g = lfd then reg_entry no_event AE_READABLE AcceptHandler None
      else if g = pfd then reg_entry no_event AE_READABLE CompletedJob None else no_event)" for g
    using L1(3) L2(3) ports(5) by (simp add: s0_def new_loop_def)
  have "fd_inv (proxy_roots lfd pfd) cl_fd ?s"
    using ports(5) ev by (auto simp: fd_inv_def s0_def entry_def reg_entry_def no_event_def proxy_roots_def)
  then have cli: "px_inv lfd pfd Map.empty ?s" using L2(2) by (simp add: cli_inv_def s0_def)
  have wait: "wk ?s t = (if t < length mods then Some Waiting else None)" for t
    by (simp add: wk_def s0_def)
  have none: "wk ?s t \<noteq> Some p" if "p \<noteq> Waiting" for t p using wait that by simp
  have q: "queue_of Map.empty g empty_list []" for g
    using empty_nat_list by (simp add: queue_of_def)
  have "hands Map.empty Running Working (wk ?s)" "hands Map.empty Ran Finished (wk ?s)"
    using none by (simp_all add: hands_def)
  moreover have "{t. wk ?s t = Some Signalling} = {}" using none by simp
  ultimately have "job_inv Map.empty ?s"
    unfolding job_inv_def using q by (auto simp: s0_def)
  with cli have "srv_inv lfd pfd ?s" by (rule invI)
  moreover have "initServer lfd pfd mods maxc = Inr ?s"
    using L1(1) L2(1) by (simp add: initServer_def s0_def)
  ultimately show ?thesis by (simp add: s0_def)
qed

lemma reachable_inv:
  assumes "reachable lfd pfd mods maxc s" "ports_ok lfd pfd"
  shows "srv_inv lfd pfd s"
  using assms
proof (induction rule: reachable.induct)
  case (start s)
  then show ?case using init_inv [OF start(2), of mods maxc] by auto
next
  case (step s s')
  then show ?case using step_inv by blast
qed

subsection \<open>Properties\<close>

text \<open>C9. In every reachable state, whatever events and answers come next, no handler faults: no
  client is used after it was freed, the \<open>assert\<close> on the processed queue holds, no null handler is
  called. The only exceptions are in reading a request: no memory for the buffer, a request of
  two gigabytes, or bytes on which the request scanner itself faults.\<close>

theorem proxy_no_fault:
  assumes "ports_ok lfd pfd" "reachable lfd pfd mods maxc s"
    and "registered (sv_el s) p fd msk" "answers p ans"
    and "answer_ok (fe_clientData (el_events (sv_el s) fd)) ans s"
  shows "(\<exists>r. run_handler p (fe_clientData (el_events (sv_el s) fd)) ans s = Inr r)
    \<or> (\<exists>a c rd now mem e. run_handler p (fe_clientData (el_events (sv_el s) fd)) ans s = Inl e
        \<and> ans = An_read rd now mem \<and> sv_heap s a = Some c \<and> read_fault rd c e)"
proof -
  have "srv_inv lfd pfd s" using reachable_inv assms(1,2) by blast
  note h = handler_inv [OF this assms(3-5)]
  show ?thesis
  proof (cases "run_handler p (fe_clientData (el_events (sv_el s) fd)) ans s")
    case (Inl e)
    with h show ?thesis by (simp del: split_paired_Ex)
  qed blast
qed

lemma demo_start:
  "\<exists>s. initServer 3 4 mods maxc = Inr s \<and> registered (sv_el s) AcceptHandler 3 1 \<and> sv_heap s = (\<lambda>_. None)
    \<and> sv_open s = {3, 4} \<and> sv_maxclients s = maxc \<and> sv_clients s = 0
    \<and> fe_clientData (el_events (sv_el s) 3) = None \<and> sv_el s = sv_el s"
  by (simp add: initServer_def register_def aeCreateFileEvent_def AE_SETSIZE_def Let_def registered_def
      new_loop_def no_event_def aeApiAddEvent_def)

lemma ports_demo: "ports_ok 3 4"
  by (simp add: ports_ok_def AE_SETSIZE_def)

theorem proxy_no_fault_witness:
  "\<exists>s r. reachable 3 4 [] 0 s \<and> run_handler AcceptHandler None (An_accept 5 (Some 100) True) s = Inr r"
proof -
  obtain s where s: "initServer 3 4 [] 0 = Inr s" "registered (sv_el s) AcceptHandler 3 1"
    "sv_heap s = (\<lambda>_. None)" "sv_open s = {3, 4}" "fe_clientData (el_events (sv_el s) 3) = None"
    using demo_start [of "[]" 0] by auto
  have r: "reachable 3 4 [] 0 s" using s(1) by (rule reachable.start)
  from proxy_no_fault [OF ports_demo r s(2), of "An_accept 5 (Some 100) True"] s r show ?thesis by auto
qed

lemma demo_client:
  "\<exists>s c. reachable 3 4 [] 0 s \<and> sv_heap s 100 = Some c"
proof -
  obtain s where s: "initServer 3 4 [] 0 = Inr s" "registered (sv_el s) AcceptHandler 3 1"
    "sv_heap s = (\<lambda>_. None)" "sv_open s = {3, 4}" "fe_clientData (el_events (sv_el s) 3) = None"
    "sv_maxclients s = 0" using demo_start [of "[]" 0] by auto
  have r: "reachable 3 4 [] 0 s" using s(1) by (rule reachable.start)
  have ok: "answer_ok None (An_accept 5 (Some 100) True) s" using s by simp
  obtain s' where s': "acceptHandler 5 (Some 100) True s = Inr s'"
    using accept_inv [OF reachable_inv [OF r ports_demo] ok] by blast
  then have "sstep s s'"
    using s ok by (intro sstep.handler [OF s(2), of "An_accept 5 (Some 100) True"]) (simp_all add: run_handler_def)
  moreover have "sv_heap s' 100 = Some (new_client 5)"
    using s'
    by (auto simp: acceptHandler_def createClient_def fbind_eq_Inr register_def fmap_eq_Inr put_def s(6)
        aeCreateFileEvent_def aeApiAddEvent_def AE_SETSIZE_def Let_def split: option.splits if_splits)
  ultimately show ?thesis using reachable.step [OF r] by blast
qed



text \<open>The places a client can be.\<close>

definition held :: "server \<Rightarrow> nat \<Rightarrow> bool" where
  "held s a \<longleftrightarrow> (\<exists>t. wk s t = Some (Working a) \<or> wk s t = Some (Finished a))"

definition places :: "server \<Rightarrow> nat list \<Rightarrow> nat list \<Rightarrow> nat \<Rightarrow> redisClient \<Rightarrow> bool list" where
  "places s ns ps a c = [mask_of (sv_el s) (cl_fd c) = AE_READABLE, a \<in> set ns, held s a, a \<in> set ps,
     mask_of (sv_el s) (cl_fd c) = AE_WRITABLE]"

text \<open>C11. In every reachable state, each client is in exactly one place: registered for reading, in
  \<open>io_newjobs\<close>, in the hands of a worker, in \<open>io_processed\<close>, or registered for writing; a queue
  holds no client twice and only live ones; and the bytes in the pipe with the workers about to
  write one are as many as the processed clients, so none of them is forgotten.\<close>

theorem proxy_one_place:
  assumes "ports_ok lfd pfd" "reachable lfd pfd mods maxc s"
  shows "\<exists>ns ps. list_vals (sv_newjobs s) ns \<and> list_vals (sv_processed s) ps \<and> distinct ns \<and> distinct ps
    \<and> (\<forall>a. a \<in> set ns \<or> a \<in> set ps \<or> held s a \<longrightarrow> sv_heap s a \<noteq> None)
    \<and> sv_pipe s + card {t. wk s t = Some Signalling} = length ps
    \<and> (\<forall>a c. sv_heap s a = Some c \<longrightarrow> length (filter id (places s ns ps a c)) = 1)"
proof -
  obtain st where inv: "px_inv lfd pfd st s" "job_inv st s"
    using reachable_inv [OF assms(2,1)] by (auto simp: srv_inv_def)
  obtain ns ps where j: "queue_of st Queued (sv_newjobs s) ns" "queue_of st Processed (sv_processed s) ps"
    "hands st Running Working (wk s)" "hands st Ran Finished (wk s)"
    "sv_pipe s + card {t. wk s t = Some Signalling} = length ps"
    using inv(2) by (auto simp: job_inv_def)
  have held: "held s a \<longleftrightarrow> st a = Some Running \<or> st a = Some Ran" for a
    using hands_iff [OF j(3), of a] hands_iff [OF j(4), of a] by (auto simp: held_def)
  have q: "a \<in> set ns \<longleftrightarrow> st a = Some Queued" "a \<in> set ps \<longleftrightarrow> st a = Some Processed" for a
    using j(1,2) by (auto simp: queue_of_def)
  have "length (filter id (places s ns ps a c)) = 1" if a: "sv_heap s a = Some c" for a c
  proof -
    obtain g where "st a = Some g" "stage_ok (sv_el s) a c g" using client_stage [OF inv(1) a] by blast
    then show ?thesis by (cases g) (simp_all add: places_def held q entry_def)
  qed
  moreover have "sv_heap s a \<noteq> None" if "st a \<noteq> None" for a
    using that px.cli_live [OF inv(1)] by auto
  ultimately show ?thesis
    using j(1,2,5) held q by (intro exI [of _ ns] exI [of _ ps]) (auto simp: queue_of_def)
qed

theorem proxy_one_place_witness:
  "\<exists>s ns ps. reachable 3 4 [] 0 s \<and> list_vals (sv_newjobs s) ns \<and> list_vals (sv_processed s) ps
    \<and> (\<exists>c. sv_heap s 100 = Some c \<and> length (filter id (places s ns ps 100 c)) = 1)"
  using demo_client proxy_one_place [OF ports_demo] by metis

text \<open>A client whose connection breaks while its reply is written: the reply buffer is lost.\<close>

lemma proxy_leak:
  assumes "ports_ok lfd pfd" "reachable lfd pfd mods maxc s"
    and reg: "registered (sv_el s) SendReplyToClient fd msk"
  shows "\<exists>a w s'. run_handler SendReplyToClient (fe_clientData (el_events (sv_el s) fd)) (An_write Wr_error now True) s
      = Inr (Done s') \<and> sv_heap s' a = None \<and> sv_leaks s' = sv_leaks s @ [w]"
proof -
  obtain st where inv: "px_inv lfd pfd st s"
    using reachable_inv [OF assms(2,1)] by (auto simp: srv_inv_def)
  have "\<exists>a c. sv_heap s a = Some c \<and> fe_clientData (el_events (sv_el s) fd) = Some a \<and> st a = Some Writing"
    by (rule registered_who [OF inv reg]) auto
  then obtain a c where a: "sv_heap s a = Some c" "fe_clientData (el_events (sv_el s) fd) = Some a" "st a = Some Writing"
    by blast
  then have "answered c" using client_stage [OF inv a(1)] by auto
  then obtain rb w where b: "cl_rbuf c = Some rb" "cl_wbuf c = Some w" "cl_wlen c \<le> int (length w)"
    by (auto simp: answered_def whole_reply_def fits_def split: option.splits)
  obtain s' where "freeClient a s = Inr s'" "px_inv lfd pfd (st(a := None)) s'" "sv_leaks s' = sv_leaks s @ [w]"
    using freeClient_ok [OF inv a(1)] b by auto
  moreover from this(2) have "dom (st(a := None)) = dom (sv_heap s')" by (simp add: cli_inv_def)
  then have "a \<notin> dom (sv_heap s')" by auto
  then have "sv_heap s' a = None" by (simp add: domIff)
  ultimately show ?thesis
    using a b by (intro exI [of _ a] exI [of _ w] exI [of _ s']) (simp add: run_handler_def sendReplyToClient_def)
qed

text \<open>When a worker's \<open>listAddNodeTail\<close> has no memory, its client is forgotten but the byte is still
  written: the main thread's next turn fails the assertion.\<close>

lemma push_without_memory:
  assumes "t < length (sv_workers s)" "list_vals (sv_processed s) []" "worker_push t None a s = Inr s1"
  shows "completed_turn ok (worker_signal t s1) = Inl Assert_failed"
proof -
  have s1: "s1 = set_worker t (Signalling, snd (sv_workers s ! t)) s"
    using assms(3) by (simp add: worker_push_def listAddNodeTail_def)
  have "listPopFirst (sv_processed (worker_signal t s1)) = Inr None"
    using adlist.pop_empty_law [OF assms(2)] s1 by (simp add: worker_signal_def set_worker_def)
  then show ?thesis by (simp add: completed_turn_def worker_signal_def set_worker_def)
qed

subsection \<open>The limit on clients\<close>

text \<open>A step adds at most one client, and none beyond the limit.\<close>

definition shrinks :: "server \<Rightarrow> server \<Rightarrow> bool" where
  "shrinks s s' \<longleftrightarrow> sv_maxclients s' = sv_maxclients s
     \<and> (sv_clients s' = sv_clients s \<or> sv_clients s' = sv_clients s - 1)"

lemma shrinks_refl [simp]: "shrinks s s"
  by (simp add: shrinks_def)

lemma unregister_counts: "unregister fd m s = Inr s' \<Longrightarrow> sv_clients s' = sv_clients s \<and> sv_maxclients s' = sv_maxclients s"
  by (auto simp: unregister_def fmap_eq_Inr)

lemma register_counts: "register ok fd m p d s = Inr (r, s') \<Longrightarrow> sv_clients s' = sv_clients s \<and> sv_maxclients s' = sv_maxclients s"
  by (auto simp: register_def fmap_eq_Inr)

lemma freeClient_counts: "freeClient a s = Inr s' \<Longrightarrow> sv_clients s' = sv_clients s - 1 \<and> sv_maxclients s' = sv_maxclients s"
  by (auto simp: freeClient_def fbind_eq_Inr dest!: unregister_counts)

lemma queueIOJob_counts: "queueIOJob m a s = Inr s' \<Longrightarrow> sv_clients s' = sv_clients s \<and> sv_maxclients s' = sv_maxclients s"
  by (auto simp: queueIOJob_def fmap_eq_Inr split: option.splits)

lemma process_counts:
  assumes "processInputBuffer m a s = Inr (Done s')"
  shows "shrinks s s'"
proof -
  obtain c x where c: "client_at a s = Inr c" "processRequestBuffer (the (cl_rbuf c)) (cl_rlen c) = Inr x"
    using assms by (auto simp: processInputBuffer_def fbind_eq_Inr)
  show ?thesis
  proof (cases x)
    case (Proc_exit e)
    then show ?thesis using assms c by (simp add: processInputBuffer_def)
  next
    case (Ret v)
    then show ?thesis
      using assms c
      by (auto simp: processInputBuffer_def shrinks_def fbind_eq_Inr fmap_eq_Inr split: if_splits
          dest!: freeClient_counts unregister_counts queueIOJob_counts)
  qed
qed

lemma read_counts: "readQueryFromClient r now m a s = Inr (Done s') \<Longrightarrow> shrinks s s'"
  by (auto simp: readQueryFromClient_def fbind_eq_Inr fmap_eq_Inr Let_def shrinks_def put_def
      split: if_splits read_answer.splits dest!: freeClient_counts process_counts)

lemma reset_counts: "resetClient ok a s = Inr s' \<Longrightarrow> sv_clients s' = sv_clients s \<and> sv_maxclients s' = sv_maxclients s"
  by (auto simp: resetClient_def fbind_eq_Inr fmap_eq_Inr put_def dest!: unregister_counts register_counts)

lemma send_counts: "sendReplyToClient w now ok a s = Inr s' \<Longrightarrow> shrinks s s'"
  by (auto simp: sendReplyToClient_def fbind_eq_Inr fmap_eq_Inr Let_def shrinks_def put_def
      split: if_splits write_answer.splits option.splits dest!: freeClient_counts reset_counts)

lemma completed_counts: "completed_turn ok s = Inr (Some s') \<Longrightarrow> shrinks s s'"
  by (auto simp: completed_turn_def fbind_eq_Inr fmap_eq_Inr shrinks_def split: if_splits option.splits
      dest!: register_counts)

lemma worker_counts:
  "worker_take t s = Inr s' \<Longrightarrow> shrinks s s'"
  "worker_push t m a s = Inr s' \<Longrightarrow> shrinks s s'"
  "shrinks s (worker_signal t s)"
  by (auto simp: worker_take_def worker_push_def worker_signal_def fmap_eq_Inr shrinks_def set_worker_def
      split: option.splits)

lemma run_counts: "worker_run t as a s = Inr (Done s') \<Longrightarrow> shrinks s s'"
proof -
  assume run: "worker_run t as a s = Inr (Done s')"
  then obtain c x where x: "client_at a s = Inr c" "redisCommandProc as c (snd (sv_workers s ! t)) = Inr x"
    by (auto simp: worker_run_def fbind_eq_Inr fmap_eq_Inr)
  then show ?thesis using run by (cases x) (auto simp: worker_run_def shrinks_def set_worker_def put_def)
qed

text \<open>Within the limit, in words.\<close>

definition within :: "server \<Rightarrow> bool" where
  "within s \<longleftrightarrow> sv_maxclients s = 0 \<or> sv_clients s \<le> sv_maxclients s"

lemma accept_counts:
  assumes "acceptHandler cfd mem ok s = Inr s'" "within s"
  shows "sv_maxclients s' = sv_maxclients s \<and> within s'"
proof (cases "cfd = - 1 \<or> mem = None")
  case True
  then show ?thesis
    using assms by (cases "cfd = - 1") (auto simp: acceptHandler_def createClient_def within_def)
next
  case False
  then obtain a where a: "mem = Some a" by auto
  let ?s0 = "s\<lparr>sv_open := insert cfd (sv_open s)\<rparr>"
  obtain r s1 where r: "register ok cfd AE_READABLE ReadQueryFromClient (Some a) ?s0 = Inr (r, s1)"
    using assms(1) False a by (auto simp: acceptHandler_def createClient_def fbind_eq_Inr)
  note k = register_counts [OF r]
  show ?thesis
  proof (cases "r = AE_ERR")
    case True
    then show ?thesis using assms r a False k by (auto simp: acceptHandler_def createClient_def within_def)
  next
    case ok: False
    show ?thesis
    proof (cases "sv_maxclients s \<noteq> 0 \<and> sv_clients s + 1 > sv_maxclients s")
      case True
      then show ?thesis
        using assms r a False k ok
        by (auto simp: acceptHandler_def createClient_def within_def put_def dest!: freeClient_counts)
    next
      case small: False
      then show ?thesis
        using assms(1) r a False k ok
        by (auto simp: acceptHandler_def createClient_def within_def put_def)
    qed
  qed
qed

lemma shrinks_within:
  assumes "shrinks s s'" "within s" "srv_inv lfd pfd s" "srv_inv lfd pfd s'"
  shows "within s'"
proof -
  have small: "unat (sv_clients t) \<le> 10240" if "srv_inv lfd pfd t" for t
  proof -
    obtain st where st: "px_inv lfd pfd st t" using \<open>srv_inv lfd pfd t\<close> by (auto simp: srv_inv_def)
    then have "sv_clients t = of_nat (card (dom st))" by (simp add: cli_inv_def fd_inv_def)
    then show ?thesis
      using px.clients_bound(2) [OF st] by (simp add: unsigned_of_nat take_bit_nat_eq_self)
  qed
  show ?thesis
  proof (cases "sv_clients s = 0 \<and> sv_clients s' = sv_clients s - 1")
    case True
    then have "sv_clients s' = - 1" by simp
    with small [OF assms(4)] show ?thesis by (simp add: unsigned_minus_1_eq_mask mask_eq_exp_minus_1)
  next
    case False
    then have "sv_clients s' \<le> sv_clients s"
      using assms(1) unat_minus_one [of "sv_clients s"] by (auto simp: shrinks_def word_le_nat_alt)
    then show ?thesis using assms(1,2) by (auto simp: within_def shrinks_def)
  qed
qed

lemma step_counts:
  assumes "sstep s s'" "within s" "srv_inv lfd pfd s"
  shows "sv_maxclients s' = sv_maxclients s \<and> within s'"
proof -
  have inv': "srv_inv lfd pfd s'" using step_inv assms by blast
  have sh: "sv_maxclients s' = sv_maxclients s \<and> within s'" if "shrinks s s'"
    using shrinks_within [OF that assms(2,3) inv'] that by (auto simp: shrinks_def)
  show ?thesis
    using assms(1)
  proof cases
    case (handler p fd msk ans)
    then consider a m b where "ans = An_accept a m b" "acceptHandler a m b s = Inr s'"
      | rd now m a where "readQueryFromClient rd now m a s = Inr (Done s')"
      | w now k a where "sendReplyToClient w now k a s = Inr s'"
      | k where "completed_turn k s = Inr (Some s')" | "s' = s"
      by (cases p; cases ans) (auto simp: run_handler_def fmap_eq_Inr split: option.splits)
    then show ?thesis
      using accept_counts [OF _ assms(2)] assms(2) sh read_counts send_counts completed_counts
      by cases blast+
  next
    case take_job
    then show ?thesis using sh worker_counts(1) by blast
  next
    case run_job
    then show ?thesis using sh run_counts by blast
  next
    case push_job
    then show ?thesis using sh worker_counts(2) by blast
  next
    case signal
    then show ?thesis using sh worker_counts(3) by blast
  qed
qed

text \<open>With a limit set, there are never more clients than the limit, and the counter the limit is
  checked against is the number of clients, however they come and go.\<close>

theorem proxy_maxclients:
  assumes "ports_ok lfd pfd" "reachable lfd pfd mods maxc s"
  shows "unat (sv_clients s) = card (dom (sv_heap s)) \<and> (maxc = 0 \<or> card (dom (sv_heap s)) \<le> unat maxc)"
proof -
  have "sv_maxclients s = maxc \<and> within s"
    using assms(2)
  proof (induction rule: reachable.induct)
    case (start s)
    then show ?case using init_inv [OF assms(1), of mods maxc] by (auto simp: within_def)
  next
    case (step s s')
    then show ?case using step_counts [OF step(2)] reachable_inv [OF step(1) assms(1)] by blast
  qed
  moreover obtain st where st: "px_inv lfd pfd st s"
    using reachable_inv [OF assms(2,1)] by (auto simp: srv_inv_def)
  then have "sv_clients s = of_nat (card (dom (sv_heap s)))" "card (dom (sv_heap s)) \<le> 10240"
    using px.clients_bound(2) [OF st] by (simp_all add: cli_inv_def fd_inv_def)
  then have "unat (sv_clients s) = card (dom (sv_heap s))" by (simp add: unsigned_of_nat take_bit_nat_eq_self)
  ultimately show ?thesis by (auto simp: within_def word_le_nat_alt)
qed

theorem proxy_maxclients_witness:
  "\<exists>s. reachable 3 4 [] 2 s \<and> unat (sv_clients s) = card (dom (sv_heap s)) \<and> card (dom (sv_heap s)) \<le> 2"
proof -
  obtain s where "initServer 3 4 [] 2 = Inr s" using demo_start [of "[]" 2] by auto
  then have r: "reachable 3 4 [] 2 s" by (rule reachable.start)
  from proxy_maxclients [OF ports_demo r] r show ?thesis by auto
qed

end
