(* ===== verification/UuidServer.thy ===== *)
theory UuidServer
  imports Conns
begin

section \<open>The unique id servers (redis-uuid/redis.c, redis-ckw/redis.c)\<close>

text \<open>
  Two programs from one text: memcached clients ask \<open>get\<close> and are answered a number that no other
  answer has. They differ in buffer sizes, in the layout of the number (52 or 64 bits) and in
  details of the handlers; \<open>variant\<close> is what differs, and each operation is written once for both
  (\<open>redis-ckw\<close> is \<open>ckw\<close>, \<open>redis-uuid\<close> is \<open>uuid\<close>). The buffers are arrays inside the client
  structure, here strings of that length. The clock of an event is an argument.
\<close>

subsection \<open>The numbers\<close>

text \<open>\<open>unsigned long long\<close> is a 64-bit word; the result is the number and the new counter.\<close>

definition get_uuid :: "int \<Rightarrow> 64 word \<Rightarrow> 64 word \<Rightarrow> 64 word \<times> 64 word" where
  "get_uuid now mid sid =
     (let uuid = push_bit 32 (word_of_int now) + push_bit 24 mid; sid1 = sid + 1
      in (uuid + sid1 mod (2 ^ 24), sid1))"

definition get_uuid_52bit :: "int \<Rightarrow> 64 word \<Rightarrow> 64 word \<Rightarrow> 64 word \<times> 64 word" where
  "get_uuid_52bit now mid sid =
     (let uuid = push_bit 22 (word_of_int now - 515483463) + push_bit 18 mid; sid1 = sid + 1
      in (uuid + sid1 mod (2 ^ 18), sid1))"

subsection \<open>State\<close>

datatype uproc = AcceptHandler_u | ReadQuery_u | SendReply_u

record uclient =
  uc_fd :: int
  uc_rbuf :: string
  uc_wbuf :: string
  uc_rlen :: int
  uc_wlen :: int
  uc_wpos :: int
  uc_last :: int

record userver = "(uproc, uclient) conns" +
  us_maxclients :: "32 word"
  us_numcommands :: int
  us_numconnections :: int
  us_mid :: "64 word"
  us_sid :: "64 word"

definition show_word :: "('a :: len) word \<Rightarrow> string" where
  "show_word w = show_nat (unat w)"

definition value_reply :: "string \<Rightarrow> 64 word \<Rightarrow> string" where
  "value_reply len u = ''VALUE uuid 0 '' @ len @ CRLF @ show_word u @ CRLF @ ''END'' @ CRLF"

definition stats_reply :: "userver \<Rightarrow> string" where
  "stats_reply s = ''STAT version 3.0.1'' @ CRLF @ ''STAT unique_id '' @ show_word (us_mid s) @ CRLF
     @ ''STAT cmd_get '' @ show_int (us_numcommands s) @ CRLF
     @ ''STAT curr_connections '' @ show_word (sv_clients s) @ CRLF
     @ ''STAT total_connections '' @ show_int (us_numconnections s) @ CRLF @ ''END'' @ CRLF"

text \<open>What the two programs do with a request line that is neither incomplete nor \<open>quit\<close>.\<close>

definition answer_uuid :: "int \<Rightarrow> uclient \<Rightarrow> userver \<Rightarrow> (int \<times> uclient \<times> userver) res" where
  "answer_uuid now c s =
     fbind (c_strncaseeq (uc_rbuf c) ''get '') (\<lambda>g.
       if g then
         let (u, sid1) = get_uuid_52bit now (us_mid s) (us_sid s);
             w = c_snprintf (512 - 1) (value_reply ''16'' u) (uc_wbuf c)
         in fmap (\<lambda>t. (1, c\<lparr>uc_wbuf := w, uc_wlen := int (length t)\<rparr>,
               s\<lparr>us_sid := sid1, us_numcommands := us_numcommands s + 1\<rparr>)) (c_str w)
       else
         fbind (c_strncaseeq (uc_rbuf c) (take 4 ''stats '')) (\<lambda>g.
           if g then
             let w = c_snprintf (512 - 1) (stats_reply s) (uc_wbuf c)
             in fmap (\<lambda>t. (1, c\<lparr>uc_wbuf := w, uc_wlen := int (length t)\<rparr>, s)) (c_str w)
           else Inr (- 1, c, s)))"

definition answer_ckw :: "int \<Rightarrow> uclient \<Rightarrow> userver \<Rightarrow> (int \<times> uclient \<times> userver) res" where
  "answer_ckw now c s =
     fbind (c_strncaseeq (uc_rbuf c) ''get '') (\<lambda>g.
       if g then
         let (u, sid1) = get_uuid now (us_mid s) (us_sid s);
             w = c_snprintf 127 (value_reply ''19'' u) (uc_wbuf c)
         in fmap (\<lambda>t. (1, c\<lparr>uc_wbuf := w, uc_wlen := int (length t)\<rparr>, s\<lparr>us_sid := sid1\<rparr>)) (c_str w)
       else Inr (- 1, c, s))"

record variant =
  v_read_len :: nat
  v_write_len :: nat
  v_answer :: "int \<Rightarrow> uclient \<Rightarrow> userver \<Rightarrow> (int \<times> uclient \<times> userver) res"
  v_count_refused :: bool

definition uuid :: variant where
  "uuid = \<lparr>v_read_len = 64, v_write_len = 512, v_answer = answer_uuid, v_count_refused = True\<rparr>"

definition ckw :: variant where
  "ckw = \<lparr>v_read_len = 1024, v_write_len = 1024, v_answer = answer_ckw, v_count_refused = False\<rparr>"

subsection \<open>Requests\<close>

definition ProcessRequestBuffer_u :: "variant \<Rightarrow> int \<Rightarrow> uclient \<Rightarrow> userver \<Rightarrow> (int \<times> uclient \<times> userver) res" where
  "ProcessRequestBuffer_u v now c s =
     fbind (c_strstr CRLF (uc_rbuf c)) (\<lambda>p. case p of
         None \<Rightarrow> Inr (0, c, s)
       | Some k \<Rightarrow>
           if int k \<noteq> uc_rlen c - 2 then Inr (- 1, c, s)
           else fbind (c_strcaseeq (uc_rbuf c) (''quit'' @ CRLF)) (\<lambda>q.
             if q then Inr (- 2, c, s) else v_answer v now c s))"

subsection \<open>Clients\<close>

definition freeClient_u :: "nat \<Rightarrow> userver \<Rightarrow> userver res" where
  "freeClient_u a s =
     fbind (client_at a s) (\<lambda>c.
     fbind (unregister (uc_fd c) AE_READABLE s) (\<lambda>s1.
     fbind (unregister (uc_fd c) AE_WRITABLE s1) (\<lambda>s2.
       Inr (s2\<lparr>sv_open := sv_open s2 - {uc_fd c}, sv_heap := (sv_heap s2)(a := None),
         sv_clients := sv_clients s2 - 1\<rparr>))))"

definition new_client_u :: "variant \<Rightarrow> int \<Rightarrow> uclient" where
  "new_client_u v fd = \<lparr>uc_fd = fd, uc_rbuf = replicate (v_read_len v) NUL,
     uc_wbuf = replicate (v_write_len v) NUL, uc_rlen = 0, uc_wlen = 0, uc_wpos = 0, uc_last = 0\<rparr>"

definition createClient_u :: "variant \<Rightarrow> nat option \<Rightarrow> bool \<Rightarrow> int \<Rightarrow> userver \<Rightarrow> (nat option \<times> userver) res" where
  "createClient_u v mem ok fd s =
     (case mem of None \<Rightarrow> Inr (None, s)
      | Some a \<Rightarrow>
          fbind (register ok fd AE_READABLE ReadQuery_u (Some a) s) (\<lambda>(r, s1).
            if r = AE_ERR then Inr (None, s1\<lparr>sv_open := sv_open s1 - {fd}\<rparr>)
            else Inr (Some a, (put a (new_client_u v fd) s1)\<lparr>sv_clients := sv_clients s1 + 1,
                   sv_sent := (sv_sent s1)(a := [])\<rparr>)))"

text \<open>\<open>redis-uuid\<close> counts a connection before the limit is checked, \<open>redis-ckw\<close> after.\<close>

definition acceptHandler_u :: "variant \<Rightarrow> int \<Rightarrow> nat option \<Rightarrow> bool \<Rightarrow> userver \<Rightarrow> userver res" where
  "acceptHandler_u v cfd mem ok s =
     (if cfd = AE_ERR then Inr s
      else
        fbind (createClient_u v mem ok cfd (s\<lparr>sv_open := insert cfd (sv_open s)\<rparr>)) (\<lambda>(r, s1).
        case r of
          None \<Rightarrow> Inr (s1\<lparr>sv_open := sv_open s1 - {cfd}\<rparr>)
        | Some a \<Rightarrow>
            let s2 = (if v_count_refused v then s1\<lparr>us_numconnections := us_numconnections s1 + 1\<rparr> else s1) in
            if us_maxclients s2 \<noteq> 0 \<and> sv_clients s2 > us_maxclients s2
            then freeClient_u a (s2\<lparr>sv_sent := (sv_sent s2)(a :=
              sv_sent s2 a @ ''-ERR max number of clients reached'' @ CRLF)\<rparr>)
            else Inr (if v_count_refused v then s2 else s2\<lparr>us_numconnections := us_numconnections s2 + 1\<rparr>)))"

text \<open>Code 1: the reply is ready and the client waits to be written to.\<close>

definition processInputBuffer_u :: "variant \<Rightarrow> int \<Rightarrow> bool \<Rightarrow> nat \<Rightarrow> userver \<Rightarrow> userver res" where
  "processInputBuffer_u v now ok a s =
     fbind (client_at a s) (\<lambda>c.
     fbind (ProcessRequestBuffer_u v now c s) (\<lambda>(r, c1, s0).
       let s1 = put a c1 s0 in
       if r = - 1 \<or> r = - 2 then freeClient_u a s1
       else if r = 1 then
         fbind (unregister (uc_fd c) AE_READABLE s1) (\<lambda>s2.
         fmap snd (register ok (uc_fd c) AE_WRITABLE SendReply_u (Some a) s2))
       else Inr s1))"

datatype uread = Ur_error | Ur_again | Ur_bytes string
datatype uwrite = Uw_error | Uw_again | Uw_bytes nat

text \<open>\<open>read(fd, rbuf + rlen, READ_BUF_LEN - rlen - 1)\<close>; bytes the kernel would write beyond the array
  are a fault.\<close>

definition store_at :: "string \<Rightarrow> int \<Rightarrow> string \<Rightarrow> string res" where
  "store_at b i d = (if 0 \<le> i \<and> i + int (length d) \<le> int (length b)
     then Inr (take (nat i) b @ d @ drop (nat i + length d) b) else Inl Buffer_overflow)"

definition readQueryFromClient_u :: "variant \<Rightarrow> uread \<Rightarrow> int \<Rightarrow> bool \<Rightarrow> nat \<Rightarrow> userver \<Rightarrow> userver res" where
  "readQueryFromClient_u v ans now ok a s =
     fbind (client_at a s) (\<lambda>c. case ans of
         Ur_error \<Rightarrow> freeClient_u a s
       | Ur_again \<Rightarrow> Inr s
       | Ur_bytes data \<Rightarrow>
           if data = [] then freeClient_u a s
           else fbind (store_at (uc_rbuf c) (uc_rlen c) data) (\<lambda>b.
             let c1 = c\<lparr>uc_rbuf := b, uc_rlen := uc_rlen c + int (length data)\<rparr> in
             if uc_rlen c1 \<ge> int (v_read_len v) - 1 then freeClient_u a (put a c1 s)
             else processInputBuffer_u v now ok a (put a (c1\<lparr>uc_last := now\<rparr>) s)))"

definition resetClient_u :: "variant \<Rightarrow> bool \<Rightarrow> nat \<Rightarrow> userver \<Rightarrow> userver res" where
  "resetClient_u v ok a s =
     fbind (client_at a s) (\<lambda>c.
     fbind (unregister (uc_fd c) AE_WRITABLE
       (put a (c\<lparr>uc_rbuf := replicate (v_read_len v) NUL, uc_wbuf := replicate (v_write_len v) NUL,
          uc_rlen := 0, uc_wlen := 0, uc_wpos := 0\<rparr>) s)) (\<lambda>s1.
     fbind (unregister (uc_fd c) AE_READABLE s1) (\<lambda>s2.
     fmap snd (register ok (uc_fd c) AE_READABLE ReadQuery_u (Some a) s2))))"

definition sendReplyToClient_u :: "variant \<Rightarrow> uwrite \<Rightarrow> int \<Rightarrow> bool \<Rightarrow> nat \<Rightarrow> userver \<Rightarrow> userver res" where
  "sendReplyToClient_u v ans now ok a s =
     fbind (client_at a s) (\<lambda>c.
     if uc_wpos c < 0 \<or> uc_wlen c > int (length (uc_wbuf c)) then Inl Out_of_bounds
     else case ans of
       Uw_error \<Rightarrow> freeClient_u a s
     | Uw_again \<Rightarrow> if uc_wpos c = uc_wlen c then resetClient_u v ok a s else Inr s
     | Uw_bytes n \<Rightarrow>
         let c1 = (if 0 < n then c\<lparr>uc_last := now, uc_wpos := uc_wpos c + int n\<rparr> else c);
             s1 = (put a c1 s)\<lparr>sv_sent := (sv_sent s)(a := sv_sent s a @ take n (drop (nat (uc_wpos c)) (uc_wbuf c)))\<rparr>
         in if uc_wpos c1 = uc_wlen c1 then resetClient_u v ok a s1 else Inr s1)"

subsection \<open>Starting and running\<close>

record uconfig =
  uf_port :: int
  uf_verbosity :: int
  uf_daemonize :: bool
  uf_bindaddr :: "string option"
  uf_maxclients :: "32 word"
  uf_mid :: "64 word"

definition initServerConfig_u :: "64 word \<Rightarrow> uconfig" where
  "initServerConfig_u mid = \<lparr>uf_port = 6376, uf_verbosity = 4, uf_daemonize = False, uf_bindaddr = None,
     uf_maxclients = 1024, uf_mid = mid\<rparr>"

text \<open>The argument loop of \<open>main\<close>: \<open>getopt\<close> answers option letters with their arguments; \<open>Inl\<close> is
  the exit status. \<open>mid\<close> is unsigned, so \<open>mid < 0\<close> never holds and a negative argument is above
  the upper bound.\<close>

fun opt_loop :: "64 word \<Rightarrow> 64 word \<Rightarrow> (char \<times> string) list \<Rightarrow> uconfig \<Rightarrow> (int + uconfig) res" where
  "opt_loop lo hi [] f = Inr (Inr f)"
| "opt_loop lo hi ((o1, arg) # os) f =
     (if o1 = CHR ''p'' then fbind (c_atoi (arg @ [NUL])) (\<lambda>n. opt_loop lo hi os (f\<lparr>uf_port := n\<rparr>))
      else if o1 = CHR ''c'' then fbind (c_atoi (arg @ [NUL])) (\<lambda>n. opt_loop lo hi os (f\<lparr>uf_maxclients := word_of_int n\<rparr>))
      else if o1 = CHR ''u'' then fbind (c_atoi (arg @ [NUL])) (\<lambda>n.
        let m = word_of_int n in
        if m < lo \<or> m > hi then Inr (Inl 1) else opt_loop lo hi os (f\<lparr>uf_mid := m\<rparr>))
      else if o1 = CHR ''v'' then opt_loop lo hi os (f\<lparr>uf_verbosity := 0\<rparr>)
      else if o1 = CHR ''d'' then opt_loop lo hi os (f\<lparr>uf_daemonize := True\<rparr>)
      else if o1 = CHR ''l'' then opt_loop lo hi os (f\<lparr>uf_bindaddr := Some arg\<rparr>)
      else Inr (Inl 1))"

text \<open>\<open>main\<close> up to \<open>initServer\<close>: \<open>redis-uuid\<close> starts from \<open>mid = 10000\<close> and accepts 0 to 15.\<close>

definition main_u :: "(char \<times> string) list \<Rightarrow> (int + uconfig) res" where
  "main_u args = fmap (\<lambda>r. case r of Inl e \<Rightarrow> Inl e
     | Inr f \<Rightarrow> if uf_mid f < 0 \<or> uf_mid f > 15 then Inl 1 else Inr f)
     (opt_loop 0 15 args (initServerConfig_u 10000))"

definition main_ckw :: "(char \<times> string) list \<Rightarrow> (int + uconfig) res" where
  "main_ckw args = fmap (\<lambda>r. case r of Inl e \<Rightarrow> Inl e
     | Inr f \<Rightarrow> if uf_mid f < 1 \<or> uf_mid f > 255 then Inl 1 else Inr f)
     (opt_loop 1 255 args (initServerConfig_u 0))"

definition initServer_u :: "int \<Rightarrow> uconfig \<Rightarrow> userver res" where
  "initServer_u lfd f =
     (let s = \<lparr>sv_el = new_loop, sv_clients = 0, sv_heap = (\<lambda>_. None), sv_open = {lfd}, sv_sent = (\<lambda>_. []),
        us_maxclients = uf_maxclients f, us_numcommands = 0, us_numconnections = 0, us_mid = uf_mid f, us_sid = 0\<rparr>
      in fbind (register True lfd AE_READABLE AcceptHandler_u None s) (\<lambda>(r, s1).
         if r = AE_ERR then Inl Out_of_memory else Inr s1))"

datatype uanswer =
    Ua_accept int "nat option" bool
  | Ua_read uread int bool
  | Ua_write uwrite int bool

definition run_handler_u :: "variant \<Rightarrow> uproc \<Rightarrow> nat option \<Rightarrow> uanswer \<Rightarrow> userver \<Rightarrow> userver res" where
  "run_handler_u v p d ans s =
     (case (p, d, ans) of
        (AcceptHandler_u, _, Ua_accept cfd mem ok) \<Rightarrow> acceptHandler_u v cfd mem ok s
      | (ReadQuery_u, Some a, Ua_read r now ok) \<Rightarrow> readQueryFromClient_u v r now ok a s
      | (SendReply_u, Some a, Ua_write w now ok) \<Rightarrow> sendReplyToClient_u v w now ok a s
      | _ \<Rightarrow> Inl Null_deref)"

text \<open>What the kernel and \<open>malloc\<close> may answer: \<open>read\<close> and \<open>write\<close> move no more bytes than they were
  offered; the registration of a descriptor that was registered before succeeds.\<close>

fun answer_ok_u :: "variant \<Rightarrow> uproc \<Rightarrow> nat option \<Rightarrow> uanswer \<Rightarrow> userver \<Rightarrow> bool" where
  "answer_ok_u v AcceptHandler_u d (Ua_accept cfd mem ok) s \<longleftrightarrow>
     cfd = - 1 \<or> (0 \<le> cfd \<and> cfd \<notin> sv_open s \<and> (\<forall>a. mem = Some a \<longrightarrow> sv_heap s a = None))"
| "answer_ok_u v ReadQuery_u d (Ua_read r now ok) s \<longleftrightarrow> ok
     \<and> (\<forall>data a c. r = Ur_bytes data \<longrightarrow> d = Some a \<longrightarrow> sv_heap s a = Some c \<longrightarrow>
          int (length data) \<le> int (v_read_len v) - uc_rlen c - 1)"
| "answer_ok_u v SendReply_u d (Ua_write w now ok) s \<longleftrightarrow> ok
     \<and> (\<forall>n a c. w = Uw_bytes n \<longrightarrow> d = Some a \<longrightarrow> sv_heap s a = Some c \<longrightarrow> int n \<le> uc_wlen c - uc_wpos c)"
| "answer_ok_u v p d ans s \<longleftrightarrow> False"

text \<open>The operations of \<open>redis-ckw\<close> under their own names.\<close>

definition createClient_ckw :: "nat option \<Rightarrow> bool \<Rightarrow> int \<Rightarrow> userver \<Rightarrow> (nat option \<times> userver) res" where
  "createClient_ckw = createClient_u ckw"

definition acceptHandler_ckw :: "int \<Rightarrow> nat option \<Rightarrow> bool \<Rightarrow> userver \<Rightarrow> userver res" where
  "acceptHandler_ckw = acceptHandler_u ckw"

definition freeClient_ckw :: "nat \<Rightarrow> userver \<Rightarrow> userver res" where
  "freeClient_ckw = freeClient_u"

definition ProcessRequestBuffer_ckw :: "int \<Rightarrow> uclient \<Rightarrow> userver \<Rightarrow> (int \<times> uclient \<times> userver) res" where
  "ProcessRequestBuffer_ckw = ProcessRequestBuffer_u ckw"

text \<open>Code \<open>-2\<close> frees the client and falls through to two tests that do not hold.\<close>

definition processInputBuffer_ckw :: "int \<Rightarrow> bool \<Rightarrow> nat \<Rightarrow> userver \<Rightarrow> userver res" where
  "processInputBuffer_ckw = processInputBuffer_u ckw"

definition readQueryFromClient_ckw :: "uread \<Rightarrow> int \<Rightarrow> bool \<Rightarrow> nat \<Rightarrow> userver \<Rightarrow> userver res" where
  "readQueryFromClient_ckw = readQueryFromClient_u ckw"

definition resetClient_ckw :: "bool \<Rightarrow> nat \<Rightarrow> userver \<Rightarrow> userver res" where
  "resetClient_ckw = resetClient_u ckw"

definition sendReplyToClient_ckw :: "uwrite \<Rightarrow> int \<Rightarrow> bool \<Rightarrow> nat \<Rightarrow> userver \<Rightarrow> userver res" where
  "sendReplyToClient_ckw = sendReplyToClient_u ckw"

definition initServerConfig_ckw :: uconfig where
  "initServerConfig_ckw = initServerConfig_u 0"

definition initServer_ckw :: "int \<Rightarrow> uconfig \<Rightarrow> userver res" where
  "initServer_ckw = initServer_u"

definition run_handler_ckw :: "uproc \<Rightarrow> nat option \<Rightarrow> uanswer \<Rightarrow> userver \<Rightarrow> userver res" where
  "run_handler_ckw p d ans s =
     (case (p, d, ans) of
        (AcceptHandler_u, _, Ua_accept cfd mem ok) \<Rightarrow> acceptHandler_ckw cfd mem ok s
      | (ReadQuery_u, Some a, Ua_read r now ok) \<Rightarrow> readQueryFromClient_ckw r now ok a s
      | (SendReply_u, Some a, Ua_write w now ok) \<Rightarrow> sendReplyToClient_ckw w now ok a s
      | _ \<Rightarrow> Inl Null_deref)"

inductive reachable_u :: "variant \<Rightarrow> int \<Rightarrow> uconfig \<Rightarrow> userver \<Rightarrow> bool" for v lfd f where
  start_u: "initServer_u lfd f = Inr s \<Longrightarrow> reachable_u v lfd f s"
| step_u: "\<lbrakk>reachable_u v lfd f s; registered (sv_el s) p fd msk;
     answer_ok_u v p (fe_clientData (el_events (sv_el s) fd)) ans s;
     run_handler_u v p (fe_clientData (el_events (sv_el s) fd)) ans s = Inr s'\<rbrakk> \<Longrightarrow> reachable_u v lfd f s'"

section \<open>The numbers are unique\<close>

text \<open>Three fields in a word: \<open>x\<close> from bit \<open>b + j\<close>, \<open>m\<close> in the \<open>j\<close> bits from bit \<open>b\<close>, a counter below.\<close>

lemma unat_shifted:
  fixes w :: "64 word"
  assumes "unat w < 2 ^ k" "k + n \<le> 64"
  shows "unat (push_bit n w) = unat w * 2 ^ n"
proof -
  have "unat w * 2 ^ n < 2 ^ k * 2 ^ n" using assms(1) by simp
  also have "\<dots> = 2 ^ (k + n)" by (simp add: power_add)
  also have "\<dots> \<le> 2 ^ 64" using assms(2) by (intro power_increasing) auto
  finally have "take_bit 64 (unat w * 2 ^ n) = unat w * 2 ^ n" by (intro take_bit_nat_eq_self) simp
  moreover have "unat (push_bit n w) = take_bit 64 (push_bit n (unat w))" by (simp only: unsigned_push_bit_eq) simp
  ultimately show ?thesis by (simp only: push_bit_nat_def)
qed

lemma fields_bound:
  fixes x m r :: nat
  assumes "m < 2 ^ j" "r < 2 ^ b"
  shows "m * 2 ^ b + r < 2 ^ (b + j)"
proof -
  have "m * 2 ^ b + r < (m + 1) * 2 ^ b" using assms(2) by simp
  also have "\<dots> \<le> 2 ^ j * 2 ^ b" using assms(1) by (intro mult_right_mono) auto
  finally show ?thesis by (simp add: power_add mult.commute)
qed

lemma fields_unique:
  fixes x m r :: nat
  assumes "m < 2 ^ j" "r < 2 ^ b" "m' < 2 ^ j" "r' < 2 ^ b"
  shows "x * 2 ^ (b + j) + m * 2 ^ b + r = x' * 2 ^ (b + j) + m' * 2 ^ b + r' \<longleftrightarrow> x = x' \<and> m = m' \<and> r = r'"
proof
  let ?l = "m * 2 ^ b + r" and ?l' = "m' * 2 ^ b + r'"
  assume "x * 2 ^ (b + j) + m * 2 ^ b + r = x' * 2 ^ (b + j) + m' * 2 ^ b + r'"
  then have eq: "x * 2 ^ (b + j) + ?l = x' * 2 ^ (b + j) + ?l'" by simp
  have "x = (x * 2 ^ (b + j) + ?l) div 2 ^ (b + j)" "?l = (x * 2 ^ (b + j) + ?l) mod 2 ^ (b + j)"
    "x' = (x' * 2 ^ (b + j) + ?l') div 2 ^ (b + j)" "?l' = (x' * 2 ^ (b + j) + ?l') mod 2 ^ (b + j)"
    using fields_bound [OF assms(1,2)] fields_bound [OF assms(3,4)] by simp_all
  with eq have x: "x = x'" "?l = ?l'" by metis+
  have "m = ?l div 2 ^ b" "r = ?l mod 2 ^ b" "m' = ?l' div 2 ^ b" "r' = ?l' mod 2 ^ b"
    using assms(2,4) by simp_all
  with x show "x = x' \<and> m = m' \<and> r = r'" by metis
qed auto

lemma unat_fields:
  fixes x m r :: "64 word"
  assumes "unat x < 2 ^ k" "unat m < 2 ^ j" "k + (b + j) \<le> 64" "b < 64" "0 < k"
  shows "unat (push_bit (b + j) x + push_bit b m + r mod 2 ^ b)
    = unat x * 2 ^ (b + j) + unat m * 2 ^ b + unat r mod 2 ^ b"
proof -
  have x: "unat (push_bit (b + j) x) = unat x * 2 ^ (b + j)" using unat_shifted [OF assms(1,3)] .
  have m: "unat (push_bit b m) = unat m * 2 ^ b" using unat_shifted [OF assms(2), of b] assms(3) by simp
  have r: "unat (r mod 2 ^ b) = unat r mod 2 ^ b"
    using unsigned_take_bit_eq [of b r] assms(4) by (simp add: take_bit_eq_mod)
  have low: "unat m * 2 ^ b + unat r mod 2 ^ b < 2 ^ (b + j)" using fields_bound [OF assms(2)] by simp
  have "unat x * 2 ^ (b + j) + 2 ^ (b + j) \<le> (unat x + 1) * 2 ^ (b + j)" by simp
  also have "\<dots> \<le> 2 ^ k * 2 ^ (b + j)" using assms(1) by (intro mult_right_mono) auto
  also have "\<dots> = 2 ^ (k + (b + j))" by (simp add: power_add)
  also have "\<dots> \<le> 2 ^ 64" using assms(3) by (intro power_increasing) auto
  finally have "unat x * 2 ^ (b + j) + unat m * 2 ^ b + unat r mod 2 ^ b < 2 ^ 64" using low by simp
  then show ?thesis
    using x m r by (simp add: unat_word_ariths)
qed

lemma get_uuid_52bit_value:
  assumes "0 \<le> t - 515483463" "t - 515483463 < 2 ^ 42" "m < 16"
  shows "unat (fst (get_uuid_52bit t m s))
    = nat (t - 515483463) * 2 ^ (18 + 4) + unat m * 2 ^ 18 + unat (s + 1) mod 2 ^ 18"
proof -
  have "word_of_int t - 515483463 = (word_of_int (t - 515483463) :: 64 word)"
    using wi_hom_sub [of t 515483463] by simp
  moreover have "unat (word_of_int (t - 515483463) :: 64 word) = nat (t - 515483463)"
    using assms(1,2) by (simp add: unsigned_of_int take_bit_int_eq_self del: wi_hom_sub of_int_diff)
  ultimately show ?thesis
    using unat_fields [of "word_of_int t - 515483463" 42 m 4 18 "s + 1"] assms
    by (simp add: get_uuid_52bit_def Let_def word_less_nat_alt nat_less_iff)
qed

lemma get_uuid_value:
  assumes "0 \<le> t" "t < 2 ^ 32" "m < 256"
  shows "unat (fst (get_uuid t m s)) = nat t * 2 ^ (24 + 8) + unat m * 2 ^ 24 + unat (s + 1) mod 2 ^ 24"
proof -
  have "unat (word_of_int t :: 64 word) = nat t"
    using assms(1,2) by (simp add: unsigned_of_int take_bit_int_eq_self)
  then show ?thesis
    using unat_fields [of "word_of_int t" 32 m 8 24 "s + 1"] assms
    by (simp add: get_uuid_def Let_def word_less_nat_alt nat_less_iff)
qed

text \<open>The numbers a server hands out for requests at the times \<open>ts\<close>.\<close>

fun numbers :: "(int \<Rightarrow> 64 word \<Rightarrow> 64 word \<Rightarrow> 64 word \<times> 64 word) \<Rightarrow> 64 word \<Rightarrow> 64 word \<Rightarrow> int list \<Rightarrow> 64 word list" where
  "numbers gen m s [] = []"
| "numbers gen m s (t # ts) = (let (u, s1) = gen t m s in u # numbers gen m s1 ts)"

definition times_ok :: "int \<Rightarrow> nat \<Rightarrow> nat \<Rightarrow> int list \<Rightarrow> bool" where
  "times_ok base k b ts \<longleftrightarrow> sorted ts \<and> (\<forall>t \<in> set ts. base \<le> t \<and> t < base + 2 ^ k \<and> count_list ts t \<le> 2 ^ b)"

text \<open>What the two layouts share: seconds since \<open>base\<close>, \<open>j\<close> bits of server id, \<open>b\<close> bits of counter.\<close>

locale numbering =
  fixes gen :: "int \<Rightarrow> 64 word \<Rightarrow> 64 word \<Rightarrow> 64 word \<times> 64 word"
    and base :: int and k j b :: nat
  assumes counts: "snd (gen t m s) = s + 1"
    and fields: "base \<le> t \<Longrightarrow> t < base + 2 ^ k \<Longrightarrow> unat m < 2 ^ j \<Longrightarrow>
      unat (fst (gen t m s)) = nat (t - base) * 2 ^ (b + j) + unat m * 2 ^ b + unat (s + 1) mod 2 ^ b"
    and small: "b \<le> 64"
begin

lemma same_number:
  assumes "base \<le> t" "t < base + 2 ^ k" "base \<le> t'" "t' < base + 2 ^ k" "unat m < 2 ^ j" "unat m' < 2 ^ j"
  shows "fst (gen t m s) = fst (gen t' m' s')
    \<longleftrightarrow> t = t' \<and> m = m' \<and> unat (s + 1) mod 2 ^ b = unat (s' + 1) mod 2 ^ b"
proof -
  have "fst (gen t m s) = fst (gen t' m' s') \<longleftrightarrow> unat (fst (gen t m s)) = unat (fst (gen t' m' s'))"
    by (simp add: word_unat_eq_iff)
  also have "\<dots> \<longleftrightarrow> nat (t - base) = nat (t' - base) \<and> unat m = unat m'
      \<and> unat (s + 1) mod 2 ^ b = unat (s' + 1) mod 2 ^ b"
    unfolding fields [OF assms(1,2,5)] fields [OF assms(3,4,6)]
    using assms(5,6) by (intro fields_unique) simp_all
  finally show ?thesis using assms(1,3) by (auto simp: word_unat_eq_iff)
qed

lemma length_numbers [simp]: "length (numbers gen m s ts) = length ts"
  by (induction ts arbitrary: s) (simp_all add: case_prod_beta)

lemma nth_numbers: "i < length ts \<Longrightarrow> numbers gen m s ts ! i = fst (gen (ts ! i) m (s + of_nat i))"
proof (induction ts arbitrary: s i)
  case (Cons t ts)
  then show ?case
    by (cases i) (simp_all add: case_prod_beta counts add.assoc add.commute [of 1])
qed simp

lemma counter_mod:
  fixes s :: "64 word"
  shows "unat (s + of_nat i + 1) mod 2 ^ b = (unat s + i + 1) mod 2 ^ b"
proof -
  have "s + of_nat i + 1 = of_nat (unat s + i + 1)" by simp
  then have "unat (s + of_nat i + 1) = unat (of_nat (unat s + i + 1) :: 64 word)" by (rule arg_cong)
  also have "\<dots> = (unat s + i + 1) mod 2 ^ 64" by (simp only: unsigned_of_nat take_bit_eq_mod) simp
  finally have "unat (s + of_nat i + 1) = (unat s + i + 1) mod 2 ^ 64" .
  moreover have "(2 :: nat) ^ b dvd 2 ^ 64" using small by (rule le_imp_power_dvd)
  ultimately show ?thesis by (simp only: mod_mod_cancel)
qed

lemma between:
  fixes ts :: "int list"
  assumes "sorted ts" "i < l" "l < length ts" "ts ! i = ts ! l"
  shows "l - i < count_list ts (ts ! i)"
proof -
  have "{i..l} \<subseteq> {x. x < length ts \<and> ts ! x = ts ! i}"
  proof
    fix x assume "x \<in> {i..l}"
    then have "ts ! i \<le> ts ! x" "ts ! x \<le> ts ! l" "x < length ts"
      using assms(1,3) by (auto intro: sorted_nth_mono)
    with assms(4) show "x \<in> {x. x < length ts \<and> ts ! x = ts ! i}" by simp
  qed
  then have "card {i..l} \<le> card {x. x < length ts \<and> ts ! x = ts ! i}"
    by (intro card_mono) auto
  moreover have "count_list ts (ts ! i) = card {x. x < length ts \<and> ts ! x = ts ! i}"
    by (simp add: count_list_eq_length_filter length_filter_conv_card) (metis)
  ultimately show ?thesis using assms(2) by simp
qed

lemma numbers_distinct:
  assumes ts: "times_ok base k b ts" and m: "unat m < 2 ^ j"
  shows "distinct (numbers gen m s ts)"
proof -
  have "numbers gen m s ts ! i \<noteq> numbers gen m s ts ! l" if il: "i < l" "l < length ts" for i l
  proof
    assume "numbers gen m s ts ! i = numbers gen m s ts ! l"
    then have "fst (gen (ts ! i) m (s + of_nat i)) = fst (gen (ts ! l) m (s + of_nat l))"
      using il by (simp add: nth_numbers)
    moreover have "ts ! i \<in> set ts" "ts ! l \<in> set ts" using il by simp_all
    ultimately have eq: "ts ! i = ts ! l" "(unat s + i + 1) mod 2 ^ b = (unat s + l + 1) mod 2 ^ b"
      using same_number [of "ts ! i" "ts ! l" m m] ts m by (auto simp: times_ok_def counter_mod)
    then have "2 ^ b dvd (unat s + l + 1) - (unat s + i + 1)" by (metis mod_eq_dvd_iff_nat nat_le_linear diff_is_0_eq dvd_0_right)
    then have "2 ^ b dvd l - i" by simp
    then have "2 ^ b \<le> l - i" using il by (intro dvd_imp_le) auto
    moreover have "count_list ts (ts ! i) \<le> 2 ^ b" using ts \<open>ts ! i \<in> set ts\<close> by (simp add: times_ok_def)
    ultimately show False using between [OF _ il eq(1)] ts by (simp add: times_ok_def)
  qed
  then show ?thesis by (subst distinct_conv_nth) (metis length_numbers nat_neq_iff)
qed

lemma numbers_apart:
  assumes "times_ok base k b ts" "times_ok base k b ts'" "unat m < 2 ^ j" "unat m' < 2 ^ j" "m \<noteq> m'"
  shows "set (numbers gen m s ts) \<inter> set (numbers gen m' s' ts') = {}"
proof -
  have "numbers gen m s ts ! i \<noteq> numbers gen m' s' ts' ! l" if "i < length ts" "l < length ts'" for i l
  proof -
    have "ts ! i \<in> set ts" "ts' ! l \<in> set ts'" using that by simp_all
    then show ?thesis
      using same_number [of "ts ! i" "ts' ! l" m m'] assms that by (auto simp: times_ok_def nth_numbers)
  qed
  then show ?thesis by (force simp: set_conv_nth)
qed

end

interpretation n52: numbering get_uuid_52bit 515483463 42 4 18
  by unfold_locales
    (simp_all add: get_uuid_52bit_value word_less_nat_alt, simp add: get_uuid_52bit_def Let_def)

interpretation n64: numbering get_uuid 0 32 8 24
  by unfold_locales
    (simp_all add: get_uuid_value word_less_nat_alt, simp add: get_uuid_def Let_def)

lemma main_u_mid:
  assumes "main_u args = Inr (Inr f)"
  shows "unat (uf_mid f) < 2 ^ 4"
proof -
  obtain r where "opt_loop 0 15 args (initServerConfig_u 10000) = Inr r"
    using assms by (auto simp: main_u_def fmap_eq_Inr)
  then show ?thesis using assms by (cases r) (simp_all add: main_u_def word_less_nat_alt split: if_split_asm)
qed

lemma main_ckw_mid:
  assumes "main_ckw args = Inr (Inr f)"
  shows "unat (uf_mid f) < 2 ^ 8"
proof -
  obtain r where "opt_loop 1 255 args (initServerConfig_u 0) = Inr r"
    using assms by (auto simp: main_ckw_def fmap_eq_Inr)
  then show ?thesis using assms by (cases r) (simp_all add: main_ckw_def word_less_nat_alt split: if_split_asm)
qed

text \<open>C20. The numbers of \<open>redis-uuid\<close> are unique: a server started by \<open>main\<close> never hands out one
  twice while its clock does not go back, each second has at most \<open>2 ^ 18\<close> requests and the time
  fits in 42 bits; and two servers with different \<open>-u\<close> ids never hand out the same one.\<close>

theorem uuid_distinct:
  assumes "main_u args = Inr (Inr f)" "main_u args' = Inr (Inr f')"
    and "times_ok 515483463 42 18 ts" "times_ok 515483463 42 18 ts'"
  shows "distinct (numbers get_uuid_52bit (uf_mid f) sid ts)
    \<and> (uf_mid f \<noteq> uf_mid f' \<longrightarrow>
        set (numbers get_uuid_52bit (uf_mid f) sid ts) \<inter> set (numbers get_uuid_52bit (uf_mid f') sid' ts') = {})"
  using n52.numbers_distinct [OF assms(3) main_u_mid [OF assms(1)]]
    n52.numbers_apart [OF assms(3,4) main_u_mid [OF assms(1)] main_u_mid [OF assms(2)]] by blast

theorem uuid_distinct_witness:
  "\<exists>f f'. main_u [(CHR ''u'', ''3'')] = Inr (Inr f) \<and> main_u [(CHR ''u'', ''4''), (CHR ''d'', [])] = Inr (Inr f')
    \<and> distinct (numbers get_uuid_52bit (uf_mid f) 7 [1300000000, 1300000000])
    \<and> set (numbers get_uuid_52bit (uf_mid f) 7 [1300000000, 1300000000])
      \<inter> set (numbers get_uuid_52bit (uf_mid f') 7 [1300000000]) = {}"
proof -
  have "c_atoi (''3'' @ [NUL]) = Inr 3" "c_atoi (''4'' @ [NUL]) = Inr 4"
    by (simp_all add: c_atoi_def is_space_def is_digit_def digit_val_def)
  then have m: "\<exists>f. main_u [(CHR ''u'', ''3'')] = Inr (Inr f) \<and> uf_mid f = 3"
    "\<exists>f. main_u [(CHR ''u'', ''4''), (CHR ''d'', [])] = Inr (Inr f) \<and> uf_mid f = 4"
    by (simp_all add: main_u_def initServerConfig_u_def)
  then obtain f f' where f: "main_u [(CHR ''u'', ''3'')] = Inr (Inr f)" "uf_mid f = 3"
    "main_u [(CHR ''u'', ''4''), (CHR ''d'', [])] = Inr (Inr f')" "uf_mid f' = 4" by blast
  have "times_ok 515483463 42 18 [1300000000, 1300000000]" "times_ok 515483463 42 18 [1300000000]"
    by (simp_all add: times_ok_def)
  from uuid_distinct [OF f(1,3) this, of 7 7] f show ?thesis by auto
qed

text \<open>The same of \<open>redis-ckw\<close>: ids 1 to 255, \<open>2 ^ 24\<close> requests a second, times of 32 bits.\<close>

theorem ckw_distinct:
  assumes "main_ckw args = Inr (Inr f)" "main_ckw args' = Inr (Inr f')"
    and "times_ok 0 32 24 ts" "times_ok 0 32 24 ts'"
  shows "distinct (numbers get_uuid (uf_mid f) sid ts)
    \<and> (uf_mid f \<noteq> uf_mid f' \<longrightarrow>
        set (numbers get_uuid (uf_mid f) sid ts) \<inter> set (numbers get_uuid (uf_mid f') sid' ts') = {})"
  using n64.numbers_distinct [OF assms(3) main_ckw_mid [OF assms(1)]]
    n64.numbers_apart [OF assms(3,4) main_ckw_mid [OF assms(1)] main_ckw_mid [OF assms(2)]] by blast

theorem ckw_distinct_witness:
  "\<exists>f. main_ckw [(CHR ''u'', ''7'')] = Inr (Inr f) \<and> distinct (numbers get_uuid (uf_mid f) 7 [1300000000, 1300000001])"
proof -
  have "c_atoi (''7'' @ [NUL]) = Inr 7"
    by (simp_all add: c_atoi_def is_space_def is_digit_def digit_val_def)
  then obtain f where f: "main_ckw [(CHR ''u'', ''7'')] = Inr (Inr f)"
    by (simp add: main_ckw_def initServerConfig_u_def)
  have "times_ok 0 32 24 [1300000000, 1300000001]" by (simp add: times_ok_def)
  from ckw_distinct [OF f f this this] f show ?thesis by auto
qed

subsection \<open>Answers\<close>

lemma show_word_nul [simp]: "NUL \<notin> set (show_word w)"
  using show_nat_no_cr by (auto simp: show_word_def)

lemma value_reply_nul: "NUL \<notin> set len \<Longrightarrow> NUL \<notin> set (value_reply len u)"
  by (simp add: value_reply_def)

lemma length_show_word: "length (show_word (u :: 64 word)) \<le> 20"
proof -
  have "unat u < 2 ^ 64" by (rule order.strict_trans2 [OF unsigned_less]) simp
  then have "unat u < 10 ^ 20" by simp
  then show ?thesis unfolding show_word_def by (rule length_show_nat) simp
qed

text \<open>The buffer after \<open>read\<close>: a line and zeros.\<close>

definition holds_line :: "variant \<Rightarrow> uclient \<Rightarrow> string \<Rightarrow> bool" where
  "holds_line v c l \<longleftrightarrow> uc_rbuf c = l @ CRLF @ replicate (v_read_len v - length l - 2) NUL
     \<and> uc_rlen c = int (length l) + 2 \<and> length l + 2 < v_read_len v \<and> length (uc_wbuf c) = v_write_len v
     \<and> CR \<notin> set l \<and> NUL \<notin> set l"

lemma process_get:
  assumes "holds_line v c (''get '' @ key)"
  shows "ProcessRequestBuffer_u v now c s = v_answer v now c s \<and> c_strncaseeq (uc_rbuf c) ''get '' = Inr True"
proof -
  let ?l = "''get '' @ key"
  have b: "uc_rbuf c = ?l @ CR # LF # replicate (v_read_len v - length ?l - 2) NUL"
    and l: "\<forall>x \<in> set ?l. x \<noteq> CR \<and> x \<noteq> NUL" "uc_rlen c = int (length ?l) + 2"
    using assms by (auto simp: holds_line_def)
  have "c_strstr CRLF (uc_rbuf c) = Inr (Some (length ?l))"
    unfolding b using l(1) by (rule c_strstr_digits)
  moreover have "c_strcaseeq (uc_rbuf c) (''quit'' @ CRLF) = Inr False"
    unfolding b by (simp add: to_lower_def)
  moreover have "c_strncaseeq (uc_rbuf c) ''get '' = Inr True"
    unfolding b by simp
  ultimately show ?thesis using l(2) by (simp add: ProcessRequestBuffer_u_def)
qed

lemma show_word_digits: "x \<in> set (show_word w) \<Longrightarrow> is_digit x"
  by (simp add: show_word_def show_nat_digits)

lemma length_show_between: "10 ^ n \<le> unat u \<Longrightarrow> unat u < 10 ^ Suc n \<Longrightarrow> length (show_word u) = Suc n"
  using length_show_nat [of "unat u" "Suc n"] length_show_nat_ge [of n "unat u"] by (simp add: show_word_def)

lemma digits_52bit:
  assumes "m < 16" "753902043 \<le> t" "t < 2899669254"
  shows "length (show_word (fst (get_uuid_52bit t m s))) = 16"
proof -
  have v: "unat (fst (get_uuid_52bit t m s))
    = nat (t - 515483463) * 2 ^ (18 + 4) + unat m * 2 ^ 18 + unat (s + 1) mod 2 ^ 18"
    using assms by (intro get_uuid_52bit_value) simp_all
  have "unat m * 2 ^ 18 + unat (s + 1) mod 2 ^ 18 < 2 ^ (18 + 4)"
    using assms(1) by (intro fields_bound) (simp_all add: word_less_nat_alt)
  moreover have "238418580 \<le> nat (t - 515483463)" "nat (t - 515483463) \<le> 2384185790"
    using assms(2,3) by linarith+
  ultimately have "10 ^ 15 \<le> unat (fst (get_uuid_52bit t m s))" "unat (fst (get_uuid_52bit t m s)) < 10 ^ Suc 15"
    unfolding v by simp_all
  then have "length (show_word (fst (get_uuid_52bit t m s))) = Suc 15" by (rule length_show_between)
  then show ?thesis by simp
qed

lemma digits_64bit:
  assumes "m < 256" "232830644 \<le> t" "t < 2328306436"
  shows "length (show_word (fst (get_uuid t m s))) = 19"
proof -
  have v: "unat (fst (get_uuid t m s)) = nat t * 2 ^ (24 + 8) + unat m * 2 ^ 24 + unat (s + 1) mod 2 ^ 24"
    using assms by (intro get_uuid_value) simp_all
  have "unat m * 2 ^ 24 + unat (s + 1) mod 2 ^ 24 < 2 ^ (24 + 8)"
    using assms(1) by (intro fields_bound) (simp_all add: word_less_nat_alt)
  moreover have "232830644 \<le> nat t" "nat t \<le> 2328306435"
    using assms(2,3) by linarith+
  ultimately have "10 ^ 18 \<le> unat (fst (get_uuid t m s))" "unat (fst (get_uuid t m s)) < 10 ^ Suc 18"
    unfolding v by simp_all
  then have "length (show_word (fst (get_uuid t m s))) = Suc 18" by (rule length_show_between)
  then show ?thesis by simp
qed

text \<open>The answer fits in the buffer.\<close>

lemma value_fits:
  assumes "n \<le> length b" "60 < n" "NUL \<notin> set len" "length len \<le> 2"
  shows "c_str (c_snprintf n (value_reply len u) b) = Inr (value_reply len u)"
  using assms length_show_word [of u] by (intro c_str_snprintf(1) value_reply_nul) (simp_all add: value_reply_def)

text \<open>A memcached \<open>get\<close> of any key is answered with one \<open>VALUE\<close> block whose number is the next
  unique id, and the byte count that the block announces, 16, is the number of its digits (until
  the year 2061).\<close>

theorem uuid_get_reply:
  assumes "holds_line uuid c (''get '' @ key)" "us_mid s < 16" "753902043 \<le> now" "now < 2899669254"
  shows "\<exists>d c' s'. ProcessRequestBuffer_u uuid now c s = Inr (1, c', s')
    \<and> c_str (uc_wbuf c') = Inr (''VALUE uuid 0 16'' @ CRLF @ d @ CRLF @ ''END'' @ CRLF)
    \<and> uc_wlen c' = int (length (''VALUE uuid 0 16'' @ CRLF @ d @ CRLF @ ''END'' @ CRLF))
    \<and> length d = 16 \<and> (\<forall>x \<in> set d. is_digit x)
    \<and> d = show_word (fst (get_uuid_52bit now (us_mid s) (us_sid s))) \<and> us_sid s' = us_sid s + 1"
proof -
  let ?u = "fst (get_uuid_52bit now (us_mid s) (us_sid s))"
  have "length (uc_wbuf c) = 512" using assms(1) by (simp add: holds_line_def uuid_def)
  then have w: "c_str (c_snprintf 511 (value_reply ''16'' ?u) (uc_wbuf c)) = Inr (value_reply ''16'' ?u)"
    by (intro value_fits) simp_all
  have "ProcessRequestBuffer_u uuid now c s = Inr (1,
      c\<lparr>uc_wbuf := c_snprintf 511 (value_reply ''16'' ?u) (uc_wbuf c), uc_wlen := int (length (value_reply ''16'' ?u))\<rparr>,
      s\<lparr>us_sid := us_sid s + 1, us_numcommands := us_numcommands s + 1\<rparr>)"
    using process_get [OF assms(1), of now s] w by (simp add: answer_uuid_def uuid_def Let_def case_prod_beta n52.counts)
  then show ?thesis
    using w digits_52bit [OF assms(2-4), of "us_sid s"] show_word_digits [of _ ?u]
    by (auto simp: value_reply_def)
qed

text \<open>The same of \<open>redis-ckw\<close>, whose numbers have 19 digits.\<close>

theorem ckw_get_reply:
  assumes "holds_line ckw c (''get '' @ key)" "us_mid s < 256" "232830644 \<le> now" "now < 2328306436"
  shows "\<exists>d c' s'. ProcessRequestBuffer_ckw now c s = Inr (1, c', s')
    \<and> c_str (uc_wbuf c') = Inr (''VALUE uuid 0 19'' @ CRLF @ d @ CRLF @ ''END'' @ CRLF)
    \<and> uc_wlen c' = int (length (''VALUE uuid 0 19'' @ CRLF @ d @ CRLF @ ''END'' @ CRLF))
    \<and> length d = 19 \<and> (\<forall>x \<in> set d. is_digit x)
    \<and> d = show_word (fst (get_uuid now (us_mid s) (us_sid s))) \<and> us_sid s' = us_sid s + 1"
proof -
  let ?u = "fst (get_uuid now (us_mid s) (us_sid s))"
  have "length (uc_wbuf c) = 1024" using assms(1) by (simp add: holds_line_def ckw_def)
  then have w: "c_str (c_snprintf 127 (value_reply ''19'' ?u) (uc_wbuf c)) = Inr (value_reply ''19'' ?u)"
    by (intro value_fits) simp_all
  have "ProcessRequestBuffer_u ckw now c s = Inr (1,
      c\<lparr>uc_wbuf := c_snprintf 127 (value_reply ''19'' ?u) (uc_wbuf c), uc_wlen := int (length (value_reply ''19'' ?u))\<rparr>,
      s\<lparr>us_sid := us_sid s + 1\<rparr>)"
    using process_get [OF assms(1), of now s] w by (simp add: answer_ckw_def ckw_def Let_def case_prod_beta n64.counts)
  then show ?thesis
    unfolding ProcessRequestBuffer_ckw_def
    using w digits_64bit [OF assms(2-4), of "us_sid s"] show_word_digits [of _ ?u]
    by (auto simp: value_reply_def)
qed

definition demo_line :: "variant \<Rightarrow> uclient" where
  "demo_line v = (new_client_u v 5)\<lparr>uc_rbuf := ''get x'' @ CRLF @ replicate (v_read_len v - 7) NUL, uc_rlen := 7\<rparr>"

definition demo_server :: userver where
  "demo_server = \<lparr>sv_el = new_loop, sv_clients = 1, sv_heap = (\<lambda>_. None), sv_open = {}, sv_sent = (\<lambda>_. []),
     us_maxclients = 0, us_numcommands = 0, us_numconnections = 1, us_mid = 3, us_sid = 0\<rparr>"

theorem uuid_get_reply_witness:
  "\<exists>d c' s'. ProcessRequestBuffer_u uuid 1300000000 (demo_line uuid) demo_server = Inr (1, c', s') \<and> length d = 16
    \<and> c_str (uc_wbuf c') = Inr (''VALUE uuid 0 16'' @ CRLF @ d @ CRLF @ ''END'' @ CRLF)"
proof -
  have "holds_line uuid (demo_line uuid) (''get '' @ ''x'')"
    by (simp add: holds_line_def demo_line_def uuid_def new_client_u_def)
  from uuid_get_reply [OF this, of demo_server 1300000000] show ?thesis by (auto simp: demo_server_def)
qed

theorem ckw_get_reply_witness:
  "\<exists>d c' s'. ProcessRequestBuffer_ckw 1300000000 (demo_line ckw) demo_server = Inr (1, c', s') \<and> length d = 19
    \<and> c_str (uc_wbuf c') = Inr (''VALUE uuid 0 19'' @ CRLF @ d @ CRLF @ ''END'' @ CRLF)"
proof -
  have "holds_line ckw (demo_line ckw) (''get '' @ ''x'')"
    by (simp add: holds_line_def demo_line_def ckw_def new_client_u_def)
  from ckw_get_reply [OF this, of demo_server 1300000000] show ?thesis by (auto simp: demo_server_def)
qed

section \<open>The servers never fault\<close>

datatype ustage = Reading_u | Writing_u

text \<open>What the two programs write to a client.\<close>

definition is_answer :: "string \<Rightarrow> bool" where
  "is_answer t \<longleftrightarrow> (\<exists>len u. length len = 2 \<and> t = value_reply len u) \<or> (\<exists>s. t = take 510 (stats_reply s))"

definition idle_u :: "variant \<Rightarrow> uclient \<Rightarrow> bool" where
  "idle_u v c \<longleftrightarrow> length (uc_rbuf c) = v_read_len v \<and> length (uc_wbuf c) = v_write_len v
     \<and> 0 \<le> uc_rlen c \<and> uc_rlen c < int (v_read_len v) - 1 \<and> uc_wlen c = 0 \<and> uc_wpos c = 0
     \<and> (\<forall>i < v_read_len v. uc_rlen c \<le> int i \<longrightarrow> uc_rbuf c ! i = NUL)"

definition answering_u :: "variant \<Rightarrow> uclient \<Rightarrow> bool" where
  "answering_u v c \<longleftrightarrow> (\<exists>t. c_str (uc_wbuf c) = Inr t \<and> uc_wlen c = int (length t) \<and> is_answer t)
     \<and> 0 \<le> uc_wpos c \<and> uc_wpos c \<le> uc_wlen c"

fun stage_ok_u :: "variant \<Rightarrow> (uproc, nat) aeEventLoop \<Rightarrow> nat \<Rightarrow> uclient \<Rightarrow> ustage \<Rightarrow> bool" where
  "stage_ok_u v L a c Reading_u \<longleftrightarrow> entry L (uc_fd c) AE_READABLE ReadQuery_u (Some a) \<and> idle_u v c"
| "stage_ok_u v L a c Writing_u \<longleftrightarrow> entry L (uc_fd c) AE_WRITABLE SendReply_u (Some a) \<and> answering_u v c"

definition sent_ok_u :: "string \<Rightarrow> uclient \<Rightarrow> bool" where
  "sent_ok_u out c \<longleftrightarrow> (\<exists>rs. (\<forall>r \<in> set rs. is_answer r) \<and> out = concat rs @ take (nat (uc_wpos c)) (uc_wbuf c))"

definition client_ok_u :: "variant \<Rightarrow> (uproc, nat) aeEventLoop \<Rightarrow> string \<Rightarrow> nat \<Rightarrow> uclient \<Rightarrow> ustage \<Rightarrow> bool" where
  [simp]: "client_ok_u v L out a c g \<longleftrightarrow> stage_ok_u v L a c g \<and> sent_ok_u out c"

lemma stage_mask_u: "stage_ok_u v L a c g \<Longrightarrow> mask_of L (uc_fd c) \<in> {0, 1, 2}"
  by (cases g) (auto simp: entry_def)

interpretation us: client_table uc_fd "client_ok_u v" for v
proof unfold_locales
  show "client_ok_u v L' out a c g = client_ok_u v L out a c g"
    if "el_events L' (uc_fd c) = el_events L (uc_fd c)" for L' L out a c g
    using that by (cases g) (simp_all add: entry_def)
  show "mask_of L (uc_fd c) \<in> {0, 1, 2}" if "client_ok_u v L out a c g" for L out a c g
    using stage_mask_u [of v L a c g] that by auto
qed

abbreviation us_inv :: "variant \<Rightarrow> int \<Rightarrow> (nat \<Rightarrow> ustage option) \<Rightarrow> userver \<Rightarrow> bool" where
  "us_inv v lfd \<equiv> cli_inv [lfd \<mapsto> AcceptHandler_u] uc_fd (client_ok_u v)"

text \<open>What the invariant asks of a program: its buffers are big enough and its answers are answers.\<close>

definition sound_variant :: "variant \<Rightarrow> bool" where
  "sound_variant v \<longleftrightarrow> 2 < v_read_len v \<and> (\<forall>now c s. NUL \<in> set (uc_rbuf c) \<longrightarrow> length (uc_wbuf c) = v_write_len v \<longrightarrow>
     (\<exists>r c' s'. v_answer v now c s = Inr (r, c', s') \<and> (r = 1 \<or> r = - 1)
       \<and> uc_fd c' = uc_fd c \<and> uc_wpos c' = uc_wpos c \<and> conns.truncate s' = conns.truncate s \<and> (r = - 1 \<longrightarrow> c' = c)
       \<and> (r = 1 \<longrightarrow> (\<exists>t. c_str (uc_wbuf c') = Inr t \<and> uc_wlen c' = int (length t) \<and> is_answer t))))"

lemma snprintf_take: "c_snprintf n s b = c_snprintf n (take (n - 1) s) b"
  by (simp add: c_snprintf_def)

lemma show_int_nul: "NUL \<notin> set (show_int i)"
  using show_nat_no_cr by (auto simp: show_int_def)

lemma stats_reply_nul: "NUL \<notin> set (stats_reply s)"
  by (simp add: stats_reply_def show_int_nul)

lemma stats_fits:
  assumes "length b = 512"
  shows "c_str (c_snprintf 511 (stats_reply s) b) = Inr (take 510 (stats_reply s))"
proof -
  have "NUL \<notin> set (take 510 (stats_reply s))" using stats_reply_nul [of s] by (auto dest: in_set_takeD)
  then have "c_str (c_snprintf 511 (take 510 (stats_reply s)) b) = Inr (take 510 (stats_reply s))"
    using assms by (intro c_str_snprintf(1)) simp_all
  then show ?thesis using snprintf_take [of 511 "stats_reply s" b] by simp
qed

lemma sound_uuid: "sound_variant uuid"
  unfolding sound_variant_def
proof (intro conjI allI impI)
  fix now and c :: uclient and s :: userver
  assume r: "NUL \<in> set (uc_rbuf c)" and w: "length (uc_wbuf c) = v_write_len uuid"
  obtain g where g: "c_strncaseeq (uc_rbuf c) ''get '' = Inr g"
    using c_strncaseeq_total [OF r, of "''get ''"] by auto
  obtain h where h: "c_strncaseeq (uc_rbuf c) ''stat'' = Inr h"
    using c_strncaseeq_total [OF r, of "''stat''"] by auto
  let ?u = "fst (get_uuid_52bit now (us_mid s) (us_sid s))"
  have v: "c_str (c_snprintf 511 (value_reply ''16'' ?u) (uc_wbuf c)) = Inr (value_reply ''16'' ?u)"
    using w by (intro value_fits) (simp_all add: uuid_def)
  have st: "c_str (c_snprintf 511 (stats_reply s) (uc_wbuf c)) = Inr (take 510 (stats_reply s))"
    using w by (intro stats_fits) (simp add: uuid_def)
  have "is_answer (value_reply ''16'' ?u)" "is_answer (take 510 (stats_reply s))"
    unfolding is_answer_def by (rule disjI1, rule exI [of _ "''16''"], auto)
  then show "\<exists>r c' s'. v_answer uuid now c s = Inr (r, c', s') \<and> (r = 1 \<or> r = - 1)
       \<and> uc_fd c' = uc_fd c \<and> uc_wpos c' = uc_wpos c \<and> conns.truncate s' = conns.truncate s \<and> (r = - 1 \<longrightarrow> c' = c)
       \<and> (r = 1 \<longrightarrow> (\<exists>t. c_str (uc_wbuf c') = Inr t \<and> uc_wlen c' = int (length t) \<and> is_answer t))"
    using g h v st
    by (cases g; cases h) (simp_all add: uuid_def answer_uuid_def Let_def case_prod_beta n52.counts conns.defs)
qed (simp add: uuid_def)

lemma sound_ckw: "sound_variant ckw"
  unfolding sound_variant_def
proof (intro conjI allI impI)
  fix now and c :: uclient and s :: userver
  assume r: "NUL \<in> set (uc_rbuf c)" and w: "length (uc_wbuf c) = v_write_len ckw"
  obtain g where g: "c_strncaseeq (uc_rbuf c) ''get '' = Inr g"
    using c_strncaseeq_total [OF r, of "''get ''"] by auto
  let ?u = "fst (get_uuid now (us_mid s) (us_sid s))"
  have v: "c_str (c_snprintf 127 (value_reply ''19'' ?u) (uc_wbuf c)) = Inr (value_reply ''19'' ?u)"
    using w by (intro value_fits) (simp_all add: ckw_def)
  have "is_answer (value_reply ''19'' ?u)"
    unfolding is_answer_def by (rule disjI1, rule exI [of _ "''19''"], auto)
  then show "\<exists>r c' s'. v_answer ckw now c s = Inr (r, c', s') \<and> (r = 1 \<or> r = - 1)
       \<and> uc_fd c' = uc_fd c \<and> uc_wpos c' = uc_wpos c \<and> conns.truncate s' = conns.truncate s \<and> (r = - 1 \<longrightarrow> c' = c)
       \<and> (r = 1 \<longrightarrow> (\<exists>t. c_str (uc_wbuf c') = Inr t \<and> uc_wlen c' = int (length t) \<and> is_answer t))"
    using g v
    by (cases g) (simp_all add: ckw_def answer_ckw_def Let_def case_prod_beta n64.counts conns.defs)
qed (simp add: ckw_def)

lemma truncate_eq:
  "conns.truncate s' = conns.truncate s \<longleftrightarrow> sv_el s' = sv_el s \<and> sv_clients s' = sv_clients s
     \<and> sv_heap s' = sv_heap s \<and> sv_open s' = sv_open s \<and> sv_sent s' = sv_sent s"
  by (auto simp: conns.defs)

lemma idle_terminated: "idle_u v c \<Longrightarrow> NUL \<in> set (uc_rbuf c)"
  using nth_mem [of "v_read_len v - 1" "uc_rbuf c"] by (auto simp: idle_u_def)

lemma process_total:
  assumes v: "sound_variant v" and i: "idle_u v c"
  shows "\<exists>r c' s'. ProcessRequestBuffer_u v now c s = Inr (r, c', s') \<and> r \<in> {0, 1, - 1, - 2} \<and> uc_fd c' = uc_fd c
    \<and> conns.truncate s' = conns.truncate s \<and> (r \<noteq> 1 \<longrightarrow> c' = c) \<and> (r = 1 \<longrightarrow> answering_u v c' \<and> uc_wpos c' = 0)"
proof -
  note nul = idle_terminated [OF i]
  obtain p where p: "c_strstr CRLF (uc_rbuf c) = Inr p" using c_strstr_total [OF nul] by blast
  obtain q where q: "c_strcaseeq (uc_rbuf c) (''quit'' @ CRLF) = Inr q"
    using c_strcaseeq_total [OF nul, of "''quit'' @ CRLF"] by auto
  have w: "length (uc_wbuf c) = v_write_len v" "uc_wpos c = 0" using i by (auto simp: idle_u_def)
  obtain r c' s' where a: "v_answer v now c s = Inr (r, c', s')" "r = 1 \<or> r = - 1" "uc_fd c' = uc_fd c" "uc_wpos c' = 0"
    "conns.truncate s' = conns.truncate s" "r = - 1 \<longrightarrow> c' = c"
    "r = 1 \<longrightarrow> (\<exists>t. c_str (uc_wbuf c') = Inr t \<and> uc_wlen c' = int (length t) \<and> is_answer t)"
    using v nul w unfolding sound_variant_def by metis
  then have "r = 1 \<longrightarrow> answering_u v c'" by (auto simp: answering_u_def)
  then show ?thesis
    using p q a by (cases p; cases q) (auto simp: ProcessRequestBuffer_u_def)
qed

lemma freeClient_u_ok:
  assumes inv: "us_inv v lfd st s" and a: "sv_heap s a = Some c"
  shows "\<exists>s'. freeClient_u a s = Inr s' \<and> us_inv v lfd (st(a := None)) s'"
proof -
  obtain L1 L where L: "unregister (uc_fd c) AE_READABLE s = Inr (s\<lparr>sv_el := L1\<rparr>)"
    "unregister (uc_fd c) AE_WRITABLE (s\<lparr>sv_el := L1\<rparr>) = Inr (s\<lparr>sv_el := L\<rparr>)"
    "loop_inv L" "\<forall>g. g \<noteq> uc_fd c \<longrightarrow> el_events L g = el_events (sv_el s) g" "mask_of L (uc_fd c) = 0"
    using us.close_client [OF inv a] by blast
  let ?s = "s\<lparr>sv_el := L, sv_open := sv_open s - {uc_fd c}, sv_heap := (sv_heap s)(a := None),
    sv_clients := sv_clients s - 1\<rparr>"
  have "freeClient_u a s = Inr ?s" using a L(1,2) by (simp add: freeClient_u_def)
  moreover have "us_inv v lfd (st(a := None)) ?s"
    using L by (intro us.cli_free [OF inv a]) auto
  ultimately show ?thesis by blast
qed

definition us_ok :: "variant \<Rightarrow> int \<Rightarrow> userver \<Rightarrow> bool" where
  "us_ok v lfd s \<longleftrightarrow> (\<exists>st. us_inv v lfd st s)"

lemma us_okI: "us_inv v lfd st s \<Longrightarrow> us_ok v lfd s"
  by (auto simp: us_ok_def)

lemma free_ok_u: "us_inv v lfd st s \<Longrightarrow> sv_heap s a = Some c \<Longrightarrow> \<exists>s'. freeClient_u a s = Inr s' \<and> us_ok v lfd s'"
  using freeClient_u_ok us_okI by blast

lemma client_stage_u:
  "us_inv v lfd st s \<Longrightarrow> sv_heap s a = Some c \<Longrightarrow>
   \<exists>g. st a = Some g \<and> stage_ok_u v (sv_el s) a c g \<and> sent_ok_u (sv_sent s a) c"
  using us.cli_fd(6) [of "[lfd \<mapsto> AcceptHandler_u]" v st s a c] by simp

text \<open>The client's data may change while it waits for a request.\<close>

lemma put_idle:
  assumes inv: "us_inv v lfd st s" and a: "sv_heap s a = Some c" "st a = Some Reading_u"
    and c': "uc_fd c' = uc_fd c" "idle_u v c'" and s': "conns.truncate s' = conns.truncate (put a c' s)"
  shows "us_inv v lfd st s'"
proof -
  have ok: "stage_ok_u v (sv_el s) a c Reading_u" "sent_ok_u (sv_sent s a) c" using client_stage_u [OF inv a(1)] a(2) by auto
  have s: "sv_el s' = sv_el s" "sv_sent s' = sv_sent s" "sv_heap s' = (sv_heap s)(a \<mapsto> c')" "sv_open s' = sv_open s"
    "sv_clients s' = sv_clients s"
    using s' by (simp_all add: truncate_eq)
  have "sent_ok_u (sv_sent s a) c'"
    using ok c'(2) by (simp add: sent_ok_u_def idle_u_def)
  then have "us_inv v lfd (st(a \<mapsto> Reading_u)) s'"
    using us.cli_fd(5) [OF inv a(1)] c' s ok(1) by (intro us.cli_update [OF inv a(1), where c' = c']) auto
  then show ?thesis using a(2) by (simp add: fun_upd_idem)
qed

text \<open>From reading to writing, in three steps of the table.\<close>

lemma start_writing:
  assumes inv: "us_inv v lfd st s" and a: "sv_heap s a = Some c" "st a = Some Reading_u"
    and c': "uc_fd c' = uc_fd c" "answering_u v c'" "uc_wpos c' = 0"
    and s': "conns.truncate s' = conns.truncate (put a c' s)"
  shows "\<exists>s2 r s3. unregister (uc_fd c) AE_READABLE s' = Inr s2
    \<and> register True (uc_fd c) AE_WRITABLE SendReply_u (Some a) s2 = Inr (r, s3) \<and> us_ok v lfd s3"
proof -
  have ok: "stage_ok_u v (sv_el s) a c Reading_u" "sent_ok_u (sv_sent s a) c" using client_stage_u [OF inv a(1)] a(2) by auto
  have s: "sv_el s' = sv_el s" "sv_sent s' = sv_sent s" "sv_heap s' = (sv_heap s)(a \<mapsto> c')" "sv_open s' = sv_open s"
    "sv_clients s' = sv_clients s"
    using s' by (simp_all add: truncate_eq)
  have li: "loop_inv (sv_el s')" using us.cli_fd(5) [OF inv a(1)] s(1) by simp
  obtain L where L: "unregister (uc_fd c) AE_READABLE s' = Inr (s'\<lparr>sv_el := L\<rparr>)" "loop_inv L"
    "\<forall>g. g \<noteq> uc_fd c \<longrightarrow> el_events L g = el_events (sv_el s) g" "mask_of L (uc_fd c) = mask_of (sv_el s) (uc_fd c) AND NOT 1"
    using unregister_ok [OF li us.cli_fd(1) [OF inv a(1)], of 1] s(1) by auto
  have "loop_inv (sv_el (s'\<lparr>sv_el := L\<rparr>))" using L(2) by simp
  from register_ok [OF this us.cli_fd(1,2) [OF inv a(1)], of AE_WRITABLE SendReply_u "Some a"]
  obtain L2 where L2: "register True (uc_fd c) AE_WRITABLE SendReply_u (Some a) (s'\<lparr>sv_el := L\<rparr>)
      = Inr (AE_OK, s'\<lparr>sv_el := L2\<rparr>)" "loop_inv L2"
    "el_events L2 = (el_events L)(uc_fd c := reg_entry (el_events L (uc_fd c)) AE_WRITABLE SendReply_u (Some a))"
    by auto
  have "mask_of L (uc_fd c) = 0" using L(4) ok(1) by (simp add: entry_def)
  then have "stage_ok_u v L2 a c' Writing_u"
    using L2(3) c'(1,2) by (simp add: entry_def reg_entry_def)
  moreover have "sent_ok_u (sv_sent s a) c'"
    using ok c'(3) by (simp add: sent_ok_u_def idle_u_def)
  ultimately have "us_inv v lfd (st(a \<mapsto> Writing_u)) (s'\<lparr>sv_el := L2\<rparr>)"
    using L(3) L2(2,3) c'(1) s by (intro us.cli_update [OF inv a(1), where c' = c']) auto
  then show ?thesis using L(1) L2(1) us_okI by blast
qed

lemma process_inv_u:
  assumes v: "sound_variant v" and inv: "us_inv v lfd st s" and a: "sv_heap s a = Some c" "st a = Some Reading_u"
    and i: "idle_u v c"
  shows "\<exists>s'. processInputBuffer_u v now True a s = Inr s' \<and> us_ok v lfd s'"
proof -
  obtain r c' s0 where p: "ProcessRequestBuffer_u v now c s = Inr (r, c', s0)" "r \<in> {0, 1, - 1, - 2}"
    "uc_fd c' = uc_fd c" "conns.truncate s0 = conns.truncate s" "r \<noteq> 1 \<longrightarrow> c' = c"
    "r = 1 \<longrightarrow> answering_u v c' \<and> uc_wpos c' = 0"
    using process_total [OF v i, of now s] by blast
  let ?s = "put a c' s0"
  have t: "conns.truncate ?s = conns.truncate (put a c' s)" using p(4) by (simp add: truncate_eq)
  have run: "processInputBuffer_u v now True a s = (if r = - 1 \<or> r = - 2 then freeClient_u a ?s
       else if r = 1 then fbind (unregister (uc_fd c) AE_READABLE ?s) (\<lambda>s2.
         fmap snd (register True (uc_fd c) AE_WRITABLE SendReply_u (Some a) s2))
       else Inr ?s)"
    using a(1) p(1) by (simp add: processInputBuffer_u_def)
  consider "r = 0" | "r = 1" | "r = - 1 \<or> r = - 2" using p(2) by auto
  then show ?thesis
  proof cases
    case 1
    then have "us_inv v lfd st ?s" using put_idle [OF inv a p(3) _ t] p(5) i 1 by simp
    then show ?thesis using 1 run us_okI by auto
  next
    case 2
    then show ?thesis using start_writing [OF inv a p(3) _ _ t] p(6) run by fastforce
  next
    case 3
    then have r: "r \<noteq> 1" by auto
    have "us_inv v lfd st ?s" using put_idle [OF inv a p(3) _ t] p(5) i r by simp
    then have "\<exists>s'. freeClient_u a ?s = Inr s' \<and> us_ok v lfd s'" by (rule free_ok_u) simp
    then show ?thesis using 3 run by auto
  qed
qed

lemma store_idle:
  assumes i: "idle_u v c" and d: "int (length d) \<le> int (v_read_len v) - uc_rlen c - 1"
  shows "\<exists>b. store_at (uc_rbuf c) (uc_rlen c) d = Inr b
    \<and> (uc_rlen c + int (length d) < int (v_read_len v) - 1 \<longrightarrow>
        idle_u v (c\<lparr>uc_rbuf := b, uc_rlen := uc_rlen c + int (length d), uc_last := t\<rparr>))"
proof -
  let ?n = "nat (uc_rlen c)"
  let ?b = "take ?n (uc_rbuf c) @ d @ drop (?n + length d) (uc_rbuf c)"
  have n: "int ?n = uc_rlen c" "?n + length d < v_read_len v" "length (uc_rbuf c) = v_read_len v"
    using i d by (auto simp: idle_u_def)
  have pos: "0 \<le> uc_rlen c" "uc_rlen c + int (length d) \<le> int (v_read_len v)" using i d by (auto simp: idle_u_def)
  then have "store_at (uc_rbuf c) (uc_rlen c) d = Inr ?b"
    using n(3) by (simp add: store_at_def)
  moreover have "?b ! k = NUL" if "k < v_read_len v" "uc_rlen c + int (length d) \<le> int k" for k
  proof -
    have k: "?n + length d \<le> k" using that n(1) by linarith
    then have "?b ! k = uc_rbuf c ! k" using n(2,3) k that(1) by (auto simp: nth_append)
    then show ?thesis using i that k n(1) by (auto simp: idle_u_def)
  qed
  ultimately show ?thesis using i n(2,3) pos by (simp add: idle_u_def)
qed

lemma read_inv_u:
  assumes v: "sound_variant v" and inv: "us_inv v lfd st s" and a: "sv_heap s a = Some c" "st a = Some Reading_u"
    and ans: "\<And>d. r = Ur_bytes d \<Longrightarrow> int (length d) \<le> int (v_read_len v) - uc_rlen c - 1"
  shows "\<exists>s'. readQueryFromClient_u v r now True a s = Inr s' \<and> us_ok v lfd s'"
proof (cases r)
  case Ur_error
  then show ?thesis using free_ok_u [OF inv a(1)] a(1) by (simp add: readQueryFromClient_u_def)
next
  case Ur_again
  then show ?thesis using us_okI [OF inv] a(1) by (simp add: readQueryFromClient_u_def)
next
  case (Ur_bytes d)
  have i: "idle_u v c" using client_stage_u [OF inv a(1)] a(2) by auto
  from ans [OF Ur_bytes] obtain b where b: "store_at (uc_rbuf c) (uc_rlen c) d = Inr b"
    "uc_rlen c + int (length d) < int (v_read_len v) - 1 \<Longrightarrow>
      idle_u v (c\<lparr>uc_rbuf := b, uc_rlen := uc_rlen c + int (length d), uc_last := now\<rparr>)"
    using store_idle [OF i] by blast
  let ?c = "c\<lparr>uc_rbuf := b, uc_rlen := uc_rlen c + int (length d)\<rparr>"
  show ?thesis
  proof (cases "d = []")
    case True
    then show ?thesis using free_ok_u [OF inv a(1)] a(1) Ur_bytes by (simp add: readQueryFromClient_u_def)
  next
    case False
    show ?thesis
    proof (cases "uc_rlen ?c \<ge> int (v_read_len v) - 1")
      case full: True
      have "freeClient_u a (put a ?c s) = freeClient_u a (put a c s)"
        by (simp add: freeClient_u_def put_def unregister_def fbind_def fmap_def split: sum.split)
      moreover have "put a c s = s" using a(1) by (simp add: put_def fun_upd_idem)
      ultimately have "\<exists>s'. freeClient_u a (put a ?c s) = Inr s' \<and> us_ok v lfd s'"
        using free_ok_u [OF inv a(1)] by simp
      then show ?thesis using full False a(1) b(1) Ur_bytes by (simp add: readQueryFromClient_u_def Let_def)
    next
      case fits: False
      let ?c1 = "?c\<lparr>uc_last := now\<rparr>"
      have i1: "idle_u v ?c1" using b(2) fits by simp
      have inv1: "us_inv v lfd st (put a ?c1 s)"
        by (rule put_idle [OF inv a _ i1]) simp_all
      have "sv_heap (put a ?c1 s) a = Some ?c1" by simp
      from process_inv_u [OF v inv1 this a(2) i1, of now] show ?thesis
        using fits False a(1) b(1) Ur_bytes by (simp add: readQueryFromClient_u_def Let_def)
    qed
  qed
qed

lemma take_takeWhile: "take (length (takeWhile P xs)) xs = takeWhile P xs"
  by (induction xs) auto

lemma c_str_prefix: "c_str b = Inr t \<Longrightarrow> take (length t) b = t"
  using take_takeWhile [of "\<lambda>c. c \<noteq> NUL" b] by (simp add: c_str_def split: if_split_asm)

lemma reset_inv_u:
  assumes inv: "us_inv v lfd st s" and a: "sv_heap s a = Some c" "st a = Some Writing_u"
    and full: "uc_wpos c = uc_wlen c" and v: "sound_variant v"
  shows "\<exists>s'. resetClient_u v True a s = Inr s' \<and> us_ok v lfd s'"
proof -
  have ok: "stage_ok_u v (sv_el s) a c Writing_u" "sent_ok_u (sv_sent s a) c" using client_stage_u [OF inv a(1)] a(2) by auto
  let ?c = "c\<lparr>uc_rbuf := replicate (v_read_len v) NUL, uc_wbuf := replicate (v_write_len v) NUL,
    uc_rlen := 0, uc_wlen := 0, uc_wpos := 0\<rparr>"
  let ?s = "put a ?c s"
  have m: "mask_of (sv_el ?s) (uc_fd c) \<in> {0, 1, 2}" "loop_inv (sv_el ?s)"
    using stage_mask_u [OF ok(1)] us.cli_fd(5) [OF inv a(1)] by simp_all
  obtain L1 L where L: "unregister (uc_fd c) AE_WRITABLE ?s = Inr (?s\<lparr>sv_el := L1\<rparr>)"
    "unregister (uc_fd c) AE_READABLE (?s\<lparr>sv_el := L1\<rparr>) = Inr (?s\<lparr>sv_el := L\<rparr>)"
    "loop_inv L" "\<forall>g. g \<noteq> uc_fd c \<longrightarrow> el_events L g = el_events (sv_el ?s) g" "mask_of L (uc_fd c) = 0"
    using unregister_both [OF m(2) us.cli_fd(1) [OF inv a(1)] m(1), of AE_WRITABLE AE_READABLE] by auto
  have "loop_inv (sv_el (?s\<lparr>sv_el := L\<rparr>))" using L(3) by simp
  from register_ok [OF this us.cli_fd(1,2) [OF inv a(1)], of AE_READABLE ReadQuery_u "Some a"]
  obtain L2 where L2: "register True (uc_fd c) AE_READABLE ReadQuery_u (Some a) (?s\<lparr>sv_el := L\<rparr>)
      = Inr (AE_OK, ?s\<lparr>sv_el := L2\<rparr>)" "loop_inv L2"
    "el_events L2 = (el_events L)(uc_fd c := reg_entry (el_events L (uc_fd c)) AE_READABLE ReadQuery_u (Some a))"
    by auto
  obtain rs where rs: "\<forall>r \<in> set rs. is_answer r" "sv_sent s a = concat rs @ take (nat (uc_wpos c)) (uc_wbuf c)"
    using ok(2) by (auto simp: sent_ok_u_def)
  obtain t where t: "c_str (uc_wbuf c) = Inr t" "uc_wlen c = int (length t)" "is_answer t"
    using ok(1) by (auto simp: answering_u_def)
  have "take (nat (uc_wpos c)) (uc_wbuf c) = t"
    using c_str_prefix [OF t(1)] t(2) full by simp
  then have "sent_ok_u (sv_sent s a) ?c"
    unfolding sent_ok_u_def using rs t(3) by (intro exI [of _ "rs @ [t]"]) auto
  moreover have "stage_ok_u v L2 a ?c Reading_u"
    using L(5) L2(3) v by (simp add: entry_def idle_u_def reg_entry_def sound_variant_def)
  ultimately have "us_inv v lfd (st(a \<mapsto> Reading_u)) (?s\<lparr>sv_el := L2\<rparr>)"
    using L(4) L2(2,3) by (intro us.cli_update [OF inv a(1), where c' = ?c]) auto
  then show ?thesis using L(1,2) L2(1) a(1) us_okI by (fastforce simp: resetClient_u_def)
qed

lemma takeWhile_shorter: "x \<in> set xs \<Longrightarrow> \<not> P x \<Longrightarrow> length (takeWhile P xs) < length xs"
  by (induction xs) auto

lemma c_str_length: "c_str b = Inr t \<Longrightarrow> length t < length b"
  using takeWhile_shorter [of NUL b "\<lambda>c. c \<noteq> NUL"] by (auto simp: c_str_def split: if_splits)

lemma send_inv_u:
  assumes inv: "us_inv v lfd st s" and a: "sv_heap s a = Some c" "st a = Some Writing_u" and v: "sound_variant v"
    and n: "\<And>n. w = Uw_bytes n \<Longrightarrow> int n \<le> uc_wlen c - uc_wpos c"
  shows "\<exists>s'. sendReplyToClient_u v w now True a s = Inr s' \<and> us_ok v lfd s'"
proof -
  have ok: "stage_ok_u v (sv_el s) a c Writing_u" "sent_ok_u (sv_sent s a) c" using client_stage_u [OF inv a(1)] a(2) by auto
  have b: "0 \<le> uc_wpos c" "uc_wpos c \<le> uc_wlen c" "uc_wlen c \<le> int (length (uc_wbuf c))"
    using ok(1) c_str_length [of "uc_wbuf c"] by (auto simp: answering_u_def intro: less_imp_le)
  show ?thesis
  proof (cases w)
    case Uw_error
    then show ?thesis using free_ok_u [OF inv a(1)] a b by (simp add: sendReplyToClient_u_def)
  next
    case Uw_again
    then show ?thesis
      using reset_inv_u [OF inv a _ v] a b us_okI [OF inv] by (simp add: sendReplyToClient_u_def)
  next
    case (Uw_bytes k)
    let ?c = "if 0 < k then c\<lparr>uc_last := now, uc_wpos := uc_wpos c + int k\<rparr> else c"
    let ?s = "(put a ?c s)\<lparr>sv_sent := (sv_sent s)(a := sv_sent s a @ take k (drop (nat (uc_wpos c)) (uc_wbuf c)))\<rparr>"
    have k: "int k \<le> uc_wlen c - uc_wpos c" using n Uw_bytes by blast
    have c: "uc_fd ?c = uc_fd c" "uc_wbuf ?c = uc_wbuf c" "uc_wlen ?c = uc_wlen c" "uc_wpos ?c = uc_wpos c + int k"
      by auto
    obtain rs where rs: "\<forall>r \<in> set rs. is_answer r" "sv_sent s a = concat rs @ take (nat (uc_wpos c)) (uc_wbuf c)"
      using ok(2) by (auto simp: sent_ok_u_def)
    have "nat (uc_wpos c + int k) = nat (uc_wpos c) + k" using b(1) by simp
    then have "sent_ok_u (sv_sent ?s a) ?c"
      unfolding sent_ok_u_def c using rs by (intro exI [of _ rs]) (simp add: take_add)
    moreover have "stage_ok_u v (sv_el ?s) a ?c Writing_u"
      using ok(1) b k unfolding stage_ok_u.simps answering_u_def c by (simp add: c)
    ultimately have "us_inv v lfd (st(a \<mapsto> Writing_u)) ?s"
      using us.cli_fd(5) [OF inv a(1)] c by (intro us.cli_update [OF inv a(1), where c' = ?c]) auto
    then have cli: "us_inv v lfd st ?s" using a(2) by (simp add: fun_upd_idem)
    have heap: "sv_heap ?s a = Some ?c" by simp
    have run: "sendReplyToClient_u v w now True a s
      = (if uc_wpos ?c = uc_wlen ?c then resetClient_u v True a ?s else Inr ?s)"
      using a(1) b Uw_bytes by (simp add: sendReplyToClient_u_def Let_def)
    show ?thesis
      unfolding run using reset_inv_u [OF cli heap a(2) _ v] us_okI [OF cli] by simp
  qed
qed

lemma new_client_u_fd [simp]: "uc_fd (new_client_u v fd) = fd"
  by (simp add: new_client_u_def)

text \<open>A client that has been registered, whatever the counters are.\<close>

lemma accept_new:
  assumes inv: "us_inv v lfd st s" and a: "sv_heap s a = None" and fd: "fd \<notin> sv_open s" "0 \<le> fd" "fd < AE_SETSIZE"
    and v: "sound_variant v" and L: "loop_inv L"
      "el_events L = (el_events (sv_el s))(fd := reg_entry (el_events (sv_el s) fd) AE_READABLE ReadQuery_u (Some a))"
    and s': "conns.truncate s' = conns.truncate ((put a (new_client_u v fd) s)\<lparr>sv_el := L, sv_open := insert fd (sv_open s),
      sv_clients := sv_clients s + 1, sv_sent := (sv_sent s)(a := [])\<rparr>)"
  shows "us_inv v lfd (st(a \<mapsto> Reading_u)) s'"
proof -
  have "mask_of (sv_el s) fd = 0"
    using inv fd(1) unfolding cli_inv_def fd_inv_def by (metis option.exhaust)
  then have "stage_ok_u v L a (new_client_u v fd) Reading_u"
    using L(2) v by (simp add: entry_def reg_entry_def idle_u_def sound_variant_def) (simp add: new_client_u_def)
  moreover have "sent_ok_u [] (new_client_u v fd)"
    unfolding sent_ok_u_def by (intro exI [of _ "[]"]) (simp add: new_client_u_def)
  ultimately show ?thesis
    using s' L by (intro us.cli_new [OF inv a fd, where c = "new_client_u v fd"]) (simp_all add: truncate_eq)
qed

text \<open>The message to a client that is refused changes nothing the invariant speaks of.\<close>

lemma unregister_sent: "unregister fd m (s\<lparr>sv_sent := o1\<rparr>) = fmap (\<lambda>t. t\<lparr>sv_sent := o1\<rparr>) (unregister fd m s)"
  by (cases "aeDeleteFileEvent True (sv_el s) fd m") (simp_all add: unregister_def)

lemma free_refused:
  assumes inv: "us_inv v lfd st s" and a: "sv_heap s a = Some c"
  shows "\<exists>s'. freeClient_u a (s\<lparr>sv_sent := (sv_sent s)(a := out)\<rparr>) = Inr s' \<and> us_ok v lfd s'"
proof -
  obtain L1 L where L: "unregister (uc_fd c) AE_READABLE s = Inr (s\<lparr>sv_el := L1\<rparr>)"
    "unregister (uc_fd c) AE_WRITABLE (s\<lparr>sv_el := L1\<rparr>) = Inr (s\<lparr>sv_el := L\<rparr>)"
    "loop_inv L" "\<forall>g. g \<noteq> uc_fd c \<longrightarrow> el_events L g = el_events (sv_el s) g" "mask_of L (uc_fd c) = 0"
    using us.close_client [OF inv a] by blast
  let ?s = "\<lambda>o1. s\<lparr>sv_el := L, sv_open := sv_open s - {uc_fd c}, sv_heap := (sv_heap s)(a := None),
    sv_clients := sv_clients s - 1, sv_sent := o1\<rparr>"
  have f: "us_inv v lfd (st(a := None)) (?s (sv_sent s))"
    using L by (intro us.cli_free [OF inv a]) auto
  have "us_inv v lfd (st(a := None)) (?s ((sv_sent s)(a := out)))"
    using f by (intro us.cli_cong [OF f]) (auto simp: cli_inv_def)
  moreover have "freeClient_u a (s\<lparr>sv_sent := (sv_sent s)(a := out)\<rparr>) = Inr (?s ((sv_sent s)(a := out)))"
    using a L(1,2) by (simp add: freeClient_u_def unregister_sent)
  ultimately show ?thesis using us_okI by blast
qed

lemma accept_inv_u:
  assumes inv: "us_inv v lfd st s" and v: "sound_variant v"
    and fd: "cfd \<noteq> - 1 \<longrightarrow> 0 \<le> cfd \<and> cfd \<notin> sv_open s \<and> (\<forall>a. mem = Some a \<longrightarrow> sv_heap s a = None)"
  shows "\<exists>s'. acceptHandler_u v cfd mem ok s = Inr s' \<and> us_ok v lfd s'"
proof (cases "cfd = - 1 \<or> mem = None")
  case True
  have "s\<lparr>sv_open := sv_open s\<rparr> = s" by simp
  then show ?thesis
    using True us_okI [OF inv] fd by (auto simp: acceptHandler_u_def createClient_u_def insert_Diff_if)
next
  case False
  then obtain a where a: "mem = Some a" "sv_heap s a = None" "0 \<le> cfd" "cfd \<notin> sv_open s" using fd by auto
  let ?s0 = "s\<lparr>sv_open := insert cfd (sv_open s)\<rparr>"
  have li: "loop_inv (sv_el ?s0)" using inv by (simp add: cli_inv_def)
  show ?thesis
  proof (cases "ok \<and> cfd < AE_SETSIZE")
    case refused: False
    then have "\<not> ok \<or> AE_SETSIZE \<le> cfd" by auto
    from register_refused [OF li a(3) _ this, of AE_READABLE ReadQuery_u "Some a"]
    obtain L where L: "register ok cfd AE_READABLE ReadQuery_u (Some a) ?s0 = Inr (AE_ERR, ?s0\<lparr>sv_el := L\<rparr>)"
      "loop_inv L" "el_events L = el_events (sv_el s)" by auto
    have "us_inv v lfd st (s\<lparr>sv_el := L\<rparr>)" using L by (intro us.cli_cong [OF inv]) auto
    moreover have "insert cfd (sv_open s) - {cfd} - {cfd} = sv_open s" using a(4) by auto
    ultimately show ?thesis
      using L(1) a(1) False us_okI by (fastforce simp: acceptHandler_u_def createClient_u_def)
  next
    case True
    with register_ok [OF li a(3), of AE_READABLE ReadQuery_u "Some a"]
    obtain L where L: "register ok cfd AE_READABLE ReadQuery_u (Some a) ?s0 = Inr (AE_OK, ?s0\<lparr>sv_el := L\<rparr>)"
      "loop_inv L" "el_events L = (el_events (sv_el s))(cfd := reg_entry (el_events (sv_el s) cfd) AE_READABLE ReadQuery_u (Some a))"
      by auto
    let ?t = "\<lambda>n. (put a (new_client_u v cfd) (?s0\<lparr>sv_el := L\<rparr>))\<lparr>sv_clients := sv_clients s + 1,
      sv_sent := (sv_sent s)(a := []), us_numconnections := n\<rparr>"
    have new: "us_inv v lfd (st(a \<mapsto> Reading_u)) (?t n)" for n
      using True by (intro accept_new [OF inv a(2,4,3) _ v L(2,3)]) (auto simp: truncate_eq)
    have heap: "sv_heap (?t n) a = Some (new_client_u v cfd)" for n by simp
    have c: "createClient_u v mem ok cfd ?s0 = Inr (Some a, ?t (us_numconnections s))"
      using L(1) a(1) by (simp add: createClient_u_def put_def)
    define n where "n = (if v_count_refused v then us_numconnections s + 1 else us_numconnections s)"
    define t where "t = ?t"
    have e: "acceptHandler_u v cfd mem ok s
      = (if us_maxclients s \<noteq> 0 \<and> sv_clients s + 1 > us_maxclients s
         then freeClient_u a ((t n)\<lparr>sv_sent := (sv_sent (t n))(a := ''-ERR max number of clients reached'' @ CRLF)\<rparr>)
         else Inr (t (us_numconnections s + 1)))"
      using c False
      by (cases "v_count_refused v") (simp_all add: acceptHandler_u_def Let_def put_def n_def t_def)
    obtain s' where s': "freeClient_u a ((t n)\<lparr>sv_sent := (sv_sent (t n))(a := ''-ERR max number of clients reached'' @ CRLF)\<rparr>)
        = Inr s'" "us_ok v lfd s'"
      unfolding t_def using free_refused [OF new heap] by blast
    have "us_ok v lfd (t k)" for k unfolding t_def by (rule us_okI [OF new])
    then show ?thesis using s' by (simp add: e)
  qed
qed

subsection \<open>Every reachable state\<close>

lemma registered_who_u:
  assumes inv: "us_inv v lfd st s" and r: "registered (sv_el s) p fd msk"
  obtains (listen) "p = AcceptHandler_u"
  | (read) a c where "sv_heap s a = Some c" "fe_clientData (el_events (sv_el s) fd) = Some a" "st a = Some Reading_u"
      "p = ReadQuery_u"
  | (send) a c where "sv_heap s a = Some c" "fe_clientData (el_events (sv_el s) fd) = Some a" "st a = Some Writing_u"
      "p = SendReply_u"
proof -
  from us.registered_root [OF inv r] consider "[lfd \<mapsto> AcceptHandler_u] fd = Some p"
    | a c g where "sv_heap s a = Some c" "uc_fd c = fd" "st a = Some g" "stage_ok_u v (sv_el s) a c g" by auto
  then show thesis
  proof cases
    case 1
    then show thesis using listen by (auto split: if_splits)
  next
    case (2 a c g)
    show thesis
    proof (cases g)
      case Reading_u
      then show thesis
        using 2 read [OF 2(1)] entry_readable [OF _ r] by (auto simp: entry_def)
    next
      case Writing_u
      then show thesis
        using 2 send [OF 2(1)] entry_writable [OF _ r] by (auto simp: entry_def)
    qed
  qed
qed

lemma handler_inv_u:
  assumes "us_ok v lfd s" and v: "sound_variant v" and r: "registered (sv_el s) p fd msk"
    and ok: "answer_ok_u v p (fe_clientData (el_events (sv_el s) fd)) ans s"
  shows "\<exists>s'. run_handler_u v p (fe_clientData (el_events (sv_el s) fd)) ans s = Inr s' \<and> us_ok v lfd s'"
proof -
  obtain st where inv: "us_inv v lfd st s" using assms(1) by (auto simp: us_ok_def)
  show ?thesis
  proof (cases rule: registered_who_u [OF inv r])
    case 1
    then obtain cfd mem k where a: "ans = Ua_accept cfd mem k" using ok by (cases ans) auto
    with accept_inv_u [OF inv v, of cfd mem k] ok 1 show ?thesis by (auto simp: run_handler_u_def)
  next
    case (2 a c)
    then obtain rd now k where a: "ans = Ua_read rd now k" using ok by (cases ans) auto
    with ok 2 have "k" "\<And>d. rd = Ur_bytes d \<Longrightarrow> int (length d) \<le> int (v_read_len v) - uc_rlen c - 1" by auto
    with read_inv_u [OF v inv 2(1,3), of rd now] show ?thesis using 2 a by (simp add: run_handler_u_def)
  next
    case (3 a c)
    then obtain w now k where a: "ans = Ua_write w now k" using ok by (cases ans) auto
    with ok 3 have "k" "\<And>n. w = Uw_bytes n \<Longrightarrow> int n \<le> uc_wlen c - uc_wpos c" by auto
    with send_inv_u [OF inv 3(1,3) v, of w now] show ?thesis using 3 a by (simp add: run_handler_u_def)
  qed
qed

lemma init_inv_u:
  assumes "0 \<le> lfd" "lfd < AE_SETSIZE"
  shows "\<exists>s. initServer_u lfd f = Inr s \<and> us_ok v lfd s \<and> registered (sv_el s) AcceptHandler_u lfd 1
    \<and> sv_heap s = (\<lambda>_. None) \<and> sv_open s = {lfd} \<and> us_maxclients s = uf_maxclients f \<and> sv_clients s = 0 \<and> fe_clientData (el_events (sv_el s) lfd) = None"
proof -
  define s0 :: userver where "s0 = \<lparr>sv_el = new_loop, sv_clients = 0, sv_heap = (\<lambda>_. None), sv_open = {lfd}, sv_sent = (\<lambda>_. []),
    us_maxclients = uf_maxclients f, us_numcommands = 0, us_numconnections = 0, us_mid = uf_mid f, us_sid = 0\<rparr>"
  have "loop_inv (sv_el s0)" by (simp add: s0_def new_loop_inv)
  from register_ok [OF this assms, of AE_READABLE AcceptHandler_u None] obtain L where
    L: "register True lfd AE_READABLE AcceptHandler_u None s0 = Inr (AE_OK, s0\<lparr>sv_el := L\<rparr>)" "loop_inv L"
    "el_events L = (el_events (sv_el s0))(lfd := reg_entry (el_events (sv_el s0) lfd) AE_READABLE AcceptHandler_u None)"
    by auto
  let ?s = "s0\<lparr>sv_el := L\<rparr>"
  have ev: "el_events L g = (if g = lfd then reg_entry no_event AE_READABLE AcceptHandler_u None else no_event)" for g
    using L(3) by (simp add: s0_def new_loop_def)
  have "fd_inv [lfd \<mapsto> AcceptHandler_u] uc_fd ?s"
    using ev by (auto simp: fd_inv_def s0_def entry_def reg_entry_def no_event_def)
  then have "us_inv v lfd Map.empty ?s" using L(2) by (simp add: cli_inv_def s0_def)
  moreover have "initServer_u lfd f = Inr ?s" using L(1) by (simp add: initServer_u_def s0_def)
  moreover have "registered L AcceptHandler_u lfd 1" "fe_clientData (el_events L lfd) = None"
    using ev by (simp_all add: registered_def reg_entry_def no_event_def)
  ultimately show ?thesis using us_okI by (intro exI [of _ ?s]) (auto simp: s0_def)
qed

lemma reachable_u_ok:
  assumes "reachable_u v lfd f s" "0 \<le> lfd" "lfd < AE_SETSIZE" "sound_variant v"
  shows "us_ok v lfd s"
  using assms(1)
proof (induction rule: reachable_u.induct)
  case (start_u s)
  then show ?case using init_inv_u [OF assms(2,3), of f v] by auto
next
  case (step_u s p fd msk ans s')
  then show ?case using handler_inv_u [OF step_u.IH assms(4) step_u(2,3)] by auto
qed

lemma run_handler_ckw_eq: "run_handler_ckw = run_handler_u ckw"
  unfolding run_handler_ckw_def run_handler_u_def acceptHandler_ckw_def readQueryFromClient_ckw_def
    sendReplyToClient_ckw_def by (rule refl)

lemma sound_both: "v = uuid \<or> v = ckw \<Longrightarrow> sound_variant v"
  using sound_uuid sound_ckw by blast

text \<open>C21. Neither id server ever faults: in every reachable state each registered handler, on any
  answer of the kernel and of \<open>malloc\<close>, returns; no byte is written outside the fixed buffers, no
  freed client is used, and the scans of the request stop inside the buffer because \<open>read\<close> is
  never given its last byte.\<close>

theorem uuid_no_fault:
  assumes "v = uuid \<or> v = ckw" "0 \<le> lfd" "lfd < AE_SETSIZE" "reachable_u v lfd f s"
    and "registered (sv_el s) p fd msk" "answer_ok_u v p (fe_clientData (el_events (sv_el s) fd)) ans s"
  shows "\<exists>s'. run_handler_u v p (fe_clientData (el_events (sv_el s) fd)) ans s = Inr s'
    \<and> (v = ckw \<longrightarrow> run_handler_ckw p (fe_clientData (el_events (sv_el s) fd)) ans s = Inr s')"
  using handler_inv_u [OF reachable_u_ok [OF assms(4,2,3) sound_both [OF assms(1)]] sound_both [OF assms(1)] assms(5,6)]
  by (auto simp: run_handler_ckw_eq)

lemma demo_start_u: "\<exists>s. initServer_u 3 f = Inr s \<and> reachable_u v 3 f s \<and> registered (sv_el s) AcceptHandler_u 3 1
    \<and> sv_heap s = (\<lambda>_. None) \<and> sv_open s = {3} \<and> us_maxclients s = uf_maxclients f \<and> sv_clients s = 0 \<and> fe_clientData (el_events (sv_el s) 3) = None"
  using init_inv_u [of 3 f v] reachable_u.start_u [of 3 f _ v] by (fastforce simp: AE_SETSIZE_def)

theorem uuid_no_fault_witness:
  "\<exists>s s'. reachable_u uuid 3 (initServerConfig_u 3) s
    \<and> run_handler_u uuid AcceptHandler_u None (Ua_accept 5 (Some 100) True) s = Inr s'"
proof -
  obtain s where s: "reachable_u uuid 3 (initServerConfig_u 3) s" "registered (sv_el s) AcceptHandler_u 3 1"
    "sv_heap s = (\<lambda>_. None)" "sv_open s = {3}" "fe_clientData (el_events (sv_el s) 3) = None"
    using demo_start_u by blast
  from uuid_no_fault [OF _ _ _ s(1,2), of "Ua_accept 5 (Some 100) True"] s show ?thesis
    by (auto simp: AE_SETSIZE_def)
qed

text \<open>C22. What a client has been sent is a sequence of whole answers and, while one is under way, its
  first \<open>wpos\<close> bytes.\<close>

theorem uuid_whole_answers:
  assumes "v = uuid \<or> v = ckw" "0 \<le> lfd" "lfd < AE_SETSIZE" "reachable_u v lfd f s" "sv_heap s a = Some c"
  shows "\<exists>rs. (\<forall>r \<in> set rs. is_answer r) \<and> sv_sent s a = concat rs @ take (nat (uc_wpos c)) (uc_wbuf c)
    \<and> (uc_wpos c \<noteq> 0 \<longrightarrow> (\<exists>t. is_answer t \<and> c_str (uc_wbuf c) = Inr t \<and> nat (uc_wpos c) \<le> length t))"
proof -
  obtain st where inv: "us_inv v lfd st s"
    using reachable_u_ok [OF assms(4,2,3) sound_both [OF assms(1)]] by (auto simp: us_ok_def)
  obtain g where g: "stage_ok_u v (sv_el s) a c g" "sent_ok_u (sv_sent s a) c"
    using client_stage_u [OF inv assms(5)] by blast
  have "\<exists>t. is_answer t \<and> c_str (uc_wbuf c) = Inr t \<and> nat (uc_wpos c) \<le> length t" if "uc_wpos c \<noteq> 0"
    using g(1) that by (cases g) (auto simp: idle_u_def answering_u_def)
  then show ?thesis using g(2) by (auto simp: sent_ok_u_def)
qed

lemma demo_client_u: "\<exists>s c. reachable_u uuid 3 (initServerConfig_u 3) s \<and> sv_heap s 100 = Some c"
proof -
  obtain s where s: "reachable_u uuid 3 (initServerConfig_u 3) s" "registered (sv_el s) AcceptHandler_u 3 1"
    "sv_heap s = (\<lambda>_. None)" "sv_open s = {3}" "fe_clientData (el_events (sv_el s) 3) = None"
    "us_maxclients s = 1024" "sv_clients s = 0"
    using demo_start_u [of "initServerConfig_u 3" uuid] by (auto simp: initServerConfig_u_def)
  have ok: "answer_ok_u uuid AcceptHandler_u None (Ua_accept 5 (Some 100) True) s" using s by simp
  have "us_ok uuid 3 s" using s(1) by (intro reachable_u_ok sound_uuid) (auto simp: AE_SETSIZE_def)
  then obtain st where "us_inv uuid 3 st s" by (auto simp: us_ok_def)
  from accept_inv_u [OF this sound_uuid, of 5 "Some 100" True] s
  obtain s' where s': "acceptHandler_u uuid 5 (Some 100) True s = Inr s'" by auto
  then have "reachable_u uuid 3 (initServerConfig_u 3) s'"
    using s ok by (intro reachable_u.step_u [OF s(1,2), of "Ua_accept 5 (Some 100) True"]) (simp_all add: run_handler_u_def)
  moreover have "sv_heap s' 100 = Some (new_client_u uuid 5)"
    using s' s(6,7)
    by (auto simp: acceptHandler_u_def createClient_u_def fbind_eq_Inr register_def fmap_eq_Inr put_def
        aeCreateFileEvent_def aeApiAddEvent_def AE_SETSIZE_def Let_def split: option.splits if_splits)
  ultimately show ?thesis by blast
qed

theorem uuid_whole_answers_witness:
  "\<exists>s c rs. reachable_u uuid 3 (initServerConfig_u 3) s \<and> sv_heap s 100 = Some c \<and> (\<forall>r \<in> set rs. is_answer r)
    \<and> sv_sent s 100 = concat rs @ take (nat (uc_wpos c)) (uc_wbuf c)"
proof -
  obtain s c where s: "reachable_u uuid 3 (initServerConfig_u 3) s" "sv_heap s 100 = Some c"
    using demo_client_u by blast
  from uuid_whole_answers [OF _ _ _ s] s show ?thesis by (auto simp: AE_SETSIZE_def)
qed

end
