(* ===== verification/VectorUdf.thy ===== *)
theory VectorUdf
  imports Prelude
begin

section \<open>The sorted-set functions for MySQL (vector_udf/vector.c)\<close>

text \<open>
  A sorted set is a string of eight-byte objects, a member and a score, ordered by score. Each SQL
  function has an \<open>init\<close> that checks the arguments of the statement and a row function that maps
  the arguments of a row to a result; the buffer \<open>init\<close> allocates is cleared for every row, so a
  row's result depends on that row only. Lengths fit in an \<open>int\<close>: MySQL packets are at most one
  gigabyte. \<open>qsort\<close> is a parameter of \<open>zadd\<close>; what the C standard says of it is \<open>qsort_spec\<close>.
\<close>

subsection \<open>Data\<close>

record object =
  ob_member :: "32 word"
  ob_score :: "32 word"

abbreviation OBJ :: nat where "OBJ \<equiv> 8"

definition MAX_VECTOR_LEN :: nat where "MAX_VECTOR_LEN = 16384"

definition object_bytes :: "object \<Rightarrow> byte list" where
  "object_bytes x = le32_bytes (ob_member x) @ le32_bytes (ob_score x)"

text \<open>The array of objects a string is read as, up to its last whole object.\<close>

definition object_at :: "byte list \<Rightarrow> nat \<Rightarrow> object" where
  "object_at b i = \<lparr>ob_member = le32 (drop (OBJ * i) b), ob_score = le32 (drop (OBJ * i + 4) b)\<rparr>"

definition objects :: "byte list \<Rightarrow> object list" where
  "objects b = map (object_at b) [0..<length b div OBJ]"

definition object_data :: "object list \<Rightarrow> byte list" where
  "object_data xs = concat (map object_bytes xs)"

text \<open>The difference of two unsigned scores, returned as an \<open>int\<close>.\<close>

definition object_cmp :: "object \<Rightarrow> object \<Rightarrow> int" where
  "object_cmp a b = sint (ob_score a - ob_score b)"

text \<open>Arguments: in \<open>init\<close> a value that is not constant is \<open>None\<close>, in a row \<open>None\<close> is SQL's \<open>NULL\<close>;
  \<open>args->lengths\<close> is the length of the string, 0 for \<open>NULL\<close>.\<close>

datatype udf_type = STRING_RESULT | INT_RESULT | REAL_RESULT | ROW_RESULT | DECIMAL_RESULT
datatype udf_value = Bytes "byte list" | Number int

type_synonym udf_args = "(udf_type \<times> udf_value option) list"

definition arg_int :: "udf_args \<Rightarrow> nat \<Rightarrow> int res" where
  "arg_int args i = (case snd (args ! i) of Some (Number n) \<Rightarrow> Inr n | _ \<Rightarrow> Inl Null_deref)"

definition arg_bytes :: "udf_args \<Rightarrow> nat \<Rightarrow> byte list" where
  "arg_bytes args i = (case snd (args ! i) of Some (Bytes b) \<Rightarrow> b | _ \<Rightarrow> [])"

subsection \<open>Preparing a statement\<close>

text \<open>\<open>Inl\<close> is the message of a refusal, \<open>Inr\<close> the size of the buffer. \<open>mem\<close> says whether \<open>malloc\<close>
  succeeds.\<close>

definition in_range :: "int \<Rightarrow> int \<Rightarrow> bool" where
  "in_range hi n \<longleftrightarrow> \<not> (n < 0 \<or> n > hi)"

definition zadd_init :: "bool \<Rightarrow> udf_args \<Rightarrow> (string + nat) res" where
  "zadd_init mem args =
     (if length args \<noteq> 3 then Inr (Inl ''Usage: select zadd(old_data,new_member,new_score).'')
      else if fst (args ! 0) \<noteq> STRING_RESULT \<or> fst (args ! 1) \<noteq> INT_RESULT \<or> fst (args ! 2) \<noteq> INT_RESULT
      then Inr (Inl ''Usage: select zadd(string,int,int).'')
      else fbind (arg_int args 1) (\<lambda>m.
        if \<not> in_range 4294967295 m
        then Inr (Inl ''Usage: member and score must be a number bewteen 0 and 4294967295.'')
        else fmap (\<lambda>s. if \<not> in_range 4294967295 s
            then Inl ''Usage: member and score must be a number bewteen 0 and 4294967295.''
            else if \<not> mem then Inl ''Memory allocation failed.'' else Inr MAX_VECTOR_LEN)
          (arg_int args 2)))"

definition zrange_init :: "bool \<Rightarrow> udf_args \<Rightarrow> (string + nat) res" where
  "zrange_init mem args =
     (if length args \<noteq> 3 then Inr (Inl ''Usage: select zrange(data,start,stop).'')
      else if fst (args ! 0) \<noteq> STRING_RESULT \<or> fst (args ! 1) \<noteq> INT_RESULT \<or> fst (args ! 2) \<noteq> INT_RESULT
      then Inr (Inl ''Usage: select zrange(string,int,int).'')
      else fbind (arg_int args 1) (\<lambda>m.
        if \<not> in_range 2000 m then Inr (Inl ''Usage: member and score must a number between 0 and 2000'')
        else fmap (\<lambda>s. if \<not> in_range 2000 s
            then Inl ''Usage: member and score must a number between 0 and 2000''
            else if \<not> mem then Inl ''Memory allocation failed.'' else Inr (MAX_VECTOR_LEN * 3))
          (arg_int args 2)))"

definition zcard_init :: "udf_args \<Rightarrow> string + nat" where
  "zcard_init args =
     (if length args \<noteq> 1 then Inl ''Usage: select zcard(data).''
      else if fst (args ! 0) \<noteq> STRING_RESULT then Inl ''Usage: select zcard(string).'' else Inr 0)"

definition zrem_init :: "bool \<Rightarrow> udf_args \<Rightarrow> (string + nat) res" where
  "zrem_init mem args =
     (if length args \<noteq> 2 then Inr (Inl ''Usage: select zrem(data,member).'')
      else if fst (args ! 0) \<noteq> STRING_RESULT \<or> fst (args ! 1) \<noteq> INT_RESULT
      then Inr (Inl ''Usage: select zadd(string,int,int).'')
      else fmap (\<lambda>m. if \<not> in_range 4294967295 m then Inl ''Usage: member must be a number between 0 and 4294967295.''
          else if \<not> mem then Inl ''Memory allocation failed.'' else Inr MAX_VECTOR_LEN)
        (arg_int args 1))"

subsection \<open>The row functions\<close>

text \<open>The loop of \<open>zadd\<close>: every object with the member gets the score, \<open>found\<close> says whether one has.\<close>

fun set_score :: "object \<Rightarrow> object list \<Rightarrow> object list \<times> bool" where
  "set_score x [] = ([], False)"
| "set_score x (y # ys) =
     (let (zs, found) = set_score x ys
      in if ob_member y = ob_member x then (y\<lparr>ob_score := ob_score x\<rparr> # zs, True) else (y # zs, found))"

definition zadd :: "((object \<Rightarrow> object \<Rightarrow> int) \<Rightarrow> object list \<Rightarrow> object list) \<Rightarrow> nat \<Rightarrow> udf_args \<Rightarrow> byte list res" where
  "zadd qsort max_length args =
     (let old_data = arg_bytes args 0; len = length old_data in
      if len > max_length then Inr (take max_length old_data)
      else if len mod OBJ \<noteq> 0 then Inr old_data
      else fbind (arg_int args 1) (\<lambda>m. fmap (\<lambda>s.
        let obj = \<lparr>ob_member = word_of_int m, ob_score = word_of_int s\<rparr>;
            (new_data, found) = set_score obj (objects old_data);
            xs = (if \<not> found \<and> len + OBJ \<le> max_length then new_data @ [obj] else new_data)
        in object_data (qsort object_cmp xs)) (arg_int args 2)))"

definition zrem :: "nat \<Rightarrow> udf_args \<Rightarrow> byte list res" where
  "zrem max_length args =
     (let old_data = arg_bytes args 0; len = length old_data in
      if len + OBJ > max_length \<or> len mod OBJ \<noteq> 0 then Inr (take max_length old_data)
      else fmap (\<lambda>m. object_data (filter (\<lambda>x. ob_member x \<noteq> word_of_int m) (objects old_data))) (arg_int args 1))"

definition zcard :: "udf_args \<Rightarrow> int" where
  "zcard args =
     (let len = length (arg_bytes args 0) in
      if len > MAX_VECTOR_LEN \<or> len mod OBJ \<noteq> 0 then - 1 else int (len div OBJ))"

text \<open>The loop of \<open>zrange\<close> from index \<open>i\<close>; \<open>fuel\<close> is the number of turns left.\<close>

definition show_object :: "object \<Rightarrow> string" where
  "show_object x = ''['' @ show_nat (unat (ob_member x)) @ '','' @ show_nat (unat (ob_score x)) @ '']''"

fun show_objects :: "object list \<Rightarrow> nat \<Rightarrow> nat \<Rightarrow> string" where
  "show_objects xs i 0 = []"
| "show_objects xs i (Suc n) = show_object (xs ! i) @ (if n \<noteq> 0 then '','' else []) @ show_objects xs (Suc i) n"

text \<open>\<open>Inr None\<close> is SQL's \<open>NULL\<close>; the text and the NUL that \<open>sprintf\<close> writes behind an object must fit
  in the buffer.\<close>

definition zrange :: "nat \<Rightarrow> udf_args \<Rightarrow> string option res" where
  "zrange max_length args =
     (let data = arg_bytes args 0; len = length data in
      if len > MAX_VECTOR_LEN then Inr None
      else if len mod OBJ \<noteq> 0 then Inr None
      else fbind (arg_int args 1) (\<lambda>m. fbind (arg_int args 2) (\<lambda>n.
        let start = unat (word_of_int m :: 32 word); nobj = len div OBJ;
            stop = min (unat (word_of_int n :: 32 word)) nobj;
            t = ''['' @ show_objects (objects data) start (stop - start) @ '']''
        in if length t \<le> max_length then Inr (Some t) else Inl Buffer_overflow)))"

subsection \<open>What is asked of \<open>qsort\<close>\<close>

text \<open>The comparison is consistent on a set: a total preorder.\<close>

definition consistent :: "('a \<Rightarrow> 'a \<Rightarrow> int) \<Rightarrow> 'a set \<Rightarrow> bool" where
  "consistent cmp A \<longleftrightarrow> (\<forall>a \<in> A. \<forall>b \<in> A. (cmp a b \<le> 0 \<or> cmp b a \<le> 0) \<and> (cmp a b < 0 \<longrightarrow> \<not> cmp b a \<le> 0)
     \<and> (\<forall>c \<in> A. cmp a b \<le> 0 \<longrightarrow> cmp b c \<le> 0 \<longrightarrow> cmp a c \<le> 0))"

definition qsort_spec :: "(('a \<Rightarrow> 'a \<Rightarrow> int) \<Rightarrow> 'a list \<Rightarrow> 'a list) \<Rightarrow> bool" where
  "qsort_spec qsort \<longleftrightarrow> (\<forall>cmp xs. mset (qsort cmp xs) = mset xs
     \<and> (consistent cmp (set xs) \<longrightarrow> sorted_wrt (\<lambda>a b. cmp a b \<le> 0) (qsort cmp xs)))"

section \<open>Strings and objects\<close>

lemma length_object_bytes [simp]: "length (object_bytes x) = 8"
  by (simp add: object_bytes_def)

lemma length_object_data [simp]: "length (object_data xs) = 8 * length xs"
  by (induction xs) (simp_all add: object_data_def)

lemma object_at_0: "object_at (object_bytes x @ r) 0 = x"
  by (simp add: object_at_def object_bytes_def)

lemma object_at_Suc: "object_at (object_bytes x @ r) (Suc i) = object_at r i"
  by (simp add: object_at_def add.commute [of 4])

lemma objects_cons: "objects (object_bytes x @ r) = x # objects r"
proof -
  have "length (object_bytes x @ r) div OBJ = Suc (length r div OBJ)" by simp
  then show ?thesis
    by (simp only: objects_def) (simp add: upt_conv_Cons object_at_0 object_at_Suc flip: map_Suc_upt del: upt_Suc)
qed

lemma objects_object_data [simp]: "objects (object_data xs) = xs"
proof (induction xs)
  case (Cons x xs)
  then show ?case using objects_cons [of x "object_data xs"] by (simp add: object_data_def)
qed (simp add: objects_def object_data_def)

section \<open>Sorted sets as maps\<close>

definition zmap :: "object list \<Rightarrow> 32 word \<Rightarrow> 32 word option" where
  "zmap xs = map_of (map (\<lambda>x. (ob_member x, ob_score x)) xs)"

definition zset :: "object list \<Rightarrow> bool" where
  "zset xs \<longleftrightarrow> distinct (map ob_member xs) \<and> sorted_wrt (\<lambda>a b. ob_score a \<le> ob_score b) xs"

lemma set_score_eq:
  "set_score x ys = (map (\<lambda>y. if ob_member y = ob_member x then y\<lparr>ob_score := ob_score x\<rparr> else y) ys,
     ob_member x \<in> ob_member ` set ys)"
  by (induction ys) auto

lemma zmap_mset:
  assumes "mset xs = mset ys" "distinct (map ob_member xs)"
  shows "zmap xs = zmap ys" "distinct (map ob_member ys)"
proof -
  have "mset (map ob_member xs) = mset (map ob_member ys)" using assms(1) by (simp only: mset_map)
  then show d: "distinct (map ob_member ys)" using assms(2) by (metis mset_eq_imp_distinct_iff)
  have "set xs = set ys" using assms(1) by (rule mset_eq_setD)
  then show "zmap xs = zmap ys"
    using assms(2) d unfolding zmap_def by (intro map_of_inject_set [THEN iffD2]) (simp_all add: o_def)
qed

lemma cmp_small:
  assumes "ob_score a < 2 ^ 31" "ob_score b < 2 ^ 31"
  shows "object_cmp a b = uint (ob_score a) - uint (ob_score b)"
proof -
  have "uint (ob_score a) < 2 ^ 31" "uint (ob_score b) < 2 ^ 31" using assms by (simp_all add: word_less_def)
  then have "to_i32 (uint (ob_score a) - uint (ob_score b)) = uint (ob_score a) - uint (ob_score b)"
    by (intro to_i32_small) (use uint_ge_0 [of "ob_score a"] uint_ge_0 [of "ob_score b"] in linarith)+
  then show ?thesis by (simp add: to_i32_def object_cmp_def)
qed

lemma cmp_le: "ob_score a < 2 ^ 31 \<Longrightarrow> ob_score b < 2 ^ 31 \<Longrightarrow> object_cmp a b \<le> 0 \<longleftrightarrow> ob_score a \<le> ob_score b"
  by (simp add: cmp_small word_le_def)

lemma qsort_scores:
  assumes q: "qsort_spec qs" and s: "\<forall>x \<in> set xs. ob_score x < 2 ^ 31" and d: "distinct (map ob_member xs)"
  shows "zset (qs object_cmp xs)" "zmap (qs object_cmp xs) = zmap xs"
proof -
  have "consistent object_cmp (set xs)"
    using s by (auto simp: consistent_def cmp_small)
  then have srt: "sorted_wrt (\<lambda>a b. object_cmp a b \<le> 0) (qs object_cmp xs)" and m: "mset (qs object_cmp xs) = mset xs"
    using q by (auto simp: qsort_spec_def)
  have "set (qs object_cmp xs) = set xs" using m by (rule mset_eq_setD)
  then have "sorted_wrt (\<lambda>a b. ob_score a \<le> ob_score b) (qs object_cmp xs)"
    using s by (intro sorted_wrt_mono_rel [OF _ srt]) (simp add: cmp_le)
  then show "zset (qs object_cmp xs)" "zmap (qs object_cmp xs) = zmap xs"
    using zmap_mset [OF m [symmetric] d] by (simp_all add: zset_def)
qed

definition zargs :: "object list \<Rightarrow> int list \<Rightarrow> udf_args" where
  "zargs xs ns = (STRING_RESULT, Some (Bytes (object_data xs))) # map (\<lambda>n. (INT_RESULT, Some (Number n))) ns"

lemma zargs_simps [simp]:
  "arg_bytes (zargs xs ns) 0 = object_data xs"
  "arg_int (zargs xs (m # ns)) (Suc 0) = Inr m"
  "arg_int (zargs xs (k # m # ns)) 2 = Inr m"
  by (simp_all add: arg_bytes_def arg_int_def zargs_def)

lemma zmap_scored:
  assumes "distinct (map ob_member xs)"
  shows "zmap (let (ys, found) = set_score x xs in if found then ys else ys @ [x]) = (zmap xs)(ob_member x \<mapsto> ob_score x)"
    "distinct (map ob_member (let (ys, found) = set_score x xs in if found then ys else ys @ [x]))"
proof -
  let ?f = "\<lambda>y. if ob_member y = ob_member x then y\<lparr>ob_score := ob_score x\<rparr> else y"
  have m: "zmap (map ?f xs) k = (if k = ob_member x \<and> k \<in> ob_member ` set xs then Some (ob_score x) else zmap xs k)" for k
    by (induction xs) (auto simp: zmap_def)
  have none: "ob_member x \<notin> ob_member ` set xs \<Longrightarrow> map ?f xs = xs"
    by (intro map_idI) (metis image_eqI)
  have app: "zmap (xs @ [x]) k = (case zmap xs k of None \<Rightarrow> if k = ob_member x then Some (ob_score x) else None | v \<Rightarrow> v)" for k
    by (simp add: zmap_def map_add_def split: option.splits)
  have nn: "k \<notin> ob_member ` set xs \<Longrightarrow> zmap xs k = None" for k
    by (force simp: zmap_def map_of_eq_None_iff)
  show "zmap (let (ys, found) = set_score x xs in if found then ys else ys @ [x]) = (zmap xs)(ob_member x \<mapsto> ob_score x)"
  proof (cases "ob_member x \<in> ob_member ` set xs")
    case True
    then show ?thesis by (intro ext) (auto simp: set_score_eq m)
  next
    case False
    then show ?thesis
      using none nn by (intro ext) (auto simp: set_score_eq app split: option.splits)
  qed
  have "map ob_member (map ?f xs) = map ob_member xs" by (induction xs) auto
  then show "distinct (map ob_member (let (ys, found) = set_score x xs in if found then ys else ys @ [x]))"
    using assms by (auto simp: set_score_eq simp del: map_map)
qed

text \<open>C24. \<open>zadd\<close> is map update: on a string of objects with distinct members it returns a sorted set
  whose map from members to scores is the old one with the new score for the new member, as long
  as there is room for one more object and the scores are below \<open>2 ^ 31\<close>.\<close>

theorem zadd_refines:
  assumes "qsort_spec qs" "distinct (map ob_member xs)" "8 * length xs + 8 \<le> max_length"
    and "\<forall>x \<in> set xs. ob_score x < 2 ^ 31" "0 \<le> s" "s < 2 ^ 31"
  shows "\<exists>ys. zadd qs max_length (zargs xs [m, s]) = Inr (object_data ys) \<and> zset ys
    \<and> zmap ys = (zmap xs)(word_of_int m \<mapsto> word_of_int s)"
proof -
  let ?x = "\<lparr>ob_member = word_of_int m, ob_score = word_of_int s\<rparr>"
  let ?ys = "let (ys, found) = set_score ?x xs in if found then ys else ys @ [?x]"
  have s31: "(word_of_int s :: 32 word) < 2 ^ 31"
    using assms(5,6) by (simp add: word_less_def uint_word_of_int_eq take_bit_int_eq_self)
  have "set ?ys \<subseteq> {y. ob_score y < 2 ^ 31}"
    using assms(4) s31 by (auto simp: set_score_eq)
  then have "\<forall>y \<in> set ?ys. ob_score y < 2 ^ 31" by blast
  then have "zset (qs object_cmp ?ys)" "zmap (qs object_cmp ?ys) = zmap ?ys"
    using qsort_scores [OF assms(1) _ zmap_scored(2) [OF assms(2), of ?x]] by simp_all
  moreover have "zadd qs max_length (zargs xs [m, s]) = Inr (object_data (qs object_cmp ?ys))"
    using assms(3) by (auto simp: zadd_def Let_def case_prod_beta)
  ultimately show ?thesis using zmap_scored(1) [OF assms(2), of ?x] by auto
qed

text \<open>An instance of the parameter: insertion by the comparison.\<close>

fun insert_by :: "('a \<Rightarrow> 'a \<Rightarrow> int) \<Rightarrow> 'a \<Rightarrow> 'a list \<Rightarrow> 'a list" where
  "insert_by cmp x [] = [x]"
| "insert_by cmp x (y # ys) = (if cmp x y \<le> 0 then x # y # ys else y # insert_by cmp x ys)"

definition sort_by :: "('a \<Rightarrow> 'a \<Rightarrow> int) \<Rightarrow> 'a list \<Rightarrow> 'a list" where
  "sort_by cmp xs = foldr (insert_by cmp) xs []"

lemma mset_insert_by [simp]: "mset (insert_by cmp x ys) = add_mset x (mset ys)"
  by (induction ys) auto

lemma set_insert_by [simp]: "set (insert_by cmp x ys) = insert x (set ys)"
  using mset_eq_setD [of "insert_by cmp x ys" "x # ys"] by simp

lemma consistent_subset: "consistent cmp A \<Longrightarrow> B \<subseteq> A \<Longrightarrow> consistent cmp B"
  unfolding consistent_def by (meson subsetD)

lemma consistent_total: "consistent cmp A \<Longrightarrow> a \<in> A \<Longrightarrow> b \<in> A \<Longrightarrow> cmp a b \<le> 0 \<or> cmp b a \<le> 0"
  unfolding consistent_def by blast

lemma consistent_trans:
  "consistent cmp A \<Longrightarrow> a \<in> A \<Longrightarrow> b \<in> A \<Longrightarrow> c \<in> A \<Longrightarrow> cmp a b \<le> 0 \<Longrightarrow> cmp b c \<le> 0 \<Longrightarrow> cmp a c \<le> 0"
  unfolding consistent_def by blast

lemma sorted_insert_by:
  assumes "consistent cmp (insert x (set ys))" "sorted_wrt (\<lambda>a b. cmp a b \<le> 0) ys"
  shows "sorted_wrt (\<lambda>a b. cmp a b \<le> 0) (insert_by cmp x ys)"
  using assms
proof (induction ys)
  case (Cons y ys)
  have c: "consistent cmp (insert x (set ys))" by (rule consistent_subset [OF Cons.prems(1)]) auto
  have t: "cmp x z \<le> 0" if "cmp x y \<le> 0" "z \<in> set ys" for z
    using consistent_trans [OF Cons.prems(1), of x y z] that Cons.prems(2) by simp
  have "cmp x y \<le> 0 \<or> cmp y x \<le> 0"
    using consistent_total [OF Cons.prems(1), of x y] by simp
  then show ?case using Cons.IH [OF c] Cons.prems(2) t by auto
qed simp

lemma qsort_spec_sort_by: "qsort_spec sort_by"
proof -
  have m: "mset (sort_by cmp xs) = mset xs" for cmp :: "'a \<Rightarrow> 'a \<Rightarrow> int" and xs
    by (induction xs) (simp_all add: sort_by_def)
  moreover have "sorted_wrt (\<lambda>a b. cmp a b \<le> 0) (sort_by cmp xs)" if "consistent cmp (set xs)"
    for cmp :: "'a \<Rightarrow> 'a \<Rightarrow> int" and xs
    using that
  proof (induction xs)
    case (Cons x xs)
    have "set (sort_by cmp xs) = set xs" using m by (rule mset_eq_setD)
    then show ?case
      using Cons.IH [OF consistent_subset [OF Cons.prems]] sorted_insert_by [of cmp x "sort_by cmp xs"] Cons.prems
      by (simp add: sort_by_def subset_insertI)
  qed (simp add: sort_by_def)
  ultimately show ?thesis by (simp add: qsort_spec_def)
qed

theorem zadd_refines_witness:
  "\<exists>ys. zadd sort_by 16384 (zargs [\<lparr>ob_member = 1, ob_score = 9\<rparr>, \<lparr>ob_member = 2, ob_score = 5\<rparr>] [2, 11])
      = Inr (object_data ys) \<and> zset ys \<and> zmap ys 2 = Some 11 \<and> zmap ys 1 = Some 9"
proof -
  let ?xs = "[\<lparr>ob_member = 1, ob_score = 9\<rparr>, \<lparr>ob_member = 2, ob_score = 5\<rparr>] :: object list"
  have "\<forall>x \<in> set ?xs. ob_score x < 2 ^ 31" by (simp add: word_less_nat_alt)
  from zadd_refines [OF qsort_spec_sort_by _ _ this, of 16384 11 2]
  obtain ys where ys: "zadd sort_by 16384 (zargs ?xs [2, 11]) = Inr (object_data ys)" "zset ys"
    "zmap ys = (zmap ?xs)(2 \<mapsto> 11)" by auto
  moreover have "zmap ys 2 = Some 11" "zmap ys 1 = Some 9" unfolding ys(3) by (simp_all add: zmap_def)
  ultimately show ?thesis by blast
qed

text \<open>Scores \<open>2 ^ 31\<close> apart: whatever \<open>qsort\<close> the library has, the larger score comes first.\<close>

lemma zadd_missorts:
  assumes "qsort_spec qs"
  shows "zadd qs 16384 (zargs [\<lparr>ob_member = 1, ob_score = 0\<rparr>] [2, 2147483649])
    = Inr (object_data [\<lparr>ob_member = 2, ob_score = 2147483649\<rparr>, \<lparr>ob_member = 1, ob_score = 0\<rparr>])"
proof -
  let ?a = "\<lparr>ob_member = 1, ob_score = 0\<rparr> :: object" and ?b = "\<lparr>ob_member = 2, ob_score = 2147483649\<rparr> :: object"
  have c: "object_cmp ?a ?b = 2147483647" "object_cmp ?b ?a = - 2147483647" "object_cmp ?a ?a = 0" "object_cmp ?b ?b = 0"
    by (simp_all add: object_cmp_def)
  then have "consistent object_cmp (set [?a, ?b])" by (auto simp: consistent_def)
  then have s: "sorted_wrt (\<lambda>a b. object_cmp a b \<le> 0) (qs object_cmp [?a, ?b])" and m: "mset (qs object_cmp [?a, ?b]) = {#?a, ?b#}"
    using assms by (auto simp: qsort_spec_def)
  have "length (qs object_cmp [?a, ?b]) = 2" using arg_cong [OF m, of size] by simp
  then obtain x y where xy: "qs object_cmp [?a, ?b] = [x, y]" by (auto simp: length_Suc_conv numeral_2_eq_2)
  then have "(x = ?a \<and> y = ?b) \<or> (x = ?b \<and> y = ?a)" using mset_eq_setD [of "[x, y]" "[?a, ?b]"] m by (auto simp: doubleton_eq_iff)
  then have "qs object_cmp [?a, ?b] = [?b, ?a]" using s c unfolding xy by auto
  then show ?thesis by (simp add: zadd_def)
qed

text \<open>\<open>zrem\<close> deletes the member from the map and keeps the set sorted; \<open>zcard\<close> is the number of
  members.\<close>

theorem zrem_zcard_refine:
  assumes "distinct (map ob_member xs)" "8 * length xs + 8 \<le> max_length" "8 * length xs \<le> MAX_VECTOR_LEN"
  shows "\<exists>ys. zrem max_length (zargs xs [m]) = Inr (object_data ys) \<and> (zset xs \<longrightarrow> zset ys)
    \<and> zmap ys = (zmap xs)(word_of_int m := None) \<and> zcard (zargs xs ns) = int (card (dom (zmap xs)))"
proof -
  let ?ys = "filter (\<lambda>x. ob_member x \<noteq> word_of_int m) xs"
  have "zrem max_length (zargs xs [m]) = Inr (object_data ?ys)"
    using assms(2) by (simp add: zrem_def)
  moreover have "zset xs \<longrightarrow> zset ?ys"
    by (auto simp: zset_def distinct_map_filter sorted_wrt_filter)
  moreover have "zmap ?ys k = ((zmap xs)(word_of_int m := None)) k" for k
    by (induction xs) (auto simp: zmap_def)
  moreover have "dom (zmap xs) = ob_member ` set xs"
    by (force simp: zmap_def dom_map_of_conv_image_fst image_image)
  then have "card (dom (zmap xs)) = length xs"
    using distinct_card [OF assms(1)] by simp
  then have "zcard (zargs xs ns) = int (card (dom (zmap xs)))"
    using assms(3) by (simp add: zcard_def Let_def)
  ultimately show ?thesis by blast
qed

theorem zrem_zcard_refine_witness:
  "\<exists>ys. zrem 16384 (zargs [\<lparr>ob_member = 1, ob_score = 9\<rparr>, \<lparr>ob_member = 2, ob_score = 15\<rparr>] [1])
      = Inr (object_data ys) \<and> zmap ys 1 = None \<and> zmap ys 2 = Some 15"
proof -
  let ?xs = "[\<lparr>ob_member = 1, ob_score = 9\<rparr>, \<lparr>ob_member = 2, ob_score = 15\<rparr>] :: object list"
  from zrem_zcard_refine [of ?xs 16384 1] obtain ys where
    ys: "zrem 16384 (zargs ?xs [1]) = Inr (object_data ys)" "zmap ys = (zmap ?xs)(1 := None)"
    by (auto simp: MAX_VECTOR_LEN_def)
  moreover have "zmap ys 1 = None" "zmap ys 2 = Some 15" unfolding ys(2) by (simp_all add: zmap_def)
  ultimately show ?thesis by blast
qed

subsection \<open>Printing a range\<close>

fun join :: "string \<Rightarrow> string list \<Rightarrow> string" where
  "join sep [] = []"
| "join sep [x] = x"
| "join sep (x # y # ys) = x @ sep @ join sep (y # ys)"

lemma show_objects_join:
  "i + n \<le> length xs \<Longrightarrow> show_objects xs i n = join '','' (map show_object (take n (drop i xs)))"
proof (induction n arbitrary: i)
  case (Suc n)
  then have d: "drop i xs = xs ! i # drop (Suc i) xs" by (simp add: Cons_nth_drop_Suc)
  show ?case
  proof (cases n)
    case 0
    then show ?thesis using d by simp
  next
    case (Suc k)
    have "drop (Suc i) xs = xs ! Suc i # drop (Suc (Suc i)) xs"
      using Suc.prems Suc by (intro Cons_nth_drop_Suc [symmetric]) simp
    then show ?thesis using Suc.IH [of "Suc i"] Suc.prems Suc d by simp
  qed
qed simp

lemma length_show_object: "length (show_object x) \<le> 23"
proof -
  have "length (show_nat (unat w)) \<le> 10" for w :: "32 word"
  proof (rule length_show_nat)
    have "unat w < 2 ^ 32" using unsigned_less [of w] by simp
    then show "unat w < 10 ^ 10" by simp
  qed simp
  from this [of "ob_member x"] this [of "ob_score x"] show ?thesis by (simp add: show_object_def)
qed

lemma length_show_objects: "length (show_objects xs i n) \<le> 24 * n"
proof (induction n arbitrary: i)
  case (Suc n)
  have "length (show_objects xs (Suc i) n) \<le> 24 * n" "length (show_object (xs ! i)) \<le> 23"
    using Suc.IH length_show_object by blast+
  then show ?case by (cases n) simp_all
qed simp

text \<open>\<open>zrange\<close> prints exactly the objects of the range, in order, as a JSON array; the ranges that
  \<open>zrange_init\<close> accepts never overrun the buffer it allocates, whatever the set.\<close>

theorem zrange_prints:
  assumes "zrange_init True (zargs xs [a, b]) = Inr (Inr max_length)" "8 * length xs \<le> MAX_VECTOR_LEN"
  shows "zrange max_length (zargs xs [a, b])
    = Inr (Some (''['' @ join '','' (map show_object (take (nat b - nat a) (drop (nat a) xs))) @ '']''))"
proof -
  have ab: "0 \<le> a" "a \<le> 2000" "0 \<le> b" "b \<le> 2000" and l: "max_length = 49152"
    using assms(1) by (auto simp: zrange_init_def in_range_def MAX_VECTOR_LEN_def zargs_def arg_int_def split: if_splits)
  have u: "unat (word_of_int k :: 32 word) = nat k" if "0 \<le> k" "k \<le> 2000" for k
    using that by (simp add: unsigned_of_int take_bit_int_eq_self)
  let ?stop = "min (nat b) (length xs)"
  have "length (show_objects xs (nat a) (?stop - nat a)) \<le> 24 * 2000"
    using length_show_objects [of xs "nat a" "?stop - nat a"] ab(4) by linarith
  moreover have "show_objects xs (nat a) (?stop - nat a)
    = join '','' (map show_object (take (?stop - nat a) (drop (nat a) xs)))"
  proof (cases "nat a \<le> ?stop")
    case True
    then show ?thesis by (intro show_objects_join) simp
  next
    case False
    then have "?stop - nat a = 0" by linarith
    then show ?thesis by simp
  qed
  moreover have "take (?stop - nat a) (drop (nat a) xs) = take (nat b - nat a) (drop (nat a) xs)"
    by (cases "nat b \<le> length xs") (simp_all add: min_def)
  ultimately show ?thesis
    using assms(2) ab l by (simp add: zrange_def Let_def u)
qed

theorem zrange_prints_witness:
  "zrange 49152 (zargs [\<lparr>ob_member = 1, ob_score = 9\<rparr>, \<lparr>ob_member = 2, ob_score = 15\<rparr>] [0, 10])
    = Inr (Some ''[[1,9],[2,15]]'')"
proof -
  let ?xs = "[\<lparr>ob_member = 1, ob_score = 9\<rparr>, \<lparr>ob_member = 2, ob_score = 15\<rparr>] :: object list"
  have "zrange_init True (zargs ?xs [0, 10]) = Inr (Inr 49152)"
    by (simp add: zrange_init_def in_range_def MAX_VECTOR_LEN_def zargs_def arg_int_def)
  from zrange_prints [OF this] show ?thesis
    by (simp add: MAX_VECTOR_LEN_def show_object_def show_nat.simps digit_char_def char_of_def bit_0)
qed

text \<open>An argument that is not a constant: \<open>init\<close> reads through a null pointer.\<close>

lemma init_reads_null:
  "zadd_init mem [(STRING_RESULT, d), (INT_RESULT, None), (INT_RESULT, s)] = Inl Null_deref"
  by (simp add: zadd_init_def arg_int_def)

end
