(* ===== verification/UdpFront.thy ===== *)
theory UdpFront
  imports Prelude
begin

section \<open>The datagram front end of a key-value server (uRedis/udp.c)\<close>

text \<open>
  A client sends one datagram: an eight-byte header (request id, sequence number, number of
  datagrams) and an \<open>mget\<close> request. The server looks the keys up and sends the reply back in
  datagrams of at most 1024 bytes. The key-value store is a parameter, \<open>db\<close>: what \<open>lookupKeyRead\<close>
  returns for a key. The buffers are the arrays of the handler. Log output is left out.
\<close>

subsection \<open>Headers\<close>

text \<open>The result and the buffer; stores into a \<open>char\<close> keep the low eight bits.\<close>

definition headerEncode :: "string \<Rightarrow> int \<Rightarrow> int \<Rightarrow> int \<Rightarrow> int \<times> string" where
  "headerEncode wbuf req seq ngram =
     (if req < 0 \<or> req > 65535 \<or> seq < 0 \<or> seq > 65535 \<or> ngram < 0 \<or> ngram > 65535 then (- 1, wbuf)
      else (8, [char_of (drop_bit 8 req), char_of (drop_bit 8 (push_bit 8 req)),
                char_of (drop_bit 8 seq), char_of (drop_bit 8 (push_bit 8 seq)),
                char_of (drop_bit 8 ngram), char_of (drop_bit 8 (push_bit 8 ngram)), NUL, NUL] @ drop 8 wbuf))"

definition headerDecode :: "string \<Rightarrow> int \<times> int \<times> int" where
  "headerDecode hdr =
     (push_bit 8 (of_char (hdr ! 0)) + of_char (hdr ! 1), push_bit 8 (of_char (hdr ! 2)) + of_char (hdr ! 3),
      push_bit 8 (of_char (hdr ! 4)) + of_char (hdr ! 5))"

subsection \<open>The store\<close>

datatype robj = Raw string | Int_encoded int | Other_encoding | Not_string

type_synonym kvstore = "string \<Rightarrow> robj option"

text \<open>The return value and the bytes written to \<open>value\<close>, an array of \<open>vlen\<close> bytes.\<close>

definition getCommandforUdp :: "kvstore \<Rightarrow> string \<Rightarrow> nat \<Rightarrow> (int \<times> string) res" where
  "getCommandforUdp db key vlen = fmap (\<lambda>k. case db k of
       None \<Rightarrow> (- 1, [])
     | Some Not_string \<Rightarrow> (- 1, [])
     | Some (Raw s) \<Rightarrow> (int (length s), take vlen s)
     | Some (Int_encoded n) \<Rightarrow> (int (length (show_int n)), take (vlen - 1) (show_int n) @ [NUL])
     | Some Other_encoding \<Rightarrow> (- 1, [])) (c_str key)"

subsection \<open>The reply\<close>

abbreviation HDR :: nat where "HDR \<equiv> 8"
abbreviation RBUF :: nat where "RBUF \<equiv> 1024"
abbreviation WBUF :: nat where "WBUF \<equiv> 65536"
abbreviation PSIZE :: nat where "PSIZE \<equiv> 1024"
abbreviation KEY_LEN :: nat where "KEY_LEN \<equiv> 1024"
abbreviation VAL_LEN :: nat where "VAL_LEN \<equiv> 16384"

text \<open>\<open>memcpy\<close> of \<open>t\<close> to offset \<open>i\<close>, \<open>snprintf\<close> there, \<open>sprintf\<close> at the front.\<close>

definition copy_to :: "nat \<Rightarrow> string \<Rightarrow> string \<Rightarrow> string res" where
  "copy_to i t b = (if i + length t \<le> length b then Inr (take i b @ t @ drop (i + length t) b) else Inl Buffer_overflow)"

definition print_at :: "nat \<Rightarrow> string \<Rightarrow> string \<Rightarrow> string" where
  "print_at i t b = take i b @ c_snprintf (WBUF - i) t (drop i b)"

definition error_text :: "string \<Rightarrow> string \<Rightarrow> string res" where
  "error_text t b = copy_to 0 (t @ [NUL]) b"

definition strstr_at :: "string \<Rightarrow> nat \<Rightarrow> nat option res" where
  "strstr_at b i = fmap (map_option (\<lambda>k. i + k)) (c_strstr CRLF (drop i b))"

text \<open>\<open>strncmp(p, lit, strlen(lit)) == 0\<close> for a literal without NUL.\<close>

fun c_strneq :: "string \<Rightarrow> string \<Rightarrow> bool res" where
  "c_strneq cs [] = Inr True"
| "c_strneq [] (d # lit) = Inl Out_of_bounds"
| "c_strneq (c # cs) (d # lit) = (if c = d then c_strneq cs lit else Inr False)"

text \<open>One value; the last component says whether the loop goes on.\<close>

definition reply_value :: "int \<times> string \<Rightarrow> string \<Rightarrow> nat \<Rightarrow> (string \<times> nat \<times> bool) res" where
  "reply_value r wbuf wlen =
     (let (vlen, val) = r in
      if vlen < 0 then
        if wlen + 5 > WBUF then fmap (\<lambda>b. (b, length ''-Err: response is too big.'', False))
            (error_text ''-Err: response is too big.'' wbuf)
        else Inr (print_at wlen (''$-1'' @ CRLF) wbuf, wlen + 5, True)
      else if wlen + nat vlen + 10 > WBUF then fmap (\<lambda>b. (b, length ''-Err: response is too big.'', False))
          (error_text ''-Err: response is too big.'' wbuf)
      else if nat vlen > VAL_LEN then Inl Out_of_bounds
      else
        let t = ''$'' @ show_int vlen @ CRLF; w1 = print_at wlen t wbuf; l1 = wlen + length t
        in fbind (copy_to l1 (take (nat vlen) (val @ replicate VAL_LEN NUL)) w1) (\<lambda>w2.
           fmap (\<lambda>w3. (w3, l1 + nat vlen + 2, True)) (copy_to (l1 + nat vlen) CRLF w2)))"

text \<open>The loop over the keys from offset \<open>start\<close> of the request.\<close>

fun reply_keys :: "kvstore \<Rightarrow> string \<Rightarrow> nat \<Rightarrow> nat \<Rightarrow> string \<Rightarrow> nat \<Rightarrow> (string \<times> nat) res" where
  "reply_keys db rbuf 0 start wbuf wlen = Inr (wbuf, wlen)"
| "reply_keys db rbuf (Suc n) start wbuf wlen =
     fbind (strstr_at rbuf start) (\<lambda>e1. case e1 of None \<Rightarrow> Inl Null_deref | Some end1 \<Rightarrow>
     fbind (strstr_at rbuf (end1 + 2)) (\<lambda>e2. case e2 of None \<Rightarrow> Inl Null_deref | Some end2 \<Rightarrow>
       let klen = end2 - (end1 + 2) in
       if klen \<ge> KEY_LEN then fmap (\<lambda>b. (b, wlen + length ''-Err: one of the keys is too long.''))
           (error_text ''-Err: one of the keys is too long.'' wbuf)
       else
         fbind (getCommandforUdp db (take klen (drop (end1 + 2) rbuf) @ replicate (KEY_LEN - klen) NUL) VAL_LEN) (\<lambda>r.
         fbind (reply_value r wbuf wlen) (\<lambda>(wbuf', wlen', more).
           if more then reply_keys db rbuf n (end2 + 2) wbuf' wlen' else Inr (wbuf', wlen')))))"

definition MGET :: string where "MGET = ''$4'' @ CRLF @ ''mget'' @ CRLF"

definition make_reply :: "kvstore \<Rightarrow> string \<Rightarrow> (string \<times> nat) res" where
  "make_reply db rbuf =
     (let start = HDR + 1; wbuf = replicate WBUF NUL in
      fbind (strstr_at rbuf start) (\<lambda>e.
      fbind (c_atoi (drop start rbuf)) (\<lambda>nkeys.
        if nkeys < 2 \<or> nkeys > 101
        then fmap (\<lambda>b. (b, length ''-Err: Invalid keys number.'')) (error_text ''-Err: Invalid keys number.'' wbuf)
        else case e of None \<Rightarrow> Inl Null_deref | Some end1 \<Rightarrow>
          fbind (c_strneq (drop (end1 + 2) rbuf) MGET) (\<lambda>mget.
          if \<not> mget
          then fmap (\<lambda>b. (b, length ''-Err: Invalid request method.'')) (error_text ''-Err: Invalid request method.'' wbuf)
          else
            let t = ''*'' @ show_int (nkeys - 1) @ CRLF
            in reply_keys db rbuf (nat (nkeys - 1)) (end1 + 2 + length MGET) (print_at 0 t wbuf) (length t)))))"

subsection \<open>Datagrams\<close>

definition datagram :: "string \<Rightarrow> nat \<Rightarrow> int \<Rightarrow> nat \<Rightarrow> nat \<Rightarrow> string res" where
  "datagram wbuf wlen req ngram seq =
     (let wpos = seq * (PSIZE - HDR);
          wsize = (if wlen - wpos > PSIZE - HDR then PSIZE - HDR else wlen - wpos)
      in if wpos + wsize > length wbuf then Inl Out_of_bounds
         else Inr (take HDR (snd (headerEncode (replicate PSIZE NUL) req (int seq) (int ngram))) @ take wsize (drop wpos wbuf)))"

text \<open>The loop of sends; each answer says whether \<open>sendto\<close> succeeds, the first failure ends it.\<close>

fun send_all :: "string \<Rightarrow> nat \<Rightarrow> int \<Rightarrow> nat \<Rightarrow> nat \<Rightarrow> bool list \<Rightarrow> string list res" where
  "send_all wbuf wlen req ngram seq [] = Inr []"
| "send_all wbuf wlen req ngram seq (ok # oks) =
     (if seq < ngram then
        fbind (datagram wbuf wlen req ngram seq) (\<lambda>d.
          if ok then fmap (\<lambda>ds. d # ds) (send_all wbuf wlen req ngram (Suc seq) oks) else Inr [])
      else Inr [])"

datatype received = Recv_error | Recv string

text \<open>The datagrams that leave, for what \<open>recvfrom\<close> and \<open>sendto\<close> answer.\<close>

definition processCommandFromUdpClient :: "kvstore \<Rightarrow> received \<Rightarrow> bool list \<Rightarrow> string list res" where
  "processCommandFromUdpClient db r oks = (case r of
       Recv_error \<Rightarrow> Inr []
     | Recv data \<Rightarrow>
         let rbuf = data @ replicate (RBUF - length data) NUL in
         if length data = 0 then Inr []
         else if length data \<le> HDR \<or> rbuf ! HDR \<noteq> CHR ''*'' then Inr []
         else
           let (req, seq, ngram) = headerDecode rbuf in
           fbind (make_reply db rbuf) (\<lambda>(wbuf, wlen).
             send_all wbuf wlen req (wlen div (PSIZE - HDR) + 1) 0 oks))"

section \<open>Headers and datagrams\<close>

lemma byte_pair:
  assumes "0 \<le> a" "a \<le> 65535"
  shows "push_bit 8 (of_char (char_of (drop_bit 8 a))) + of_char (char_of (drop_bit 8 (push_bit 8 a))) = (a :: int)"
proof -
  have "drop_bit 8 (push_bit 8 a) = a" by (simp add: drop_bit_eq_div push_bit_eq_mult)
  moreover have "drop_bit 8 a mod 256 = drop_bit 8 a" using assms by (simp add: drop_bit_eq_div)
  ultimately show ?thesis by (simp add: of_char_of push_bit_eq_mult drop_bit_eq_div)
qed

lemma header_decode:
  assumes "0 \<le> req" "req \<le> 65535" "0 \<le> seq" "seq \<le> 65535" "0 \<le> ngram" "ngram \<le> 65535" "8 \<le> length w"
  shows "headerDecode (take 8 (snd (headerEncode w req seq ngram)) @ r) = (req, seq, ngram)"
    "length (take 8 (snd (headerEncode w req seq ngram))) = 8"
  using assms byte_pair [of req] byte_pair [of seq] byte_pair [of ngram]
  by (simp_all add: headerEncode_def headerDecode_def nth_append)

abbreviation CHUNK :: nat where "CHUNK \<equiv> PSIZE - HDR"

definition header :: "int \<Rightarrow> nat \<Rightarrow> nat \<Rightarrow> string" where
  "header req ngram seq = take HDR (snd (headerEncode (replicate PSIZE NUL) req (int seq) (int ngram)))"

lemma datagram_eq:
  assumes "wlen \<le> length wbuf" "seq < wlen div CHUNK + 1"
  shows "datagram wbuf wlen req ngram seq
    = Inr (header req ngram seq @ take CHUNK (drop (seq * CHUNK) (take wlen wbuf)))"
proof -
  have "seq * CHUNK \<le> wlen" using assms(2) by (simp add: less_Suc_eq_le less_eq_div_iff_mult_less_eq)
  then show ?thesis
    using assms(1) by (auto simp: datagram_def header_def Let_def drop_take)
qed

lemma send_all_eq:
  assumes "wlen \<le> length wbuf" "ngram = wlen div CHUNK + 1" "ngram - seq \<le> n"
  shows "send_all wbuf wlen req ngram seq (replicate n True)
    = Inr (map (\<lambda>i. header req ngram i @ take CHUNK (drop (i * CHUNK) (take wlen wbuf))) [seq..<ngram])"
  using assms(3)
proof (induction n arbitrary: seq)
  case 0
  then show ?case by simp
next
  case (Suc n)
  show ?case
  proof (cases "seq < ngram")
    case True
    then have "seq < wlen div CHUNK + 1" using assms(2) by simp
    note d = datagram_eq [OF assms(1) this, of req ngram]
    show ?thesis
      using Suc.IH [of "Suc seq"] Suc.prems d True by (simp add: upt_conv_Cons)
  qed simp
qed

lemma concat_chunks: "concat (map (\<lambda>i. take c (drop (i * c) xs)) [0..<n]) = take (n * c) xs"
proof (induction n)
  case (Suc n)
  then show ?case using take_add [of "n * c" c xs] by (simp add: add.commute [of c])
qed simp

lemma udp_chunks:
  assumes "wlen \<le> length wbuf" "0 \<le> req" "req \<le> 65535" "ngram = wlen div 1016 + 1" "ngram \<le> 65535" "ngram \<le> n"
  shows "\<exists>ds. send_all wbuf wlen req ngram 0 (replicate n True) = Inr ds \<and> length ds = ngram
    \<and> (\<forall>i < ngram. headerDecode (ds ! i) = (req, int i, int ngram) \<and> length (ds ! i) \<le> 1024)
    \<and> concat (map (drop 8) ds) = take wlen wbuf"
proof -
  let ?d = "\<lambda>i. header req ngram i @ take CHUNK (drop (i * CHUNK) (take wlen wbuf))"
  let ?ds = "map ?d [0..<ngram]"
  have h: "headerDecode (header req ngram i @ r) = (req, int i, int ngram)" "length (header req ngram i) = 8"
    if "i < ngram" for i r
    using header_decode(1) [of req "int i" "int ngram" "replicate PSIZE NUL" r]
      header_decode(2) [of req "int i" "int ngram" "replicate PSIZE NUL"] that assms(2,3,5)
    by (simp_all add: header_def)
  have "send_all wbuf wlen req ngram 0 (replicate n True) = Inr ?ds"
    using assms(1,4,6) by (intro send_all_eq) simp_all
  moreover have "headerDecode (?ds ! i) = (req, int i, int ngram) \<and> length (?ds ! i) \<le> 1024" if "i < ngram" for i
    using that h by simp
  moreover have "map (drop 8) ?ds = map (\<lambda>i. take CHUNK (drop (i * CHUNK) (take wlen wbuf))) [0..<ngram]"
    using h(2) by simp
  then have c: "concat (map (drop 8) ?ds) = take (ngram * CHUNK) (take wlen wbuf)"
    by (rule trans [OF arg_cong [of _ _ concat] concat_chunks])
  have "wlen \<le> ngram * CHUNK" using assms(4) by (simp add: dividend_less_times_div less_imp_le)
  then have "take (ngram * CHUNK) (take wlen wbuf) = take wlen wbuf" by simp
  with c have "concat (map (drop 8) ?ds) = take wlen wbuf" by (rule trans)
  ultimately show ?thesis by (intro exI [of _ ?ds] conjI) (simp_all del: map_map)
qed

text \<open>C25. A reply of any length leaves as datagrams of at most 1024 bytes from which the client gets it
  back: each header carries the id of the request, the datagram's place and their number, and the
  payloads in that order are the reply.\<close>

theorem udp_datagrams:
  assumes "wlen \<le> length wbuf" "0 \<le> req" "req \<le> 65535" "ngram = wlen div 1016 + 1" "ngram \<le> 65535" "ngram \<le> n"
  shows "\<exists>ds. send_all wbuf wlen req ngram 0 (replicate n True) = Inr ds \<and> length ds = ngram
    \<and> (\<forall>i < ngram. headerDecode (ds ! i) = (req, int i, int ngram) \<and> length (ds ! i) \<le> 1024)
    \<and> concat (map (drop 8) ds) = take wlen wbuf"
  using assms by (rule udp_chunks)

theorem udp_datagrams_witness:
  "\<exists>ds. send_all (replicate 2000 NUL) 1500 7 2 0 [True, True] = Inr ds \<and> length ds = 2
    \<and> headerDecode (ds ! 1) = (7, 1, 2) \<and> concat (map (drop 8) ds) = replicate 1500 NUL"
proof -
  have "[True, True] = replicate 2 True" by (simp add: numeral_2_eq_2)
  with udp_datagrams [of 1500 "replicate 2000 NUL" 7 2 2] show ?thesis by auto
qed

section \<open>An mget request\<close>

text \<open>What a value is answered as, and the reply to a list of keys.\<close>

definition value_of :: "kvstore \<Rightarrow> string \<Rightarrow> string option" where
  "value_of db k = (case db k of Some (Raw s) \<Rightarrow> Some s | Some (Int_encoded n) \<Rightarrow> Some (show_int n) | _ \<Rightarrow> None)"

definition bulk :: "kvstore \<Rightarrow> string \<Rightarrow> string" where
  "bulk db k = (case value_of db k of None \<Rightarrow> ''$-1'' @ CRLF | Some v \<Rightarrow> ''$'' @ show_nat (length v) @ CRLF @ v @ CRLF)"

definition mget_reply :: "kvstore \<Rightarrow> string list \<Rightarrow> string" where
  "mget_reply db ks = ''*'' @ show_nat (length ks) @ CRLF @ concat (map (bulk db) ks)"

definition enc_key :: "string \<Rightarrow> string" where
  "enc_key k = ''$'' @ show_nat (length k) @ CRLF @ k @ CRLF"

definition plain :: "string \<Rightarrow> bool" where
  "plain k \<longleftrightarrow> CR \<notin> set k \<and> NUL \<notin> set k"

text \<open>A buffer that holds \<open>out\<close> so far.\<close>

definition wrote :: "string \<Rightarrow> string \<Rightarrow> bool" where
  "wrote out w \<longleftrightarrow> length w = WBUF \<and> (\<exists>r. w = out @ r)"

lemma wrote_print:
  assumes "wrote out w" "length out + length t < WBUF"
  shows "wrote (out @ t) (print_at (length out) t w)"
proof -
  obtain r where r: "w = out @ r" "length out + length r = WBUF" using assms(1) by (auto simp: wrote_def)
  let ?t = "take (WBUF - length out - 1) t"
  have "?t = t" using assms(2) by simp
  then have "print_at (length out) t w = out @ t @ NUL # drop (Suc (length t)) r"
    using r by (simp add: print_at_def c_snprintf_def Let_def)
  then show ?thesis using r assms(2) by (auto simp: wrote_def)
qed

lemma wrote_copy:
  assumes "wrote out w" "length out + length t \<le> WBUF"
  shows "\<exists>w'. copy_to (length out) t w = Inr w' \<and> wrote (out @ t) w'"
proof -
  obtain r where "w = out @ r" "length out + length r = WBUF" using assms(1) by (auto simp: wrote_def)
  then show ?thesis using assms(2) by (auto simp: copy_to_def wrote_def)
qed

lemma reply_none:
  assumes "wrote out w" "length out + 5 < WBUF"
  shows "\<exists>w'. reply_value (- 1, v) w (length out) = Inr (w', length (out @ ''$-1'' @ CRLF), True)
    \<and> wrote (out @ ''$-1'' @ CRLF) w'"
  using wrote_print [OF assms(1), of "''$-1'' @ CRLF"] assms(2) by (simp add: reply_value_def)

lemma reply_some:
  assumes "wrote out w" "length out + length v + 10 \<le> WBUF" "length v \<le> VAL_LEN" "take (length v) u = v"
  shows "\<exists>w'. reply_value (int (length v), u) w (length out)
      = Inr (w', length (out @ ''$'' @ show_nat (length v) @ CRLF @ v @ CRLF), True)
    \<and> wrote (out @ ''$'' @ show_nat (length v) @ CRLF @ v @ CRLF) w'"
proof -
  let ?t = "''$'' @ show_nat (length v) @ CRLF"
  have t: "show_int (int (length v)) = show_nat (length v)" by (simp add: show_int_def)
  have "length (show_nat (length v)) \<le> 5" using assms(3) by (intro length_show_nat) simp_all
  then have l: "length out + length ?t + length v + 2 \<le> WBUF" using assms(2) by simp
  have w1: "wrote (out @ ?t) (print_at (length out) ?t w)"
    using l by (intro wrote_print [OF assms(1)]) simp
  obtain w2 where w2: "copy_to (length (out @ ?t)) v (print_at (length out) ?t w) = Inr w2" "wrote ((out @ ?t) @ v) w2"
    using wrote_copy [OF w1, of v] l by auto
  obtain w3 where w3: "copy_to (length ((out @ ?t) @ v)) CRLF w2 = Inr w3" "wrote (((out @ ?t) @ v) @ CRLF) w3"
    using wrote_copy [OF w2(2), of CRLF] l by auto
  have u: "take (length v) (u @ replicate VAL_LEN NUL) = v"
  proof -
    have "length v \<le> length u" using arg_cong [OF assms(4), of length] by simp
    then show ?thesis using assms(4) by simp
  qed
  have "reply_value (int (length v), u) w (length out) = Inr (w3, length (((out @ ?t) @ v) @ CRLF), True)"
    using assms(2,3) u w2(1) w3(1) by (simp add: reply_value_def Let_def t add.assoc)
  then show ?thesis using w3(2) by simp
qed

lemma lookup_value:
  assumes "plain k" "length k < KEY_LEN" "\<And>v. value_of db k = Some v \<Longrightarrow> length v < VAL_LEN"
  shows "\<exists>n u. getCommandforUdp db (k @ replicate (KEY_LEN - length k) NUL) VAL_LEN = Inr (n, u)
    \<and> (case value_of db k of None \<Rightarrow> n = - 1 | Some v \<Rightarrow> n = int (length v) \<and> take (length v) u = v)"
proof -
  have "KEY_LEN - length k = Suc (KEY_LEN - length k - 1)" using assms(2) by simp
  then have "c_str (k @ replicate (KEY_LEN - length k) NUL) = Inr k"
    using assms(1) by (metis c_str_append plain_def replicate_Suc)
  then show ?thesis
    using assms(3) by (auto simp: getCommandforUdp_def value_of_def split: option.splits robj.splits)
qed

lemma strstr_line:
  assumes "plain l" "b = pre @ l @ CRLF @ post" "i = length pre"
  shows "strstr_at b i = Inr (Some (i + length l))"
proof -
  have "\<forall>c \<in> set l. c \<noteq> CR \<and> c \<noteq> NUL" using assms(1) by (metis plain_def)
  then show ?thesis using assms(2,3) c_strstr_digits [of l post] by (simp add: strstr_at_def)
qed

lemma plain_len: "plain (''$'' @ show_nat n)"
  using show_nat_no_cr by (auto simp: plain_def)

lemma drop_prefix: "b = p @ r \<Longrightarrow> n = length p \<Longrightarrow> drop n b = r"
  by simp

lemma reply_keys_ok:
  assumes "\<forall>k \<in> set ks. plain k \<and> length k < KEY_LEN \<and> (\<forall>v. value_of db k = Some v \<longrightarrow> length v < VAL_LEN)"
    and "wrote out w" "length out + length (concat (map (bulk db) ks)) + 4 \<le> WBUF"
    and "b = pre @ concat (map enc_key ks) @ post" "i = length pre"
  shows "\<exists>w'. reply_keys db b (length ks) i w (length out)
      = Inr (w', length (out @ concat (map (bulk db) ks))) \<and> wrote (out @ concat (map (bulk db) ks)) w'"
  using assms
proof (induction ks arbitrary: out w pre i)
  case Nil
  then show ?case by simp
next
  case (Cons k ks)
  let ?l = "''$'' @ show_nat (length k)"
  let ?rest = "concat (map enc_key ks) @ post"
  have k: "plain k" "length k < KEY_LEN" "\<And>v. value_of db k = Some v \<Longrightarrow> length v < VAL_LEN" using Cons.prems(1) by auto
  have b: "b = pre @ ?l @ CRLF @ (k @ CRLF @ ?rest)" "b = (pre @ ?l @ CRLF) @ k @ CRLF @ ?rest"
    using Cons.prems(4) by (simp_all add: enc_key_def [of k])
  have e1: "strstr_at b i = Inr (Some (i + length ?l))"
    using plain_len b(1) Cons.prems(5) by (rule strstr_line)
  have e2: "strstr_at b (i + length ?l + 2) = Inr (Some (i + length ?l + 2 + length k))"
    using k(1) b(2) by (rule strstr_line) (simp add: Cons.prems(5))
  have key: "take (length k) (drop (i + length ?l + 2) b) = k"
  proof -
    have "drop (i + length ?l + 2) b = k @ CRLF @ ?rest"
      by (rule drop_prefix [OF b(2)]) (simp add: Cons.prems(5))
    then show ?thesis by (rule ssubst) simp
  qed
  from lookup_value [OF k] obtain n u where
    nu: "getCommandforUdp db (k @ replicate (KEY_LEN - length k) NUL) VAL_LEN = Inr (n, u)"
    "case value_of db k of None \<Rightarrow> n = - 1 | Some v \<Rightarrow> n = int (length v) \<and> take (length v) u = v" by blast
  have "\<exists>w'. reply_value (n, u) w (length out) = Inr (w', length (out @ bulk db k), True) \<and> wrote (out @ bulk db k) w'"
  proof (cases "value_of db k")
    case None
    then show ?thesis using nu(2) reply_none [OF Cons.prems(2)] Cons.prems(3) by (simp add: bulk_def)
  next
    case (Some v)
    obtain j where "length (show_nat (length v)) = Suc j" by (cases "show_nat (length v)") auto
    then have "length out + length v + 10 \<le> WBUF" using Cons.prems(3) Some by (simp add: bulk_def)
    then show ?thesis
      using nu(2) reply_some [OF Cons.prems(2), of v u] k(3) [OF Some] Some by (simp add: bulk_def)
  qed
  then obtain w' where w': "reply_value (n, u) w (length out) = Inr (w', length (out @ bulk db k), True)"
    "wrote (out @ bulk db k) w'" by blast
  have "\<exists>w''. reply_keys db b (length ks) (i + length ?l + 2 + length k + 2) w' (length (out @ bulk db k))
      = Inr (w'', length ((out @ bulk db k) @ concat (map (bulk db) ks))) \<and> wrote ((out @ bulk db k) @ concat (map (bulk db) ks)) w''"
    using Cons.prems(1,3) w'(2) b(2)
    by (intro Cons.IH [where pre = "pre @ ?l @ CRLF @ k @ CRLF"]) (auto simp: Cons.prems(5))
  then show ?case
    using e1 e2 key nu(1) w'(1) k(2) by (simp add: Let_def)
qed

definition mget_request :: "string \<Rightarrow> string list \<Rightarrow> string" where
  "mget_request hdr ks = hdr @ ''*'' @ show_nat (length ks + 1) @ CRLF @ MGET @ concat (map enc_key ks)"

lemma c_strneq_prefix: "NUL \<notin> set l \<Longrightarrow> c_strneq (l @ r) l = Inr True"
  by (induction l) auto

lemma make_reply_ok:
  assumes "length hdr = 8" "1 \<le> length ks" "length ks \<le> 100"
    and "\<forall>k \<in> set ks. plain k \<and> length k < KEY_LEN \<and> (\<forall>v. value_of db k = Some v \<longrightarrow> length v < VAL_LEN)"
    and "length (mget_reply db ks) + 4 \<le> WBUF"
  shows "\<exists>w. make_reply db (mget_request hdr ks @ post) = Inr (w, length (mget_reply db ks)) \<and> wrote (mget_reply db ks) w"
proof -
  let ?n = "show_nat (length ks + 1)" and ?b = "mget_request hdr ks @ post"
  let ?t = "''*'' @ show_nat (length ks) @ CRLF"
  have b: "?b = (hdr @ ''*'') @ ?n @ CRLF @ (MGET @ concat (map enc_key ks) @ post)"
    "?b = (hdr @ ''*'' @ ?n @ CRLF @ MGET) @ concat (map enc_key ks) @ post"
    by (simp_all add: mget_request_def)
  have "plain ?n" using show_nat_no_cr [of "length ks + 1"] by (auto simp: plain_def)
  then have e: "strstr_at ?b 9 = Inr (Some (9 + length ?n))" using b(1) by (rule strstr_line) (simp add: assms(1))
  have d: "drop 9 ?b = ?n @ CR # LF # (MGET @ concat (map enc_key ks) @ post)"
    using assms(1) by (simp add: mget_request_def)
  have d2: "drop (9 + length ?n + 2) ?b = MGET @ concat (map enc_key ks) @ post"
    by (rule drop_prefix [of _ "hdr @ ''*'' @ ?n @ CRLF"]) (simp_all add: mget_request_def assms(1))
  have "c_atoi (?n @ CR # LF # (MGET @ concat (map enc_key ks) @ post)) = Inr (int (length ks + 1))"
    using assms(3) by (intro c_atoi_show_nat) (simp_all add: INT_MAX_def)
  then have a: "c_atoi (drop 9 ?b) = Inr (int (length ks + 1))" by (simp only: d)
  have m: "c_strneq (drop (9 + length ?n + 2) ?b) MGET = Inr True"
    unfolding d2 by (rule c_strneq_prefix) (simp add: MGET_def)
  have t: "show_int (int (length ks + 1) - 1) = show_nat (length ks)" by (simp add: show_int_def)
  have w0: "wrote [] (replicate WBUF NUL)" by (simp add: wrote_def)
  have "wrote ([] @ ?t) (print_at (length ([] :: string)) ?t (replicate WBUF NUL))"
    using assms(5) by (intro wrote_print [OF w0]) (simp add: mget_reply_def)
  then have w1: "wrote ?t (print_at 0 ?t (replicate WBUF NUL))" by simp
  have len: "length ?t + length (concat (map (bulk db) ks)) + 4 \<le> WBUF" using assms(5) by (simp add: mget_reply_def)
  have i: "9 + length ?n + 2 + length MGET = length (hdr @ ''*'' @ ?n @ CRLF @ MGET)" using assms(1) by simp
  obtain w where w: "reply_keys db ?b (length ks) (9 + length ?n + 2 + length MGET) (print_at 0 ?t (replicate WBUF NUL)) (length ?t)
      = Inr (w, length (?t @ concat (map (bulk db) ks)))" "wrote (?t @ concat (map (bulk db) ks)) w"
    using reply_keys_ok [OF assms(4) w1 len b(2) i] by blast
  have ne: "ks \<noteq> []" using assms(2) by auto
  have "make_reply db ?b = Inr (w, length (?t @ concat (map (bulk db) ks)))"
    using e a m w(1) t assms(3) ne by (simp add: make_reply_def Let_def)
  then show ?thesis using w(2) by (auto simp: mget_reply_def)
qed

lemma of_char_byte: "0 \<le> (of_char c :: int)" "(of_char c :: int) \<le> 255"
  using of_char_mod_256 [of c, where ?'a = int] pos_mod_sign [of 256 "of_char c"] pos_mod_bound [of 256 "of_char c"] by simp_all

text \<open>An \<open>mget\<close> datagram with one to a hundred keys is answered, end to end: the payloads of the
  datagrams that leave are, in the order of their sequence numbers, the one reply that lists for
  every key its value in the store (integers in decimal, missing keys and other types as null),
  and every datagram carries the client's request id.\<close>

theorem udp_mget:
  assumes "length hdr = 8" "1 \<le> length ks" "length ks \<le> 100" "length (mget_request hdr ks) < 1024"
    and "\<forall>k \<in> set ks. plain k" "\<forall>k v. value_of db k = Some v \<longrightarrow> length v < 16384"
    and "length (mget_reply db ks) + 4 \<le> 65536" "65 \<le> n"
  shows "\<exists>ds. processCommandFromUdpClient db (Recv (mget_request hdr ks)) (replicate n True) = Inr ds
    \<and> concat (map (drop 8) ds) = mget_reply db ks
    \<and> (\<forall>i < length ds. headerDecode (ds ! i) = (fst (headerDecode hdr), int i, int (length ds)) \<and> length (ds ! i) \<le> 1024)"
proof -
  let ?req = "mget_request hdr ks" and ?wlen = "length (mget_reply db ks)"
  let ?rbuf = "?req @ replicate (RBUF - length ?req) NUL" and ?ngram = "length (mget_reply db ks) div 1016 + 1"
  have keys: "length k < KEY_LEN" if "k \<in> set ks" for k
  proof -
    have "length (enc_key k) \<le> length (concat (map enc_key ks))"
      using that by (induction ks) auto
    then show ?thesis using assms(4) by (simp add: mget_request_def enc_key_def)
  qed
  obtain w where w: "make_reply db ?rbuf = Inr (w, ?wlen)" "wrote (mget_reply db ks) w"
    using make_reply_ok [OF assms(1-3), of db] keys assms(5-7) by blast
  let ?id = "fst (headerDecode hdr)"
  have req: "0 \<le> ?id" "?id \<le> 65535"
    using of_char_byte [of "hdr ! 0"] of_char_byte [of "hdr ! 1"] by (simp_all add: headerDecode_def push_bit_eq_mult)
  have hdr: "fst (headerDecode ?rbuf) = ?id"
    using assms(1) by (simp add: headerDecode_def mget_request_def nth_append)
  have star: "?rbuf ! HDR = CHR ''*''" "HDR < length ?req" "?req \<noteq> []"
    using assms(1) by (simp_all add: mget_request_def nth_append)
  have "?wlen div 1016 \<le> 64" using assms(7) by (simp add: less_eq_div_iff_mult_less_eq div_le_mono [of _ 65532 1016, THEN order_trans])
  then have ng: "?ngram \<le> 65" by simp
  have wl: "?wlen \<le> length w" "take ?wlen w = mget_reply db ks" using w(2) by (auto simp: wrote_def)
  obtain ds where ds: "send_all w ?wlen ?id ?ngram 0 (replicate n True) = Inr ds" "length ds = ?ngram"
    "\<forall>i < ?ngram. headerDecode (ds ! i) = (?id, int i, int ?ngram) \<and> length (ds ! i) \<le> 1024"
    "concat (map (drop 8) ds) = take ?wlen w"
    using udp_chunks [OF wl(1) req refl, of n] ng assms(8) by auto
  have "processCommandFromUdpClient db (Recv ?req) (replicate n True) = Inr ds"
    using star hdr w(1) ds(1) by (simp add: processCommandFromUdpClient_def Let_def case_prod_beta)
  then show ?thesis using ds wl(2) by (intro exI [of _ ds]) simp
qed

definition demo_store :: kvstore where
  "demo_store = (\<lambda>k. if k = ''a'' then Some (Raw ''xyz'') else if k = ''b'' then Some (Int_encoded 42) else None)"

theorem udp_mget_witness:
  "\<exists>ds. processCommandFromUdpClient demo_store (Recv (mget_request (''id'' @ replicate 6 NUL) [''a'', ''b'', ''c'']))
      (replicate 65 True) = Inr ds
    \<and> concat (map (drop 8) ds) = mget_reply demo_store [''a'', ''b'', ''c'']"
proof -
  have v: "value_of demo_store k = Some v \<Longrightarrow> length v \<le> 3" for k v
    by (auto simp: value_of_def demo_store_def show_int_def show_nat.simps split: if_splits)
  then have "\<forall>k v. value_of demo_store k = Some v \<longrightarrow> length v < 16384" by fastforce
  moreover have "length (mget_request (''id'' @ replicate 6 NUL) [''a'', ''b'', ''c'']) < 1024"
    by (simp add: mget_request_def MGET_def enc_key_def show_nat.simps)
  moreover have "length (mget_reply demo_store [''a'', ''b'', ''c'']) + 4 \<le> 65536"
    by (simp add: mget_reply_def bulk_def value_of_def demo_store_def show_nat.simps show_int_def)
  moreover have "\<forall>k \<in> set [''a'', ''b'', ''c'']. plain k" by (simp add: plain_def)
  ultimately show ?thesis
    using udp_mget [of "''id'' @ replicate 6 NUL" "[''a'', ''b'', ''c'']" demo_store 65] by fastforce
qed

text \<open>What the handler does not check. A count without a line end: \<open>strstr\<close> returns null and is used.\<close>

lemma udp_no_line_end:
  assumes "length hdr = 8"
  shows "make_reply db (hdr @ ''*3'' @ NUL # r) = Inl Null_deref"
proof -
  have d: "drop 9 (hdr @ ''*3'' @ NUL # r) = ''3'' @ NUL # r" using assms by simp
  have "c_strstr CRLF (''3'' @ NUL # r) = Inr None" by simp
  then have "strstr_at (hdr @ ''*3'' @ NUL # r) 9 = Inr None" unfolding strstr_at_def d by simp
  moreover have "c_atoi (''3'' @ NUL # r) = Inr 3"
    by (simp add: c_atoi_def is_space_def is_digit_def digit_val_def)
  then have "c_atoi (drop 9 (hdr @ ''*3'' @ NUL # r)) = Inr 3" by (simp only: d)
  ultimately show ?thesis by (simp add: make_reply_def Let_def)
qed

text \<open>A value longer than the buffer it was copied to, short enough for the reply: the bytes behind
  the buffer would be sent.\<close>

lemma udp_long_value:
  assumes "VAL_LEN < length v" "wlen + length v + 10 \<le> WBUF"
  shows "reply_value (int (length v), take VAL_LEN v) w wlen = Inl Out_of_bounds"
  using assms by (simp add: reply_value_def)

end
