(* ===== verification/EchoServer.thy ===== *)
theory EchoServer
  imports Adlist Conns
begin

section \<open>The length-prefixed echo server (redis-server/redis.c, echo.c)\<close>

text \<open>
  A request is a frame whose first four bytes are its length; the command module (\<open>echo.c\<close>)
  answers with the frame itself. The main thread reads frames and queues the client, a thread is
  started when fewer than \<open>vm_max_threads\<close> are active, takes clients while there are any and
  exits when the queue is empty; a byte in a pipe tells the main thread that a client is processed.
  The queues are those of theory Adlist, the connections those of theory Conns.
\<close>

subsection \<open>State\<close>

datatype eproc = AcceptHandler_e | ReadQuery_e | SendReply_e | CompletedJob_e | ServerCron_e

datatype ephase = Looking | Holding nat | Done_with nat | Telling | Gone

record eclient =
  ec_fd :: int
  ec_rbuf :: string
  ec_wbuf :: string
  ec_rlen :: int
  ec_wlen :: int
  ec_wpos :: int
  ec_last :: int

record eserver = "(eproc, eclient) conns" +
  es_maxclients :: "32 word"
  es_numconnections :: int
  es_newjobs :: "nat lstate"
  es_processed :: "nat lstate"
  es_pipe :: nat
  es_active :: "32 word"
  es_max_threads :: "32 word"
  es_threads :: "ephase list"
  es_cronloops :: int
  es_unixtime :: int

abbreviation EBUF :: nat where "EBUF \<equiv> 128"

subsection \<open>The command module\<close>

definition echo_redisCommandProc :: "eclient \<Rightarrow> eclient res" where
  "echo_redisCommandProc c =
     (if ec_rlen c < 0 \<or> ec_rlen c > int (length (ec_rbuf c)) \<or> ec_rlen c > int (length (ec_wbuf c))
      then Inl Buffer_overflow
      else Inr (c\<lparr>ec_wbuf := take (nat (ec_rlen c)) (ec_rbuf c) @ drop (nat (ec_rlen c)) (ec_wbuf c),
        ec_wlen := ec_rlen c\<rparr>))"

subsection \<open>Clients\<close>

definition freeClient_e :: "nat \<Rightarrow> eserver \<Rightarrow> eserver res" where
  "freeClient_e a s =
     fbind (client_at a s) (\<lambda>c.
     fbind (unregister (ec_fd c) AE_READABLE s) (\<lambda>s1.
     fbind (unregister (ec_fd c) AE_WRITABLE s1) (\<lambda>s2.
       Inr (s2\<lparr>sv_open := sv_open s2 - {ec_fd c}, sv_heap := (sv_heap s2)(a := None),
         sv_clients := sv_clients s2 - 1\<rparr>))))"

definition new_client_e :: "int \<Rightarrow> eclient" where
  "new_client_e fd = \<lparr>ec_fd = fd, ec_rbuf = replicate EBUF NUL, ec_wbuf = replicate EBUF NUL,
     ec_rlen = 0, ec_wlen = 0, ec_wpos = 0, ec_last = 0\<rparr>"

definition createClient_e :: "nat option \<Rightarrow> bool \<Rightarrow> int \<Rightarrow> eserver \<Rightarrow> (nat option \<times> eserver) res" where
  "createClient_e mem ok fd s =
     (case mem of None \<Rightarrow> Inr (None, s)
      | Some a \<Rightarrow>
          fbind (register ok fd AE_READABLE ReadQuery_e (Some a) s) (\<lambda>(r, s1).
            if r = AE_ERR then Inr (None, s1\<lparr>sv_open := sv_open s1 - {fd}\<rparr>)
            else Inr (Some a, (put a (new_client_e fd) s1)\<lparr>sv_clients := sv_clients s1 + 1,
                   sv_sent := (sv_sent s1)(a := [])\<rparr>)))"

definition acceptHandler_e :: "int \<Rightarrow> nat option \<Rightarrow> bool \<Rightarrow> eserver \<Rightarrow> eserver res" where
  "acceptHandler_e cfd mem ok s =
     (if cfd = AE_ERR then Inr s
      else
        fbind (createClient_e mem ok cfd (s\<lparr>sv_open := insert cfd (sv_open s)\<rparr>)) (\<lambda>(r, s1).
        case r of
          None \<Rightarrow> Inr (s1\<lparr>sv_open := sv_open s1 - {cfd}\<rparr>)
        | Some a \<Rightarrow>
            if es_maxclients s1 \<noteq> 0 \<and> sv_clients s1 > es_maxclients s1
            then freeClient_e a (s1\<lparr>sv_sent := (sv_sent s1)(a :=
              sv_sent s1 a @ ''-ERR max number of clients reached'' @ CRLF)\<rparr>)
            else Inr (s1\<lparr>es_numconnections := es_numconnections s1 + 1\<rparr>)))"

text \<open>The timer: the result is the delay until its next run.\<close>

definition serverCron :: "int \<Rightarrow> eserver \<Rightarrow> int \<times> eserver" where
  "serverCron now s = (100, s\<lparr>es_cronloops := es_cronloops s + 1, es_unixtime := now\<rparr>)"

subsection \<open>Frames\<close>

text \<open>\<open>pthread_create\<close> is tried until it succeeds.\<close>

definition spawnIOThread :: "eserver \<Rightarrow> eserver" where
  "spawnIOThread s = s\<lparr>es_threads := es_threads s @ [Looking], es_active := es_active s + 1\<rparr>"

definition queueIOJob_e :: "nat option \<Rightarrow> nat \<Rightarrow> eserver \<Rightarrow> eserver res" where
  "queueIOJob_e mem a s = fmap (\<lambda>r.
     let s1 = (case r of None \<Rightarrow> s | Some q \<Rightarrow> s\<lparr>es_newjobs := q\<rparr>) in
     if es_active s1 < es_max_threads s1 then spawnIOThread s1 else s1) (listAddNodeTail mem a (es_newjobs s))"

definition qsize :: "string \<Rightarrow> int" where
  "qsize b = sint (le32 (map of_char (take 4 b)))"

definition processInputBuffer_e :: "nat option \<Rightarrow> nat \<Rightarrow> eserver \<Rightarrow> eserver res" where
  "processInputBuffer_e mem a s =
     fbind (client_at a s) (\<lambda>c.
       if ec_rlen c < 4 then Inr s
       else if ec_rlen c < qsize (ec_rbuf c) then Inr s
       else if ec_rlen c > qsize (ec_rbuf c) then freeClient_e a s
       else if ec_rlen c = qsize (ec_rbuf c) then queueIOJob_e mem a s
       else Inr s)"

datatype eread = Er_error | Er_again | Er_bytes string
datatype ewrite = Ew_error | Ew_again | Ew_bytes nat

text \<open>\<open>read\<close> fills a local buffer of 128 bytes, which is copied behind what the client has sent.\<close>

definition readQueryFromClient_e :: "eread \<Rightarrow> int \<Rightarrow> nat option \<Rightarrow> nat \<Rightarrow> eserver \<Rightarrow> eserver res" where
  "readQueryFromClient_e ans now mem a s =
     fbind (client_at a s) (\<lambda>c. case ans of
         Er_error \<Rightarrow> freeClient_e a s
       | Er_again \<Rightarrow> Inr s
       | Er_bytes data \<Rightarrow>
           if data = [] then freeClient_e a s
           else if ec_rlen c + int (length data) > int EBUF then freeClient_e a s
           else if ec_rlen c < 0 then Inl Buffer_overflow
           else processInputBuffer_e mem a (put a (c\<lparr>ec_rbuf := take (nat (ec_rlen c)) (ec_rbuf c) @ data
                @ drop (nat (ec_rlen c) + length data) (ec_rbuf c),
              ec_rlen := ec_rlen c + int (length data), ec_last := now\<rparr>) s))"

definition resetClient_e :: "bool \<Rightarrow> nat \<Rightarrow> eserver \<Rightarrow> eserver res" where
  "resetClient_e ok a s =
     fbind (client_at a s) (\<lambda>c.
     fbind (unregister (ec_fd c) AE_WRITABLE
       (put a (c\<lparr>ec_rbuf := replicate EBUF NUL, ec_wbuf := replicate EBUF NUL,
          ec_rlen := 0, ec_wpos := 0, ec_wlen := 0\<rparr>) s)) (\<lambda>s1.
     fbind (unregister (ec_fd c) AE_READABLE s1) (\<lambda>s2.
     fmap snd (register ok (ec_fd c) AE_READABLE ReadQuery_e (Some a) s2))))"

definition sendReplyToClient_e :: "ewrite \<Rightarrow> int \<Rightarrow> bool \<Rightarrow> nat \<Rightarrow> eserver \<Rightarrow> eserver res" where
  "sendReplyToClient_e ans now ok a s =
     fbind (client_at a s) (\<lambda>c.
     if ec_wpos c < 0 \<or> ec_wlen c > int (length (ec_wbuf c)) then Inl Out_of_bounds
     else case ans of
       Ew_error \<Rightarrow> freeClient_e a s
     | Ew_again \<Rightarrow> if ec_wpos c = ec_wlen c then resetClient_e ok a s else Inr s
     | Ew_bytes n \<Rightarrow>
         let c1 = (if 0 < n then c\<lparr>ec_last := now, ec_wpos := ec_wpos c + int n\<rparr> else c);
             s1 = (put a c1 s)\<lparr>sv_sent := (sv_sent s)(a := sv_sent s a @ take n (drop (nat (ec_wpos c)) (ec_wbuf c)))\<rparr>
         in if ec_wpos c1 = ec_wlen c1 then resetClient_e ok a s1 else Inr s1)"

text \<open>One turn of \<open>vmThreadedIOCompletedJob\<close>; \<open>None\<close> when the pipe is empty.\<close>

definition completed_turn_e :: "bool \<Rightarrow> eserver \<Rightarrow> eserver option res" where
  "completed_turn_e ok s =
     (if es_pipe s = 0 then Inr None
      else
        fbind (listPopFirst (es_processed s)) (\<lambda>r. case r of
            None \<Rightarrow> Inl Assert_failed
          | Some (a, q) \<Rightarrow>
              fbind (client_at a s) (\<lambda>c.
                fmap (\<lambda>(r, s1). Some s1) (register ok (ec_fd c) AE_WRITABLE SendReply_e (Some a)
                  (s\<lparr>es_pipe := es_pipe s - 1, es_processed := q\<rparr>)))))"

fun vmThreadedIOCompletedJob_e :: "bool list \<Rightarrow> eserver \<Rightarrow> eserver res" where
  "vmThreadedIOCompletedJob_e [] s = Inr s"
| "vmThreadedIOCompletedJob_e (ok # oks) s = fbind (completed_turn_e ok s) (\<lambda>r. case r of
       None \<Rightarrow> Inr s
     | Some s1 \<Rightarrow> if ok then vmThreadedIOCompletedJob_e oks s1 else Inr s1)"

subsection \<open>Threads\<close>

definition set_thread :: "nat \<Rightarrow> ephase \<Rightarrow> eserver \<Rightarrow> eserver" where
  "set_thread t p s = s\<lparr>es_threads := (es_threads s)[t := p]\<rparr>"

definition thread_take :: "nat \<Rightarrow> eserver \<Rightarrow> eserver res" where
  "thread_take t s =
     fmap (\<lambda>r. case r of
         None \<Rightarrow> set_thread t Gone (s\<lparr>es_active := es_active s - 1\<rparr>)
       | Some (a, q) \<Rightarrow> set_thread t (Holding a) (s\<lparr>es_newjobs := q\<rparr>)) (listPopFirst (es_newjobs s))"

definition thread_run :: "nat \<Rightarrow> nat \<Rightarrow> eserver \<Rightarrow> eserver res" where
  "thread_run t a s =
     fbind (client_at a s) (\<lambda>c. fmap (\<lambda>c'. set_thread t (Done_with a) (put a c' s)) (echo_redisCommandProc c))"

definition thread_push :: "nat \<Rightarrow> nat option \<Rightarrow> nat \<Rightarrow> eserver \<Rightarrow> eserver res" where
  "thread_push t mem a s =
     fmap (\<lambda>r. set_thread t Telling (case r of None \<Rightarrow> s | Some q \<Rightarrow> s\<lparr>es_processed := q\<rparr>))
     (listAddNodeTail mem a (es_processed s))"

definition thread_tell :: "nat \<Rightarrow> eserver \<Rightarrow> eserver" where
  "thread_tell t s = set_thread t Looking (s\<lparr>es_pipe := Suc (es_pipe s)\<rparr>)"

text \<open>\<open>IOThreadEntryPoint\<close> when nothing else runs: one client after another until the queue is empty;
  \<open>fuel\<close> bounds their number, the addresses are what \<open>malloc\<close> answers.\<close>

fun IOThreadEntryPoint :: "nat option list \<Rightarrow> nat \<Rightarrow> eserver \<Rightarrow> eserver res" where
  "IOThreadEntryPoint [] t s = Inr s"
| "IOThreadEntryPoint (mem # mems) t s =
     fbind (thread_take t s) (\<lambda>s1. case es_threads s1 ! t of
         Holding a \<Rightarrow> fbind (thread_run t a s1) (\<lambda>s2. fbind (thread_push t mem a s2) (\<lambda>s3.
           IOThreadEntryPoint mems t (thread_tell t s3)))
       | _ \<Rightarrow> Inr s1)"

subsection \<open>Starting\<close>

record econfig =
  ef_port :: int
  ef_verbosity :: int
  ef_maxidletime :: int
  ef_daemonize :: bool
  ef_pidfile :: string
  ef_maxclients :: "32 word"
  ef_vm_max_threads :: "32 word"
  ef_extension :: string

definition initServerConfig_e :: econfig where
  "initServerConfig_e = \<lparr>ef_port = 6379, ef_verbosity = 0, ef_maxidletime = 60 * 5, ef_daemonize = False,
     ef_pidfile = ''/var/run/redis.pid'', ef_maxclients = 0, ef_vm_max_threads = 10, ef_extension = ''./echo.so''\<rparr>"

text \<open>\<open>loadExtension\<close>: which of \<open>dlopen\<close> and the three \<open>dlsym\<close> succeed.\<close>

definition loadExtension :: "bool \<Rightarrow> bool \<Rightarrow> bool \<Rightarrow> bool \<Rightarrow> int" where
  "loadExtension lib i p d = (if \<not> lib then - 1 else if \<not> i then - 1 else if \<not> p then - 1 else if \<not> d then - 1 else 0)"

text \<open>\<open>initServer\<close> on the listening socket and the pipe; \<open>Inl\<close> is the exit status.\<close>

definition initServer_e :: "(nat \<Rightarrow> int \<times> int) \<Rightarrow> int \<Rightarrow> int \<Rightarrow> int \<Rightarrow> econfig \<Rightarrow> (int + eserver) res" where
  "initServer_e clock loaded lfd pfd f =
     (if loaded = - 1 then Inr (Inl 1)
      else if lfd = - 1 then Inr (Inl 1)
      else
        let (_, L) = aeCreateTimeEvent clock True new_loop 1 ServerCron_e None None;
            s = \<lparr>sv_el = L, sv_clients = 0, sv_heap = (\<lambda>_. None), sv_open = {lfd, pfd}, sv_sent = (\<lambda>_. []),
              es_maxclients = ef_maxclients f, es_numconnections = 0, es_newjobs = empty_list, es_processed = empty_list,
              es_pipe = 0, es_active = 0, es_max_threads = ef_vm_max_threads f, es_threads = [],
              es_cronloops = 0, es_unixtime = fst (clock 0)\<rparr>
        in fbind (register True lfd AE_READABLE AcceptHandler_e None s) (\<lambda>(r, s1).
           if r = AE_ERR then Inl Out_of_memory
           else fbind (register True pfd AE_READABLE CompletedJob_e None s1) (\<lambda>(r2, s2).
             if r2 = AE_ERR then Inl Out_of_memory else Inr (Inr s2))))"

text \<open>One request of one client, from the first byte to the last of the answer: the reads \<open>cs\<close>, the
  thread, the main thread's turn, the writes \<open>ns\<close>. This is one schedule, the one in which no step waits for another
  client's; the step relation of the server has all of them.\<close>

fun feed :: "nat option \<Rightarrow> int \<Rightarrow> nat \<Rightarrow> string list \<Rightarrow> eserver \<Rightarrow> eserver res" where
  "feed mem now a [] s = Inr s"
| "feed mem now a (d # ds) s = fbind (readQueryFromClient_e (Er_bytes d) now mem a s) (feed mem now a ds)"

fun drain :: "int \<Rightarrow> nat \<Rightarrow> nat list \<Rightarrow> eserver \<Rightarrow> eserver res" where
  "drain now a [] s = Inr s"
| "drain now a (n # ns) s = fbind (sendReplyToClient_e (Ew_bytes n) now True a s) (drain now a ns)"

definition serve_one :: "nat \<Rightarrow> nat \<Rightarrow> nat \<Rightarrow> int \<Rightarrow> nat \<Rightarrow> string list \<Rightarrow> nat list \<Rightarrow> eserver \<Rightarrow> eserver res" where
  "serve_one m1 m2 t now a cs ns s =
     fbind (feed (Some m1) now a cs s) (\<lambda>s1.
     fbind (IOThreadEntryPoint [Some m2, None] t s1) (\<lambda>s2.
     fbind (vmThreadedIOCompletedJob_e [True, True] s2) (\<lambda>s3.
       drain now a ns s3)))"

section \<open>One request\<close>

text \<open>The client has sent \<open>p\<close> of its request.\<close>

definition holds :: "eclient \<Rightarrow> string \<Rightarrow> bool" where
  "holds c p \<longleftrightarrow> length (ec_rbuf c) = EBUF \<and> length (ec_wbuf c) = EBUF \<and> length p \<le> EBUF
     \<and> take (length p) (ec_rbuf c) = p \<and> ec_rlen c = int (length p) \<and> ec_wlen c = 0 \<and> ec_wpos c = 0"

definition frame :: "string \<Rightarrow> bool" where
  "frame f \<longleftrightarrow> 4 \<le> length f \<and> length f \<le> EBUF \<and> qsize f = int (length f)"

definition ready :: "nat \<Rightarrow> eclient \<Rightarrow> eserver \<Rightarrow> bool" where
  "ready a c s \<longleftrightarrow> loop_inv (sv_el s) \<and> sv_heap s a = Some c \<and> 0 \<le> ec_fd c \<and> ec_fd c < AE_SETSIZE
     \<and> entry (sv_el s) (ec_fd c) AE_READABLE ReadQuery_e (Some a) \<and> holds c []
     \<and> list_vals (es_newjobs s) [] \<and> list_vals (es_processed s) [] \<and> es_pipe s = 0"

lemma put_more [simp]:
  "es_newjobs (put a c s) = es_newjobs s" "es_processed (put a c s) = es_processed s" "es_pipe (put a c s) = es_pipe s"
  "es_active (put a c s) = es_active s" "es_max_threads (put a c s) = es_max_threads s" "es_threads (put a c s) = es_threads s"
  "put a c (put a d s) = put a c s"
  by (simp_all add: put_def)

lemma qsize_prefix: "4 \<le> length p \<Longrightarrow> take (length p) b = p \<Longrightarrow> qsize b = qsize p"
  by (metis min.absorb1 qsize_def take_take)

lemma qsize_app: "4 \<le> length p \<Longrightarrow> qsize (p @ r) = qsize p"
  by (simp add: qsize_def)

lemma feed_ok:
  assumes "sv_heap s a = Some c" "holds c p" "frame f" "p @ concat ds = f" "ds \<noteq> []" "[] \<notin> set ds"
    and "list_vals (es_newjobs s) []" "ls_cells (es_newjobs s) m = None" "es_active s < es_max_threads s"
  shows "\<exists>c' q. feed (Some m) now a ds s = Inr ((put a c' s)\<lparr>es_newjobs := q, es_threads := es_threads s @ [Looking],
      es_active := es_active s + 1\<rparr>) \<and> holds c' f \<and> ec_fd c' = ec_fd c \<and> list_vals q [a]"
  using assms
proof (induction ds arbitrary: s c p)
  case (Cons d ds)
  let ?c = "c\<lparr>ec_rbuf := take (nat (ec_rlen c)) (ec_rbuf c) @ d @ drop (nat (ec_rlen c) + length d) (ec_rbuf c),
     ec_rlen := ec_rlen c + int (length d), ec_last := now\<rparr>"
  have h: "length (ec_rbuf c) = EBUF" "take (length p) (ec_rbuf c) = p" "ec_rlen c = int (length p)"
    using Cons.prems(2) by (auto simp: holds_def)
  have len: "length f = length p + length d + length (concat ds)" "length f \<le> EBUF" "d \<noteq> []"
    using Cons.prems(3,4,6) by (auto simp: frame_def)
  have h1: "holds ?c (p @ d)"
    using Cons.prems(2) h len by (simp add: holds_def)
  let ?s = "put a ?c s"
  have run: "readQueryFromClient_e (Er_bytes d) now (Some m) a s = processInputBuffer_e (Some m) a ?s"
    using Cons.prems(1) h(3) len by (simp add: readQueryFromClient_e_def)
  have q: "qsize (ec_rbuf ?c) = int (length f)" if "4 \<le> length (p @ d)"
  proof -
    have "take (length (p @ d)) (ec_rbuf ?c) = p @ d" using h1 unfolding holds_def by blast
    then have "qsize (ec_rbuf ?c) = qsize (p @ d)" by (rule qsize_prefix [OF that])
    also have "\<dots> = qsize f" using qsize_app [OF that, of "concat ds"] Cons.prems(4) by simp
    finally show ?thesis using Cons.prems(3) by (simp add: frame_def)
  qed
  show ?case
  proof (cases "ds = []")
    case True
    then have f: "f = p @ d" using Cons.prems(4) by simp
    obtain q' where q': "listAddNodeTail (Some m) a (es_newjobs s) = Inr (Some q')" "list_vals q' [a]"
      using adlist.push_law [OF Cons.prems(7,8), of a] by auto
    have "4 \<le> length (p @ d)" using Cons.prems(3) f by (simp add: frame_def)
    then have "processInputBuffer_e (Some m) a ?s = queueIOJob_e (Some m) a ?s"
      using q h1 f by (simp add: processInputBuffer_e_def holds_def)
    also have "\<dots> = Inr (?s\<lparr>es_newjobs := q', es_threads := es_threads s @ [Looking], es_active := es_active s + 1\<rparr>)"
      using q'(1) Cons.prems(9) by (simp add: queueIOJob_e_def spawnIOThread_def)
    finally show ?thesis using run True h1 f q'(2) by (intro exI [of _ ?c] exI [of _ q']) simp
  next
    case False
    then have "concat ds \<noteq> []" using Cons.prems(6) by (cases ds) auto
    then have "length (p @ d) < length f" using len by simp
    then have "processInputBuffer_e (Some m) a ?s = Inr ?s"
      using q h1 by (cases "4 \<le> length (p @ d)") (simp_all add: processInputBuffer_e_def holds_def)
    moreover obtain c' q' where "feed (Some m) now a ds ?s = Inr ((put a c' ?s)\<lparr>es_newjobs := q',
        es_threads := es_threads ?s @ [Looking], es_active := es_active ?s + 1\<rparr>)" "holds c' f" "ec_fd c' = ec_fd ?c" "list_vals q' [a]"
      using Cons.IH [of ?s ?c "p @ d"] Cons.prems(3-9) h1 False by auto
    ultimately show ?thesis using run by (intro exI [of _ c'] exI [of _ q']) simp
  qed
qed simp

text \<open>The client holds its answer, all but the first \<open>k\<close> bytes of which are still to be sent.\<close>

definition answering :: "eclient \<Rightarrow> string \<Rightarrow> nat \<Rightarrow> bool" where
  "answering c f k \<longleftrightarrow> length (ec_wbuf c) = EBUF \<and> take (length f) (ec_wbuf c) = f \<and> length f \<le> EBUF
     \<and> ec_wlen c = int (length f) \<and> ec_wpos c = int k \<and> k \<le> length f"

lemma echo_answers: "holds c f \<Longrightarrow> \<exists>c'. echo_redisCommandProc c = Inr c' \<and> answering c' f 0 \<and> ec_fd c' = ec_fd c"
  by (auto simp: holds_def answering_def echo_redisCommandProc_def)

lemma thread_ok:
  assumes a: "sv_heap s a = Some c" "holds c f" and nq: "list_vals (es_newjobs s) [a]"
    and pq: "list_vals (es_processed s) []" "ls_cells (es_processed s) m = None"
    and t: "es_threads s = ts @ [Looking]" "t = length ts"
  shows "\<exists>c' q q'. IOThreadEntryPoint [Some m, None] t s = Inr ((put a c' s)\<lparr>es_newjobs := q, es_processed := q',
      es_pipe := Suc (es_pipe s), es_threads := ts @ [Gone], es_active := es_active s - 1\<rparr>)
    \<and> answering c' f 0 \<and> ec_fd c' = ec_fd c \<and> list_vals q [] \<and> list_vals q' [a]"
proof -
  obtain q where q: "listPopFirst (es_newjobs s) = Inr (Some (a, q))" "list_vals q []"
    using adlist.pop_law [OF nq] by auto
  have e: "listPopFirst q = Inr None" using q(2) by (rule adlist.pop_empty_law)
  obtain q' where q': "listAddNodeTail (Some m) a (es_processed s) = Inr (Some q')" "list_vals q' [a]"
    using adlist.push_law [OF pq, of a] by auto
  obtain c' where c': "echo_redisCommandProc c = Inr c'" "answering c' f 0" "ec_fd c' = ec_fd c"
    using echo_answers [OF a(2)] by blast
  have "IOThreadEntryPoint [Some m, None] t s = Inr ((put a c' s)\<lparr>es_newjobs := q, es_processed := q',
      es_pipe := Suc (es_pipe s), es_threads := ts @ [Gone], es_active := es_active s - 1\<rparr>)"
    using a(1) q(1) e q'(1) c'(1) t
    by (simp add: thread_take_def set_thread_def thread_run_def client_at_def thread_push_def thread_tell_def put_def
        list_update_append nth_append)
  then show ?thesis using c'(2,3) q(2) q'(2) by blast
qed

lemma completed_ok:
  assumes a: "sv_heap s a = Some c" "0 \<le> ec_fd c" "ec_fd c < AE_SETSIZE" "loop_inv (sv_el s)"
    and q: "list_vals (es_processed s) [a]" "es_pipe s = Suc 0"
    and en: "entry (sv_el s) (ec_fd c) AE_READABLE ReadQuery_e (Some a)"
  shows "\<exists>L q. vmThreadedIOCompletedJob_e [True, True] s = Inr (s\<lparr>sv_el := L, es_processed := q, es_pipe := 0\<rparr>)
    \<and> loop_inv L \<and> mask_of L (ec_fd c) = 3 \<and> list_vals q []"
proof -
  obtain q where q': "listPopFirst (es_processed s) = Inr (Some (a, q))" "list_vals q []"
    using adlist.pop_law [OF q(1)] by auto
  let ?s = "s\<lparr>es_pipe := 0, es_processed := q\<rparr>"
  have "loop_inv (sv_el ?s)" using a(4) by simp
  from register_ok [OF this a(2,3), of AE_WRITABLE SendReply_e "Some a"]
  obtain L where L: "register True (ec_fd c) AE_WRITABLE SendReply_e (Some a) ?s = Inr (AE_OK, ?s\<lparr>sv_el := L\<rparr>)" "loop_inv L"
    "el_events L = (el_events (sv_el s))(ec_fd c := reg_entry (el_events (sv_el s) (ec_fd c)) AE_WRITABLE SendReply_e (Some a))"
    by auto
  have "completed_turn_e True s = Inr (Some (?s\<lparr>sv_el := L\<rparr>))"
    using a(1) q(2) q'(1) L(1) by (simp add: completed_turn_e_def)
  then have "vmThreadedIOCompletedJob_e [True, True] s = Inr (?s\<lparr>sv_el := L\<rparr>)"
    by (simp add: completed_turn_e_def [of _ "?s\<lparr>sv_el := L\<rparr>"])
  moreover have "mask_of L (ec_fd c) = 3" using L(3) en by (simp add: entry_def)
  ultimately show ?thesis using L(2) q'(2) by (intro exI [of _ L] exI [of _ q]) simp
qed

lemma reset_ok:
  assumes a: "sv_heap s a = Some c" "0 \<le> ec_fd c" "ec_fd c < AE_SETSIZE" "loop_inv (sv_el s)" "mask_of (sv_el s) (ec_fd c) = 3"
  shows "\<exists>L c'. resetClient_e True a s = Inr ((put a c' s)\<lparr>sv_el := L\<rparr>) \<and> loop_inv L \<and> ec_fd c' = ec_fd c
    \<and> entry L (ec_fd c) AE_READABLE ReadQuery_e (Some a) \<and> holds c' []"
proof -
  let ?c = "c\<lparr>ec_rbuf := replicate EBUF NUL, ec_wbuf := replicate EBUF NUL, ec_rlen := 0, ec_wpos := 0, ec_wlen := 0\<rparr>"
  let ?s = "put a ?c s"
  have "loop_inv (sv_el ?s)" using a(4) by simp
  from unregister_ok [OF this a(2), of AE_WRITABLE] obtain L1 where
    L1: "unregister (ec_fd c) AE_WRITABLE ?s = Inr (?s\<lparr>sv_el := L1\<rparr>)" "loop_inv L1" "mask_of L1 (ec_fd c) = 1"
    using a(5) by auto
  have "loop_inv (sv_el (?s\<lparr>sv_el := L1\<rparr>))" using L1(2) by simp
  from unregister_ok [OF this a(2), of AE_READABLE] obtain L2 where
    L2: "unregister (ec_fd c) AE_READABLE (?s\<lparr>sv_el := L1\<rparr>) = Inr (?s\<lparr>sv_el := L2\<rparr>)" "loop_inv L2" "mask_of L2 (ec_fd c) = 0"
    using L1(3) by auto
  have "loop_inv (sv_el (?s\<lparr>sv_el := L2\<rparr>))" using L2(2) by simp
  from register_ok [OF this a(2,3), of AE_READABLE ReadQuery_e "Some a"] obtain L3 where
    L3: "register True (ec_fd c) AE_READABLE ReadQuery_e (Some a) (?s\<lparr>sv_el := L2\<rparr>) = Inr (AE_OK, ?s\<lparr>sv_el := L3\<rparr>)" "loop_inv L3"
    "el_events L3 = (el_events L2)(ec_fd c := reg_entry (el_events L2 (ec_fd c)) AE_READABLE ReadQuery_e (Some a))" by auto
  have "resetClient_e True a s = Inr (?s\<lparr>sv_el := L3\<rparr>)"
    using a(1) L1(1) L2(1) L3(1) by (simp add: resetClient_e_def)
  moreover have "entry L3 (ec_fd c) AE_READABLE ReadQuery_e (Some a)"
    using L2(3) L3(3) by (simp add: entry_def reg_entry_def)
  ultimately show ?thesis using L3(2) by (intro exI [of _ L3] exI [of _ ?c]) (simp add: holds_def)
qed

lemma drain_ok:
  assumes "sv_heap s a = Some c" "0 \<le> ec_fd c" "ec_fd c < AE_SETSIZE" "loop_inv (sv_el s)" "mask_of (sv_el s) (ec_fd c) = 3"
    and "answering c f k" "ns \<noteq> []" "0 \<notin> set ns" "k + sum_list ns = length f"
  shows "\<exists>L c' out. drain now a ns s = Inr ((put a c' s)\<lparr>sv_el := L, sv_sent := out\<rparr>) \<and> loop_inv L \<and> ec_fd c' = ec_fd c
    \<and> entry L (ec_fd c) AE_READABLE ReadQuery_e (Some a) \<and> holds c' [] \<and> out a = sv_sent s a @ drop k f"
  using assms
proof (induction ns arbitrary: s c k)
  case (Cons n ns)
  let ?c = "c\<lparr>ec_last := now, ec_wpos := ec_wpos c + int n\<rparr>"
  let ?out = "(sv_sent s)(a := sv_sent s a @ take n (drop (nat (ec_wpos c)) (ec_wbuf c)))"
  let ?s = "(put a ?c s)\<lparr>sv_sent := ?out\<rparr>"
  have w: "length (ec_wbuf c) = EBUF" "take (length f) (ec_wbuf c) = f" "length f \<le> EBUF" "ec_wlen c = int (length f)"
    "ec_wpos c = int k" "k \<le> length f" using Cons.prems(6) by (auto simp: answering_def)
  have kn: "k + n \<le> length f" "0 < n" using Cons.prems(8,9) by auto
  then have "answering ?c f (k + n)" using w by (simp add: answering_def)
  have "take n (drop k (ec_wbuf c)) = take n (drop k (take (length f) (ec_wbuf c)))"
    using kn by (simp add: drop_take min_def)
  then have sent: "?out a = sv_sent s a @ take n (drop k f)" using w by simp
  have run: "sendReplyToClient_e (Ew_bytes n) now True a s
    = (if k + n = length f then resetClient_e True a ?s else Inr ?s)"
    using Cons.prems(1) w kn by (simp add: sendReplyToClient_e_def Let_def)
  have heap: "sv_heap ?s a = Some ?c" "0 \<le> ec_fd ?c" "ec_fd ?c < AE_SETSIZE" "loop_inv (sv_el ?s)" "mask_of (sv_el ?s) (ec_fd ?c) = 3"
    using Cons.prems(2-5) by simp_all
  show ?case
  proof (cases "ns = []")
    case True
    obtain L c' where L: "resetClient_e True a ?s = Inr ((put a c' ?s)\<lparr>sv_el := L\<rparr>)" "loop_inv L" "ec_fd c' = ec_fd ?c"
      "entry L (ec_fd ?c) AE_READABLE ReadQuery_e (Some a)" "holds c' []"
      using reset_ok [OF heap] by blast
    have "(put a c' ?s)\<lparr>sv_el := L\<rparr> = (put a c' s)\<lparr>sv_el := L, sv_sent := ?out\<rparr>" by (simp add: put_def)
    then have d: "drain now a (n # ns) s = Inr ((put a c' s)\<lparr>sv_el := L, sv_sent := ?out\<rparr>)"
      using run L(1) True Cons.prems(9) by simp
    have o: "?out a = sv_sent s a @ drop k f" using sent True Cons.prems(9) by simp
    have "ec_fd c' = ec_fd c" "entry L (ec_fd c) AE_READABLE ReadQuery_e (Some a)" using L(3,4) by simp_all
    then show ?thesis by (intro exI conjI) (rule d, rule L(2), assumption, assumption, rule L(5), rule o)
  next
    case False
    then obtain i ms where "ns = i # ms" "0 < i" using Cons.prems(8) by (cases ns) auto
    then have more: "k + n \<noteq> length f" using Cons.prems(9) by simp
    obtain L c' out where L: "drain now a ns ?s = Inr ((put a c' ?s)\<lparr>sv_el := L, sv_sent := out\<rparr>)" "loop_inv L" "ec_fd c' = ec_fd ?c"
      "entry L (ec_fd ?c) AE_READABLE ReadQuery_e (Some a)" "holds c' []" "out a = sv_sent ?s a @ drop (k + n) f"
      using Cons.IH [OF heap \<open>answering ?c f (k + n)\<close> False] Cons.prems(8,9) by auto
    have "(put a c' ?s)\<lparr>sv_el := L, sv_sent := out\<rparr> = (put a c' s)\<lparr>sv_el := L, sv_sent := out\<rparr>" by (simp add: put_def)
    moreover have "take n (drop k f) @ drop (k + n) f = drop k f"
      by (metis add.commute append_take_drop_id drop_drop)
    ultimately show ?thesis
      using run L more sent by (intro exI [of _ L] exI [of _ c'] exI [of _ out]) simp
  qed
qed simp

text \<open>A frame is echoed: however the reads cut it up (no read is empty), one thread is started, runs
  the command and exits, and however the writes cut the answer up, the client is sent exactly the
  frame and then waits for its next request, with the queues and the thread count as before.\<close>

lemma echo_request:
  assumes "ready a c s" "frame f" "concat cs = f" "[] \<notin> set cs" "sum_list ns = length f" "0 \<notin> set ns"
    and "ls_cells (es_newjobs s) m1 = None" "ls_cells (es_processed s) m2 = None"
    and "es_active s < es_max_threads s"
  shows "\<exists>s' c'. serve_one m1 m2 (length (es_threads s)) now a cs ns s = Inr s' \<and> ready a c' s'
    \<and> ec_fd c' = ec_fd c \<and> sv_sent s' a = sv_sent s a @ f \<and> es_active s' = es_active s
    \<and> es_max_threads s' = es_max_threads s"
proof -
  have r: "loop_inv (sv_el s)" "sv_heap s a = Some c" "0 \<le> ec_fd c" "ec_fd c < AE_SETSIZE"
    "entry (sv_el s) (ec_fd c) AE_READABLE ReadQuery_e (Some a)" "holds c []"
    "list_vals (es_newjobs s) []" "list_vals (es_processed s) []" "es_pipe s = 0"
    using assms(1) by (auto simp: ready_def)
  have l: "0 < length f" using assms(2) by (auto simp: frame_def)
  have ne: "cs \<noteq> []" "ns \<noteq> []" using l assms(3,5) by auto
  obtain c1 q1 where s1: "feed (Some m1) now a cs s = Inr ((put a c1 s)\<lparr>es_newjobs := q1, es_threads := es_threads s @ [Looking],
      es_active := es_active s + 1\<rparr>)" "holds c1 f" "ec_fd c1 = ec_fd c" "list_vals q1 [a]"
    using feed_ok [OF r(2,6) assms(2) _ ne(1) assms(4) r(7) assms(7,9), of now] assms(3) by auto
  let ?s1 = "(put a c1 s)\<lparr>es_newjobs := q1, es_threads := es_threads s @ [Looking], es_active := es_active s + 1\<rparr>"
  obtain c2 q2 p2 where s2: "IOThreadEntryPoint [Some m2, None] (length (es_threads s)) ?s1
      = Inr ((put a c2 ?s1)\<lparr>es_newjobs := q2, es_processed := p2, es_pipe := Suc (es_pipe ?s1), es_threads := es_threads s @ [Gone],
        es_active := es_active ?s1 - 1\<rparr>)" "answering c2 f 0" "ec_fd c2 = ec_fd c1" "list_vals q2 []" "list_vals p2 [a]"
    using thread_ok [of ?s1 a c1 f m2 "es_threads s" "length (es_threads s)"] s1 r(8) assms(8) by auto
  let ?s2 = "(put a c2 s)\<lparr>es_newjobs := q2, es_processed := p2, es_pipe := Suc 0, es_threads := es_threads s @ [Gone]\<rparr>"
  have eq2: "(put a c2 ?s1)\<lparr>es_newjobs := q2, es_processed := p2, es_pipe := Suc (es_pipe ?s1), es_threads := es_threads s @ [Gone],
        es_active := es_active ?s1 - 1\<rparr> = ?s2"
    using r(9) by (simp add: put_def)
  obtain L p3 where s3: "vmThreadedIOCompletedJob_e [True, True] ?s2 = Inr (?s2\<lparr>sv_el := L, es_processed := p3, es_pipe := 0\<rparr>)"
    "loop_inv L" "mask_of L (ec_fd c2) = 3" "list_vals p3 []"
    using completed_ok [of ?s2 a c2] r s2(3,5) s1(3) by auto
  let ?s3 = "?s2\<lparr>sv_el := L, es_processed := p3, es_pipe := 0\<rparr>"
  obtain L4 c4 out where s4: "drain now a ns ?s3 = Inr ((put a c4 ?s3)\<lparr>sv_el := L4, sv_sent := out\<rparr>)" "loop_inv L4" "ec_fd c4 = ec_fd c2"
    "entry L4 (ec_fd c2) AE_READABLE ReadQuery_e (Some a)" "holds c4 []" "out a = sv_sent ?s3 a @ drop 0 f"
    using drain_ok [of ?s3 a c2 f 0 ns now] r(3,4) s1(3) s2(2,3) s3(2,3) ne(2) assms(5,6) by auto
  let ?s4 = "(put a c4 ?s3)\<lparr>sv_el := L4, sv_sent := out\<rparr>"
  have "serve_one m1 m2 (length (es_threads s)) now a cs ns s = Inr ?s4"
    using s1(1) s2(1) s3(1) s4(1) unfolding serve_one_def by (simp only: fbind_Inr eq2)
  moreover have "ready a c4 ?s4"
    using s4 r(3,4) s1(3) s2(3,4) s3(4) by (simp add: ready_def)
  ultimately show ?thesis using s4(3,6) s1(3) s2(3) by (intro exI [of _ ?s4] exI [of _ c4]) simp
qed

text \<open>A server with one client on descriptor 5, before its registration.\<close>

definition demo_e :: eserver where
  "demo_e = \<lparr>sv_el = new_loop, sv_clients = 1, sv_heap = [100 \<mapsto> new_client_e 5], sv_open = {5}, sv_sent = (\<lambda>_. []),
     es_maxclients = 0, es_numconnections = 1, es_newjobs = empty_list, es_processed = empty_list, es_pipe = 0,
     es_active = 0, es_max_threads = 10, es_threads = [], es_cronloops = 0, es_unixtime = 0\<rparr>"

lemma demo_ready: "\<exists>L. ready 100 (new_client_e 5) (demo_e\<lparr>sv_el := L\<rparr>)"
proof -
  have "loop_inv (sv_el demo_e)" by (simp add: demo_e_def new_loop_inv)
  from register_ok [OF this, of 5 AE_READABLE ReadQuery_e "Some 100"] obtain L where L: "loop_inv L"
    "el_events L = (el_events (sv_el demo_e))(5 := reg_entry (el_events (sv_el demo_e) 5) AE_READABLE ReadQuery_e (Some 100))"
    by (auto simp: AE_SETSIZE_def)
  have "holds (new_client_e 5) []" by (simp add: holds_def new_client_e_def)
  moreover have "ec_fd (new_client_e 5) = 5" by (simp add: new_client_e_def)
  ultimately have "ready 100 (new_client_e 5) (demo_e\<lparr>sv_el := L\<rparr>)"
    using L empty_nat_list
    by (simp add: ready_def demo_e_def AE_SETSIZE_def entry_def reg_entry_def new_loop_def no_event_def)
  then show ?thesis by blast
qed

text \<open>The client stays registered for reading while it is queued: when it closes its connection then,
  it is freed, and the thread that takes it from the queue works on freed memory.\<close>

lemma echo_use_after_free:
  assumes "loop_inv (sv_el s)" "sv_heap s a = Some c" "0 \<le> ec_fd c" "list_vals (es_newjobs s) [a]" "t < length (es_threads s)"
  shows "\<exists>s1 s2. readQueryFromClient_e (Er_bytes []) now m a s = Inr s1 \<and> thread_take t s1 = Inr s2
    \<and> es_threads s2 ! t = Holding a \<and> thread_run t a s2 = Inl Use_after_free"
proof -
  from unregister_ok [OF assms(1,3), of AE_READABLE] obtain L1 where
    L1: "unregister (ec_fd c) AE_READABLE s = Inr (s\<lparr>sv_el := L1\<rparr>)" "loop_inv L1" by auto
  have "loop_inv (sv_el (s\<lparr>sv_el := L1\<rparr>))" using L1(2) by simp
  from unregister_ok [OF this assms(3), of AE_WRITABLE] obtain L2 where
    L2: "unregister (ec_fd c) AE_WRITABLE (s\<lparr>sv_el := L1\<rparr>) = Inr (s\<lparr>sv_el := L2\<rparr>)" by auto
  let ?s1 = "s\<lparr>sv_el := L2, sv_open := sv_open s - {ec_fd c}, sv_heap := (sv_heap s)(a := None), sv_clients := sv_clients s - 1\<rparr>"
  obtain q where q: "listPopFirst (es_newjobs s) = Inr (Some (a, q))"
    using adlist.pop_law [OF assms(4)] by auto
  let ?s2 = "set_thread t (Holding a) (?s1\<lparr>es_newjobs := q\<rparr>)"
  have "readQueryFromClient_e (Er_bytes []) now m a s = Inr ?s1"
    using assms(2) L1(1) L2 by (simp add: readQueryFromClient_e_def freeClient_e_def)
  moreover have "thread_take t ?s1 = Inr ?s2" using q by (simp add: thread_take_def)
  moreover have "es_threads ?s2 ! t = Holding a" using assms(5) by (simp add: set_thread_def)
  moreover have "thread_run t a ?s2 = Inl Use_after_free"
    by (simp add: thread_run_def client_at_def set_thread_def)
  ultimately show ?thesis by blast
qed

end
