(* ===== verification/InnoConfig.thy ===== *)
theory InnoConfig
  imports Prelude
begin

section \<open>The option files of dump_innodb (dump_innodb/test0aux.c)\<close>

text \<open>
  The reader of option files, the growing vector it fills, and the functions that print and free
  the vector. The two line buffers are local arrays without initial contents: what they hold at
  the start is an argument (\<open>junk\<close>). A cell of the vector that was allocated and not written is
  \<open>Raw\<close>; using it is the fault \<open>Indeterminate_value\<close>. \<open>ok\<close> tells for each new
  element which of the three allocations succeed (vector, name, value).
\<close>

definition BUFSIZ :: nat where "BUFSIZ = 8192"

subsection \<open>The vector\<close>

datatype ib_string = Raw | Str string

record ib_var =
  v_name :: ib_string
  v_value :: ib_string

record ib_config =
  elems :: "ib_var list"
  n_elems :: nat
  n_count :: nat

definition raw_var :: ib_var where
  "raw_var = \<lparr>v_name = Raw, v_value = Raw\<rparr>"

definition no_config :: ib_config where
  "no_config = \<lparr>elems = [], n_elems = 0, n_count = 0\<rparr>"

text \<open>\<open>malloc\<close> and \<open>realloc\<close> of \<open>n\<close> elements of 32 bytes: the byte count is an \<open>int\<close>,
  converted back to \<open>size_t\<close>; a negative one is refused.\<close>

definition elems_size :: "nat \<Rightarrow> int" where
  "elems_size n = to_i32 (int n * 32)"

definition resize :: "bool \<Rightarrow> nat \<Rightarrow> ib_var list \<Rightarrow> ib_var list option" where
  "resize m n vs =
     (let cells = nat (elems_size n) div 32 in
      if m \<and> 0 \<le> elems_size n then Some (take cells vs @ replicate (cells - length vs) raw_var) else None)"

text \<open>A key or a value while it is read: how many characters were counted, and the buffer behind \<open>ptr\<close>.\<close>

definition config_add_elem :: "bool \<times> bool \<times> bool \<Rightarrow> nat \<Rightarrow> string \<Rightarrow> nat \<Rightarrow> string \<Rightarrow> ib_config \<Rightarrow> ib_config res" where
  "config_add_elem ok klen kbuf vlen vbuf g = (case ok of (m, mk, mv) \<Rightarrow>
     let (cnt, mem) =
       (if n_count g = 0 then (4, resize m 4 [])
        else if n_elems g = n_count g - 1 then (n_count g * 2, resize m (n_count g * 2) (elems g))
        else (n_count g, Some (elems g)))
     in
       if \<not> n_elems g < cnt then Inl Assert_failed
       else if \<not> 0 < klen then Inl Assert_failed
       else (case mem of
           None \<Rightarrow> Inl Null_deref
         | Some vs \<Rightarrow>
             if \<not> n_elems g < length vs then Inl Buffer_overflow
             else if \<not> mk then Inl Null_deref
             else if klen > length kbuf then Inl Out_of_bounds
             else
               let var = (vs ! n_elems g)\<lparr>v_name := Str (take klen kbuf)\<rparr> in
               fmap (\<lambda>var'. \<lparr>elems = vs[n_elems g := var'], n_elems = n_elems g + 1, n_count = cnt\<rparr>)
                (if 0 < vlen then
                   if \<not> mv then Inl Null_deref
                   else if vlen > length vbuf then Inl Out_of_bounds
                   else Inr (var\<lparr>v_value := Str (take vlen vbuf)\<rparr>)
                 else Inr var)))"

subsection \<open>The reader\<close>

datatype target = Key | Val

text \<open>The local variables of \<open>config_parse_file\<close>: the two buffers, and for key and value the count
  and the offset of \<open>ptr\<close> in its buffer.\<close>

record parser =
  p_name :: string
  p_value :: string
  p_klen :: nat
  p_kptr :: nat
  p_vlen :: nat
  p_vptr :: nat
  p_str :: target

fun config_skip_line :: "string \<Rightarrow> string option" where
  "config_skip_line [] = None"
| "config_skip_line (c # cs) = (if c = LF then Some cs else config_skip_line cs)"

text \<open>The white space loop, from the character just read; \<open>None\<close> at the end of the file.\<close>

fun skip_space :: "string \<Rightarrow> (char \<times> string) option" where
  "skip_space [] = None"
| "skip_space (c # cs) = (if c \<noteq> LF \<and> is_space c then skip_space cs else Some (c, cs))"

definition put_char :: "char \<Rightarrow> parser \<Rightarrow> parser res" where
  "put_char c p = (case p_str p of
       Key \<Rightarrow> if p_kptr p < length (p_name p)
         then Inr (p\<lparr>p_klen := p_klen p + 1, p_name := (p_name p)[p_kptr p := c], p_kptr := p_kptr p + 1\<rparr>)
         else Inl Buffer_overflow
     | Val \<Rightarrow> if p_vptr p < length (p_value p)
         then Inr (p\<lparr>p_vlen := p_vlen p + 1, p_value := (p_value p)[p_vptr p := c], p_vptr := p_vptr p + 1\<rparr>)
         else Inl Buffer_overflow)"

definition str_len :: "parser \<Rightarrow> nat" where
  "str_len p = (case p_str p of Key \<Rightarrow> p_klen p | Val \<Rightarrow> p_vlen p)"

definition end_of_line :: "(nat \<Rightarrow> bool \<times> bool \<times> bool) \<Rightarrow> parser \<times> ib_config \<Rightarrow> (parser \<times> ib_config) res" where
  "end_of_line ok = (\<lambda>(p, g).
     fmap (\<lambda>g'. (p\<lparr>p_klen := 0, p_kptr := 0, p_vlen := 0, p_str := Key\<rparr>, g'))
      (if 0 < p_klen p then config_add_elem (ok (n_elems g)) (p_klen p) (p_name p) (p_vlen p) (p_value p) g
       else Inr g))"

text \<open>The \<open>switch\<close> on a character and the assertion behind it.\<close>

definition config_char :: "(nat \<Rightarrow> bool \<times> bool \<times> bool) \<Rightarrow> char \<Rightarrow> parser \<times> ib_config \<Rightarrow> (parser \<times> ib_config) res" where
  "config_char ok c = (\<lambda>(p, g).
     fbind
      (if c = CR then Inr (p, g)
       else if c = LF then end_of_line ok (p, g)
       else if c = CHR ''='' then Inr (p\<lparr>p_str := Val, p_vptr := 0\<rparr>, g)
       else fmap (\<lambda>p'. (p', g)) (put_char c p))
      (\<lambda>(p', g'). if str_len p' < BUFSIZ then Inr (p', g') else Inl Assert_failed))"

lemma config_skip_line_length: "config_skip_line cs = Some r \<Longrightarrow> length r < length cs"
  by (induction cs) (auto split: if_splits)

lemma skip_space_length: "skip_space cs = Some (c, r) \<Longrightarrow> length r < length cs"
  by (induction cs) (auto split: if_splits)

function parse_loop :: "(nat \<Rightarrow> bool \<times> bool \<times> bool) \<Rightarrow> string \<Rightarrow> parser \<times> ib_config \<Rightarrow> (parser \<times> ib_config) res" where
  "parse_loop ok [] s = Inr s"
| "parse_loop ok (c # cs) s =
     (if c = CHR ''#'' then (case config_skip_line cs of None \<Rightarrow> Inr s | Some r \<Rightarrow> parse_loop ok r s)
      else case skip_space (c # cs) of
          None \<Rightarrow> Inr s
        | Some (d, ds) \<Rightarrow>
            if d = CHR ''#'' then (case config_skip_line ds of None \<Rightarrow> Inr s | Some r \<Rightarrow> parse_loop ok r s)
            else (case config_char ok d s of Inl e \<Rightarrow> Inl e | Inr s' \<Rightarrow> parse_loop ok ds s'))"
  by pat_completeness auto
termination
  by (relation "measure (\<lambda>(ok, cs, s). length cs)")
    (auto dest!: config_skip_line_length skip_space_length split: if_splits)

definition config_parse_file :: "(nat \<Rightarrow> bool \<times> bool \<times> bool) \<Rightarrow> string \<times> string \<Rightarrow> string option \<Rightarrow> ib_config \<Rightarrow> (int \<times> ib_config) res" where
  "config_parse_file ok junk file g = (case file of
       None \<Rightarrow> Inr (- 1, g)
     | Some cs \<Rightarrow>
         fbind (parse_loop ok cs (\<lparr>p_name = fst junk, p_value = snd junk, p_klen = 0, p_kptr = 0,
             p_vlen = 0, p_vptr = 0, p_str = Key\<rparr>, g)) (\<lambda>(p, g').
           fmap (Pair 0)
            (if 0 < str_len p
             then config_add_elem (ok (n_elems g')) (p_klen p) (p_name p) (p_vlen p) (p_value p) g'
             else Inr g')))"

subsection \<open>Printing and freeing\<close>

text \<open>\<open>%.*s\<close> of the stored bytes stops at a NUL.\<close>

definition print_str :: "string \<Rightarrow> string" where
  "print_str s = takeWhile (\<lambda>c. c \<noteq> NUL) s"

definition print_var :: "ib_var \<Rightarrow> string res" where
  "print_var v = (case (v_value v, v_name v) of
       (Str s, Str n) \<Rightarrow> Inr (print_str n @ ''='' @ print_str s @ [LF])
     | _ \<Rightarrow> Inl Indeterminate_value)"

fun print_vars :: "ib_var list \<Rightarrow> string res" where
  "print_vars [] = Inr []"
| "print_vars (v # vs) = fbind (print_var v) (\<lambda>s. fmap ((@) s) (print_vars vs))"

definition config_print :: "ib_config \<Rightarrow> string res" where
  "config_print g = (if n_elems g \<le> length (elems g) then print_vars (take (n_elems g) (elems g)) else Inl Out_of_bounds)"

definition config_free :: "ib_config \<Rightarrow> ib_config res" where
  "config_free g =
     (if \<not> n_elems g \<le> length (elems g) then Inl Out_of_bounds
      else if \<exists>v \<in> set (take (n_elems g) (elems g)). v_name v = Raw \<or> v_value v = Raw then Inl Indeterminate_value
      else Inr no_config)"

subsection \<open>The vector\<close>

definition wf_config :: "ib_config \<Rightarrow> ib_var list \<Rightarrow> bool" where
  "wf_config g vs \<longleftrightarrow> n_elems g = length vs \<and> elems g = vs @ replicate (n_count g - length vs) raw_var
    \<and> (n_count g = 0 \<and> vs = [] \<or> length vs < n_count g \<and> n_count g \<le> max 4 (2 * length vs))"

definition new_var :: "nat \<Rightarrow> string \<Rightarrow> nat \<Rightarrow> string \<Rightarrow> ib_var" where
  "new_var klen kbuf vlen vbuf = \<lparr>v_name = Str (take klen kbuf), v_value = (if 0 < vlen then Str (take vlen vbuf) else Raw)\<rparr>"

lemma wf_no_config [simp]: "wf_config no_config []"
  by (simp add: wf_config_def no_config_def)

lemma resize_ok:
  assumes "n < 2 ^ 26" "length vs \<le> n"
  shows "resize True n vs = Some (vs @ replicate (n - length vs) raw_var)"
proof -
  have "elems_size n = int n * 32" using assms(1) by (simp add: elems_size_def)
  then have "nat (elems_size n) div 32 = n" "0 \<le> elems_size n" by (auto simp: nat_mult_distrib)
  then show ?thesis using assms(2) by (simp add: resize_def)
qed

text \<open>The number of cells after a call: 4, 8, 16 and so on.\<close>

definition next_count :: "ib_config \<Rightarrow> nat" where
  "next_count g = (if n_count g = 0 then 4 else if n_elems g = n_count g - 1 then n_count g * 2 else n_count g)"

lemma add_elem_room:
  assumes g: "wf_config g vs" "next_count g < 2 ^ 26"
    and k: "0 < klen" "klen \<le> length kbuf" and v: "vlen \<le> length vbuf"
  shows "\<exists>g'. config_add_elem (True, True, True) klen kbuf vlen vbuf g = Inr g'
    \<and> wf_config g' (vs @ [new_var klen kbuf vlen vbuf]) \<and> n_count g' = next_count g"
proof -
  let ?n = "length vs"
  define cnt where "cnt = (if n_count g = 0 then 4 else if ?n = n_count g - 1 then n_count g * 2 else n_count g)"
  have c: "?n < cnt" "cnt \<le> max 4 (2 * (?n + 1))" "?n + 1 < cnt"
    using g(1) unfolding cnt_def wf_config_def by auto
  have cn: "next_count g = cnt" using g(1) by (simp add: next_count_def cnt_def wf_config_def)
  with g(2) have big: "cnt < 2 ^ 26" by simp
  define ws where "ws = vs @ replicate (cnt - ?n) raw_var"
  have grow: "(if n_count g = 0 then (4, resize True 4 [])
        else if n_elems g = n_count g - 1 then (n_count g * 2, resize True (n_count g * 2) (elems g))
        else (n_count g, Some (elems g))) = (cnt, Some ws)"
  proof (cases "n_count g = 0")
    case True
    then show ?thesis using g(1) resize_ok [of 4 "[]"] by (simp add: cnt_def ws_def wf_config_def)
  next
    case F: False
    show ?thesis
    proof (cases "?n = n_count g - 1")
      case True
      have e: "elems g = vs @ [raw_var]" using g(1) F True by (auto simp: wf_config_def)
      have "2 * n_count g < 2 ^ 26" using big F True by (simp add: cnt_def)
      then have "resize True (n_count g * 2) (elems g) = Some (elems g @ replicate (n_count g * 2 - length (elems g)) raw_var)"
        using e True F by (intro resize_ok) auto
      also have "elems g @ replicate (n_count g * 2 - length (elems g)) raw_var = vs @ replicate (Suc (n_count g * 2 - (?n + 1))) raw_var"
        unfolding e by simp
      also have "Suc (n_count g * 2 - (?n + 1)) = n_count g * 2 - ?n" using True F by simp
      finally show ?thesis using g(1) F True by (simp add: cnt_def ws_def wf_config_def)
    next
      case False
      then show ?thesis using g(1) F by (simp add: cnt_def ws_def wf_config_def)
    qed
  qed
  have ws: "length ws = cnt" "ws ! ?n = raw_var" using c(1) by (simp_all add: ws_def nth_append)
  have upd: "ws[?n := x] = (vs @ [x]) @ replicate (cnt - length (vs @ [x])) raw_var" for x
  proof -
    have "replicate (cnt - ?n) raw_var = raw_var # replicate (cnt - ?n - 1) raw_var"
      using c(1) by (cases "cnt - ?n") auto
    then show ?thesis by (simp add: ws_def list_update_append)
  qed
  have "config_add_elem (True, True, True) klen kbuf vlen vbuf g
    = Inr \<lparr>elems = ws[?n := new_var klen kbuf vlen vbuf], n_elems = ?n + 1, n_count = cnt\<rparr>"
    unfolding config_add_elem_def prod.case grow
    using c(1) ws k v g(1) by (simp add: Let_def wf_config_def new_var_def raw_var_def)
  moreover have "wf_config \<lparr>elems = ws[?n := new_var klen kbuf vlen vbuf], n_elems = ?n + 1, n_count = cnt\<rparr>
      (vs @ [new_var klen kbuf vlen vbuf])"
    unfolding wf_config_def upd using c by simp
  ultimately show ?thesis using cn by auto
qed

lemma add_elem_ok:
  assumes g: "wf_config g vs" "length vs < 2 ^ 24"
    and k: "0 < klen" "klen \<le> length kbuf" and v: "vlen \<le> length vbuf"
  shows "\<exists>g'. config_add_elem (True, True, True) klen kbuf vlen vbuf g = Inr g'
    \<and> wf_config g' (vs @ [new_var klen kbuf vlen vbuf])"
proof -
  have "next_count g < 2 ^ 26" using g by (auto simp: next_count_def wf_config_def)
  from add_elem_room [OF g(1) this k v] show ?thesis by blast
qed

text \<open>An allocation that fails is not looked at: the null pointer it gave is used.\<close>

lemma add_elem_refused:
  "config_add_elem ok klen kbuf vlen vbuf g = Inl Null_deref
    \<or> config_add_elem ok klen kbuf vlen vbuf g = config_add_elem (True, True, True) klen kbuf vlen vbuf g"
proof (cases ok)
  case (fields m mk mv)
  define P where "P m = (if n_count g = 0 then (4, resize m 4 [])
      else if n_elems g = n_count g - 1 then (n_count g * 2, resize m (n_count g * 2) (elems g))
      else (n_count g, Some (elems g)))" for m
  define F where "F mk mv cnt mem = (if \<not> n_elems g < cnt then Inl Assert_failed
      else if \<not> 0 < klen then Inl Assert_failed
      else (case mem of
          None \<Rightarrow> Inl Null_deref
        | Some vs \<Rightarrow>
            if \<not> n_elems g < length vs then Inl Buffer_overflow
            else if \<not> mk then Inl Null_deref
            else if klen > length kbuf then Inl Out_of_bounds
            else
              let var = (vs ! n_elems g)\<lparr>v_name := Str (take klen kbuf)\<rparr> in
              fmap (\<lambda>var'. \<lparr>elems = vs[n_elems g := var'], n_elems = n_elems g + 1, n_count = cnt\<rparr>)
               (if 0 < vlen then
                  if \<not> mv then Inl Null_deref
                  else if vlen > length vbuf then Inl Out_of_bounds
                  else Inr (var\<lparr>v_value := Str (take vlen vbuf)\<rparr>)
                else Inr var)))" for mk mv :: bool and cnt mem
  have F: "F mk mv cnt mem = Inl Null_deref \<or> F mk mv cnt mem = F True True cnt mem" for mk mv cnt mem
    by (cases mem; cases mk; cases mv) (simp_all add: F_def Let_def)
  have none: "F mk mv cnt None = Inl Null_deref \<or> F mk mv cnt None = F True True cnt mem" for mk mv cnt mem
    by (simp add: F_def)
  have P: "P m = P True \<or> P m = (fst (P True), None)" for m
    by (cases m) (auto simp: P_def resize_def)
  have e: "config_add_elem (m, mk, mv) klen kbuf vlen vbuf g = (case P m of (cnt, mem) \<Rightarrow> F mk mv cnt mem)" for m mk mv
    by (simp add: config_add_elem_def P_def F_def)
  show ?thesis unfolding fields e using P [of m] F [of mk mv "fst (P True)" "snd (P True)"] none [of mk mv "fst (P True)" "snd (P True)"]
    by (cases "P True") auto
qed

definition doubled :: "nat \<Rightarrow> bool" where
  "doubled n \<longleftrightarrow> n = 0 \<or> (\<exists>k \<le> 23. n = 4 * 2 ^ k)"

lemma next_doubled:
  assumes "doubled (n_count g)"
  shows "next_count g = 2 ^ 26 \<or> next_count g < 2 ^ 26 \<and> doubled (next_count g)"
proof (cases "n_count g = 0")
  case True
  then show ?thesis by (auto simp: next_count_def doubled_def intro: exI [of _ 0])
next
  case False
  then obtain k where k: "k \<le> 23" "n_count g = 4 * 2 ^ k" using assms by (auto simp: doubled_def)
  have "(2::nat) ^ k \<le> 2 ^ 23" using k(1) by (rule power_increasing) simp
  then have le: "n_count g \<le> 2 ^ 25" using k(2) by simp
  show ?thesis
  proof (cases "n_elems g = n_count g - 1")
    case grow: True
    have n: "next_count g = 4 * 2 ^ Suc k" using False grow k(2) by (simp add: next_count_def)
    show ?thesis
    proof (cases "k = 23")
      case True
      then show ?thesis using n by simp
    next
      case less: False
      with k(1) have "Suc k \<le> 23" by simp
      moreover from this have "(2::nat) ^ Suc k \<le> 2 ^ 23" by (rule power_increasing) simp
      ultimately have "doubled (next_count g)" "next_count g < 2 ^ 26" unfolding n doubled_def by (blast, simp)
      then show ?thesis by simp
    qed
  next
    case same: False
    then have "next_count g = n_count g" using False by (simp add: next_count_def)
    then show ?thesis using le assms by simp
  qed
qed

text \<open>At \<open>2 ^ 26\<close> cells the byte count leaves \<open>int\<close> and the allocation is refused.\<close>

lemma add_elem_full:
  assumes "wf_config g vs" "next_count g = 2 ^ 26" "0 < klen"
  shows "config_add_elem ok klen kbuf vlen vbuf g = Inl Null_deref \<or> n_count g = 2 ^ 26"
proof -
  have "elems_size (2 ^ 26) < 0" by (simp add: elems_size_def to_i32_def)
  then have "resize m 67108864 vs' = None" for m vs' by (simp add: resize_def)
  then show ?thesis using assms by (auto simp: config_add_elem_def next_count_def wf_config_def Let_def split: if_splits)
qed

lemma add_elem_any:
  assumes g: "wf_config g vs" "doubled (n_count g)"
    and k: "0 < klen" "klen \<le> length kbuf" and v: "vlen \<le> length vbuf"
  shows "config_add_elem ok klen kbuf vlen vbuf g = Inl Null_deref \<and> (ok \<noteq> (True, True, True) \<or> 2 ^ 24 \<le> length vs)
    \<or> (\<exists>g'. config_add_elem ok klen kbuf vlen vbuf g = Inr g'
        \<and> wf_config g' (vs @ [new_var klen kbuf vlen vbuf]) \<and> doubled (n_count g'))"
proof -
  have small: "config_add_elem ok klen kbuf vlen vbuf g \<noteq> Inl Null_deref" if "ok = (True, True, True)" "length vs < 2 ^ 24"
    using add_elem_ok [OF g(1) that(2) k v] that(1) by auto
  have "n_count g \<noteq> 2 ^ 26"
  proof
    assume "n_count g = 2 ^ 26"
    then obtain j where j: "j \<le> 23" "4 * 2 ^ j = (2::nat) ^ 26" using g(2) by (auto simp: doubled_def)
    have "(2::nat) ^ j \<le> 2 ^ 23" using j(1) by (rule power_increasing) simp
    with j(2) show False by simp
  qed
  then have full: "config_add_elem ok klen kbuf vlen vbuf g = Inl Null_deref" if "next_count g = 2 ^ 26"
    using add_elem_full [OF g(1) that k(1), of ok kbuf vlen vbuf] by simp
  show ?thesis
  proof (cases "config_add_elem ok klen kbuf vlen vbuf g = Inl Null_deref")
    case True
    then show ?thesis using small by fastforce
  next
    case False
    then have "next_count g < 2 ^ 26" "doubled (next_count g)" using full next_doubled [OF g(2)] by auto
    with add_elem_room [OF g(1) this(1) k v] add_elem_refused [of ok klen kbuf vlen vbuf g] False show ?thesis by auto
  qed
qed

subsection \<open>The loop, one character at a time\<close>

declare parse_loop.simps [simp del]
lemmas [simp] = parse_loop.simps(1)

lemma not_space [simp]: "\<not> is_space (CHR ''#'')" "\<not> is_space (CHR ''='')"
  by (simp_all add: is_space_def)

lemma space_ctl [simp]: "is_space CR" "is_space LF"
  by (simp_all add: is_space_def)

lemma parse_space:
  assumes "is_space w" "w \<noteq> LF"
  shows "parse_loop ok (w # cs) s = parse_loop ok cs s"
proof -
  have w: "w \<noteq> CHR ''#''" using assms(1) by (auto simp: is_space_def)
  have "skip_space (w # cs) = skip_space cs" using assms by simp
  then show ?thesis using w
    by (cases cs) (auto simp: parse_loop.simps(2) split: option.splits)
qed

lemma parse_char:
  assumes "\<not> is_space c \<or> c = LF" "c \<noteq> CHR ''#''"
  shows "parse_loop ok (c # cs) s = fbind (config_char ok c s) (parse_loop ok cs)"
  using assms by (auto simp: parse_loop.simps(2) fbind_def)

lemma skip_line_append: "LF \<notin> set l \<Longrightarrow> config_skip_line (l @ LF # r) = Some r"
  by (induction l) auto

lemma parse_comment:
  "LF \<notin> set l \<Longrightarrow> parse_loop ok (CHR ''#'' # l @ LF # r) s = parse_loop ok r s"
  by (simp add: parse_loop.simps(2) skip_line_append)

lemma parse_spaces:
  "\<forall>c \<in> set ws. is_space c \<and> c \<noteq> LF \<Longrightarrow> parse_loop ok (ws @ cs) s = parse_loop ok cs s"
  by (induction ws) (simp_all add: parse_space)

subsection \<open>Lines\<close>

definition key_is :: "parser \<Rightarrow> string \<Rightarrow> bool" where
  "key_is p k \<longleftrightarrow> p_str p = Key \<and> p_klen p = length k \<and> p_kptr p = length k \<and> p_vlen p = 0
    \<and> length (p_name p) = BUFSIZ \<and> length (p_value p) = BUFSIZ \<and> take (length k) (p_name p) = k"

definition val_is :: "parser \<Rightarrow> string \<Rightarrow> string \<Rightarrow> bool" where
  "val_is p k v \<longleftrightarrow> p_str p = Val \<and> p_klen p = length k \<and> p_vlen p = length v \<and> p_vptr p = length v
    \<and> length (p_name p) = BUFSIZ \<and> length (p_value p) = BUFSIZ \<and> take (length k) (p_name p) = k
    \<and> take (length v) (p_value p) = v"

definition strip :: "string \<Rightarrow> string" where
  "strip l = filter (\<lambda>c. \<not> is_space c) l"

definition plain :: "string \<Rightarrow> bool" where
  "plain l \<longleftrightarrow> (\<forall>c \<in> set l. c \<noteq> LF \<and> c \<noteq> CHR ''#'' \<and> c \<noteq> CHR ''='')"

lemma take_update: "i < length b \<Longrightarrow> take i b = k \<Longrightarrow> length k = i \<Longrightarrow> take (Suc i) (b[i := c]) = k @ [c]"
  by (simp add: take_Suc_conv_app_nth)

lemma key_char:
  assumes "key_is p k" "\<not> is_space c" "c \<noteq> CHR ''=''" "length k + 1 < BUFSIZ"
  shows "\<exists>p'. config_char ok c (p, g) = Inr (p', g) \<and> key_is p' (k @ [c])"
proof -
  have "c \<noteq> CR" "c \<noteq> LF" using assms(2) by (auto simp: is_space_def)
  then show ?thesis using assms
    by (auto simp: config_char_def put_char_def key_is_def str_len_def take_update)
qed

lemma val_char:
  assumes "val_is p k v" "\<not> is_space c" "c \<noteq> CHR ''=''" "length v + 1 < BUFSIZ"
  shows "\<exists>p'. config_char ok c (p, g) = Inr (p', g) \<and> val_is p' k (v @ [c])"
proof -
  have "c \<noteq> CR" "c \<noteq> LF" using assms(2) by (auto simp: is_space_def)
  then show ?thesis using assms
    by (auto simp: config_char_def put_char_def val_is_def str_len_def take_update)
qed

lemma key_run:
  assumes "key_is p k" "plain l" "length (k @ strip l) < BUFSIZ"
  shows "\<exists>p'. parse_loop ok (l @ r) (p, g) = parse_loop ok r (p', g) \<and> key_is p' (k @ strip l)"
  using assms
proof (induction l arbitrary: p k)
  case (Cons c l)
  show ?case
  proof (cases "is_space c")
    case True
    with Cons.prems have "key_is p k" "plain l" "length (k @ strip l) < BUFSIZ" "c \<noteq> LF"
      by (auto simp: plain_def strip_def)
    from Cons.IH [OF this(1-3)] this(4) True show ?thesis by (simp add: parse_space strip_def)
  next
    case False
    have "length k + 1 < BUFSIZ" using Cons.prems(3) False by (simp add: strip_def)
    with Cons.prems(1,2) False obtain p1 where p1: "config_char ok c (p, g) = Inr (p1, g)" "key_is p1 (k @ [c])"
      using key_char [of p k c ok g] by (auto simp: plain_def)
    have "plain l" "length ((k @ [c]) @ strip l) < BUFSIZ" using Cons.prems False by (auto simp: plain_def strip_def)
    from Cons.IH [OF p1(2) this] p1(1) False Cons.prems(2) show ?thesis
      by (simp add: parse_char plain_def strip_def)
  qed
qed (auto simp: strip_def)

lemma val_run:
  assumes "val_is p k v" "plain l" "length (v @ strip l) < BUFSIZ"
  shows "\<exists>p'. parse_loop ok (l @ r) (p, g) = parse_loop ok r (p', g) \<and> val_is p' k (v @ strip l)"
  using assms
proof (induction l arbitrary: p v)
  case (Cons c l)
  show ?case
  proof (cases "is_space c")
    case True
    with Cons.prems have "val_is p k v" "plain l" "length (v @ strip l) < BUFSIZ" "c \<noteq> LF"
      by (auto simp: plain_def strip_def)
    from Cons.IH [OF this(1-3)] this(4) True show ?thesis by (simp add: parse_space strip_def)
  next
    case False
    have "length v + 1 < BUFSIZ" using Cons.prems(3) False by (simp add: strip_def)
    with Cons.prems(1,2) False obtain p1 where p1: "config_char ok c (p, g) = Inr (p1, g)" "val_is p1 k (v @ [c])"
      using val_char [of p k v c ok g] by (auto simp: plain_def)
    have "plain l" "length ((v @ [c]) @ strip l) < BUFSIZ" using Cons.prems False by (auto simp: plain_def strip_def)
    from Cons.IH [OF p1(2) this] p1(1) False Cons.prems(2) show ?thesis
      by (simp add: parse_char plain_def strip_def)
  qed
qed (auto simp: strip_def)

text \<open>The lines of an option file: a line to be skipped (blank, or a comment), an assignment, a bare name.\<close>

datatype cline = Skip string | Assign string string | Flag string

fun line_text :: "cline \<Rightarrow> string" where
  "line_text (Skip l) = l"
| "line_text (Assign a b) = a @ ''='' @ b"
| "line_text (Flag a) = a"

fun good_line :: "cline \<Rightarrow> bool" where
  "good_line (Skip l) = (LF \<notin> set l \<and> (case dropWhile is_space l of [] \<Rightarrow> True | c # _ \<Rightarrow> c = CHR ''#''))"
| "good_line (Assign a b) = (plain a \<and> plain b \<and> strip a \<noteq> [] \<and> length a < BUFSIZ \<and> length b < BUFSIZ)"
| "good_line (Flag a) = (plain a \<and> strip a \<noteq> [] \<and> length a < BUFSIZ)"

definition entry_var :: "string \<Rightarrow> string \<Rightarrow> ib_var" where
  "entry_var k v = \<lparr>v_name = Str k, v_value = (if v = [] then Raw else Str v)\<rparr>"

fun line_vars :: "cline \<Rightarrow> ib_var list" where
  "line_vars (Skip l) = []"
| "line_vars (Assign a b) = [entry_var (strip a) (strip b)]"
| "line_vars (Flag a) = [entry_var (strip a) []]"

definition file_text :: "cline list \<Rightarrow> string" where
  "file_text ls = concat (map (\<lambda>l. line_text l @ [LF]) ls)"

definition all_ok :: "nat \<Rightarrow> bool \<times> bool \<times> bool" where
  "all_ok n = (True, True, True)"

lemma strip_length: "length (strip l) \<le> length l"
  by (simp add: strip_def)

lemma line_end:
  assumes w: "wf_config g vs" "length vs < 2 ^ 24" and k: "k \<noteq> []"
    and p: "key_is p k \<and> v = [] \<or> val_is p k v"
  shows "\<exists>p' g'. parse_loop all_ok (LF # r) (p, g) = parse_loop all_ok r (p', g')
    \<and> key_is p' [] \<and> wf_config g' (vs @ [entry_var k v])"
proof -
  have q: "p_klen p = length k" "p_vlen p = length v" "length k \<le> length (p_name p)" "length v \<le> length (p_value p)"
    "take (length k) (p_name p) = k" "take (length v) (p_value p) = v" "length (p_name p) = BUFSIZ" "length (p_value p) = BUFSIZ"
  proof -
    have "take (length k) (p_name p) = k" "take (length v) (p_value p) = v"
      using p by (auto simp: key_is_def val_is_def)
    from this [THEN arg_cong, of length]
    show "length k \<le> length (p_name p)" "length v \<le> length (p_value p)" by simp_all
  qed (use p in \<open>auto simp: key_is_def val_is_def\<close>)
  have "0 < p_klen p" "p_klen p \<le> length (p_name p)" "p_vlen p \<le> length (p_value p)" using q k by auto
  from add_elem_ok [OF w this] obtain g' where g': "config_add_elem (True, True, True) (p_klen p) (p_name p) (p_vlen p) (p_value p) g = Inr g'"
    "wf_config g' (vs @ [entry_var k v])" using q by (cases "v = []") (auto simp: new_var_def entry_var_def)
  let ?p = "p\<lparr>p_klen := 0, p_kptr := 0, p_vlen := 0, p_str := Key\<rparr>"
  have "config_char all_ok LF (p, g) = Inr (?p, g')"
    using g'(1) q k by (simp add: config_char_def end_of_line_def all_ok_def str_len_def BUFSIZ_def)
  moreover have "key_is ?p []" using q by (simp add: key_is_def)
  ultimately show ?thesis using g'(2) by (auto simp: parse_char)
qed

lemma skip_line:
  assumes "good_line (Skip l)" "key_is p []"
  shows "\<exists>p'. parse_loop all_ok (l @ LF # r) (p, g) = parse_loop all_ok r (p', g) \<and> key_is p' []"
proof -
  let ?w = "takeWhile is_space l" and ?d = "dropWhile is_space l"
  have l: "l @ LF # r = ?w @ ?d @ LF # r" by (metis append.assoc takeWhile_dropWhile_id)
  have "\<forall>c \<in> set ?w. is_space c \<and> c \<noteq> LF" using assms(1) by (auto dest: set_takeWhileD)
  then have s: "parse_loop all_ok (l @ LF # r) (p, g) = parse_loop all_ok (?d @ LF # r) (p, g)"
    unfolding l by (rule parse_spaces)
  show ?thesis
  proof (cases ?d)
    case Nil
    let ?p = "p\<lparr>p_klen := 0, p_kptr := 0, p_vlen := 0, p_str := Key\<rparr>"
    have "config_char all_ok LF (p, g) = Inr (?p, g)" using assms(2)
      by (simp add: config_char_def end_of_line_def str_len_def BUFSIZ_def key_is_def)
    moreover have "key_is ?p []" using assms(2) by (simp add: key_is_def)
    ultimately show ?thesis unfolding s Nil by (auto simp: parse_char)
  next
    case (Cons c d)
    have "set ?d \<subseteq> set l" by (rule set_dropWhileD [THEN subsetI])
    with Cons assms(1) have "c = CHR ''#''" "LF \<notin> set d" by auto
    then show ?thesis unfolding s Cons using assms(2) parse_comment [of d] by auto
  qed
qed

lemma assign_line:
  assumes "good_line (Assign a b)" "key_is p []" "wf_config g vs" "length vs < 2 ^ 24"
  shows "\<exists>p' g'. parse_loop all_ok (line_text (Assign a b) @ LF # r) (p, g) = parse_loop all_ok r (p', g')
    \<and> key_is p' [] \<and> wf_config g' (vs @ [entry_var (strip a) (strip b)])"
proof -
  have "length ([] @ strip a) < BUFSIZ" "length ([] @ strip b) < BUFSIZ"
    using assms(1) strip_length [of a] strip_length [of b] by auto
  note len = this
  from assms(1) have pl: "plain a" "plain b" "strip a \<noteq> []" by auto
  from key_run [OF assms(2) pl(1) len(1), of all_ok "CHR ''='' # b @ LF # r" g] obtain p1 where
    p1: "parse_loop all_ok (a @ CHR ''='' # b @ LF # r) (p, g) = parse_loop all_ok (CHR ''='' # b @ LF # r) (p1, g)"
      "key_is p1 (strip a)" by auto
  let ?p = "p1\<lparr>p_str := Val, p_vptr := 0\<rparr>"
  have p2: "val_is ?p (strip a) []" using p1(2) by (simp add: val_is_def key_is_def)
  have "config_char all_ok (CHR ''='') (p1, g) = Inr (?p, g)"
    using p1(2) by (simp add: config_char_def str_len_def key_is_def BUFSIZ_def)
  then have e: "parse_loop all_ok (CHR ''='' # b @ LF # r) (p1, g) = parse_loop all_ok (b @ LF # r) (?p, g)"
    by (simp add: parse_char)
  from val_run [OF p2 pl(2) len(2), of all_ok "LF # r" g] obtain p3 where
    p3: "parse_loop all_ok (b @ LF # r) (?p, g) = parse_loop all_ok (LF # r) (p3, g)" "val_is p3 (strip a) (strip b)" by auto
  have "key_is p3 (strip a) \<and> strip b = [] \<or> val_is p3 (strip a) (strip b)" using p3(2) by blast
  from line_end [OF assms(3,4) pl(3) this, of r] obtain p4 g' where
    "parse_loop all_ok (LF # r) (p3, g) = parse_loop all_ok r (p4, g')" "key_is p4 []"
    "wf_config g' (vs @ [entry_var (strip a) (strip b)])" by blast
  then show ?thesis using p1(1) e p3(1) by auto
qed

lemma flag_line:
  assumes "good_line (Flag a)" "key_is p []" "wf_config g vs" "length vs < 2 ^ 24"
  shows "\<exists>p' g'. parse_loop all_ok (a @ LF # r) (p, g) = parse_loop all_ok r (p', g')
    \<and> key_is p' [] \<and> wf_config g' (vs @ [entry_var (strip a) []])"
proof -
  have len: "length ([] @ strip a) < BUFSIZ" using assms(1) strip_length [of a] by auto
  from assms(1) have pl: "plain a" "strip a \<noteq> []" by auto
  from key_run [OF assms(2) pl(1) len, of all_ok "LF # r" g] obtain p1 where
    p1: "parse_loop all_ok (a @ LF # r) (p, g) = parse_loop all_ok (LF # r) (p1, g)" "key_is p1 (strip a)" by auto
  then have "key_is p1 (strip a) \<and> ([]::string) = [] \<or> val_is p1 (strip a) []" by blast
  from line_end [OF assms(3,4) pl(2) this, of r] p1(1) show ?thesis by auto
qed

lemma lines_ok:
  assumes "\<forall>l \<in> set ls. good_line l" "key_is p []" "wf_config g vs" "length vs + length ls < 2 ^ 24"
  shows "\<exists>p' g'. parse_loop all_ok (file_text ls) (p, g) = Inr (p', g') \<and> key_is p' []
    \<and> wf_config g' (vs @ concat (map line_vars ls))"
  using assms
proof (induction ls arbitrary: p g vs)
  case Nil
  then show ?case by (auto simp: file_text_def)
next
  case (Cons l ls)
  have f: "file_text (l # ls) = line_text l @ LF # file_text ls" by (simp add: file_text_def)
  have "length vs < 2 ^ 24" "good_line l" using Cons.prems by auto
  then obtain p1 g1 where s: "parse_loop all_ok (line_text l @ LF # file_text ls) (p, g) = parse_loop all_ok (file_text ls) (p1, g1)"
    "key_is p1 []" "wf_config g1 (vs @ line_vars l)"
  proof (cases l)
    case (Skip t)
    with that skip_line [of t p "file_text ls" g] Cons.prems show ?thesis by auto
  next
    case (Assign a b)
    with that assign_line [of a b p g vs "file_text ls"] Cons.prems show ?thesis by auto
  next
    case (Flag a)
    with that flag_line [of a p g vs "file_text ls"] Cons.prems show ?thesis by auto
  qed
  have "length (line_vars l) \<le> 1" by (cases l) auto
  then have "length (vs @ line_vars l) + length ls < 2 ^ 24" using Cons.prems(4) by simp
  from Cons.IH [OF _ s(2,3) this] Cons.prems(1) obtain p' g' where
    "parse_loop all_ok (file_text ls) (p1, g1) = Inr (p', g')" "key_is p' []" "wf_config g' ((vs @ line_vars l) @ concat (map line_vars ls))"
    by auto
  then show ?case unfolding f using s(1) by auto
qed

subsection \<open>Printing\<close>

lemma print_vars_ok:
  "\<forall>v \<in> set vs. v_name v \<noteq> Raw \<and> v_value v \<noteq> Raw \<Longrightarrow> print_vars vs = Inr (concat (map (\<lambda>v.
     case (v_name v, v_value v) of (Str n, Str s) \<Rightarrow> print_str n @ ''='' @ print_str s @ [LF] | _ \<Rightarrow> []) vs))"
  by (induction vs) (auto simp: print_var_def split: ib_string.splits)

lemma print_vars_raw: "\<exists>v \<in> set vs. v_value v = Raw \<Longrightarrow> print_vars vs = Inl Indeterminate_value"
proof (induction vs)
  case (Cons v vs)
  show ?case
  proof (cases "v_value v = Raw")
    case False
    then have "\<exists>v \<in> set vs. v_value v = Raw" using Cons.prems by auto
    with Cons.IH False show ?thesis by (auto simp: print_var_def split: ib_string.splits)
  qed (simp add: print_var_def)
qed simp

definition settings :: "cline list \<Rightarrow> (string \<times> string) list" where
  "settings ls = concat (map (\<lambda>l. case l of Skip _ \<Rightarrow> [] | Assign a b \<Rightarrow> [(strip a, strip b)] | Flag a \<Rightarrow> [(strip a, [])]) ls)"

lemma vars_settings: "concat (map line_vars ls) = map (\<lambda>(k, v). entry_var k v) (settings ls)"
proof (induction ls)
  case (Cons l ls)
  then show ?case by (cases l) (simp_all add: settings_def)
qed (simp add: settings_def)

lemma print_str_id: "NUL \<notin> set s \<Longrightarrow> print_str s = s"
  unfolding print_str_def by (induction s) auto

text \<open>C27. An option file of comment lines, blank lines, assignments and bare names, with white space
  anywhere, is read without a fault, whatever the line buffers hold at the start: the settings are the
  assignments in their order, white space removed. When every setting has a value, printing the
  configuration gives one normal line per setting and freeing it succeeds; when a setting has no value,
  printing and freeing both use an indeterminate pointer.\<close>

theorem config_lines:
  assumes ls: "\<forall>l \<in> set ls. good_line l" "length ls < 2 ^ 24" "NUL \<notin> set (file_text ls)"
    and junk: "length (fst junk) = BUFSIZ" "length (snd junk) = BUFSIZ"
  shows "\<exists>g. config_parse_file all_ok junk (Some (file_text ls)) no_config = Inr (0, g)
    \<and> take (n_elems g) (elems g) = map (\<lambda>(k, v). entry_var k v) (settings ls)
    \<and> (if \<forall>(k, v) \<in> set (settings ls). v \<noteq> []
       then config_print g = Inr (concat (map (\<lambda>(k, v). k @ ''='' @ v @ [LF]) (settings ls))) \<and> config_free g = Inr no_config
       else config_print g = Inl Indeterminate_value \<and> config_free g = Inl Indeterminate_value)"
proof -
  let ?p = "\<lparr>p_name = fst junk, p_value = snd junk, p_klen = 0, p_kptr = 0, p_vlen = 0, p_vptr = 0, p_str = Key\<rparr>"
  have "key_is ?p []" using junk by (simp add: key_is_def)
  moreover have "length ([]::ib_var list) + length ls < 2 ^ 24" using ls(2) by simp
  ultimately obtain p' g where r: "parse_loop all_ok (file_text ls) (?p, no_config) = Inr (p', g)" "key_is p' []"
    "wf_config g (concat (map line_vars ls))" using lines_ok [OF ls(1) _ wf_no_config] by fastforce
  let ?vs = "map (\<lambda>(k, v). entry_var k v) (settings ls)"
  have w: "wf_config g ?vs" using r(3) by (simp add: vars_settings)
  then have t: "take (n_elems g) (elems g) = ?vs" "n_elems g \<le> length (elems g)" by (auto simp: wf_config_def)
  have R: "config_parse_file all_ok junk (Some (file_text ls)) no_config = Inr (0, g)"
    using r(1,2) by (simp add: config_parse_file_def str_len_def key_is_def)
  have full: "config_print g = Inr (concat (map (\<lambda>(k, v). k @ ''='' @ v @ [LF]) (settings ls)))
      \<and> config_free g = Inr no_config" if v: "\<forall>(k, v) \<in> set (settings ls). v \<noteq> []"
  proof
    have n: "NUL \<notin> set k" "NUL \<notin> set v" if "(k, v) \<in> set (settings ls)" for k v
    proof -
      from that obtain x where x: "x \<in> set ls" "(k, v) \<in> set (case x of Skip _ \<Rightarrow> [] | Assign a b \<Rightarrow> [(strip a, strip b)] | Flag a \<Rightarrow> [(strip a, [])])"
        by (auto simp: settings_def)
      then have "NUL \<notin> set (line_text x)" using ls(3) unfolding file_text_def by (induction ls) auto
      then show "NUL \<notin> set k" "NUL \<notin> set v" using x(2) by (cases x; auto simp: strip_def)+
    qed
    have *: "\<forall>x \<in> set ?vs. v_name x \<noteq> Raw \<and> v_value x \<noteq> Raw" using v by (auto simp: entry_var_def)
    have "print_vars ?vs = Inr (concat (map (\<lambda>(k, v). k @ ''='' @ v @ [LF]) (settings ls)))"
      unfolding print_vars_ok [OF *] map_map
      by (rule arg_cong [where f = "\<lambda>x. Inr (concat x)"], rule map_cong [OF refl])
        (use v n print_str_id in \<open>auto simp: entry_var_def\<close>)
    then show "config_print g = Inr (concat (map (\<lambda>(k, v). k @ ''='' @ v @ [LF]) (settings ls)))"
      using t by (simp add: config_print_def)
    show "config_free g = Inr no_config" using * t unfolding config_free_def by auto
  qed
  have raw: "config_print g = Inl Indeterminate_value \<and> config_free g = Inl Indeterminate_value"
    if v: "\<not> (\<forall>(k, v) \<in> set (settings ls). v \<noteq> [])"
  proof -
    have *: "\<exists>x \<in> set ?vs. v_value x = Raw" using v by (force simp: entry_var_def)
    then have c: "\<exists>x \<in> set ?vs. v_name x = Raw \<or> v_value x = Raw" by blast
    have "config_free g = Inl Indeterminate_value" unfolding config_free_def t(1) if_P [OF c] using t(2) by simp
    moreover have "config_print g = Inl Indeterminate_value"
      using t print_vars_raw [OF *] by (simp add: config_print_def)
    ultimately show ?thesis by simp
  qed
  show ?thesis
  proof (cases "\<forall>(k, v) \<in> set (settings ls). v \<noteq> []")
    case True
    show ?thesis unfolding if_P [OF True] using R t(1) full [OF True] by blast
  next
    case False
    show ?thesis unfolding if_not_P [OF False] using R t(1) raw [OF False] by blast
  qed
qed

theorem config_lines_witness:
  "\<exists>g. config_parse_file all_ok (replicate BUFSIZ NUL, replicate BUFSIZ NUL)
      (Some (''  # sizes'' @ [LF] @ '' pool = 8'' @ [LF, LF] @ ''mode=fast'' @ [LF])) no_config = Inr (0, g)
    \<and> config_print g = Inr (''pool=8'' @ [LF] @ ''mode=fast'' @ [LF]) \<and> config_free g = Inr no_config"
proof -
  let ?ls = "[Skip ''  # sizes'', Assign '' pool '' '' 8'', Skip [], Assign ''mode'' ''fast'']"
  have good: "\<forall>l \<in> set ?ls. good_line l" "NUL \<notin> set (file_text ?ls)"
    by (simp_all add: plain_def strip_def is_space_def BUFSIZ_def file_text_def)
  have t: "file_text ?ls = ''  # sizes'' @ [LF] @ '' pool = 8'' @ [LF, LF] @ ''mode=fast'' @ [LF]"
    by (simp add: file_text_def)
  have s: "settings ?ls = [(''pool'', ''8''), (''mode'', ''fast'')]"
    by (simp add: settings_def strip_def is_space_def)
  have l: "length ?ls < 2 ^ 24" by simp
  have "length (fst (replicate BUFSIZ NUL, replicate BUFSIZ NUL)) = BUFSIZ"
    "length (snd (replicate BUFSIZ NUL, replicate BUFSIZ NUL)) = BUFSIZ" by simp_all
  from config_lines [OF good(1) l good(2) this] show ?thesis unfolding t s by force
qed

subsection \<open>Any file\<close>

definition safe_parser :: "parser \<Rightarrow> bool" where
  "safe_parser p \<longleftrightarrow> length (p_name p) = BUFSIZ \<and> length (p_value p) = BUFSIZ \<and> p_klen p < BUFSIZ \<and> p_vlen p < BUFSIZ
    \<and> (p_str p = Key \<longrightarrow> p_kptr p \<le> p_klen p) \<and> (p_str p = Val \<longrightarrow> p_vptr p \<le> p_vlen p)"

definition named :: "ib_var list \<Rightarrow> bool" where
  "named vs \<longleftrightarrow> (\<forall>v \<in> set vs. \<exists>s. v_name v = Str s \<and> s \<noteq> [] \<and> length s < BUFSIZ)"

lemma named_snoc:
  "named vs \<Longrightarrow> 0 < klen \<Longrightarrow> klen < BUFSIZ \<Longrightarrow> length kbuf = BUFSIZ \<Longrightarrow> named (vs @ [new_var klen kbuf vlen vbuf])"
  by (auto simp: named_def new_var_def)

text \<open>The state with \<open>n\<close> characters left of a file of \<open>N\<close>.\<close>

definition safe_state :: "nat \<Rightarrow> nat \<Rightarrow> parser \<times> ib_config \<Rightarrow> bool" where
  "safe_state N n = (\<lambda>(p, g). safe_parser p \<and> doubled (n_count g) \<and> (\<exists>vs. wf_config g vs \<and> named vs \<and> length vs + n \<le> N))"

lemma safe_mono: "safe_state N n s \<Longrightarrow> m \<le> n \<Longrightarrow> safe_state N m s"
  by (fastforce simp: safe_state_def)

text \<open>A null pointer is only used when an allocation fails: one the caller's argument refuses, or one of a vector that
  has come to \<open>2 ^ 24\<close> elements.\<close>

definition no_memory :: "(nat \<Rightarrow> bool \<times> bool \<times> bool) \<Rightarrow> nat \<Rightarrow> bool" where
  "no_memory ok N \<longleftrightarrow> (\<exists>i. ok i \<noteq> (True, True, True)) \<or> 2 ^ 24 \<le> N"

lemma add_safe:
  assumes "safe_state N n (p, g)" "0 < p_klen p"
  shows "config_add_elem (ok (n_elems g)) (p_klen p) (p_name p) (p_vlen p) (p_value p) g = Inl Null_deref \<and> no_memory ok N
    \<or> (\<exists>g' vs. config_add_elem (ok (n_elems g)) (p_klen p) (p_name p) (p_vlen p) (p_value p) g = Inr g'
        \<and> wf_config g' vs \<and> named vs \<and> doubled (n_count g') \<and> length vs + n \<le> N + 1)"
proof -
  from assms(1) obtain vs where vs: "wf_config g vs" "named vs" "length vs + n \<le> N" "doubled (n_count g)" and p: "safe_parser p"
    by (auto simp: safe_state_def)
  have k: "p_klen p \<le> length (p_name p)" "p_vlen p \<le> length (p_value p)"
    using p by (auto simp: safe_parser_def)
  have "named (vs @ [new_var (p_klen p) (p_name p) (p_vlen p) (p_value p)])"
    using vs(2) assms(2) p by (intro named_snoc) (auto simp: safe_parser_def)
  moreover have "length (vs @ [new_var (p_klen p) (p_name p) (p_vlen p) (p_value p)]) + n \<le> N + 1" using vs(3) by simp
  moreover have "2 ^ 24 \<le> length vs \<Longrightarrow> no_memory ok N" using vs(3) by (simp add: no_memory_def)
  moreover have "ok i \<noteq> (True, True, True) \<Longrightarrow> no_memory ok N" for i by (auto simp: no_memory_def)
  ultimately show ?thesis using add_elem_any [OF vs(1,4) assms(2) k, of "ok (n_elems g)"] by blast
qed

lemma char_safe:
  assumes s: "safe_state N (Suc n) s"
  shows "config_char ok c s = Inl Assert_failed \<or> config_char ok c s = Inl Null_deref \<and> no_memory ok N \<or> (\<exists>s'. config_char ok c s = Inr s' \<and> safe_state N n s')"
proof -
  obtain p g where e: "s = (p, g)" by (cases s)
  from s e have p: "safe_parser p" by (simp add: safe_state_def)
  have n: "safe_state N n (p, g)" using s e safe_mono by force
  consider "c = CR" | "c = LF" | "c = CHR ''=''" | "c \<noteq> CR" "c \<noteq> LF" "c \<noteq> CHR ''=''" by blast
  then show ?thesis
  proof cases
    case 1
    then show ?thesis using n e p by (auto simp: config_char_def safe_parser_def str_len_def split: target.splits)
  next
    case 2
    let ?p = "p\<lparr>p_klen := 0, p_kptr := 0, p_vlen := 0, p_str := Key\<rparr>"
    have q: "safe_parser ?p" using p by (simp add: safe_parser_def BUFSIZ_def)
    show ?thesis
    proof (cases "0 < p_klen p")
      case True
      from add_safe [OF s [unfolded e] True, of ok] consider
          (null) "config_add_elem (ok (n_elems g)) (p_klen p) (p_name p) (p_vlen p) (p_value p) g = Inl Null_deref" "no_memory ok N"
        | (add) g' vs where "config_add_elem (ok (n_elems g)) (p_klen p) (p_name p) (p_vlen p) (p_value p) g = Inr g'"
          "wf_config g' vs" "named vs" "doubled (n_count g')" "length vs + Suc n \<le> N + 1" by blast
      then show ?thesis
      proof cases
        case null
        then show ?thesis using e 2 True by (simp add: config_char_def end_of_line_def)
      next
        case g': add
        have "config_char ok c s = Inr (?p, g')" using e 2 True g'(1)
          by (simp add: config_char_def end_of_line_def str_len_def BUFSIZ_def)
        moreover have "safe_state N n (?p, g')" using q g'(2-5) by (auto simp: safe_state_def)
        ultimately show ?thesis by blast
      qed
    next
      case False
      have "config_char ok c s = Inr (?p, g)" using e 2 False
        by (simp add: config_char_def end_of_line_def str_len_def BUFSIZ_def)
      moreover have "safe_state N n (?p, g)" using q n by (auto simp: safe_state_def)
      ultimately show ?thesis by blast
    qed
  next
    case 3
    let ?p = "p\<lparr>p_str := Val, p_vptr := 0\<rparr>"
    have "config_char ok c s = Inr (?p, g)" using e 3 p
      by (simp add: config_char_def str_len_def safe_parser_def)
    moreover have "safe_state N n (?p, g)" using n p by (auto simp: safe_state_def safe_parser_def)
    ultimately show ?thesis by blast
  next
    case 4
    obtain p' where p': "put_char c p = Inr p'" "str_len p' < BUFSIZ \<longrightarrow> safe_parser p'"
      using p by (cases "p_str p") (auto simp: put_char_def safe_parser_def str_len_def)
    have "config_char ok c s = (if str_len p' < BUFSIZ then Inr (p', g) else Inl Assert_failed)"
      using e 4 p'(1) by (simp add: config_char_def)
    moreover have "safe_state N n (p', g)" if "str_len p' < BUFSIZ" using n that p'(2) by (auto simp: safe_state_def)
    ultimately show ?thesis by auto
  qed
qed

lemma loop_safe:
  "safe_state N (length cs) s \<Longrightarrow> parse_loop ok cs s = Inl Assert_failed
     \<or> parse_loop ok cs s = Inl Null_deref \<and> no_memory ok N \<or> (\<exists>s'. parse_loop ok cs s = Inr s' \<and> safe_state N 0 s')"
proof (induction "length cs" arbitrary: cs s rule: less_induct)
  case less
  have skip: ?case if "config_skip_line ds = Some r" "parse_loop ok cs s = parse_loop ok r s" "length ds \<le> length cs" for ds r
  proof -
    have "length r < length cs" using config_skip_line_length [OF that(1)] that(3) by simp
    moreover from this have "safe_state N (length r) s" using less.prems safe_mono by (meson less_imp_le)
    ultimately show ?thesis using less.hyps that(2) by simp
  qed
  have stop: ?case if "parse_loop ok cs s = Inr s" using that less.prems safe_mono by blast
  show ?case
  proof (cases cs)
    case Nil
    then show ?thesis using stop by simp
  next
    case (Cons c ds)
    show ?thesis
    proof (cases "c = CHR ''#''")
      case True
      then show ?thesis using skip [of ds] stop Cons
        by (cases "config_skip_line ds") (simp_all add: parse_loop.simps(2))
    next
      case F: False
      show ?thesis
      proof (cases "skip_space cs")
        case None
        then show ?thesis using stop Cons F by (simp add: parse_loop.simps(2))
      next
        case (Some dd)
        obtain d es where dd: "dd = (d, es)" by (cases dd)
        have len: "length es < length cs" using Some dd skip_space_length by blast
        show ?thesis
        proof (cases "d = CHR ''#''")
          case True
          then show ?thesis using skip [of es] stop Cons F Some dd len
            by (cases "config_skip_line es") (simp_all add: parse_loop.simps(2))
        next
          case False
          have l: "parse_loop ok cs s = fbind (config_char ok d s) (parse_loop ok es)"
            using Cons F Some dd False by (simp add: parse_loop.simps(2) fbind_def)
          have "safe_state N (Suc (length es)) s" using less.prems len safe_mono by (meson Suc_leI)
          from char_safe [OF this, of ok d] consider "config_char ok d s = Inl Assert_failed"
            | "config_char ok d s = Inl Null_deref" "no_memory ok N"
            | s' where "config_char ok d s = Inr s'" "safe_state N (length es) s'" by blast
          then show ?thesis
          proof cases
            case (3 s')
            from less.hyps [OF len 3(2)] show ?thesis using l 3(1) by simp
          qed (use l in simp_all)
        qed
      qed
    qed
  qed
qed

text \<open>C28. Whatever the file holds, however long it is and whichever allocations fail, reading it never writes outside the two
  line buffers or the vector. It fails in two ways only: by an assertion (a key or a value of 8192 characters, or a value without
  a key on an unterminated last line), or by using the null pointer of an allocation that failed, which no call looks at; with memory, the
  second takes a file of at least \<open>2 ^ 24\<close> characters, whose vector can come to a byte count that leaves \<open>int\<close>. Otherwise every
  element of the vector has a name, and a file that cannot be opened leaves the vector as it is.\<close>

theorem config_no_overflow:
  assumes "length (fst junk) = BUFSIZ" "length (snd junk) = BUFSIZ"
  shows "(config_parse_file ok junk (Some file) no_config = Inl Assert_failed
    \<or> config_parse_file ok junk (Some file) no_config = Inl Null_deref
        \<and> ((\<exists>i. ok i \<noteq> (True, True, True)) \<or> 2 ^ 24 \<le> length file)
    \<or> (\<exists>g. config_parse_file ok junk (Some file) no_config = Inr (0, g) \<and> n_elems g \<le> length (elems g)
         \<and> (\<forall>v \<in> set (take (n_elems g) (elems g)). \<exists>s. v_name v = Str s \<and> s \<noteq> [] \<and> length s < BUFSIZ)))
    \<and> config_parse_file ok junk None g0 = Inr (- 1, g0)"
    (is "(?assert \<or> ?null \<or> ?good) \<and> ?unread")
proof
  let ?p = "\<lparr>p_name = fst junk, p_value = snd junk, p_klen = 0, p_kptr = 0, p_vlen = 0, p_vptr = 0, p_str = Key\<rparr>"
  let ?add = "\<lambda>p g. config_add_elem (ok (n_elems g)) (p_klen p) (p_name p) (p_vlen p) (p_value p) g"
  have fin: "n_elems g \<le> length (elems g) \<and> (\<forall>v \<in> set (take (n_elems g) (elems g)). \<exists>s. v_name v = Str s \<and> s \<noteq> [] \<and> length s < BUFSIZ)"
    if "wf_config g vs" "named vs" for g vs using that by (auto simp: wf_config_def named_def)
  have "safe_parser ?p" using assms by (simp add: safe_parser_def BUFSIZ_def)
  moreover have "named []" "doubled (n_count no_config)" by (simp_all add: named_def doubled_def no_config_def)
  ultimately have "safe_state (length file) (length file) (?p, no_config)"
    by (auto simp: safe_state_def intro!: exI [of _ "[]"])
  from loop_safe [OF this, of ok] consider (bad) "parse_loop ok file (?p, no_config) = Inl Assert_failed"
    | (null) "parse_loop ok file (?p, no_config) = Inl Null_deref" "no_memory ok (length file)"
    | (read) p g where "parse_loop ok file (?p, no_config) = Inr (p, g)" "safe_state (length file) 0 (p, g)" by (auto simp: split_paired_Ex)
  then show "?assert \<or> ?null \<or> ?good"
  proof cases
    case read
    from read(2) obtain vs where vs: "wf_config g vs" "named vs" by (auto simp: safe_state_def)
    consider (no_str) "\<not> 0 < str_len p" | (no_key) "0 < str_len p" "\<not> 0 < p_klen p" | (key) "0 < str_len p" "0 < p_klen p" by blast
    then show ?thesis
    proof cases
      case no_str
      then show ?thesis using fin vs read(1) by (auto simp: config_parse_file_def)
    next
      case no_key
      have "?add p g = Inl Assert_failed" using no_key(2) vs(1) by (cases "ok (n_elems g)") (auto simp: config_add_elem_def Let_def)
      then show ?thesis using no_key(1) read(1) by (simp add: config_parse_file_def)
    next
      case key
      from add_safe [OF read(2) key(2), of ok] consider "?add p g = Inl Null_deref" "no_memory ok (length file)"
        | g' vs where "?add p g = Inr g'" "wf_config g' vs" "named vs" by blast
      then show ?thesis
        by cases (use fin key(1) read(1) in \<open>auto simp: config_parse_file_def no_memory_def\<close>)
    qed
  qed (auto simp: config_parse_file_def no_memory_def)
  show ?unread by (simp add: config_parse_file_def)
qed

theorem config_no_overflow_witness:
  "config_parse_file all_ok (replicate BUFSIZ NUL, replicate BUFSIZ NUL) (Some ''a=b=#c'') no_config = Inl Assert_failed
    \<or> (\<exists>g. config_parse_file all_ok (replicate BUFSIZ NUL, replicate BUFSIZ NUL) (Some ''a=b=#c'') no_config = Inr (0, g)
         \<and> n_elems g \<le> length (elems g)
         \<and> (\<forall>v \<in> set (take (n_elems g) (elems g)). \<exists>s. v_name v = Str s \<and> s \<noteq> [] \<and> length s < BUFSIZ))"
  using config_no_overflow [of "(replicate BUFSIZ NUL, replicate BUFSIZ NUL)" all_ok "''a=b=#c''"] by (auto simp: all_ok_def)

text \<open>A comment behind an assignment takes the line end with it: the next line continues the value, and its
  \<open>=\<close> moves the pointer back without the count, so that the value ends in what the buffer held before.\<close>

lemma config_comment_joins_lines:
  assumes "length nbuf = BUFSIZ" "length vbuf = BUFSIZ"
  shows "\<exists>g. config_parse_file all_ok (nbuf, vbuf) (Some (''a=1 # c'' @ [LF] @ ''b=2'' @ [LF])) no_config = Inr (0, g)
    \<and> take (n_elems g) (elems g) = [\<lparr>v_name = Str ''a'', v_value = Str [CHR ''2'', CHR ''b'', vbuf ! 2]\<rparr>]"
proof -
  obtain x nb where n: "nbuf = x # nb" using assms(1) by (cases nbuf) (auto simp: BUFSIZ_def)
  have "Suc (Suc (Suc 0)) \<le> length vbuf" using assms(2) by (simp add: BUFSIZ_def)
  then obtain y z u vb where v: "vbuf = y # z # u # vb" by (auto simp: Suc_le_length_iff)
  let ?file = "CHR ''a'' # CHR ''='' # CHR ''1'' # CHR '' '' # CHR ''#'' # '' c'' @ LF # CHR ''b'' # CHR ''='' # CHR ''2'' # [LF]"
  have B: "Suc (Suc (Suc 0)) < BUFSIZ" "Suc (Suc 0) < BUFSIZ" "Suc 0 < BUFSIZ" "0 < BUFSIZ" by (simp_all add: BUFSIZ_def)
  have s: "\<not> is_space (CHR ''a'')" "\<not> is_space (CHR ''b'')" "\<not> is_space (CHR ''1'')" "\<not> is_space (CHR ''2'')" "is_space (CHR '' '')"
    by (simp_all add: is_space_def)
  have "resize True 4 [] = Some (replicate 4 raw_var)" by (simp add: resize_ok)
  then have r: "resize True 4 [] = Some [raw_var, raw_var, raw_var, raw_var]" by (simp add: numeral_eq_Suc)
  have f: "''a=1 # c'' @ [LF] @ ''b=2'' @ [LF] = ?file" by simp
  have c: "parse_loop all_ok (CHR ''#'' # '' c'' @ LF # ds) s = parse_loop all_ok ds s" for ds s
    by (rule parse_comment) simp
  show ?thesis unfolding n v f config_parse_file_def
    by (simp add: parse_char parse_space c s B config_char_def put_char_def str_len_def end_of_line_def
      config_add_elem_def all_ok_def no_config_def r raw_var_def del: append_Cons)
qed

text \<open>The last line of a file without a line end loses a name that is followed by \<open>=\<close> only.\<close>

lemma config_last_line_lost:
  assumes "length nbuf = BUFSIZ"
  shows "config_parse_file all_ok (nbuf, vbuf) (Some ''a='') no_config = Inr (0, no_config)"
proof -
  obtain x nb where n: "nbuf = x # nb" using assms by (cases nbuf) (auto simp: BUFSIZ_def)
  show ?thesis unfolding n
    by (simp add: config_parse_file_def parse_loop.simps config_char_def put_char_def str_len_def is_space_def BUFSIZ_def)
qed

end
