(* ===== verification/InnoTuple.thy ===== *)
theory InnoTuple
  imports Prelude
begin

section \<open>Tuples and options of dump_innodb (dump_innodb/test0aux.c, dump_innodb.c)\<close>

text \<open>
  The printer of tuples, the options, the table dump. The storage engine is not part of the repository: what
  the code asks it is the record \<open>api\<close> (tuples) and a function from calls to error codes, arguments
  of the definitions. Errors and column types are the enumerators the code names.
\<close>

subsection \<open>The engine as the code sees it\<close>

datatype ib_err = DB_SUCCESS | DB_ERROR | DB_READONLY | Other_err nat

datatype col_type = IB_SYS | IB_INT | IB_FLOAT | IB_DOUBLE | IB_CHAR | IB_BLOB | IB_DECIMAL | IB_VARCHAR | Other_type

record col_meta =
  cm_type :: col_type
  cm_attr :: "32 word"
  cm_len :: nat

record ('t, 'f) api =
  ib_unsigned :: "32 word"
  ib_sql_null :: nat
  col_get_meta :: "'t \<Rightarrow> int \<Rightarrow> nat \<times> col_meta"
  col_copy_value :: "'t \<Rightarrow> int \<Rightarrow> nat \<Rightarrow> byte list"
  col_get_value :: "'t \<Rightarrow> int \<Rightarrow> string"
  read_u8 :: "'t \<Rightarrow> int \<Rightarrow> (8 word) option"
  read_i8 :: "'t \<Rightarrow> int \<Rightarrow> (8 word) option"
  read_u16 :: "'t \<Rightarrow> int \<Rightarrow> (16 word) option"
  read_i16 :: "'t \<Rightarrow> int \<Rightarrow> (16 word) option"
  read_u32 :: "'t \<Rightarrow> int \<Rightarrow> (32 word) option"
  read_i32 :: "'t \<Rightarrow> int \<Rightarrow> (32 word) option"
  read_u64 :: "'t \<Rightarrow> int \<Rightarrow> (64 word) option"
  read_i64 :: "'t \<Rightarrow> int \<Rightarrow> (64 word) option"
  read_float :: "'t \<Rightarrow> int \<Rightarrow> 'f option"
  read_double :: "'t \<Rightarrow> int \<Rightarrow> 'f option"
  show_float :: "'f \<Rightarrow> string"

datatype api_call =
    Ib_init
  | Cfg_text string string
  | Cfg_int string int
  | Cfg_ptr string string
  | Cfg_on string
  | Cfg_off string
  | Ib_startup string
  | Open_table string
  | Cursor_close
  | Trx_commit
  | Shutdown
  | Schema_lock
  | Table_drop string

subsection \<open>Integers in a tuple\<close>

definition col_unsigned :: "('t, 'f) api \<Rightarrow> col_meta \<Rightarrow> bool" where
  "col_unsigned A m \<longleftrightarrow> cm_attr m AND ib_unsigned A \<noteq> 0"

text \<open>For the 4-byte column the two arms of the conditional have the types \<open>unsigned int\<close> and \<open>int\<close>:
  the result is \<open>unsigned int\<close> in both.\<close>

definition read_int_from_tuple :: "('t, 'f) api \<Rightarrow> 't \<Rightarrow> col_meta \<Rightarrow> int \<Rightarrow> (64 word) res" where
  "read_int_from_tuple A tpl m i =
     (if cm_len m = 1 then let v = (le_word (col_copy_value A tpl i 1) :: 8 word) in
        Inr (if col_unsigned A m then ucast v else scast v)
      else if cm_len m = 2 then let v = (le_word (col_copy_value A tpl i 2) :: 16 word) in
        Inr (if col_unsigned A m then ucast v else scast v)
      else if cm_len m = 4 then let v = (le_word (col_copy_value A tpl i 4) :: 32 word) in
        Inr (ucast (if col_unsigned A m then v else (scast v :: 32 word)))
      else if cm_len m = 8 then Inr (le_word (col_copy_value A tpl i 8))
      else Inl Assert_failed)"

definition checked :: "('w \<Rightarrow> string) \<Rightarrow> 'w option \<Rightarrow> string res" where
  "checked f r = (case r of None \<Rightarrow> Inl Assert_failed | Some v \<Rightarrow> Inr (f v))"

definition print_int_col :: "('t, 'f) api \<Rightarrow> 't \<Rightarrow> int \<Rightarrow> col_meta \<Rightarrow> string res" where
  "print_int_col A tpl i m =
     (if cm_len m = 1 then
        if col_unsigned A m then checked (\<lambda>v. show_nat (unat v)) (read_u8 A tpl i)
        else checked (\<lambda>v. show_int (sint v)) (read_i8 A tpl i)
      else if cm_len m = 2 then
        if col_unsigned A m then checked (\<lambda>v. show_nat (unat v)) (read_u16 A tpl i)
        else checked (\<lambda>v. show_int (sint v)) (read_i16 A tpl i)
      else if cm_len m = 4 then
        if col_unsigned A m then checked (\<lambda>v. show_nat (unat v)) (read_u32 A tpl i)
        else checked (\<lambda>v. show_int (sint v)) (read_i32 A tpl i)
      else if cm_len m = 8 then
        if col_unsigned A m then checked (\<lambda>v. show_nat (unat v)) (read_u64 A tpl i)
        else checked (\<lambda>v. show_int (sint v)) (read_i64 A tpl i)
      else Inl Assert_failed)"

subsection \<open>Tuples\<close>

definition print_char_array :: "string \<Rightarrow> int \<Rightarrow> string res" where
  "print_char_array a len = (if len \<le> int (length a) then Inr (take (nat len) a) else Inl Out_of_bounds)"

definition print_col :: "('t, 'f) api \<Rightarrow> 't \<Rightarrow> int \<Rightarrow> string res" where
  "print_col A tpl i = (case col_get_meta A tpl i of (data_len, m) \<Rightarrow>
     if cm_type m = IB_SYS then Inr []
     else if data_len = ib_sql_null A then Inr ''|''
     else fmap (\<lambda>s. s @ ''|'') (case cm_type m of
         IB_INT \<Rightarrow> print_int_col A tpl i m
       | IB_FLOAT \<Rightarrow> checked (show_float A) (read_float A tpl i)
       | IB_DOUBLE \<Rightarrow> checked (show_float A) (read_double A tpl i)
       | IB_CHAR \<Rightarrow> fmap (\<lambda>s. show_int (to_i32 (int data_len)) @ '':'' @ s) (print_char_array (col_get_value A tpl i) (to_i32 (int data_len)))
       | IB_BLOB \<Rightarrow> fmap (\<lambda>s. show_int (to_i32 (int data_len)) @ '':'' @ s) (print_char_array (col_get_value A tpl i) (to_i32 (int data_len)))
       | IB_DECIMAL \<Rightarrow> fmap (\<lambda>s. show_int (to_i32 (int data_len)) @ '':'' @ s) (print_char_array (col_get_value A tpl i) (to_i32 (int data_len)))
       | IB_VARCHAR \<Rightarrow> fmap (\<lambda>s. show_int (to_i32 (int data_len)) @ '':'' @ s) (print_char_array (col_get_value A tpl i) (to_i32 (int data_len)))
       | _ \<Rightarrow> Inl Assert_failed))"

fun print_cols :: "('t, 'f) api \<Rightarrow> 't \<Rightarrow> int \<Rightarrow> nat \<Rightarrow> string res" where
  "print_cols A tpl i 0 = Inr []"
| "print_cols A tpl i (Suc n) = fbind (print_col A tpl i) (\<lambda>s. fmap ((@) s) (print_cols A tpl (i + 1) n))"

text \<open>The number of columns is set to 1 after it was asked.\<close>

definition print_tuple :: "('t, 'f) api \<Rightarrow> 't \<Rightarrow> string res" where
  "print_tuple A tpl = fmap (\<lambda>s. s @ [LF]) (print_cols A tpl 0 1)"

subsection \<open>The dump (dump_innodb.c)\<close>

text \<open>The cursor: whether it stands on a row, and for each row the tuple after \<open>ib_cursor_read_row\<close> (whose
  own answer is not looked at) and whether \<open>ib_cursor_next\<close> succeeds. \<open>None\<close>: the answers given
  are used up and the loop goes on.\<close>

fun dump_rows :: "('t, 'f) api \<Rightarrow> bool \<Rightarrow> ('t \<times> bool) list \<Rightarrow> string option res" where
  "dump_rows A False rows = Inr (Some [])"
| "dump_rows A True [] = Inr None"
| "dump_rows A True ((t, nx) # rows) =
     fbind (print_tuple A t) (\<lambda>s. fmap (map_option ((@) s)) (dump_rows A nx rows))"

text \<open>A sequence of calls that ends at the first failure.\<close>

fun try_calls :: "(api_call \<Rightarrow> ib_err) \<Rightarrow> api_call list \<Rightarrow> ib_err" where
  "try_calls ans [] = DB_SUCCESS"
| "try_calls ans (c # cs) = (if ans c = DB_SUCCESS then try_calls ans cs else ans c)"

definition dump_setup :: "api_call list" where
  "dump_setup = [Ib_init, Cfg_int ''log_buffer_size'' (8 * 1024 * 1024), Cfg_int ''force_recovery'' 1,
     Cfg_int ''log_file_size'' (128 * 1024 * 1024), Cfg_int ''log_files_in_group'' 3,
     Cfg_text ''log_group_home_dir'' ''./'', Cfg_text ''data_home_dir'' ''./'',
     Cfg_text ''data_file_path'' ''ibdata1:500M:autoextend'', Cfg_on ''file_per_table'', Ib_startup ''Antelope'']"

datatype exit_status = Status int | Err_status ib_err

text \<open>\<open>main\<close>: its exit status and its output. \<open>txt\<close> is \<open>ib_strerror\<close>, \<open>trx\<close> and \<open>tp\<close> tell
  whether a transaction and a tuple could be made.\<close>

definition dump_main :: "('t, 'f) api \<Rightarrow> (api_call \<Rightarrow> ib_err) \<Rightarrow> (ib_err \<Rightarrow> string) \<Rightarrow> bool \<Rightarrow> bool \<Rightarrow> bool \<Rightarrow> ('t \<times> bool) list
    \<Rightarrow> string list \<Rightarrow> (exit_status \<times> string) option res" where
  "dump_main A ans txt trx tp first rows argv =
     (if length argv \<noteq> 2 then Inr (Some (Status 1, ''give me a database'' @ [CHR 0x09] @ ''able name'' @ [LF]))
      else
        let fail = (\<lambda>out e. Inr (Some (Err_status e, out @ txt e @ [LF]))) in
        if try_calls ans dump_setup \<noteq> DB_SUCCESS then fail [] (try_calls ans dump_setup)
        else if \<not> trx then Inl Assert_failed
        else if ans (Open_table (argv ! 1)) \<noteq> DB_SUCCESS then fail [] (ans (Open_table (argv ! 1)))
        else if \<not> tp then Inl Assert_failed
        else fbind (dump_rows A first rows) (\<lambda>r. case r of
            None \<Rightarrow> Inr None
          | Some out \<Rightarrow>
              if try_calls ans [Cursor_close, Trx_commit, Shutdown] \<noteq> DB_SUCCESS
              then fail out (try_calls ans [Cursor_close, Trx_commit, Shutdown])
              else Inr (Some (Status 0, out))))"

subsection \<open>Dropping a table\<close>

definition drop_table :: "nat \<Rightarrow> (api_call \<Rightarrow> ib_err) \<Rightarrow> bool \<Rightarrow> string \<Rightarrow> string \<Rightarrow> string \<Rightarrow> ib_err res" where
  "drop_table max_len ans trx buf dbname name =
     fbind (c_str (c_snprintf max_len (dbname @ ''/'' @ name) buf)) (\<lambda>table_name.
     if \<not> trx then Inl Assert_failed
     else if ans Schema_lock \<noteq> DB_SUCCESS then Inl Assert_failed
     else if ans (Table_drop table_name) \<noteq> DB_SUCCESS then Inl Assert_failed
     else if ans Trx_commit \<noteq> DB_SUCCESS then Inl Assert_failed
     else Inr (ans Trx_commit))"

subsection \<open>What the engine promises\<close>

text \<open>The typed readers give the bytes of the column.\<close>

definition int_reader :: "('t, 'f) api \<Rightarrow> 't \<Rightarrow> int \<Rightarrow> bool" where
  "int_reader A t i \<longleftrightarrow>
     read_u8 A t i = Some (le_word (col_copy_value A t i 1)) \<and> read_i8 A t i = Some (le_word (col_copy_value A t i 1))
   \<and> read_u16 A t i = Some (le_word (col_copy_value A t i 2)) \<and> read_i16 A t i = Some (le_word (col_copy_value A t i 2))
   \<and> read_u32 A t i = Some (le_word (col_copy_value A t i 4)) \<and> read_i32 A t i = Some (le_word (col_copy_value A t i 4))
   \<and> read_u64 A t i = Some (le_word (col_copy_value A t i 8)) \<and> read_i64 A t i = Some (le_word (col_copy_value A t i 8))"

text \<open>The number stored in \<open>n\<close> bytes.\<close>

definition int_value :: "bool \<Rightarrow> nat \<Rightarrow> byte list \<Rightarrow> int" where
  "int_value u n bs =
     (if n = 1 then (if u then uint else sint) (le_word bs :: 8 word)
      else if n = 2 then (if u then uint else sint) (le_word bs :: 16 word)
      else if n = 4 then (if u then uint else sint) (le_word bs :: 32 word)
      else (if u then uint else sint) (le_word bs :: 64 word))"

lemma show_uint: "show_int (uint w) = show_nat (unat w)"
  by (simp add: show_int_def)

lemma print_int_value:
  assumes "int_reader A t i" "cm_len m = 1 \<or> cm_len m = 2 \<or> cm_len m = 4 \<or> cm_len m = 8"
  shows "print_int_col A t i m = Inr (show_int (int_value (col_unsigned A m) (cm_len m) (col_copy_value A t i (cm_len m))))"
  using assms by (elim disjE) (simp_all add: print_int_col_def int_reader_def int_value_def checked_def show_uint)

lemma cast_64:
  "uint (ucast (v :: 8 word) :: 64 word) = uint v" "sint (scast v :: 64 word) = sint v"
  "uint (ucast (x :: 16 word) :: 64 word) = uint x" "sint (scast x :: 64 word) = sint x"
  "uint (ucast (y :: 32 word) :: 64 word) = uint y" "scast y = y"
  by (simp_all add: uint_up_ucast sint_up_scast is_up)

lemma uint_sint_32: "uint (w :: 32 word) = sint w mod 2 ^ 32"
  by (simp add: uint_sint take_bit_eq_mod)

text \<open>The reader and the printer of integer columns agree: on the widths 1, 2 and 8, and on unsigned
  columns, the printed text is the number returned; on a signed column of 4 bytes the returned number is the
  printed one modulo 2^32 (the sign is lost). On any other width both fail their assertion.\<close>

theorem int_columns:
  assumes "int_reader A t i"
  shows "if cm_len m = 1 \<or> cm_len m = 2 \<or> cm_len m = 4 \<or> cm_len m = 8
    then \<exists>r v. read_int_from_tuple A t m i = Inr r \<and> print_int_col A t i m = Inr (show_int v)
      \<and> v = int_value (col_unsigned A m) (cm_len m) (col_copy_value A t i (cm_len m))
      \<and> (if col_unsigned A m then uint r = v else if cm_len m = 4 then uint r = v mod 2 ^ 32 else sint r = v)
    else read_int_from_tuple A t m i = Inl Assert_failed \<and> print_int_col A t i m = Inl Assert_failed"
proof (cases "cm_len m = 1 \<or> cm_len m = 2 \<or> cm_len m = 4 \<or> cm_len m = 8")
  case True
  let ?v = "int_value (col_unsigned A m) (cm_len m) (col_copy_value A t i (cm_len m))"
  have "\<exists>r. read_int_from_tuple A t m i = Inr r
    \<and> (if col_unsigned A m then uint r = ?v else if cm_len m = 4 then uint r = ?v mod 2 ^ 32 else sint r = ?v)"
    using True
  proof (elim disjE)
    assume "cm_len m = 4"
    then show ?thesis using uint_sint_32 by (cases "col_unsigned A m") (simp_all add: read_int_from_tuple_def int_value_def cast_64)
  qed (cases "col_unsigned A m"; simp add: read_int_from_tuple_def int_value_def cast_64 Let_def)+
  then show ?thesis unfolding if_P [OF True] using print_int_value [OF assms True] by blast
next
  case False
  then show ?thesis by (simp add: read_int_from_tuple_def print_int_col_def)
qed

text \<open>A tuple of one column as its description and its bytes.\<close>

definition bytes_api :: "(col_meta \<times> byte list, unit) api" where
  "bytes_api = \<lparr>ib_unsigned = 2, ib_sql_null = 2 ^ 32 - 1, col_get_meta = (\<lambda>t i. (length (snd t), fst t)),
     col_copy_value = (\<lambda>t i n. take n (snd t)), col_get_value = (\<lambda>t i. map (\<lambda>b. char_of (unat b)) (snd t)),
     read_u8 = (\<lambda>t i. Some (le_word (take 1 (snd t)))), read_i8 = (\<lambda>t i. Some (le_word (take 1 (snd t)))),
     read_u16 = (\<lambda>t i. Some (le_word (take 2 (snd t)))), read_i16 = (\<lambda>t i. Some (le_word (take 2 (snd t)))),
     read_u32 = (\<lambda>t i. Some (le_word (take 4 (snd t)))), read_i32 = (\<lambda>t i. Some (le_word (take 4 (snd t)))),
     read_u64 = (\<lambda>t i. Some (le_word (take 8 (snd t)))), read_i64 = (\<lambda>t i. Some (le_word (take 8 (snd t)))),
     read_float = (\<lambda>t i. None), read_double = (\<lambda>t i. None), show_float = (\<lambda>_. [])\<rparr>"

lemma bytes_reader: "int_reader bytes_api t i"
  by (simp add: int_reader_def bytes_api_def)

theorem int_columns_witness:
  "\<exists>r. read_int_from_tuple bytes_api (\<lparr>cm_type = IB_INT, cm_attr = 0, cm_len = 4\<rparr>, [255, 255, 255, 255])
        \<lparr>cm_type = IB_INT, cm_attr = 0, cm_len = 4\<rparr> 0 = Inr r
    \<and> print_int_col bytes_api (\<lparr>cm_type = IB_INT, cm_attr = 0, cm_len = 4\<rparr>, [255, 255, 255, 255]) 0
        \<lparr>cm_type = IB_INT, cm_attr = 0, cm_len = 4\<rparr> = Inr ''-1'' \<and> uint r = 2 ^ 32 - 1"
proof -
  let ?m = "\<lparr>cm_type = IB_INT, cm_attr = 0, cm_len = 4\<rparr>" and ?b = "[255, 255, 255, 255] :: byte list"
  have "int_value False 4 ?b = - 1" by (simp add: int_value_def)
  moreover have "\<not> col_unsigned bytes_api ?m" "col_copy_value bytes_api (?m, ?b) 0 4 = ?b"
    by (simp_all add: col_unsigned_def bytes_api_def)
  moreover have "show_int (- 1) = ''-1''" by (simp add: show_int_def show_nat.simps digit_char_def char_of_def bit_0)
  ultimately show ?thesis using int_columns [OF bytes_reader, of ?m "(?m, ?b)" 0] by auto
qed

subsection \<open>The dump\<close>

text \<open>What a row shows: its first column only.\<close>

datatype cell = System | Null | Number int | Text string

fun cell_line :: "cell \<Rightarrow> string" where
  "cell_line System = [LF]"
| "cell_line Null = ''|'' @ [LF]"
| "cell_line (Number v) = show_int v @ ''|'' @ [LF]"
| "cell_line (Text s) = show_nat (length s) @ '':'' @ s @ ''|'' @ [LF]"

fun has_cell :: "('t, 'f) api \<Rightarrow> 't \<Rightarrow> cell \<Rightarrow> bool" where
  "has_cell A t System = (cm_type (snd (col_get_meta A t 0)) = IB_SYS)"
| "has_cell A t Null = (cm_type (snd (col_get_meta A t 0)) \<noteq> IB_SYS \<and> fst (col_get_meta A t 0) = ib_sql_null A)"
| "has_cell A t (Number v) = (case col_get_meta A t 0 of (n, m) \<Rightarrow> cm_type m = IB_INT \<and> n \<noteq> ib_sql_null A \<and> int_reader A t 0
     \<and> (cm_len m = 1 \<or> cm_len m = 2 \<or> cm_len m = 4 \<or> cm_len m = 8)
     \<and> v = int_value (col_unsigned A m) (cm_len m) (col_copy_value A t 0 (cm_len m)))"
| "has_cell A t (Text s) = (case col_get_meta A t 0 of (n, m) \<Rightarrow>
     (cm_type m = IB_CHAR \<or> cm_type m = IB_BLOB \<or> cm_type m = IB_DECIMAL \<or> cm_type m = IB_VARCHAR)
     \<and> n \<noteq> ib_sql_null A \<and> n = length s \<and> n < 2 ^ 31 \<and> take n (col_get_value A t 0) = s)"

lemma print_tuple_cell:
  assumes "has_cell A t c"
  shows "print_tuple A t = Inr (cell_line c)"
proof -
  obtain n m where nm: "col_get_meta A t 0 = (n, m)" by (cases "col_get_meta A t 0")
  show ?thesis
  proof (cases c)
    case (Text s)
    then have s: "n = length s" "n < 2 ^ 31" "n \<noteq> ib_sql_null A" "take n (col_get_value A t 0) = s"
      using assms nm by auto
    from arg_cong [OF s(4), of length] s(1) have "length s \<le> length (col_get_value A t 0)" by simp
    note s this
    moreover from this have "to_i32 (int n) = int n" by (intro to_i32_small) auto
    ultimately show ?thesis using assms nm Text
      by (auto simp: print_tuple_def print_col_def print_char_array_def show_int_def)
  qed (use assms nm print_int_value [of A t 0 m] in \<open>auto simp: print_tuple_def print_col_def\<close>)
qed

lemma dump_rows_ok:
  assumes "\<forall>(t, c) \<in> set tcs. has_cell A t c" "has_cell A t1 c1"
  shows "dump_rows A True (map (\<lambda>(t, c). (t, True)) tcs @ [(t1, False)]) = Inr (Some (concat (map (cell_line \<circ> snd) tcs) @ cell_line c1))"
  using assms by (induction tcs) (auto simp: print_tuple_cell)

lemma try_calls_ok: "\<forall>c \<in> set cs. ans c = DB_SUCCESS \<Longrightarrow> try_calls ans cs = DB_SUCCESS"
  by (induction cs) auto

lemma try_calls_fail: "ans c \<noteq> DB_SUCCESS \<Longrightarrow> \<forall>d \<in> set cs. ans d = DB_SUCCESS \<Longrightarrow> try_calls ans (cs @ c # ds) = ans c"
  by (induction cs) auto

text \<open>The dump of a table whose rows the cursor gives in order prints one line per row: the first column,
  as the decimal number it holds, as its length and its characters, or empty when it is null. When a call
  before the loop is the first to fail, nothing but that call's error text is printed and its code is the exit status.\<close>

theorem dump_table:
  assumes "\<forall>(t, c) \<in> set tcs. has_cell A t c" "has_cell A t1 c1"
  shows "((\<forall>c \<in> set (dump_setup @ [Open_table tab, Cursor_close, Trx_commit, Shutdown]). ans c = DB_SUCCESS) \<longrightarrow>
      dump_main A ans txt True True True (map (\<lambda>(t, c). (t, True)) tcs @ [(t1, False)]) [prog, tab]
      = Inr (Some (Status 0, concat (map (cell_line \<circ> snd) tcs) @ cell_line c1)))
    \<and> (\<forall>pre c post. dump_setup = pre @ c # post \<and> (\<forall>d \<in> set pre. ans d = DB_SUCCESS) \<and> ans c \<noteq> DB_SUCCESS \<longrightarrow>
      dump_main A ans txt True True True rows [prog, tab] = Inr (Some (Err_status (ans c), txt (ans c) @ [LF])))"
proof (intro conjI impI allI)
  assume "\<forall>c \<in> set (dump_setup @ [Open_table tab, Cursor_close, Trx_commit, Shutdown]). ans c = DB_SUCCESS"
  then have "try_calls ans dump_setup = DB_SUCCESS" "ans (Open_table tab) = DB_SUCCESS"
    "try_calls ans [Cursor_close, Trx_commit, Shutdown] = DB_SUCCESS" by (auto intro: try_calls_ok)
  then show "dump_main A ans txt True True True (map (\<lambda>(t, c). (t, True)) tcs @ [(t1, False)]) [prog, tab]
      = Inr (Some (Status 0, concat (map (cell_line \<circ> snd) tcs) @ cell_line c1))"
    using dump_rows_ok [OF assms] by (simp add: dump_main_def Let_def del: try_calls.simps)
next
  fix pre c post
  assume a: "dump_setup = pre @ c # post \<and> (\<forall>d \<in> set pre. ans d = DB_SUCCESS) \<and> ans c \<noteq> DB_SUCCESS"
  then have "try_calls ans dump_setup = ans c" using try_calls_fail by metis
  then show "dump_main A ans txt True True True rows [prog, tab] = Inr (Some (Err_status (ans c), txt (ans c) @ [LF]))"
    using a by (simp add: dump_main_def)
qed

theorem dump_table_witness:
  "dump_main bytes_api (\<lambda>_. DB_SUCCESS) (\<lambda>_. []) True True True
      [((\<lparr>cm_type = IB_INT, cm_attr = 0, cm_len = 1\<rparr>, [254]), True), ((\<lparr>cm_type = IB_VARCHAR, cm_attr = 0, cm_len = 9\<rparr>, [104, 105]), False)]
      [''dump'', ''db/t''] = Inr (Some (Status 0, ''-2|'' @ [LF] @ ''2:hi|'' @ [LF]))"
proof -
  let ?t = "(\<lparr>cm_type = IB_INT, cm_attr = 0, cm_len = 1\<rparr>, [254] :: byte list)"
  let ?u = "(\<lparr>cm_type = IB_VARCHAR, cm_attr = 0, cm_len = 9\<rparr>, [104, 105] :: byte list)"
  have "int_value False 1 [254] = - 2" by (simp add: int_value_def)
  then have "has_cell bytes_api ?t (Number (- 2))"
    using bytes_reader [of ?t 0] by (simp add: bytes_api_def col_unsigned_def)
  then have t: "\<forall>(t, c) \<in> set [(?t, Number (- 2))]. has_cell bytes_api t c" by simp
  have u: "has_cell bytes_api ?u (Text ''hi'')" by (simp add: bytes_api_def char_of_def bit_0)
  have s: "cell_line (Number (- 2)) = ''-2|'' @ [LF]" "cell_line (Text ''hi'') = ''2:hi|'' @ [LF]"
    by (simp_all add: show_int_def show_nat.simps digit_char_def char_of_def bit_0)
  from dump_table [OF t u, of "''db/t''" "\<lambda>_. DB_SUCCESS" "\<lambda>_. []" "''dump''" "[]"] show ?thesis
    unfolding list.map concat.simps comp_def snd_conv s by simp
qed

subsection \<open>Dropping a table\<close>

lemma drop_table_name:
  assumes "NUL \<notin> set dbname" "NUL \<notin> set name" "length dbname + length name + 2 \<le> n" "n \<le> length buf"
    "ans Schema_lock = DB_SUCCESS" "ans (Table_drop (dbname @ ''/'' @ name)) = DB_SUCCESS" "ans Trx_commit = DB_SUCCESS"
  shows "drop_table n ans True buf dbname name = Inr DB_SUCCESS"
proof -
  have "c_str (c_snprintf n (dbname @ ''/'' @ name) buf) = Inr (dbname @ ''/'' @ name)"
    using assms(1-4) by (intro c_str_snprintf(1)) auto
  then show ?thesis using assms(5-7) by (simp add: drop_table_def)
qed

end
