(* ===== verification/InnoOptions.thy ===== *)
theory InnoOptions
  imports InnoTuple
begin

section \<open>Options and test data of dump_innodb (dump_innodb/test0aux.c)\<close>

text \<open>
  The fixed configuration, the command line options and the random texts. \<open>strtoul\<close> scans as the
  \<open>atoi\<close> of theory Prelude and saturates at 64 bits; its result is converted to the \<open>int\<close> that
  \<open>abs\<close> takes.
\<close>

subsection \<open>The fixed configuration\<close>

datatype mkdir_answer = Made | Exists | Mkdir_error

text \<open>A call with the answer the code asserts.\<close>

fun assert_calls :: "(api_call \<Rightarrow> ib_err) \<Rightarrow> (api_call \<times> ib_err) list \<Rightarrow> unit res" where
  "assert_calls ans [] = Inr ()"
| "assert_calls ans ((c, e) # cs) = (if ans c = e then assert_calls ans cs else Inl Assert_failed)"

definition configure_calls :: "(api_call \<times> ib_err) list" where
  "configure_calls = [
     (Cfg_text ''flush_method'' ''O_DIRECT'', DB_SUCCESS),
     (Cfg_int ''log_files_in_group'' 2, DB_SUCCESS),
     (Cfg_int ''log_file_size'' (32 * 1024 * 1024), DB_SUCCESS),
     (Cfg_int ''log_buffer_size'' (24 * 16384), DB_SUCCESS),
     (Cfg_int ''buffer_pool_size'' (5 * 1024 * 1024), DB_SUCCESS),
     (Cfg_int ''additional_mem_pool_size'' (4 * 1024 * 1024), DB_SUCCESS),
     (Cfg_int ''flush_log_at_trx_commit'' 1, DB_SUCCESS),
     (Cfg_int ''file_io_threads'' 4, DB_READONLY),
     (Cfg_int ''lock_wait_timeout'' 60, DB_SUCCESS),
     (Cfg_int ''open_files'' 300, DB_SUCCESS),
     (Cfg_on ''doublewrite'', DB_SUCCESS),
     (Cfg_on ''checksums'', DB_SUCCESS),
     (Cfg_on ''rollback_on_timeout'', DB_SUCCESS),
     (Cfg_on ''print_verbose_log'', DB_SUCCESS),
     (Cfg_on ''file_per_table'', DB_SUCCESS),
     (Cfg_text ''data_home_dir'' ''./'', DB_SUCCESS)]"

text \<open>The result is the exit status when the process ends, \<open>None\<close> when the function returns.\<close>

definition create_directory :: "mkdir_answer \<Rightarrow> int option" where
  "create_directory r = (if r = Mkdir_error then Some 1 else None)"

definition test_configure :: "mkdir_answer \<Rightarrow> (api_call \<Rightarrow> ib_err) \<Rightarrow> int option res" where
  "test_configure mk ans = (case create_directory mk of
       Some st \<Rightarrow> Inr (Some st)
     | None \<Rightarrow> fmap (\<lambda>_.
         if ans (Cfg_text ''log_group_home_dir'' ''log'') \<noteq> DB_SUCCESS then Some 1
         else if ans (Cfg_text ''data_file_path'' ''ibdata1:32M:autoextend'') \<noteq> DB_SUCCESS then Some 1
         else None) (assert_calls ans configure_calls))"

subsection \<open>The command line options\<close>

definition c_strtoul :: "string \<Rightarrow> int res" where
  "c_strtoul b = fmap (\<lambda>v. if \<bar>v\<bar> \<ge> 2 ^ 64 then 2 ^ 64 - 1 else v mod 2 ^ 64) (atoi_sign (dropWhile is_space b))"

definition c_abs :: "int \<Rightarrow> int res" where
  "c_abs v = (if v = - (2 ^ 31) then Inl Signed_overflow else Inr \<bar>v\<bar>)"

definition opt_value :: "string \<Rightarrow> int res" where
  "opt_value arg = fbind (c_strtoul arg) (\<lambda>v. c_abs (to_i32 v))"

definition option_call :: "int \<Rightarrow> string \<Rightarrow> api_call option res" where
  "option_call opt arg =
     (let num = (\<lambda>name k. fmap (\<lambda>v. Some (Cfg_int name (v * k mod 2 ^ 64))) (opt_value arg));
          txt = (\<lambda>name. fmap (\<lambda>s. Some (Cfg_text name s)) (c_str arg)) in
      if opt = 1 then num ''buffer_pool_size'' (1024 * 1024)
      else if opt = 2 then num ''log_file_size'' (1024 * 1024)
      else if opt = 3 then Inr (Some (Cfg_off ''adaptive_hash_index''))
      else if opt = 4 then num ''io_capacity'' 1
      else if opt = 5 then Inr (Some (Cfg_on ''use_sys_malloc''))
      else if opt = 6 then num ''lru_old_blocks_pct'' 1
      else if opt = 7 then num ''lru_block_access_recency'' 1
      else if opt = 8 then num ''force_recovery'' 1
      else if opt = 9 then txt ''log_group_home_dir''
      else if opt = 10 then txt ''data_home_dir''
      else if opt = 11 then txt ''data_file_path''
      else if opt = 12 then Inr (Some (Cfg_off ''doublewrite''))
      else if opt = 13 then Inr (Some (Cfg_off ''checksum''))
      else if opt = 14 then Inr (Some (Cfg_off ''file_per_table''))
      else if opt = 15 then num ''flush_log_at_trx_commit'' 1
      else if opt = 16 then Inr (Some (Cfg_ptr ''flush_method'' arg))
      else if opt = 17 then num ''read_io_threads'' 1
      else if opt = 18 then num ''write_io_threads'' 1
      else if opt = 19 then num ''open_files'' 1
      else if opt = 20 then num ''lock_wait_timeout'' 1
      else Inr None)"

definition set_global_option :: "(api_call \<Rightarrow> ib_err) \<Rightarrow> int \<Rightarrow> string \<Rightarrow> ib_err res" where
  "set_global_option ans opt arg = fbind (option_call opt arg) (\<lambda>r. case r of
       None \<Rightarrow> Inr DB_ERROR
     | Some c \<Rightarrow> if ans c = DB_SUCCESS then Inr (ans c) else Inl Assert_failed)"

text \<open>\<open>ib_longopts\<close>: the long options, whether they take an argument, and their numbers.\<close>

definition ib_longopts :: "(string \<times> bool \<times> int) list" where
  "ib_longopts = [
     (''ib-buffer-pool-size'', True, 1), (''ib-log-file-size'', True, 2), (''ib-disable-ahi'', False, 3),
     (''ib-io-capacity'', True, 4), (''ib-use-sys-malloc'', True, 5), (''ib-lru-old-ratio'', True, 6),
     (''ib-lru-access-threshold'', True, 7), (''ib-force-recovery'', True, 8), (''ib-log-dir'', True, 9),
     (''ib-data-dir'', True, 10), (''ib-data-file-path'', True, 11), (''ib-disble-dblwr'', False, 12),
     (''ib-disble-checksum'', False, 13), (''ib-disble-file-per-table'', False, 14),
     (''ib-flush-log-at-trx-commit'', True, 15), (''ib-flush-method'', True, 16), (''ib-read-threads'', True, 17),
     (''ib-write-threads'', True, 18), (''ib-max-open-files'', True, 19), (''ib-lock-wait-timeout'', True, 20)]"

subsection \<open>Version and random text\<close>

definition print_version :: "64 word \<Rightarrow> string" where
  "print_version v = ''API: '' @ show_int (sint (ucast (drop_bit 32 v) :: 32 word)) @ ''.''
     @ show_int (sint ((ucast (drop_bit 16 v) :: 32 word) AND 0xFFFF)) @ ''.''
     @ show_int (sint (ucast (v AND 0xFFFF) :: 32 word)) @ [LF]"

text \<open>The numbers of \<open>random\<close> are a list; \<open>None\<close> when it is used up.\<close>

definition rand_txt :: string where
  "rand_txt = ''ABCDEFGHIJKLMNOPQRSTUVWXYZabcdefghijklmnopqrstuvwxyz0123456789''"

fun pick_len :: "int \<Rightarrow> nat list \<Rightarrow> (int \<times> nat list) option" where
  "pick_len mx [] = None"
| "pick_len mx (r # rs) = (let len = int r mod \<bar>mx\<bar> in if len = 0 then pick_len mx rs else Some (len, rs))"

fun fill_text :: "nat \<Rightarrow> nat \<Rightarrow> nat list \<Rightarrow> string \<Rightarrow> (string option) res" where
  "fill_text 0 i rs buf = Inr (Some buf)"
| "fill_text (Suc n) i [] buf = Inr None"
| "fill_text (Suc n) i (r # rs) buf =
     (if i < length buf then fill_text n (Suc i) rs (buf[i := rand_txt ! (r mod 62)]) else Inl Buffer_overflow)"

definition gen_rand_text :: "nat list \<Rightarrow> string \<Rightarrow> int \<Rightarrow> ((string \<times> int) option) res" where
  "gen_rand_text rs buf mx =
     (if mx = 0 then Inl Division_by_zero
      else case pick_len mx rs of
          None \<Rightarrow> Inr None
        | Some (len, rs') \<Rightarrow> fmap (map_option (\<lambda>b. (b, len))) (fill_text (nat len) 0 rs' buf))"

subsection \<open>Facts\<close>

lemma strtoul_show_nat:
  assumes "int n < 2 ^ 64"
  shows "c_strtoul (show_nat n @ [NUL]) = Inr (int n)" "0 < n \<Longrightarrow> c_strtoul (CHR ''-'' # show_nat n @ [NUL]) = Inr (2 ^ 64 - int n)"
proof -
  obtain d ds where dd: "show_nat n = d # ds" by (cases "show_nat n") auto
  have dig: "\<forall>c \<in> set (show_nat n). is_digit c" by (simp add: show_nat_digits)
  with dd have d: "is_digit d" by simp
  have a: "atoi_digits 0 (show_nat n @ [NUL]) = Inr (int n)"
    using dig by (simp add: atoi_digits_append foldl_show_nat)
  then have "atoi_sign (dropWhile is_space (show_nat n @ [NUL])) = Inr (int n)"
    using dd d is_digit_neq [OF d] by simp
  then show "c_strtoul (show_nat n @ [NUL]) = Inr (int n)" using assms by (simp add: c_strtoul_def)
  have "\<not> is_space (CHR ''-'')" by (simp add: is_space_def)
  then have s: "atoi_sign (dropWhile is_space (CHR ''-'' # show_nat n @ [NUL])) = Inr (- int n)" using a by simp
  show "c_strtoul (CHR ''-'' # show_nat n @ [NUL]) = Inr (2 ^ 64 - int n)" if "0 < n"
  proof -
    have "(- int n) mod 2 ^ 64 = 2 ^ 64 - int n" using that assms by (simp add: zmod_zminus1_eq_if)
    then show ?thesis using s assms by (simp add: c_strtoul_def)
  qed
qed

text \<open>The sign of a number is dropped: \<open>-5\<close> is accepted as 5.\<close>

lemma opt_value_number:
  assumes "int n \<le> INT_MAX"
  shows "opt_value (show_nat n @ [NUL]) = Inr (int n)" "opt_value (CHR ''-'' # show_nat n @ [NUL]) = Inr (int n)"
proof -
  have n: "int n < 2 ^ 31" using assms by (simp add: INT_MAX_def)
  have p: "opt_value (show_nat n @ [NUL]) = Inr (int n)" and m: "0 < n \<Longrightarrow> opt_value (CHR ''-'' # show_nat n @ [NUL]) = Inr (int n)"
  proof -
    show "opt_value (show_nat n @ [NUL]) = Inr (int n)"
      using n by (simp add: opt_value_def strtoul_show_nat c_abs_def)
    assume z: "0 < n"
    have "to_i32 (2 ^ 64 - int n) = to_i32 (- int n)"
    proof -
      have "2 ^ 64 - int n = - int n + 2 ^ 32 * 2 ^ 32" by simp
      then have "(2 ^ 64 - int n) mod 2 ^ 32 = (- int n) mod 2 ^ 32" by (simp only: mod_mult_self2)
      then have "(word_of_int (2 ^ 64 - int n) :: 32 word) = word_of_int (- int n)"
        by (simp only: word_of_int_eq_iff take_bit_eq_mod len_of_numeral_defs) simp
      then show ?thesis by (simp only: to_i32_def)
    qed
    then show "opt_value (CHR ''-'' # show_nat n @ [NUL]) = Inr (int n)"
      using n z by (simp add: opt_value_def strtoul_show_nat(2) c_abs_def)
  qed
  show "opt_value (show_nat n @ [NUL]) = Inr (int n)" by (rule p)
  show "opt_value (CHR ''-'' # show_nat n @ [NUL]) = Inr (int n)"
  proof (cases "n = 0")
    case True
    then show ?thesis
      by (simp add: opt_value_def c_strtoul_def show_nat.simps digit_char_def char_of_def is_space_def is_digit_def digit_val_def c_abs_def)
  qed (use m in simp)
qed

lemma option_size:
  assumes "int n \<le> INT_MAX"
  shows "option_call 1 (show_nat n @ [NUL]) = Inr (Some (Cfg_int ''buffer_pool_size'' (int n * 2 ^ 20)))"
    "option_call 2 (show_nat n @ [NUL]) = Inr (Some (Cfg_int ''log_file_size'' (int n * 2 ^ 20)))"
  using assms by (simp_all add: option_call_def opt_value_number INT_MAX_def)

lemma option_table: "o1 \<in> (\<lambda>(_, _, k). k) ` set ib_longopts \<longleftrightarrow> 1 \<le> o1 \<and> o1 \<le> 20"
  by (auto simp: ib_longopts_def) presburger

lemma option_unknown: "opt < 1 \<or> 20 < opt \<Longrightarrow> set_global_option ans opt arg = Inr DB_ERROR"
  by (auto simp: set_global_option_def option_call_def Let_def)

text \<open>The flush method is handed to the setter of integers as a pointer.\<close>

lemma option_flush_method: "option_call 16 arg = Inr (Some (Cfg_ptr ''flush_method'' arg))"
  by (simp add: option_call_def)

lemma fill_text_ok:
  "fill_text n i rs buf = Inr (Some b) \<Longrightarrow> length b = length buf \<and> (\<forall>j. i \<le> j \<and> j < i + n \<longrightarrow> j < length b \<and> b ! j \<in> set rand_txt)
    \<and> (\<forall>j < i. b ! j = buf ! j)"
proof (induction n i rs buf rule: fill_text.induct)
  case (3 n i r rs buf)
  have r: "rand_txt ! (r mod 62) \<in> set rand_txt" by (rule nth_mem) (simp add: rand_txt_def)
  from 3 have h: "i < length buf" "length b = length buf"
    "\<And>j. Suc i \<le> j \<Longrightarrow> j < Suc i + n \<Longrightarrow> j < length b \<and> b ! j \<in> set rand_txt" "\<And>j. j < Suc i \<Longrightarrow> b ! j = buf[i := rand_txt ! (r mod 62)] ! j"
    by (auto split: if_splits)
  have "b ! i \<in> set rand_txt" using h(4) [of i] h(1) r by simp
  then show ?case using h by (auto simp: nth_list_update) (metis Suc_leI le_neq_implies_less nat_add_left_cancel_less add_Suc_right not_less)+
qed auto

lemma pick_len_ok: "pick_len mx rs = Some (len, rs') \<Longrightarrow> mx \<noteq> 0 \<Longrightarrow> 0 < len \<and> len < \<bar>mx\<bar>"
proof (induction mx rs rule: pick_len.induct)
  case (2 mx r rs)
  have "0 \<le> int r mod \<bar>mx\<bar>" "int r mod \<bar>mx\<bar> < \<bar>mx\<bar>" using 2 by simp_all
  with 2 show ?case by (auto simp: Let_def less_le split: if_splits)
qed simp

lemma gen_rand_text_ok:
  assumes "gen_rand_text rs buf mx = Inr (Some (b, len))"
  shows "0 < len \<and> len < \<bar>mx\<bar> \<and> length b = length buf \<and> set (take (nat len) b) \<subseteq> set rand_txt"
proof -
  from assms obtain rs' where p: "mx \<noteq> 0" "pick_len mx rs = Some (len, rs')" "fill_text (nat len) 0 rs' buf = Inr (Some b)"
    by (auto simp: gen_rand_text_def fmap_eq_Inr split: if_splits option.splits)
  from fill_text_ok [OF p(3)] pick_len_ok [OF p(2,1)] show ?thesis
    by (auto simp: in_set_conv_nth)
qed

text \<open>A size of 1 never gives a length: the loop runs as long as there are random numbers.\<close>

lemma gen_rand_text_one: "gen_rand_text rs buf 1 = Inr None"
proof -
  have "pick_len 1 rs = None" by (induction rs) simp_all
  then show ?thesis by (simp add: gen_rand_text_def)
qed

end
