(* ===== verification/Binlog.thy ===== *)
theory Binlog
  imports Prelude
begin

section \<open>Binary log events: integers and table maps (ebinlog/BinlogTypes.h, BinlogTable.h)\<close>

text \<open>
  The row decoder of the binary log reads packed structures from a buffer. A pointer into the buffer is
  an offset; a read behind the buffer is a fault. \<open>CMyTableMap\<close> keeps the columns of the table that the
  following row events belong to in arrays of 128 entries.
\<close>

subsection \<open>Integers in the buffer\<close>

definition rd :: "nat \<Rightarrow> byte list \<Rightarrow> nat \<Rightarrow> ('w::len word) res" where
  "rd n b p = (if p + n \<le> length b then Inr (le_word (take n (drop p b))) else Inl Out_of_bounds)"

definition uint1 :: "byte list \<Rightarrow> nat \<Rightarrow> nat res" where
  "uint1 b p = fmap (\<lambda>w. unat (w :: 8 word)) (rd 1 b p)"

definition uint2korr :: "byte list \<Rightarrow> nat \<Rightarrow> nat res" where
  "uint2korr b p = fmap (\<lambda>w. unat (w :: 16 word)) (rd 2 b p)"

definition uint3korr :: "byte list \<Rightarrow> nat \<Rightarrow> nat res" where
  "uint3korr b p = fmap (\<lambda>w. unat (w :: 32 word)) (rd 3 b p)"

definition uint4korr :: "byte list \<Rightarrow> nat \<Rightarrow> nat res" where
  "uint4korr b p = fmap (\<lambda>w. unat (w :: 32 word)) (rd 4 b p)"

definition uint6korr :: "byte list \<Rightarrow> nat \<Rightarrow> nat res" where
  "uint6korr b p = fmap (\<lambda>w. unat (w :: 64 word)) (rd 6 b p)"

definition uint8korr :: "byte list \<Rightarrow> nat \<Rightarrow> nat res" where
  "uint8korr b p = fmap (\<lambda>w. unat (w :: 64 word)) (rd 8 b p)"

definition sint1 :: "byte list \<Rightarrow> nat \<Rightarrow> int res" where
  "sint1 b p = fmap (\<lambda>w. sint (w :: 8 word)) (rd 1 b p)"

definition sint2korr :: "byte list \<Rightarrow> nat \<Rightarrow> int res" where
  "sint2korr b p = fmap (\<lambda>w. sint (w :: 16 word)) (rd 2 b p)"

text \<open>The top byte is 255 when bit 23 is set.\<close>

definition sint3korr :: "byte list \<Rightarrow> nat \<Rightarrow> int res" where
  "sint3korr b p = fmap (\<lambda>w. sint (if bit (w :: 32 word) 23 then w OR 0xFF000000 else w)) (rd 3 b p)"

definition sint4korr :: "byte list \<Rightarrow> nat \<Rightarrow> int res" where
  "sint4korr b p = fmap (\<lambda>w. sint (w :: 32 word)) (rd 4 b p)"

definition sint8korr :: "byte list \<Rightarrow> nat \<Rightarrow> int res" where
  "sint8korr b p = fmap (\<lambda>w. sint (w :: 64 word)) (rd 8 b p)"

text \<open>\<open>DecodePacketInt\<close>: the number, an \<open>int\<close>, and how far the position moves. Of an 8-byte number
  only the low four bytes are read.\<close>

definition DecodePacketInt :: "byte list \<Rightarrow> nat \<Rightarrow> (int \<times> nat) res" where
  "DecodePacketInt b p =
     fbind (uint1 b p) (\<lambda>n.
       if n < 251 then Inr (int n, 1)
       else if n = 251 then Inr (0, 1)
       else if n = 252 then fmap (\<lambda>i. (int i, 3)) (uint2korr b (p + 1))
       else if n = 253 then fmap (\<lambda>i. (int i, 4)) (uint3korr b (p + 1))
       else fmap (\<lambda>i. (to_i32 (int i), 9)) (uint4korr b (p + 1)))"

subsection \<open>Column types\<close>

definition MYSQL_TYPE_TINY :: nat where "MYSQL_TYPE_TINY = 1"
definition MYSQL_TYPE_SHORT :: nat where "MYSQL_TYPE_SHORT = 2"
definition MYSQL_TYPE_LONG :: nat where "MYSQL_TYPE_LONG = 3"
definition MYSQL_TYPE_FLOAT :: nat where "MYSQL_TYPE_FLOAT = 4"
definition MYSQL_TYPE_DOUBLE :: nat where "MYSQL_TYPE_DOUBLE = 5"
definition MYSQL_TYPE_TIMESTAMP :: nat where "MYSQL_TYPE_TIMESTAMP = 7"
definition MYSQL_TYPE_LONGLONG :: nat where "MYSQL_TYPE_LONGLONG = 8"
definition MYSQL_TYPE_INT24 :: nat where "MYSQL_TYPE_INT24 = 9"
definition MYSQL_TYPE_DATE :: nat where "MYSQL_TYPE_DATE = 10"
definition MYSQL_TYPE_TIME :: nat where "MYSQL_TYPE_TIME = 11"
definition MYSQL_TYPE_DATETIME :: nat where "MYSQL_TYPE_DATETIME = 12"
definition MYSQL_TYPE_YEAR :: nat where "MYSQL_TYPE_YEAR = 13"
definition MYSQL_TYPE_NEWDATE :: nat where "MYSQL_TYPE_NEWDATE = 14"
definition MYSQL_TYPE_VARCHAR :: nat where "MYSQL_TYPE_VARCHAR = 15"
definition MYSQL_TYPE_BIT :: nat where "MYSQL_TYPE_BIT = 16"
definition MYSQL_TYPE_NEWDECIMAL :: nat where "MYSQL_TYPE_NEWDECIMAL = 246"
definition MYSQL_TYPE_ENUM :: nat where "MYSQL_TYPE_ENUM = 247"
definition MYSQL_TYPE_SET :: nat where "MYSQL_TYPE_SET = 248"
definition MYSQL_TYPE_TINY_BLOB :: nat where "MYSQL_TYPE_TINY_BLOB = 249"
definition MYSQL_TYPE_MEDIUM_BLOB :: nat where "MYSQL_TYPE_MEDIUM_BLOB = 250"
definition MYSQL_TYPE_LONG_BLOB :: nat where "MYSQL_TYPE_LONG_BLOB = 251"
definition MYSQL_TYPE_BLOB :: nat where "MYSQL_TYPE_BLOB = 252"
definition MYSQL_TYPE_VAR_STRING :: nat where "MYSQL_TYPE_VAR_STRING = 253"
definition MYSQL_TYPE_STRING :: nat where "MYSQL_TYPE_STRING = 254"
definition MYSQL_TYPE_GEOMETRY :: nat where "MYSQL_TYPE_GEOMETRY = 255"

lemmas mysql_types = MYSQL_TYPE_TINY_def MYSQL_TYPE_SHORT_def MYSQL_TYPE_LONG_def MYSQL_TYPE_FLOAT_def
  MYSQL_TYPE_DOUBLE_def MYSQL_TYPE_TIMESTAMP_def MYSQL_TYPE_LONGLONG_def MYSQL_TYPE_INT24_def MYSQL_TYPE_DATE_def
  MYSQL_TYPE_TIME_def MYSQL_TYPE_DATETIME_def MYSQL_TYPE_YEAR_def MYSQL_TYPE_NEWDATE_def MYSQL_TYPE_VARCHAR_def
  MYSQL_TYPE_BIT_def MYSQL_TYPE_NEWDECIMAL_def MYSQL_TYPE_ENUM_def MYSQL_TYPE_SET_def MYSQL_TYPE_TINY_BLOB_def
  MYSQL_TYPE_MEDIUM_BLOB_def MYSQL_TYPE_LONG_BLOB_def MYSQL_TYPE_BLOB_def MYSQL_TYPE_VAR_STRING_def
  MYSQL_TYPE_STRING_def MYSQL_TYPE_GEOMETRY_def

subsection \<open>The table map\<close>

definition MAX_COLUMNS :: nat where "MAX_COLUMNS = 128"
definition NAME_MAX_LENGTH :: nat where "NAME_MAX_LENGTH = 128"

record tablemap =
  tm_id :: nat
  tm_ncols :: nat
  tm_meta :: "nat list"
  tm_type :: "nat list"
  tm_null :: "bool list"
  tm_table :: "byte list"
  tm_db :: "byte list"

text \<open>One entry of a 128-entry array.\<close>

definition store :: "nat \<Rightarrow> 'a \<Rightarrow> 'a list \<Rightarrow> 'a list res" where
  "store i v xs = (if i < length xs then Inr (xs[i := v]) else Inl Buffer_overflow)"

definition fetch :: "'a list \<Rightarrow> nat \<Rightarrow> 'a res" where
  "fetch xs i = (if i < length xs then Inr (xs ! i) else Inl Out_of_bounds)"

text \<open>The number stored for one column of type \<open>ty\<close>, from the metadata at \<open>j\<close>, and how far \<open>j\<close>
  moves. \<open>x + meta_j << 8\<close> shifts the sum. A signed 2-byte number becomes a \<open>uint32\<close>.\<close>

definition column_meta :: "nat \<Rightarrow> byte list \<Rightarrow> nat \<Rightarrow> (nat \<times> nat) res" where
  "column_meta ty b j =
     (if ty = MYSQL_TYPE_TINY_BLOB \<or> ty = MYSQL_TYPE_BLOB \<or> ty = MYSQL_TYPE_MEDIUM_BLOB \<or> ty = MYSQL_TYPE_LONG_BLOB
        \<or> ty = MYSQL_TYPE_DOUBLE \<or> ty = MYSQL_TYPE_FLOAT \<or> ty = MYSQL_TYPE_GEOMETRY
      then fmap (\<lambda>m. (m, 1)) (uint1 b j)
      else if ty = MYSQL_TYPE_SET \<or> ty = MYSQL_TYPE_ENUM \<or> ty = MYSQL_TYPE_STRING
      then fbind (uint1 b j) (\<lambda>x. fmap (\<lambda>y. (x * 256 + y, 2)) (uint1 b (j + 1)))
      else if ty = MYSQL_TYPE_BIT
      then fbind (uint1 b j) (\<lambda>x. fmap (\<lambda>y. ((x + y) * 256, 2)) (uint1 b (j + 1)))
      else if ty = MYSQL_TYPE_VARCHAR
      then fmap (\<lambda>m. (nat (m mod 2 ^ 32), 2)) (sint2korr b j)
      else if ty = MYSQL_TYPE_NEWDECIMAL
      then fbind (uint1 b j) (\<lambda>x. fmap (\<lambda>y. (x * 256 + y, 2)) (uint1 b (j + 1)))
      else Inr (0, 0))"

text \<open>The three loops over the columns, \<open>n\<close> columns left from number \<open>i\<close> on.\<close>

fun decodeMetaData :: "nat \<Rightarrow> nat \<Rightarrow> byte list \<Rightarrow> nat \<Rightarrow> nat \<Rightarrow> nat list \<Rightarrow> nat list res" where
  "decodeMetaData 0 i b tp j metas = Inr metas"
| "decodeMetaData (Suc n) i b tp j metas =
     fbind (uint1 b (tp + i)) (\<lambda>ty.
     fbind (column_meta ty b j) (\<lambda>(m, k).
     fbind (store i m metas) (\<lambda>metas'. decodeMetaData n (i + 1) b tp (j + k) metas')))"

definition real_type :: "nat \<Rightarrow> nat \<Rightarrow> nat" where
  "real_type ty m =
     (if ty = MYSQL_TYPE_STRING then
        let r = m div 256 mod 256 in
        if r = MYSQL_TYPE_ENUM \<or> r = MYSQL_TYPE_SET then r
        else if ty = MYSQL_TYPE_DATE then MYSQL_TYPE_NEWDATE
        else ty
      else ty)"

fun decodeDataType :: "nat \<Rightarrow> nat \<Rightarrow> byte list \<Rightarrow> nat \<Rightarrow> nat list \<Rightarrow> nat list \<Rightarrow> nat list res" where
  "decodeDataType 0 i b tp metas types = Inr types"
| "decodeDataType (Suc n) i b tp metas types =
     fbind (uint1 b (tp + i)) (\<lambda>ty.
     fbind (fetch metas i) (\<lambda>m.
     fbind (store i (real_type ty m) types) (\<lambda>types'. decodeDataType n (i + 1) b tp metas types')))"

fun decodeNullAble :: "nat \<Rightarrow> nat \<Rightarrow> byte list \<Rightarrow> nat \<Rightarrow> bool list \<Rightarrow> bool list res" where
  "decodeNullAble 0 i b np nulls = Inr nulls"
| "decodeNullAble (Suc n) i b np nulls =
     fbind (uint1 b (np + i div 8)) (\<lambda>w.
     fbind (store i (bit w (i mod 8)) nulls) (\<lambda>nulls'. decodeNullAble n (i + 1) b np nulls'))"

text \<open>A name of \<open>n\<close> bytes copied into a zeroed array of 128.\<close>

definition copy_name :: "byte list \<Rightarrow> nat \<Rightarrow> nat \<Rightarrow> byte list res" where
  "copy_name b p n =
     (if n > NAME_MAX_LENGTH then Inl Buffer_overflow
      else if p + n > length b then Inl Out_of_bounds
      else Inr (take n (drop p b) @ replicate (NAME_MAX_LENGTH - n) 0))"

definition no_tablemap :: tablemap where
  "no_tablemap = \<lparr>tm_id = 0, tm_ncols = 0, tm_meta = replicate MAX_COLUMNS 0, tm_type = replicate MAX_COLUMNS 0,
     tm_null = replicate MAX_COLUMNS False, tm_table = replicate NAME_MAX_LENGTH 0, tm_db = replicate NAME_MAX_LENGTH 0\<rparr>"

text \<open>\<open>CMyTableMap::process\<close>, the event's data at offset \<open>p\<close> of the buffer.\<close>

definition process_tablemap :: "byte list \<Rightarrow> nat \<Rightarrow> tablemap \<Rightarrow> tablemap res" where
  "process_tablemap b p tm =
     fbind (uint6korr b p) (\<lambda>tid.
     fbind (uint1 b (p + 8)) (\<lambda>dlen.
     fbind (copy_name b (p + 9) dlen) (\<lambda>db.
     let p1 = p + 9 + dlen + 1 in
     fbind (uint1 b p1) (\<lambda>tlen.
     fbind (copy_name b (p1 + 1) tlen) (\<lambda>tab.
     let p2 = p1 + 1 + tlen + 1 in
     fbind (DecodePacketInt b p2) (\<lambda>(nc, k).
     let ncols = nat (nc mod 2 ^ 16); tp = p2 + k; p3 = tp + ncols in
     fbind (DecodePacketInt b p3) (\<lambda>(ml, k2).
     let mp = p3 + k2; np = p + nat ((int (mp - p) + ml) mod 2 ^ 32) in
     fbind (decodeMetaData ncols 0 b tp mp (tm_meta tm)) (\<lambda>metas.
     fbind (decodeDataType ncols 0 b tp metas (tm_type tm)) (\<lambda>types.
     fmap (\<lambda>nulls. \<lparr>tm_id = tid, tm_ncols = ncols, tm_meta = metas, tm_type = types, tm_null = nulls,
         tm_table = tab, tm_db = db\<rparr>)
       (decodeNullAble ncols 0 b np (tm_null tm)))))))))))"

definition getBitmapSize :: "tablemap \<Rightarrow> nat" where
  "getBitmapSize tm = (tm_ncols tm + 7) div 8"

subsection \<open>Bytes and words\<close>

fun le_bytes :: "nat \<Rightarrow> 'w::len word \<Rightarrow> byte list" where
  "le_bytes 0 w = []"
| "le_bytes (Suc n) w = ucast w # le_bytes n (drop_bit 8 w)"

lemma length_le_bytes [simp]: "length (le_bytes n w) = n"
  by (induction n arbitrary: w) simp_all

lemma bit_le_word: "bit (le_word bs :: 'w::len word) k \<longleftrightarrow> k < LENGTH('w) \<and> k div 8 < length bs \<and> bit (bs ! (k div 8)) (k mod 8)"
proof (induction bs arbitrary: k)
  case (Cons x bs)
  show ?case
  proof (cases "k < 8")
    case True
    then show ?thesis by (auto simp: bit_simps dest: bit_imp_le_length)
  next
    case False
    then have "k div 8 = Suc ((k - 8) div 8)" "k mod 8 = (k - 8) mod 8" by (simp_all add: le_div_geq le_mod_geq)
    then show ?thesis using False Cons.IH [of "k - 8"] by (auto simp: bit_simps)
  qed
qed simp

lemma nth_le_bytes: "i < n \<Longrightarrow> le_bytes n w ! i = ucast (drop_bit (8 * i) w)"
proof (induction n arbitrary: w i)
  case (Suc n)
  then show ?case by (cases i) (simp_all add: drop_bit_drop_bit add.commute)
qed simp

lemma le_word_le_bytes: "le_word (le_bytes n (w :: 'v::len word)) = (ucast (take_bit (8 * n) w) :: 'w::len word)"
proof (rule bit_word_eqI)
  fix k assume k: "k < LENGTH('w)"
  have "k div 8 < n \<longleftrightarrow> k < 8 * n" by (simp add: div_less_iff_less_mult mult.commute)
  moreover have "8 * (k div 8) + k mod 8 = k" by simp
  ultimately show "bit (le_word (le_bytes n w) :: 'w word) k \<longleftrightarrow> bit (ucast (take_bit (8 * n) w) :: 'w word) k"
    using k by (auto simp: bit_le_word nth_le_bytes bit_simps)
qed

lemma rd_le_bytes: "rd n (pre @ le_bytes n (w :: 'v::len word) @ post) (length pre) = Inr (ucast (take_bit (8 * n) w) :: 'w::len word)"
  by (simp add: rd_def le_word_le_bytes)

lemma rd_at:
  assumes "p = length pre"
  shows "rd n (pre @ le_bytes n (w :: 'v::len word) @ post) p = Inr (ucast (take_bit (8 * n) w) :: 'w::len word)"
  using rd_le_bytes assms by simp

end
