(* ===== verification/BinlogRow.thy ===== *)
theory BinlogRow
  imports Binlog
begin

section \<open>Rows of the binary log (ebinlog/BinlogRow.h, BinlogTypes.h)\<close>

text \<open>
  The values of a row event, decoded with the types and metadata of the table map into the Python objects the
  caller gets: numbers, byte strings, and the bits of floating point numbers. Then the stream of events:
  \<open>CMyRowLogParser\<close> keeps what it has to remember between two calls of \<open>process\<close>.
\<close>

subsection \<open>Printing\<close>

text \<open>\<open>%0nd\<close>: at least \<open>n\<close> characters, zeros behind the sign.\<close>

definition show_pad :: "nat \<Rightarrow> int \<Rightarrow> string" where
  "show_pad n i = (let d = show_nat (nat \<bar>i\<bar>) in
     if i < 0 then CHR ''-'' # replicate (n - 1 - length d) (CHR ''0'') @ d else replicate (n - length d) (CHR ''0'') @ d)"

definition c_mod :: "int \<Rightarrow> int \<Rightarrow> int" where
  "c_mod a b = a - c_div a b * b"

definition show_date :: "int \<Rightarrow> string" where
  "show_date d = show_pad 4 (c_div d 10000) @ ''-'' @ show_pad 2 (c_div (c_mod d 10000) 100) @ ''-'' @ show_pad 2 (c_mod d 100)"

definition show_time :: "int \<Rightarrow> string" where
  "show_time t = show_pad 2 (c_div t 10000) @ '':'' @ show_pad 2 (c_div (c_mod t 10000) 100) @ '':'' @ show_pad 2 (c_mod t 100)"

text \<open>The characters written backwards by the code for \<open>MYSQL_TYPE_NEWDATE\<close>; the first one is not reduced
  to a digit.\<close>

definition show_newdate :: "nat \<Rightarrow> string" where
  "show_newdate tmp =
     (let day = tmp mod 32; month = tmp div 32 mod 16; year = tmp div 512; dig = (\<lambda>n. char_of (48 + n)) in
      [dig (year div 1000), dig (year div 100 mod 10), dig (year div 10 mod 10), dig (year mod 10), CHR '':'',
       dig (month div 10), dig (month mod 10), CHR '':'', dig (day div 10), dig (day mod 10)])"

subsection \<open>Decimal numbers\<close>

definition dig2bytes :: "int \<Rightarrow> int res" where
  "dig2bytes i = (if 0 \<le> i \<and> i \<le> 9 then Inr ([0, 1, 1, 2, 2, 3, 3, 4, 4, 4] ! nat i) else Inl Out_of_bounds)"

definition decimal_bin_size :: "int \<Rightarrow> int \<Rightarrow> int res" where
  "decimal_bin_size precision scale =
     (let intg = precision - scale; intg0 = c_div intg 9; frac0 = c_div scale 9;
          intg0x = intg - intg0 * 9; frac0x = scale - frac0 * 9 in
      fbind (dig2bytes intg0x) (\<lambda>i. fmap (\<lambda>f. intg0 * 4 + i + frac0 * 4 + f) (dig2bytes frac0x)))"

text \<open>\<open>mi_sint1korr\<close> to \<open>mi_sint4korr\<close>: \<open>n\<close> bytes, highest first, with the sign of the first.\<close>

definition mi_sint :: "nat \<Rightarrow> byte list \<Rightarrow> nat \<Rightarrow> int res" where
  "mi_sint n b p = (if p + n > length b then Inl Out_of_bounds
     else Inr (case take n (drop p b) of [] \<Rightarrow> 0
       | x # xs \<Rightarrow> foldl (\<lambda>a y. a * 256 + uint y) (sint x) xs))"

definition xor_int :: "int \<Rightarrow> bool \<Rightarrow> int" where
  "xor_int x neg = (if neg then - x - 1 else x)"

record decimal =
  dc_intg :: int
  dc_frac :: int
  dc_sign :: bool
  dc_buf :: "int list"

definition DECIMAL_BUFF_LENGTH :: nat where "DECIMAL_BUFF_LENGTH = 9"
definition DIG_MAX :: int where "DIG_MAX = 999999999"

text \<open>The digits are read into \<open>buf\<close>; a leading group that is zero is dropped. \<open>None\<close> is the jump to
  \<open>err\<close>. The state is the buffer, the number of groups in it, \<open>intg\<close>, and the position.\<close>

definition put_group :: "int \<Rightarrow> int list \<times> nat \<Rightarrow> int list res" where
  "put_group x = (\<lambda>(buf, k). store k x buf)"

fun int_groups :: "nat \<Rightarrow> bool \<Rightarrow> byte list \<Rightarrow> int list \<times> nat \<times> int \<times> nat \<Rightarrow> (int list \<times> nat \<times> int \<times> nat) option res" where
  "int_groups 0 neg d s = Inr (Some s)"
| "int_groups (Suc n) neg d (buf, k, intg, p) =
     fbind (mi_sint 4 d p) (\<lambda>x0. let x = xor_int x0 neg in
     fbind (put_group x (buf, k)) (\<lambda>buf'.
       if x < 0 \<or> x > DIG_MAX then Inr None
       else if 0 < k \<or> x \<noteq> 0 then int_groups n neg d (buf', k + 1, intg, p + 4)
       else int_groups n neg d (buf', k, intg - 9, p + 4)))"

fun frac_groups :: "nat \<Rightarrow> bool \<Rightarrow> byte list \<Rightarrow> int list \<times> nat \<times> int \<times> nat \<Rightarrow> (int list \<times> nat \<times> int \<times> nat) option res" where
  "frac_groups 0 neg d s = Inr (Some s)"
| "frac_groups (Suc n) neg d (buf, k, intg, p) =
     fbind (mi_sint 4 d p) (\<lambda>x0. let x = xor_int x0 neg in
     fbind (put_group x (buf, k)) (\<lambda>buf'.
       if x < 0 \<or> x > DIG_MAX then Inr None
       else frac_groups n neg d (buf', k + 1, intg, p + 4)))"

definition head_group :: "int \<Rightarrow> bool \<Rightarrow> byte list \<Rightarrow> int list \<times> nat \<times> int \<times> nat \<Rightarrow> (int list \<times> nat \<times> int \<times> nat) option res" where
  "head_group intg0x neg d = (\<lambda>(buf, k, intg, p).
     if intg0x = 0 then Inr (Some (buf, k, intg, p))
     else fbind (dig2bytes intg0x) (\<lambda>i.
          fbind (mi_sint (nat i) d p) (\<lambda>x0. let x = xor_int x0 neg in
          fmap (\<lambda>buf'.
            if x < 0 \<or> x \<ge> 10 ^ nat (intg0x + 1) then None
            else if 0 < k \<or> x \<noteq> 0 then Some (buf', k + 1, intg, p + nat i)
            else Some (buf', k, intg - intg0x, p + nat i)) (put_group x (buf, k)))))"

definition tail_group :: "int \<Rightarrow> bool \<Rightarrow> byte list \<Rightarrow> int list \<times> nat \<times> int \<times> nat \<Rightarrow> (int list \<times> nat \<times> int \<times> nat) option res" where
  "tail_group frac0x neg d = (\<lambda>(buf, k, intg, p).
     if frac0x = 0 then Inr (Some (buf, k, intg, p))
     else fbind (dig2bytes frac0x) (\<lambda>i.
          fbind (mi_sint (nat i) d p) (\<lambda>x0. let x = xor_int x0 neg * 10 ^ nat (9 - frac0x) in
          if x > INT_MAX \<or> x < - INT_MAX - 1 then Inl Signed_overflow
          else fmap (\<lambda>buf'. if x < 0 \<or> x > DIG_MAX then None else Some (buf', k + 1, intg, p))
            (put_group x (buf, k)))))"

definition obind :: "'a option res \<Rightarrow> ('a \<Rightarrow> 'b option res) \<Rightarrow> 'b option res" where
  "obind m f = fbind m (\<lambda>r. case r of None \<Rightarrow> Inr None | Some x \<Rightarrow> f x)"

definition zero_decimal :: "int list \<Rightarrow> decimal" where
  "zero_decimal buf = \<lparr>dc_intg = 1, dc_frac = 0, dc_sign = False, dc_buf = buf[0 := 0]\<rparr>"

text \<open>\<open>bin2decimal\<close>: the copy of the bytes with the sign bit turned over, the number of groups cut to nine. Of
  the number the error branch makes only the first group is ever read.\<close>

definition bin2decimal :: "byte list \<Rightarrow> nat \<Rightarrow> int \<Rightarrow> int \<Rightarrow> decimal res" where
  "bin2decimal b p precision scale =
     fbind (fetch b p) (\<lambda>first.
     fbind (decimal_bin_size precision scale) (\<lambda>sz.
     let neg = \<not> bit first 7; buf0 = map int [0..<DECIMAL_BUFF_LENGTH];
         intg = precision - scale; intg0 = c_div intg 9; frac0 = c_div scale 9;
         intg0x = intg - intg0 * 9; frac0x = scale - frac0 * 9;
         intg1 = intg0 + (if 0 < intg0x then 1 else 0); frac1 = frac0 + (if 0 < frac0x then 1 else 0);
         over = intg1 + frac1 > 9; big = intg1 > 9 in
     if sz \<le> 0 then Inl Buffer_overflow
     else if p + nat sz > length b then Inl Out_of_bounds
     else
       let c = take (nat sz) (drop p b); d = (hd c XOR 0x80) # tl c in
       fbind (if over \<and> big then dig2bytes intg0x else Inr 0) (\<lambda>dx.
       let start = (if over \<and> big then nat (dx + 4 * (intg0 - 9)) else 0);
           i0 = (if over \<and> big then 9 else intg0);
           ix = (if over \<and> big then 0 else intg0x);
           f0 = (if over then if big then 0 else 9 - intg1 else frac0);
           fx = (if over then 0 else frac0x)
       in fmap (\<lambda>r. case r of
              None \<Rightarrow> zero_decimal buf0
            | Some (buf, k, ig, q) \<Rightarrow> \<lparr>dc_intg = ig, dc_frac = f0 * 9 + fx, dc_sign = neg, dc_buf = buf\<rparr>)
          (obind (head_group ix neg d (buf0, 0, i0 * 9 + ix, start))
          (\<lambda>s. obind (int_groups (nat i0) neg d s) (\<lambda>s. obind (frac_groups (nat f0) neg d s) (tail_group fx neg d)))))))"

text \<open>The loop that prints the groups.\<close>

definition round_up :: "int \<Rightarrow> int" where
  "round_up x = c_div (x + 8) 9"

fun show_groups :: "nat \<Rightarrow> nat \<Rightarrow> int list \<Rightarrow> string res" where
  "show_groups 0 i buf = fmap (show_pad 9) (fetch buf i)"
| "show_groups (Suc n) i buf = fbind (fetch buf i) (\<lambda>x. fmap (\<lambda>s. show_pad 9 x @ ''.'' @ s) (show_groups n (i + 1) buf))"

definition show_decimal :: "decimal \<Rightarrow> string res" where
  "show_decimal d = fmap (\<lambda>s. (if dc_sign d then ''-'' else []) @ s)
     (show_groups (nat (round_up (dc_frac d) + round_up (dc_intg d) - 1)) 0 (dc_buf d))"

subsection \<open>One value\<close>

datatype pyval = PInt int | PBytes "byte list" | PText string | PFloat "32 word" | PDouble "64 word"

text \<open>\<open>Py_BuildValue("s#", p, n)\<close>.\<close>

definition py_bytes :: "byte list \<Rightarrow> nat \<Rightarrow> nat \<Rightarrow> pyval res" where
  "py_bytes b p n = (if p + n \<le> length b then Inr (PBytes (take n (drop p b))) else Inl Out_of_bounds)"

text \<open>Type and length after the special case of \<open>MYSQL_TYPE_STRING\<close>.\<close>

definition string_type :: "nat \<Rightarrow> nat \<Rightarrow> nat \<times> nat" where
  "string_type ty meta =
     (if ty \<noteq> MYSQL_TYPE_STRING then (ty, 0)
      else if meta \<ge> 256 then
        let byte0 = meta div 256; byte1 = meta mod 256 in
        if byte0 AND 0x30 \<noteq> 0x30 then (byte0 OR 0x30, byte1 OR push_bit 4 ((byte0 AND 0x30) XOR 0x30))
        else (ty, byte1)
      else (ty, meta))"

text \<open>A string behind its length, a number of \<open>n\<close> bytes.\<close>

definition counted :: "byte list \<Rightarrow> nat \<Rightarrow> nat \<Rightarrow> nat res \<Rightarrow> (pyval \<times> nat) res" where
  "counted b p n len = fbind len (\<lambda>l. fmap (\<lambda>v. (v, (n + l) mod 2 ^ 32)) (py_bytes b (p + n) l))"

text \<open>The cases of the switch from \<open>MYSQL_TYPE_SET\<close> on: values that are bytes of the row, floating point and
  decimal numbers. \<open>doubleget\<close> reads two numbers of type \<open>long\<close>, of 8 bytes each.\<close>

definition decode_bytes_item :: "byte list \<Rightarrow> nat \<Rightarrow> nat \<Rightarrow> nat \<Rightarrow> nat \<Rightarrow> (pyval \<times> nat) res" where
  "decode_bytes_item b p ty len meta =
    (if ty = MYSQL_TYPE_SET then
       if meta mod 256 > 32 then Inl Buffer_overflow
       else fmap (\<lambda>v. (v, meta mod 256)) (py_bytes b p (meta mod 256))
     else if ty = MYSQL_TYPE_BLOB then
       if meta = 1 then counted b p 1 (uint1 b p)
       else if meta = 2 then counted b p 2 (uint2korr b p)
       else if meta = 3 then counted b p 3 (uint3korr b p)
       else if meta = 4 then counted b p 4 (uint4korr b p)
       else Inr (PText (''type isn'' @ [CHR 0x27] @ ''t support''), 0)
     else if ty = MYSQL_TYPE_VARCHAR \<or> ty = MYSQL_TYPE_VAR_STRING then
       if meta < 256 then counted b p 1 (uint1 b p) else counted b p 2 (uint2korr b p)
     else if ty = MYSQL_TYPE_STRING then
       if len < 256 then counted b p 1 (uint1 b p) else counted b p 2 (uint2korr b p)
     else if ty = MYSQL_TYPE_BIT then
       let n = ((meta div 256) * 8 + meta mod 256 + 7) div 8 in
       if n > 16 then Inl Buffer_overflow else fmap (\<lambda>v. (v, n)) (py_bytes b p n)
     else if ty = MYSQL_TYPE_FLOAT then fmap (\<lambda>w. (PFloat w, 4)) (rd 4 b p)
     else if ty = MYSQL_TYPE_DOUBLE then
       fbind (rd 8 b p) (\<lambda>w. fmap (\<lambda>more. (PDouble w, 8)) (rd 8 b (p + 8) :: 64 word res))
     else if ty = MYSQL_TYPE_NEWDECIMAL then
       fbind (bin2decimal b p (int (meta div 256 mod 256)) (int (meta mod 256))) (\<lambda>d. fmap (\<lambda>s. (PText s, 0)) (show_decimal d))
     else Inr (PInt 0, 0))"

text \<open>\<open>_decodeRowImageItem\<close>: the value and how far the position moves (a \<open>uint32\<close>).\<close>

definition decodeRowImageItem :: "byte list \<Rightarrow> nat \<Rightarrow> nat \<Rightarrow> nat \<Rightarrow> (pyval \<times> nat) res" where
  "decodeRowImageItem b p ty0 meta = (case string_type ty0 meta of (ty, len) \<Rightarrow>
     if ty = MYSQL_TYPE_LONG then fmap (\<lambda>i. (PInt i, 4)) (sint4korr b p)
     else if ty = MYSQL_TYPE_TINY then fmap (\<lambda>i. (PInt i, 1)) (sint1 b p)
     else if ty = MYSQL_TYPE_SHORT then fmap (\<lambda>i. (PInt i, 2)) (sint2korr b p)
     else if ty = MYSQL_TYPE_LONGLONG then fmap (\<lambda>i. (PInt i, 8)) (sint8korr b p)
     else if ty = MYSQL_TYPE_INT24 then fmap (\<lambda>i. (PInt i, 3)) (sint3korr b p)
     else if ty = MYSQL_TYPE_TIMESTAMP then fmap (\<lambda>i. (PInt i, 4)) (sint4korr b p)
     else if ty = MYSQL_TYPE_DATETIME then fmap (\<lambda>ll.
         (PText (show_date (to_i32 (int (ll div 1000000))) @ '' '' @ show_time (int (ll mod 1000000)) @ [NUL]), 8)) (uint8korr b p)
     else if ty = MYSQL_TYPE_TIME then fmap (\<lambda>i. (PText ([CHR 0x27] @ show_time (int i) @ [CHR 0x27]), 3)) (uint3korr b p)
     else if ty = MYSQL_TYPE_NEWDATE then fmap (\<lambda>i. (PText (show_newdate i), 3)) (uint3korr b p)
     else if ty = MYSQL_TYPE_DATE then fmap (\<lambda>i. (PText ([CHR 0x27] @ show_pad 4 (int (i div 512)) @ ''-''
         @ show_pad 2 (int (i div 32 mod 16)) @ ''-'' @ show_pad 2 (int (i mod 32)) @ [CHR 0x27]), 3)) (uint3korr b p)
     else if ty = MYSQL_TYPE_YEAR then fmap (\<lambda>i. (PText (show_pad 4 (i + 1900)), 1)) (sint1 b p)
     else if ty = MYSQL_TYPE_ENUM then
       if meta mod 256 = 1 then fmap (\<lambda>i. (PText (show_int i), 1)) (sint1 b p)
       else if meta mod 256 = 2 then fmap (\<lambda>i. (PText (show_int (int i)), 2)) (uint2korr b p)
       else Inr (PText ''Error about MYSQL_TYPE_ENUM'', 0)
     else decode_bytes_item b p ty len meta)"

lemmas item_defs = decodeRowImageItem_def decode_bytes_item_def

subsection \<open>Rows\<close>

text \<open>A null column is the number 0.\<close>

fun decode_cols :: "nat \<Rightarrow> nat \<Rightarrow> tablemap \<Rightarrow> byte list \<Rightarrow> nat \<Rightarrow> nat \<Rightarrow> (pyval list \<times> nat) res" where
  "decode_cols 0 i tm b bm p = Inr ([], p)"
| "decode_cols (Suc n) i tm b bm p =
     fbind (uint1 b (bm + i div 8)) (\<lambda>w.
       if \<not> bit w (i mod 8) then
         fbind (fetch (tm_type tm) i) (\<lambda>ty.
         fbind (fetch (tm_meta tm) i) (\<lambda>meta.
         fbind (decodeRowImageItem b p ty meta) (\<lambda>(v, k).
         fmap (\<lambda>(vs, q). (v # vs, q)) (decode_cols n (i + 1) tm b bm (p + k)))))
       else fmap (\<lambda>(vs, q). (PInt 0 # vs, q)) (decode_cols n (i + 1) tm b bm p))"

definition decodeOneRow :: "tablemap \<Rightarrow> byte list \<Rightarrow> nat \<Rightarrow> (pyval list \<times> nat) res" where
  "decodeOneRow tm b p = decode_cols (tm_ncols tm) 0 tm b p (p + getBitmapSize tm)"

subsection \<open>What a writer of the log produces\<close>

text \<open>The column types on which the decoder follows the format, with the metadata of the table map, and the
  values of a row.\<close>

datatype column = Tiny | Short | Int24 | Long | Longlong | Timestamp | Varchar nat | Blob nat | Char nat | Float | Double

datatype colval = Num int | Bytes "byte list" | Single "32 word" | Dbl "64 word"

fun col_type :: "column \<Rightarrow> nat" where
  "col_type Tiny = 1" | "col_type Short = 2" | "col_type Long = 3" | "col_type Float = 4" | "col_type Double = 5"
| "col_type Timestamp = 7" | "col_type Longlong = 8" | "col_type Int24 = 9" | "col_type (Varchar n) = 15"
| "col_type (Blob k) = 252" | "col_type (Char n) = 254"

fun meta_bytes :: "column \<Rightarrow> byte list" where
  "meta_bytes (Varchar n) = le_bytes 2 (of_nat n :: 16 word)"
| "meta_bytes (Blob k) = [of_nat k]"
| "meta_bytes (Char n) = [254, of_nat n]"
| "meta_bytes Float = [4]"
| "meta_bytes Double = [8]"
| "meta_bytes _ = []"

fun col_meta :: "column \<Rightarrow> nat" where
  "col_meta (Varchar n) = n" | "col_meta (Blob k) = k" | "col_meta (Char n) = 254 * 256 + n"
| "col_meta Float = 4" | "col_meta Double = 8" | "col_meta _ = 0"

fun good_col :: "column \<Rightarrow> bool" where
  "good_col (Varchar n) = (n < 2 ^ 15)"
| "good_col (Blob k) = (1 \<le> k \<and> k \<le> 4)"
| "good_col (Char n) = (n < 256)"
| "good_col _ = True"

fun fits_col :: "column \<Rightarrow> colval \<Rightarrow> bool" where
  "fits_col Tiny (Num i) = (- (2 ^ 7) \<le> i \<and> i < 2 ^ 7)"
| "fits_col Short (Num i) = (- (2 ^ 15) \<le> i \<and> i < 2 ^ 15)"
| "fits_col Int24 (Num i) = (- (2 ^ 23) \<le> i \<and> i < 2 ^ 23)"
| "fits_col Long (Num i) = (- (2 ^ 31) \<le> i \<and> i < 2 ^ 31)"
| "fits_col Timestamp (Num i) = (- (2 ^ 31) \<le> i \<and> i < 2 ^ 31)"
| "fits_col Longlong (Num i) = (- (2 ^ 63) \<le> i \<and> i < 2 ^ 63)"
| "fits_col (Varchar n) (Bytes s) = (length s \<le> n)"
| "fits_col (Blob k) (Bytes s) = (length s < 2 ^ (8 * k) \<and> length s + 4 < 2 ^ 32)"
| "fits_col (Char n) (Bytes s) = (length s \<le> n)"
| "fits_col Float (Single w) = True"
| "fits_col Double (Dbl w) = True"
| "fits_col _ _ = False"

fun enc_val :: "column \<Rightarrow> colval \<Rightarrow> byte list" where
  "enc_val Tiny (Num i) = le_bytes 1 (word_of_int i :: 8 word)"
| "enc_val Short (Num i) = le_bytes 2 (word_of_int i :: 16 word)"
| "enc_val Int24 (Num i) = le_bytes 3 (word_of_int i :: 32 word)"
| "enc_val Long (Num i) = le_bytes 4 (word_of_int i :: 32 word)"
| "enc_val Timestamp (Num i) = le_bytes 4 (word_of_int i :: 32 word)"
| "enc_val Longlong (Num i) = le_bytes 8 (word_of_int i :: 64 word)"
| "enc_val (Varchar n) (Bytes s) = le_bytes (if n < 256 then 1 else 2) (of_nat (length s) :: 16 word) @ s"
| "enc_val (Blob k) (Bytes s) = le_bytes k (of_nat (length s) :: 32 word) @ s"
| "enc_val (Char n) (Bytes s) = le_bytes 1 (of_nat (length s) :: 16 word) @ s"
| "enc_val Float (Single w) = le_bytes 4 w"
| "enc_val Double (Dbl w) = le_bytes 8 w"
| "enc_val _ _ = []"

fun py :: "colval \<Rightarrow> pyval" where
  "py (Num i) = PInt i" | "py (Bytes s) = PBytes s" | "py (Single w) = PFloat w" | "py (Dbl w) = PDouble w"

subsection \<open>Reading what was written\<close>

lemma sint_word_of_int: "- (2 ^ (LENGTH('w) - 1)) \<le> i \<Longrightarrow> i < 2 ^ (LENGTH('w) - 1) \<Longrightarrow> sint (word_of_int i :: 'w::len word) = i"
  by (simp add: sint_sbintrunc' signed_take_bit_int_eq_self)

lemma take_bit_full [simp]: "take_bit 8 (w :: 8 word) = w" "take_bit 16 (x :: 16 word) = x" "take_bit 32 (y :: 32 word) = y"
  "take_bit 64 (z :: 64 word) = z"
  by (rule bit_word_eqI; auto simp: bit_simps)+

lemma sint24:
  assumes "- (2 ^ 23) \<le> i" "i < 2 ^ 23"
  shows "sint (if bit (take_bit 24 (word_of_int i :: 32 word)) 23 then take_bit 24 (word_of_int i) OR 0xFF000000 else take_bit 24 (word_of_int i :: 32 word)) = i"
proof -
  let ?w = "word_of_int i :: 32 word"
  have i: "signed_take_bit 23 i = i" using assms by (simp add: signed_take_bit_int_eq_self)
  have b: "bit ?w k \<longleftrightarrow> bit ?w 23" if "23 \<le> k" "k < 32" for k
  proof -
    have "bit i k \<longleftrightarrow> bit (signed_take_bit 23 i) k" unfolding i ..
    also have "\<dots> \<longleftrightarrow> bit i (min 23 k)" by (simp only: bit_signed_take_bit_iff possible_bit_def) simp
    also have "min 23 k = 23" using that(1) by simp
    finally have "bit i k \<longleftrightarrow> bit i 23" .
    then show ?thesis using that by (simp add: bit_word_of_int_iff)
  qed
  have m: "bit (0xFF000000 :: 32 word) k \<longleftrightarrow> 24 \<le> k" if "k < 32" for k
  proof -
    have e: "(0xFF000000 :: 32 word) = push_bit 24 (mask 8)" by (simp add: mask_eq_exp_minus_1)
    show ?thesis using that by (simp only: e bit_push_bit_iff bit_mask_iff possible_bit_word) auto
  qed
  have "(if bit (take_bit 24 ?w) 23 then take_bit 24 ?w OR 0xFF000000 else take_bit 24 ?w) = ?w"
  proof (rule bit_word_eqI)
    fix k assume "k < LENGTH(32)"
    then have k: "k < 32" by simp
    then show "bit (if bit (take_bit 24 ?w) 23 then take_bit 24 ?w OR 0xFF000000 else take_bit 24 ?w) k \<longleftrightarrow> bit ?w k"
      using b [of k] m [of k] by (cases "k < 24"; cases "bit ?w 23") (auto simp: bit_simps)
  qed
  moreover have "sint ?w = i" using assms by (intro sint_word_of_int) auto
  ultimately show ?thesis by simp
qed

lemma le_bytes_int:
  "uint1 (pre @ le_bytes 1 (x :: 'v::len word) @ post) (length pre) = Inr (unat (ucast (take_bit 8 x) :: 8 word))"
  unfolding uint1_def rd_le_bytes by simp

lemma string_type_other [simp]: "ty \<noteq> 254 \<Longrightarrow> string_type ty m = (ty, 0)"
  by (simp add: string_type_def mysql_types)

lemma string_type_char:
  assumes "n < 256"
  shows "string_type 254 (254 * 256 + n) = (254, n)"
proof -
  have d: "(254 * 256 + n) div 256 = 254" using assms by simp
  have m: "(254 * 256 + n) mod 256 = n" using assms mod_mult_self3 [of 254 256 n] by simp
  show ?thesis unfolding string_type_def mysql_types Let_def d m by simp
qed

lemma take_bit_len: "l < 2 ^ n \<Longrightarrow> take_bit n (of_nat l :: 'w::len word) = of_nat l"
  by (simp only: take_bit_of_nat take_bit_nat_eq_self)

lemma len_word:
  "l < 2 ^ 8 \<Longrightarrow> unat (ucast (take_bit 8 (of_nat l :: 16 word)) :: 8 word) = l"
  "l < 2 ^ 16 \<Longrightarrow> unat (ucast (take_bit 16 (of_nat l :: 16 word)) :: 16 word) = l"
  unfolding take_bit_len by (simp_all add: unsigned_ucast_eq unat_of_nat take_bit_nat_eq_self)

lemma counted_ok:
  assumes "len = Inr (length s)" "n + length s < 2 ^ 32" "length h = n"
  shows "counted (pre @ (h @ s) @ post) (length pre) n len = Inr (PBytes s, length (h @ s))"
  using assms by (simp add: counted_def py_bytes_def)

lemma blob_len:
  assumes "1 \<le> k" "k \<le> 4" "l < 2 ^ (8 * k)"
  shows "unat (ucast (take_bit (8 * k) (of_nat l :: 32 word)) :: 32 word) = l"
proof -
  have "(2::nat) ^ (8 * k) \<le> 2 ^ 32" using assms(2) by (intro power_increasing) auto
  then have "l < 2 ^ 32" using assms(3) by simp
  then show ?thesis unfolding take_bit_len [OF assms(3)] by (simp add: unat_of_nat)
qed

lemma item_roundtrip:
  assumes "good_col c" "fits_col c v" "c = Double \<Longrightarrow> 8 \<le> length post"
  shows "decodeRowImageItem (pre @ enc_val c v @ post) (length pre) (col_type c) (col_meta c) = Inr (py v, length (enc_val c v))"
proof (cases c)
  case [simp]: Tiny
  with assms obtain i where [simp]: "v = Num i" by (cases v) auto
  show ?thesis using assms unfolding item_defs sint1_def
    by (simp add: mysql_types rd_le_bytes sint_word_of_int del: le_bytes.simps One_nat_def)
next
  case [simp]: Short
  with assms obtain i where [simp]: "v = Num i" by (cases v) auto
  show ?thesis using assms unfolding item_defs sint2korr_def
    by (simp add: mysql_types rd_le_bytes sint_word_of_int del: le_bytes.simps)
next
  case [simp]: Int24
  with assms obtain i where [simp]: "v = Num i" by (cases v) auto
  show ?thesis using assms sint24 [of i] unfolding item_defs sint3korr_def
    by (simp add: mysql_types rd_le_bytes del: le_bytes.simps)
next
  case [simp]: Long
  with assms obtain i where [simp]: "v = Num i" by (cases v) auto
  show ?thesis using assms unfolding item_defs sint4korr_def
    by (simp add: mysql_types rd_le_bytes sint_word_of_int del: le_bytes.simps)
next
  case [simp]: Timestamp
  with assms obtain i where [simp]: "v = Num i" by (cases v) auto
  show ?thesis using assms unfolding item_defs sint4korr_def
    by (simp add: mysql_types rd_le_bytes sint_word_of_int del: le_bytes.simps)
next
  case [simp]: Longlong
  with assms obtain i where [simp]: "v = Num i" by (cases v) auto
  show ?thesis using assms unfolding item_defs sint8korr_def
    by (simp add: mysql_types rd_le_bytes sint_word_of_int del: le_bytes.simps)
next
  case [simp]: Float
  with assms obtain w where [simp]: "v = Single w" by (cases v) auto
  show ?thesis unfolding item_defs
    by (simp add: mysql_types rd_le_bytes del: le_bytes.simps)
next
  case [simp]: Double
  with assms obtain w where [simp]: "v = Dbl w" by (cases v) auto
  have "rd 8 (pre @ le_bytes 8 w @ post) (length pre + 8) = Inr (le_word (take 8 post) :: 64 word)"
    using assms(3) by (simp add: rd_def)
  then show ?thesis unfolding item_defs
    by (simp add: mysql_types rd_le_bytes del: le_bytes.simps)
next
  case c: (Varchar n)
  with assms obtain s where s: "v = Bytes s" "length s \<le> n" "n < 2 ^ 15" by (cases v) auto
  show ?thesis
  proof (cases "n < 256")
    case True
    let ?h = "le_bytes 1 (of_nat (length s) :: 16 word)"
    have "length s < 2 ^ 8" using s True by simp
    then have "uint1 (pre @ (?h @ s) @ post) (length pre) = Inr (length s)"
      using le_bytes_int [of pre "of_nat (length s) :: 16 word" "s @ post"] len_word(1) by simp
    from counted_ok [OF this, of 1 ?h] s True show ?thesis
      unfolding item_defs by (simp add: c mysql_types del: le_bytes.simps One_nat_def)
  next
    case False
    let ?h = "le_bytes 2 (of_nat (length s) :: 16 word)"
    have "length s < 2 ^ 16" using s by simp
    then have "uint2korr (pre @ (?h @ s) @ post) (length pre) = Inr (length s)"
      using rd_le_bytes [of 2 pre "of_nat (length s) :: 16 word" "s @ post", where 'w = 16] len_word(2)
      by (simp add: uint2korr_def del: le_bytes.simps)
    from counted_ok [OF this, of 2 ?h] s False show ?thesis
      unfolding item_defs by (simp add: c mysql_types del: le_bytes.simps)
  qed
next
  case c: (Char n)
  with assms obtain s where s: "v = Bytes s" "length s \<le> n" "n < 256" by (cases v) auto
  let ?h = "le_bytes 1 (of_nat (length s) :: 16 word)"
  have "length s < 2 ^ 8" using s by simp
  then have "uint1 (pre @ (?h @ s) @ post) (length pre) = Inr (length s)"
    using le_bytes_int [of pre "of_nat (length s) :: 16 word" "s @ post"] len_word(1) by simp
  from counted_ok [OF this, of 1 ?h] s string_type_char [OF s(3)] show ?thesis
    unfolding item_defs by (simp add: c mysql_types del: le_bytes.simps One_nat_def)
next
  case c: (Blob k)
  with assms obtain s where s: "v = Bytes s" "length s < 2 ^ (8 * k)" "length s + 4 < 2 ^ 32" by (cases v) auto
  let ?h = "le_bytes k (of_nat (length s) :: 32 word)"
  from assms c have k: "1 \<le> k" "k \<le> 4" by auto
  have len: "k + length s < 2 ^ 32" using s k by simp
  have u: "unat (of_nat (length s) :: 32 word) = length s" using s(3) by (simp add: unat_of_nat)
  consider "k = 1" | "k = 2" | "k = 3" | "k = 4" using k by linarith
  then show ?thesis
  proof cases
    case 1
    have "uint1 (pre @ (?h @ s) @ post) (length pre) = Inr (length s)"
      using rd_le_bytes [of 1 pre "of_nat (length s) :: 32 word" "s @ post", where 'w = 8] s(2) u unfolding uint1_def 1 take_bit_len [OF s(2) [unfolded 1]]
      by (simp add: unsigned_ucast_eq take_bit_nat_eq_self del: le_bytes.simps One_nat_def)
    from counted_ok [OF this len] 1 s show ?thesis
      unfolding item_defs by (simp add: c mysql_types del: le_bytes.simps One_nat_def)
  next
    case 2
    have "uint2korr (pre @ (?h @ s) @ post) (length pre) = Inr (length s)"
      using rd_le_bytes [of 2 pre "of_nat (length s) :: 32 word" "s @ post", where 'w = 16] s(2) u unfolding uint2korr_def 2 take_bit_len [OF s(2) [unfolded 2]]
      by (simp add: unsigned_ucast_eq take_bit_nat_eq_self del: le_bytes.simps)
    from counted_ok [OF this len] 2 s show ?thesis
      unfolding item_defs by (simp add: c mysql_types del: le_bytes.simps)
  next
    case 3
    have "uint3korr (pre @ (?h @ s) @ post) (length pre) = Inr (length s)"
      using rd_le_bytes [of 3 pre "of_nat (length s) :: 32 word" "s @ post", where 'w = 32] s(2) u unfolding uint3korr_def 3 take_bit_len [OF s(2) [unfolded 3]]
      by (simp add: del: le_bytes.simps)
    from counted_ok [OF this len] 3 s show ?thesis
      unfolding item_defs by (simp add: c mysql_types del: le_bytes.simps)
  next
    case 4
    have "uint4korr (pre @ (?h @ s) @ post) (length pre) = Inr (length s)"
      using rd_le_bytes [of 4 pre "of_nat (length s) :: 32 word" "s @ post", where 'w = 32] s(2) u unfolding uint4korr_def 4 take_bit_len [OF s(2) [unfolded 4]]
      by (simp add: del: le_bytes.simps)
    from counted_ok [OF this len] 4 s show ?thesis
      unfolding item_defs by (simp add: c mysql_types del: le_bytes.simps)
  qed
qed

subsection \<open>A row and its table map\<close>

definition null_bitmap :: "bool list \<Rightarrow> byte list" where
  "null_bitmap ns = map (\<lambda>j. horner_sum of_bool 2 (take 8 (drop (8 * j) ns))) [0..<(length ns + 7) div 8]"

lemma length_null_bitmap [simp]: "length (null_bitmap ns) = (length ns + 7) div 8"
  by (simp add: null_bitmap_def)

lemma bit_null_bitmap:
  assumes "i < length ns"
  shows "bit (null_bitmap ns ! (i div 8)) (i mod 8) = ns ! i"
proof -
  have "i div 8 < (length ns + 7) div 8" using assms by linarith
  then have e: "null_bitmap ns ! (i div 8) = horner_sum of_bool 2 (take 8 (drop (8 * (i div 8)) ns))"
    by (simp add: null_bitmap_def)
  have k: "i mod 8 < 8" "8 * (i div 8) + i mod 8 = i" by simp_all
  have "i mod 8 < length ns - 8 * (i div 8)" using assms k(2) by linarith
  then show ?thesis unfolding e using k by (simp add: bit_horner_sum_bit_word_iff)
qed

lemma rd_byte: "p < length b \<Longrightarrow> uint1 b p = Inr (unat (b ! p))"
  unfolding uint1_def rd_def by (simp add: Cons_nth_drop_Suc [symmetric])

lemma uint1_bitmap:
  assumes "i < length ns"
  shows "\<exists>w. uint1 (pre @ null_bitmap ns @ post) (length pre + i div 8) = Inr w \<and> bit w (i mod 8) = ns ! i"
proof -
  have "i div 8 < (length ns + 7) div 8" using assms by linarith
  then have "uint1 (pre @ null_bitmap ns @ post) (length pre + i div 8) = Inr (unat (null_bitmap ns ! (i div 8)))"
    by (simp add: rd_byte nth_append)
  then show ?thesis using bit_null_bitmap [OF assms] by (auto simp: bit_unsigned_iff)
qed

fun enc_vals :: "column list \<Rightarrow> colval option list \<Rightarrow> byte list" where
  "enc_vals (c # cs) (Some v # vs) = enc_val c v @ enc_vals cs vs"
| "enc_vals (c # cs) (None # vs) = enc_vals cs vs"
| "enc_vals _ _ = []"

definition enc_row :: "column list \<Rightarrow> colval option list \<Rightarrow> byte list" where
  "enc_row cs vs = null_bitmap (map Option.is_none vs) @ enc_vals cs vs"

definition py_opt :: "colval option \<Rightarrow> pyval" where
  "py_opt v = (case v of None \<Rightarrow> PInt 0 | Some x \<Rightarrow> py x)"

definition row_fits :: "column \<Rightarrow> colval option \<Rightarrow> bool" where
  "row_fits c v = (good_col c \<and> (case v of None \<Rightarrow> True | Some x \<Rightarrow> fits_col c x))"

definition table_has :: "column list \<Rightarrow> nat \<Rightarrow> tablemap \<Rightarrow> bool" where
  "table_has cs i tm = (\<forall>j<length cs. fetch (tm_type tm) (i + j) = Inr (col_type (cs ! j)) \<and> fetch (tm_meta tm) (i + j) = Inr (col_meta (cs ! j)))"

lemma table_has_Cons:
  "table_has (c # cs) i tm \<longleftrightarrow> fetch (tm_type tm) i = Inr (col_type c) \<and> fetch (tm_meta tm) i = Inr (col_meta c) \<and> table_has cs (Suc i) tm"
  by (auto simp: table_has_def All_less_Suc2)

lemma decode_cols_ok:
  assumes "list_all2 row_fits cs vs" "table_has cs i tm" "b = pre @ enc_vals cs vs @ post"
    "\<And>j. j < length vs \<Longrightarrow> \<exists>w. uint1 b (bm + (i + j) div 8) = Inr w \<and> bit w ((i + j) mod 8) = (vs ! j = None)"
    "Double \<in> set cs \<Longrightarrow> 8 \<le> length post"
  shows "decode_cols (length cs) i tm b bm (length pre) = Inr (map py_opt vs, length pre + length (enc_vals cs vs))"
  using assms
proof (induction arbitrary: i pre rule: list_all2_induct)
  case (Cons c cs v vs)
  from Cons.prems(3) [of 0] obtain w where w: "uint1 b (bm + i div 8) = Inr w" "bit w (i mod 8) = (v = None)" by auto
  have tl: "\<exists>w. uint1 b (bm + (Suc i + j) div 8) = Inr w \<and> bit w ((Suc i + j) mod 8) = (vs ! j = None)" if "j < length vs" for j
    using Cons.prems(3) [of "Suc j"] that by simp
  have dbl: "Double \<in> set cs \<Longrightarrow> 8 \<le> length post" using Cons.prems(4) by simp
  from Cons.prems(1) have th: "table_has cs (Suc i) tm" and f: "fetch (tm_type tm) i = Inr (col_type c)" "fetch (tm_meta tm) i = Inr (col_meta c)"
    by (simp_all add: table_has_Cons)
  show ?case
  proof (cases v)
    case None
    have "b = pre @ enc_vals cs vs @ post" using Cons.prems(2) None by simp
    from Cons.IH [OF th this tl dbl] w None show ?thesis by (simp add: py_opt_def)
  next
    case (Some x)
    have b: "b = (pre @ enc_val c x) @ enc_vals cs vs @ post" using Cons.prems(2) Some by simp
    have "decodeRowImageItem b (length pre) (col_type c) (col_meta c) = Inr (py x, length (enc_val c x))"
    proof -
      have "8 \<le> length (enc_vals cs vs @ post)" if "c = Double"
        using Cons.prems(4) that by simp
      with item_roundtrip [of c x "enc_vals cs vs @ post" pre] Cons.hyps(1) Some show ?thesis
        unfolding b row_fits_def by simp
    qed
    with Cons.IH [OF th b tl dbl] w Some f show ?thesis by (simp add: py_opt_def)
  qed
qed simp

lemma decodeOneRow_ok:
  assumes "list_all2 row_fits cs vs" "table_has cs 0 tm" "tm_ncols tm = length cs"
    "Double \<in> set cs \<Longrightarrow> 8 \<le> length post"
  shows "decodeOneRow tm (pre @ enc_row cs vs @ post) (length pre) = Inr (map py_opt vs, length pre + length (enc_row cs vs))"
proof -
  let ?ns = "map Option.is_none vs"
  have len: "length cs = length vs" using assms(1) by (rule list_all2_lengthD)
  have "\<exists>w. uint1 (pre @ enc_row cs vs @ post) (length pre + (0 + j) div 8) = Inr w \<and> bit w ((0 + j) mod 8) = (vs ! j = None)" if "j < length vs" for j
    using uint1_bitmap [of j ?ns pre "enc_vals cs vs @ post"] that by (simp add: enc_row_def Option.is_none_def)
  from decode_cols_ok [OF assms(1,2) _ this assms(4), of "pre @ null_bitmap ?ns"] len assms(3) show ?thesis
    by (simp add: decodeOneRow_def getBitmapSize_def enc_row_def add.assoc)
qed

text \<open>The table map event: identifier, flags, the two names, the column types, their metadata behind its length,
  and one bit per column that may be null.\<close>

definition packed :: "nat \<Rightarrow> byte list" where
  "packed n = (if n < 251 then [of_nat n] else 252 # le_bytes 2 (of_nat n :: 16 word))"

definition enc_table :: "48 word \<Rightarrow> byte list \<Rightarrow> byte list \<Rightarrow> byte list \<Rightarrow> column list \<Rightarrow> bool list \<Rightarrow> byte list" where
  "enc_table tid flags db tab cs nulls =
     le_bytes 6 tid @ flags @ [of_nat (length db)] @ db @ [0, of_nat (length tab)] @ tab @ [0, of_nat (length cs)]
     @ map (of_nat \<circ> col_type) cs @ packed (length (concat (map meta_bytes cs))) @ concat (map meta_bytes cs) @ null_bitmap nulls"

lemma store_at: "i < length xs \<Longrightarrow> store i v xs = Inr (take i xs @ v # drop (Suc i) xs)"
  by (simp add: store_def upd_conv_take_nth_drop)

lemma column_meta_ok:
  assumes "good_col c"
  shows "column_meta (col_type c) (pre @ meta_bytes c @ post) (length pre) = Inr (col_meta c, length (meta_bytes c))"
proof (cases c)
  case (Varchar n)
  then have n: "n < 2 ^ 15" using assms by simp
  have "sint (of_nat n :: 16 word) = int n" using sint_word_of_int [of "int n", where 'w = 16] n by simp
  then have "sint2korr (pre @ le_bytes 2 (of_nat n :: 16 word) @ post) (length pre) = Inr (int n)"
    unfolding sint2korr_def rd_le_bytes by simp
  then show ?thesis using n by (simp add: column_meta_def mysql_types Varchar del: le_bytes.simps)
next
  case (Blob k)
  then have "k = 1 \<or> k = 2 \<or> k = 3 \<or> k = 4" using assms by auto
  then show ?thesis by (auto simp: column_meta_def mysql_types rd_byte nth_append Blob)
next
  case (Char n)
  then show ?thesis using assms by (simp add: column_meta_def mysql_types rd_byte nth_append unat_of_nat)
qed (simp_all add: column_meta_def mysql_types rd_byte nth_append)

lemma decodeMetaData_ok:
  assumes "list_all good_col cs" "b = pre @ concat (map meta_bytes cs) @ post" "i + length cs \<le> length metas"
    "\<And>j. j < length cs \<Longrightarrow> uint1 b (tp + (i + j)) = Inr (col_type (cs ! j))"
  shows "decodeMetaData (length cs) i b tp (length pre) metas = Inr (take i metas @ map col_meta cs @ drop (i + length cs) metas)"
  using assms
proof (induction cs arbitrary: i pre metas)
  case (Cons c cs)
  let ?m = "take i metas @ col_meta c # drop (Suc i) metas"
  have tl: "\<And>j. j < length cs \<Longrightarrow> uint1 b (tp + (Suc i + j)) = Inr (col_type (cs ! j))"
    using Cons.prems(4) [of "Suc _"] by simp
  have t: "uint1 b (tp + i) = Inr (col_type c)" using Cons.prems(4) [of 0] by simp
  have i: "i < length metas" using Cons.prems(3) by simp
  have m: "column_meta (col_type c) b (length pre) = Inr (col_meta c, length (meta_bytes c))"
    using column_meta_ok [of c pre "concat (map meta_bytes cs) @ post"] Cons.prems(1,2) by simp
  have "decodeMetaData (length cs) (Suc i) b tp (length (pre @ meta_bytes c)) ?m
      = Inr (take (Suc i) ?m @ map col_meta cs @ drop (Suc i + length cs) ?m)"
    using Cons.prems i tl by (intro Cons.IH) auto
  with t m i show ?case by (simp add: store_at min_def Cons.prems(3) add.commute)
qed simp

lemma real_type_ok: "good_col c \<Longrightarrow> real_type (col_type c) (col_meta c) = col_type c"
proof (cases c)
  case (Char n)
  assume "good_col c"
  then have d: "(254 * 256 + n) div 256 = 254" using Char by simp
  show ?thesis unfolding Char col_type.simps col_meta.simps real_type_def Let_def d mysql_types by simp
qed (simp_all add: real_type_def mysql_types)

lemma decodeDataType_ok:
  assumes "list_all good_col cs" "i + length cs \<le> length types"
    "\<And>j. j < length cs \<Longrightarrow> uint1 b (tp + (i + j)) = Inr (col_type (cs ! j)) \<and> fetch metas (i + j) = Inr (col_meta (cs ! j))"
  shows "decodeDataType (length cs) i b tp metas types = Inr (take i types @ map col_type cs @ drop (i + length cs) types)"
  using assms
proof (induction cs arbitrary: i types)
  case (Cons c cs)
  let ?t = "take i types @ col_type c # drop (Suc i) types"
  have tl: "\<And>j. j < length cs \<Longrightarrow> uint1 b (tp + (Suc i + j)) = Inr (col_type (cs ! j)) \<and> fetch metas (Suc i + j) = Inr (col_meta (cs ! j))"
    using Cons.prems(3) [of "Suc _"] by simp
  have t: "uint1 b (tp + i) = Inr (col_type c)" "fetch metas i = Inr (col_meta c)" using Cons.prems(3) [of 0] by simp_all
  have i: "i < length types" using Cons.prems(2) by simp
  have "decodeDataType (length cs) (Suc i) b tp metas ?t = Inr (take (Suc i) ?t @ map col_type cs @ drop (Suc i + length cs) ?t)"
    using Cons.prems i tl by (intro Cons.IH) auto
  with t i Cons.prems(1) show ?case by (simp add: store_at min_def Cons.prems(2) real_type_ok add.commute)
qed simp

lemma decodeNullAble_ok:
  assumes "i + n \<le> length nulls" "i + n \<le> length ns"
    "\<And>j. j < length ns \<Longrightarrow> \<exists>w. uint1 b (np + j div 8) = Inr w \<and> bit w (j mod 8) = ns ! j"
  shows "decodeNullAble n i b np nulls = Inr (take i nulls @ take n (drop i ns) @ drop (i + n) nulls)"
  using assms
proof (induction n arbitrary: i nulls)
  case (Suc n)
  from Suc.prems(3) [of i] Suc.prems(2) obtain w where w: "uint1 b (np + i div 8) = Inr w" "bit w (i mod 8) = ns ! i" by auto
  let ?t = "take i nulls @ ns ! i # drop (Suc i) nulls"
  have i: "i < length nulls" "i < length ns" using Suc.prems by simp_all
  have d: "drop i ns = ns ! i # drop (Suc i) ns" using i(2) by (rule Cons_nth_drop_Suc [symmetric])
  have "decodeNullAble n (Suc i) b np ?t = Inr (take (Suc i) ?t @ take n (drop (Suc i) ns) @ drop (Suc i + n) ?t)"
    using Suc.prems by (intro Suc.IH) auto
  with w i d show ?case by (simp add: store_at min_def add.commute)
qed simp

lemma packed_ok:
  assumes "n < 2 ^ 16"
  shows "DecodePacketInt (pre @ packed n @ post) (length pre) = Inr (int n, length (packed n))"
proof (cases "n < 251")
  case True
  then show ?thesis by (simp add: DecodePacketInt_def packed_def rd_byte nth_append unat_of_nat)
next
  case False
  have "uint2korr ((pre @ [252]) @ le_bytes 2 (of_nat n :: 16 word) @ post) (length (pre @ [252])) = Inr n"
    using assms by (simp only: uint2korr_def rd_le_bytes) (simp add: unat_of_nat)
  then have "uint2korr (pre @ 252 # le_bytes 2 (of_nat n :: 16 word) @ post) (length pre + 1) = Inr n"
    by (simp del: le_bytes.simps)
  then show ?thesis using False by (simp add: DecodePacketInt_def packed_def rd_byte nth_append del: le_bytes.simps)
qed

lemma copy_name_ok:
  "length s \<le> 128 \<Longrightarrow> p = length pre \<Longrightarrow> copy_name (pre @ s @ post) p (length s) = Inr (s @ replicate (128 - length s) 0)"
  by (simp add: copy_name_def NAME_MAX_LENGTH_def)


lemma uint1_at: "p = length pre \<Longrightarrow> uint1 (pre @ x # post) p = Inr (unat x)"
  by (simp add: rd_byte)

lemma uint6_at: "uint6korr (pre @ le_bytes 6 (tid :: 48 word) @ post) (length pre) = Inr (unat tid)"
proof -
  have "take_bit 48 tid = tid" by (rule bit_word_eqI) (auto simp: bit_simps)
  moreover have u: "unat tid < 2 ^ 64" using unsigned_less [of tid, where 'a = nat] by simp
  ultimately show ?thesis unfolding uint6korr_def rd_le_bytes using u by (simp add: unsigned_ucast_eq take_bit_nat_eq_self)
qed

lemma length_metas: "length (concat (map meta_bytes cs)) \<le> 2 * length cs"
proof (induction cs)
  case (Cons c cs)
  have "length (meta_bytes c) \<le> 2" by (cases c) simp_all
  with Cons show ?case by simp
qed simp

lemma process_tablemap_ok:
  assumes cs: "list_all good_col cs" "length cs \<le> 128" and ns: "length nulls = length cs"
    and names: "length db \<le> 128" "length tab \<le> 128" "length flags = 2"
    and tm: "length (tm_meta tm) = 128" "length (tm_type tm) = 128" "length (tm_null tm) = 128"
  shows "process_tablemap (pre @ enc_table tid flags db tab cs nulls @ post) (length pre) tm = Inr
    \<lparr>tm_id = unat tid, tm_ncols = length cs, tm_meta = map col_meta cs @ drop (length cs) (tm_meta tm),
     tm_type = map col_type cs @ drop (length cs) (tm_type tm), tm_null = nulls @ drop (length cs) (tm_null tm),
     tm_table = tab @ replicate (128 - length tab) 0, tm_db = db @ replicate (128 - length db) 0\<rparr>"
proof -
  let ?t = "map (of_nat \<circ> col_type) cs :: byte list" and ?m = "concat (map meta_bytes cs)" and ?n = "null_bitmap nulls"
  let ?p1 = "pre @ le_bytes 6 tid @ flags" and ?b = "pre @ enc_table tid flags db tab cs nulls @ post"
  let ?p2 = "?p1 @ of_nat (length db) # db @ [0]"
  let ?p3 = "?p2 @ of_nat (length tab) # tab @ [0]"
  let ?p4 = "?p3 @ [of_nat (length cs)]"
  let ?p5 = "?p4 @ ?t"
  let ?p6 = "?p5 @ packed (length ?m)"
  let ?p7 = "?p6 @ ?m"
  have lm: "length ?m < 2 ^ 16" using length_metas [of cs] cs(2) by simp
  have b1: "?b = ?p1 @ of_nat (length db) # (db @ 0 # of_nat (length tab) # tab @ 0 # of_nat (length cs) # ?t @ packed (length ?m) @ ?m @ ?n @ post)"
    and b1': "?b = (?p1 @ [of_nat (length db)]) @ db @ (0 # of_nat (length tab) # tab @ 0 # of_nat (length cs) # ?t @ packed (length ?m) @ ?m @ ?n @ post)"
    and b2: "?b = ?p2 @ of_nat (length tab) # (tab @ 0 # of_nat (length cs) # ?t @ packed (length ?m) @ ?m @ ?n @ post)"
    and b2': "?b = (?p2 @ [of_nat (length tab)]) @ tab @ (0 # of_nat (length cs) # ?t @ packed (length ?m) @ ?m @ ?n @ post)"
    and b3: "?b = ?p3 @ packed (length cs) @ (?t @ packed (length ?m) @ ?m @ ?n @ post)"
    and b4: "?b = ?p4 @ ?t @ (packed (length ?m) @ ?m @ ?n @ post)"
    and b5: "?b = ?p5 @ packed (length ?m) @ (?m @ ?n @ post)"
    and b6: "?b = ?p6 @ ?m @ (?n @ post)"
    and b7: "?b = ?p7 @ ?n @ post"
    using cs(2) by (simp_all add: enc_table_def packed_def del: le_bytes.simps)
  have r0: "uint6korr ?b (length pre) = Inr (unat tid)"
    using uint6_at unfolding enc_table_def by (simp del: le_bytes.simps)
  have r1: "uint1 ?b (length pre + 8) = Inr (length db)"
    unfolding b1 using uint1_at [of "length pre + 8" ?p1 "of_nat (length db)"] names by (simp add: unat_of_nat del: le_bytes.simps)
  have r2: "copy_name ?b (length pre + 9) (length db) = Inr (db @ replicate (128 - length db) 0)"
    unfolding b1' using names by (intro copy_name_ok) simp_all
  have r3: "uint1 ?b (length ?p2) = Inr (length tab)"
    unfolding b2 using uint1_at [of "length ?p2" ?p2 "of_nat (length tab)"] names by (simp add: unat_of_nat del: le_bytes.simps)
  have r4: "copy_name ?b (length ?p2 + 1) (length tab) = Inr (tab @ replicate (128 - length tab) 0)"
    unfolding b2' using names by (intro copy_name_ok) simp_all
  have r5: "DecodePacketInt ?b (length ?p3) = Inr (int (length cs), 1)"
    unfolding b3 packed_ok [OF le_less_trans [OF cs(2)], simplified] using cs(2) by (simp add: packed_def)
  have r6: "DecodePacketInt ?b (length ?p5) = Inr (int (length ?m), length (packed (length ?m)))"
    unfolding b5 using lm by (rule packed_ok)
  have ty: "uint1 ?b (length ?p4 + j) = Inr (col_type (cs ! j))" if "j < length cs" for j
  proof -
    have "col_type (cs ! j) < 256" by (cases "cs ! j") simp_all
    then show ?thesis unfolding b4 using that by (simp add: rd_byte nth_append unat_of_nat)
  qed
  have r7: "decodeMetaData (length cs) 0 ?b (length ?p4) (length ?p6) (tm_meta tm) = Inr (map col_meta cs @ drop (length cs) (tm_meta tm))"
    using decodeMetaData_ok [OF cs(1) b6, of 0] cs(2) tm ty by simp
  have r8: "decodeDataType (length cs) 0 ?b (length ?p4) (map col_meta cs @ drop (length cs) (tm_meta tm)) (tm_type tm)
      = Inr (map col_type cs @ drop (length cs) (tm_type tm))"
    using decodeDataType_ok [OF cs(1), of 0] cs(2) tm ty by (simp add: fetch_def nth_append)
  have r9: "decodeNullAble (length cs) 0 ?b (length ?p7) (tm_null tm) = Inr (nulls @ drop (length cs) (tm_null tm))"
    using decodeNullAble_ok [of 0 "length cs" "tm_null tm" nulls ?b "length ?p7"] uint1_bitmap [of _ nulls ?p7 post] cs(2) tm ns
    unfolding b7 by simp
  have np: "length pre + nat ((int (length ?p6 - length pre) + int (length ?m)) mod 2 ^ 32) = length ?p7"
  proof -
    have "length (packed (length ?m)) \<le> 3" by (simp add: packed_def)
    then have "length ?p7 - length pre < 2 ^ 32" using names cs(2) length_metas [of cs] by simp
    moreover have "int (length ?p6 - length pre) + int (length ?m) = int (length ?p7 - length pre)" by simp
    ultimately show ?thesis by simp
  qed
  have o1: "length pre + 9 + length db + 1 = length ?p2" "length ?p2 + 1 + length tab + 1 = length ?p3"
      "length ?p3 + 1 = length ?p4" "length ?p4 + length cs = length ?p5" "length ?p5 + length (packed (length ?m)) = length ?p6"
    using names by simp_all
  have nc: "nat (int (length cs) mod 2 ^ 16) = length cs" using cs(2) by simp
  show ?thesis
    unfolding process_tablemap_def r0 r1 r2 r3 r4 r5 r6 r7 r8 r9 o1 np nc fbind_Inr prod.case Let_def fmap_Inr by (rule refl)
qed

subsection \<open>Where the decoder leaves the format\<close>

text \<open>A column BIT(10) has the metadata 2 bits and 1 byte and takes two bytes of the row; the shift of the sum makes it three.\<close>

lemma bit_column_size: "column_meta MYSQL_TYPE_BIT [2, 1] 0 = Inr (768, 2)"
    "decodeRowImageItem [1, 2, 3] 0 MYSQL_TYPE_BIT 768 = Inr (PBytes [1, 2, 3], 3)"
  by code_simp+

lemma show_digits: "n < 10 \<Longrightarrow> show_nat n = [digit_char n]" "10 \<le> n \<Longrightarrow> show_nat n = show_nat (n div 10) @ [digit_char (n mod 10)]"
  by (simp_all add: show_nat.simps [of n])

lemma digit_values [simp]: "digit_char 0 = CHR ''0''" "digit_char 1 = CHR ''1''" "digit_char (Suc 0) = CHR ''1''" "digit_char 2 = CHR ''2''"
  "digit_char 3 = CHR ''3''" "digit_char 4 = CHR ''4''" "digit_char 5 = CHR ''5''" "digit_char 6 = CHR ''6''" "digit_char 7 = CHR ''7''"
  "digit_char 8 = CHR ''8''" "digit_char 9 = CHR ''9''"
  by code_simp+

text \<open>12.34 in a column DECIMAL(4,2): nine digits per group, and the position stays where it is.\<close>

lemma decimal_not_passed:
  "decodeRowImageItem [0x8C, 0x22] 0 MYSQL_TYPE_NEWDECIMAL (4 * 256 + 2) = Inr (PText ''000000012.340000000'', 0)"
proof -
  have "bin2decimal [0x8C, 0x22] 0 4 2 = Inr \<lparr>dc_intg = 2, dc_frac = 2, dc_sign = False, dc_buf = [12, 340000000, 2, 3, 4, 5, 6, 7, 8]\<rparr>"
  proof -
    have i: "decimal_bin_size 4 2 = Inr 2" "dig2bytes 2 = Inr 1" by code_simp+
    have h: "mi_sint (Suc 0) [0x0C, 0x22] 0 = Inr 12" "mi_sint (Suc 0) [0x0C, 0x22] (Suc 0) = Inr 34" by code_simp+
    have x: "bit (0x8C :: byte) 7" "(0x8C XOR 0x80 :: byte) = 0x0C" "map int [0..<DECIMAL_BUFF_LENGTH] = [0, 1, 2, 3, 4, 5, 6, 7, 8]"
      by code_simp+
    show ?thesis unfolding bin2decimal_def
      by (simp add: fetch_def Let_def i h x c_div_def obind_def head_group_def tail_group_def put_group_def store_def xor_int_def
        INT_MAX_def DIG_MAX_def)
  qed
  moreover have r: "replicate 7 CHR ''0'' = ''0000000''" by code_simp
  ultimately show ?thesis
    by (simp add: item_defs mysql_types show_decimal_def round_up_def c_div_def show_groups.simps fetch_def show_pad_def
      show_digits r)
qed

text \<open>The year 2100, an ENUM with 200 members, and a datetime with its terminating zero in the value.\<close>

lemma year_wraps: "decodeRowImageItem [200] 0 MYSQL_TYPE_YEAR 0 = Inr (PText ''1844'', 1)"
  by (simp add: item_defs mysql_types sint1_def rd_def show_pad_def show_digits)

lemma enum_wraps: "decodeRowImageItem [200] 0 MYSQL_TYPE_ENUM (247 * 256 + 1) = Inr (PText ''-56'', 1)"
  by (simp add: item_defs mysql_types sint1_def rd_def show_int_def show_digits)

lemma datetime_keeps_nul:
  "decodeRowImageItem (le_bytes 8 (20111224182500 :: 64 word)) 0 MYSQL_TYPE_DATETIME 0 = Inr (PText (''2011-12-24 18:25:00'' @ [NUL]), 8)"
proof -
  have "uint8korr (le_bytes 8 (20111224182500 :: 64 word)) 0 = Inr 20111224182500"
    using rd_le_bytes [of 8 "[]" "20111224182500 :: 64 word" "[]", where 'w = 64] by (simp add: uint8korr_def del: le_bytes.simps)
  then show ?thesis
    by (simp add: item_defs mysql_types to_i32_def show_date_def show_time_def c_div_def c_mod_def show_pad_def
      show_digits del: le_bytes.simps)
qed

text \<open>A double at the end of the buffer: the 8 bytes behind it are read too.\<close>

lemma double_overread: "decodeRowImageItem (le_bytes 8 (w :: 64 word)) 0 MYSQL_TYPE_DOUBLE 8 = Inl Out_of_bounds"
  by (simp add: item_defs mysql_types rd_def del: le_bytes.simps)

text \<open>A null column and the number 0 give the same value.\<close>

lemma null_is_zero: "py_opt None = py_opt (Some (Num 0))"
  by (simp add: py_opt_def)

subsection \<open>Round trip\<close>

text \<open>C29. A table map event, written with any identifier, names of at most 128 bytes and at most 128 columns of
  the integer, string, blob and floating point types, leaves a table map with which every row of that table is
  decoded to its own values, null columns by the bitmap, and the position ends behind the row; and the map has
  the names and the nullable columns that were written. With a column of type DOUBLE at least 8 bytes have to
  follow the row.\<close>

theorem binlog_row_roundtrip:
  assumes "list_all2 row_fits cs vs" "length cs \<le> 128" "length nulls = length cs"
    "length db \<le> 128" "length tab \<le> 128" "length flags = 2"
    "length (tm_meta tm) = 128" "length (tm_type tm) = 128" "length (tm_null tm) = 128"
    "Double \<in> set cs \<Longrightarrow> 8 \<le> length post2"
  shows "\<exists>tm'. process_tablemap (pre @ enc_table tid flags db tab cs nulls @ post) (length pre) tm = Inr tm'
    \<and> decodeOneRow tm' (pre2 @ enc_row cs vs @ post2) (length pre2) = Inr (map py_opt vs, length pre2 + length (enc_row cs vs))
    \<and> tm_id tm' = unat tid \<and> tm_ncols tm' = length cs \<and> take (length cs) (tm_null tm') = nulls
    \<and> take (length db) (tm_db tm') = db \<and> take (length tab) (tm_table tm') = tab"
proof -
  have "list_all good_col cs"
    using assms(1) by (auto simp: list_all_length list_all2_conv_all_nth row_fits_def)
  note p = process_tablemap_ok [OF this assms(2-9), of pre tid post]
  show ?thesis unfolding p
    by (rule exI, intro conjI, rule refl, rule decodeOneRow_ok [OF assms(1) _ _ assms(10)])
      (use assms in \<open>auto simp: table_has_def fetch_def nth_append\<close>)
qed

lemma binlog_row_roundtrip_witness:
  "\<exists>tm'. process_tablemap ([] @ enc_table 77 [1, 0] [100] [116] [Long, Varchar 20, Tiny] [False, True, True] @ []) (length ([] :: byte list)) no_tablemap = Inr tm'
    \<and> decodeOneRow tm' ([9] @ enc_row [Long, Varchar 20, Tiny] [Some (Num (-5)), Some (Bytes [104, 105]), None] @ [7]) (length [9 :: byte])
      = Inr (map py_opt [Some (Num (-5)), Some (Bytes [104, 105]), None], length [9 :: byte] + length (enc_row [Long, Varchar 20, Tiny] [Some (Num (-5)), Some (Bytes [104, 105]), None]))
    \<and> tm_id tm' = unat (77 :: 48 word) \<and> tm_ncols tm' = length [Long, Varchar 20, Tiny] \<and> take (length [Long, Varchar 20, Tiny]) (tm_null tm') = [False, True, True]
    \<and> take (length [100 :: byte]) (tm_db tm') = [100] \<and> take (length [116 :: byte]) (tm_table tm') = [116]"
  by (rule binlog_row_roundtrip) (simp_all add: row_fits_def no_tablemap_def MAX_COLUMNS_def)

end
