(* ===== verification/BinlogStream.thy ===== *)
theory BinlogStream
  imports BinlogRow
begin

section \<open>The stream of binary log events (ebinlog/BinlogRow.h, BinlogProcessor.cpp)\<close>

text \<open>
  \<open>CMyRowLogParser\<close> is called with the bytes that have arrived and not been consumed; it takes the complete
  events off the front, turns row events into rows and answers how many bytes it used. The 32-bit members
  are words. The loops take fuel, because the code can go round without moving; \<open>None\<close> is a loop that has not
  ended yet.
\<close>

subsection \<open>State\<close>

record binlog_event =
  ev_type :: nat
  ev_len :: "32 word"
  ev_pos :: nat

datatype row_change = Insert_row "pyval list" | Delete_row "pyval list" | Update_row "pyval list" "pyval list"

record row_item =
  ri_pos :: "byte list \<times> int \<times> int"
  ri_db :: "byte list"
  ri_table :: "byte list"
  ri_change :: row_change

record rowlog =
  rl_tablepos :: "32 word"
  rl_bufoff :: "32 word"
  rl_startpos :: "32 word"
  rl_logname :: "byte list"
  rl_stat :: nat
  rl_item :: "32 word"
  rl_start :: "32 word"
  rl_curpos :: "32 word"
  rl_map :: tablemap

abbreviation ROTATE_EVENT :: nat where "ROTATE_EVENT \<equiv> 4"
abbreviation TABLE_MAP_EVENT :: nat where "TABLE_MAP_EVENT \<equiv> 19"
abbreviation WRITE_ROWS_EVENT :: nat where "WRITE_ROWS_EVENT \<equiv> 23"
abbreviation UPDATE_ROWS_EVENT :: nat where "UPDATE_ROWS_EVENT \<equiv> 24"
abbreviation DELETE_ROWS_EVENT :: nat where "DELETE_ROWS_EVENT \<equiv> 25"

text \<open>\<open>new CMyRowLogParser()\<close> in memory \<open>mem\<close>: the constructor of the table map sets two numbers. \<open>Init\<close>
  copies the name without a terminator.\<close>

definition new_rowlog :: "rowlog \<Rightarrow> rowlog" where
  "new_rowlog mem = mem\<lparr>rl_map := (rl_map mem)\<lparr>tm_id := 0, tm_ncols := 0\<rparr>\<rparr>"

definition rowlog_init :: "rowlog \<Rightarrow> byte list \<Rightarrow> 32 word \<Rightarrow> 32 word \<Rightarrow> rowlog res" where
  "rowlog_init r name startpos startidx =
     (if length name > length (rl_logname r) then Inl Buffer_overflow
      else Inr (r\<lparr>rl_logname := name @ drop (length name) (rl_logname r), rl_tablepos := 0, rl_curpos := 0,
        rl_startpos := startpos, rl_stat := 0, rl_item := 0, rl_start := startidx, rl_bufoff := 0\<rparr>))"

text \<open>A C string in an array of bytes (\<open>%s\<close>, \<open>strcmp\<close>).\<close>

definition cstr :: "byte list \<Rightarrow> byte list res" where
  "cstr a = (if 0 \<in> set a then Inr (takeWhile (\<lambda>x. x \<noteq> 0) a) else Inl Out_of_bounds)"

text \<open>\<open>strcmp(a, b) == 0\<close>.\<close>

fun same_cstr :: "byte list \<Rightarrow> byte list \<Rightarrow> bool res" where
  "same_cstr (x # xs) (y # ys) = (if x \<noteq> y then Inr False else if x = 0 then Inr True else same_cstr xs ys)"
| "same_cstr _ _ = Inl Out_of_bounds"

subsection \<open>The rows of one event\<close>

text \<open>The buffer \<open>b\<close> is all that follows; offsets are relative to \<open>base\<close>, where the rows begin. One turn gives
  the item and the offset behind it.\<close>

definition decode_item :: "rowlog \<Rightarrow> nat \<Rightarrow> byte list \<Rightarrow> nat \<Rightarrow> nat \<Rightarrow> (row_item \<times> nat) res" where
  "decode_item r ty b base pos =
     fbind (if ty = UPDATE_ROWS_EVENT then
              fbind (decodeOneRow (rl_map r) b (base + pos)) (\<lambda>(old, q).
              fmap (\<lambda>(new, q'). (Update_row old new, q')) (decodeOneRow (rl_map r) b q))
            else fmap (\<lambda>(row, q). (if ty = DELETE_ROWS_EVENT then Delete_row row else Insert_row row, q))
              (decodeOneRow (rl_map r) b (base + pos))) (\<lambda>(ch, q).
     fbind (cstr (rl_logname r)) (\<lambda>name.
     fbind (cstr (tm_db (rl_map r))) (\<lambda>db.
     fmap (\<lambda>tab. (\<lparr>ri_pos = (name, sint (rl_tablepos r), sint (rl_item r)), ri_db = db, ri_table = tab, ri_change = ch\<rparr>, q - base))
       (cstr (tm_table (rl_map r))))))"

fun decode_items :: "nat \<Rightarrow> rowlog \<Rightarrow> nat \<Rightarrow> byte list \<Rightarrow> nat \<Rightarrow> nat \<Rightarrow> nat \<Rightarrow> row_item list \<Rightarrow> (rowlog \<times> row_item list) option res" where
  "decode_items fuel r ty b base len pos rows =
     (if \<not> pos < len then Inr (Some (r, rows))
      else case fuel of 0 \<Rightarrow> Inr None
      | Suc fuel' \<Rightarrow> fbind (decode_item r ty b base pos) (\<lambda>(it, pos').
          decode_items fuel' (r\<lparr>rl_item := rl_item r + 1\<rparr>) ty b base len pos'
            (if rl_item r \<ge> rl_start r then rows @ [it] else rows)))"

declare decode_items.simps [simp del]

definition decodeEvent :: "nat \<Rightarrow> rowlog \<Rightarrow> nat \<Rightarrow> byte list \<Rightarrow> nat \<Rightarrow> nat \<Rightarrow> row_item list \<Rightarrow> (rowlog \<times> row_item list) option res" where
  "decodeEvent fuel r ty b base len rows =
     decode_items fuel r ty b base len (if ty = UPDATE_ROWS_EVENT then getBitmapSize (rl_map r) else 0) rows"

subsection \<open>One event\<close>

definition table_event :: "rowlog \<Rightarrow> binlog_event \<Rightarrow> byte list \<Rightarrow> rowlog res" where
  "table_event r e b = fmap (\<lambda>tm.
     let r1 = (if rl_stat r \<noteq> 0 then r\<lparr>rl_tablepos := rl_tablepos r + (rl_curpos r - ev_len e), rl_start := 0\<rparr>
               else if rl_startpos r > 4 then r\<lparr>rl_tablepos := rl_startpos r\<rparr>
               else if rl_startpos r = 4 then r\<lparr>rl_tablepos := 4 + (rl_curpos r - ev_len e), rl_startpos := 0\<rparr>
               else r)
     in r1\<lparr>rl_map := tm, rl_stat := 1, rl_item := 0, rl_curpos := ev_len e\<rparr>)
     (process_tablemap b (ev_pos e) (rl_map r))"

definition rotate_event :: "rowlog \<Rightarrow> binlog_event \<Rightarrow> byte list \<Rightarrow> rowlog res" where
  "rotate_event r e b =
     (let n = unat (ev_len e - 27); p = ev_pos e + 8 in
      if n > NAME_MAX_LENGTH then Inl Buffer_overflow
      else if p + n > length b then Inl Out_of_bounds
      else
        let name = take n (drop p b); cur = name @ replicate (NAME_MAX_LENGTH - n) 0 in
        fmap (\<lambda>_. r\<lparr>rl_logname := name @ drop n (rl_logname r), rl_curpos := 0, rl_tablepos := 4\<rparr>)
          (same_cstr (rl_logname r) cur))"

definition rows_event :: "nat \<Rightarrow> rowlog \<Rightarrow> binlog_event \<Rightarrow> byte list \<Rightarrow> row_item list \<Rightarrow> (rowlog \<times> row_item list) option res" where
  "rows_event fuel r e b rows =
     fbind (uint2korr b (ev_pos e + 6)) (\<lambda>flag.
     fbind (DecodePacketInt b (ev_pos e + 8)) (\<lambda>(nc, k).
     if nc + 7 > INT_MAX then Inl Signed_overflow else
     let off = nat ((int (8 + k) + c_div (nc + 7) 8) mod 2 ^ 32);
         r1 = (if odd flag then r\<lparr>rl_stat := 2\<rparr> else r)
     in decodeEvent fuel r1 (ev_type e) b (ev_pos e + off) (unat (ev_len e - 19 - of_nat off)) rows))"

definition processRowEvent :: "nat \<Rightarrow> rowlog \<Rightarrow> binlog_event \<Rightarrow> byte list \<Rightarrow> row_item list \<Rightarrow> (rowlog \<times> row_item list) option res" where
  "processRowEvent fuel r e b rows =
     (if ev_type e = TABLE_MAP_EVENT then fmap (\<lambda>r'. Some (r', rows)) (table_event r e b)
      else if ev_type e = ROTATE_EVENT then fmap (\<lambda>r'. Some (r', rows)) (rotate_event r e b)
      else if ev_type e = WRITE_ROWS_EVENT \<or> ev_type e = DELETE_ROWS_EVENT \<or> ev_type e = UPDATE_ROWS_EVENT
      then rows_event fuel r e b rows
      else Inr (Some (r, rows)))"

subsection \<open>The loop over the events\<close>

text \<open>\<open>_getEvent\<close> on the bytes left: \<open>None\<close> when no event is complete.\<close>

definition getEvent :: "byte list \<Rightarrow> binlog_event option" where
  "getEvent b =
     (if length b < 19 then None
      else
        let len = le_word (take 4 (drop 9 b)) :: 32 word in
        if length b < unat len then None
        else Some \<lparr>ev_type = unat (b ! 4), ev_len = len, ev_pos = 19\<rparr>)"

text \<open>The event's data stands at offset 19 of the bytes left when it was read; the bytes behind the event are
  still in the buffer then.\<close>

fun process_loop :: "nat \<Rightarrow> rowlog \<Rightarrow> byte list \<Rightarrow> row_item list \<Rightarrow> (rowlog \<times> byte list \<times> row_item list) option res" where
  "process_loop fuel r b rows =
     (if b = [] then Inr (Some (r, b, rows))
      else case fuel of 0 \<Rightarrow> Inr None
      | Suc fuel' \<Rightarrow> (case getEvent b of
            None \<Rightarrow> Inr (Some (r, b, rows))
          | Some e \<Rightarrow>
              fbind (processRowEvent fuel' (r\<lparr>rl_curpos := rl_curpos r + ev_len e, rl_bufoff := rl_bufoff r + ev_len e\<rparr>) e b rows)
              (\<lambda>x. case x of None \<Rightarrow> Inr None
                | Some (r', rows') \<Rightarrow> process_loop fuel' r' (drop (unat (ev_len e)) b) rows')))"

declare process_loop.simps [simp del]

text \<open>\<open>process\<close>: whether there are rows, the bytes used, the rows.\<close>

definition process :: "nat \<Rightarrow> rowlog \<Rightarrow> byte list \<Rightarrow> (rowlog \<times> bool \<times> int \<times> row_item list) option res" where
  "process fuel r b = fmap (map_option (\<lambda>(r', rest, rows). (r', rows \<noteq> [], sint (rl_bufoff r'), rows)))
     (process_loop fuel (r\<lparr>rl_bufoff := 0\<rparr>) b [])"

subsection \<open>The functions Python calls\<close>

text \<open>The global pointer to the parser. Arguments that do not parse are \<open>None\<close>; the answers are the numbers 0
  and 1, or what \<open>process\<close> gives.\<close>

datatype parser_ptr = No_parser | Parser rowlog | Freed_parser

definition wrap_Init :: "rowlog \<Rightarrow> (byte list \<times> 32 word \<times> 32 word) option \<Rightarrow> parser_ptr \<Rightarrow> (parser_ptr \<times> int) res" where
  "wrap_Init mem args p = (case args of
       None \<Rightarrow> Inr (p, 0)
     | Some (name, pos, idx) \<Rightarrow> (case p of
           No_parser \<Rightarrow> fmap (\<lambda>r. (Parser r, 1)) (rowlog_init (new_rowlog mem) name pos idx)
         | Parser r \<Rightarrow> fmap (\<lambda>r'. (Parser r', 1)) (rowlog_init r name pos idx)
         | Freed_parser \<Rightarrow> Inl Use_after_free))"

definition wrap_Process :: "nat \<Rightarrow> byte list option \<Rightarrow> parser_ptr \<Rightarrow> (parser_ptr \<times> (bool \<times> int \<times> row_item list) option) option res" where
  "wrap_Process fuel args p = (case p of
       No_parser \<Rightarrow> Inr (Some (p, None))
     | Parser r \<Rightarrow> (case args of
           None \<Rightarrow> Inr (Some (p, None))
         | Some b \<Rightarrow> fmap (map_option (\<lambda>(r', ans). (Parser r', Some ans))) (process fuel r b))
     | Freed_parser \<Rightarrow> (case args of None \<Rightarrow> Inr (Some (p, None)) | Some b \<Rightarrow> Inl Use_after_free))"

definition wrap_DeInit :: "parser_ptr \<Rightarrow> (parser_ptr \<times> int) res" where
  "wrap_DeInit p = (case p of No_parser \<Rightarrow> Inr (No_parser, 1) | Parser r \<Rightarrow> Inr (Freed_parser, 1) | Freed_parser \<Rightarrow> Inl Double_free)"

text \<open>The pointer is not cleared: after \<open>DeInit\<close>, the next call of any of the three is undefined.\<close>

lemma deinit_dangles:
  assumes "wrap_DeInit (Parser r) = Inr (p, i)"
  shows "wrap_Init mem (Some a) p = Inl Use_after_free" "wrap_Process fuel (Some b) p = Inl Use_after_free"
    "wrap_DeInit p = Inl Double_free"
  using assms by (cases a; auto simp: wrap_DeInit_def wrap_Init_def wrap_Process_def)+

subsection \<open>Receiving a packet\<close>

datatype recv_answer = Rd_error | Rd_bytes "byte list"

datatype recv_result = Recv_code int | Recv_packet "byte list"

text \<open>One of the two loops: until \<open>n\<close> bytes are there; a read gives at most what is asked for.\<close>

fun recv_loop :: "int \<Rightarrow> nat \<Rightarrow> recv_answer list \<Rightarrow> byte list \<Rightarrow> ((int + byte list) \<times> recv_answer list) option" where
  "recv_loop err n rs acc =
     (if n = length acc then Some (Inr acc, rs)
      else case rs of [] \<Rightarrow> None
      | Rd_error # rs' \<Rightarrow> Some (Inl err, rs')
      | Rd_bytes d # rs' \<Rightarrow> if d = [] then Some (Inl 0, rs')
          else recv_loop err n rs' (acc @ take (n - length acc) d))"

declare recv_loop.simps [simp del]

definition wrap_Recv :: "recv_answer list \<Rightarrow> recv_result option" where
  "wrap_Recv rs = (case rs of
       [] \<Rightarrow> None
     | Rd_error # _ \<Rightarrow> Some (Recv_code (- 2))
     | Rd_bytes d # rs1 \<Rightarrow> (case recv_loop (- 3) 4 rs1 (take 4 d) of
           None \<Rightarrow> None
         | Some (Inl e, _) \<Rightarrow> Some (Recv_code e)
         | Some (Inr h, rs2) \<Rightarrow> (case recv_loop (- 4) (unat (le_word (take 3 h) :: 32 word)) rs2 [] of
               None \<Rightarrow> None
             | Some (Inl e, _) \<Rightarrow> Some (Recv_code e)
             | Some (Inr body, _) \<Rightarrow> Some (Recv_packet body))))"

subsection \<open>More bytes behind the buffer do not change a result\<close>

named_theorems ext_intros

definition ext :: "'a res \<Rightarrow> 'a res \<Rightarrow> bool" where
  "ext m m' \<longleftrightarrow> (\<forall>x. m = Inr x \<longrightarrow> m' = Inr x)"

lemma extD: "ext m m' \<Longrightarrow> m = Inr x \<Longrightarrow> m' = Inr x"
  by (simp add: ext_def)

lemma ext_refl [ext_intros, simp]: "ext m m"
  by (simp add: ext_def)

lemma ext_Inl [ext_intros, simp]: "ext (Inl e) m"
  by (simp add: ext_def)

lemma ext_fbind [ext_intros]: "ext m m' \<Longrightarrow> (\<And>x. ext (f x) (f' x)) \<Longrightarrow> ext (fbind m f) (fbind m' f')"
  by (auto simp: ext_def fbind_eq_Inr)

lemma ext_fmap [ext_intros]: "ext m m' \<Longrightarrow> ext (fmap f m) (fmap f m')"
  by (auto simp: ext_def fmap_eq_Inr)

lemma ext_if [ext_intros]: "(c \<Longrightarrow> ext m m') \<Longrightarrow> (\<not> c \<Longrightarrow> ext n n') \<Longrightarrow> ext (if c then m else n) (if c then m' else n')"
  by simp

lemma ext_prod [ext_intros]: "(\<And>x y. ext (f x y) (f' x y)) \<Longrightarrow> ext (case z of (x, y) \<Rightarrow> f x y) (case z of (x, y) \<Rightarrow> f' x y)"
  by (cases z) simp

lemma ext_Let [ext_intros]: "(\<And>x. ext (f x) (f' x)) \<Longrightarrow> ext (Let z f) (Let z f')"
  by (simp add: Let_def)

lemma ext_guard: "(c' \<Longrightarrow> c) \<Longrightarrow> (\<not> c \<Longrightarrow> ext m m') \<Longrightarrow> ext (if c then Inl e else m) (if c' then Inl e else m')"
  by (auto simp: ext_def)

lemma ext_ok: "(c \<Longrightarrow> c') \<Longrightarrow> (c \<Longrightarrow> ext m m') \<Longrightarrow> ext (if c then m else Inl e) (if c' then m' else Inl e)"
  by (auto simp: ext_def)

lemma take_drop_append: "p + n \<le> length b \<Longrightarrow> take n (drop p (b @ y)) = take n (drop p b)"
  by simp

lemma ext_rd [ext_intros]: "ext (rd n b p) (rd n (b @ y) p)"
  unfolding rd_def by (rule ext_ok) (simp_all add: take_drop_append)

lemma ext_ints [ext_intros]:
  "ext (uint1 b p) (uint1 (b @ y) p)" "ext (uint2korr b p) (uint2korr (b @ y) p)" "ext (uint3korr b p) (uint3korr (b @ y) p)"
  "ext (uint4korr b p) (uint4korr (b @ y) p)" "ext (uint6korr b p) (uint6korr (b @ y) p)" "ext (uint8korr b p) (uint8korr (b @ y) p)"
  "ext (sint1 b p) (sint1 (b @ y) p)" "ext (sint2korr b p) (sint2korr (b @ y) p)" "ext (sint3korr b p) (sint3korr (b @ y) p)"
  "ext (sint4korr b p) (sint4korr (b @ y) p)" "ext (sint8korr b p) (sint8korr (b @ y) p)"
  unfolding uint1_def uint2korr_def uint3korr_def uint4korr_def uint6korr_def uint8korr_def
    sint1_def sint2korr_def sint3korr_def sint4korr_def sint8korr_def
  by (intro ext_intros)+

lemma ext_packed [ext_intros]: "ext (DecodePacketInt b p) (DecodePacketInt (b @ y) p)"
  unfolding DecodePacketInt_def by (intro ext_intros)

lemma ext_column_meta [ext_intros]: "ext (column_meta ty b j) (column_meta ty (b @ y) j)"
  unfolding column_meta_def by (intro ext_intros)

lemma ext_decodeMetaData [ext_intros]: "ext (decodeMetaData n i b tp j ms) (decodeMetaData n i (b @ y) tp j ms)"
  by (induction n arbitrary: i j ms) (auto intro!: ext_intros)

lemma ext_decodeDataType [ext_intros]: "ext (decodeDataType n i b tp ms ts) (decodeDataType n i (b @ y) tp ms ts)"
  by (induction n arbitrary: i ts) (auto intro!: ext_intros)

lemma ext_decodeNullAble [ext_intros]: "ext (decodeNullAble n i b np ns) (decodeNullAble n i (b @ y) np ns)"
  by (induction n arbitrary: i ns) (auto intro!: ext_intros)

lemma ext_copy_name [ext_intros]: "ext (copy_name b p n) (copy_name (b @ y) p n)"
  by (auto simp: ext_def copy_name_def split: if_splits)

lemma ext_tablemap [ext_intros]: "ext (process_tablemap b p tm) (process_tablemap (b @ y) p tm)"
  unfolding process_tablemap_def by (intro ext_intros)

lemma ext_py_bytes [ext_intros]: "ext (py_bytes b p n) (py_bytes (b @ y) p n)"
  by (auto simp: ext_def py_bytes_def split: if_splits)

lemma ext_counted [ext_intros]: "ext l l' \<Longrightarrow> ext (counted b p n l) (counted (b @ y) p n l')"
  unfolding counted_def by (intro ext_intros)

lemma ext_fetch [ext_intros]: "ext (fetch b p) (fetch (b @ y) p)"
  by (auto simp: ext_def fetch_def nth_append split: if_splits)

lemma ext_bin2decimal [ext_intros]: "ext (bin2decimal b p q s) (bin2decimal (b @ y) p q s)"
proof -
  have *: "ext (if sz \<le> 0 then Inl e1 else if p + nat sz > length b then Inl e2 else f (take (nat sz) (drop p b)))
    (if sz \<le> 0 then Inl e1 else if p + nat sz > length (b @ y) then Inl e2 else f (take (nat sz) (drop p (b @ y))))"
    for sz e1 e2 and f :: "byte list \<Rightarrow> decimal res"
    by (auto simp: ext_def take_drop_append split: if_splits)
  show ?thesis unfolding bin2decimal_def Let_def by (intro ext_fbind ext_fetch ext_refl *)
qed

lemma ext_item [ext_intros]: "ext (decodeRowImageItem b p ty m) (decodeRowImageItem (b @ y) p ty m)"
  unfolding item_defs by (intro ext_intros)

lemma ext_cols [ext_intros]: "ext (decode_cols n i tm b bm p) (decode_cols n i tm (b @ y) bm p)"
  by (induction n arbitrary: i p) (auto intro!: ext_intros)

lemma ext_row [ext_intros]: "ext (decodeOneRow tm b p) (decodeOneRow tm (b @ y) p)"
  unfolding decodeOneRow_def by (intro ext_intros)

lemma ext_decode_item [ext_intros]: "ext (decode_item r ty b base pos) (decode_item r ty (b @ y) base pos)"
  unfolding decode_item_def by (intro ext_intros)

subsection \<open>Fuel\<close>

lemma items_mono:
  "decode_items f r ty b base len pos rows = Inr (Some z) \<Longrightarrow> f \<le> f' \<Longrightarrow> decode_items f' r ty (b @ y) base len pos rows = Inr (Some z)"
proof (induction f arbitrary: r pos rows f')
  case 0
  then show ?case by (auto simp: decode_items.simps [of 0] decode_items.simps [of f'] split: if_splits)
next
  case (Suc f)
  then obtain g where g: "f' = Suc g" "f \<le> g" by (cases f') auto
  show ?case
  proof (cases "pos < len")
    case True
    with Suc.prems(1) obtain it q where d: "decode_item r ty b base pos = Inr (it, q)"
      "decode_items f (r\<lparr>rl_item := rl_item r + 1\<rparr>) ty b base len q (if rl_item r \<ge> rl_start r then rows @ [it] else rows) = Inr (Some z)"
      by (auto simp: decode_items.simps [of "Suc f"] fbind_eq_Inr)
    from Suc.IH [OF d(2) g(2)] extD [OF ext_decode_item d(1), of y] True g(1) show ?thesis
      by (simp add: decode_items.simps [of "Suc g"])
  qed (use Suc.prems(1) in \<open>simp add: decode_items.simps [of "Suc f"] decode_items.simps [of f']\<close>)
qed

lemma rows_event_mono:
  assumes "rows_event f r e b rows = Inr (Some z)" "f \<le> f'"
  shows "rows_event f' r e (b @ y) rows = Inr (Some z)"
proof -
  from assms(1) obtain flag nc k where h: "uint2korr b (ev_pos e + 6) = Inr flag" "DecodePacketInt b (ev_pos e + 8) = Inr (nc, k)"
    "\<not> nc + 7 > INT_MAX"
    by (auto simp: rows_event_def fbind_eq_Inr split: if_splits)
  from extD [OF ext_ints(2) h(1), of y] extD [OF ext_packed h(2), of y] h assms items_mono show ?thesis
    by (simp add: rows_event_def decodeEvent_def Let_def)
qed

lemma ext_rotate: "ext (rotate_event r e b) (rotate_event r e (b @ y))"
  by (auto simp: ext_def rotate_event_def Let_def split: if_splits)

lemma ext_table: "ext (table_event r e b) (table_event r e (b @ y))"
  unfolding table_event_def by (intro ext_intros)

lemma row_event_mono:
  assumes "processRowEvent f r e b rows = Inr (Some z)" "f \<le> f'"
  shows "processRowEvent f' r e (b @ y) rows = Inr (Some z)"
  using assms rows_event_mono [of f r e b rows z f' y] extD [OF ext_rotate, of r e b _ y] extD [OF ext_table, of r e b _ y]
  by (auto simp: processRowEvent_def fmap_eq_Inr split: if_splits)

lemma getEvent_append: "getEvent b = Some e \<Longrightarrow> getEvent (b @ y) = Some e"
  by (auto simp: getEvent_def Let_def nth_append split: if_splits)

lemma getEvent_len: "getEvent b = Some e \<Longrightarrow> unat (ev_len e) \<le> length b \<and> b \<noteq> []"
  by (auto simp: getEvent_def Let_def split: if_splits)

lemma loop_step:
  "getEvent b = Some e \<Longrightarrow> process_loop (Suc f) r b rows =
     fbind (processRowEvent f (r\<lparr>rl_curpos := rl_curpos r + ev_len e, rl_bufoff := rl_bufoff r + ev_len e\<rparr>) e b rows)
       (\<lambda>x. case x of None \<Rightarrow> Inr None | Some (r', rows') \<Rightarrow> process_loop f r' (drop (unat (ev_len e)) b) rows')"
  using getEvent_len [of b e] by (simp add: process_loop.simps [of "Suc f"])

lemma loop_stop: "b = [] \<or> (getEvent b = None \<and> 0 < f) \<Longrightarrow> process_loop f r b rows = Inr (Some (r, b, rows))"
  by (cases f) (auto simp: process_loop.simps)

lemma loop_out: "b \<noteq> [] \<Longrightarrow> process_loop 0 r b rows = Inr None"
  by (simp add: process_loop.simps)

text \<open>What one turn comes to when the loop returns.\<close>

lemma loop_cases:
  assumes "process_loop f r b rows = Inr (Some z)"
  obtains (stop) "b = [] \<or> getEvent b = None \<and> 0 < f" "z = (r, b, rows)"
  | (step) e g r' rows' where "getEvent b = Some e" "f = Suc g"
      "processRowEvent g (r\<lparr>rl_curpos := rl_curpos r + ev_len e, rl_bufoff := rl_bufoff r + ev_len e\<rparr>) e b rows = Inr (Some (r', rows'))"
      "process_loop g r' (drop (unat (ev_len e)) b) rows' = Inr (Some z)"
proof (cases "b = [] \<or> getEvent b = None")
  case True
  have "b = [] \<or> 0 < f" using assms loop_out [of b r rows] by (cases "b = []"; cases f) auto
  with True have "b = [] \<or> getEvent b = None \<and> 0 < f" by blast
  from this loop_stop [OF this] assms show ?thesis by (intro stop) auto
next
  case False
  then obtain e where e: "getEvent b = Some e" by auto
  obtain g where g: "f = Suc g" using assms loop_out [of b r rows] False by (cases f) auto
  from assms obtain x where x: "processRowEvent g (r\<lparr>rl_curpos := rl_curpos r + ev_len e, rl_bufoff := rl_bufoff r + ev_len e\<rparr>) e b rows = Inr x"
    "(case x of None \<Rightarrow> Inr None | Some (r', rows') \<Rightarrow> process_loop g r' (drop (unat (ev_len e)) b) rows') = Inr (Some z)"
    unfolding g loop_step [OF e] fbind_eq_Inr by blast
  then show ?thesis using step [OF e g] by (auto split: option.splits)
qed

lemma loop_mono:
  "process_loop f r b rows = Inr (Some z) \<Longrightarrow> f \<le> f' \<Longrightarrow> process_loop f' r b rows = Inr (Some z)"
proof (induction f arbitrary: r b rows f')
  case (Suc f)
  from Suc.prems obtain g where g: "f' = Suc g" "f \<le> g" by (cases f') auto
  from Suc.prems(1) show ?case
  proof (cases rule: loop_cases)
    case stop
    then show ?thesis using g loop_stop [of b f'] by auto
  next
    case (step e h r' rows')
    have "processRowEvent g (r\<lparr>rl_curpos := rl_curpos r + ev_len e, rl_bufoff := rl_bufoff r + ev_len e\<rparr>) e b rows = Inr (Some (r', rows'))"
      using row_event_mono [of h _ e b rows "(r', rows')" g "[]"] step(2,3) g(2) by simp
    moreover have "process_loop g r' (drop (unat (ev_len e)) b) rows' = Inr (Some z)"
      using Suc.IH step(2,4) g(2) by simp
    ultimately show ?thesis unfolding g(1) loop_step [OF step(1)] by simp
  qed
next
  case 0
  then show ?case by (cases rule: loop_cases) (use loop_stop in auto)
qed

subsection \<open>Two pieces\<close>

lemma loop_append:
  "process_loop f r x rows = Inr (Some (r1, rest, rows1)) \<Longrightarrow> process_loop f' r1 (rest @ y) rows1 = Inr (Some z)
    \<Longrightarrow> process_loop (f + f') r (x @ y) rows = Inr (Some z)"
proof (induction f arbitrary: r x rows)
  case 0
  from 0(1) have "x = []" "r1 = r" "rest = []" "rows1 = rows"
    by (cases rule: loop_cases; simp)+
  with 0(2) show ?case by simp
next
  case (Suc f)
  from Suc.prems(1) show ?case
  proof (cases rule: loop_cases)
    case stop
    then show ?thesis using loop_mono [OF Suc.prems(2)] by simp
  next
    case (step e g r' rows')
    have len: "unat (ev_len e) \<le> length x" using getEvent_len [OF step(1)] by blast
    have "processRowEvent (f + f') (r\<lparr>rl_curpos := rl_curpos r + ev_len e, rl_bufoff := rl_bufoff r + ev_len e\<rparr>) e (x @ y) rows = Inr (Some (r', rows'))"
      using row_event_mono [of g _ e x rows "(r', rows')" "f + f'" y] step(2,3) by simp
    moreover have "process_loop (f + f') r' (drop (unat (ev_len e)) x @ y) rows' = Inr (Some z)"
      using Suc.IH [OF _ Suc.prems(2)] step(2,4) by simp
    moreover have "getEvent (x @ y) = Some e" by (rule getEvent_append [OF step(1)])
    ultimately show ?thesis using loop_step [of "x @ y" e "f + f'" r rows] len by simp
  qed
qed

text \<open>The offset counter and the rows found before only go along.\<close>

definition shift :: "32 word \<Rightarrow> row_item list \<Rightarrow> (rowlog \<times> row_item list) option res \<Rightarrow> (rowlog \<times> row_item list) option res" where
  "shift k xs = fmap (map_option (\<lambda>(r, ys). (r\<lparr>rl_bufoff := k\<rparr>, xs @ ys)))"

lemma shift_simps [simp]: "shift k xs (Inl e) = Inl e" "shift k xs (Inr None) = Inr None"
  "shift k xs (Inr (Some (r, ys))) = Inr (Some (r\<lparr>rl_bufoff := k\<rparr>, xs @ ys))"
  by (simp_all add: shift_def)

lemma shift_fbind: "(\<And>x. f' x = shift k xs (f x)) \<Longrightarrow> fbind m f' = shift k xs (fbind m f)"
  by (cases m) (simp_all add: shift_def)

lemma shift_items:
  "decode_items f (r\<lparr>rl_bufoff := k\<rparr>) ty b base len pos (xs @ rows) = shift k xs (decode_items f r ty b base len pos rows)"
proof (induction f arbitrary: r pos rows)
  case 0
  then show ?case by (simp add: decode_items.simps [of 0])
next
  case (Suc f)
  have d: "decode_item (r\<lparr>rl_bufoff := k\<rparr>) = decode_item r" by (intro ext) (simp add: decode_item_def)
  have i: "decode_items f (r\<lparr>rl_bufoff := k, rl_item := rl_item r + 1\<rparr>) ty b base len q (xs @ zs)
    = shift k xs (decode_items f (r\<lparr>rl_item := rl_item r + 1\<rparr>) ty b base len q zs)" for q zs
  proof -
    have eq: "r\<lparr>rl_bufoff := k, rl_item := rl_item r + 1\<rparr> = r\<lparr>rl_item := rl_item r + 1, rl_bufoff := k\<rparr>" by (cases r) simp
    show ?thesis unfolding eq by (rule Suc.IH)
  qed
  show ?case
  proof (cases "pos < len")
    case True
    have "fbind m (\<lambda>(it, pos'). decode_items f (r\<lparr>rl_bufoff := k, rl_item := rl_item r + 1\<rparr>) ty b base len pos'
            (if rl_item r \<ge> rl_start r then (xs @ rows) @ [it] else xs @ rows))
      = shift k xs (fbind m (\<lambda>(it, pos'). decode_items f (r\<lparr>rl_item := rl_item r + 1\<rparr>) ty b base len pos'
            (if rl_item r \<ge> rl_start r then rows @ [it] else rows)))" for m
      by (rule shift_fbind) (auto simp: i split: prod.splits)
    then show ?thesis using True d by (simp add: decode_items.simps [of "Suc f"])
  qed (simp add: decode_items.simps [of "Suc f"])
qed

lemma shift_event:
  "processRowEvent f (r\<lparr>rl_bufoff := k\<rparr>) e b (xs @ rows) = shift k xs (processRowEvent f r e b rows)"
proof -
  have t: "table_event (r\<lparr>rl_bufoff := k\<rparr>) e b = fmap (\<lambda>r. r\<lparr>rl_bufoff := k\<rparr>) (table_event r e b)"
    by (cases "process_tablemap b (ev_pos e) (rl_map r)") (simp_all add: table_event_def Let_def)
  have o: "rotate_event (r\<lparr>rl_bufoff := k\<rparr>) e b = fmap (\<lambda>r. r\<lparr>rl_bufoff := k\<rparr>) (rotate_event r e b)"
    by (cases "same_cstr (rl_logname r) (take (unat (ev_len e - 27)) (drop (ev_pos e + 8) b) @ replicate (NAME_MAX_LENGTH - unat (ev_len e - 27)) 0)")
      (simp_all add: rotate_event_def Let_def)
  have s: "decode_items f (r\<lparr>rl_bufoff := k, rl_stat := 2\<rparr>) ty b base len pos (xs @ rows)
    = shift k xs (decode_items f (r\<lparr>rl_stat := 2\<rparr>) ty b base len pos rows)" for ty base len pos
  proof -
    have eq: "r\<lparr>rl_bufoff := k, rl_stat := 2\<rparr> = r\<lparr>rl_stat := 2, rl_bufoff := k\<rparr>" by (cases r) simp
    show ?thesis unfolding eq by (rule shift_items)
  qed
  have w: "rows_event f (r\<lparr>rl_bufoff := k\<rparr>) e b (xs @ rows) = shift k xs (rows_event f r e b rows)"
    unfolding rows_event_def
    by (intro shift_fbind) (auto simp: decodeEvent_def Let_def shift_items s split: prod.splits)
  have m: "fmap (\<lambda>r'. Some (r', xs @ rows)) (fmap (\<lambda>r. r\<lparr>rl_bufoff := k\<rparr>) q) = shift k xs (fmap (\<lambda>r'. Some (r', rows)) q)" for q
    by (cases q) simp_all
  show ?thesis by (simp add: processRowEvent_def t o w m)
qed

lemma event_bufoff: "processRowEvent f r e b rows = Inr (Some (r', rows')) \<Longrightarrow> rl_bufoff r' = rl_bufoff r"
  proof -
  assume a: "processRowEvent f r e b rows = Inr (Some (r', rows'))"
  have "r\<lparr>rl_bufoff := rl_bufoff r\<rparr> = r" by simp
  then have "r' = r'\<lparr>rl_bufoff := rl_bufoff r\<rparr>"
    using shift_event [where r = r and k = "rl_bufoff r" and xs = "[]" and rows = rows and f = f and e = e and b = b] a by simp
  then show ?thesis by (metis rowlog.select_convs(2) rowlog.surjective rowlog.update_convs(2))
qed

lemma shift_loop:
  "process_loop f (r\<lparr>rl_bufoff := k + rl_bufoff r\<rparr>) b (xs @ rows)
    = fmap (map_option (\<lambda>(r', rest, ys). (r'\<lparr>rl_bufoff := k + rl_bufoff r'\<rparr>, rest, xs @ ys))) (process_loop f r b rows)"
proof (induction f arbitrary: r b rows)
  case 0
  then show ?case by (simp add: process_loop.simps [of 0])
next
  case (Suc f)
  show ?case
  proof (cases "getEvent b")
    case None
    then show ?thesis by (simp add: loop_stop)
  next
    case (Some e)
    let ?r = "r\<lparr>rl_curpos := rl_curpos r + ev_len e, rl_bufoff := rl_bufoff r + ev_len e\<rparr>"
    have p: "processRowEvent f (?r\<lparr>rl_bufoff := k + rl_bufoff ?r\<rparr>) e b (xs @ rows) = shift (k + rl_bufoff ?r) xs (processRowEvent f ?r e b rows)"
      by (rule shift_event)
    show ?thesis
    proof (cases "processRowEvent f ?r e b rows")
      case (Inl x)
      then show ?thesis using p Some by (simp add: loop_step add.assoc)
    next
      case (Inr y)
      show ?thesis
      proof (cases y)
        case None
        then show ?thesis using p Inr \<open>getEvent b = Some e\<close> by (simp add: loop_step add.assoc)
      next
        case (Some z)
        obtain r1 rows1 where z: "z = (r1, rows1)" by (cases z)
        have "rl_bufoff r1 = rl_bufoff ?r" using event_bufoff Inr Some z by blast
        then show ?thesis using p Inr Some z Suc.IH [of r1 _ rows1] \<open>getEvent b = Some e\<close>
          by (simp add: loop_step add.assoc)
      qed
    qed
  qed
qed

lemma loop_consumed:
  "process_loop f r b rows = Inr (Some (r', rest, rows')) \<Longrightarrow>
    \<exists>n \<le> length b. rest = drop n b \<and> rl_bufoff r' = rl_bufoff r + of_nat n"
proof (induction f arbitrary: r b rows)
  case 0
  then show ?case by (cases rule: loop_cases) auto
next
  case (Suc f)
  from Suc.prems show ?case
  proof (cases rule: loop_cases)
    case stop
    then show ?thesis by (intro exI [of _ 0]) auto
  next
    case (step e g r1 rows1)
    have off: "rl_bufoff r1 = rl_bufoff r + ev_len e" using event_bufoff [OF step(3)] by simp
    from Suc.IH step(2,4) obtain n where n: "n \<le> length (drop (unat (ev_len e)) b)" "rest = drop n (drop (unat (ev_len e)) b)"
      "rl_bufoff r' = rl_bufoff r1 + of_nat n" by blast
    have "unat (ev_len e) \<le> length b" using getEvent_len [OF step(1)] by blast
    then show ?thesis using n off by (intro exI [of _ "n + unat (ev_len e)"]) (auto simp: add.commute)
  qed
qed

lemma sint_of_nat: "k < 2 ^ 31 \<Longrightarrow> sint (of_nat k :: 32 word) = int k"
  using to_i32_small [of "int k"] by (simp add: to_i32_def)

lemma process_loop_result:
  assumes "process f r x = Inr (Some (r1, h, n, rows))" "length x < 2 ^ 31"
  shows "\<exists>k \<le> length x. n = int k \<and> rl_bufoff r1 = of_nat k \<and> h = (rows \<noteq> [])
    \<and> process_loop f (r\<lparr>rl_bufoff := 0\<rparr>) x [] = Inr (Some (r1, drop k x, rows))"
proof -
  from assms(1) obtain rest where p: "process_loop f (r\<lparr>rl_bufoff := 0\<rparr>) x [] = Inr (Some (r1, rest, rows))"
    "n = sint (rl_bufoff r1)" "h = (rows \<noteq> [])"
    by (auto simp: process_def fmap_eq_Inr)
  from loop_consumed [OF p(1)] obtain k where "k \<le> length x" "rest = drop k x" "rl_bufoff r1 = of_nat k" by auto
  then show ?thesis using p assms(2) sint_of_nat [of k] by auto
qed

text \<open>C30. The decoder does not depend on how the stream is cut: when the first piece has been processed, and
  the bytes it left are processed again together with the second piece (what the listener does), the rows of
  the two calls are the rows of one call on both pieces, in order, and the consumed bytes add up.\<close>

theorem binlog_chunks:
  assumes p1: "process f r x = Inr (Some (r1, h1, n1, rows1))"
    and p2: "process f' r1 (drop (nat n1) x @ y) = Inr (Some (r2, h2, n2, rows2))"
    and len: "length x + length y < 2 ^ 31"
  shows "process (f + f') r (x @ y)
    = Inr (Some (r2\<lparr>rl_bufoff := rl_bufoff r1 + rl_bufoff r2\<rparr>, rows1 @ rows2 \<noteq> [], n1 + n2, rows1 @ rows2))
    \<and> 0 \<le> n1 \<and> n1 \<le> int (length x)"
proof -
  have "length x < 2 ^ 31" using len by simp
  from process_loop_result [OF p1 this] obtain k1 where k1: "k1 \<le> length x" "n1 = int k1" "rl_bufoff r1 = of_nat k1"
    "process_loop f (r\<lparr>rl_bufoff := 0\<rparr>) x [] = Inr (Some (r1, drop k1 x, rows1))" by blast
  have "length (drop (nat n1) x @ y) < 2 ^ 31" using len by simp
  from process_loop_result [OF p2 this] obtain k2 where k2: "k2 \<le> length (drop k1 x @ y)" "n2 = int k2" "rl_bufoff r2 = of_nat k2"
    "process_loop f' (r1\<lparr>rl_bufoff := 0\<rparr>) (drop k1 x @ y) [] = Inr (Some (r2, drop k2 (drop k1 x @ y), rows2))"
    using k1(2) by auto
  let ?r2 = "r2\<lparr>rl_bufoff := rl_bufoff r1 + rl_bufoff r2\<rparr>"
  have "process_loop f' r1 (drop k1 x @ y) rows1 = Inr (Some (?r2, drop k2 (drop k1 x @ y), rows1 @ rows2))"
    using shift_loop [where f = f' and r = "r1\<lparr>rl_bufoff := 0\<rparr>" and k = "rl_bufoff r1" and b = "drop k1 x @ y" and xs = rows1 and rows = "[]"]
      k2(4) by simp
  from loop_append [OF k1(4) this] have "process_loop (f + f') (r\<lparr>rl_bufoff := 0\<rparr>) (x @ y) []
    = Inr (Some (?r2, drop k2 (drop k1 x @ y), rows1 @ rows2))" .
  moreover have "k1 + k2 < 2 ^ 31" using k1(1) k2(1) len by simp
  then have "sint (rl_bufoff r1 + rl_bufoff r2) = n1 + n2"
    using sint_of_nat [of "k1 + k2"] k1 k2 by simp
  ultimately show ?thesis using k1(1,2) by (simp add: process_def)
qed

subsection \<open>Streams on which the loop does not end\<close>

lemma stuck_items:
  assumes "decodeOneRow (rl_map r) b (base + pos) = Inr (row, base + pos)" "pos < len" "ty \<noteq> UPDATE_ROWS_EVENT"
    and "cstr (rl_logname r) = Inr a" "cstr (tm_db (rl_map r)) = Inr d" "cstr (tm_table (rl_map r)) = Inr t"
  shows "decode_items f r ty b base len pos rows = Inr None"
  using assms
proof (induction f arbitrary: r rows)
  case 0
  then show ?case by (simp add: decode_items.simps [of 0])
next
  case (Suc f)
  have "\<exists>it. decode_item r ty b base pos = Inr (it, pos)"
    using Suc.prems by (simp add: decode_item_def)
  then obtain it where "decode_item r ty b base pos = Inr (it, pos)" ..
  then show ?case using Suc.prems Suc.IH [of "r\<lparr>rl_item := rl_item r + 1\<rparr>"]
    by (simp add: decode_items.simps [of "Suc f"])
qed

text \<open>Two inputs make the decoder run for ever, whatever the fuel: an event whose header announces the
  length 0, and a row event that arrives before any table map (no columns are known, so a row takes no
  byte).\<close>

theorem binlog_stuck:
  assumes "getEvent b = Some e"
  shows "(ev_len e = 0 \<and> ev_type e \<notin> {ROTATE_EVENT, TABLE_MAP_EVENT, WRITE_ROWS_EVENT, UPDATE_ROWS_EVENT, DELETE_ROWS_EVENT}
      \<longrightarrow> process f r b = Inr None)
    \<and> (ev_type e \<in> {WRITE_ROWS_EVENT, DELETE_ROWS_EVENT} \<and> tm_ncols (rl_map r) = 0 \<and> uint1 b 27 = Inr nc \<and> nc < 251
        \<and> 28 + (nc + 7) div 8 < unat (ev_len e) \<and> cstr (rl_logname r) = Inr nm
        \<and> cstr (tm_db (rl_map r)) = Inr db \<and> cstr (tm_table (rl_map r)) = Inr tab
      \<longrightarrow> process f r b = Inr None)"
proof (intro conjI impI)
  assume a: "ev_len e = 0 \<and> ev_type e \<notin> {ROTATE_EVENT, TABLE_MAP_EVENT, WRITE_ROWS_EVENT, UPDATE_ROWS_EVENT, DELETE_ROWS_EVENT}"
  have "process_loop f r b rows = Inr None" for r rows
  proof (induction f arbitrary: r)
    case 0
    then show ?case using getEvent_len [OF assms] by (simp add: loop_out)
  next
    case (Suc f)
    then show ?case using a assms by (simp add: loop_step processRowEvent_def)
  qed
  then show "process f r b = Inr None" by (simp add: process_def)
next
  assume a: "ev_type e \<in> {WRITE_ROWS_EVENT, DELETE_ROWS_EVENT} \<and> tm_ncols (rl_map r) = 0 \<and> uint1 b 27 = Inr nc \<and> nc < 251
        \<and> 28 + (nc + 7) div 8 < unat (ev_len e) \<and> cstr (rl_logname r) = Inr nm
        \<and> cstr (tm_db (rl_map r)) = Inr db \<and> cstr (tm_table (rl_map r)) = Inr tab"
  have ev: "ev_pos e = 19" "unat (ev_len e) \<le> length b" using assms by (auto simp: getEvent_def Let_def split: if_splits)
  let ?n = "9 + (nc + 7) div 8"
  obtain flag where flag: "uint2korr b 25 = Inr flag"
    using a ev(2) by (auto simp: uint2korr_def rd_def)
  have pk: "DecodePacketInt b 27 = Inr (int nc, 1)" using a by (simp add: DecodePacketInt_def)
  have len: "unat (ev_len e - 19 - of_nat ?n) = unat (ev_len e) - 19 - ?n"
  proof -
    have u: "unat (of_nat (19 + ?n) :: 32 word) = 19 + ?n"
    proof -
      have "nc < 251" using a by simp
      then have "19 + ?n < 2 ^ 32" by simp
      then show ?thesis unfolding unat_of_nat by (intro mod_less) simp
    qed
    have "of_nat (19 + ?n) \<le> ev_len e" unfolding word_le_nat_alt u using a by simp
    then have "unat (ev_len e - of_nat (19 + ?n)) = unat (ev_len e) - unat (of_nat (19 + ?n) :: 32 word)" by (rule unat_sub)
    moreover have "ev_len e - of_nat (19 + ?n) = ev_len e - 19 - of_nat ?n" by (simp add: diff_diff_eq)
    ultimately show ?thesis using u by (simp only: diff_diff_left)
  qed
  have off: "nat ((int (8 + 1) + c_div (int nc + 7) 8) mod 2 ^ 32) = ?n"
  proof -
    have "c_div (int nc + 7) 8 = int ((nc + 7) div 8)" by (simp add: c_div_def zdiv_int)
    then have "int (8 + 1) + c_div (int nc + 7) 8 = int ?n" by simp
    moreover have "int ?n < 2 ^ 32"
    proof -
      have "nc < 251" using a by simp
      then show ?thesis by simp
    qed
    ultimately show ?thesis by simp
  qed
  have e1: "uint2korr b (19 + 6) = Inr flag" "DecodePacketInt b (19 + 8) = Inr (int nc, 1)" using flag pk by simp_all
  have row: "decodeOneRow (rl_map r') b' (base + pos) = Inr ([], base + pos)" if "rl_map r' = rl_map r" for r' b' base pos
    using a that by (simp add: decodeOneRow_def getBitmapSize_def)
  have ty: "ev_type e \<noteq> UPDATE_ROWS_EVENT" using a by auto
  have stuck: "decodeEvent f r' (ev_type e) b (19 + ?n) (unat (ev_len e) - 19 - ?n) rows = Inr None"
    if "rl_map r' = rl_map r" "rl_logname r' = rl_logname r" for f r' rows
    unfolding decodeEvent_def using stuck_items [of r' b _ _ "[]", OF row _ ty] that a ty by auto
  have "process_loop f r' b rows = Inr None" if "rl_map r' = rl_map r" "rl_logname r' = rl_logname r" for r' rows
  proof (cases f)
    case 0
    then show ?thesis using getEvent_len [OF assms] by (simp add: loop_out)
  next
    case (Suc g)
    have "processRowEvent g r' e b rows = Inr None" if "rl_map r' = rl_map r" "rl_logname r' = rl_logname r" for r' rows
    proof -
      have "\<not> int nc + 7 > INT_MAX" using a by (simp add: INT_MAX_def)
      then have "rows_event g r' e b rows = Inr None"
        unfolding rows_event_def ev(1) e1 fbind_Inr prod.case Let_def off len if_not_P [OF \<open>\<not> int nc + 7 > INT_MAX\<close>]
        using that by (intro stuck) auto
      then show ?thesis using a by (auto simp: processRowEvent_def)
    qed
    then show ?thesis using Suc that loop_step [OF assms] by simp
  qed
  then show "process f r b = Inr None" by (simp add: process_def)
qed

definition wit_log :: rowlog where
  "wit_log = \<lparr>rl_tablepos = 0, rl_bufoff = 0, rl_startpos = 4, rl_logname = [98, 0], rl_stat = 0, rl_item = 0, rl_start = 0,
     rl_curpos = 0, rl_map = no_tablemap\<rparr>"

lemma wit_first:
  "process 2 wit_log [0, 0, 0, 0, 2, 0, 0, 0, 0, 19, 0, 0, 0, 0, 0, 0, 0, 0, 0, 1]
    = Inr (Some (wit_log\<lparr>rl_curpos := 19, rl_bufoff := 19\<rparr>, False, 19, []))"
  by code_simp

lemma wit_second:
  "process 2 (wit_log\<lparr>rl_curpos := 19, rl_bufoff := 19\<rparr>) (drop (nat 19) [0, 0, 0, 0, 2, 0, 0, 0, 0, 19, 0, 0, 0, 0, 0, 0, 0, 0, 0, 1] @ [2, 3])
    = Inr (Some (wit_log\<lparr>rl_curpos := 19, rl_bufoff := 0\<rparr>, False, 0, []))"
  by code_simp

lemma binlog_chunks_witness:
  "process (2 + 2) wit_log ([0, 0, 0, 0, 2, 0, 0, 0, 0, 19, 0, 0, 0, 0, 0, 0, 0, 0, 0, 1] @ [2, 3])
    = Inr (Some (wit_log\<lparr>rl_curpos := 19, rl_bufoff := 19\<rparr>, False, 19, []))"
  using binlog_chunks [OF wit_first wit_second] by simp

definition wit_empty :: "byte list" where
  "wit_empty = [0, 0, 0, 0, 2, 0, 0, 0, 0] @ replicate 10 0"

definition wit_rows :: "byte list" where
  "wit_rows = [0, 0, 0, 0, 23, 0, 0, 0, 0, 40] @ replicate 30 0"

lemma wit_stuck:
  "getEvent wit_empty = Some \<lparr>ev_type = 2, ev_len = 0, ev_pos = 19\<rparr>"
  "getEvent wit_rows = Some \<lparr>ev_type = 23, ev_len = 40, ev_pos = 19\<rparr>"
  "uint1 wit_rows 27 = Inr 0" "cstr (rl_logname wit_log) = Inr [98]" "tm_ncols (rl_map wit_log) = 0"
  "cstr (tm_db (rl_map wit_log)) = Inr []" "cstr (tm_table (rl_map wit_log)) = Inr []"
  by code_simp+

lemma binlog_stuck_witness: "process 1000 wit_log wit_empty = Inr None \<and> process 1000 wit_log wit_rows = Inr None"
  using binlog_stuck [OF wit_stuck(1), of 1000 wit_log] binlog_stuck [OF wit_stuck(2), of 1000 wit_log 0 "[98]" "[]" "[]"] wit_stuck
  by simp

end
