(* ===== verification/Anet.thy ===== *)
theory Anet
  imports Prelude
begin

section \<open>Socket helpers (redis-proxy/anet.c, sock4a/anet.cpp)\<close>

text \<open>
  The helpers that open, connect and accept sockets, in the C version of the servers and the later C++ version of
  the tunnels (sock4a and tcpipe have the same file). What the kernel and the resolver answer is the record
  \<open>net_env\<close>; the state is the process's open descriptors and the caller's error buffer (\<open>None\<close> for a
  \<open>NULL\<close> pointer). The theorem accounts for the descriptors on every way out.
\<close>

subsection \<open>Answers of the system\<close>

datatype conn_answer = Connected | In_progress | Refused

text \<open>\<open>ne_socket\<close> is the new descriptor; the truth values say whether a call succeeds.\<close>

record net_env =
  ne_socket :: "int option"
  ne_reuse :: bool
  ne_aton :: bool
  ne_host :: bool
  ne_getfl :: bool
  ne_setfl :: bool
  ne_connect :: conn_answer
  ne_bind :: bool
  ne_listen :: bool
  ne_strerror :: string

record net =
  nt_open :: "int list"
  nt_err :: "string option"

definition ANET_ERR :: int where "ANET_ERR = - 1"
definition ANET_OK :: int where "ANET_OK = 0"
definition ANET_ERR_LEN :: nat where "ANET_ERR_LEN = 256"

definition sys_open :: "int \<Rightarrow> net \<Rightarrow> net" where
  "sys_open fd n = n\<lparr>nt_open := fd # nt_open n\<rparr>"

definition sys_close :: "int \<Rightarrow> net \<Rightarrow> net" where
  "sys_close fd n = n\<lparr>nt_open := remove1 fd (nt_open n)\<rparr>"

subsection \<open>Error text and options\<close>

definition anetSetError :: "string \<Rightarrow> net \<Rightarrow> net" where
  "anetSetError msg n = n\<lparr>nt_err := map_option (\<lambda>_. take (ANET_ERR_LEN - 1) msg) (nt_err n)\<rparr>"

text \<open>The C version ends its messages with a line end, the C++ version does not: \<open>nl\<close>.\<close>

definition anetNonBlock :: "string \<Rightarrow> net_env \<Rightarrow> net \<Rightarrow> int \<times> net" where
  "anetNonBlock nl e n =
     (if \<not> ne_getfl e then (ANET_ERR, anetSetError (''fcntl(F_GETFL): '' @ ne_strerror e @ nl) n)
      else if \<not> ne_setfl e then (ANET_ERR, anetSetError (''fcntl(F_SETFL,O_NONBLOCK): '' @ ne_strerror e @ nl) n)
      else (ANET_OK, n))"

definition anetTcpNoDelay :: "string \<Rightarrow> net_env \<Rightarrow> bool \<Rightarrow> net \<Rightarrow> int \<times> net" where
  "anetTcpNoDelay nl e ok n = (if ok then (ANET_OK, n) else (ANET_ERR, anetSetError (''setsockopt TCP_NODELAY: '' @ ne_strerror e @ nl) n))"

definition anetSetSendBuffer :: "string \<Rightarrow> net_env \<Rightarrow> bool \<Rightarrow> net \<Rightarrow> int \<times> net" where
  "anetSetSendBuffer nl e ok n = (if ok then (ANET_OK, n) else (ANET_ERR, anetSetError (''setsockopt SO_SNDBUF: '' @ ne_strerror e @ nl) n))"

definition anetTcpKeepAlive :: "string \<Rightarrow> net_env \<Rightarrow> bool \<Rightarrow> net \<Rightarrow> int \<times> net" where
  "anetTcpKeepAlive nl e ok n = (if ok then (ANET_OK, n) else (ANET_ERR, anetSetError (''setsockopt SO_KEEPALIVE: '' @ ne_strerror e @ nl) n))"

text \<open>\<open>strcpy(ipbuf, inet_ntoa(...))\<close>, \<open>ntoa\<close> the text of the address and \<open>room\<close> the size of the buffer.\<close>

definition anetResolve :: "string \<Rightarrow> net_env \<Rightarrow> string \<Rightarrow> string \<Rightarrow> nat \<Rightarrow> net \<Rightarrow> (int \<times> string option \<times> net) res" where
  "anetResolve nl e host ntoa room n =
     (if \<not> ne_aton e \<and> \<not> ne_host e then Inr (ANET_ERR, None, anetSetError (''can't resolve: '' @ host @ nl) n)
      else if length ntoa < room then Inr (ANET_OK, Some ntoa, n) else Inl Buffer_overflow)"

subsection \<open>Connecting and listening, C version\<close>

definition newline :: string where "newline = [CHR 0x0A]"

definition connect_end :: "string \<Rightarrow> net_env \<Rightarrow> bool \<Rightarrow> int \<Rightarrow> net \<Rightarrow> int \<times> net" where
  "connect_end nl e nonblock s n =
     (if ne_connect e = Connected \<or> ne_connect e = In_progress \<and> nonblock then (s, n)
      else (ANET_ERR, sys_close s (anetSetError (''connect: '' @ ne_strerror e @ nl) n)))"

text \<open>From the resolution of the address on, which both versions share.\<close>

definition connect_rest :: "string \<Rightarrow> net_env \<Rightarrow> string \<Rightarrow> bool \<Rightarrow> int \<Rightarrow> net \<Rightarrow> int \<times> net" where
  "connect_rest nl e addr nonblock s n =
     (if \<not> ne_aton e \<and> \<not> ne_host e then (ANET_ERR, sys_close s (anetSetError (''can't resolve: '' @ addr @ nl) n))
      else case (if nonblock then anetNonBlock nl e n else (ANET_OK, n)) of (r, n') \<Rightarrow>
        if r \<noteq> ANET_OK then (ANET_ERR, n') else connect_end nl e nonblock s n')"

definition anetTcpGenericConnect :: "net_env \<Rightarrow> string \<Rightarrow> bool \<Rightarrow> net \<Rightarrow> int \<times> net" where
  "anetTcpGenericConnect e addr nonblock n =
     (case ne_socket e of
        None \<Rightarrow> (ANET_ERR, anetSetError (''creating socket: '' @ ne_strerror e @ newline) n)
      | Some s \<Rightarrow> connect_rest newline e addr nonblock s (sys_open s n))"

definition anetTcpConnect :: "net_env \<Rightarrow> string \<Rightarrow> net \<Rightarrow> int \<times> net" where
  "anetTcpConnect e addr = anetTcpGenericConnect e addr False"

definition anetTcpNonBlockConnect :: "net_env \<Rightarrow> string \<Rightarrow> net \<Rightarrow> int \<times> net" where
  "anetTcpNonBlockConnect e addr = anetTcpGenericConnect e addr True"

definition fail_close :: "int \<Rightarrow> string \<Rightarrow> net \<Rightarrow> int \<times> net" where
  "fail_close s msg n = (ANET_ERR, sys_close s (anetSetError msg n))"

definition anetTcpServer :: "net_env \<Rightarrow> string option \<Rightarrow> net \<Rightarrow> int \<times> net" where
  "anetTcpServer e bindaddr n =
     (case ne_socket e of
        None \<Rightarrow> (ANET_ERR, anetSetError (''socket: '' @ ne_strerror e @ newline) n)
      | Some s \<Rightarrow> let n1 = sys_open s n in
          if \<not> ne_reuse e then fail_close s (''setsockopt SO_REUSEADDR: '' @ ne_strerror e @ newline) n1
          else if bindaddr \<noteq> None \<and> \<not> ne_aton e then fail_close s (''Invalid bind address'' @ newline) n1
          else if \<not> ne_bind e then fail_close s (''bind: '' @ ne_strerror e @ newline) n1
          else if \<not> ne_listen e then fail_close s (''listen: '' @ ne_strerror e @ newline) n1
          else (s, n1))"

text \<open>The answers of \<open>accept\<close>, one per call; \<open>None\<close> when it is still waiting. The new descriptor comes with the text
  of the peer's address and its port; a buffer of the caller is its size.\<close>

datatype accept_answer = Acc_fd int string nat | Acc_intr | Acc_error

fun accept_loop :: "string \<Rightarrow> net_env \<Rightarrow> accept_answer list \<Rightarrow> net \<Rightarrow> ((int \<times> (string \<times> nat) option) \<times> net) option" where
  "accept_loop nl e [] n = None"
| "accept_loop nl e (Acc_fd fd ip port # as) n = Some ((fd, Some (ip, port)), sys_open fd n)"
| "accept_loop nl e (Acc_intr # as) n = accept_loop nl e as n"
| "accept_loop nl e (Acc_error # as) n = Some ((ANET_ERR, None), anetSetError (''accept: '' @ ne_strerror e @ nl) n)"

definition anetAccept :: "string \<Rightarrow> net_env \<Rightarrow> accept_answer list \<Rightarrow> nat option \<Rightarrow> net \<Rightarrow> (int \<times> (string \<times> nat) option \<times> net) option res" where
  "anetAccept nl e as ip_room n =
     (case accept_loop nl e as n of
        None \<Rightarrow> Inr None
      | Some ((fd, peer), n') \<Rightarrow>
          (case (peer, ip_room) of
             (Some (ip, port), Some room) \<Rightarrow> if length ip < room then Inr (Some (fd, peer, n')) else Inl Buffer_overflow
           | _ \<Rightarrow> Inr (Some (fd, peer, n'))))"

subsection \<open>Connecting and listening, C++ version\<close>

definition anetCreateSocket :: "net_env \<Rightarrow> net \<Rightarrow> int \<times> net" where
  "anetCreateSocket e n =
     (case ne_socket e of
        None \<Rightarrow> (ANET_ERR, anetSetError (''creating socket: '' @ ne_strerror e) n)
      | Some s \<Rightarrow> if \<not> ne_reuse e then (ANET_ERR, anetSetError (''setsockopt SO_REUSEADDR: '' @ ne_strerror e) (sys_open s n))
                  else (s, sys_open s n))"

definition tcp_connect_pp :: "net_env \<Rightarrow> string \<Rightarrow> bool \<Rightarrow> net \<Rightarrow> int \<times> net" where
  "tcp_connect_pp e addr nonblock n =
     (case anetCreateSocket e n of (s, n1) \<Rightarrow> if s = ANET_ERR then (ANET_ERR, n1) else connect_rest '''' e addr nonblock s n1)"

definition anetUnixGenericConnect :: "net_env \<Rightarrow> bool \<Rightarrow> net \<Rightarrow> int \<times> net" where
  "anetUnixGenericConnect e nonblock n =
     (case anetCreateSocket e n of (s, n1) \<Rightarrow>
        if s = ANET_ERR then (ANET_ERR, n1)
        else case (if nonblock then anetNonBlock '''' e n1 else (ANET_OK, n1)) of (r, n2) \<Rightarrow>
          if r \<noteq> ANET_OK then (ANET_ERR, n2) else connect_end '''' e nonblock s n2)"

definition anetListen :: "net_env \<Rightarrow> int \<Rightarrow> net \<Rightarrow> int \<times> net" where
  "anetListen e s n =
     (if \<not> ne_bind e then fail_close s (''bind: '' @ ne_strerror e) n
      else if \<not> ne_listen e then fail_close s (''listen: '' @ ne_strerror e) n
      else (ANET_OK, n))"

definition tcp_server_pp :: "net_env \<Rightarrow> string option \<Rightarrow> net \<Rightarrow> int \<times> net" where
  "tcp_server_pp e bindaddr n =
     (case anetCreateSocket e n of (s, n1) \<Rightarrow>
        if s = ANET_ERR then (ANET_ERR, n1)
        else if bindaddr \<noteq> None \<and> \<not> ne_aton e then fail_close s ''invalid bind address'' n1
        else case anetListen e s n1 of (r, n2) \<Rightarrow> if r = ANET_ERR then (ANET_ERR, n2) else (s, n2))"

definition anetUnixServer :: "net_env \<Rightarrow> net \<Rightarrow> int \<times> net" where
  "anetUnixServer e n =
     (case anetCreateSocket e n of (s, n1) \<Rightarrow>
        if s = ANET_ERR then (ANET_ERR, n1)
        else case anetListen e s n1 of (r, n2) \<Rightarrow> if r = ANET_ERR then (ANET_ERR, n2) else (s, n2))"

subsection \<open>Reading and writing a count\<close>

datatype read_result = Read_error | Read_bytes "byte list"

datatype write_result = Write_error | Write_bytes nat

text \<open>The kernel hands out and takes at most what is asked for; no bytes is the end of the stream. \<open>None\<close>: the call has
  not returned when the answers are used up. The result is the returned number, the bytes moved, and the
  answers left.\<close>

fun anetRead :: "nat \<Rightarrow> read_result list \<Rightarrow> byte list \<Rightarrow> (int \<times> byte list \<times> read_result list) option" where
  "anetRead n rs acc =
     (if length acc = n then Some (int n, acc, rs)
      else case rs of
        [] \<Rightarrow> None
      | Read_error # rs' \<Rightarrow> Some (- 1, acc, rs')
      | Read_bytes d # rs' \<Rightarrow>
          if take (n - length acc) d = [] then Some (int (length acc), acc, rs')
          else anetRead n rs' (acc @ take (n - length acc) d))"

fun anetWrite :: "byte list \<Rightarrow> write_result list \<Rightarrow> byte list \<Rightarrow> (int \<times> byte list \<times> write_result list) option" where
  "anetWrite buf ws acc =
     (if buf = [] then Some (int (length acc), acc, ws)
      else case ws of
        [] \<Rightarrow> None
      | Write_error # ws' \<Rightarrow> Some (- 1, acc, ws')
      | Write_bytes k # ws' \<Rightarrow>
          if k = 0 then Some (int (length acc), acc, ws')
          else anetWrite (drop k buf) ws' (acc @ take k buf))"

declare anetRead.simps [simp del] anetWrite.simps [simp del]

subsection \<open>What stays open\<close>

definition stays :: "net_env \<Rightarrow> bool \<Rightarrow> int list \<Rightarrow> int list" where
  "stays e kept fds = (case ne_socket e of None \<Rightarrow> fds | Some s \<Rightarrow> if kept then s # fds else fds)"

lemmas anet_defs = anetNonBlock_def anetSetError_def connect_rest_def connect_end_def fail_close_def anetCreateSocket_def
  anetListen_def sys_open_def sys_close_def stays_def ANET_ERR_def ANET_OK_def

definition accounts :: "net_env \<Rightarrow> bool \<Rightarrow> net \<Rightarrow> int \<times> net \<Rightarrow> bool" where
  "accounts e leak n out = (case out of (r, n') \<Rightarrow>
     nt_open n' = stays e (r \<noteq> ANET_ERR \<or> leak) (nt_open n) \<and> (r = ANET_ERR \<or> ne_socket e = Some r))"

lemma accounts_intro:
  assumes "\<And>s. ne_socket e = Some s \<Longrightarrow> s \<noteq> - 1"
  shows
    "accounts e (nb \<and> (ne_aton e \<or> ne_host e) \<and> \<not> (ne_getfl e \<and> ne_setfl e)) n (anetTcpGenericConnect e addr nb n)"
    "accounts e False n (anetTcpServer e bindaddr n)"
    "accounts e (\<not> ne_reuse e \<or> nb \<and> (ne_aton e \<or> ne_host e) \<and> \<not> (ne_getfl e \<and> ne_setfl e)) n (tcp_connect_pp e addr nb n)"
    "accounts e (\<not> ne_reuse e \<or> nb \<and> \<not> (ne_getfl e \<and> ne_setfl e)) n (anetUnixGenericConnect e nb n)"
    "accounts e (\<not> ne_reuse e) n (tcp_server_pp e bindaddr n)"
    "accounts e (\<not> ne_reuse e) n (anetUnixServer e n)"
  unfolding accounts_def anetTcpGenericConnect_def anetTcpServer_def tcp_connect_pp_def anetUnixGenericConnect_def
    tcp_server_pp_def anetUnixServer_def anet_defs
  using assms by (auto simp: Let_def split: option.splits)

text \<open>Whatever the system answers, a helper that returns a descriptor has added exactly that one to the open ones,
  and one that returns the error has closed what it opened, with these exceptions: the connection whose socket
  cannot be made non-blocking, in both versions, and in the C++ version any socket on which the option for
  reuse cannot be set.\<close>

theorem anet_descriptors:
  assumes "\<And>s. ne_socket e = Some s \<Longrightarrow> 0 \<le> s"
  shows "accounts e (nb \<and> (ne_aton e \<or> ne_host e) \<and> \<not> (ne_getfl e \<and> ne_setfl e)) n (anetTcpGenericConnect e addr nb n)
    \<and> accounts e False n (anetTcpServer e bindaddr n)
    \<and> accounts e (\<not> ne_reuse e \<or> nb \<and> (ne_aton e \<or> ne_host e) \<and> \<not> (ne_getfl e \<and> ne_setfl e)) n (tcp_connect_pp e addr nb n)
    \<and> accounts e (\<not> ne_reuse e \<or> nb \<and> \<not> (ne_getfl e \<and> ne_setfl e)) n (anetUnixGenericConnect e nb n)
    \<and> accounts e (\<not> ne_reuse e) n (tcp_server_pp e bindaddr n)
    \<and> accounts e (\<not> ne_reuse e) n (anetUnixServer e n)"
proof -
  have "s \<noteq> - 1" if "ne_socket e = Some s" for s using assms [OF that] by simp
  note accounts_intro [OF this]
  then show ?thesis by blast
qed

definition wit_env :: net_env where
  "wit_env = \<lparr>ne_socket = Some 7, ne_reuse = True, ne_aton = True, ne_host = False, ne_getfl = True, ne_setfl = False,
    ne_connect = Refused, ne_bind = True, ne_listen = False, ne_strerror = ''refused''\<rparr>"

lemma anet_descriptors_witness:
  "accounts wit_env True \<lparr>nt_open = [3], nt_err = Some []\<rparr> (tcp_connect_pp wit_env ''10.0.0.1'' True \<lparr>nt_open = [3], nt_err = Some []\<rparr>)"
  using anet_descriptors [of wit_env True "\<lparr>nt_open = [3], nt_err = Some []\<rparr>" "''10.0.0.1''" None] by (simp add: wit_env_def)

subsection \<open>Whole counts\<close>

lemma anetWrite_prefix:
  "anetWrite buf ws acc = Some (r, sent, ws') \<Longrightarrow>
    \<exists>k. sent = acc @ take k buf \<and> (r = int (length acc + length buf) \<longrightarrow> k = length buf) \<and> (r = - 1 \<or> r = int (length sent))"
proof (induction buf ws acc rule: anetWrite.induct)
  case (1 buf ws acc)
  show ?case
  proof (cases "buf = []")
    case True
    with "1.prems" show ?thesis by (auto simp: anetWrite.simps [of "[]"])
  next
    case False
    with "1.prems" obtain w us where w: "ws = w # us" by (cases ws) (auto simp: anetWrite.simps [of buf])
    show ?thesis
    proof (cases w)
      case Write_error
      with "1.prems" False w show ?thesis by (auto simp: anetWrite.simps [of buf] intro!: exI [of _ 0])
    next
      case k: (Write_bytes k)
      show ?thesis
      proof (cases "k = 0")
        case True
        with "1.prems" False w k show ?thesis by (auto simp: anetWrite.simps [of buf] intro!: exI [of _ 0])
      next
        case pos: False
        with "1.prems" False w k have "anetWrite (drop k buf) us (acc @ take k buf) = Some (r, sent, ws')"
          by (simp add: anetWrite.simps [of buf])
        from "1.IH" [OF False w k pos this] obtain j where j: "sent = (acc @ take k buf) @ take j (drop k buf)"
          "r = int (length (acc @ take k buf) + length (drop k buf)) \<longrightarrow> j = length (drop k buf)" "r = - 1 \<or> r = int (length sent)"
          by blast
        have len: "length (acc @ take k buf) + length (drop k buf) = length acc + length buf" by simp
        show ?thesis
        proof (cases "k \<le> length buf")
          case True
          with j len show ?thesis by (intro exI [of _ "k + j"]) (auto simp: take_add)
        next
          case F: False
          with j len show ?thesis by (intro exI [of _ "length buf"]) auto
        qed
      qed
    qed
  qed
qed

end
