(* ===== verification/Tunnel.thy ===== *)
theory Tunnel
  imports Anet "HOL-Library.Sublist"
begin

section \<open>Tunnels (sock4a, tcpipe, sock4a-apr)\<close>

text \<open>
  A tunnel is two programs: the client end takes connections of browsers, encodes their bytes and sends them to
  the server end, which decodes them and passes them on to a target; answers come back the same way. The server
  end of sock4a reads the target from a SOCKS4a request, that of tcpipe has one fixed target. A worker thread
  serves one connection; what \<open>poll\<close>, \<open>read\<close> and \<open>write\<close> answer it is a list. The C program sock4a-apr
  is a client end on other library calls.
\<close>

subsection \<open>Code of the bytes (lib.cpp)\<close>

definition simpleEncode :: "byte list \<Rightarrow> nat \<Rightarrow> byte list" where
  "simpleEncode str len = map (\<lambda>c. c + 3) (take len str) @ drop len str"

definition simpleDecode :: "byte list \<Rightarrow> nat \<Rightarrow> byte list" where
  "simpleDecode str len = map (\<lambda>c. c - 3) (take len str) @ drop len str"

subsection \<open>The relay loop\<close>

definition BUF_SIZE :: nat where "BUF_SIZE = 65536"

text \<open>Side 0 is the connection that was accepted, side 1 the one that was made. A closed relay has closed both
  descriptors and returned.\<close>

record relay =
  ry_in0 :: "byte list"
  ry_in1 :: "byte list"
  ry_out0 :: "byte list"
  ry_out1 :: "byte list"
  ry_closed :: bool

definition relay_start :: relay where
  "relay_start = \<lparr>ry_in0 = [], ry_in1 = [], ry_out0 = [], ry_out1 = [], ry_closed = False\<rparr>"

text \<open>One answer of \<open>poll\<close>: nothing (a timeout or an error), or for each side that is ready what its \<open>read\<close> and the
  \<open>write\<close>s to the other side answer.\<close>

type_synonym move = "read_result \<times> write_result list"

datatype poll_answer = Poll_nothing | Poll_ready "move option" "move option"

text \<open>The bytes read, the bytes written, and whether the loop goes on; \<open>None\<close>: a write has not returned.\<close>

definition relay_move :: "(byte list \<Rightarrow> nat \<Rightarrow> byte list) \<Rightarrow> move \<Rightarrow> (byte list \<times> byte list \<times> bool) option" where
  "relay_move code m = (case m of
       (Read_error, ws) \<Rightarrow> Some ([], [], False)
     | (Read_bytes d0, ws) \<Rightarrow> let d = take BUF_SIZE d0; nr = length d in
         if nr = 0 then Some ([], [], False)
         else map_option (\<lambda>(nw, sent, _). (d, sent, nw = int nr)) (anetWrite (code d nr) ws []))"

definition relay0 :: "(byte list \<Rightarrow> nat \<Rightarrow> byte list) \<Rightarrow> move option \<Rightarrow> relay \<Rightarrow> relay option" where
  "relay0 code mo r = (case mo of
       None \<Rightarrow> Some r
     | Some m \<Rightarrow> map_option (\<lambda>(d, sent, ok). r\<lparr>ry_in0 := ry_in0 r @ d, ry_out1 := ry_out1 r @ sent, ry_closed := \<not> ok\<rparr>) (relay_move code m))"

definition relay1 :: "(byte list \<Rightarrow> nat \<Rightarrow> byte list) \<Rightarrow> move option \<Rightarrow> relay \<Rightarrow> relay option" where
  "relay1 code mo r = (case mo of
       None \<Rightarrow> Some r
     | Some m \<Rightarrow> map_option (\<lambda>(d, sent, ok). r\<lparr>ry_in1 := ry_in1 r @ d, ry_out0 := ry_out0 r @ sent, ry_closed := \<not> ok\<rparr>) (relay_move code m))"

definition relay_turn :: "(byte list \<Rightarrow> nat \<Rightarrow> byte list) \<Rightarrow> (byte list \<Rightarrow> nat \<Rightarrow> byte list) \<Rightarrow> poll_answer \<Rightarrow> relay \<Rightarrow> relay option" where
  "relay_turn c0 c1 p r = (case p of
       Poll_nothing \<Rightarrow> Some r
     | Poll_ready a b \<Rightarrow> Option.bind (relay0 c0 a r) (\<lambda>r1. if ry_closed r1 then Some r1 else relay1 c1 b r1))"

fun relay_loop :: "(byte list \<Rightarrow> nat \<Rightarrow> byte list) \<Rightarrow> (byte list \<Rightarrow> nat \<Rightarrow> byte list) \<Rightarrow> poll_answer list \<Rightarrow> relay \<Rightarrow> relay option" where
  "relay_loop c0 c1 [] r = Some r"
| "relay_loop c0 c1 (p # ps) r = (if ry_closed r then Some r else Option.bind (relay_turn c0 c1 p r) (relay_loop c0 c1 ps))"

definition server_relay :: "poll_answer list \<Rightarrow> relay \<Rightarrow> relay option" where
  "server_relay = relay_loop simpleDecode simpleEncode"

definition client_relay :: "poll_answer list \<Rightarrow> relay \<Rightarrow> relay option" where
  "client_relay = relay_loop simpleEncode simpleDecode"

subsection \<open>The server end of sock4a\<close>

definition bytes_of :: "string \<Rightarrow> byte list" where
  "bytes_of s = map (\<lambda>c. of_nat (of_char c)) s"

text \<open>The request in the \<open>nr\<close> bytes of the first read, still encoded; what lies behind them in the buffer is
  indeterminate. \<open>None\<close> is a rejected request.\<close>

definition peer_name :: "byte list \<Rightarrow> byte list res" where
  "peer_name b =
     (let user = dropWhile (\<lambda>x. x \<noteq> 0) (drop 8 b); rest = tl user; name = takeWhile (\<lambda>x. x \<noteq> 0) rest in
      if user = [] then Inl Indeterminate_value
      else if length name \<ge> 128 then Inl Buffer_overflow
      else if 0 \<notin> set rest then Inl Indeterminate_value
      else Inr name)"

definition dotted :: "byte list \<Rightarrow> byte list" where
  "dotted b = bytes_of (show_nat (unat (b ! 4)) @ ''.'' @ show_nat (unat (b ! 5)) @ ''.'' @ show_nat (unat (b ! 6)) @ ''.'' @ show_nat (unat (b ! 7)))"

definition sock4a_request :: "byte list \<Rightarrow> (byte list \<times> nat) option res" where
  "sock4a_request d =
     (let nr = length d; b = simpleDecode d nr; port = unat (b ! 2) * 256 + unat (b ! 3) in
      if nr \<le> 8 then Inr None
      else if b ! 0 \<noteq> 4 \<or> b ! 1 \<noteq> 1 then Inr None
      else if b ! 4 = 0 \<and> b ! 4 = 0 \<and> b ! 6 = 0 then fmap (\<lambda>name. Some (name, port)) (peer_name b)
      else Inr (Some (dotted b, port)))"

text \<open>The worker: the answer of the first read, what \<open>anetTcpConnect\<close> answers for each host and port (a descriptor or
  \<open>ANET_ERR\<close>), the answers to the write of the reply, and those of the relay. A result holds the target of the call. Outside \<open>Relaying\<close> every descriptor the worker had is closed.\<close>

datatype worker = Rejected | Not_connected "byte list" nat | Reply_failed | Relaying "byte list" nat relay

definition sock4a_reply :: "byte list" where
  "sock4a_reply = [0, 0x5a, 0, 0, 0, 0, 0, 0]"

definition sock4aWorker :: "read_result \<Rightarrow> (byte list \<Rightarrow> nat \<Rightarrow> int) \<Rightarrow> write_result list \<Rightarrow> poll_answer list \<Rightarrow> worker option res" where
  "sock4aWorker rd dial ws ps = (case rd of
       Read_error \<Rightarrow> Inr (Some Rejected)
     | Read_bytes d \<Rightarrow> fbind (sock4a_request (take BUF_SIZE d)) (\<lambda>q. case q of
           None \<Rightarrow> Inr (Some Rejected)
         | Some (host, port) \<Rightarrow>
             if dial host port = ANET_ERR then Inr (Some (Not_connected host port))
             else Inr (case anetWrite (simpleEncode sock4a_reply 8) ws [] of
                 None \<Rightarrow> None
               | Some (nw, sent, _) \<Rightarrow>
                   if nw \<noteq> 8 then Some Reply_failed
                   else map_option (Relaying host port) (server_relay ps (relay_start\<lparr>ry_out0 := sent\<rparr>)))))"

subsection \<open>The server end of tcpipe\<close>

text \<open>The options, and the worker, which waits until \<open>poll\<close> answers 1 and connects to a port of its own.\<close>

record tcpipe_options =
  to_port :: int
  to_peer_port :: int
  to_peer_ip :: string
  to_daemon :: bool

definition LISTEN_PORT :: int where "LISTEN_PORT = 11080"

text \<open>One option of \<open>getopt\<close>; \<open>None\<close> is the exit after the usage text.\<close>

definition tcpipe_option :: "char \<Rightarrow> string \<Rightarrow> tcpipe_options \<Rightarrow> tcpipe_options option res" where
  "tcpipe_option ch arg opt =
     (if ch = CHR ''p'' then fmap (\<lambda>v. Some (opt\<lparr>to_port := v\<rparr>)) (c_atoi arg)
      else if ch = CHR ''P'' then fmap (\<lambda>v. Some (opt\<lparr>to_peer_port := v mod 65536\<rparr>)) (c_atoi arg)
      else if ch = CHR ''H'' then if length arg < 128 then Inr (Some (opt\<lparr>to_peer_ip := arg\<rparr>)) else Inl Buffer_overflow
      else if ch = CHR ''d'' then Inr (Some (opt\<lparr>to_daemon := True\<rparr>))
      else if ch = CHR ''h'' then Inr None
      else Inr (Some opt))"

fun wait_ready :: "int list \<Rightarrow> bool" where
  "wait_ready [] = False"
| "wait_ready (tp # tps) = (if tp = 1 then True else wait_ready tps)"

definition tcpipeWorker :: "tcpipe_options \<Rightarrow> int list \<Rightarrow> bool \<Rightarrow> poll_answer list \<Rightarrow> worker option" where
  "tcpipeWorker opt tps connected ps =
     (let o1 = opt\<lparr>to_peer_port := 3128\<rparr>; host = bytes_of (to_peer_ip o1); port = nat (to_peer_port o1) in
      if \<not> wait_ready tps then None
      else if \<not> connected then Some (Not_connected host port)
      else map_option (Relaying host port) (server_relay ps relay_start))"

subsection \<open>A relay is a stream transformer\<close>

text \<open>What the loop needs of its code: every byte is replaced on its own.\<close>

locale byte_code =
  fixes code :: "byte list \<Rightarrow> nat \<Rightarrow> byte list" and f :: "byte \<Rightarrow> byte"
  assumes code_map: "code d (length d) = map f d"
begin

lemma move_prefix:
  assumes "relay_move code m = Some (d, sent, ok)"
  shows "prefix sent (map f d) \<and> (ok \<longrightarrow> sent = map f d)"
proof (cases m)
  case (Pair rd ws)
  show ?thesis
  proof (cases rd)
    case Read_error
    with assms Pair show ?thesis by (simp add: relay_move_def)
  next
    case (Read_bytes d0)
    let ?d = "take BUF_SIZE d0"
    show ?thesis
    proof (cases "?d = []")
      case True
      with assms Pair Read_bytes show ?thesis by (simp add: relay_move_def)
    next
      case False
      with assms Pair Read_bytes obtain nw ws' where w: "anetWrite (map f ?d) ws [] = Some (nw, sent, ws')" "d = ?d"
        "ok = (nw = int (length ?d))"
        by (auto simp: relay_move_def Let_def code_map [symmetric] simp del: length_take)
      from anetWrite_prefix [OF w(1)] obtain k where "sent = take k (map f ?d)" "nw = int (length (map f ?d)) \<longrightarrow> k = length (map f ?d)"
        by auto
      then show ?thesis using w by (auto simp: take_is_prefix simp del: length_take)
    qed
  qed
qed

end

interpretation enc: byte_code simpleEncode "\<lambda>c. c + 3"
  by unfold_locales (simp add: simpleEncode_def)

interpretation dec: byte_code simpleDecode "\<lambda>c. c - 3"
  by unfold_locales (simp add: simpleDecode_def)

text \<open>\<open>pre\<close> is what was written to side 0 before the relay began.\<close>

definition relay_ok :: "(byte \<Rightarrow> byte) \<Rightarrow> (byte \<Rightarrow> byte) \<Rightarrow> byte list \<Rightarrow> relay \<Rightarrow> bool" where
  "relay_ok f0 f1 pre r \<longleftrightarrow> prefix (ry_out1 r) (map f0 (ry_in0 r)) \<and> prefix (ry_out0 r) (pre @ map f1 (ry_in1 r))
    \<and> (\<not> ry_closed r \<longrightarrow> ry_out1 r = map f0 (ry_in0 r) \<and> ry_out0 r = pre @ map f1 (ry_in1 r))"

locale two_codes = c0: byte_code code0 f0 + c1: byte_code code1 f1 for code0 f0 code1 f1
begin

lemma relay0_ok:
  assumes "relay0 code0 mo r = Some r'" "relay_ok f0 f1 pre r" "\<not> ry_closed r"
  shows "relay_ok f0 f1 pre r'"
proof (cases mo)
  case (Some m)
  with assms(1) obtain d sent ok where m: "relay_move code0 m = Some (d, sent, ok)"
    "r' = r\<lparr>ry_in0 := ry_in0 r @ d, ry_out1 := ry_out1 r @ sent, ry_closed := \<not> ok\<rparr>"
    by (auto simp: relay0_def)
  with c0.move_prefix [OF m(1)] assms(2,3) show ?thesis by (auto simp: relay_ok_def)
qed (use assms in \<open>simp add: relay0_def\<close>)

lemma relay1_ok:
  assumes "relay1 code1 mo r = Some r'" "relay_ok f0 f1 pre r" "\<not> ry_closed r"
  shows "relay_ok f0 f1 pre r'"
proof (cases mo)
  case (Some m)
  with assms(1) obtain d sent ok where m: "relay_move code1 m = Some (d, sent, ok)"
    "r' = r\<lparr>ry_in1 := ry_in1 r @ d, ry_out0 := ry_out0 r @ sent, ry_closed := \<not> ok\<rparr>"
    by (auto simp: relay1_def)
  with c1.move_prefix [OF m(1)] assms(2,3) show ?thesis by (auto simp: relay_ok_def)
qed (use assms in \<open>simp add: relay1_def\<close>)

lemma relay_turn_ok:
  assumes "relay_turn code0 code1 p r = Some r'" "relay_ok f0 f1 pre r" "\<not> ry_closed r"
  shows "relay_ok f0 f1 pre r'"
proof (cases p)
  case (Poll_ready a b)
  with assms(1) obtain r1 where r1: "relay0 code0 a r = Some r1" "(if ry_closed r1 then Some r1 else relay1 code1 b r1) = Some r'"
    by (auto simp: relay_turn_def bind_eq_Some_conv)
  from relay0_ok [OF r1(1) assms(2,3)] have "relay_ok f0 f1 pre r1" .
  then show ?thesis using r1(2) relay1_ok by (auto split: if_splits)
qed (use assms in \<open>simp add: relay_turn_def\<close>)

lemma relay_loop_ok: "relay_loop code0 code1 ps r = Some r' \<Longrightarrow> relay_ok f0 f1 pre r \<Longrightarrow> relay_ok f0 f1 pre r'"
proof (induction ps arbitrary: r)
  case (Cons p ps)
  show ?case
  proof (cases "ry_closed r")
    case False
    with Cons.prems(1) obtain r1 where "relay_turn code0 code1 p r = Some r1" "relay_loop code0 code1 ps r1 = Some r'"
      by (auto simp: bind_eq_Some_conv)
    with Cons.IH relay_turn_ok [OF _ Cons.prems(2) False] show ?thesis by blast
  qed (use Cons.prems in simp)
qed simp

end

interpretation client: two_codes simpleEncode "\<lambda>c. c + 3" simpleDecode "\<lambda>c. c - 3" ..

interpretation server: two_codes simpleDecode "\<lambda>c. c - 3" simpleEncode "\<lambda>c. c + 3" ..

lemma client_relay_ok: "client_relay ps relay_start = Some c \<Longrightarrow> relay_ok (\<lambda>c. c + 3) (\<lambda>c. c - 3) [] c"
  unfolding client_relay_def by (erule client.relay_loop_ok) (simp add: relay_ok_def relay_start_def)

lemma server_relay_ok:
  "server_relay ps (relay_start\<lparr>ry_out0 := out\<rparr>) = Some s \<Longrightarrow> relay_ok (\<lambda>c. c - 3) (\<lambda>c. c + 3) out s"
  unfolding server_relay_def by (erule server.relay_loop_ok) (simp add: relay_ok_def relay_start_def)

subsection \<open>Both ends\<close>

lemma shift_comp [simp]: "(\<lambda>c :: byte. c - 3) \<circ> (\<lambda>c. c + 3) = id" "(\<lambda>c :: byte. c + 3) \<circ> (\<lambda>c. c - 3) = id"
  by auto

lemma prefix_shift:
  "prefix xs (map (\<lambda>c. c + 3) ys) \<Longrightarrow> prefix (map (\<lambda>c. c - 3) xs) (ys :: byte list)"
  "prefix xs (map (\<lambda>c. c - 3) ys) \<Longrightarrow> prefix (map (\<lambda>c. c + 3) xs) (ys :: byte list)"
  using map_mono_prefix [of xs "map (\<lambda>c. c + 3) ys" "\<lambda>c. c - 3"] map_mono_prefix [of xs "map (\<lambda>c. c - 3) ys" "\<lambda>c. c + 3"]
  by (simp_all add: list.map_id)

text \<open>The server end took \<open>h\<close> off its side before the relay, and wrote \<open>pre\<close>.\<close>

lemma ends_transparent:
  assumes c: "relay_ok (\<lambda>c. c + 3) (\<lambda>c. c - 3) [] c" and s: "relay_ok (\<lambda>c. c - 3) (\<lambda>c. c + 3) pre s"
    and up: "prefix (h @ ry_in0 s) (ry_out1 c)" and down: "prefix (ry_in1 c) (ry_out0 s)"
  shows "prefix (map (\<lambda>c. c - 3) h @ ry_out1 s) (ry_in0 c)" "prefix (ry_out0 c) (map (\<lambda>c. c - 3) pre @ ry_in1 s)"
    "\<not> ry_closed c \<Longrightarrow> \<not> ry_closed s \<Longrightarrow> h @ ry_in0 s = ry_out1 c \<Longrightarrow> map (\<lambda>c. c - 3) h @ ry_out1 s = ry_in0 c"
    "\<not> ry_closed c \<Longrightarrow> \<not> ry_closed s \<Longrightarrow> ry_in1 c = ry_out0 s \<Longrightarrow> ry_out0 c = map (\<lambda>c. c - 3) pre @ ry_in1 s"
proof -
  have "prefix (h @ ry_in0 s) (map (\<lambda>c. c + 3) (ry_in0 c))"
    using up c prefix_order.trans unfolding relay_ok_def by blast
  from prefix_shift(1) [OF this] have "prefix (map (\<lambda>c. c - 3) h @ map (\<lambda>c. c - 3) (ry_in0 s)) (ry_in0 c)" by simp
  moreover have "prefix (map (\<lambda>c. c - 3) h @ ry_out1 s) (map (\<lambda>c. c - 3) h @ map (\<lambda>c. c - 3) (ry_in0 s))"
    using s by (simp add: relay_ok_def)
  ultimately show "prefix (map (\<lambda>c. c - 3) h @ ry_out1 s) (ry_in0 c)" using prefix_order.trans by blast
  have "prefix (ry_in1 c) (pre @ map (\<lambda>c. c + 3) (ry_in1 s))"
    using down s prefix_order.trans unfolding relay_ok_def by blast
  from map_mono_prefix [OF this, of "\<lambda>c. c - 3"] have "prefix (map (\<lambda>c. c - 3) (ry_in1 c)) (map (\<lambda>c. c - 3) pre @ ry_in1 s)"
    by (simp add: list.map_id)
  moreover have "prefix (ry_out0 c) (map (\<lambda>c. c - 3) (ry_in1 c))" using c by (simp add: relay_ok_def)
  ultimately show "prefix (ry_out0 c) (map (\<lambda>c. c - 3) pre @ ry_in1 s)" using prefix_order.trans by blast
next
  assume "\<not> ry_closed c" "\<not> ry_closed s" "h @ ry_in0 s = ry_out1 c"
  then have "h @ ry_in0 s = map (\<lambda>c. c + 3) (ry_in0 c)" "ry_out1 s = map (\<lambda>c. c - 3) (ry_in0 s)"
    using c s by (simp_all add: relay_ok_def)
  from arg_cong [OF this(1), of "map (\<lambda>c. c - 3)"] this(2) show "map (\<lambda>c. c - 3) h @ ry_out1 s = ry_in0 c"
    by (simp add: list.map_id)
next
  assume "\<not> ry_closed c" "\<not> ry_closed s" "ry_in1 c = ry_out0 s"
  then show "ry_out0 c = map (\<lambda>c. c - 3) pre @ ry_in1 s"
    using c s by (simp add: relay_ok_def list.map_id)
qed

text \<open>C32. The two ends of tcpipe, with a network that delivers in order what was written: whatever the cuts, what the
  target gets is an initial part of what the browser sent, and what the browser gets an initial part of what
  the target sent; while neither end has closed, everything delivered to an end has been passed on.\<close>

theorem tunnel_transparent:
  assumes c: "client_relay ps relay_start = Some c"
    and s: "tcpipeWorker opt tps connected qs = Some (Relaying host port s)"
    and up: "prefix (ry_in0 s) (ry_out1 c)" and down: "prefix (ry_in1 c) (ry_out0 s)"
  shows "prefix (ry_out1 s) (ry_in0 c) \<and> prefix (ry_out0 c) (ry_in1 s)
    \<and> (\<not> ry_closed c \<and> \<not> ry_closed s \<longrightarrow>
        (ry_in0 s = ry_out1 c \<longrightarrow> ry_out1 s = ry_in0 c) \<and> (ry_in1 c = ry_out0 s \<longrightarrow> ry_out0 c = ry_in1 s))"
proof -
  from s have "server_relay qs (relay_start\<lparr>ry_out0 := []\<rparr>) = Some s"
    by (auto simp: tcpipeWorker_def Let_def relay_start_def split: if_splits)
  note e = ends_transparent [OF client_relay_ok [OF c] server_relay_ok [OF this], of "[]"]
  from e(1-2) up down e(3,4) show ?thesis by simp
qed

subsection \<open>Requests\<close>

definition sock4a_head :: "nat \<Rightarrow> byte list \<Rightarrow> byte list" where
  "sock4a_head port ip = [4, 1, of_nat (port div 256), of_nat (port mod 256)] @ ip"

lemma head_nth:
  assumes "length ip = 4" "port < 65536"
  shows "(sock4a_head port ip @ xs) ! 0 = 4" "(sock4a_head port ip @ xs) ! 1 = 1"
    "unat ((sock4a_head port ip @ xs) ! 2) * 256 + unat ((sock4a_head port ip @ xs) ! 3) = port"
    "(sock4a_head port ip @ xs) ! 4 = ip ! 0" "(sock4a_head port ip @ xs) ! 5 = ip ! 1"
    "(sock4a_head port ip @ xs) ! 6 = ip ! 2" "(sock4a_head port ip @ xs) ! 7 = ip ! 3"
    "drop 8 (sock4a_head port ip @ xs) = xs" "length (sock4a_head port ip @ xs) = 8 + length xs"
proof -
  from assms(1) obtain a b c d where ip: "ip = [a, b, c, d]"
    by (auto simp: length_Suc_conv numeral_eq_Suc)
  have d: "port div 256 < 256" using assms(2) by simp
  show "(sock4a_head port ip @ xs) ! 0 = 4" "(sock4a_head port ip @ xs) ! 1 = 1"
    "(sock4a_head port ip @ xs) ! 4 = ip ! 0" "(sock4a_head port ip @ xs) ! 5 = ip ! 1"
    "(sock4a_head port ip @ xs) ! 6 = ip ! 2" "(sock4a_head port ip @ xs) ! 7 = ip ! 3"
    "drop 8 (sock4a_head port ip @ xs) = xs" "length (sock4a_head port ip @ xs) = 8 + length xs"
    by (simp_all add: sock4a_head_def ip)
  have n: "(sock4a_head port ip @ xs) ! 2 = of_nat (port div 256)" "(sock4a_head port ip @ xs) ! 3 = of_nat (port mod 256)"
    by (simp_all add: sock4a_head_def)
  have u: "unat (of_nat k :: byte) = k" if "k < 256" for k using that by (simp add: unat_of_nat)
  have "port mod 256 < 256" by simp
  then show "unat ((sock4a_head port ip @ xs) ! 2) * 256 + unat ((sock4a_head port ip @ xs) ! 3) = port"
    unfolding n u [OF d] by (simp only: u div_mult_mod_eq)
qed

lemma sock4a_request_enc:
  assumes "length ip = 4" "port < 65536" "xs \<noteq> []"
  shows "sock4a_request (map (\<lambda>c. c + 3) (sock4a_head port ip @ xs)) =
    (if ip ! 0 = 0 \<and> ip ! 2 = 0 then fmap (\<lambda>name. Some (name, port)) (peer_name (sock4a_head port ip @ xs))
     else Inr (Some (dotted (sock4a_head port ip @ xs), port)))"
proof -
  let ?b = "sock4a_head port ip @ xs"
  have d: "simpleDecode (map (\<lambda>c. c + 3) ?b) (length (map (\<lambda>c. c + 3) ?b)) = ?b"
    unfolding dec.code_map by (simp only: map_map shift_comp list.map_id)
  have "\<not> length (map (\<lambda>c. c + 3) ?b) \<le> 8" using head_nth(9) [OF assms(1,2), of xs] assms(3) by (cases xs) simp_all
  then show ?thesis unfolding sock4a_request_def Let_def d using head_nth [OF assms(1,2), of xs] by simp
qed

text \<open>A SOCKS4a request for any port gives the target it names: the name behind the user id when the first and
  third byte of the address are 0, else the address in dotted form; but a name of 128 bytes or more overruns
  the array it is copied to, and a request whose name or user id is not terminated inside the first read uses
  bytes that were never written.\<close>

theorem sock4a_target:
  assumes "length ip = 4" "port < 65536" "0 \<notin> set user" "0 \<notin> set name"
  shows "sock4a_request (map (\<lambda>c. c + 3) (sock4a_head port ip @ user @ [0] @ name @ [0])) =
      (if ip ! 0 \<noteq> 0 \<or> ip ! 2 \<noteq> 0 then Inr (Some (bytes_of (show_nat (unat (ip ! 0)) @ ''.'' @ show_nat (unat (ip ! 1)) @ ''.''
         @ show_nat (unat (ip ! 2)) @ ''.'' @ show_nat (unat (ip ! 3))), port))
       else if length name < 128 then Inr (Some (name, port)) else Inl Buffer_overflow)
    \<and> (ip ! 0 = 0 \<and> ip ! 2 = 0 \<and> user \<noteq> [] \<longrightarrow> sock4a_request (map (\<lambda>c. c + 3) (sock4a_head port ip @ user)) = Inl Indeterminate_value)
    \<and> (ip ! 0 = 0 \<and> ip ! 2 = 0 \<and> length name < 128 \<longrightarrow>
        sock4a_request (map (\<lambda>c. c + 3) (sock4a_head port ip @ user @ [0] @ name)) = Inl Indeterminate_value)"
proof -
  have dw: "dropWhile (\<lambda>x. x \<noteq> 0) user = []" "dropWhile (\<lambda>x. x \<noteq> 0) (user @ 0 # ys) = 0 # ys" for ys
    using assms(3) by (auto simp: dropWhile_append)
  have tw: "takeWhile (\<lambda>x. x \<noteq> 0) name = name" "takeWhile (\<lambda>x. x \<noteq> 0) (name @ [0]) = name"
    using assms(4) by (auto simp: takeWhile_append)
  note r = sock4a_request_enc [OF assms(1,2)] and h = head_nth [OF assms(1,2)]
  have p: "peer_name (sock4a_head port ip @ user @ [0] @ name @ [0]) = (if length name < 128 then Inr name else Inl Buffer_overflow)"
    "peer_name (sock4a_head port ip @ user) = Inl Indeterminate_value"
    "length name < 128 \<Longrightarrow> peer_name (sock4a_head port ip @ user @ [0] @ name) = Inl Indeterminate_value"
    unfolding peer_name_def h(8) append_Cons append_Nil dw Let_def list.sel tw using assms(4) by simp_all
  have q: "dotted (sock4a_head port ip @ xs) = bytes_of (show_nat (unat (ip ! 0)) @ ''.'' @ show_nat (unat (ip ! 1)) @ ''.''
         @ show_nat (unat (ip ! 2)) @ ''.'' @ show_nat (unat (ip ! 3)))" for xs
    unfolding dotted_def h ..
  have r1: "sock4a_request (map (\<lambda>c. c + 3) (sock4a_head port ip @ user @ [0] @ name @ [0])) =
    (if ip ! 0 = 0 \<and> ip ! 2 = 0 then fmap (\<lambda>name. Some (name, port)) (peer_name (sock4a_head port ip @ user @ [0] @ name @ [0]))
     else Inr (Some (dotted (sock4a_head port ip @ user @ [0] @ name @ [0]), port)))" by (rule r) simp
  have r3: "sock4a_request (map (\<lambda>c. c + 3) (sock4a_head port ip @ user @ [0] @ name)) =
    (if ip ! 0 = 0 \<and> ip ! 2 = 0 then fmap (\<lambda>name. Some (name, port)) (peer_name (sock4a_head port ip @ user @ [0] @ name))
     else Inr (Some (dotted (sock4a_head port ip @ user @ [0] @ name), port)))" by (rule r) simp
  show ?thesis
  proof (intro conjI impI)
    assume a: "ip ! 0 = 0 \<and> ip ! 2 = 0 \<and> user \<noteq> []"
    then show "sock4a_request (map (\<lambda>c. c + 3) (sock4a_head port ip @ user)) = Inl Indeterminate_value"
      using r [of user] p(2) by simp
  next
    assume a: "ip ! 0 = 0 \<and> ip ! 2 = 0 \<and> length name < 128"
    then show "sock4a_request (map (\<lambda>c. c + 3) (sock4a_head port ip @ user @ [0] @ name)) = Inl Indeterminate_value"
      unfolding r3 using p(3) by simp
  qed (unfold r1 p(1) q, simp)
qed

lemma sock4a_target_witness:
  "sock4a_request (map (\<lambda>c. c + 3) (sock4a_head 80 [0, 0, 0, 1] @ [] @ [0] @ [119, 51] @ [0])) = Inr (Some ([119, 51], 80))"
  using sock4a_target [of "[0, 0, 0, 1]" 80 "[]" "[119, 51]"] by simp

lemma worker_relaying:
  assumes "sock4aWorker (Read_bytes d) dial ws qs = Inr (Some (Relaying host port s))"
  obtains sent ws' where "dial host port \<noteq> ANET_ERR" "sock4a_request (take BUF_SIZE d) = Inr (Some (host, port))"
    "anetWrite (simpleEncode sock4a_reply 8) ws [] = Some (8, sent, ws')"
    "server_relay qs (relay_start\<lparr>ry_out0 := sent\<rparr>) = Some s"
proof -
  obtain q where q: "sock4a_request (take BUF_SIZE d) = Inr q"
    using assms by (cases "sock4a_request (take BUF_SIZE d)") (simp_all add: sock4aWorker_def)
  with assms obtain h p where hp: "q = Some (h, p)" by (cases q) (auto simp: sock4aWorker_def)
  show thesis
  proof (cases "anetWrite (simpleEncode sock4a_reply 8) ws []")
    case None
    with assms q hp show ?thesis by (simp add: sock4aWorker_def split: if_splits)
  next
    case (Some t)
    obtain nw sent ws' where t: "t = (nw, sent, ws')" by (cases t)
    from assms q hp Some t show ?thesis
      by (intro that [of sent ws']) (auto simp: sock4aWorker_def split: if_splits)
  qed
qed

text \<open>C33. A session of sock4a from end to end, for any SOCKS4 or SOCKS4a request that the server's first read delivers exactly: the
  server calls connect for the port of the request, and for the host name behind the user id when the first and the third byte of the
  address are 0, else for the address in dotted form; it only relays when that connect succeeded. The target gets an initial part of what
  the browser sent behind the request, and the browser an initial part of the 8-byte grant followed by what the target sent; while
  neither end has closed, everything delivered to an end has been passed on.\<close>

theorem sock4a_session:
  assumes c: "client_relay ps relay_start = Some c"
    and req: "req = sock4a_head port ip @ user @ [0] @ name @ [0]" "length ip = 4" "port < 65536" "0 \<notin> set user" "0 \<notin> set name"
    and len: "length req \<le> BUF_SIZE"
    and s: "sock4aWorker (Read_bytes (map (\<lambda>c. c + 3) req)) dial ws qs = Inr (Some (Relaying host p s))"
    and up: "prefix (map (\<lambda>c. c + 3) req @ ry_in0 s) (ry_out1 c)" and down: "prefix (ry_in1 c) (ry_out0 s)"
  shows "p = port \<and> dial host port \<noteq> ANET_ERR
    \<and> host = (if ip ! 0 = 0 \<and> ip ! 2 = 0 then name
        else bytes_of (show_nat (unat (ip ! 0)) @ ''.'' @ show_nat (unat (ip ! 1)) @ ''.''
          @ show_nat (unat (ip ! 2)) @ ''.'' @ show_nat (unat (ip ! 3))))
    \<and> prefix (req @ ry_out1 s) (ry_in0 c) \<and> prefix (ry_out0 c) (sock4a_reply @ ry_in1 s)
    \<and> (\<not> ry_closed c \<and> \<not> ry_closed s \<longrightarrow>
        (map (\<lambda>c. c + 3) req @ ry_in0 s = ry_out1 c \<longrightarrow> req @ ry_out1 s = ry_in0 c)
        \<and> (ry_in1 c = ry_out0 s \<longrightarrow> ry_out0 c = sock4a_reply @ ry_in1 s))"
proof -
  have take: "take BUF_SIZE (map (\<lambda>c. c + 3) req) = map (\<lambda>c. c + 3) req" using len by simp
  obtain sent ws' where q: "dial host p \<noteq> ANET_ERR" "sock4a_request (map (\<lambda>c. c + 3) req) = Inr (Some (host, p))"
    and w: "anetWrite (simpleEncode sock4a_reply 8) ws [] = Some (8, sent, ws')"
    and r: "server_relay qs (relay_start\<lparr>ry_out0 := sent\<rparr>) = Some s"
    using worker_relaying [OF s] unfolding take by blast
  have l: "length sock4a_reply = 8" by (simp add: sock4a_reply_def)
  have e: "simpleEncode sock4a_reply 8 = map (\<lambda>c. c + 3) sock4a_reply" using enc.code_map [of sock4a_reply] l by simp
  from anetWrite_prefix [OF w] obtain k where "sent = take k (simpleEncode sock4a_reply 8)"
    "8 = int (length (simpleEncode sock4a_reply 8)) \<longrightarrow> k = length (simpleEncode sock4a_reply 8)" by auto
  then have "sent = map (\<lambda>c. c + 3) sock4a_reply" unfolding e by (simp add: l)
  then have pre: "map (\<lambda>c. c - 3) sent = sock4a_reply" by (simp add: list.map_id)
  have dec: "map (\<lambda>c. c - 3) (map (\<lambda>c. c + 3) req) = req" by (simp add: list.map_id)
  note t = ends_transparent [OF client_relay_ok [OF c] server_relay_ok [OF r] up down, unfolded dec pre]
  have target: "p = port" "host = (if ip ! 0 = 0 \<and> ip ! 2 = 0 then name
      else bytes_of (show_nat (unat (ip ! 0)) @ ''.'' @ show_nat (unat (ip ! 1)) @ ''.''
        @ show_nat (unat (ip ! 2)) @ ''.'' @ show_nat (unat (ip ! 3))))"
    using q(2) sock4a_target [OF req(2-5), THEN conjunct1] unfolding req(1) by (auto split: if_splits)
  show ?thesis using q(1) target t(1,2) t(3,4) by simp
qed

subsection \<open>Concrete sessions\<close>

lemmas relay_run = client_relay_def server_relay_def relay_turn_def relay0_def relay1_def relay_move_def relay_start_def BUF_SIZE_def
  simpleEncode_def simpleDecode_def anetWrite.simps

definition wit_opt :: tcpipe_options where
  "wit_opt = \<lparr>to_port = 11080, to_peer_port = 8080, to_peer_ip = ''10.0.0.1'', to_daemon = False\<rparr>"

definition wit_c :: relay where
  "wit_c = \<lparr>ry_in0 = [65, 66], ry_in1 = [], ry_out0 = [], ry_out1 = [68, 69], ry_closed = False\<rparr>"

definition wit_s :: relay where
  "wit_s = \<lparr>ry_in0 = [68], ry_in1 = [], ry_out0 = [], ry_out1 = [65], ry_closed = False\<rparr>"

lemma wit_tcpipe:
  "client_relay [Poll_ready (Some (Read_bytes [65, 66], [Write_bytes 1, Write_bytes 1])) None] relay_start = Some wit_c"
  "tcpipeWorker wit_opt [0, 1] True [Poll_nothing, Poll_ready (Some (Read_bytes [68], [Write_bytes 1])) None]
    = Some (Relaying (bytes_of ''10.0.0.1'') 3128 wit_s)"
  "prefix (ry_in0 wit_s) (ry_out1 wit_c)" "prefix (ry_in1 wit_c) (ry_out0 wit_s)"
  by (simp_all add: relay_run wit_c_def wit_s_def tcpipeWorker_def wit_opt_def)

lemma tunnel_transparent_witness: "prefix (ry_out1 wit_s) (ry_in0 wit_c) \<and> prefix (ry_out0 wit_c) (ry_in1 wit_s)"
  using tunnel_transparent [OF wit_tcpipe] by blast

text \<open>Whatever port the option names, the worker connects to 3128.\<close>

lemma peer_port_ignored:
  "tcpipeWorker opt tps connected ps = Some (Not_connected host port) \<Longrightarrow> port = 3128"
  "tcpipeWorker opt tps connected ps = Some (Relaying host port r) \<Longrightarrow> port = 3128"
  by (auto simp: tcpipeWorker_def Let_def split: if_splits)

definition wit_req :: "byte list" where
  "wit_req = sock4a_head 80 [0, 0, 0, 1] @ [] @ [0] @ [119] @ [0]"

definition wit_c4 :: relay where
  "wit_c4 = \<lparr>ry_in0 = wit_req @ [72], ry_in1 = simpleEncode sock4a_reply 8, ry_out0 = sock4a_reply,
     ry_out1 = map (\<lambda>c. c + 3) wit_req @ [75], ry_closed = False\<rparr>"

definition wit_s4 :: relay where
  "wit_s4 = \<lparr>ry_in0 = [75], ry_in1 = [], ry_out0 = simpleEncode sock4a_reply 8, ry_out1 = [72], ry_closed = False\<rparr>"

lemma wit_req_target: "sock4a_request (map (\<lambda>c. c + 3) wit_req) = Inr (Some ([119], 80))"
  by code_simp

lemma wit_sock4a:
  "client_relay [Poll_ready (Some (Read_bytes (wit_req @ [72]), [Write_bytes 12])) None,
      Poll_ready None (Some (Read_bytes (simpleEncode sock4a_reply 8), [Write_bytes 8]))] relay_start = Some wit_c4"
  "length wit_req \<le> BUF_SIZE"
  "sock4aWorker (Read_bytes (map (\<lambda>c. c + 3) wit_req)) (\<lambda>h p. if h = [119] \<and> p = 80 then 5 else ANET_ERR) [Write_bytes 8]
     [Poll_ready (Some (Read_bytes [75], [Write_bytes 1])) None] = Inr (Some (Relaying [119] 80 wit_s4))"
  "prefix (map (\<lambda>c. c + 3) wit_req @ ry_in0 wit_s4) (ry_out1 wit_c4)" "prefix (ry_in1 wit_c4) (ry_out0 wit_s4)"
  using wit_req_target
  by (simp_all add: relay_run wit_c4_def wit_s4_def sock4aWorker_def sock4a_reply_def wit_req_def sock4a_head_def ANET_ERR_def)

lemma sock4a_session_witness:
  "prefix (wit_req @ ry_out1 wit_s4) (ry_in0 wit_c4) \<and> prefix (ry_out0 wit_c4) (sock4a_reply @ ry_in1 wit_s4)"
proof -
  have "length [0, 0, 0, 1 :: byte] = 4" "(80::nat) < 65536" "0 \<notin> set ([] :: byte list)" "0 \<notin> set [119 :: byte]" by simp_all
  from sock4a_session [OF wit_sock4a(1) wit_req_def this wit_sock4a(2-5)] show ?thesis by blast
qed

end
