(* ===== verification/TunnelClient.thy ===== *)
theory TunnelClient
  imports Tunnel
begin

section \<open>The client ends (sock4a/client.cpp, tcpipe/client.cpp, sock4a-apr/sock4a.c)\<close>

text \<open>
  The client end keeps connections to the server ready: one thread fills a queue of at most 20, each worker
  takes one from its front. A descriptor belongs to the queue or to one worker; \<open>pool_owned\<close> is that
  invariant over any interleaving, \<open>pool_loses\<close> the way on which a descriptor ends up with no owner. The C
  program sock4a-apr connects for each browser and relays with single sends.
\<close>

subsection \<open>Options\<close>

record client_options =
  co_port :: int
  co_server_port :: int
  co_server_host :: string
  co_daemon :: bool

text \<open>\<open>snprintf(buf, 63, "%s", arg)\<close> keeps 62 characters. \<open>None\<close> is the exit after the usage text.\<close>

definition client_option :: "char \<Rightarrow> string \<Rightarrow> client_options \<Rightarrow> client_options option res" where
  "client_option ch arg opt =
     (if ch = CHR ''H'' then Inr (Some (opt\<lparr>co_server_host := take 62 arg\<rparr>))
      else if ch = CHR ''P'' then fmap (\<lambda>v. Some (opt\<lparr>co_server_port := v\<rparr>)) (c_atoi arg)
      else if ch = CHR ''p'' then fmap (\<lambda>v. Some (opt\<lparr>co_port := v\<rparr>)) (c_atoi arg)
      else if ch = CHR ''d'' then Inr (Some (opt\<lparr>co_daemon := True\<rparr>))
      else if ch = CHR ''h'' then Inr None
      else Inr (Some opt))"

fun client_options_from :: "(char \<times> string) list \<Rightarrow> client_options \<Rightarrow> client_options option res" where
  "client_options_from [] opt = Inr (Some opt)"
| "client_options_from ((ch, arg) # as) opt =
     fbind (client_option ch arg opt) (\<lambda>r. case r of None \<Rightarrow> Inr None | Some opt' \<Rightarrow> client_options_from as opt')"

subsection \<open>The pool\<close>

record pool =
  po_net :: net
  po_queue :: "int list"
  po_go :: bool
  po_workers :: "(int \<times> int) list"

definition connectToServer :: "net_env \<Rightarrow> string \<Rightarrow> bool \<Rightarrow> net \<Rightarrow> int \<times> net" where
  "connectToServer e host nodelay n =
     (case tcp_connect_pp e host False n of (fd, n1) \<Rightarrow> (fd, snd (anetTcpNoDelay '''' e nodelay n1)))"

text \<open>The thread that fills the queue: it looks at the length under the lock, then connects, then appends.\<close>

definition factory_look :: "pool \<Rightarrow> pool" where
  "factory_look p = p\<lparr>po_go := length (po_queue p) < 20\<rparr>"

definition factory_connect :: "net_env \<Rightarrow> string \<Rightarrow> bool \<Rightarrow> bool \<Rightarrow> pool \<Rightarrow> pool" where
  "factory_connect e host nodelay keepalive p =
     (case connectToServer e host nodelay (po_net p) of (fd, n) \<Rightarrow>
        if fd = ANET_ERR then p\<lparr>po_net := n, po_go := False\<rparr>
        else p\<lparr>po_net := snd (anetTcpKeepAlive '''' e keepalive n), po_queue := po_queue p @ [fd], po_go := False\<rparr>)"

definition deQueue :: "net_env \<Rightarrow> string \<Rightarrow> bool \<Rightarrow> pool \<Rightarrow> int \<times> pool" where
  "deQueue e host nodelay p =
     (case po_queue p of
        [] \<Rightarrow> (case connectToServer e host nodelay (po_net p) of (fd, n) \<Rightarrow> (fd, p\<lparr>po_net := n\<rparr>))
      | fd # q \<Rightarrow> (fd, p\<lparr>po_queue := q\<rparr>))"

text \<open>A worker starts: the accepted \<open>cfd\<close>, a connection of the pool, and a new one when \<open>poll\<close> says that
  the pooled one is readable (\<open>stale\<close>; it ignores the descriptor -1). Only tcpipe looks at the answer of the
  second connect (\<open>checks\<close>). The start is one step of the interleaving: what it shares with the other threads, the queue, is only
  touched by the pop under the lock; the rest opens and closes descriptors of its own.\<close>

definition worker_start :: "bool \<Rightarrow> int \<Rightarrow> net_env \<Rightarrow> bool \<Rightarrow> bool \<Rightarrow> net_env \<Rightarrow> bool \<Rightarrow> string \<Rightarrow> pool \<Rightarrow> pool" where
  "worker_start checks cfd e nodelay stale e2 nodelay2 host p =
     (case deQueue e host nodelay (p\<lparr>po_net := sys_open cfd (po_net p)\<rparr>) of (fd, p1) \<Rightarrow>
        if stale \<and> fd \<noteq> - 1 then
          (case connectToServer e2 host nodelay2 (po_net p1) of (fd2, n2) \<Rightarrow>
             if checks \<and> fd2 = ANET_ERR then p1\<lparr>po_net := sys_close cfd n2\<rparr>
             else p1\<lparr>po_net := n2, po_workers := (cfd, fd2) # po_workers p1\<rparr>)
        else p1\<lparr>po_workers := (cfd, fd) # po_workers p1\<rparr>)"

text \<open>A worker's relay has closed.\<close>

definition worker_end :: "int \<times> int \<Rightarrow> pool \<Rightarrow> pool" where
  "worker_end w p = p\<lparr>po_net := sys_close (snd w) (sys_close (fst w) (po_net p)), po_workers := remove1 w (po_workers p)\<rparr>"

text \<open>The system gives descriptors that are not open.\<close>

definition fresh_env :: "net_env \<Rightarrow> net \<Rightarrow> bool" where
  "fresh_env e n = (case ne_socket e of None \<Rightarrow> True | Some s \<Rightarrow> 0 \<le> s \<and> s \<notin> set (nt_open n))"

inductive pool_step :: "bool \<Rightarrow> pool \<Rightarrow> pool \<Rightarrow> bool" for checks where
  look: "\<not> po_go p \<Longrightarrow> pool_step checks p (factory_look p)"
| make: "\<lbrakk>po_go p; fresh_env e (po_net p)\<rbrakk> \<Longrightarrow> pool_step checks p (factory_connect e host nd ka p)"
| start: "\<lbrakk>0 \<le> cfd; cfd \<notin> set (nt_open (po_net p)); fresh_env e (sys_open cfd (po_net p)); ne_socket e2 \<noteq> ne_socket e \<or> ne_socket e2 = None;
    fresh_env e2 (sys_open cfd (po_net p))\<rbrakk>
    \<Longrightarrow> pool_step checks p (worker_start checks cfd e nd stale e2 nd2 host p)"
| stop: "w \<in> set (po_workers p) \<Longrightarrow> pool_step checks p (worker_end w p)"

definition pool_init :: pool where
  "pool_init = \<lparr>po_net = \<lparr>nt_open = [], nt_err = Some []\<rparr>, po_queue = [], po_go = False, po_workers = []\<rparr>"

subsection \<open>sock4a-apr\<close>

definition apr_encode :: "byte list \<Rightarrow> nat \<Rightarrow> byte list" where
  "apr_encode buf len = map (\<lambda>c. c + 3) (take len buf) @ drop len buf"

definition apr_decode :: "byte list \<Rightarrow> nat \<Rightarrow> byte list" where
  "apr_decode buf len = map (\<lambda>c. c - 3) (take len buf) @ drop len buf"

text \<open>One turn: the side that \<open>out[0]\<close> names, the bytes received (at most 1024) with the end of the stream, and how many
  bytes one send takes and whether it succeeds.\<close>

datatype apr_turn = From_browser "byte list" bool nat bool | From_socks "byte list" bool nat bool

definition apr_move :: "(byte list \<Rightarrow> nat \<Rightarrow> byte list) \<Rightarrow> byte list \<Rightarrow> bool \<Rightarrow> nat \<Rightarrow> bool \<Rightarrow> byte list \<times> byte list \<times> bool" where
  "apr_move code d0 eof k ok =
     (let d = take 1024 d0; n = length d; sent = take k (code d n) in
      if n = 0 \<or> eof then (d, [], False)
      else (d, sent, sent \<noteq> [] \<and> ok))"

definition apr_step :: "apr_turn \<Rightarrow> relay \<Rightarrow> relay" where
  "apr_step t r = (case t of
       From_browser d eof k ok \<Rightarrow> (case apr_move apr_encode d eof k ok of (d', sent, go) \<Rightarrow>
         r\<lparr>ry_in0 := ry_in0 r @ d', ry_out1 := ry_out1 r @ sent, ry_closed := \<not> go\<rparr>)
     | From_socks d eof k ok \<Rightarrow> (case apr_move apr_decode d eof k ok of (d', sent, go) \<Rightarrow>
         r\<lparr>ry_in1 := ry_in1 r @ d', ry_out0 := ry_out0 r @ sent, ry_closed := \<not> go\<rparr>))"

fun apr_relay :: "apr_turn list \<Rightarrow> relay \<Rightarrow> relay" where
  "apr_relay [] r = r"
| "apr_relay (t # ts) r = (if ry_closed r then r else apr_relay ts (apr_step t r))"

text \<open>The thread of one browser: without a connection to the server nothing is relayed and the browser's socket is closed.\<close>

definition browser_thread_func :: "bool \<Rightarrow> apr_turn list \<Rightarrow> relay" where
  "browser_thread_func connected ts =
     (if connected then apr_relay ts relay_start else relay_start\<lparr>ry_closed := True\<rparr>)"

subsection \<open>Who owns a descriptor\<close>

definition owned :: "pool \<Rightarrow> int multiset" where
  "owned p = mset (po_queue p) + mset (map fst (po_workers p)) + filter_mset (\<lambda>x. x \<noteq> - 1) (mset (map snd (po_workers p)))"

definition pool_inv :: "pool \<Rightarrow> bool" where
  "pool_inv p \<longleftrightarrow> length (po_queue p) \<le> 20 \<and> (po_go p \<longrightarrow> length (po_queue p) < 20)
    \<and> owned p \<subseteq># mset (nt_open (po_net p)) \<and> distinct (nt_open (po_net p)) \<and> (\<forall>x \<in> set (nt_open (po_net p)). 0 \<le> x)"

lemma open_after [simp]:
  "nt_open (anetSetError m n) = nt_open n" "nt_open (snd (anetTcpNoDelay nl e b n)) = nt_open n"
  "nt_open (snd (anetTcpKeepAlive nl e b n)) = nt_open n" "nt_open (sys_open fd n) = fd # nt_open n"
  "nt_open (sys_close fd n) = remove1 fd (nt_open n)"
  by (simp_all add: anetSetError_def anetTcpNoDelay_def anetTcpKeepAlive_def sys_open_def sys_close_def)

lemma connect_cases:
  assumes "connectToServer e host nd n = (fd, n')" "fresh_env e n"
  obtains (failed) "fd = - 1" "nt_open n' = nt_open n"
  | (leaked) s where "fd = - 1" "ne_socket e = Some s" "0 \<le> s" "s \<notin> set (nt_open n)" "nt_open n' = s # nt_open n"
  | (connected) "0 \<le> fd" "ne_socket e = Some fd" "fd \<notin> set (nt_open n)" "nt_open n' = fd # nt_open n"
proof -
  obtain n1 where n1: "tcp_connect_pp e host False n = (fd, n1)" "nt_open n' = nt_open n1"
    using assms(1) by (auto simp: connectToServer_def split: prod.splits)
  have "s \<noteq> - 1" if "ne_socket e = Some s" for s using assms(2) that by (simp add: fresh_env_def)
  from accounts_intro(3) [of e False n host, OF this] n1(1)
  have a: "nt_open n1 = stays e (fd \<noteq> - 1 \<or> \<not> ne_reuse e) (nt_open n)" "fd = - 1 \<or> ne_socket e = Some fd"
    by (simp_all add: accounts_def ANET_ERR_def)
  show thesis
  proof (cases "ne_socket e")
    case None
    with a n1 failed show ?thesis by (simp add: stays_def)
  next
    case (Some s)
    with assms(2) have s: "0 \<le> s" "s \<notin> set (nt_open n)" by (simp_all add: fresh_env_def)
    show ?thesis
    proof (cases "fd = - 1")
      case True
      with a n1 Some s failed leaked show ?thesis by (cases "ne_reuse e") (simp_all add: stays_def)
    next
      case False
      with a n1 Some s connected show ?thesis by (simp add: stays_def)
    qed
  qed
qed

lemma owned_add: "A \<subseteq># mset xs \<Longrightarrow> A \<subseteq># mset (x # xs)" "A \<subseteq># mset xs \<Longrightarrow> add_mset x A \<subseteq># mset (x # xs)"
  by (auto simp: subseteq_mset_def intro: le_SucI)

lemma connect_inv:
  assumes "connectToServer e host nd n = (fd, n')" "fresh_env e n" "A \<subseteq># mset (nt_open n)" "distinct (nt_open n)"
    "\<forall>x \<in> set (nt_open n). 0 \<le> x"
  shows "A + (if fd = - 1 then {#} else {#fd#}) \<subseteq># mset (nt_open n') \<and> distinct (nt_open n') \<and> (\<forall>x \<in> set (nt_open n'). 0 \<le> x)
    \<and> set (nt_open n') \<subseteq> set (nt_open n) \<union> set_option (ne_socket e)"
  using assms(1,2)
proof (cases rule: connect_cases)
  case failed
  with assms show ?thesis by auto
next
  case (leaked s)
  with assms owned_add(1) [OF assms(3)] show ?thesis by auto
next
  case connected
  with assms owned_add(2) [OF assms(3)] show ?thesis by auto
qed

lemma deQueue_inv:
  assumes "deQueue e host nd p = (fd, p')" "fresh_env e (po_net p)" "B + owned p \<subseteq># mset (nt_open (po_net p))"
    "distinct (nt_open (po_net p))" "\<forall>x \<in> set (nt_open (po_net p)). 0 \<le> x"
  shows "B + owned p' + (if fd = - 1 then {#} else {#fd#}) \<subseteq># mset (nt_open (po_net p')) \<and> distinct (nt_open (po_net p'))
    \<and> (\<forall>x \<in> set (nt_open (po_net p')). 0 \<le> x) \<and> set (nt_open (po_net p')) \<subseteq> set (nt_open (po_net p)) \<union> set_option (ne_socket e)
    \<and> po_workers p' = po_workers p \<and> po_go p' = po_go p \<and> (po_queue p' = po_queue p \<or> length (po_queue p') < length (po_queue p))"
proof (cases "po_queue p")
  case Nil
  with assms(1) obtain n where n: "connectToServer e host nd (po_net p) = (fd, n)" "p' = p\<lparr>po_net := n\<rparr>"
    by (auto simp: deQueue_def split: prod.splits)
  from connect_inv [OF n(1) assms(2-5)] n(2) show ?thesis by (simp add: owned_def)
next
  case (Cons x q)
  with assms(1) have p': "fd = x" "p' = p\<lparr>po_queue := q\<rparr>" by (auto simp: deQueue_def)
  have "x \<in># mset (nt_open (po_net p))"
    using assms(3) Cons mset_subset_eqD [OF assms(3), of x] by (simp add: owned_def)
  then have "0 \<le> x" using assms(5) by simp
  moreover have "B + owned p = B + owned p' + {#x#}" using Cons p'(2) by (simp add: owned_def)
  ultimately show ?thesis using assms p' Cons by auto
qed

lemma sub_add:
  "add_mset x A \<subseteq># M \<Longrightarrow> A \<subseteq># M - {#x#}" "add_mset x A \<subseteq># M \<Longrightarrow> A \<subseteq># M"
  by (simp_all add: insert_subset_eq_iff) (meson diff_subset_eq_self subset_mset.order_trans)

lemma look_inv: "pool_inv p \<Longrightarrow> pool_inv (factory_look p)"
  by (simp add: pool_inv_def factory_look_def owned_def)

lemma make_inv:
  assumes "pool_inv p" "po_go p" "fresh_env e (po_net p)"
  shows "pool_inv (factory_connect e host nd ka p)"
proof -
  obtain fd n where n: "connectToServer e host nd (po_net p) = (fd, n)" by (cases "connectToServer e host nd (po_net p)")
  have "owned p \<subseteq># mset (nt_open (po_net p))" "distinct (nt_open (po_net p))" "\<forall>x \<in> set (nt_open (po_net p)). 0 \<le> x"
    using assms(1) by (simp_all add: pool_inv_def)
  from connect_inv [OF n assms(3) this] assms(1,2) show ?thesis
    by (auto simp: factory_connect_def n pool_inv_def owned_def ANET_ERR_def)
qed

lemma end_inv:
  assumes "pool_inv p" "w \<in> set (po_workers p)"
  shows "pool_inv (worker_end w p)"
proof -
  obtain c s where w: "w = (c, s)" by (cases w)
  let ?p = "worker_end w p" and ?o = "nt_open (po_net p)"
  have m: "mset (po_workers p) = add_mset w (mset (remove1 w (po_workers p)))" using assms(2) by simp
  have mf: "mset (map f (po_workers p)) = add_mset (f w) (mset (map f (remove1 w (po_workers p))))" for f :: "int \<times> int \<Rightarrow> int"
    unfolding mset_map m by simp
  have o: "owned p = owned ?p + {#c#} + (if s = - 1 then {#} else {#s#})"
    unfolding owned_def mf [of fst] mf [of snd] by (simp add: worker_end_def w)
  have nn: "- 1 \<notin> set ?o" and d: "distinct ?o" and sub: "owned p \<subseteq># mset ?o" using assms(1) by (auto simp: pool_inv_def)
  have op: "nt_open (po_net ?p) = remove1 s (remove1 c ?o)" by (simp add: worker_end_def w)
  have "owned ?p \<subseteq># mset ?o - {#c#} - {#s#}"
  proof (cases "s = - 1")
    case True
    have "owned ?p \<subseteq># mset ?o - {#c#}" by (rule sub_add(1)) (use sub in \<open>simp add: o True\<close>)
    moreover have "- 1 \<notin># mset ?o - {#c#}" using nn by (auto dest: in_diffD)
    then have "mset ?o - {#c#} - {#- 1#} = mset ?o - {#c#}" by (rule diff_single_trivial)
    ultimately show ?thesis by (simp only: True)
  next
    case False
    with sub o have "add_mset c (add_mset s (owned ?p)) \<subseteq># mset ?o" by (simp add: add_mset_commute)
    then show ?thesis by (intro sub_add(1))
  qed
  then have "owned ?p \<subseteq># mset (nt_open (po_net ?p))" unfolding op by simp
  moreover have "distinct (nt_open (po_net ?p))" "set (nt_open (po_net ?p)) \<subseteq> set ?o"
    unfolding op using d set_remove1_subset [of s "remove1 c ?o"] set_remove1_subset [of c ?o] by auto
  ultimately show ?thesis using assms(1) by (auto simp: pool_inv_def worker_end_def)
qed

lemma start_inv:
  assumes p: "pool_inv p" and c: "0 \<le> cfd" "cfd \<notin> set (nt_open (po_net p))"
    and e: "fresh_env e (sys_open cfd (po_net p))" "ne_socket e2 \<noteq> ne_socket e \<or> ne_socket e2 = None" "fresh_env e2 (sys_open cfd (po_net p))"
  shows "pool_inv (worker_start checks cfd e nd stale e2 nd2 host p)"
proof -
  let ?p0 = "p\<lparr>po_net := sys_open cfd (po_net p)\<rparr>"
  obtain fd p1 where d: "deQueue e host nd ?p0 = (fd, p1)" by (cases "deQueue e host nd ?p0")
  have "owned ?p0 = owned p" by (simp add: owned_def)
  then have "{#cfd#} + owned ?p0 \<subseteq># mset (nt_open (po_net ?p0))" "distinct (nt_open (po_net ?p0))" "\<forall>x \<in> set (nt_open (po_net ?p0)). 0 \<le> x"
    using p c by (auto simp: pool_inv_def)
  from deQueue_inv [OF d _ this] e(1)
  have i: "{#cfd#} + owned p1 + (if fd = - 1 then {#} else {#fd#}) \<subseteq># mset (nt_open (po_net p1))" "distinct (nt_open (po_net p1))"
    "\<forall>x \<in> set (nt_open (po_net p1)). 0 \<le> x" "set (nt_open (po_net p1)) \<subseteq> insert cfd (set (nt_open (po_net p))) \<union> set_option (ne_socket e)"
    "po_workers p1 = po_workers p" "po_go p1 = po_go p" "po_queue p1 = po_queue p \<or> length (po_queue p1) < length (po_queue p)"
    by auto
  have q: "length (po_queue p1) \<le> 20 \<and> (po_go p1 \<longrightarrow> length (po_queue p1) < 20)" using i(6,7) p by (auto simp: pool_inv_def)
  show ?thesis
  proof (cases "stale \<and> fd \<noteq> - 1")
    case False
    with i q show ?thesis by (auto simp: worker_start_def d pool_inv_def owned_def)
  next
    case True
    obtain fd2 n2 where n2: "connectToServer e2 host nd2 (po_net p1) = (fd2, n2)" by (cases "connectToServer e2 host nd2 (po_net p1)")
    have f: "fresh_env e2 (po_net p1)"
      using e(2,3) i(4) by (auto simp: fresh_env_def split: option.splits)
    have "{#cfd#} + owned p1 \<subseteq># mset (nt_open (po_net p1))"
      by (rule sub_add(2) [of fd]) (use i(1) True in simp)
    from connect_inv [OF n2 f this i(2,3)]
    have j: "{#cfd#} + owned p1 + (if fd2 = - 1 then {#} else {#fd2#}) \<subseteq># mset (nt_open n2)" "distinct (nt_open n2)" "\<forall>x \<in> set (nt_open n2). 0 \<le> x"
      by simp_all
    show ?thesis
    proof (cases "checks \<and> fd2 = - 1")
      case False
      with True j q show ?thesis by (auto simp: worker_start_def d n2 pool_inv_def owned_def ANET_ERR_def)
    next
      case gone: True
      have "owned p1 \<subseteq># mset (nt_open n2) - {#cfd#}" by (rule sub_add(1)) (use j(1) gone in simp)
      with True gone j q show ?thesis
        by (auto simp: worker_start_def d n2 pool_inv_def owned_def ANET_ERR_def dest: notin_set_remove1)
    qed
  qed
qed

text \<open>C34. Over any interleaving of the thread that fills the pool and the workers, in both client programs: the queue
  never holds more than 20 connections, and every descriptor in the queue or with a worker is open and has that one
  owner.\<close>

theorem pool_owned:
  assumes "(pool_step checks)\<^sup>*\<^sup>* pool_init p"
  shows "length (po_queue p) \<le> 20 \<and> owned p \<subseteq># mset (nt_open (po_net p)) \<and> distinct (nt_open (po_net p))"
proof -
  from assms have "pool_inv p"
  proof (induction rule: rtranclp_induct)
    case base
    show ?case by (simp add: pool_inv_def pool_init_def owned_def)
  next
    case (step y z)
    from step.hyps(2) step.IH show ?case
      by cases (auto intro: look_inv make_inv end_inv start_inv)
  qed
  then show ?thesis by (simp add: pool_inv_def)
qed


text \<open>The way on which a descriptor is lost: the pooled connection was readable, that is closed by the server, and
  nothing closes its descriptor. In sock4a the worker goes on even without a connection.\<close>

definition wit_up :: net_env where
  "wit_up = \<lparr>ne_socket = Some 5, ne_reuse = True, ne_aton = True, ne_host = True, ne_getfl = True, ne_setfl = True,
    ne_connect = Connected, ne_bind = True, ne_listen = True, ne_strerror = []\<rparr>"

definition wit_down :: net_env where
  "wit_down = \<lparr>ne_socket = None, ne_reuse = True, ne_aton = True, ne_host = True, ne_getfl = True, ne_setfl = True,
    ne_connect = Refused, ne_bind = True, ne_listen = True, ne_strerror = ''refused''\<rparr>"

definition wit_made :: pool where
  "wit_made = factory_connect wit_up ''10.0.0.1'' True True (factory_look pool_init)"

lemma wit_made_reachable: "(pool_step checks)\<^sup>*\<^sup>* pool_init wit_made"
proof -
  have "pool_step checks pool_init (factory_look pool_init)" by (rule pool_step.look) (simp add: pool_init_def)
  moreover have "pool_step checks (factory_look pool_init) wit_made"
    unfolding wit_made_def by (rule pool_step.make) (simp_all add: factory_look_def pool_init_def fresh_env_def wit_up_def)
  ultimately show ?thesis by (meson converse_rtranclp_into_rtranclp rtranclp.rtrancl_refl)
qed

lemma wit_made_state: "po_queue wit_made = [5]" "nt_open (po_net wit_made) = [5]" "po_workers wit_made = []"
  by code_simp+

lemma pool_loses:
  "\<exists>p. (pool_step True)\<^sup>*\<^sup>* pool_init p \<and> owned p = {#} \<and> nt_open (po_net p) = [5]"
  "\<exists>p. (pool_step False)\<^sup>*\<^sup>* pool_init p \<and> po_workers p = [(8, - 1)]"
proof -
  have s: "pool_step c wit_made (worker_start c 8 wit_down True True wit_down True ''10.0.0.1'' wit_made)" for c
    by (rule pool_step.start) (simp_all add: wit_made_state fresh_env_def wit_down_def)
  have "owned (worker_start True 8 wit_down True True wit_down True ''10.0.0.1'' wit_made) = {#}"
    "nt_open (po_net (worker_start True 8 wit_down True True wit_down True ''10.0.0.1'' wit_made)) = [5]"
    by code_simp+
  with s wit_made_reachable show "\<exists>p. (pool_step True)\<^sup>*\<^sup>* pool_init p \<and> owned p = {#} \<and> nt_open (po_net p) = [5]"
    by (meson rtranclp.rtrancl_into_rtrancl)
  have "po_workers (worker_start False 8 wit_down True True wit_down True ''10.0.0.1'' wit_made) = [(8, - 1)]" by code_simp
  with s wit_made_reachable show "\<exists>p. (pool_step False)\<^sup>*\<^sup>* pool_init p \<and> po_workers p = [(8, - 1)]"
    by (meson rtranclp.rtrancl_into_rtrancl)
qed

lemma pool_owned_witness: "length (po_queue wit_made) \<le> 20 \<and> owned wit_made \<subseteq># mset (nt_open (po_net wit_made)) \<and> distinct (nt_open (po_net wit_made))"
  by (rule pool_owned [OF wit_made_reachable])

subsection \<open>sock4a-apr\<close>

interpretation apr_enc: byte_code apr_encode "\<lambda>c. c + 3"
  by unfold_locales (simp add: apr_encode_def)

interpretation apr_dec: byte_code apr_decode "\<lambda>c. c - 3"
  by unfold_locales (simp add: apr_decode_def)

text \<open>With sends that take everything the relay passes the streams on; a send that takes less loses the rest, and the
  relay goes on.\<close>

definition full_send :: "apr_turn \<Rightarrow> bool" where
  "full_send t = (case t of From_browser d eof k ok \<Rightarrow> k \<ge> 1024 | From_socks d eof k ok \<Rightarrow> k \<ge> 1024)"

definition apr_ok :: "relay \<Rightarrow> bool" where
  "apr_ok r \<longleftrightarrow> prefix (ry_out1 r) (map (\<lambda>c. c + 3) (ry_in0 r)) \<and> prefix (ry_out0 r) (map (\<lambda>c. c - 3) (ry_in1 r))
    \<and> (\<not> ry_closed r \<longrightarrow> ry_out1 r = map (\<lambda>c. c + 3) (ry_in0 r) \<and> ry_out0 r = map (\<lambda>c. c - 3) (ry_in1 r))"

lemma apr_step_ok:
  assumes "apr_ok r" "\<not> ry_closed r" "full_send t"
  shows "apr_ok (apr_step t r)"
proof (cases t)
  case (From_browser d eof k ok)
  have "take k (map (\<lambda>c. c + 3) (take 1024 d)) = map (\<lambda>c. c + 3) (take 1024 d)"
    using assms(3) From_browser by (simp add: full_send_def)
  with assms From_browser show ?thesis by (auto simp: apr_step_def apr_move_def apr_ok_def Let_def apr_enc.code_map simp del: length_take)
next
  case (From_socks d eof k ok)
  have "take k (map (\<lambda>c. c - 3) (take 1024 d)) = map (\<lambda>c. c - 3) (take 1024 d)"
    using assms(3) From_socks by (simp add: full_send_def)
  with assms From_socks show ?thesis by (auto simp: apr_step_def apr_move_def apr_ok_def Let_def apr_dec.code_map simp del: length_take)
qed

lemma apr_stream: "\<forall>t \<in> set ts. full_send t \<Longrightarrow> apr_ok (browser_thread_func connected ts)"
proof -
  assume f: "\<forall>t \<in> set ts. full_send t"
  have "apr_ok r \<Longrightarrow> apr_ok (apr_relay ts r)" for r
    using f by (induction ts arbitrary: r) (auto intro: apr_step_ok)
  then show ?thesis by (simp add: browser_thread_func_def apr_ok_def relay_start_def)
qed

lemma apr_short_send_loses:
  "browser_thread_func True [From_browser [1, 2, 3] False 1 True, From_browser [4] False 1 True]
    = relay_start\<lparr>ry_in0 := [1, 2, 3, 4], ry_out1 := [4, 7]\<rparr>"
  by code_simp

end
