(* ===== verification/Fat.thy ===== *)
theory Fat
  imports Binlog
begin

section \<open>FAT image reader (fat/main.c)\<close>

text \<open>
  A reader of FAT32 images: it opens an image, lists the root directory, and can collect the contents of a file
  along its cluster chain. The image is the list of its bytes, the stream a position in it; a short read leaves
  the rest of the buffer as it was. The volume is a record with the fields of \<open>FAT_FS\<close> and the stream.
\<close>

subsection \<open>The stream\<close>

text \<open>\<open>fseek\<close> to a negative offset fails and moves nothing.\<close>

definition f_seek :: "int \<Rightarrow> nat \<Rightarrow> nat" where
  "f_seek off pos = (if off < 0 then pos else nat off)"

definition f_read :: "byte list \<Rightarrow> nat \<Rightarrow> nat \<Rightarrow> byte list" where
  "f_read img pos n = take n (drop pos img)"

text \<open>A little-endian number of \<open>n\<close> bytes at \<open>off\<close>, in memory that was zero.\<close>

definition field :: "byte list \<Rightarrow> nat \<Rightarrow> nat \<Rightarrow> 'w::len word" where
  "field img off n = le_word (f_read img off n)"

subsection \<open>The volume\<close>

text \<open>The lines of standard output: the trace of a cluster read, and a file of the listing.\<close>

datatype fat_line = Pos_line int | File_line "byte list" bool int

record fat_fs =
  BytsPerSec :: int
  SecPerClus :: int
  RsvdSecCnt :: int
  NumFATs :: int
  TotSec32 :: int
  FATSz32 :: int
  RootClus :: int
  cluster_size :: int
  fat_table :: "byte list option"
  cluster_begin_addr :: int
  fs_img :: "byte list"
  fs_pos :: nat
  fs_out :: "fat_line list"

definition c_int :: "int \<Rightarrow> int res" where
  "c_int i = (if - INT_MAX - 1 \<le> i \<and> i \<le> INT_MAX then Inr i else Inl Signed_overflow)"

text \<open>\<open>fat_fs_open\<close>: \<open>img\<close> is the image, \<open>None\<close> when \<open>fopen\<close> fails; \<open>mem\<close> says whether the table is
  allocated. A negative size never is, and reading the table into \<open>NULL\<close> is a fault unless nothing is read.\<close>

definition read_fat :: "byte list option \<Rightarrow> byte list \<Rightarrow> nat \<Rightarrow> nat \<Rightarrow> byte list option res" where
  "read_fat table img pos n = (let d = f_read img pos n in
     case table of
       None \<Rightarrow> if d = [] then Inr None else Inl Null_deref
     | Some t \<Rightarrow> Inr (Some (d @ drop (length d) t)))"

definition fat_fs_open :: "bool \<Rightarrow> byte list option \<Rightarrow> fat_fs option res" where
  "fat_fs_open mem file = (case file of
       None \<Rightarrow> Inr None
     | Some img \<Rightarrow>
        let bps = sint (field img 11 2 :: 16 word); spc = sint (field img 13 1 :: 8 word);
            rsvd = sint (field img 14 2 :: 16 word); nfats = sint (field img 16 1 :: 8 word);
            tot = sint (field img 32 4 :: 32 word); sz = sint (field img 36 4 :: 32 word);
            root = sint (field img 44 4 :: 32 word)
        in fbind (c_int (sz * bps)) (\<lambda>bytes.
        let table = (if 0 \<le> bytes \<and> mem then Some (replicate (nat bytes) 0) else None);
            pos = f_seek (rsvd * bps) (44 + length (f_read img 44 4));
            n = (if 0 \<le> bytes then nat bytes else nat (bytes mod 2 ^ 64))
        in fbind (read_fat table img pos n) (\<lambda>table'.
        fbind (c_int (bytes * 2)) (\<lambda>two.
        fmap (\<lambda>begin_addr. Some \<lparr>BytsPerSec = bps, SecPerClus = spc, RsvdSecCnt = rsvd, NumFATs = nfats, TotSec32 = tot,
            FATSz32 = sz, RootClus = root, cluster_size = bps * spc, fat_table = table',
            cluster_begin_addr = begin_addr mod 2 ^ 64, fs_img = img, fs_pos = pos + length (f_read img pos n), fs_out = []\<rparr>)
          (c_int (rsvd * bps + two))))))"

definition fat_cluster_get_next :: "fat_fs \<Rightarrow> int \<Rightarrow> int res" where
  "fat_cluster_get_next fs num = (case fat_table fs of
       None \<Rightarrow> Inl Null_deref
     | Some t \<Rightarrow>
        if num < 0 \<or> 4 * nat num + 4 > length t then Inl Out_of_bounds
        else let w = uint ((le_word (take 4 (drop (4 * nat num) t)) :: 32 word) AND 0xFFFFFFF) in
          Inr (if w \<ge> 0xFFFFFF8 then - 1 else w))"

text \<open>\<open>fat_cluster_read\<close>: the position is printed; the bytes read and the stream behind them. The caller puts the bytes into
  its buffer.\<close>

definition to_i64 :: "int \<Rightarrow> int" where
  "to_i64 i = sint (word_of_int i :: 64 word)"

definition fat_cluster_read :: "fat_fs \<Rightarrow> int \<Rightarrow> (byte list \<times> fat_fs) res" where
  "fat_cluster_read fs num =
     fbind (c_int (num - 2)) (\<lambda>k. fmap (\<lambda>rel.
       let addr = to_i64 (cluster_begin_addr fs + rel);
           pos = (if addr \<noteq> int (fs_pos fs) then f_seek addr (fs_pos fs) else fs_pos fs);
           n = (if 0 \<le> cluster_size fs then nat (cluster_size fs) else nat (cluster_size fs mod 2 ^ 64));
           d = f_read (fs_img fs) pos n
       in (d, fs\<lparr>fs_pos := pos + length d, fs_out := fs_out fs @ [Pos_line addr]\<rparr>)) (c_int (k * cluster_size fs)))"

subsection \<open>Files\<close>

record fat_file =
  ff_fs :: bool
  ff_name :: "byte list"
  ff_attr :: byte
  ff_size :: int
  ff_is_dir :: bool
  ff_first :: int

text \<open>The pointer to the volume is set or \<open>NULL\<close>; \<open>calloc\<close> zeroes the rest.\<close>

definition fat_file_open :: "int \<Rightarrow> fat_file" where
  "fat_file_open first = \<lparr>ff_fs = True, ff_name = replicate 12 0, ff_attr = 0, ff_size = 0, ff_is_dir = False, ff_first = first\<rparr>"

text \<open>One turn of the loop of \<open>fat_file_get_contents\<close> stores a cluster at \<open>pos\<close>, a \<open>char\<close>. The fuel counts turns. A
  failing \<open>calloc\<close> is \<open>Out_of_memory\<close>.\<close>

definition put_cluster :: "byte list \<Rightarrow> int \<Rightarrow> byte list \<Rightarrow> byte list res" where
  "put_cluster buf pos d =
     (if d = [] then Inr buf
      else if pos < 0 \<or> nat pos + length d > length buf then Inl Buffer_overflow
      else Inr (take (nat pos) buf @ d @ drop (nat pos + length d) buf))"

fun contents_loop :: "nat \<Rightarrow> fat_fs \<Rightarrow> int \<Rightarrow> int \<Rightarrow> byte list \<Rightarrow> (fat_fs \<times> byte list) option res" where
  "contents_loop 0 fs cluster pos buf = Inr None"
| "contents_loop (Suc fuel) fs cluster pos buf =
     fbind (fat_cluster_read fs cluster) (\<lambda>(d, fs1).
     fbind (put_cluster buf pos d) (\<lambda>buf1.
     let pos1 = sint (word_of_int (pos + cluster_size fs) :: 8 word) in
     fbind (fat_cluster_get_next fs1 cluster) (\<lambda>nxt.
       if nxt = - 1 then Inr (Some (fs1, buf1)) else contents_loop fuel fs1 nxt pos1 buf1)))"

definition fat_file_get_contents :: "nat \<Rightarrow> fat_fs \<Rightarrow> fat_file \<Rightarrow> (fat_fs \<times> byte list) option res" where
  "fat_file_get_contents fuel fs file =
     (if \<not> ff_fs file then Inl Null_deref
      else if cluster_size fs = 0 then Inl Division_by_zero
      else fbind (c_int (ff_size file + cluster_size fs)) (\<lambda>s1.
           fbind (c_int (s1 - 1)) (\<lambda>s2.
           fbind (c_int (c_div s2 (cluster_size fs) * cluster_size fs)) (\<lambda>n.
             if n < 0 then Inl Out_of_memory else contents_loop fuel fs (ff_first file) 0 (replicate (nat n) 0)))))"

subsection \<open>Directories\<close>

record fat_dir =
  fd_first :: int
  fd_cluster :: int
  fd_pos :: nat

definition fat_dir_open :: "int \<Rightarrow> fat_dir" where
  "fat_dir_open first = \<lparr>fd_first = first, fd_cluster = first, fd_pos = 0\<rparr>"

definition fat_dir_rewind :: "fat_dir \<Rightarrow> fat_dir" where
  "fat_dir_rewind dir = dir\<lparr>fd_pos := 0, fd_cluster := fd_first dir\<rparr>"

text \<open>A byte of the local array, of which only the bytes read have a value.\<close>

definition byte_at :: "nat \<Rightarrow> byte list \<Rightarrow> nat \<Rightarrow> byte res" where
  "byte_at csz d i = (if i \<ge> csz then Inl Out_of_bounds else if i \<ge> length d then Inl Indeterminate_value else Inr (d ! i))"

fun copy_short :: "nat \<Rightarrow> nat \<Rightarrow> byte list \<Rightarrow> nat \<Rightarrow> byte list res" where
  "copy_short 0 csz d i = Inr []"
| "copy_short (Suc n) csz d i = fbind (byte_at csz d i) (\<lambda>x.
     if x = 0 then Inr (replicate (Suc n) 0) else fmap ((#) x) (copy_short n csz d (i + 1)))"

definition num_at :: "nat \<Rightarrow> nat \<Rightarrow> byte list \<Rightarrow> nat \<Rightarrow> 'w::len word res" where
  "num_at n csz d i = (if i + n > csz then Inl Out_of_bounds else if i + n > length d then Inl Indeterminate_value
     else Inr (le_word (take n (drop i d))))"

definition dir_entry :: "nat \<Rightarrow> byte list \<Rightarrow> nat \<Rightarrow> byte \<Rightarrow> fat_file res" where
  "dir_entry csz d p attr =
     fbind (copy_short 11 csz d p) (\<lambda>name.
     fbind (num_at 2 csz d (p + 0x14)) (\<lambda>hi.
     fbind (num_at 2 csz d (p + 0x1a)) (\<lambda>lo.
     fmap (\<lambda>sz. \<lparr>ff_fs = False, ff_name = name @ [0], ff_attr = attr, ff_size = sint (sz :: 32 word), ff_is_dir = bit attr 4,
         ff_first = 256 * sint (hi :: 16 word) + sint (lo :: 16 word)\<rparr>) (num_at 4 csz d (p + 28)))))"

lemma fbind_cong [fundef_cong]: "m = m' \<Longrightarrow> (\<And>x. m' = Inr x \<Longrightarrow> f x = g x) \<Longrightarrow> fbind m f = fbind m' g"
  by (cases m') simp_all

text \<open>The loop of \<open>fat_dir_read\<close> from offset \<open>p\<close> on. A \<open>char\<close> is never 0xE5, so that test is always true;
  \<open>attr & 15 == 15\<close> is \<open>attr & 1\<close>. The result is the entry and the new \<open>current_pos\<close>.\<close>

function dir_loop :: "nat \<Rightarrow> byte list \<Rightarrow> nat \<Rightarrow> nat \<Rightarrow> (fat_file option \<times> nat) res" where
  "dir_loop csz d p cur =
     fbind (byte_at csz d p) (\<lambda>x.
       if x = 0 \<or> x = 5 then Inr (None, cur)
       else fbind (byte_at csz d (p + 11)) (\<lambda>attr.
         if bit attr 0 then dir_loop csz d (p + 32) (cur + 32)
         else fmap (\<lambda>f. (Some f, cur)) (dir_entry csz d p attr)))"
  by pat_completeness auto
termination
  by (relation "measure (\<lambda>(csz, d, p, cur). csz - p)")
    (auto simp: byte_at_def fbind_def split: if_splits sum.splits)

definition fat_dir_read :: "fat_fs \<Rightarrow> fat_dir \<Rightarrow> (fat_file option \<times> fat_fs \<times> fat_dir) res" where
  "fat_dir_read fs dir =
     (if cluster_size fs \<le> 0 then Inl Out_of_bounds
      else fbind (fat_cluster_read fs (fd_cluster dir)) (\<lambda>(d, fs1).
        fmap (\<lambda>(f, cur). (f, fs1, dir\<lparr>fd_pos := cur\<rparr>)) (dir_loop (nat (cluster_size fs)) d (fd_pos dir) (fd_pos dir + 32))))"

subsection \<open>main\<close>

text \<open>One line per file: the name up to its end, whether it is a directory, the size. The result is what has been printed.\<close>

definition list_line :: "fat_file \<Rightarrow> fat_line" where
  "list_line f = File_line (takeWhile (\<lambda>x. x \<noteq> 0) (ff_name f)) (ff_is_dir f) (ff_size f)"

fun list_loop :: "nat \<Rightarrow> fat_fs \<Rightarrow> fat_dir \<Rightarrow> fat_line list option res" where
  "list_loop 0 fs dir = Inr None"
| "list_loop (Suc fuel) fs dir =
     fbind (fat_dir_read fs dir) (\<lambda>(f, fs1, dir1). case f of
        None \<Rightarrow> Inr (Some (fs_out fs1))
      | Some x \<Rightarrow> list_loop fuel (fs1\<lparr>fs_out := fs_out fs1 @ [list_line x]\<rparr>) dir1)"

definition fat_main :: "nat \<Rightarrow> bool \<Rightarrow> byte list option \<Rightarrow> fat_line list option res" where
  "fat_main fuel mem file =
     fbind (fat_fs_open mem file) (\<lambda>fs. case fs of None \<Rightarrow> Inl Null_deref | Some v \<Rightarrow> list_loop fuel v (fat_dir_open 2))"

subsection \<open>Opening an image\<close>

lemma field_at: "p = length pre \<Longrightarrow> field (pre @ le_bytes n (w :: 'v::len word) @ post) p n = (ucast (take_bit (8 * n) w) :: 'w::len word)"
  by (simp add: field_def f_read_def le_word_le_bytes)

lemma field_byte: "p = length pre \<Longrightarrow> field (pre @ b # post) p (Suc 0) = (b :: byte)"
  by (simp add: field_def f_read_def)

definition boot_sector :: "int \<Rightarrow> int \<Rightarrow> int \<Rightarrow> int \<Rightarrow> int \<Rightarrow> int \<Rightarrow> int \<Rightarrow> byte list \<Rightarrow> byte list \<Rightarrow> byte list \<Rightarrow> byte list" where
  "boot_sector bps spc rsvd nfats tot sz root jmp mid flags =
     jmp @ le_bytes 2 (word_of_int bps :: 16 word) @ word_of_int spc # le_bytes 2 (word_of_int rsvd :: 16 word) @ word_of_int nfats # mid
       @ le_bytes 4 (word_of_int tot :: 32 word) @ le_bytes 4 (word_of_int sz :: 32 word) @ flags @ le_bytes 4 (word_of_int root :: 32 word)"

lemma sint_fits:
  "- (2 ^ 15) \<le> i \<Longrightarrow> i < 2 ^ 15 \<Longrightarrow> sint (word_of_int i :: 16 word) = i"
  "- (2 ^ 7) \<le> i \<Longrightarrow> i < 2 ^ 7 \<Longrightarrow> sint (word_of_int i :: 8 word) = i"
  "- (2 ^ 31) \<le> i \<Longrightarrow> i < 2 ^ 31 \<Longrightarrow> sint (word_of_int i :: 32 word) = i"
  by (simp_all add: sint_sbintrunc' signed_take_bit_int_eq_self)

lemma take_bit_self [simp]: "take_bit 8 (a :: 8 word) = a" "take_bit 16 (b :: 16 word) = b" "take_bit 32 (c :: 32 word) = c"
  by (rule bit_word_eqI; auto simp: bit_simps)+

lemma boot_fields:
  assumes "length jmp = 11" "length mid = 15" "length flags = 4"
    and img: "img = boot_sector bps spc rsvd nfats tot sz root jmp mid flags @ rest"
  shows "field img 11 2 = (word_of_int bps :: 16 word)" "field img 13 1 = (word_of_int spc :: 8 word)"
    "field img 14 2 = (word_of_int rsvd :: 16 word)" "field img 16 1 = (word_of_int nfats :: 8 word)"
    "field img 32 4 = (word_of_int tot :: 32 word)" "field img 36 4 = (word_of_int sz :: 32 word)"
    "field img 44 4 = (word_of_int root :: 32 word)" "length (f_read img 44 4) = 4"
proof -
  let ?b = "le_bytes 2 (word_of_int bps :: 16 word)" and ?r = "le_bytes 2 (word_of_int rsvd :: 16 word)"
  let ?t = "le_bytes 4 (word_of_int tot :: 32 word)" and ?s = "le_bytes 4 (word_of_int sz :: 32 word)"
  let ?p3 = "jmp @ ?b @ word_of_int spc # ?r @ word_of_int nfats # mid"
  let ?root = "le_bytes 4 (word_of_int root :: 32 word)"
  have i: "img = jmp @ ?b @ (word_of_int spc # ?r @ word_of_int nfats # mid @ ?t @ ?s @ flags @ ?root @ rest)"
    "img = (jmp @ ?b) @ word_of_int spc # (?r @ word_of_int nfats # mid @ ?t @ ?s @ flags @ ?root @ rest)"
    "img = (jmp @ ?b @ [word_of_int spc]) @ ?r @ (word_of_int nfats # mid @ ?t @ ?s @ flags @ ?root @ rest)"
    "img = (jmp @ ?b @ word_of_int spc # ?r) @ word_of_int nfats # (mid @ ?t @ ?s @ flags @ ?root @ rest)"
    "img = ?p3 @ ?t @ (?s @ flags @ ?root @ rest)" "img = (?p3 @ ?t) @ ?s @ (flags @ ?root @ rest)"
    "img = (?p3 @ ?t @ ?s @ flags) @ ?root @ rest"
    by (simp_all add: img boot_sector_def del: le_bytes.simps)
  show "field img 11 2 = (word_of_int bps :: 16 word)" unfolding i(1) by (subst field_at) (simp_all add: assms)
  show "field img 13 1 = (word_of_int spc :: 8 word)" unfolding i(2) One_nat_def by (subst field_byte) (simp_all add: assms)
  show "field img 14 2 = (word_of_int rsvd :: 16 word)" unfolding i(3) by (subst field_at) (simp_all add: assms)
  show "field img 16 1 = (word_of_int nfats :: 8 word)" unfolding i(4) One_nat_def by (subst field_byte) (simp_all add: assms)
  show "field img 32 4 = (word_of_int tot :: 32 word)" unfolding i(5) by (subst field_at) (simp_all add: assms)
  show "field img 36 4 = (word_of_int sz :: 32 word)" unfolding i(6) by (subst field_at) (simp_all add: assms)
  show "field img 44 4 = (word_of_int root :: 32 word)" unfolding i(7) by (subst field_at) (simp_all add: assms)
  have "length (?p3 @ ?t @ ?s @ flags) = 44" using assms by simp
  then show "length (f_read img 44 4) = 4" unfolding i(7) f_read_def by simp
qed

lemma c_int_ok [simp]: "- INT_MAX - 1 \<le> i \<Longrightarrow> i \<le> INT_MAX \<Longrightarrow> c_int i = Inr i"
  by (simp add: c_int_def)

lemma c_int_nn: "0 \<le> i \<Longrightarrow> i \<le> INT_MAX \<Longrightarrow> c_int i = Inr i"
  by (simp add: c_int_def INT_MAX_def)

definition fat_region :: "byte list \<Rightarrow> int \<Rightarrow> int \<Rightarrow> int \<Rightarrow> byte list" where
  "fat_region img bps rsvd sz = take (nat (sz * bps)) (drop (nat (rsvd * bps)) img)"

lemma open_image:
  assumes img: "img = boot_sector bps spc rsvd nfats tot sz root jmp mid flags @ rest"
    and len: "length jmp = 11" "length mid = 15" "length flags = 4"
    and b: "0 < bps" "bps < 2 ^ 15" "0 < spc" "spc < 2 ^ 7" "0 \<le> rsvd" "rsvd < 2 ^ 15" "0 \<le> nfats" "nfats < 2 ^ 7"
      "0 \<le> tot" "tot < 2 ^ 31" "0 \<le> sz" "0 \<le> root" "root < 2 ^ 31" "rsvd * bps + sz * bps * 2 \<le> INT_MAX"
    and whole: "rsvd * bps + sz * bps \<le> int (length img)"
  shows "fat_fs_open True (Some img) = Inr (Some \<lparr>BytsPerSec = bps, SecPerClus = spc, RsvdSecCnt = rsvd, NumFATs = nfats, TotSec32 = tot,
      FATSz32 = sz, RootClus = root, cluster_size = bps * spc, fat_table = Some (fat_region img bps rsvd sz),
      cluster_begin_addr = rsvd * bps + sz * bps * 2, fs_img = img, fs_pos = nat (rsvd * bps) + nat (sz * bps), fs_out = []\<rparr>)"
proof -
  have nn: "0 \<le> rsvd * bps" "0 \<le> sz * bps" using b by simp_all
  have sb: "sz \<le> sz * bps" using b by (simp add: mult_le_cancel_left1)
  then have sz: "sz < 2 ^ 31" using b(14) nn by (simp add: INT_MAX_def)
  have f: "sint (field img 11 2 :: 16 word) = bps" "sint (field img 13 1 :: 8 word) = spc" "sint (field img 14 2 :: 16 word) = rsvd"
    "sint (field img 16 1 :: 8 word) = nfats" "sint (field img 32 4 :: 32 word) = tot" "sint (field img 36 4 :: 32 word) = sz"
    "sint (field img 44 4 :: 32 word) = root" "length (f_read img 44 4) = 4"
    unfolding boot_fields [OF len img] using b sz by (simp_all add: sint_fits)
  have r: "length (f_read img (nat (rsvd * bps)) (nat (sz * bps))) = nat (sz * bps)"
    using whole nn by (simp add: f_read_def)
  have rf: "read_fat (Some (replicate (nat (sz * bps)) 0)) img (nat (rsvd * bps)) (nat (sz * bps)) = Inr (Some (fat_region img bps rsvd sz))"
    unfolding read_fat_def Let_def using r by (simp add: f_read_def fat_region_def)
  have c: "c_int (sz * bps) = Inr (sz * bps)" "c_int (sz * bps * 2) = Inr (sz * bps * 2)"
    "c_int (rsvd * bps + sz * bps * 2) = Inr (rsvd * bps + sz * bps * 2)"
    using nn b(14) by (intro c_int_nn; linarith)+
  have m: "(rsvd * bps + sz * bps * 2) mod 2 ^ 64 = rsvd * bps + sz * bps * 2"
  proof (rule mod_pos_pos_trivial)
    show "0 \<le> rsvd * bps + sz * bps * 2" using nn by linarith
    have "INT_MAX < 2 ^ 64" by (simp add: INT_MAX_def)
    with b(14) show "rsvd * bps + sz * bps * 2 < 2 ^ 64" by linarith
  qed
  have s: "f_seek (rsvd * bps) p = nat (rsvd * bps)" for p using nn by (simp add: f_seek_def)
  show ?thesis
    unfolding fat_fs_open_def f Let_def option.case c fbind_Inr s using nn
    by (simp only: if_True simp_thms rf fbind_Inr c m fmap_Inr r)
qed

subsection \<open>Reading a cluster\<close>

definition has_cluster :: "fat_fs \<Rightarrow> int \<Rightarrow> byte list \<Rightarrow> bool" where
  "has_cluster fs k d \<longleftrightarrow> 2 \<le> k \<and> k < 2 ^ 31 \<and> 0 < cluster_size fs \<and> (k - 2) * cluster_size fs \<le> INT_MAX
    \<and> 0 \<le> cluster_begin_addr fs \<and> cluster_begin_addr fs + (k - 2) * cluster_size fs < 2 ^ 63
    \<and> f_read (fs_img fs) (nat (cluster_begin_addr fs + (k - 2) * cluster_size fs)) (nat (cluster_size fs)) = d
    \<and> length d = nat (cluster_size fs)"

lemma has_cluster_pos [simp]: "has_cluster (fs\<lparr>fs_pos := p, fs_out := out\<rparr>) k d = has_cluster fs k d"
  by (simp add: has_cluster_def)

lemma to_i64_small: "0 \<le> i \<Longrightarrow> i < 2 ^ 63 \<Longrightarrow> to_i64 i = i"
  by (simp add: to_i64_def sint_sbintrunc' signed_take_bit_int_eq_self)

definition cluster_line :: "fat_fs \<Rightarrow> int \<Rightarrow> fat_line" where
  "cluster_line fs k = Pos_line (cluster_begin_addr fs + (k - 2) * cluster_size fs)"

lemma cluster_line_pos [simp]: "cluster_line (fs\<lparr>fs_pos := p, fs_out := out\<rparr>) k = cluster_line fs k"
  by (simp add: cluster_line_def)

lemma read_cluster:
  assumes "has_cluster fs k d"
  shows "\<exists>p. fat_cluster_read fs k = Inr (d, fs\<lparr>fs_pos := p, fs_out := fs_out fs @ [cluster_line fs k]\<rparr>)"
proof -
  let ?a = "cluster_begin_addr fs + (k - 2) * cluster_size fs"
  have h: "0 \<le> (k - 2) * cluster_size fs" "k - 2 \<le> INT_MAX" "0 \<le> k - 2" using assms by (auto simp: has_cluster_def INT_MAX_def)
  have c: "c_int (k - 2) = Inr (k - 2)" "c_int ((k - 2) * cluster_size fs) = Inr ((k - 2) * cluster_size fs)"
    using h assms by (intro c_int_nn; simp add: has_cluster_def)+
  have a: "to_i64 ?a = ?a" "0 \<le> ?a" using h assms by (auto simp: has_cluster_def intro!: to_i64_small)
  have p: "(if ?a \<noteq> int (fs_pos fs) then f_seek ?a (fs_pos fs) else fs_pos fs) = nat ?a" using a(2) by (auto simp: f_seek_def)
  have n: "0 \<le> cluster_size fs" and d: "f_read (fs_img fs) (nat ?a) (nat (cluster_size fs)) = d" using assms by (auto simp: has_cluster_def)
  show ?thesis unfolding fat_cluster_read_def cluster_line_def c fbind_Inr fmap_Inr Let_def a(1) p if_P [OF n] d by blast
qed

subsection \<open>Directories\<close>

record entry =
  de_name :: "byte list"
  de_attr :: byte
  de_times :: "byte list"
  de_hi :: "16 word"
  de_stamp :: "byte list"
  de_lo :: "16 word"
  de_size :: "32 word"

definition enc_entry :: "entry \<Rightarrow> byte list" where
  "enc_entry e = de_name e @ de_attr e # de_times e @ le_bytes 2 (de_hi e) @ de_stamp e @ le_bytes 2 (de_lo e) @ le_bytes 4 (de_size e)"

definition good_entry :: "entry \<Rightarrow> bool" where
  "good_entry e \<longleftrightarrow> length (de_name e) = 11 \<and> length (de_times e) = 8 \<and> length (de_stamp e) = 4 \<and> hd (de_name e) \<noteq> 0 \<and> hd (de_name e) \<noteq> 5"

definition entry_line :: "entry \<Rightarrow> fat_line" where
  "entry_line e = File_line (takeWhile (\<lambda>x. x \<noteq> 0) (de_name e)) (bit (de_attr e) 4) (sint (de_size e))"

lemma length_enc_entry [simp]: "good_entry e \<Longrightarrow> length (enc_entry e) = 32"
  by (simp add: enc_entry_def good_entry_def)

lemma byte_at_ok: "i < length d \<Longrightarrow> length d \<le> csz \<Longrightarrow> byte_at csz d i = Inr (d ! i)"
  by (simp add: byte_at_def)

lemma copy_short_ok:
  "i + n \<le> length d \<Longrightarrow> length d \<le> csz \<Longrightarrow> \<exists>k. copy_short n csz d i = Inr (takeWhile (\<lambda>x. x \<noteq> 0) (take n (drop i d)) @ replicate k 0)"
proof (induction n arbitrary: i)
  case 0
  show ?case by simp
next
  case (Suc n)
  then have t: "take (Suc n) (drop i d) = d ! i # take n (drop (Suc i) d)" by (simp add: Cons_nth_drop_Suc [symmetric])
  from Suc.IH [of "Suc i"] Suc.prems obtain k where "copy_short n csz d (Suc i) = Inr (takeWhile (\<lambda>x. x \<noteq> 0) (take n (drop (Suc i) d)) @ replicate k 0)"
    by auto
  then show ?case using Suc.prems unfolding t by (cases "d ! i = 0") (auto simp: byte_at_ok intro: exI [of _ "Suc n"])
qed

lemma num_at_ok:
  "d = pre @ le_bytes n (w :: 'v::len word) @ post \<Longrightarrow> i = length pre \<Longrightarrow> length d \<le> csz
    \<Longrightarrow> num_at n csz d i = Inr (ucast (take_bit (8 * n) w) :: 'w::len word)"
  by (simp add: num_at_def le_word_le_bytes)

lemma dir_entry_ok:
  assumes g: "good_entry e" and d: "d = pre @ enc_entry e @ post" and p: "p = length pre" and l: "length d \<le> csz"
  shows "\<exists>f. dir_entry csz d p (de_attr e) = Inr f \<and> list_line f = entry_line e"
proof -
  let ?h = "le_bytes 2 (de_hi e)" and ?l = "le_bytes 2 (de_lo e)" and ?s = "le_bytes 4 (de_size e)"
  let ?a = "pre @ de_name e @ de_attr e # de_times e"
  have g': "length (de_name e) = 11" "length (de_times e) = 8" "length (de_stamp e) = 4" using g by (simp_all add: good_entry_def)
  have n: "take 11 (drop p d) = de_name e" using g' by (simp add: d p enc_entry_def)
  have "p + 11 \<le> length d" using g' by (simp add: d p enc_entry_def)
  from copy_short_ok [OF this l] n obtain k where name: "copy_short 11 csz d p = Inr (takeWhile (\<lambda>x. x \<noteq> 0) (de_name e) @ replicate k 0)" by auto
  have hi: "num_at 2 csz d (p + 0x14) = Inr (de_hi e)"
    using num_at_ok [of d ?a 2 "de_hi e" "de_stamp e @ ?l @ ?s @ post" "p + 0x14" csz, where 'w = 16] g' l
    by (simp add: d p enc_entry_def del: le_bytes.simps)
  have lo: "num_at 2 csz d (p + 0x1a) = Inr (de_lo e)"
    using num_at_ok [of d "?a @ ?h @ de_stamp e" 2 "de_lo e" "?s @ post" "p + 0x1a" csz, where 'w = 16] g' l
    by (simp add: d p enc_entry_def del: le_bytes.simps)
  have sz: "num_at 4 csz d (p + 28) = Inr (de_size e)"
    using num_at_ok [of d "?a @ ?h @ de_stamp e @ ?l" 4 "de_size e" post "p + 28" csz, where 'w = 32] g' l
    by (simp add: d p enc_entry_def del: le_bytes.simps)
  have tw: "takeWhile (\<lambda>x. x \<noteq> 0) ((takeWhile (\<lambda>x. x \<noteq> 0) xs @ replicate k 0) @ [0]) = takeWhile (\<lambda>x. x \<noteq> (0 :: byte)) xs" for xs k
  proof -
    have "takeWhile (\<lambda>x. x \<noteq> 0) (replicate k (0 :: byte) @ [0]) = []" by (cases k) simp_all
    then show ?thesis by (subst append_assoc, subst takeWhile_append2) (auto dest: set_takeWhileD)
  qed
  show ?thesis
    unfolding dir_entry_def name fbind_Inr hi lo sz fmap_Inr by (rule exI, rule conjI, rule refl) (simp add: list_line_def entry_line_def tw [simplified])
qed

lemma entry_bytes:
  assumes g: "good_entry e" and d: "d = pre @ enc_entry e @ post" and p: "p = length pre" and l: "length d \<le> csz"
  shows "byte_at csz d p = Inr (hd (de_name e))" "byte_at csz d (p + 11) = Inr (de_attr e)"
proof -
  from g have n: "length (de_name e) = 11" "de_name e \<noteq> []" by (auto simp: good_entry_def)
  have "d ! p = hd (de_name e)" "d ! (p + 11) = de_attr e" "p + 11 < length d"
    using n g by (simp_all add: d p enc_entry_def nth_append hd_conv_nth good_entry_def)
  then show "byte_at csz d p = Inr (hd (de_name e))" "byte_at csz d (p + 11) = Inr (de_attr e)" using l by (simp_all add: byte_at_ok)
qed

declare dir_loop.simps [simp del]

lemma dir_loop_ok:
  assumes "\<forall>e \<in> set es. good_entry e" "d = pre @ concat (map enc_entry es) @ 0 # post" "p = length pre" "length d \<le> csz"
  shows "(dropWhile (\<lambda>e. bit (de_attr e) 0) es = [] \<longrightarrow> (\<exists>c. dir_loop csz d p cur = Inr (None, c)))
    \<and> (\<forall>e es'. dropWhile (\<lambda>e. bit (de_attr e) 0) es = e # es' \<longrightarrow>
      (\<exists>f. dir_loop csz d p cur = Inr (Some f, cur + 32 * length (takeWhile (\<lambda>e. bit (de_attr e) 0) es)) \<and> list_line f = entry_line e))"
  using assms
proof (induction es arbitrary: pre p cur)
  case Nil
  then have "byte_at csz d p = Inr 0" by (simp add: byte_at_ok)
  then show ?case by (simp add: dir_loop.simps [of csz])
next
  case (Cons e es)
  have g: "good_entry e" and d: "d = pre @ enc_entry e @ (concat (map enc_entry es) @ 0 # post)" using Cons.prems(1,2) by simp_all
  note b = entry_bytes [OF g d Cons.prems(3,4)]
  have hd: "hd (de_name e) \<noteq> 0" "hd (de_name e) \<noteq> 5" using g by (simp_all add: good_entry_def)
  show ?case
  proof (cases "bit (de_attr e) 0")
    case True
    have "d = (pre @ enc_entry e) @ concat (map enc_entry es) @ 0 # post" "p + 32 = length (pre @ enc_entry e)" using d g Cons.prems(3) by simp_all
    note ih = Cons.IH [OF _ this Cons.prems(4), of "cur + 32"]
    have "dir_loop csz d p cur = dir_loop csz d (p + 32) (cur + 32)" using b hd True by (simp add: dir_loop.simps [of csz d p])
    then show ?thesis using ih Cons.prems(1) True by (simp add: add.assoc)
  next
    case False
    from dir_entry_ok [OF g d Cons.prems(3,4)] obtain f where "dir_entry csz d p (de_attr e) = Inr f" "list_line f = entry_line e" by blast
    then show ?thesis using b hd False by (simp add: dir_loop.simps [of csz d p])
  qed
qed

subsection \<open>The listing\<close>

lemma length_entries: "\<forall>e \<in> set es. good_entry e \<Longrightarrow> length (concat (map enc_entry es)) = 32 * length es"
  by (induction es) simp_all

lemma list_loop_ok:
  assumes "\<forall>e \<in> set es. good_entry e" "d = pre @ concat (map enc_entry es) @ 0 # post" "has_cluster fs k d"
    "length (filter (\<lambda>e. \<not> bit (de_attr e) 0) es) < fuel" "fd_pos dir = length pre" "fd_cluster dir = k"
  shows "list_loop fuel fs dir = Inr (Some (fs_out fs
    @ concat (map (\<lambda>e. [cluster_line fs k, entry_line e]) (filter (\<lambda>e. \<not> bit (de_attr e) 0) es)) @ [cluster_line fs k]))"
  using assms
proof (induction fuel arbitrary: es pre fs dir)
  case (Suc fuel)
  let ?A = "\<lambda>e. bit (de_attr e) 0"
  obtain p where r: "fat_cluster_read fs k = Inr (d, fs\<lparr>fs_pos := p, fs_out := fs_out fs @ [cluster_line fs k]\<rparr>)"
    using read_cluster [OF Suc.prems(3)] by blast
  have c: "0 < cluster_size fs" "length d \<le> nat (cluster_size fs)" using Suc.prems(3) by (auto simp: has_cluster_def)
  note l = dir_loop_ok [OF Suc.prems(1,2) refl c(2), of "length pre + 32"]
  show ?case
  proof (cases "dropWhile ?A es")
    case Nil
    with l obtain n where "dir_loop (nat (cluster_size fs)) d (length pre) (length pre + 32) = Inr (None, n)" by auto
    moreover from Nil have "filter (\<lambda>e. \<not> ?A e) es = []" by (simp add: filter_empty_conv)
    ultimately show ?thesis using c(1) Suc.prems(5,6) by (simp add: fat_dir_read_def r)
  next
    case (Cons e es')
    let ?t = "takeWhile ?A es"
    have es: "es = ?t @ e # es'" using Cons takeWhile_dropWhile_id [of ?A es] by simp
    have ne: "\<not> ?A e" using Cons hd_dropWhile [of ?A es] by simp
    from l Cons obtain f where f: "dir_loop (nat (cluster_size fs)) d (length pre) (length pre + 32)
        = Inr (Some f, length pre + 32 + 32 * length ?t)" "list_line f = entry_line e" by auto
    have flt: "filter (\<lambda>e. \<not> ?A e) es = e # filter (\<lambda>e. \<not> ?A e) es'"
    proof -
      have "filter (\<lambda>e. \<not> ?A e) ?t = []" by (auto simp: filter_empty_conv dest: set_takeWhileD)
      then show ?thesis by (subst es) (simp add: ne)
    qed
    have good: "\<forall>e \<in> set (?t @ [e]). good_entry e" "\<forall>e \<in> set es'. good_entry e"
      using Suc.prems(1) es by (metis Un_iff set_append in_set_conv_decomp append_Cons append_Nil append_assoc)+
    have len: "length (concat (map enc_entry (?t @ [e]))) = 32 * length (?t @ [e])"
      using good(1) by (rule length_entries)
    let ?pre = "pre @ concat (map enc_entry (?t @ [e]))"
    have d: "d = ?pre @ concat (map enc_entry es') @ 0 # post" using Suc.prems(2) es by (metis append_assoc append_Cons append_Nil concat_append map_append)
    have pos: "length pre + 32 + 32 * length ?t = length ?pre" using len by simp
    let ?fs = "fs\<lparr>fs_pos := p, fs_out := fs_out fs @ [cluster_line fs k, entry_line e]\<rparr>"
    have "list_loop fuel ?fs (dir\<lparr>fd_pos := length pre + 32 + 32 * length ?t\<rparr>)
      = Inr (Some (fs_out ?fs @ concat (map (\<lambda>e. [cluster_line ?fs k, entry_line e]) (filter (\<lambda>e. \<not> ?A e) es')) @ [cluster_line ?fs k]))"
      using Suc.prems(3,4,6) flt pos by (intro Suc.IH [OF good(2) d]) simp_all
    then show ?thesis using c(1) Suc.prems(5,6) by (simp add: fat_dir_read_def r f flt)
  qed
qed simp

lemma contents_ok:
  assumes "chain \<noteq> []" "256 dvd cluster_size fs" "length chain \<le> fuel"
    "\<forall>i < length chain. has_cluster fs (chain ! i) (data ! i)"
    "\<forall>i < length chain. fat_cluster_get_next fs (chain ! i) = Inr (if Suc i < length chain then chain ! Suc i else - 1)"
    "length data = length chain" "nat (cluster_size fs) \<le> length buf"
  shows "\<exists>fs'. contents_loop fuel fs (hd chain) 0 buf = Inr (Some (fs', last data @ drop (nat (cluster_size fs)) buf))"
  using assms
proof (induction chain arbitrary: fs fuel data buf)
  case (Cons k ks)
  obtain d ds where data: "data = d # ds" using Cons.prems(6) by (cases data) auto
  obtain g where g: "fuel = Suc g" using Cons.prems(3) by (cases fuel) auto
  have k: "has_cluster fs k d" using Cons.prems(4) data by (metis length_greater_0_conv list.distinct(1) nth_Cons_0)
  obtain p out where r: "fat_cluster_read fs k = Inr (d, fs\<lparr>fs_pos := p, fs_out := out\<rparr>)" using read_cluster [OF k] by blast
  have len: "length d = nat (cluster_size fs)" "0 < cluster_size fs" using k by (auto simp: has_cluster_def)
  then have put: "put_cluster buf 0 d = Inr (d @ drop (nat (cluster_size fs)) buf)"
    using Cons.prems(7) by (auto simp: put_cluster_def)
  have "word_of_int (cluster_size fs) = (0 :: byte)"
    unfolding word_of_int_eq_0_iff using Cons.prems(2) by simp
  then have pos: "sint (word_of_int (0 + cluster_size fs) :: 8 word) = 0" "sint (word_of_int (cluster_size fs) :: 8 word) = 0" by simp_all
  have next_fs: "fat_cluster_get_next (fs\<lparr>fs_pos := p, fs_out := out\<rparr>) x = fat_cluster_get_next fs x" for x by (simp add: fat_cluster_get_next_def)
  show ?case
  proof (cases ks)
    case Nil
    then have "fat_cluster_get_next fs k = Inr (- 1)" using Cons.prems(5) by simp
    then show ?thesis using Nil data Cons.prems(6) by (simp add: g r put pos next_fs)
  next
    case (Cons k' ks')
    have nx: "fat_cluster_get_next fs k = Inr k'" using Cons.prems(5) Cons by auto
    have k': "has_cluster fs k' (data ! 1)" using Cons.prems(4) Cons by (metis One_nat_def Suc_less_eq length_Cons nth_Cons_0 nth_Cons_Suc zero_less_Suc)
    have ne: "k' \<noteq> - 1" using k' by (simp add: has_cluster_def)
    have "\<exists>fs'. contents_loop g (fs\<lparr>fs_pos := p, fs_out := out\<rparr>) (hd ks) 0 (d @ drop (nat (cluster_size fs)) buf)
      = Inr (Some (fs', last ds @ drop (nat (cluster_size (fs\<lparr>fs_pos := p, fs_out := out\<rparr>))) (d @ drop (nat (cluster_size fs)) buf)))"
    proof (rule Cons.IH)
      show "ks \<noteq> []" "256 dvd cluster_size (fs\<lparr>fs_pos := p, fs_out := out\<rparr>)" "length ks \<le> g" "length ds = length ks"
        "nat (cluster_size (fs\<lparr>fs_pos := p, fs_out := out\<rparr>)) \<le> length (d @ drop (nat (cluster_size fs)) buf)"
        using Cons Cons.prems g data len by simp_all
      show "\<forall>i < length ks. has_cluster (fs\<lparr>fs_pos := p, fs_out := out\<rparr>) (ks ! i) (ds ! i)"
        using Cons.prems(4) data by (auto dest: spec [of _ "Suc _"])
      show "\<forall>i < length ks. fat_cluster_get_next (fs\<lparr>fs_pos := p, fs_out := out\<rparr>) (ks ! i) = Inr (if Suc i < length ks then ks ! Suc i else - 1)"
        unfolding next_fs
      proof (intro allI impI)
        fix i assume "i < length ks"
        then show "fat_cluster_get_next fs (ks ! i) = Inr (if Suc i < length ks then ks ! Suc i else - 1)"
          using Cons.prems(5) [rule_format, of "Suc i"] by simp
      qed
    qed
    moreover have "ds \<noteq> []" using Cons Cons.prems(6) data by auto
    ultimately show ?thesis using Cons data ne len by (simp add: g r put pos next_fs nx)
  qed
qed simp


text \<open>C35. An image of a FAT32 volume whose numbers fit is opened with the numbers of its boot sector and its table; and
  the listing of the root directory, 32-byte entries in its first cluster ended by a 0, has a line for each entry
  whose attribute bit 0 is clear, in order, with its name, kind and size, whatever the first byte of a name
  other than 0 and 5; deleted entries are listed and read-only files are not. Each call of \<open>fat_dir_read\<close> reads the cluster again
  and prints its position first, once for every line and once at the end.\<close>

theorem fat_listing:
  assumes img: "img = boot_sector bps spc rsvd nfats tot sz root jmp mid flags @ rest"
    "length jmp = 11" "length mid = 15" "length flags = 4"
    and b: "0 < bps" "bps < 2 ^ 15" "0 < spc" "spc < 2 ^ 7" "0 \<le> rsvd" "rsvd < 2 ^ 15" "0 \<le> nfats" "nfats < 2 ^ 7"
      "0 \<le> tot" "tot < 2 ^ 31" "0 \<le> sz" "0 \<le> root" "root < 2 ^ 31" "rsvd * bps + sz * bps * 2 \<le> INT_MAX"
    and whole: "rsvd * bps + sz * bps * 2 + bps * spc \<le> int (length img)"
    and dir: "\<forall>e \<in> set es. good_entry e"
      "take (nat (bps * spc)) (drop (nat (rsvd * bps + sz * bps * 2)) img) = concat (map enc_entry es) @ 0 # post"
    and fuel: "length (filter (\<lambda>e. \<not> bit (de_attr e) 0) es) < fuel"
  shows "fat_fs_open True (Some img) = Inr (Some \<lparr>BytsPerSec = bps, SecPerClus = spc, RsvdSecCnt = rsvd, NumFATs = nfats, TotSec32 = tot,
      FATSz32 = sz, RootClus = root, cluster_size = bps * spc, fat_table = Some (fat_region img bps rsvd sz),
      cluster_begin_addr = rsvd * bps + sz * bps * 2, fs_img = img, fs_pos = nat (rsvd * bps) + nat (sz * bps), fs_out = []\<rparr>)
    \<and> fat_main fuel True (Some img) = Inr (Some (concat (map (\<lambda>e. [Pos_line (rsvd * bps + sz * bps * 2), entry_line e])
          (filter (\<lambda>e. \<not> bit (de_attr e) 0) es)) @ [Pos_line (rsvd * bps + sz * bps * 2)]))"
proof -
  let ?fs = "\<lparr>BytsPerSec = bps, SecPerClus = spc, RsvdSecCnt = rsvd, NumFATs = nfats, TotSec32 = tot,
      FATSz32 = sz, RootClus = root, cluster_size = bps * spc, fat_table = Some (fat_region img bps rsvd sz),
      cluster_begin_addr = rsvd * bps + sz * bps * 2, fs_img = img, fs_pos = nat (rsvd * bps) + nat (sz * bps), fs_out = []\<rparr>"
  let ?d = "concat (map enc_entry es) @ 0 # post"
  have nn: "0 \<le> rsvd * bps" "0 \<le> sz * bps" "0 < bps * spc" using b by simp_all
  have "rsvd * bps + sz * bps \<le> int (length img)" using whole nn by linarith
  note o = open_image [OF img b this]
  have "length (take (nat (bps * spc)) (drop (nat (rsvd * bps + sz * bps * 2)) img)) = nat (bps * spc)"
  proof -
    have "nat (rsvd * bps + sz * bps * 2) + nat (bps * spc) \<le> length img" using whole nn by linarith
    then show ?thesis by simp
  qed
  then have len: "length ?d = nat (bps * spc)" using dir(2) by simp
  have lim: "rsvd * bps + sz * bps * 2 < 2 ^ 63"
  proof -
    have "INT_MAX < 2 ^ 63" by (simp add: INT_MAX_def)
    with b(14) show ?thesis by linarith
  qed
  have "0 \<le> rsvd * bps + sz * bps * 2" using nn by linarith
  then have c: "has_cluster ?fs 2 ?d"
    using nn(3) lim len dir(2) unfolding has_cluster_def by (simp add: f_read_def INT_MAX_def)
  have "list_loop fuel ?fs (fat_dir_open 2) = Inr (Some (fs_out ?fs
      @ concat (map (\<lambda>e. [cluster_line ?fs 2, entry_line e]) (filter (\<lambda>e. \<not> bit (de_attr e) 0) es)) @ [cluster_line ?fs 2]))"
    by (rule list_loop_ok [of es ?d "[]" post, OF dir(1) _ c fuel]) (simp_all add: fat_dir_open_def)
  then show ?thesis using o by (simp add: fat_main_def cluster_line_def)
qed

text \<open>C36. The contents of a file along a cluster chain, for clusters of a multiple of 256 bytes: the buffer, rounded up to
  whole clusters, holds the last cluster of the chain at its start and zeros behind it, because the position in
  the buffer is a \<open>char\<close>. So a file of one cluster is read right, and no longer one is.\<close>

theorem fat_contents:
  assumes "chain \<noteq> []" "256 dvd cluster_size fs" "length chain \<le> fuel"
    "\<forall>i < length chain. has_cluster fs (chain ! i) (data ! i)"
    "\<forall>i < length chain. fat_cluster_get_next fs (chain ! i) = Inr (if Suc i < length chain then chain ! Suc i else - 1)"
    "length data = length chain"
    and ff: "ff_fs file" "ff_first file = hd chain" "0 < ff_size file" "ff_size file + cluster_size fs \<le> INT_MAX"
  shows "\<exists>fs'. fat_file_get_contents fuel fs file = Inr (Some (fs', last data
      @ replicate (nat ((ff_size file + cluster_size fs - 1) div cluster_size fs * cluster_size fs) - nat (cluster_size fs)) 0))"
proof -
  let ?cs = "cluster_size fs" and ?s = "ff_size file + cluster_size fs - 1"
  have cs: "0 < ?cs" using assms(1,4) by (auto simp: has_cluster_def)
  let ?n = "?s div ?cs * ?cs"
  have n: "?cs \<le> ?n" "?n \<le> ?s"
  proof -
    have "1 \<le> ?s div ?cs" using cs ff(3) by (simp add: pos_imp_zdiv_pos_iff int_one_le_iff_zero_less)
    then show "?cs \<le> ?n" using cs by (simp add: mult_le_cancel_right1)
    show "?n \<le> ?s" using pos_mod_sign [of ?cs ?s] cs minus_mod_eq_div_mult [of ?s ?cs] by linarith
  qed
  have cd: "c_div ?s ?cs = ?s div ?cs" using cs ff(3) by (simp add: c_div_def)
  have c: "c_int (ff_size file + ?cs) = Inr (ff_size file + ?cs)" "c_int ?s = Inr ?s" "c_int ?n = Inr ?n"
    using cs ff(3,4) n by (intro c_int_nn; linarith)+
  have z: "?cs \<noteq> 0" "\<not> ?n < 0" using cs n(1) by linarith+
  have "nat ?cs \<le> length (replicate (nat ?n) (0 :: byte))" using n(1) by simp
  from contents_ok [OF assms(1-6) this] obtain fs' where
    "contents_loop fuel fs (hd chain) 0 (replicate (nat ?n) 0) = Inr (Some (fs', last data @ replicate (nat ?n - nat ?cs) 0))" by auto
  then show ?thesis
    unfolding fat_file_get_contents_def c fbind_Inr cd if_not_P [OF z(1)] if_not_P [OF z(2)] ff(2) using ff(1) by simp
qed

text \<open>A file of the directory has no volume, and one opened by its first cluster has the size 0: neither can be read.\<close>

lemma listed_file_unreadable:
  assumes "fat_dir_read fs dir = Inr (Some f, fs', dir')"
  shows "fat_file_get_contents fuel fs' f = Inl Null_deref"
proof -
  have "\<not> ff_fs f" if "dir_loop csz d p cur = Inr (Some f, c)" for csz d p cur c
    using that
  proof (induction csz d p cur rule: dir_loop.induct)
    case (1 csz d p cur)
    from "1.prems" obtain x where x: "byte_at csz d p = Inr x" "x \<noteq> 0" "x \<noteq> 5"
      by (auto simp: dir_loop.simps [of csz d p] fbind_eq_Inr split: if_splits)
    with "1.prems" obtain a where a: "byte_at csz d (p + 11) = Inr a"
      by (auto simp: dir_loop.simps [of csz d p] fbind_eq_Inr)
    show ?case
    proof (cases "bit a 0")
      case True
      with 1 x a show ?thesis by (auto simp: dir_loop.simps [of csz d p])
    next
      case False
      with "1.prems" x a show ?thesis by (auto simp: dir_loop.simps [of csz d p] dir_entry_def fbind_eq_Inr fmap_eq_Inr)
    qed
  qed
  then have "\<not> ff_fs f" using assms by (auto simp: fat_dir_read_def fbind_eq_Inr fmap_eq_Inr split: if_splits)
  then show ?thesis by (simp add: fat_file_get_contents_def)
qed

lemma opened_file_overflows:
  assumes "has_cluster fs first d" "cluster_size fs \<le> INT_MAX"
  shows "fat_file_get_contents (Suc fuel) fs (fat_file_open first) = Inl Buffer_overflow"
proof -
  have cs: "0 < cluster_size fs" "d \<noteq> []" using assms(1) by (auto simp: has_cluster_def)
  obtain p out where r: "fat_cluster_read fs first = Inr (d, fs\<lparr>fs_pos := p, fs_out := out\<rparr>)" using read_cluster [OF assms(1)] by blast
  have "c_int (cluster_size fs) = Inr (cluster_size fs)" "c_int (cluster_size fs - 1) = Inr (cluster_size fs - 1)"
    using cs assms(2) by (intro c_int_nn; linarith)+
  moreover have "c_div (cluster_size fs - 1) (cluster_size fs) = 0" using cs by (simp add: c_div_def)
  moreover have "c_int 0 = Inr 0" by (simp add: c_int_def INT_MAX_def)
  ultimately show ?thesis using cs by (simp add: fat_file_get_contents_def fat_file_open_def r put_cluster_def)
qed

text \<open>A volume with 128 sectors per cluster, the byte 0x80, has a negative cluster size.\<close>

lemma large_clusters_negative: "sint (field (replicate 13 0 @ [0x80]) 13 1 :: 8 word) = - 128"
  by code_simp

definition wit_entry :: "byte \<Rightarrow> byte \<Rightarrow> entry" where
  "wit_entry c attr = \<lparr>de_name = c # replicate 10 32, de_attr = attr, de_times = replicate 8 0, de_hi = 0, de_stamp = replicate 4 0, de_lo = 3, de_size = 300\<rparr>"

definition wit_img :: "byte list" where
  "wit_img = boot_sector 64 2 1 2 4 1 2 (replicate 11 0) (replicate 15 0) (replicate 4 0)
     @ (replicate 144 0 @ concat (map enc_entry [wit_entry 65 1, wit_entry 0xE5 32]) @ 0 # replicate 63 0)"

lemma wit_entries: "length (enc_entry (wit_entry c a)) = 32"
  by (simp add: enc_entry_def wit_entry_def)

lemma wit_img_parts: "length wit_img = 320"
  "take (nat (64 * 2)) (drop (nat (1 * 64 + 1 * 64 * 2)) wit_img) = concat (map enc_entry [wit_entry 65 1, wit_entry 0xE5 32]) @ 0 # replicate 63 0"
  by (simp_all add: wit_img_def boot_sector_def wit_entries del: le_bytes.simps)

lemma fat_listing_witness:
  "fat_main 2 True (Some wit_img) = Inr (Some [Pos_line 192, entry_line (wit_entry 0xE5 32), Pos_line 192])"
  using fat_listing [OF wit_img_def, where fuel = 2 and es = "[wit_entry 65 1, wit_entry 0xE5 32]" and post = "replicate 63 0"] wit_img_parts
  by (simp add: good_entry_def wit_entry_def INT_MAX_def)

definition wit_fs :: fat_fs where
  "wit_fs = \<lparr>BytsPerSec = 64, SecPerClus = 4, RsvdSecCnt = 1, NumFATs = 2, TotSec32 = 16, FATSz32 = 1, RootClus = 2, cluster_size = 256,
     fat_table = Some (replicate 8 0 @ [3, 0, 0, 0, 255, 255, 255, 15]), cluster_begin_addr = 0,
     fs_img = replicate 256 1 @ replicate 256 2, fs_pos = 0, fs_out = []\<rparr>"

lemma wit_chain: "fat_cluster_get_next wit_fs 2 = Inr 3" "fat_cluster_get_next wit_fs 3 = Inr (- 1)"
  by code_simp+

lemma wit_clusters: "has_cluster wit_fs 2 (replicate 256 1)" "has_cluster wit_fs 3 (replicate 256 2)"
  by (simp_all add: has_cluster_def wit_fs_def f_read_def INT_MAX_def)

lemma fat_contents_witness:
  "\<exists>fs'. fat_file_get_contents 2 wit_fs ((fat_file_open 2)\<lparr>ff_size := 300\<rparr>) = Inr (Some (fs', replicate 256 2 @ replicate 256 0))"
  using fat_contents [of "[2, 3]" wit_fs 2 "[replicate 256 1, replicate 256 2]" "(fat_file_open 2)\<lparr>ff_size := 300\<rparr>"] wit_chain wit_clusters
  by (simp add: All_less_Suc2 numeral_2_eq_2 fat_file_open_def wit_fs_def INT_MAX_def)

end
