(* ===== verification/GrowServer.thy ===== *)
theory GrowServer
  imports UuidServer
begin

section \<open>The id server with growing buffers (redis-uuid/redis-realloc.c)\<close>

text \<open>
  A variant of the id server whose clients hold pointers to buffers instead of arrays: the request buffer grows by
  64 bytes with every read, the reply buffer is allocated for each answer. The theory follows the allocations:
  \<open>gs_bufs\<close> is how many buffers of clients are allocated. \<open>grow_overread\<close> gives the one input on which a
  handler leaves its buffer, \<open>grow_leak\<close> counts the buffers that are lost.
\<close>

subsection \<open>State\<close>

datatype gproc = AcceptHandler_g | ReadQuery_g | SendReply_g

record gclient =
  gc_fd :: int
  gc_rbuf :: "string option"
  gc_wbuf :: "string option"
  gc_rlen :: nat
  gc_wlen :: nat
  gc_wpos :: nat
  gc_last :: int

record gserver = "(gproc, gclient) conns" +
  gs_maxclients :: "32 word"
  gs_numconnections :: int
  gs_mid :: "64 word"
  gs_sid :: "64 word"
  gs_bufs :: nat

definition READ_BUF_LEN_g :: nat where "READ_BUF_LEN_g = 64"
definition MAX_READ_BUF_LEN :: nat where "MAX_READ_BUF_LEN = 128"

definition get_uuid_g :: "int \<Rightarrow> 64 word \<Rightarrow> 64 word \<Rightarrow> 64 word \<times> 64 word" where
  "get_uuid_g now mid sid =
     (let uuid = push_bit 32 (word_of_int now) + push_bit 24 mid; sid1 = sid + 1
      in (uuid + sid1 mod (2 ^ 24), sid1))"

subsection \<open>Requests\<close>

text \<open>\<open>mem\<close> says whether \<open>calloc\<close> answers memory for the reply.\<close>

definition ProcessRequestBuffer_g :: "bool \<Rightarrow> int \<Rightarrow> gclient \<Rightarrow> gserver \<Rightarrow> (int \<times> gclient \<times> gserver) res" where
  "ProcessRequestBuffer_g mem now c s = (case gc_rbuf c of
       None \<Rightarrow> Inl Null_deref
     | Some b \<Rightarrow>
        fbind (c_strstr CRLF b) (\<lambda>p. case p of
          None \<Rightarrow> Inr (0, c, s)
        | Some k \<Rightarrow>
           if int k \<noteq> int (gc_rlen c) - 2 then Inr (- 1, c, s)
           else fbind (c_strcaseeq b (''quit'' @ CRLF)) (\<lambda>q.
             if q then Inr (- 2, c, s)
             else fbind (c_strncaseeq b ''get '') (\<lambda>g.
               if \<not> g then Inr (- 1, c, s)
               else if \<not> mem then Inl Null_deref
               else
                 let (u, sid1) = get_uuid_g now (gs_mid s) (gs_sid s);
                     w = c_snprintf 127 (value_reply ''19'' u) (replicate 128 NUL)
                 in fmap (\<lambda>t. (1, c\<lparr>gc_wbuf := Some w, gc_wlen := length t\<rparr>,
                       s\<lparr>gs_sid := sid1, gs_bufs := gs_bufs s + 1\<rparr>)) (c_str w)))))"

subsection \<open>Clients\<close>

text \<open>\<open>freeClient\<close> sets \<open>wbuf\<close> to \<open>NULL\<close> when it has freed \<open>rbuf\<close>, so \<open>wbuf\<close> is freed only when
  there is no \<open>rbuf\<close>.\<close>

definition freeClient_g :: "nat \<Rightarrow> gserver \<Rightarrow> gserver res" where
  "freeClient_g a s =
     fbind (client_at a s) (\<lambda>c.
     fbind (unregister (gc_fd c) AE_READABLE s) (\<lambda>s1.
     fbind (unregister (gc_fd c) AE_WRITABLE s1) (\<lambda>s2.
       let freed = (if gc_rbuf c \<noteq> None then 1 else 0);
           wbuf = (if gc_rbuf c \<noteq> None then None else gc_wbuf c);
           freed1 = (if wbuf \<noteq> None then freed + 1 else freed)
       in Inr (s2\<lparr>sv_open := sv_open s2 - {gc_fd c}, sv_heap := (sv_heap s2)(a := None),
         sv_clients := sv_clients s2 - 1, gs_bufs := gs_bufs s2 - freed1\<rparr>))))"

definition new_client_g :: "int \<Rightarrow> gclient" where
  "new_client_g fd = \<lparr>gc_fd = fd, gc_rbuf = None, gc_wbuf = None, gc_rlen = 0, gc_wlen = 0, gc_wpos = 0, gc_last = 0\<rparr>"

definition createClient_g :: "nat option \<Rightarrow> bool \<Rightarrow> int \<Rightarrow> gserver \<Rightarrow> (nat option \<times> gserver) res" where
  "createClient_g mem ok fd s =
     (case mem of None \<Rightarrow> Inr (None, s)
      | Some a \<Rightarrow>
          fbind (register ok fd AE_READABLE ReadQuery_g (Some a) s) (\<lambda>(r, s1).
            if r = AE_ERR then Inr (None, s1\<lparr>sv_open := sv_open s1 - {fd}\<rparr>)
            else Inr (Some a, (put a (new_client_g fd) s1)\<lparr>sv_clients := sv_clients s1 + 1,
                   sv_sent := (sv_sent s1)(a := [])\<rparr>)))"

definition acceptHandler_g :: "int \<Rightarrow> nat option \<Rightarrow> bool \<Rightarrow> gserver \<Rightarrow> gserver res" where
  "acceptHandler_g cfd mem ok s =
     (if cfd = AE_ERR then Inr s
      else
        fbind (createClient_g mem ok cfd (s\<lparr>sv_open := insert cfd (sv_open s)\<rparr>)) (\<lambda>(r, s1).
        case r of
          None \<Rightarrow> Inr (s1\<lparr>sv_open := sv_open s1 - {cfd}\<rparr>)
        | Some a \<Rightarrow>
            if gs_maxclients s1 \<noteq> 0 \<and> sv_clients s1 > gs_maxclients s1
            then freeClient_g a (s1\<lparr>sv_sent := (sv_sent s1)(a :=
              sv_sent s1 a @ ''-ERR max number of clients reached'' @ CRLF)\<rparr>)
            else Inr (s1\<lparr>gs_numconnections := gs_numconnections s1 + 1\<rparr>)))"

definition processInputBuffer_g :: "bool \<Rightarrow> int \<Rightarrow> bool \<Rightarrow> nat \<Rightarrow> gserver \<Rightarrow> gserver res" where
  "processInputBuffer_g mem now ok a s =
     fbind (client_at a s) (\<lambda>c.
     fbind (ProcessRequestBuffer_g mem now c s) (\<lambda>(v, c1, s0).
       let s1 = put a c1 s0 in
       if v = - 1 then freeClient_g a s1
       else fbind (if v = - 2 then freeClient_g a s1 else Inr s1) (\<lambda>s2.
         if v = 0 then Inr s2
         else if v = 1 then
           fbind (unregister (gc_fd c) AE_READABLE s2) (\<lambda>s3.
           fmap snd (register ok (gc_fd c) AE_WRITABLE SendReply_g (Some a) s3))
         else Inr s2)))"

text \<open>\<open>realloc\<close> to \<open>rlen + 64\<close> bytes and \<open>memset\<close> of the last 64.\<close>

definition grow_rbuf_g :: "string option \<Rightarrow> nat \<Rightarrow> string res" where
  "grow_rbuf_g b n = (let old = (case b of None \<Rightarrow> [] | Some x \<Rightarrow> x) in
     if length old < n then Inl Indeterminate_value else Inr (take n old @ replicate READ_BUF_LEN_g NUL))"

text \<open>A failing \<open>realloc\<close> ends the program through \<open>oom\<close>.\<close>

definition readQueryFromClient_g :: "uread \<Rightarrow> bool \<Rightarrow> bool \<Rightarrow> int \<Rightarrow> bool \<Rightarrow> nat \<Rightarrow> gserver \<Rightarrow> gserver res" where
  "readQueryFromClient_g ans rmem mem now ok a s =
     fbind (client_at a s) (\<lambda>c.
     if \<not> rmem then Inl Out_of_memory
     else fbind (grow_rbuf_g (gc_rbuf c) (gc_rlen c)) (\<lambda>b.
       let s0 = (put a (c\<lparr>gc_rbuf := Some b\<rparr>) s)\<lparr>gs_bufs := gs_bufs s + (if gc_rbuf c = None then 1 else 0)\<rparr>
       in case ans of
         Ur_error \<Rightarrow> freeClient_g a s0
       | Ur_again \<Rightarrow> Inr s0
       | Ur_bytes data \<Rightarrow>
           if data = [] then freeClient_g a s0
           else fbind (store_at b (int (gc_rlen c)) data) (\<lambda>b1.
             let c1 = c\<lparr>gc_rbuf := Some b1, gc_rlen := gc_rlen c + length data\<rparr> in
             if gc_rlen c1 > MAX_READ_BUF_LEN then freeClient_g a (put a c1 s0)
             else processInputBuffer_g mem now ok a (put a (c1\<lparr>gc_last := now\<rparr>) s0))))"

definition resetClient_g :: "bool \<Rightarrow> nat \<Rightarrow> gserver \<Rightarrow> gserver res" where
  "resetClient_g ok a s =
     fbind (client_at a s) (\<lambda>c.
     let freed = (if gc_rbuf c \<noteq> None then 1 else 0) + (if gc_wbuf c \<noteq> None then 1 else 0) in
     fbind (unregister (gc_fd c) AE_WRITABLE
       ((put a (c\<lparr>gc_rbuf := None, gc_wbuf := None, gc_rlen := 0, gc_wpos := 0, gc_wlen := 0\<rparr>) s)\<lparr>gs_bufs := gs_bufs s - freed\<rparr>)) (\<lambda>s1.
     fbind (unregister (gc_fd c) AE_READABLE s1) (\<lambda>s2.
     fmap snd (register ok (gc_fd c) AE_READABLE ReadQuery_g (Some a) s2))))"

definition sendReplyToClient_g :: "uwrite \<Rightarrow> int \<Rightarrow> bool \<Rightarrow> nat \<Rightarrow> gserver \<Rightarrow> gserver res" where
  "sendReplyToClient_g ans now ok a s =
     fbind (client_at a s) (\<lambda>c. case gc_wbuf c of
       None \<Rightarrow> Inl Null_deref
     | Some w \<Rightarrow>
        if gc_wpos c > gc_wlen c \<or> gc_wlen c > length w then Inl Out_of_bounds
        else case ans of
          Uw_error \<Rightarrow> freeClient_g a s
        | Uw_again \<Rightarrow> if gc_wpos c = gc_wlen c then resetClient_g ok a s else Inr s
        | Uw_bytes n \<Rightarrow>
            let c1 = (if 0 < n then c\<lparr>gc_last := now, gc_wpos := gc_wpos c + n\<rparr> else c);
                s1 = (put a c1 s)\<lparr>sv_sent := (sv_sent s)(a := sv_sent s a @ take n (drop (gc_wpos c) w))\<rparr>
            in if gc_wpos c1 = gc_wlen c1 then resetClient_g ok a s1 else Inr s1)"

subsection \<open>Starting and running\<close>

text \<open>The options and their defaults are those of \<open>redis-ckw\<close>.\<close>

definition initServerConfig_g :: uconfig where
  "initServerConfig_g = \<lparr>uf_port = 6376, uf_verbosity = 4, uf_daemonize = False, uf_bindaddr = None,
     uf_maxclients = 1024, uf_mid = 0\<rparr>"

definition main_g :: "(char \<times> string) list \<Rightarrow> (int + uconfig) res" where
  "main_g args = fmap (\<lambda>r. case r of Inl e \<Rightarrow> Inl e
     | Inr f \<Rightarrow> if uf_mid f < 1 \<or> uf_mid f > 255 then Inl 1 else Inr f)
     (opt_loop 1 255 args initServerConfig_g)"

definition initServer_g :: "int \<Rightarrow> uconfig \<Rightarrow> gserver res" where
  "initServer_g lfd f =
     (let s = \<lparr>sv_el = new_loop, sv_clients = 0, sv_heap = (\<lambda>_. None), sv_open = {lfd}, sv_sent = (\<lambda>_. []),
        gs_maxclients = uf_maxclients f, gs_numconnections = 0, gs_mid = uf_mid f, gs_sid = 0, gs_bufs = 0\<rparr>
      in fbind (register True lfd AE_READABLE AcceptHandler_g None s) (\<lambda>(r, s1).
         if r = AE_ERR then Inl Out_of_memory else Inr s1))"

datatype ganswer =
    Ga_accept int "nat option" bool
  | Ga_read uread bool bool int bool
  | Ga_write uwrite int bool

definition run_handler_g :: "gproc \<Rightarrow> nat option \<Rightarrow> ganswer \<Rightarrow> gserver \<Rightarrow> gserver res" where
  "run_handler_g p d ans s =
     (case (p, d, ans) of
        (AcceptHandler_g, _, Ga_accept cfd mem ok) \<Rightarrow> acceptHandler_g cfd mem ok s
      | (ReadQuery_g, Some a, Ga_read r rmem mem now ok) \<Rightarrow> readQueryFromClient_g r rmem mem now ok a s
      | (SendReply_g, Some a, Ga_write w now ok) \<Rightarrow> sendReplyToClient_g w now ok a s
      | _ \<Rightarrow> Inl Null_deref)"

text \<open>What the kernel answers; memory for the buffers is there.\<close>

fun answer_ok_g :: "gproc \<Rightarrow> nat option \<Rightarrow> ganswer \<Rightarrow> gserver \<Rightarrow> bool" where
  "answer_ok_g AcceptHandler_g d (Ga_accept cfd mem ok) s \<longleftrightarrow>
     cfd = - 1 \<or> (0 \<le> cfd \<and> cfd \<notin> sv_open s \<and> (\<forall>a. mem = Some a \<longrightarrow> sv_heap s a = None))"
| "answer_ok_g ReadQuery_g d (Ga_read r rmem mem now ok) s \<longleftrightarrow> ok \<and> rmem \<and> mem
     \<and> (\<forall>data. r = Ur_bytes data \<longrightarrow> length data \<le> READ_BUF_LEN_g)"
| "answer_ok_g SendReply_g d (Ga_write w now ok) s \<longleftrightarrow> ok
     \<and> (\<forall>n a c. w = Uw_bytes n \<longrightarrow> d = Some a \<longrightarrow> sv_heap s a = Some c \<longrightarrow> n \<le> gc_wlen c - gc_wpos c)"
| "answer_ok_g p d ans s \<longleftrightarrow> False"

text \<open>A reply that cannot be written ends the client; the number counts how often that has happened.\<close>

definition drops :: "ganswer \<Rightarrow> nat" where
  "drops ans = (case ans of Ga_write Uw_error now ok \<Rightarrow> 1 | _ \<Rightarrow> 0)"

inductive reachable_g :: "int \<Rightarrow> uconfig \<Rightarrow> nat \<Rightarrow> gserver \<Rightarrow> bool" for lfd f where
  start_g: "initServer_g lfd f = Inr s \<Longrightarrow> reachable_g lfd f 0 s"
| step_g: "\<lbrakk>reachable_g lfd f n s; registered (sv_el s) p fd msk;
     answer_ok_g p (fe_clientData (el_events (sv_el s) fd)) ans s;
     run_handler_g p (fe_clientData (el_events (sv_el s) fd)) ans s = Inr s'\<rbrakk> \<Longrightarrow> reachable_g lfd f (n + drops ans) s'"

section \<open>The handlers keep their buffers\<close>

definition idle_g :: "gclient \<Rightarrow> bool" where
  "idle_g c \<longleftrightarrow> gc_wbuf c = None \<and> gc_wlen c = 0 \<and> gc_wpos c = 0
     \<and> (case gc_rbuf c of None \<Rightarrow> gc_rlen c = 0 | Some b \<Rightarrow> gc_rlen c \<le> length b)"

definition answering_g :: "gclient \<Rightarrow> bool" where
  "answering_g c \<longleftrightarrow> gc_rbuf c \<noteq> None \<and> (\<exists>w. gc_wbuf c = Some w \<and> gc_wlen c \<le> length w) \<and> gc_wpos c \<le> gc_wlen c"

fun client_ok_g :: "(gproc, nat) aeEventLoop \<Rightarrow> string \<Rightarrow> nat \<Rightarrow> gclient \<Rightarrow> ustage \<Rightarrow> bool" where
  "client_ok_g L out a c Reading_u \<longleftrightarrow> entry L (gc_fd c) AE_READABLE ReadQuery_g (Some a) \<and> idle_g c"
| "client_ok_g L out a c Writing_u \<longleftrightarrow> entry L (gc_fd c) AE_WRITABLE SendReply_g (Some a) \<and> answering_g c"

lemma stage_mask_g: "client_ok_g L out a c g \<Longrightarrow> mask_of L (gc_fd c) \<in> {0, 1, 2}"
  by (cases g) (auto simp: entry_def)

interpretation gs: client_table gc_fd client_ok_g
proof unfold_locales
  show "client_ok_g L' out a c g = client_ok_g L out a c g"
    if "el_events L' (gc_fd c) = el_events L (gc_fd c)" for L' L out a c g
    using that by (cases g) (simp_all add: entry_def)
qed (rule stage_mask_g)

abbreviation gs_inv :: "int \<Rightarrow> (nat \<Rightarrow> ustage option) \<Rightarrow> gserver \<Rightarrow> bool" where
  "gs_inv lfd \<equiv> cli_inv [lfd \<mapsto> AcceptHandler_g] gc_fd client_ok_g"

subsection \<open>Buffers held by the clients\<close>

definition nbufs :: "gclient \<Rightarrow> nat" where
  "nbufs c = (if gc_rbuf c \<noteq> None then 1 else 0) + (if gc_wbuf c \<noteq> None then 1 else 0)"

definition held :: "(nat \<Rightarrow> gclient option) \<Rightarrow> nat" where
  "held h = (\<Sum>a \<in> dom h. nbufs (the (h a)))"

lemma held_free:
  assumes "finite (dom h)" "h a = Some c"
  shows "held h = held (h(a := None)) + nbufs c"
proof -
  have "a \<in> dom h" "dom (h(a := None)) = dom h - {a}" using assms by auto
  moreover have "(\<Sum>b \<in> dom h - {a}. nbufs (the ((h(a := None)) b))) = (\<Sum>b \<in> dom h - {a}. nbufs (the (h b)))"
    by (rule sum.cong) auto
  ultimately show ?thesis using assms unfolding held_def by (simp add: sum.remove)
qed

lemma held_new: "finite (dom h) \<Longrightarrow> h a = None \<Longrightarrow> held (h(a \<mapsto> c)) = held h + nbufs c"
  using held_free [of "h(a \<mapsto> c)" a c] by (simp add: fun_upd_idem)

lemma held_put:
  assumes "finite (dom h)" "h a = Some c"
  shows "held (h(a \<mapsto> c')) + nbufs c = held h + nbufs c'"
  using held_free [OF assms] held_free [of "h(a \<mapsto> c')" a c'] assms(1) by simp

definition gs_ok :: "int \<Rightarrow> nat \<Rightarrow> gserver \<Rightarrow> bool" where
  "gs_ok lfd n s \<longleftrightarrow> (\<exists>st. gs_inv lfd st s) \<and> gs_bufs s = n + held (sv_heap s)"

lemma gs_finite: "gs_inv lfd st s \<Longrightarrow> finite (dom (sv_heap s))"
  by (simp add: cli_inv_def fd_inv_def)

lemma client_stage_g: "gs_inv lfd st s \<Longrightarrow> sv_heap s a = Some c \<Longrightarrow> \<exists>g. st a = Some g \<and> client_ok_g (sv_el s) (sv_sent s a) a c g"
  by (rule gs.cli_fd(6))

lemma client_reading_g: "gs_inv lfd st s \<Longrightarrow> sv_heap s a = Some c \<Longrightarrow> st a = Some Reading_u \<Longrightarrow>
    entry (sv_el s) (gc_fd c) AE_READABLE ReadQuery_g (Some a) \<and> idle_g c"
  using client_stage_g [of lfd st s a c] by auto

lemma client_writing_g: "gs_inv lfd st s \<Longrightarrow> sv_heap s a = Some c \<Longrightarrow> st a = Some Writing_u \<Longrightarrow>
    entry (sv_el s) (gc_fd c) AE_WRITABLE SendReply_g (Some a) \<and> answering_g c"
  using client_stage_g [of lfd st s a c] by auto

subsection \<open>Clients that go\<close>

text \<open>A client with two buffers gives back one.\<close>

lemma free_g:
  assumes inv: "gs_inv lfd st s" and a: "sv_heap s a = Some c" and n: "gs_bufs s = n + held (sv_heap s)"
  shows "\<exists>s'. freeClient_g a s = Inr s' \<and> gs_ok lfd (n + (if nbufs c = 2 then 1 else 0)) s'"
proof -
  obtain L1 L where L: "unregister (gc_fd c) AE_READABLE s = Inr (s\<lparr>sv_el := L1\<rparr>)"
    "unregister (gc_fd c) AE_WRITABLE (s\<lparr>sv_el := L1\<rparr>) = Inr (s\<lparr>sv_el := L\<rparr>)"
    "loop_inv L" "\<forall>g. g \<noteq> gc_fd c \<longrightarrow> el_events L g = el_events (sv_el s) g" "mask_of L (gc_fd c) = 0"
    using gs.close_client [OF inv a] by blast
  define fr where "fr = (if gc_rbuf c \<noteq> None \<or> gc_wbuf c \<noteq> None then 1 else 0 :: nat)"
  let ?s = "s\<lparr>sv_el := L, sv_open := sv_open s - {gc_fd c}, sv_heap := (sv_heap s)(a := None),
    sv_clients := sv_clients s - 1, gs_bufs := gs_bufs s - fr\<rparr>"
  have "freeClient_g a s = Inr ?s" using a L(1,2) by (auto simp: freeClient_g_def fr_def)
  moreover have "gs_inv lfd (st(a := None)) ?s"
    using L by (intro gs.cli_free [OF inv a]) auto
  moreover have "gs_bufs s - fr = n + (if nbufs c = 2 then 1 else 0) + held ((sv_heap s)(a := None))"
    unfolding n held_free [OF gs_finite [OF inv] a] by (auto simp: nbufs_def fr_def)
  ultimately show ?thesis by (auto simp: gs_ok_def)
qed

lemma free_idle_g:
  assumes "gs_inv lfd st s" "sv_heap s a = Some c" "gs_bufs s = n + held (sv_heap s)" "gc_wbuf c = None"
  shows "\<exists>s'. freeClient_g a s = Inr s' \<and> gs_ok lfd n s'"
  using free_g [OF assms(1-3)] assms(4) by (simp add: nbufs_def split: if_splits)

subsection \<open>Requests\<close>

text \<open>The client's data may change while it waits for a request.\<close>

lemma put_idle_g:
  assumes inv: "gs_inv lfd st s" and a: "sv_heap s a = Some c" "st a = Some Reading_u"
    and c': "gc_fd c' = gc_fd c" "idle_g c'" and s': "conns.truncate s' = conns.truncate (put a c' s)"
  shows "gs_inv lfd st s'"
proof -
  note ok = client_reading_g [OF inv a]
  have s: "sv_el s' = sv_el s" "sv_sent s' = sv_sent s" "sv_heap s' = (sv_heap s)(a \<mapsto> c')" "sv_open s' = sv_open s"
    "sv_clients s' = sv_clients s"
    using s' by (simp_all add: truncate_eq)
  have "gs_inv lfd (st(a \<mapsto> Reading_u)) s'"
    using gs.cli_fd(5) [OF inv a(1)] c' s ok by (intro gs.cli_update [OF inv a(1), where c' = c']) auto
  then show ?thesis using a(2) by (simp add: fun_upd_idem)
qed

lemma start_writing_g:
  assumes inv: "gs_inv lfd st s" and a: "sv_heap s a = Some c" "st a = Some Reading_u"
    and c': "gc_fd c' = gc_fd c" "answering_g c'"
    and s': "conns.truncate s' = conns.truncate (put a c' s)" "gs_bufs s' = n + held (sv_heap s')"
  shows "\<exists>s2 r s3. unregister (gc_fd c) AE_READABLE s' = Inr s2
    \<and> register True (gc_fd c) AE_WRITABLE SendReply_g (Some a) s2 = Inr (r, s3) \<and> gs_ok lfd n s3"
proof -
  note ok = client_reading_g [OF inv a]
  have s: "sv_el s' = sv_el s" "sv_sent s' = sv_sent s" "sv_heap s' = (sv_heap s)(a \<mapsto> c')" "sv_open s' = sv_open s"
    "sv_clients s' = sv_clients s"
    using s'(1) by (simp_all add: truncate_eq)
  have li: "loop_inv (sv_el s')" using gs.cli_fd(5) [OF inv a(1)] s(1) by simp
  obtain L where L: "unregister (gc_fd c) AE_READABLE s' = Inr (s'\<lparr>sv_el := L\<rparr>)" "loop_inv L"
    "\<forall>g. g \<noteq> gc_fd c \<longrightarrow> el_events L g = el_events (sv_el s) g" "mask_of L (gc_fd c) = mask_of (sv_el s) (gc_fd c) AND NOT 1"
    using unregister_ok [OF li gs.cli_fd(1) [OF inv a(1)], of 1] s(1) by auto
  have "loop_inv (sv_el (s'\<lparr>sv_el := L\<rparr>))" using L(2) by simp
  from register_ok [OF this gs.cli_fd(1,2) [OF inv a(1)], of AE_WRITABLE SendReply_g "Some a"]
  obtain L2 where L2: "register True (gc_fd c) AE_WRITABLE SendReply_g (Some a) (s'\<lparr>sv_el := L\<rparr>)
      = Inr (AE_OK, s'\<lparr>sv_el := L2\<rparr>)" "loop_inv L2"
    "el_events L2 = (el_events L)(gc_fd c := reg_entry (el_events L (gc_fd c)) AE_WRITABLE SendReply_g (Some a))"
    by auto
  have "mask_of L (gc_fd c) = 0" using L(4) ok by (simp add: entry_def)
  then have "client_ok_g L2 (sv_sent s a) a c' Writing_u"
    using L2(3) c'(1,2) by (simp add: entry_def reg_entry_def)
  then have "gs_inv lfd (st(a \<mapsto> Writing_u)) (s'\<lparr>sv_el := L2\<rparr>)"
    using L(3) L2(2,3) c'(1) s by (intro gs.cli_update [OF inv a(1), where c' = c']) auto
  then have "gs_ok lfd n (s'\<lparr>sv_el := L2\<rparr>)" using s'(2) by (auto simp: gs_ok_def)
  then show ?thesis using L(1) L2(1) by blast
qed

subsection \<open>Scans\<close>

definition no_line :: "string \<Rightarrow> bool" where
  "no_line b \<longleftrightarrow> NUL \<notin> set b \<and> (\<nexists>x y. b = x @ CRLF @ y)"

lemma strstr_overread: "if no_line b then c_strstr CRLF b = Inl Out_of_bounds else (\<exists>r. c_strstr CRLF b = Inr r)"
proof (induction b)
  case Nil
  then show ?case by (simp add: no_line_def)
next
  case (Cons c b)
  show ?case
  proof (cases "take 2 (c # b) = CRLF")
    case True
    then have "c # b = [] @ CRLF @ drop 2 (c # b)" by (metis append_Nil append_take_drop_id)
    then have "\<not> no_line (c # b)" unfolding no_line_def by blast
    then show ?thesis using True by simp
  next
    case False
    have "no_line (c # b) \<longleftrightarrow> c \<noteq> NUL \<and> no_line b"
    proof
      assume l: "no_line (c # b)"
      have "\<nexists>x y. b = x @ CRLF @ y" using l unfolding no_line_def by (metis append_Cons)
      then show "c \<noteq> NUL \<and> no_line b" using l by (auto simp: no_line_def)
    next
      assume r: "c \<noteq> NUL \<and> no_line b"
      have "c # b \<noteq> x @ CRLF @ y" for x y
        using False r by (cases x) (auto simp: no_line_def)
      then show "no_line (c # b)" using r by (auto simp: no_line_def)
    qed
    then show ?thesis
      using False Cons.IH by (auto split: if_splits)
  qed
qed

lemma strstr_cases:
  "no_line b \<Longrightarrow> c_strstr CRLF b = Inl Out_of_bounds" "\<not> no_line b \<Longrightarrow> \<exists>r. c_strstr CRLF b = Inr r"
  using strstr_overread [of b] by simp_all

lemma no_line_nul: "no_line (b @ replicate k NUL) \<longleftrightarrow> k = 0 \<and> no_line b"
  by (cases k) (auto simp: no_line_def)

lemma strcaseeq_long: "length lit < length b \<Longrightarrow> \<exists>q. c_strcaseeq b lit = Inr q"
proof (induction b arbitrary: lit)
  case (Cons c b)
  then show ?case by (cases lit) auto
qed simp

lemma strncaseeq_long: "length lit \<le> length b \<Longrightarrow> \<exists>q. c_strncaseeq b lit = Inr q"
proof (induction b arbitrary: lit)
  case (Cons c b)
  then show ?case by (cases lit) auto
qed (auto intro: exI [of _ True])

lemma process_total_g:
  assumes "gc_rbuf c = Some b" "64 \<le> length b" "idle_g c" "\<not> no_line b"
  shows "\<exists>v c' s'. ProcessRequestBuffer_g True now c s = Inr (v, c', s') \<and> v \<in> {0, 1, - 1, - 2} \<and> gc_fd c' = gc_fd c
    \<and> conns.truncate s' = conns.truncate s \<and> (v \<noteq> 1 \<longrightarrow> c' = c \<and> gs_bufs s' = gs_bufs s)
    \<and> (v = 1 \<longrightarrow> answering_g c' \<and> nbufs c' = nbufs c + 1 \<and> gs_bufs s' = gs_bufs s + 1)"
proof -
  obtain p where p: "c_strstr CRLF b = Inr p" using strstr_cases(2) [OF assms(4)] by blast
  obtain q where q: "c_strcaseeq b (''quit'' @ CRLF) = Inr q"
    using strcaseeq_long [of "''quit'' @ CRLF" b] assms(2) by auto
  obtain g where g: "c_strncaseeq b ''get '' = Inr g"
    using strncaseeq_long [of "''get ''" b] assms(2) by auto
  let ?u = "fst (get_uuid_g now (gs_mid s) (gs_sid s))"
  let ?w = "c_snprintf 127 (value_reply ''19'' ?u) (replicate 128 NUL)"
  have w: "c_str ?w = Inr (value_reply ''19'' ?u)" by (intro value_fits) simp_all
  let ?c = "c\<lparr>gc_wbuf := Some ?w, gc_wlen := length (value_reply ''19'' ?u)\<rparr>"
  have i: "gc_wbuf c = None" "gc_wpos c = 0" using assms(3) by (auto simp: idle_g_def)
  have "answering_g ?c" "nbufs ?c = nbufs c + 1"
    using assms(1) i c_str_length [OF w] by (simp_all add: answering_g_def nbufs_def)
  then show ?thesis
    using p q g w assms(1)
    by (cases p; cases q; cases g) (simp_all add: ProcessRequestBuffer_g_def Let_def case_prod_beta conns.defs)
qed

lemma process_g:
  assumes inv: "gs_inv lfd st s" and a: "sv_heap s a = Some c" "st a = Some Reading_u"
    and b: "gc_rbuf c = Some b" "64 \<le> length b" "idle_g c" and n: "gs_bufs s = n + held (sv_heap s)"
  shows "if no_line b then processInputBuffer_g True now True a s = Inl Out_of_bounds
    else \<exists>s'. processInputBuffer_g True now True a s = Inr s' \<and> gs_ok lfd n s'"
proof (cases "no_line b")
  case True
  then show ?thesis using a(1) b(1) strstr_cases(1) [OF True] by (simp add: processInputBuffer_g_def ProcessRequestBuffer_g_def)
next
  case False
  obtain v c' s0 where p: "ProcessRequestBuffer_g True now c s = Inr (v, c', s0)" "v \<in> {0, 1, - 1, - 2}" "gc_fd c' = gc_fd c"
    "conns.truncate s0 = conns.truncate s" "v \<noteq> 1 \<longrightarrow> c' = c \<and> gs_bufs s0 = gs_bufs s"
    "v = 1 \<longrightarrow> answering_g c' \<and> nbufs c' = nbufs c + 1 \<and> gs_bufs s0 = gs_bufs s + 1"
    using process_total_g [OF b False, of now s] by blast
  let ?s = "put a c' s0"
  have t: "conns.truncate ?s = conns.truncate (put a c' s)" and h: "sv_heap ?s = (sv_heap s)(a \<mapsto> c')"
    using p(4) by (simp_all add: truncate_eq)
  have bufs: "gs_bufs ?s = gs_bufs s0" by (simp add: put_def)
  have run: "processInputBuffer_g True now True a s = (if v = - 1 then freeClient_g a ?s
       else fbind (if v = - 2 then freeClient_g a ?s else Inr ?s) (\<lambda>s2. if v = 0 then Inr s2 else if v = 1 then
         fbind (unregister (gc_fd c) AE_READABLE s2) (\<lambda>s3. fmap snd (register True (gc_fd c) AE_WRITABLE SendReply_g (Some a) s3))
       else Inr s2))"
    using a(1) p(1) by (simp add: processInputBuffer_g_def Let_def)
  have idle: "gs_inv lfd st ?s" "gs_bufs ?s = n + held (sv_heap ?s)" if "v \<noteq> 1"
  proof -
    have c: "c' = c" using p(5) that by simp
    show "gs_inv lfd st ?s" using put_idle_g [OF inv a p(3) _ t] b(3) c by simp
    have "sv_heap ?s = sv_heap s" using p(4) c a(1) by (simp add: truncate_eq fun_upd_idem)
    then show "gs_bufs ?s = n + held (sv_heap ?s)" using n bufs p(5) that by simp
  qed
  have wbuf: "gc_wbuf c = None" using b(3) by (simp add: idle_g_def)
  consider "v = 0" | "v = 1" | "v = - 1 \<or> v = - 2" using p(2) by auto
  then have "\<exists>s'. processInputBuffer_g True now True a s = Inr s' \<and> gs_ok lfd n s'"
  proof cases
    case 1
    then show ?thesis using idle run by (auto simp: gs_ok_def)
  next
    case 2
    have "held (sv_heap ?s) = held (sv_heap s) + 1"
      using held_put [OF gs_finite [OF inv] a(1), of c'] p(6) 2 h by simp
    then have "gs_bufs ?s = n + held (sv_heap ?s)" using n p(6) 2 bufs by simp
    from start_writing_g [OF inv a p(3) _ t this] p(6) 2 obtain s2 r s3 where
      "unregister (gc_fd c) AE_READABLE ?s = Inr s2" "register True (gc_fd c) AE_WRITABLE SendReply_g (Some a) s2 = Inr (r, s3)"
      "gs_ok lfd n s3" by blast
    then show ?thesis using run 2 by simp
  next
    case 3
    then have v: "v \<noteq> 1" "c' = c" using p(5) by auto
    have "\<exists>s'. freeClient_g a ?s = Inr s' \<and> gs_ok lfd n s'"
      by (rule free_idle_g [OF idle(1) _ idle(2)]) (use v wbuf in simp_all)
    then show ?thesis using 3 run by auto
  qed
  then show ?thesis using False by simp
qed

subsection \<open>Reading\<close>

definition received :: "gclient \<Rightarrow> string" where
  "received c = (case gc_rbuf c of None \<Rightarrow> [] | Some b \<Rightarrow> take (gc_rlen c) b)"

text \<open>A read fills the room it was offered, and nothing in the buffer ends the line or the string.\<close>

definition overread :: "gclient \<Rightarrow> string \<Rightarrow> bool" where
  "overread c data \<longleftrightarrow> length data = READ_BUF_LEN_g \<and> gc_rlen c + READ_BUF_LEN_g \<le> MAX_READ_BUF_LEN \<and> no_line (received c @ data)"

lemma grow_idle: "idle_g c \<Longrightarrow> grow_rbuf_g (gc_rbuf c) (gc_rlen c) = Inr (received c @ replicate 64 NUL) \<and> length (received c) = gc_rlen c"
  by (auto simp: idle_g_def grow_rbuf_g_def received_def READ_BUF_LEN_g_def split: option.splits)

lemma read_g:
  assumes inv: "gs_inv lfd st s" and a: "sv_heap s a = Some c" "st a = Some Reading_u"
    and d: "\<And>d. r = Ur_bytes d \<Longrightarrow> length d \<le> READ_BUF_LEN_g" and n: "gs_bufs s = n + held (sv_heap s)"
  shows "if \<exists>d. r = Ur_bytes d \<and> overread c d then readQueryFromClient_g r True True now True a s = Inl Out_of_bounds
    else \<exists>s'. readQueryFromClient_g r True True now True a s = Inr s' \<and> gs_ok lfd n s'"
proof -
  have i: "idle_g c" using client_reading_g [OF inv a] by blast
  let ?b = "received c @ replicate 64 NUL"
  let ?s0 = "(put a (c\<lparr>gc_rbuf := Some ?b\<rparr>) s)\<lparr>gs_bufs := gs_bufs s + (if gc_rbuf c = None then 1 else 0)\<rparr>"
  have put: "gs_inv lfd st (put a c' ?s0)" "gs_bufs (put a c' ?s0) = n + held (sv_heap (put a c' ?s0))"
    "sv_heap (put a c' ?s0) a = Some c'" if "gc_fd c' = gc_fd c" "idle_g c'" "gc_rbuf c' \<noteq> None" for c'
  proof -
    show "gs_inv lfd st (put a c' ?s0)" by (rule put_idle_g [OF inv a that(1,2)]) (simp add: truncate_eq)
    have "nbufs c' = nbufs c + (if gc_rbuf c = None then 1 else 0)"
      using that i by (simp add: nbufs_def idle_g_def)
    then show "gs_bufs (put a c' ?s0) = n + held (sv_heap (put a c' ?s0))"
      using held_put [OF gs_finite [OF inv] a(1), of c'] n by (simp add: put_def)
  qed simp
  let ?c0 = "c\<lparr>gc_rbuf := Some ?b\<rparr>"
  have c0: "put a ?c0 ?s0 = ?s0" by (simp add: put_def)
  have i0: "idle_g ?c0" using i grow_idle [OF i] by (auto simp: idle_g_def split: option.splits)
  have p0: "gs_inv lfd st ?s0" "gs_bufs ?s0 = n + held (sv_heap ?s0)" "sv_heap ?s0 a = Some ?c0"
    using put [of ?c0, OF _ i0] unfolding c0 by simp_all
  have free0: "\<exists>s'. freeClient_g a ?s0 = Inr s' \<and> gs_ok lfd n s'"
    using i0 by (intro free_idle_g [OF p0(1) p0(3) p0(2)]) (simp add: idle_g_def)
  show ?thesis
  proof (cases r)
    case (Ur_bytes d)
    let ?b1 = "received c @ d @ replicate (64 - length d) NUL"
    have len: "length d \<le> 64" using d [OF Ur_bytes] by (simp add: READ_BUF_LEN_g_def)
    have st: "store_at ?b (int (gc_rlen c)) d = Inr ?b1"
      using grow_idle [OF i] len by (simp add: store_at_def)
    let ?c1 = "c\<lparr>gc_rbuf := Some ?b1, gc_rlen := gc_rlen c + length d\<rparr>"
    have i1: "idle_g ?c1" "idle_g (?c1\<lparr>gc_last := now\<rparr>)" using i grow_idle [OF i] len by (simp_all add: idle_g_def)
    have run: "readQueryFromClient_g r True True now True a s = (if d = [] then freeClient_g a ?s0
      else if gc_rlen c + length d > 128 then freeClient_g a (put a ?c1 ?s0)
      else processInputBuffer_g True now True a (put a (?c1\<lparr>gc_last := now\<rparr>) ?s0))"
      using a(1) grow_idle [OF i] st Ur_bytes by (simp add: readQueryFromClient_g_def Let_def MAX_READ_BUF_LEN_def)
    have nl: "no_line ?b1 \<longleftrightarrow> length d = 64 \<and> no_line (received c @ d)"
      using no_line_nul [of "received c @ d" "64 - length d"] len by auto
    have ov: "overread c d \<longleftrightarrow> d \<noteq> [] \<and> gc_rlen c + length d \<le> 128 \<and> no_line ?b1"
      unfolding nl by (auto simp: overread_def READ_BUF_LEN_g_def MAX_READ_BUF_LEN_def)
    consider "d = []" | "d \<noteq> []" "gc_rlen c + length d > 128" | "d \<noteq> []" "gc_rlen c + length d \<le> 128" by linarith
    then show ?thesis
    proof cases
      case 1
      then show ?thesis using run free0 ov Ur_bytes by simp
    next
      case 2
      note p1 = put [of ?c1, OF _ i1(1)]
      have "\<exists>s'. freeClient_g a (put a ?c1 ?s0) = Inr s' \<and> gs_ok lfd n s'"
        using i1(1) by (intro free_idle_g [OF p1(1) p1(3) p1(2)]) (simp_all add: idle_g_def)
      then show ?thesis using run 2 ov Ur_bytes by simp
    next
      case 3
      let ?c2 = "?c1\<lparr>gc_last := now\<rparr>"
      note p2 = put [of ?c2, OF _ i1(2)]
      have "64 \<le> length ?b1" using len by simp
      with process_g [OF p2(1) p2(3) a(2) _ _ i1(2) p2(2), of ?b1 now] show ?thesis
        using run 3 ov Ur_bytes by simp
    qed
  qed (use free0 p0 a(1) grow_idle [OF i] in \<open>auto simp: readQueryFromClient_g_def Let_def gs_ok_def\<close>)
qed

subsection \<open>Writing\<close>

lemma reset_g:
  assumes inv: "gs_inv lfd st s" and a: "sv_heap s a = Some c" "st a = Some Writing_u" and n: "gs_bufs s = n + held (sv_heap s)"
  shows "\<exists>s'. resetClient_g True a s = Inr s' \<and> gs_ok lfd n s'"
proof -
  note ok = client_writing_g [OF inv a]
  let ?c = "c\<lparr>gc_rbuf := None, gc_wbuf := None, gc_rlen := 0, gc_wpos := 0, gc_wlen := 0\<rparr>"
  let ?s = "(put a ?c s)\<lparr>gs_bufs := gs_bufs s - nbufs c\<rparr>"
  have m: "mask_of (sv_el ?s) (gc_fd c) \<in> {0, 1, 2}" "loop_inv (sv_el ?s)"
    using ok gs.cli_fd(5) [OF inv a(1)] by (simp_all add: entry_def)
  obtain L1 L where L: "unregister (gc_fd c) AE_WRITABLE ?s = Inr (?s\<lparr>sv_el := L1\<rparr>)"
    "unregister (gc_fd c) AE_READABLE (?s\<lparr>sv_el := L1\<rparr>) = Inr (?s\<lparr>sv_el := L\<rparr>)"
    "loop_inv L" "\<forall>g. g \<noteq> gc_fd c \<longrightarrow> el_events L g = el_events (sv_el ?s) g" "mask_of L (gc_fd c) = 0"
    using unregister_both [OF m(2) gs.cli_fd(1) [OF inv a(1)] m(1), of AE_WRITABLE AE_READABLE] by auto
  have "loop_inv (sv_el (?s\<lparr>sv_el := L\<rparr>))" using L(3) by simp
  from register_ok [OF this gs.cli_fd(1,2) [OF inv a(1)], of AE_READABLE ReadQuery_g "Some a"]
  obtain L2 where L2: "register True (gc_fd c) AE_READABLE ReadQuery_g (Some a) (?s\<lparr>sv_el := L\<rparr>)
      = Inr (AE_OK, ?s\<lparr>sv_el := L2\<rparr>)" "loop_inv L2"
    "el_events L2 = (el_events L)(gc_fd c := reg_entry (el_events L (gc_fd c)) AE_READABLE ReadQuery_g (Some a))"
    by auto
  have "client_ok_g L2 (sv_sent s a) a ?c Reading_u"
    using L(5) L2(3) by (simp add: entry_def idle_g_def reg_entry_def)
  then have "gs_inv lfd (st(a \<mapsto> Reading_u)) (?s\<lparr>sv_el := L2\<rparr>)"
    using L(4) L2(2,3) by (intro gs.cli_update [OF inv a(1), where c' = ?c]) auto
  moreover have "gs_bufs s - nbufs c = n + held ((sv_heap s)(a \<mapsto> ?c))"
    using held_put [OF gs_finite [OF inv] a(1), of ?c] n by (simp add: nbufs_def)
  ultimately have "gs_ok lfd n (?s\<lparr>sv_el := L2\<rparr>)" by (auto simp: gs_ok_def)
  moreover have "resetClient_g True a s = Inr (?s\<lparr>sv_el := L2\<rparr>)"
    using L(1,2) L2(1) a(1) by (simp add: resetClient_g_def Let_def nbufs_def)
  ultimately show ?thesis by blast
qed

lemma send_g:
  assumes inv: "gs_inv lfd st s" and a: "sv_heap s a = Some c" "st a = Some Writing_u"
    and k: "\<And>k. w = Uw_bytes k \<Longrightarrow> k \<le> gc_wlen c - gc_wpos c" and n: "gs_bufs s = n + held (sv_heap s)"
  shows "\<exists>s'. sendReplyToClient_g w now True a s = Inr s' \<and> gs_ok lfd (n + (if w = Uw_error then 1 else 0)) s'"
proof -
  note ok = client_writing_g [OF inv a]
  obtain b where b: "gc_wbuf c = Some b" "gc_wlen c \<le> length b" "gc_wpos c \<le> gc_wlen c" "gc_rbuf c \<noteq> None"
    using ok by (auto simp: answering_g_def)
  show ?thesis
  proof (cases w)
    case Uw_error
    have "nbufs c = 2" using b by (simp add: nbufs_def)
    then show ?thesis using free_g [OF inv a(1) n] a(1) b Uw_error by (simp add: sendReplyToClient_g_def)
  next
    case Uw_again
    then show ?thesis
      using reset_g [OF inv a n] inv n a b by (auto simp: sendReplyToClient_g_def gs_ok_def)
  next
    case (Uw_bytes m)
    let ?c = "if 0 < m then c\<lparr>gc_last := now, gc_wpos := gc_wpos c + m\<rparr> else c"
    let ?s = "(put a ?c s)\<lparr>sv_sent := (sv_sent s)(a := sv_sent s a @ take m (drop (gc_wpos c) b))\<rparr>"
    have m: "m \<le> gc_wlen c - gc_wpos c" using k Uw_bytes by blast
    have c: "gc_fd ?c = gc_fd c" "gc_wbuf ?c = gc_wbuf c" "gc_wlen ?c = gc_wlen c" "gc_wpos ?c = gc_wpos c + m" "gc_rbuf ?c = gc_rbuf c"
      by auto
    have "client_ok_g (sv_el ?s) (sv_sent ?s a) a ?c Writing_u"
      using ok b m unfolding client_ok_g.simps answering_g_def c by simp
    then have "gs_inv lfd (st(a \<mapsto> Writing_u)) ?s"
      using gs.cli_fd(5) [OF inv a(1)] c by (intro gs.cli_update [OF inv a(1), where c' = ?c]) auto
    then have cli: "gs_inv lfd st ?s" using a(2) by (simp add: fun_upd_idem)
    have heap: "sv_heap ?s a = Some ?c" by simp
    have "nbufs ?c = nbufs c" by (simp add: nbufs_def)
    then have n1: "gs_bufs ?s = n + held (sv_heap ?s)"
      using held_put [OF gs_finite [OF inv] a(1), of ?c] n by (simp add: put_def)
    have run: "sendReplyToClient_g w now True a s
      = (if gc_wpos ?c = gc_wlen ?c then resetClient_g True a ?s else Inr ?s)"
      using a(1) b Uw_bytes by (simp add: sendReplyToClient_g_def Let_def)
    show ?thesis
      unfolding run using reset_g [OF cli heap a(2) n1] cli n1 Uw_bytes by (auto simp: gs_ok_def)
  qed
qed

subsection \<open>Accepting\<close>

lemma new_client_g_simps [simp]: "gc_fd (new_client_g fd) = fd" "nbufs (new_client_g fd) = 0" "idle_g (new_client_g fd)" "gc_wbuf (new_client_g fd) = None"
  by (simp_all add: new_client_g_def nbufs_def idle_g_def)

lemma accept_g:
  assumes inv: "gs_inv lfd st s" and n: "gs_bufs s = n + held (sv_heap s)"
    and fd: "cfd \<noteq> - 1 \<longrightarrow> 0 \<le> cfd \<and> cfd \<notin> sv_open s \<and> (\<forall>a. mem = Some a \<longrightarrow> sv_heap s a = None)"
  shows "\<exists>s'. acceptHandler_g cfd mem ok s = Inr s' \<and> gs_ok lfd n s'"
proof (cases "cfd = - 1 \<or> mem = None")
  case True
  have "s\<lparr>sv_open := sv_open s\<rparr> = s" by simp
  moreover have "gs_ok lfd n s" using inv n by (auto simp: gs_ok_def)
  ultimately show ?thesis
    using True fd by (auto simp: acceptHandler_g_def createClient_g_def insert_Diff_if)
next
  case False
  then obtain a where a: "mem = Some a" "sv_heap s a = None" "0 \<le> cfd" "cfd \<notin> sv_open s" using fd by auto
  let ?s0 = "s\<lparr>sv_open := insert cfd (sv_open s)\<rparr>"
  have li: "loop_inv (sv_el ?s0)" using inv by (simp add: cli_inv_def)
  show ?thesis
  proof (cases "ok \<and> cfd < AE_SETSIZE")
    case refused: False
    then have "\<not> ok \<or> AE_SETSIZE \<le> cfd" by auto
    from register_refused [OF li a(3) _ this, of AE_READABLE ReadQuery_g "Some a"]
    obtain L where L: "register ok cfd AE_READABLE ReadQuery_g (Some a) ?s0 = Inr (AE_ERR, ?s0\<lparr>sv_el := L\<rparr>)"
      "loop_inv L" "el_events L = el_events (sv_el s)" by auto
    have "gs_inv lfd st (s\<lparr>sv_el := L\<rparr>)" using L by (intro gs.cli_cong [OF inv]) auto
    then have "gs_ok lfd n (s\<lparr>sv_el := L\<rparr>)" using n by (auto simp: gs_ok_def)
    moreover have "insert cfd (sv_open s) - {cfd} - {cfd} = sv_open s" using a(4) by auto
    ultimately show ?thesis
      using L(1) a(1) False by (fastforce simp: acceptHandler_g_def createClient_g_def)
  next
    case True
    with register_ok [OF li a(3), of AE_READABLE ReadQuery_g "Some a"]
    obtain L where L: "register ok cfd AE_READABLE ReadQuery_g (Some a) ?s0 = Inr (AE_OK, ?s0\<lparr>sv_el := L\<rparr>)"
      "loop_inv L" "el_events L = (el_events (sv_el s))(cfd := reg_entry (el_events (sv_el s) cfd) AE_READABLE ReadQuery_g (Some a))"
      by auto
    define t where "t = (\<lambda>n out. (put a (new_client_g cfd) (?s0\<lparr>sv_el := L\<rparr>))\<lparr>sv_clients := sv_clients s + 1,
      sv_sent := (sv_sent s)(a := out), gs_numconnections := n\<rparr>)"
    have "mask_of (sv_el s) cfd = 0"
      using inv a(4) unfolding cli_inv_def fd_inv_def by (metis option.exhaust)
    then have cok: "client_ok_g L out a (new_client_g cfd) Reading_u" for out
      using L(3) by (simp add: entry_def reg_entry_def)
    have new: "gs_inv lfd (st(a \<mapsto> Reading_u)) (t k out)" for k out
      using True L cok unfolding t_def by (intro gs.cli_new [OF inv a(2,4,3), where c = "new_client_g cfd"]) simp_all
    have heap: "sv_heap (t k out) a = Some (new_client_g cfd)" for k out by (simp add: t_def)
    have "sv_heap (t k out) = (sv_heap s)(a \<mapsto> new_client_g cfd)" "gs_bufs (t k out) = gs_bufs s" for k out
      by (simp_all add: t_def put_def)
    then have bufs: "gs_bufs (t k out) = n + held (sv_heap (t k out))" for k out
      using held_new [OF gs_finite [OF inv] a(2), of "new_client_g cfd"] n by simp
    have c: "createClient_g mem ok cfd ?s0 = Inr (Some a, t (gs_numconnections s) [])"
      using L(1) a(1) by (simp add: createClient_g_def put_def t_def)
    have e: "acceptHandler_g cfd mem ok s
      = (if gs_maxclients s \<noteq> 0 \<and> sv_clients s + 1 > gs_maxclients s
         then freeClient_g a (t (gs_numconnections s) (''-ERR max number of clients reached'' @ CRLF))
         else Inr (t (gs_numconnections s + 1) []))"
      using c False by (simp add: acceptHandler_g_def Let_def put_def t_def)
    have "gs_ok lfd n (t k [])" for k using new bufs by (auto simp: gs_ok_def)
    moreover have "\<exists>s'. freeClient_g a (t k out) = Inr s' \<and> gs_ok lfd n s'" for k out
      by (rule free_idle_g [OF new heap bufs]) simp
    ultimately show ?thesis by (simp add: e)
  qed
qed

subsection \<open>Every reachable state\<close>

lemma registered_who_g:
  assumes inv: "gs_inv lfd st s" and r: "registered (sv_el s) p fd msk"
  obtains (listen) "p = AcceptHandler_g"
  | (read) a c where "sv_heap s a = Some c" "fe_clientData (el_events (sv_el s) fd) = Some a" "st a = Some Reading_u"
      "p = ReadQuery_g"
  | (send) a c where "sv_heap s a = Some c" "fe_clientData (el_events (sv_el s) fd) = Some a" "st a = Some Writing_u"
      "p = SendReply_g"
proof -
  from gs.registered_root [OF inv r] consider "[lfd \<mapsto> AcceptHandler_g] fd = Some p"
    | a c g where "sv_heap s a = Some c" "gc_fd c = fd" "st a = Some g" "client_ok_g (sv_el s) (sv_sent s a) a c g" by auto
  then show thesis
  proof cases
    case 1
    then show thesis using listen by (auto split: if_splits)
  next
    case (2 a c g)
    show thesis
    proof (cases g)
      case Reading_u
      then show thesis
        using 2 read [OF 2(1)] entry_readable [OF _ r] by (auto simp: entry_def)
    next
      case Writing_u
      then show thesis
        using 2 send [OF 2(1)] entry_writable [OF _ r] by (auto simp: entry_def)
    qed
  qed
qed

definition overreads :: "gproc \<Rightarrow> nat option \<Rightarrow> ganswer \<Rightarrow> gserver \<Rightarrow> bool" where
  "overreads p d ans s = (case (p, d, ans) of
      (ReadQuery_g, Some a, Ga_read (Ur_bytes data) rmem mem now ok) \<Rightarrow> (case sv_heap s a of Some c \<Rightarrow> overread c data | None \<Rightarrow> False)
    | _ \<Rightarrow> False)"

lemma handler_g:
  assumes "gs_ok lfd n s" and r: "registered (sv_el s) p fd msk"
    and ok: "answer_ok_g p (fe_clientData (el_events (sv_el s) fd)) ans s"
  shows "if overreads p (fe_clientData (el_events (sv_el s) fd)) ans s
    then run_handler_g p (fe_clientData (el_events (sv_el s) fd)) ans s = Inl Out_of_bounds
    else \<exists>s'. run_handler_g p (fe_clientData (el_events (sv_el s) fd)) ans s = Inr s' \<and> gs_ok lfd (n + drops ans) s'"
proof -
  obtain st where inv: "gs_inv lfd st s" and n: "gs_bufs s = n + held (sv_heap s)" using assms(1) by (auto simp: gs_ok_def)
  show ?thesis
  proof (cases rule: registered_who_g [OF inv r])
    case 1
    then obtain cfd mem k where a: "ans = Ga_accept cfd mem k" using ok by (cases ans) auto
    with accept_g [OF inv n, of cfd mem k] ok 1 show ?thesis by (auto simp: run_handler_g_def overreads_def drops_def)
  next
    case (2 a c)
    then obtain rd rmem mem now k where a: "ans = Ga_read rd rmem mem now k" using ok by (cases ans) auto
    with ok 2 have k: "k" "rmem" "mem" "\<And>d. rd = Ur_bytes d \<Longrightarrow> length d \<le> READ_BUF_LEN_g" by auto
    have "overreads p (Some a) ans s \<longleftrightarrow> (\<exists>d. rd = Ur_bytes d \<and> overread c d)"
      using 2 a by (cases rd) (simp_all add: overreads_def)
    moreover have "drops ans = 0" by (simp add: a drops_def)
    ultimately show ?thesis using read_g [OF inv 2(1,3) k(4) n, of rd now] 2 a k(1-3) by (simp add: run_handler_g_def)
  next
    case (3 a c)
    then obtain w now k where a: "ans = Ga_write w now k" using ok by (cases ans) auto
    with ok 3 have k: "k" "\<And>m. w = Uw_bytes m \<Longrightarrow> m \<le> gc_wlen c - gc_wpos c" by auto
    have "drops ans = (if w = Uw_error then 1 else 0)" "\<not> overreads p (Some a) ans s"
      using 3 a by (cases w; simp add: drops_def overreads_def)+
    then show ?thesis using send_g [OF inv 3(1,3) k(2) n, of w now] 3 a k(1) by (simp add: run_handler_g_def)
  qed
qed

lemma init_g:
  assumes "0 \<le> lfd" "lfd < AE_SETSIZE"
  shows "\<exists>s. initServer_g lfd f = Inr s \<and> gs_ok lfd 0 s \<and> registered (sv_el s) AcceptHandler_g lfd 1
    \<and> sv_heap s = (\<lambda>_. None) \<and> sv_open s = {lfd} \<and> gs_maxclients s = uf_maxclients f \<and> sv_clients s = 0 \<and> fe_clientData (el_events (sv_el s) lfd) = None"
proof -
  define s0 :: gserver where "s0 = \<lparr>sv_el = new_loop, sv_clients = 0, sv_heap = (\<lambda>_. None), sv_open = {lfd}, sv_sent = (\<lambda>_. []),
    gs_maxclients = uf_maxclients f, gs_numconnections = 0, gs_mid = uf_mid f, gs_sid = 0, gs_bufs = 0\<rparr>"
  have "loop_inv (sv_el s0)" by (simp add: s0_def new_loop_inv)
  from register_ok [OF this assms, of AE_READABLE AcceptHandler_g None] obtain L where
    L: "register True lfd AE_READABLE AcceptHandler_g None s0 = Inr (AE_OK, s0\<lparr>sv_el := L\<rparr>)" "loop_inv L"
    "el_events L = (el_events (sv_el s0))(lfd := reg_entry (el_events (sv_el s0) lfd) AE_READABLE AcceptHandler_g None)"
    by auto
  let ?s = "s0\<lparr>sv_el := L\<rparr>"
  have ev: "el_events L g = (if g = lfd then reg_entry no_event AE_READABLE AcceptHandler_g None else no_event)" for g
    using L(3) by (simp add: s0_def new_loop_def)
  have "fd_inv [lfd \<mapsto> AcceptHandler_g] gc_fd ?s"
    using ev by (auto simp: fd_inv_def s0_def entry_def reg_entry_def no_event_def)
  then have "gs_inv lfd Map.empty ?s" using L(2) by (simp add: cli_inv_def s0_def)
  then have "gs_ok lfd 0 ?s" by (auto simp: gs_ok_def s0_def held_def)
  moreover have "initServer_g lfd f = Inr ?s" using L(1) by (simp add: initServer_g_def s0_def)
  moreover have "registered L AcceptHandler_g lfd 1" "fe_clientData (el_events L lfd) = None"
    using ev by (simp_all add: registered_def reg_entry_def no_event_def)
  ultimately show ?thesis by (intro exI [of _ ?s]) (auto simp: s0_def)
qed

lemma reachable_g_ok:
  assumes "reachable_g lfd f n s" "0 \<le> lfd" "lfd < AE_SETSIZE"
  shows "gs_ok lfd n s"
  using assms(1)
proof (induction rule: reachable_g.induct)
  case (start_g s)
  then show ?case using init_g [OF assms(2,3), of f] by auto
next
  case (step_g n s p fd msk ans s')
  then show ?case using handler_g [OF step_g.IH step_g(2,3)] by (auto split: if_splits)
qed

text \<open>In every reachable state each registered handler, on any answer of the kernel, returns, with one exception: a read
  that fills all 64 bytes of the new room, within the limit of 128, when the bytes so far hold neither a line end nor
  a zero byte. Then \<open>strstr\<close> runs over the end of the buffer.\<close>

theorem grow_overread:
  assumes "0 \<le> lfd" "lfd < AE_SETSIZE" "reachable_g lfd f n s" "registered (sv_el s) p fd msk"
    and "answer_ok_g p (fe_clientData (el_events (sv_el s) fd)) ans s"
  shows "(\<exists>e. run_handler_g p (fe_clientData (el_events (sv_el s) fd)) ans s = Inl e)
    \<longleftrightarrow> (\<exists>a c data rmem mem now ok. p = ReadQuery_g \<and> fe_clientData (el_events (sv_el s) fd) = Some a \<and> sv_heap s a = Some c
      \<and> ans = Ga_read (Ur_bytes data) rmem mem now ok \<and> overread c data)"
proof -
  have "overreads p (fe_clientData (el_events (sv_el s) fd)) ans s
    \<longleftrightarrow> (\<exists>a c data rmem mem now ok. p = ReadQuery_g \<and> fe_clientData (el_events (sv_el s) fd) = Some a \<and> sv_heap s a = Some c
      \<and> ans = Ga_read (Ur_bytes data) rmem mem now ok \<and> overread c data)"
    by (auto simp: overreads_def split: gproc.splits option.splits ganswer.splits uread.splits)
  then show ?thesis using handler_g [OF reachable_g_ok [OF assms(3,1,2)] assms(4,5)] by (auto split: if_splits)
qed

text \<open>C23. The buffers allocated in a reachable state are those the clients hold and one for every reply that could not be
  written: \<open>freeClient\<close> has lost each of these. No other path loses or gives back a buffer twice.\<close>

theorem grow_leak:
  assumes "0 \<le> lfd" "lfd < AE_SETSIZE" "reachable_g lfd f n s"
  shows "gs_bufs s = n + (\<Sum>a \<in> dom (sv_heap s). nbufs (the (sv_heap s a)))"
  using reachable_g_ok [OF assms(3,1,2)] by (simp add: gs_ok_def held_def)

subsection \<open>A run\<close>

text \<open>A client that connects, asks, and goes before it is answered.\<close>

lemma demo_client_g:
  "\<exists>s. reachable_g 3 initServerConfig_g 0 s \<and> sv_heap s 100 = Some (new_client_g 5)
    \<and> registered (sv_el s) ReadQuery_g 5 1 \<and> fe_clientData (el_events (sv_el s) 5) = Some 100"
proof -
  obtain s where s: "initServer_g 3 initServerConfig_g = Inr s" "registered (sv_el s) AcceptHandler_g 3 1" "gs_ok 3 0 s"
    "sv_heap s = (\<lambda>_. None)" "sv_open s = {3}" "fe_clientData (el_events (sv_el s) 3) = None" "gs_maxclients s = 1024" "sv_clients s = 0"
    using init_g [of 3 initServerConfig_g] by (auto simp: initServerConfig_g_def AE_SETSIZE_def)
  obtain st where inv: "gs_inv 3 st s" and n: "gs_bufs s = 0 + held (sv_heap s)" using s(3) by (auto simp: gs_ok_def)
  have ok: "answer_ok_g AcceptHandler_g None (Ga_accept 5 (Some 100) True) s" using s by simp
  from accept_g [OF inv n, of 5 "Some 100" True] s
  obtain s' where s': "acceptHandler_g 5 (Some 100) True s = Inr s'" "gs_ok 3 0 s'" by auto
  then have "reachable_g 3 initServerConfig_g (0 + drops (Ga_accept 5 (Some 100) True)) s'"
    using s ok by (intro reachable_g.step_g [OF reachable_g.start_g [OF s(1)] s(2)]) (simp_all add: run_handler_g_def)
  moreover have h: "sv_heap s' 100 = Some (new_client_g 5)"
    using s'(1) s(7,8)
    by (auto simp: acceptHandler_g_def createClient_g_def fbind_eq_Inr register_def fmap_eq_Inr put_def
        aeCreateFileEvent_def aeApiAddEvent_def AE_SETSIZE_def Let_def split: option.splits if_splits)
  moreover have "entry (sv_el s') 5 AE_READABLE ReadQuery_g (Some 100)"
  proof -
    obtain st' where "gs_inv 3 st' s'" using s'(2) by (auto simp: gs_ok_def)
    from client_stage_g [OF this h] obtain g where g: "client_ok_g (sv_el s') (sv_sent s' 100) 100 (new_client_g 5) g" by blast
    have "\<not> answering_g (new_client_g 5)" by (simp add: answering_g_def new_client_g_def)
    with g show ?thesis by (cases g) simp_all
  qed
  then have "registered (sv_el s') ReadQuery_g 5 1" "fe_clientData (el_events (sv_el s') 5) = Some 100"
    by (simp_all add: entry_def registered_def)
  moreover have "drops (Ga_accept 5 (Some 100) True) = 0" by (simp add: drops_def)
  ultimately show ?thesis by (intro exI [of _ s']) simp
qed

theorem grow_overread_witness:
  "\<exists>s. reachable_g 3 initServerConfig_g 0 s
    \<and> (\<exists>e. run_handler_g ReadQuery_g (Some 100) (Ga_read (Ur_bytes (replicate 64 CHR ''a'')) True True 0 True) s = Inl e)"
proof -
  obtain s where s: "reachable_g 3 initServerConfig_g 0 s" "sv_heap s 100 = Some (new_client_g 5)"
    "registered (sv_el s) ReadQuery_g 5 1" "fe_clientData (el_events (sv_el s) 5) = Some 100"
    using demo_client_g by blast
  have "no_line (replicate 64 CHR ''a'')"
  proof -
    have "replicate 64 CHR ''a'' \<noteq> x @ CRLF @ y" for x y
    proof
      assume "replicate 64 CHR ''a'' = x @ CRLF @ y"
      then have "CR \<in> set (replicate 64 CHR ''a'')" by simp
      then show False by simp
    qed
    then show ?thesis by (auto simp: no_line_def)
  qed
  then have "overread (new_client_g 5) (replicate 64 CHR ''a'')"
    by (simp add: overread_def received_def new_client_g_def READ_BUF_LEN_g_def MAX_READ_BUF_LEN_def)
  with grow_overread [OF _ _ s(1,3), of "Ga_read (Ur_bytes (replicate 64 CHR ''a'')) True True 0 True"] s show ?thesis
    by (auto simp: AE_SETSIZE_def READ_BUF_LEN_g_def)
qed

lemma demo_request_g:
  assumes "sv_heap s a = Some (new_client_g fd)" "readQueryFromClient_g (Ur_bytes (''get k'' @ CRLF)) True True now True a s = Inr s'"
  shows "\<exists>c. sv_heap s' a = Some c \<and> gc_fd c = fd \<and> gc_wbuf c \<noteq> None"
proof -
  let ?b = "''get k'' @ CRLF @ replicate 57 NUL"
  have st: "store_at (replicate 64 NUL) 0 (''get k'' @ CRLF) = Inr ?b" by (simp add: store_at_def numeral_eq_Suc)
  have p: "c_strstr CRLF ?b = Inr (Some 5)" "c_strcaseeq ?b (''quit'' @ CRLF) = Inr False" "c_strncaseeq ?b ''get '' = Inr True"
    by code_simp+
  have w: "c_str (c_snprintf 127 (value_reply ''19'' u) (replicate 128 NUL)) = Inr (value_reply ''19'' u)" for u
    by (intro value_fits) simp_all
  have g: "grow_rbuf_g None 0 = Inr (replicate 64 NUL)" by (simp add: grow_rbuf_g_def READ_BUF_LEN_g_def)
  show ?thesis
    using assms(2)
    unfolding readQueryFromClient_g_def client_at_Some [OF assms(1)] fbind_Inr
    by (auto simp: new_client_g_def g st MAX_READ_BUF_LEN_def processInputBuffer_g_def ProcessRequestBuffer_g_def p w Let_def
        case_prod_beta fbind_eq_Inr fmap_eq_Inr unregister_def register_def simp del: append.simps)
qed

lemma demo_drop_g: "\<exists>s. reachable_g 3 initServerConfig_g 1 s"
proof -
  let ?rd = "Ga_read (Ur_bytes (''get k'' @ CRLF)) True True 0 True" and ?wr = "Ga_write Uw_error 0 True"
  obtain s where s: "reachable_g 3 initServerConfig_g 0 s" "sv_heap s 100 = Some (new_client_g 5)"
    "registered (sv_el s) ReadQuery_g 5 1" "fe_clientData (el_events (sv_el s) 5) = Some 100"
    using demo_client_g by blast
  have ok: "answer_ok_g ReadQuery_g (Some 100) ?rd s" by (simp add: READ_BUF_LEN_g_def)
  have "\<not> overreads ReadQuery_g (Some 100) ?rd s" using s(2) by (simp add: overreads_def overread_def READ_BUF_LEN_g_def)
  with handler_g [OF reachable_g_ok [OF s(1)] s(3), of ?rd] s(4) ok obtain s1 where
    s1: "run_handler_g ReadQuery_g (Some 100) ?rd s = Inr s1" "gs_ok 3 (0 + drops ?rd) s1"
    by (auto simp: AE_SETSIZE_def)
  have r1: "reachable_g 3 initServerConfig_g (0 + drops ?rd) s1"
    using s(4) ok s1(1) by (intro reachable_g.step_g [OF s(1,3)]) simp_all
  have "readQueryFromClient_g (Ur_bytes (''get k'' @ CRLF)) True True 0 True 100 s = Inr s1" using s1(1) by (simp add: run_handler_g_def)
  from demo_request_g [OF s(2) this] obtain c where c: "sv_heap s1 100 = Some c" "gc_fd c = 5" "gc_wbuf c \<noteq> None" by blast
  obtain st where inv: "gs_inv 3 st s1" using s1(2) by (auto simp: gs_ok_def)
  from client_stage_g [OF inv c(1)] obtain g where g: "client_ok_g (sv_el s1) (sv_sent s1 100) 100 c g" by blast
  then have "entry (sv_el s1) 5 AE_WRITABLE SendReply_g (Some 100)" using c(2,3) by (cases g) (simp_all add: idle_g_def)
  then have e: "registered (sv_el s1) SendReply_g 5 2" "fe_clientData (el_events (sv_el s1) 5) = Some 100"
    by (simp_all add: entry_def registered_def)
  have ok1: "answer_ok_g SendReply_g (Some 100) ?wr s1" by simp
  have "\<not> overreads SendReply_g (Some 100) ?wr s1" by (simp add: overreads_def)
  with handler_g [OF s1(2) e(1), of ?wr] e(2) ok1 obtain s2 where "run_handler_g SendReply_g (Some 100) ?wr s1 = Inr s2" by auto
  then have "reachable_g 3 initServerConfig_g (0 + drops ?rd + drops ?wr) s2"
    using e(2) ok1 by (intro reachable_g.step_g [OF r1 e(1)]) simp_all
  then show ?thesis by (auto simp: drops_def)
qed

theorem grow_leak_witness:
  "\<exists>s. reachable_g 3 initServerConfig_g 1 s \<and> gs_bufs s = 1 + (\<Sum>a \<in> dom (sv_heap s). nbufs (the (sv_heap s a)))"
proof -
  obtain s where s: "reachable_g 3 initServerConfig_g 1 s" using demo_drop_g by blast
  from grow_leak [OF _ _ s] s show ?thesis by (auto simp: AE_SETSIZE_def)
qed

end
