(* ===== verification/IpRange.thy ===== *)
theory IpRange
  imports Prelude
begin

section \<open>Counting log lines by address range (count_log_by_ip_range/main.cpp)\<close>

text \<open>
  The program reads address ranges from a file, one \<open>a.b.c.d/m\<close> per line, sets a bit for every address in them, and then
  reads lines \<open>count address\<close> from the standard input, printing and adding up those whose bit is set. A stream is
  the list of characters that are left in it; as every scan that meets the end sets the flag, \<open>feof\<close> holds exactly
  when a scan has left the empty list. \<open>long\<close> has 64 bits. An exception that nothing catches (\<open>bitset::set\<close>
  out of range) is \<open>Out_of_bounds\<close>.
\<close>

subsection \<open>Addresses\<close>

text \<open>\<open>strchr\<close> and the texts before and behind the character.\<close>

definition cut :: "char \<Rightarrow> string \<Rightarrow> (string \<times> string) option" where
  "cut c s = (if c \<in> set s then Some (takeWhile (\<lambda>x. x \<noteq> c) s, tl (dropWhile (\<lambda>x. x \<noteq> c) s)) else None)"

text \<open>\<open>atol\<close> of a C string.\<close>

definition c_atol :: "string \<Rightarrow> int" where
  "c_atol s = (case atoi_sign (dropWhile is_space (s @ [NUL])) of Inr v \<Rightarrow> clamp_long v | Inl _ \<Rightarrow> 0)"

definition c_long :: "int \<Rightarrow> int res" where
  "c_long v = (if - (2 ^ 63) \<le> v \<and> v < 2 ^ 63 then Inr v else Inl Signed_overflow)"

definition shl :: "nat \<Rightarrow> int \<Rightarrow> int res" where
  "shl k v = (if v < 0 then Inl Signed_overflow else c_long (v * 2 ^ k))"

definition ip2long :: "string option \<Rightarrow> int res" where
  "ip2long ip = (case ip of None \<Rightarrow> Inr (- 1) | Some s \<Rightarrow>
     (case cut CHR ''.'' s of None \<Rightarrow> Inr (- 1) | Some (a, s1) \<Rightarrow>
     (case cut CHR ''.'' s1 of None \<Rightarrow> Inr (- 2) | Some (b, s2) \<Rightarrow>
     (case cut CHR ''.'' s2 of None \<Rightarrow> Inr (- 3) | Some (c, d) \<Rightarrow>
        fbind (shl 24 (c_atol a)) (\<lambda>l1.
        fbind (shl 16 (c_atol b)) (\<lambda>v2. fbind (c_long (l1 + v2)) (\<lambda>l2.
        fbind (shl 8 (c_atol c)) (\<lambda>v3. fbind (c_long (l2 + v3)) (\<lambda>l3.
        c_long (l3 + c_atol d))))))))))"

definition long2ip :: "int \<Rightarrow> string" where
  "long2ip ip = (let u = (word_of_int ip :: 32 word) in
     show_nat (unat (drop_bit 24 u)) @ ''.'' @ show_nat (unat (drop_bit 24 (push_bit 8 u))) @ ''.''
       @ show_nat (unat (drop_bit 24 (push_bit 16 u))) @ ''.'' @ show_nat (unat (drop_bit 24 (push_bit 24 u))))"

text \<open>\<open>1 << (32 - lmask)\<close> is an \<open>int\<close>: a count below 0 or above 31 is undefined, and so is \<open>(1 << 31) - 1\<close>.
  The result is the first address and the number of addresses.\<close>

definition get_first_ip :: "string \<Rightarrow> string \<Rightarrow> (int \<times> int) res" where
  "get_first_ip cidr msk =
     (let k = 32 - c_atol msk in
      if k < 0 \<or> 31 \<le> k then Inl Signed_overflow
      else let ip_mask = NOT (2 ^ nat k - 1 :: int) in
        fbind (ip2long (Some cidr)) (\<lambda>ip. fmap (\<lambda>first. (first, 2 ^ nat k - 1)) (c_long ((ip AND ip_mask) + 1))))"

subsection \<open>The ranges\<close>

definition UINT_MAX :: int where "UINT_MAX = 4294967295"

text \<open>The loop that sets the bits from \<open>i\<close> to \<open>hi - 1\<close>.\<close>

function set_bits :: "int \<Rightarrow> int \<Rightarrow> int set \<Rightarrow> int set res" where
  "set_bits i hi bs = (if i < hi then
     (if 0 \<le> i \<and> i < UINT_MAX then set_bits (i + 1) hi (insert i bs) else Inl Out_of_bounds) else Inr bs)"
  by pat_completeness auto
termination
  by (relation "measure (\<lambda>(i, hi, bs). nat (hi - i))") auto

text \<open>\<open>fgets(cidr,63,fp)\<close>: up to 62 characters, or to the end of the line. The result is what is read, what is left and whether
  the scan met the end.\<close>

definition fgets62 :: "string \<Rightarrow> string \<times> string \<times> bool" where
  "fgets62 s = (let l = takeWhile (\<lambda>c. c \<noteq> LF) s in
     if 62 \<le> length l then (take 62 s, drop 62 s, False)
     else if length l < length s then (l @ [LF], drop (Suc (length l)) s, False)
     else (s, [], True))"

text \<open>One line of the file; the last character is cut off whatever it is.\<close>

definition cidr_line :: "string \<Rightarrow> int set \<Rightarrow> int set res" where
  "cidr_line l bs =
     (let cidr = takeWhile (\<lambda>c. c \<noteq> NUL) l in
      if length cidr \<le> 7 then Inr bs
      else case cut CHR ''/'' (butlast cidr) of
          None \<Rightarrow> Inr bs
        | Some (ip, msk) \<Rightarrow> fbind (get_first_ip ip msk) (\<lambda>(first, len). set_bits first (first + len) bs))"

lemma fgets62_shorter: "fgets62 s = (l, r, False) \<Longrightarrow> length r < length s"
  by (cases s) (auto simp: fgets62_def Let_def split: if_splits)

function cidr_loop :: "string \<Rightarrow> int set \<Rightarrow> int set res" where
  "cidr_loop s bs = (case fgets62 s of (l, r, eof) \<Rightarrow>
     fbind (cidr_line l bs) (\<lambda>bs1. if eof then Inr bs1 else cidr_loop r bs1))"
  by pat_completeness auto
termination
  by (relation "measure (\<lambda>(s, bs). length s)") (auto dest: fgets62_shorter [OF sym])

subsection \<open>The log\<close>

text \<open>\<open>fscanf(stdin," %d %s\n",&c,cip)\<close>: the variables after the call and the characters left. A sign without a digit is
  consumed. The array has 64 characters, \<open>None\<close> before anything is stored in it.\<close>

definition skip_white :: "string \<Rightarrow> string" where
  "skip_white = dropWhile is_space"

definition scan_name :: "string \<Rightarrow> string option \<Rightarrow> (string option \<times> string) res" where
  "scan_name s cip = (let w = takeWhile (\<lambda>x. \<not> is_space x) (skip_white s); r = dropWhile (\<lambda>x. \<not> is_space x) (skip_white s) in
     if w = [] then Inr (cip, skip_white s)
     else if 64 \<le> length w then Inl Buffer_overflow
     else Inr (Some (takeWhile (\<lambda>c. c \<noteq> NUL) w), skip_white r))"

definition scan_line :: "string \<Rightarrow> int \<Rightarrow> string option \<Rightarrow> (int \<times> string option \<times> string) res" where
  "scan_line s c cip =
     (let s1 = skip_white s;
          s2 = (if s1 \<noteq> [] \<and> (hd s1 = CHR ''-'' \<or> hd s1 = CHR ''+'') then tl s1 else s1);
          ds = takeWhile is_digit s2; r = dropWhile is_digit s2;
          v = foldl (\<lambda>a d. 10 * a + int (digit_val d)) 0 ds
      in if ds = [] then Inr (c, cip, s2)
         else let c1 = to_i32 (clamp_long (if hd s1 = CHR ''-'' then - v else v))
           in fmap (\<lambda>(cip1, r1). (c1, cip1, r1)) (scan_name r cip))"

datatype out_line = Invalid string | Counted int string

text \<open>The fuel counts turns; \<open>None\<close> when it is used up. The result is what is printed, and the total.\<close>

fun log_loop :: "nat \<Rightarrow> int set \<Rightarrow> string \<Rightarrow> int \<Rightarrow> string option \<Rightarrow> int \<Rightarrow> (out_line list \<times> int) option res" where
  "log_loop 0 bs s c cip tot = Inr None"
| "log_loop (Suc fuel) bs s c cip tot =
     fbind (scan_line s c cip) (\<lambda>(c1, cip1, r).
     case cip1 of None \<Rightarrow> Inl Indeterminate_value | Some ip \<Rightarrow>
     fbind (ip2long (Some ip)) (\<lambda>v.
       if v \<ge> UINT_MAX \<or> v \<le> 0 then
         fmap (map_option (apfst ((#) (Invalid ip)))) (if r = [] then Inr (Some ([], tot)) else log_loop fuel bs r c1 cip1 tot)
       else if v \<in> bs then
         if tot + c1 < - INT_MAX - 1 \<or> INT_MAX < tot + c1 then Inl Signed_overflow
         else fmap (map_option (apfst ((#) (Counted c1 ip))))
           (if r = [] then Inr (Some ([], tot + c1)) else log_loop fuel bs r c1 cip1 (tot + c1))
       else if r = [] then Inr (Some ([], tot)) else log_loop fuel bs r c1 cip1 tot))"

text \<open>\<open>main\<close> with the number of arguments, the file and the standard input.\<close>

definition ip_main :: "nat \<Rightarrow> nat \<Rightarrow> string option \<Rightarrow> string \<Rightarrow> (int + (out_line list \<times> int)) option res" where
  "ip_main fuel argc cidrs input =
     (if argc \<noteq> 2 then Inr (Some (Inl (- 1)))
      else case cidrs of
          None \<Rightarrow> Inr (Some (Inl (- 2)))
        | Some s \<Rightarrow> fbind (cidr_loop s {}) (\<lambda>bs. fmap (map_option Inr) (log_loop fuel bs input 0 None 0)))"

declare set_bits.simps [simp del] cidr_loop.simps [simp del]

section \<open>What is counted_ip\<close>

subsection \<open>Addresses in text\<close>

type_synonym ip4 = "nat \<times> nat \<times> nat \<times> nat"

fun valid_ip :: "ip4 \<Rightarrow> bool" where
  "valid_ip (a, b, c, d) \<longleftrightarrow> a < 256 \<and> b < 256 \<and> c < 256 \<and> d < 256"

fun show_ip :: "ip4 \<Rightarrow> string" where
  "show_ip (a, b, c, d) = show_nat a @ CHR ''.'' # show_nat b @ CHR ''.'' # show_nat c @ CHR ''.'' # show_nat d"

fun addr :: "ip4 \<Rightarrow> int" where
  "addr (a, b, c, d) = int a * 2 ^ 24 + int b * 2 ^ 16 + int c * 2 ^ 8 + int d"

lemma addr_range: "valid_ip x \<Longrightarrow> 0 \<le> addr x \<and> addr x < 2 ^ 32"
  by (cases x rule: valid_ip.cases) simp

lemma cut_at: "c \<notin> set x \<Longrightarrow> cut c (x @ c # y) = Some (x, y)"
  by (simp add: cut_def takeWhile_append dropWhile_append)

lemma c_atol_show: "int n < 2 ^ 63 \<Longrightarrow> c_atol (show_nat n) = int n"
proof -
  assume n: "int n < 2 ^ 63"
  obtain d ds where dd: "show_nat n = d # ds" by (cases "show_nat n") auto
  have dig: "\<forall>c \<in> set (show_nat n). is_digit c" by (simp add: show_nat_digits)
  with dd have d: "is_digit d" by simp
  have "atoi_digits 0 (show_nat n @ [NUL]) = Inr (int n)"
    using dig by (simp add: atoi_digits_append foldl_show_nat)
  then have "atoi_sign (dropWhile is_space (show_nat n @ [NUL])) = Inr (int n)"
    using dd d is_digit_neq [OF d] by simp
  then show ?thesis using n by (simp add: c_atol_def)
qed

lemma show_nat_no: "\<not> is_digit c \<Longrightarrow> c \<notin> set (show_nat n)"
  using show_nat_digits by blast

lemma not_digits [simp]: "\<not> is_digit CHR ''.''" "\<not> is_digit CHR ''/''" "\<not> is_digit CHR '' ''" "\<not> is_digit LF"
  by (simp_all add: is_digit_def)

lemma ip2long_show: "valid_ip x \<Longrightarrow> ip2long (Some (show_ip x)) = Inr (addr x)"
  by (cases x rule: valid_ip.cases)
    (simp add: ip2long_def cut_at show_nat_no c_atol_show shl_def c_long_def)

lemma show_ip_chars: "c \<in> set (show_ip x) \<Longrightarrow> is_digit c \<or> c = CHR ''.''"
  by (cases x rule: valid_ip.cases) (auto dest: show_nat_digits)

lemma show_nat_byte: "n < 256 \<Longrightarrow> length (show_nat n) \<le> 3"
  by (rule length_show_nat) auto

lemma show_nat_pos: "1 \<le> length (show_nat n)"
  by (simp add: Suc_leI)

lemma show_ip_length: "valid_ip x \<Longrightarrow> 7 \<le> length (show_ip x) \<and> length (show_ip x) \<le> 15"
proof (cases x rule: valid_ip.cases)
  case (1 a b c d)
  assume "valid_ip x"
  then show ?thesis
    using 1 show_nat_byte [of a] show_nat_byte [of b] show_nat_byte [of c] show_nat_byte [of d]
      show_nat_pos [of a] show_nat_pos [of b] show_nat_pos [of c] show_nat_pos [of d]
    unfolding 1 show_ip.simps length_append list.size valid_ip.simps by linarith
qed

subsection \<open>Ranges\<close>

text \<open>The addresses of a range: those with the bits of the network, without the network address itself.\<close>

definition in_range :: "int \<Rightarrow> ip4 \<times> nat \<Rightarrow> bool" where
  "in_range v r = (let k = 32 - snd r in v div 2 ^ k = addr (fst r) div 2 ^ k \<and> v mod 2 ^ k \<noteq> 0)"

text \<open>A mask of 2 to 32 bits, and not the range that ends in 255.255.255.255, for which there is no bit.\<close>

definition good_range :: "ip4 \<times> nat \<Rightarrow> bool" where
  "good_range r \<longleftrightarrow> valid_ip (fst r) \<and> 2 \<le> snd r \<and> snd r \<le> 32 \<and> \<not> in_range UINT_MAX r"

definition cidr_text :: "ip4 \<times> nat \<Rightarrow> string" where
  "cidr_text r = show_ip (fst r) @ CHR ''/'' # show_nat (snd r) @ [LF]"

lemma and_not_low: "(v :: int) AND NOT (2 ^ k - 1) = v div 2 ^ k * 2 ^ k"
proof -
  have "v AND NOT (mask k) = push_bit k (drop_bit k v)"
    by (rule bit_eqI) (auto simp: bit_simps)
  then show ?thesis by (simp add: mask_eq_exp_minus_1 push_bit_eq_mult drop_bit_eq_div)
qed

lemma get_first_ip_show:
  assumes "valid_ip x" "2 \<le> m" "m \<le> 32"
  shows "get_first_ip (show_ip x) (show_nat m) = Inr (addr x div 2 ^ (32 - m) * 2 ^ (32 - m) + 1, 2 ^ (32 - m) - 1)"
proof -
  have k: "c_atol (show_nat m) = int m" "nat (32 - int m) = 32 - m" using assms by (simp_all add: c_atol_show nat_diff_distrib)
  have "0 \<le> addr x mod 2 ^ (32 - m)" by simp
  then have "addr x div 2 ^ (32 - m) * 2 ^ (32 - m) \<le> addr x"
    using minus_mod_eq_div_mult [of "addr x" "2 ^ (32 - m)"] by linarith
  moreover have "0 \<le> addr x div 2 ^ (32 - m) * 2 ^ (32 - m)"
    using addr_range [OF assms(1)] by (simp add: pos_imp_zdiv_nonneg_iff)
  ultimately have "c_long (addr x div 2 ^ (32 - m) * 2 ^ (32 - m) + 1) = Inr (addr x div 2 ^ (32 - m) * 2 ^ (32 - m) + 1)"
    using addr_range [OF assms(1)] by (simp add: c_long_def)
  then show ?thesis
    using assms by (simp add: get_first_ip_def k ip2long_show and_not_low Let_def)
qed

lemma range_set:
  assumes "0 < (q :: int)"
  shows "{a div q * q + 1 ..< a div q * q + 1 + (q - 1)} = {v. v div q = a div q \<and> v mod q \<noteq> 0}"
proof -
  have iff: "a div q * q + 1 \<le> v \<and> v < a div q * q + q \<longleftrightarrow> v div q = a div q \<and> v mod q \<noteq> 0" for v
  proof
    assume v: "a div q * q + 1 \<le> v \<and> v < a div q * q + q"
    define r where "r = v - a div q * q"
    have r: "0 < r" "r < q" "v = r + a div q * q" using v by (auto simp: r_def)
    have "(r + a div q * q) div q = a div q" "(r + a div q * q) mod q = r" using assms r(1,2) by simp_all
    then show "v div q = a div q \<and> v mod q \<noteq> 0" unfolding r(3) [symmetric] using r(1) by simp
  next
    assume v: "v div q = a div q \<and> v mod q \<noteq> 0"
    have "0 \<le> v mod q" "v mod q < q" using assms by simp_all
    then show "a div q * q + 1 \<le> v \<and> v < a div q * q + q"
    proof -
      have "v - v mod q = a div q * q" using minus_mod_eq_div_mult [of v q] v by simp
      moreover have "1 \<le> v mod q" using \<open>0 \<le> v mod q\<close> v by linarith
      ultimately show ?thesis using \<open>v mod q < q\<close> by linarith
    qed
  qed
  have "a div q * q + 1 + (q - 1) = a div q * q + q" by simp
  then show ?thesis unfolding set_eq_iff atLeastLessThan_iff mem_Collect_eq by (simp only: iff simp_thms)
qed

lemma set_bits_ok: "0 \<le> lo \<Longrightarrow> lo < hi \<longrightarrow> hi \<le> UINT_MAX \<Longrightarrow> set_bits lo hi bs = Inr (bs \<union> {lo..<hi})"
proof (induction lo hi bs rule: set_bits.induct)
  case (1 lo hi bs)
  show ?case
  proof (cases "lo < hi")
    case True
    then have "{lo..<hi} = insert lo {lo + 1..<hi}" by auto
    then show ?thesis using 1 True by (simp add: set_bits.simps [of lo])
  qed (simp add: set_bits.simps [of lo])
qed

lemma cidr_line_text:
  assumes r: "good_range r"
  shows "cidr_line (cidr_text r) bs = Inr (bs \<union> {v. in_range v r})"
proof -
  obtain x m where xm: "r = (x, m)" by (cases r)
  have x: "valid_ip x" "2 \<le> m" "m \<le> 32" using r xm by (auto simp: good_range_def)
  let ?q = "2 ^ (32 - m) :: int" and ?t = "show_ip x @ CHR ''/'' # show_nat m"
  have "NUL \<notin> set (show_ip x)" "NUL \<notin> set (show_nat m)" "CHR ''/'' \<notin> set (show_ip x)"
    using show_ip_chars [of _ x] show_nat_no [of NUL m] by fastforce+
  then have t: "takeWhile (\<lambda>c. c \<noteq> NUL) (cidr_text r) = cidr_text r" "cut CHR ''/'' ?t = Some (show_ip x, show_nat m)"
    "butlast (cidr_text r) = ?t"
    by (auto simp: cidr_text_def xm takeWhile_eq_all_conv cut_at butlast_append)
  have l: "\<not> length (cidr_text r) \<le> 7" using show_ip_length [OF x(1)] by (simp add: cidr_text_def xm)
  have "set_bits (addr x div ?q * ?q + 1) (addr x div ?q * ?q + 1 + (?q - 1)) bs = Inr (bs \<union> {v. in_range v r})"
  proof -
    have q: "0 < ?q" by simp
    have "0 \<le> addr x div ?q * ?q" using addr_range [OF x(1)] by (simp add: pos_imp_zdiv_nonneg_iff)
    moreover have "addr x div ?q * ?q + 1 < addr x div ?q * ?q + 1 + (?q - 1) \<longrightarrow> addr x div ?q * ?q + 1 + (?q - 1) \<le> UINT_MAX"
    proof (intro impI, rule ccontr)
      assume q1: "addr x div ?q * ?q + 1 < addr x div ?q * ?q + 1 + (?q - 1)" and "\<not> addr x div ?q * ?q + 1 + (?q - 1) \<le> UINT_MAX"
      then have hi: "UINT_MAX < addr x div ?q * ?q + 1 + (?q - 1)" by linarith
      have "32 - m \<noteq> 0" using q1 by (intro notI) simp
      then have ev: "even (addr x div ?q * ?q)" by simp
      have "0 \<le> addr x mod ?q" by simp
      then have "addr x div ?q * ?q \<le> addr x" using minus_mod_eq_div_mult [of "addr x" ?q] by linarith
      then have "addr x div ?q * ?q \<le> UINT_MAX" using addr_range [OF x(1)] by (simp add: UINT_MAX_def)
      moreover have "addr x div ?q * ?q \<noteq> UINT_MAX"
      proof
        assume "addr x div ?q * ?q = UINT_MAX"
        then have "even UINT_MAX" using ev by metis
        then show False by (simp add: UINT_MAX_def)
      qed
      ultimately have "UINT_MAX \<in> {addr x div ?q * ?q + 1 ..< addr x div ?q * ?q + 1 + (?q - 1)}" using hi by simp
      then have "in_range UINT_MAX r" unfolding range_set [OF q] by (simp add: in_range_def xm Let_def)
      then show False using r by (simp add: good_range_def)
    qed
    ultimately have "set_bits (addr x div ?q * ?q + 1) (addr x div ?q * ?q + 1 + (?q - 1)) bs
      = Inr (bs \<union> {addr x div ?q * ?q + 1 ..< addr x div ?q * ?q + 1 + (?q - 1)})"
      by (intro set_bits_ok) simp_all
    then show ?thesis unfolding range_set [OF q] by (simp add: in_range_def xm Let_def)
  qed
  then show ?thesis
    unfolding cidr_line_def Let_def t if_not_P [OF l] option.case prod.case get_first_ip_show [OF x] fbind_Inr .
qed

lemma cidr_text_line: "cidr_text r = takeWhile (\<lambda>c. c \<noteq> LF) (cidr_text r @ s) @ [LF] \<and> LF \<notin> set (butlast (cidr_text r))"
proof -
  have "LF \<notin> set (show_ip (fst r))" "LF \<notin> set (show_nat (snd r))"
    using show_ip_chars [of LF "fst r"] show_nat_no [of LF "snd r"] by auto
  then show ?thesis by (auto simp: cidr_text_def takeWhile_append butlast_append)
qed

lemma fgets_text: "good_range r \<Longrightarrow> fgets62 (cidr_text r @ s) = (cidr_text r, s, False)"
proof -
  assume r: "good_range r"
  let ?l = "takeWhile (\<lambda>c. c \<noteq> LF) (cidr_text r @ s)"
  have l: "cidr_text r = ?l @ [LF]" using cidr_text_line by blast
  have "length (show_nat (snd r)) \<le> 2" using r by (intro length_show_nat) (auto simp: good_range_def)
  then have "length (cidr_text r) \<le> 19" using r show_ip_length [of "fst r"] by (simp add: cidr_text_def good_range_def)
  then have s: "length ?l \<le> 18" using arg_cong [OF l, of length] by simp
  have a: "cidr_text r @ s = ?l @ LF # s" using l by simp
  have d: "drop (Suc (length ?l)) (cidr_text r @ s) = s" by (subst a) simp
  have c: "\<not> 62 \<le> length ?l" "length ?l < length (cidr_text r @ s)" using s unfolding arg_cong [OF a, of length] by simp_all
  show ?thesis unfolding fgets62_def Let_def if_not_P [OF c(1)] if_P [OF c(2)] d l [symmetric] ..
qed

lemma cidr_loop_text:
  "(\<forall>r \<in> set rs. good_range r) \<Longrightarrow>
   cidr_loop (concat (map cidr_text rs)) bs = Inr (bs \<union> {v. \<exists>r \<in> set rs. in_range v r})"
proof (induction rs arbitrary: bs)
  case Nil
  then show ?case by (simp add: cidr_loop.simps fgets62_def cidr_line_def)
next
  case (Cons r rs)
  have "bs \<union> {v. in_range v r} \<union> {v. \<exists>r \<in> set rs. in_range v r} = bs \<union> {v. \<exists>r \<in> set (r # rs). in_range v r}" by auto
  then show ?case
    using Cons fgets_text [of r "concat (map cidr_text rs)"] cidr_line_text [of r bs]
    by (subst cidr_loop.simps) simp
qed

subsection \<open>The lines of the log\<close>

definition log_text :: "nat \<times> ip4 \<Rightarrow> string" where
  "log_text e = show_nat (fst e) @ CHR '' '' # show_ip (snd e) @ [LF]"

lemma space_lf [simp]: "is_space LF" "is_space CHR '' ''"
  by (simp_all add: is_space_def)

lemma not_space_ip: "c \<in> set (show_ip x) \<Longrightarrow> \<not> is_space c"
  using show_ip_chars [of c x] is_digit_neq(6) [of c] by (auto simp: is_space_def)

lemma skip_text: "t = [] \<or> \<not> is_space (hd t) \<Longrightarrow> skip_white t = t"
  by (cases t) (auto simp: skip_white_def)

lemma scan_log_line:
  assumes e: "valid_ip (snd e)" "int (fst e) \<le> INT_MAX" and t: "t = [] \<or> \<not> is_space (hd t)"
  shows "scan_line (log_text e @ t) c cip = Inr (int (fst e), Some (show_ip (snd e)), t)"
proof -
  obtain n x where nx: "e = (n, x)" by (cases e)
  obtain d ds where dd: "show_nat n = d # ds" by (cases "show_nat n") auto
  have dig: "\<forall>c \<in> set (show_nat n). is_digit c" by (simp add: show_nat_digits)
  with dd have d: "is_digit d" by simp
  let ?r = "CHR '' '' # show_ip x @ LF # t"
  have s: "log_text e @ t = show_nat n @ ?r" by (simp add: log_text_def nx)
  have k: "skip_white (show_nat n @ ?r) = show_nat n @ ?r" "hd (show_nat n @ ?r) = d" "show_nat n @ ?r \<noteq> []"
    using is_digit_neq(6) [OF d] dd by (simp_all add: skip_text)
  have w: "takeWhile is_digit (show_nat n @ ?r) = show_nat n" "dropWhile is_digit (show_nat n @ ?r) = ?r"
    using dig by (simp_all add: takeWhile_append dropWhile_append)
  have x: "show_ip x \<noteq> []" "length (show_ip x) < 64" using show_ip_length [of x] e(1) nx by auto
  then have "\<not> is_space (hd (show_ip x @ LF # t))" using not_space_ip [of "hd (show_ip x)" x] by simp
  then have "skip_white (show_ip x @ LF # t) = show_ip x @ LF # t" by (rule skip_text [OF disjI2])
  then have sr: "skip_white ?r = show_ip x @ LF # t" by (simp add: skip_white_def)
  have tw: "takeWhile (\<lambda>c. \<not> is_space c) (show_ip x @ LF # t) = show_ip x" "dropWhile (\<lambda>c. \<not> is_space c) (show_ip x @ LF # t) = LF # t"
    using not_space_ip [of _ x] by (simp_all add: takeWhile_append dropWhile_append)
  have "skip_white (LF # t) = t" using skip_text [OF t] by (simp add: skip_white_def)
  moreover have "takeWhile (\<lambda>c. c \<noteq> NUL) (show_ip x) = show_ip x"
    using show_ip_chars [of _ x] by (fastforce simp: takeWhile_eq_all_conv)
  ultimately have nm: "scan_name ?r cip = Inr (Some (show_ip x), t)" using x by (simp add: scan_name_def sr tw Let_def)
  have v: "to_i32 (clamp_long (int n)) = int n" using e(2) nx by (simp add: INT_MAX_def)
  show ?thesis
    unfolding scan_line_def s k Let_def using is_digit_neq [OF d] w nm v by (simp add: nx foldl_show_nat)
qed

text \<open>What one line adds to the output and to the sum.\<close>

definition counted_ip :: "(ip4 \<times> nat) list \<Rightarrow> nat \<times> ip4 \<Rightarrow> bool" where
  "counted_ip rs e \<longleftrightarrow> (\<exists>r \<in> set rs. in_range (addr (snd e)) r)"

definition line_out :: "(ip4 \<times> nat) list \<Rightarrow> nat \<times> ip4 \<Rightarrow> out_line list" where
  "line_out rs e = (if addr (snd e) = 0 \<or> addr (snd e) = UINT_MAX then [Invalid (show_ip (snd e))]
     else if counted_ip rs e then [Counted (int (fst e)) (show_ip (snd e))] else [])"

definition sum_counted :: "(ip4 \<times> nat) list \<Rightarrow> (nat \<times> ip4) list \<Rightarrow> nat" where
  "sum_counted rs es = sum_list (map fst (filter (counted_ip rs) es))"

lemma not_counted:
  assumes "\<forall>r \<in> set rs. good_range r" "addr (snd e) = 0 \<or> addr (snd e) = UINT_MAX"
  shows "\<not> counted_ip rs e"
  using assms by (auto simp: counted_ip_def good_range_def in_range_def Let_def)

lemma log_loop_text:
  assumes "\<forall>r \<in> set rs. good_range r" "bs = {v. \<exists>r \<in> set rs. in_range v r}"
  shows "es \<noteq> [] \<Longrightarrow> (\<forall>e \<in> set es. valid_ip (snd e) \<and> int (fst e) \<le> INT_MAX) \<Longrightarrow> 0 \<le> tot \<Longrightarrow> tot + int (sum_counted rs es) \<le> INT_MAX
    \<Longrightarrow> length es \<le> fuel \<Longrightarrow> log_loop fuel bs (concat (map log_text es)) c cip tot
      = Inr (Some (concat (map (line_out rs) es), tot + int (sum_counted rs es)))"
proof (induction es arbitrary: fuel c cip tot)
  case (Cons e es)
  obtain f where f: "fuel = Suc f" using Cons.prems by (cases fuel) auto
  let ?t = "concat (map log_text es)"
  have e: "valid_ip (snd e)" "int (fst e) \<le> INT_MAX" using Cons.prems(2) by auto
  have "?t = [] \<or> \<not> is_space (hd ?t)"
  proof (cases es)
    case (Cons e' es')
    obtain d ds where dd: "show_nat (fst e') = d # ds" by (cases "show_nat (fst e')") auto
    then have "is_digit d" using show_nat_digits [of d "fst e'"] by simp
    then show ?thesis using dd is_digit_neq(6) [of d] by (simp add: Cons log_text_def)
  qed simp
  note sc = scan_log_line [OF e this, of c cip]
  have range: "0 \<le> addr (snd e)" "addr (snd e) < 2 ^ 32" using addr_range [OF e(1)] by auto
  have inv: "UINT_MAX \<le> addr (snd e) \<or> addr (snd e) \<le> 0 \<longleftrightarrow> addr (snd e) = 0 \<or> addr (snd e) = UINT_MAX"
    using range by (auto simp: UINT_MAX_def)
  have hit: "addr (snd e) \<in> bs \<longleftrightarrow> counted_ip rs e" by (simp add: assms(2) counted_ip_def)
  have sum: "sum_counted rs (e # es) = (if counted_ip rs e then fst e else 0) + sum_counted rs es"
    by (simp add: sum_counted_def)
  have ne: "?t = [] \<longleftrightarrow> es = []" by (cases es) (simp_all add: log_text_def)
  have nil: "es = [] \<Longrightarrow> sum_counted rs es = 0" by (simp add: sum_counted_def)
  have IH: "es \<noteq> [] \<Longrightarrow> log_loop f bs ?t c1 cip1 t1 = Inr (Some (concat (map (line_out rs) es), t1 + int (sum_counted rs es)))"
    if "0 \<le> t1" "t1 + int (sum_counted rs es) \<le> INT_MAX" for c1 cip1 t1
    using Cons.IH [of t1 f c1 cip1] Cons.prems that f by auto
  have run: "log_loop fuel bs (concat (map log_text (e # es))) c cip tot =
      (if addr (snd e) = 0 \<or> addr (snd e) = UINT_MAX then
         fmap (map_option (apfst ((#) (Invalid (show_ip (snd e))))))
           (if es = [] then Inr (Some ([], tot)) else log_loop f bs ?t (int (fst e)) (Some (show_ip (snd e))) tot)
       else if counted_ip rs e then
         if tot + int (fst e) < - INT_MAX - 1 \<or> INT_MAX < tot + int (fst e) then Inl Signed_overflow
         else fmap (map_option (apfst ((#) (Counted (int (fst e)) (show_ip (snd e))))))
           (if es = [] then Inr (Some ([], tot + int (fst e))) else log_loop f bs ?t (int (fst e)) (Some (show_ip (snd e))) (tot + int (fst e)))
       else if es = [] then Inr (Some ([], tot)) else log_loop f bs ?t (int (fst e)) (Some (show_ip (snd e))) tot)"
    unfolding f log_loop.simps list.map concat.simps sc fbind_Inr prod.case option.case ip2long_show [OF e(1)] inv hit ne by (rule refl)
  consider "addr (snd e) = 0 \<or> addr (snd e) = UINT_MAX" | "\<not> (addr (snd e) = 0 \<or> addr (snd e) = UINT_MAX)" "counted_ip rs e"
    | "\<not> (addr (snd e) = 0 \<or> addr (snd e) = UINT_MAX)" "\<not> counted_ip rs e" by blast
  then show ?case
  proof cases
    case 1
    then show ?thesis
      unfolding run using Cons.prems(3,4) not_counted [OF assms(1) 1] nil sum IH [of tot] by (simp add: line_out_def [of rs e])
  next
    case 2
    then have "0 \<le> tot + int (fst e)" "tot + int (fst e) + int (sum_counted rs es) \<le> INT_MAX" using Cons.prems(3,4) sum by auto
    then show ?thesis
      unfolding run using 2 nil sum IH [of "tot + int (fst e)"] by (simp add: line_out_def [of rs e] INT_MAX_def)
  next
    case 3
    then show ?thesis
      unfolding run using Cons.prems(3,4) nil sum IH [of tot] by (simp add: line_out_def [of rs e])
  qed
qed simp

text \<open>C37. The program on a file of ranges and a log: it prints, in the order of the log, the lines whose address is in a range,
  which means the network bits of the range and not its network address, reports the two addresses that no bit stands
  for, and ends with the sum of the counts printed.\<close>

theorem ip_count:
  assumes "\<forall>r \<in> set rs. good_range r" "es \<noteq> []" "\<forall>e \<in> set es. valid_ip (snd e) \<and> int (fst e) \<le> INT_MAX"
    and "int (sum_counted rs es) \<le> INT_MAX" "length es \<le> fuel"
  shows "ip_main fuel 2 (Some (concat (map cidr_text rs))) (concat (map log_text es))
    = Inr (Some (Inr (concat (map (line_out rs) es), int (sum_counted rs es))))"
proof -
  have "cidr_loop (concat (map cidr_text rs)) {} = Inr {v. \<exists>r \<in> set rs. in_range v r}"
    using cidr_loop_text [OF assms(1), of "{}"] by simp
  then show ?thesis
    using log_loop_text [OF assms(1) refl assms(2,3), of 0 fuel 0 None] assms(4,5) by (simp add: ip_main_def)
qed

text \<open>A log line that does not begin with a number is never passed: the scan stops in front of it every time, so the loop has
  no result, with any fuel. (The line before is reported again and again, until its counts overflow the sum.)\<close>

theorem ip_log_stuck:
  assumes "\<not> is_space x" "\<not> is_digit x" "x \<noteq> CHR ''-''" "x \<noteq> CHR ''+''"
  shows "log_loop fuel bs (x # s) c cip tot \<noteq> Inr (Some r)"
proof (induction fuel arbitrary: tot r)
  case (Suc fuel)
  have sc: "scan_line (x # s) c cip = Inr (c, cip, x # s)"
    using assms by (simp add: scan_line_def skip_white_def)
  have z: "log_loop fuel bs (x # s) c cip t = Inr (Some (o1, n)) \<longleftrightarrow> False" for t o1 n using Suc.IH by simp
  have ne: "x # s \<noteq> []" by simp
  show ?case
  proof (cases cip)
    case (Some ip)
    show ?thesis
      unfolding log_loop.simps sc fbind_Inr prod.case if_not_P [OF ne] using z
      unfolding Some option.case by (cases r) (auto simp: fbind_eq_Inr fmap_eq_Inr split: if_splits)
  next
    case None
    show ?thesis unfolding log_loop.simps sc fbind_Inr prod.case unfolding None by simp
  qed
qed simp

text \<open>A log without lines: the first turn looks at an address that was never stored.\<close>

lemma empty_log: "log_loop (Suc fuel) bs [] c None tot = Inl Indeterminate_value"
  by (simp add: scan_line_def skip_white_def)

text \<open>A single host counts nothing, and neither does the network address of any range.\<close>

lemma single_host_empty: "\<not> in_range v (x, 32)"
  by (simp add: in_range_def)

lemma network_address_out: "addr x mod 2 ^ (32 - m) = 0 \<Longrightarrow> \<not> in_range (addr x) (x, m)"
  by (simp add: in_range_def)

text \<open>A last line without a line end loses the last digit of its mask.\<close>

lemma last_line_cut: "NUL \<notin> set l \<Longrightarrow> cidr_line (l @ [d]) bs = cidr_line (l @ [LF]) bs" if "d \<noteq> NUL"
  using that by (simp add: cidr_line_def Let_def takeWhile_append)

text \<open>A range whose address is not one ends the program: the error code of \<open>ip2long\<close> is taken for an address.\<close>

lemma bad_address_throws: "cidr_line (''10.1.2/24'' @ [LF]) bs = Inl Out_of_bounds"
proof -
  have "cut CHR ''/'' ''10.1.2/24'' = Some (''10.1.2'', ''24'')" "c_atol ''24'' = 24" "ip2long (Some ''10.1.2'') = Inr (- 3)" by code_simp+
  moreover have "((- 3 :: int) AND - 256) = - 256" by code_simp
  moreover have "set_bits (- 255) 0 bs = Inl Out_of_bounds" by (simp add: set_bits.simps)
  ultimately show ?thesis by (simp add: cidr_line_def get_first_ip_def c_long_def)
qed

lemma ip_count_witness:
  "ip_main 3 2 (Some (concat (map cidr_text [((10, 1, 2, 0), 24)]))) (concat (map log_text [(5, (10, 1, 2, 7)), (6, (10, 1, 3, 7)), (7, (10, 1, 2, 0))]))
    = Inr (Some (Inr ([Counted 5 (show_ip (10, 1, 2, 7))], 5)))"
  using ip_count [of "[((10, 1, 2, 0), 24)]" "[(5, (10, 1, 2, 7)), (6, (10, 1, 3, 7)), (7, (10, 1, 2, 0))]" 3]
  by (simp add: good_range_def in_range_def line_out_def counted_ip_def sum_counted_def UINT_MAX_def INT_MAX_def Let_def)

lemma ip_log_stuck_witness: "\<forall>fuel r. log_loop fuel {1} ''# 5 1.2.3.4'' 0 None 0 \<noteq> Inr (Some r)"
  by (intro allI ip_log_stuck) (simp_all add: is_space_def is_digit_def)

end
