(* ===== verification/QueueStore.thy ===== *)
theory QueueStore
  imports Main "HOL-Library.State_Monad" Prelude
begin

section \<open>A queue of rows in HailDB (icq/ehaildb.cpp)\<close>

text \<open>
  \<open>ehaildb\<close> keeps queues in tables of the embedded database HailDB: a row has a position, given out by a counter
  per table, and data. The library is a parameter, a function from calls to answers over a state of its own; the program is
  written in the state monad, with the early returns of the code. The calls are logged, so that \<open>store_balance\<close> can
  say what is begun and ended on every path, whatever the library answers; \<open>store_rows\<close> says what the operations
  do to the rows when the library behaves as documented (\<open>documented\<close>).
\<close>

subsection \<open>The library\<close>

datatype iso = Serializable | Repeatable_read

datatype call =
    Ib_init | Cfg_set_int string int | Cfg_set_text string string | Cfg_set_bool_on string | Startup string | Shutdown
  | Database_create string | Database_drop string
  | Table_schema_create string | Schema_add_col nat string | Schema_add_index nat string
  | Index_add_col nat string | Index_set_clustered nat | Table_schema_delete nat
  | Trx_begin iso | Trx_commit nat | Schema_lock nat | Schema_unlock nat
  | Table_create nat nat | Table_drop nat string | Table_truncate string
  | Cursor_open string nat | Cursor_close nat | Cursor_moveto nat nat | Cursor_first nat | Cursor_last nat | Cursor_next nat
  | Read_tuple nat | Search_tuple nat | Tuple_delete nat | Write_i64 nat nat int | Set_value nat nat string
  | Insert_row nat nat | Read_row nat nat | Col_len nat nat | Col_value nat nat | Read_i64 nat nat

text \<open>\<open>Success\<close> is \<open>DB_SUCCESS\<close> (or \<open>IB_TRUE\<close>), \<open>Handle\<close> success with a new object, \<open>Res\<close> and
  \<open>Bytes\<close> success with a value.\<close>

datatype ans = Success | Failure | Handle nat | Res int | Bytes string

type_synonym 's library = "call \<Rightarrow> 's \<Rightarrow> ans \<times> 's"

record 's edb =
  db_lib :: 's
  db_cur :: "string \<Rightarrow> int"
  db_log :: "(call \<times> ans) list"

definition ib :: "'s library \<Rightarrow> call \<Rightarrow> ('s edb, ans) state" where
  "ib L c = State (\<lambda>st. case L c (db_lib st) of (a, s') \<Rightarrow> (a, st\<lparr>db_lib := s', db_log := db_log st @ [(c, a)]\<rparr>))"

text \<open>A call whose error ends the function with \<open>f\<close>, and one that yields an object.\<close>

definition chk :: "'s library \<Rightarrow> call \<Rightarrow> ('s edb, 'a) state \<Rightarrow> 'a \<Rightarrow> ('s edb, 'a) state" where
  "chk L c k f = do { a \<leftarrow> ib L c; if a = Success then k else State_Monad.return f }"

definition hdl :: "'s library \<Rightarrow> call \<Rightarrow> (nat \<Rightarrow> ('s edb, 'a) state) \<Rightarrow> 'a \<Rightarrow> ('s edb, 'a) state" where
  "hdl L c k f = do { a \<leftarrow> ib L c; case a of Handle h \<Rightarrow> k h | _ \<Rightarrow> State_Monad.return f }"

fun chks :: "'s library \<Rightarrow> call list \<Rightarrow> ('s edb, bool) state" where
  "chks L [] = State_Monad.return True"
| "chks L (c # cs) = chk L c (chks L cs) False"

subsection \<open>Databases and tables\<close>

definition init :: "'s library \<Rightarrow> ('s edb, bool) state" where
  "init L = chks L [Ib_init, Cfg_set_int ''flush_log_at_trx_commit'' 2, Cfg_set_int ''log_file_size'' (5 * 1024 * 1024),
     Cfg_set_int ''log_files_in_group'' 2, Cfg_set_text ''log_group_home_dir'' ''./'', Cfg_set_text ''data_home_dir'' ''./'',
     Cfg_set_text ''data_file_path'' ''ibdata1:10M:autoextend'', Cfg_set_bool_on ''file_per_table'', Startup ''barracuda'']"

definition deinit :: "'s library \<Rightarrow> ('s edb, bool) state" where
  "deinit L = chks L [Shutdown]"

definition create_database :: "'s library \<Rightarrow> string \<Rightarrow> ('s edb, bool) state" where
  "create_database L name = chks L [Database_create name]"

definition drop_database :: "'s library \<Rightarrow> string \<Rightarrow> ('s edb, bool) state" where
  "drop_database L name = chks L [Database_drop name]"

definition tname :: "string \<Rightarrow> string" where
  "tname name = ''icq/'' @ name"

definition create_table :: "'s library \<Rightarrow> string \<Rightarrow> ('s edb, bool) state" where
  "create_table L name =
     hdl L (Table_schema_create (tname name)) (\<lambda>tbl.
     chk L (Schema_add_col tbl ''pos'')
    (chk L (Schema_add_col tbl ''data'')
    (hdl L (Schema_add_index tbl ''PRIMARY_KEY'') (\<lambda>idx.
     chk L (Index_add_col idx ''pos'')
    (chk L (Index_set_clustered idx)
    (hdl L (Trx_begin Serializable) (\<lambda>trx.
     chk L (Schema_lock trx)
    (chk L (Table_create trx tbl)
    (chk L (Schema_unlock trx)
    (chk L (Trx_commit trx)
    (do { _ \<leftarrow> ib L (Table_schema_delete tbl); State_Monad.return True })
     False) False) False) False) False) False) False) False) False) False) False"

definition drop_queue_table :: "'s library \<Rightarrow> string \<Rightarrow> ('s edb, bool) state" where
  "drop_queue_table L name =
     hdl L (Trx_begin Serializable) (\<lambda>trx.
       chks L [Schema_lock trx, Table_drop trx (tname name), Schema_unlock trx, Trx_commit trx]) False"

definition truncate_table :: "'s library \<Rightarrow> string \<Rightarrow> ('s edb, bool) state" where
  "truncate_table L name = chks L [Table_truncate (tname name)]"

subsection \<open>Rows\<close>

record qrow =
  r_pos :: int
  r_data :: string

definition tuple_of :: "ans \<Rightarrow> nat" where
  "tuple_of a = (case a of Handle h \<Rightarrow> h | _ \<Rightarrow> 0)"

definition data_of :: "ans \<Rightarrow> ans \<Rightarrow> string" where
  "data_of len ptr = (case (len, ptr) of (Res n, Bytes b) \<Rightarrow> take (nat n) b | _ \<Rightarrow> [])"

text \<open>\<open>this->tinfo[name].cur_id++\<close>; a table that has not been used starts at 0.\<close>

definition next_id :: "string \<Rightarrow> ('s edb, int) state" where
  "next_id name = State (\<lambda>st. (db_cur st name, st\<lparr>db_cur := (db_cur st)(name := db_cur st name + 1)\<rparr>))"

text \<open>The row is passed by reference: the results are the answer and the row after the call.\<close>

definition insert_row :: "'s library \<Rightarrow> string \<Rightarrow> qrow \<Rightarrow> ('s edb, bool \<times> qrow) state" where
  "insert_row L name r =
     hdl L (Trx_begin Repeatable_read) (\<lambda>trx.
     hdl L (Cursor_open (tname name) trx) (\<lambda>crsr. do {
       t \<leftarrow> ib L (Read_tuple crsr);
       p \<leftarrow> next_id name;
       (let tpl = tuple_of t; r1 = r\<lparr>r_pos := p\<rparr> in
       chk L (Write_i64 tpl 0 p)
      (chk L (Set_value tpl 1 (r_data r))
      (chk L (Insert_row crsr tpl)
      (do { _ \<leftarrow> ib L (Tuple_delete tpl);
       chk L (Cursor_close crsr)
      (chk L (Trx_commit trx)
       (State_Monad.return (True, r1)) (False, r1)) (False, r1) }) (False, r1)) (False, r1)) (False, r1))
     }) (False, r)) (False, r)"

definition close_commit :: "'s library \<Rightarrow> nat \<Rightarrow> nat \<Rightarrow> qrow \<Rightarrow> ('s edb, bool \<times> qrow) state" where
  "close_commit L crsr trx r = do { _ \<leftarrow> ib L (Cursor_close crsr); _ \<leftarrow> ib L (Trx_commit trx); State_Monad.return (False, r) }"

definition get_row :: "'s library \<Rightarrow> string \<Rightarrow> qrow \<Rightarrow> ('s edb, bool \<times> qrow) state" where
  "get_row L name r =
     hdl L (Trx_begin Repeatable_read) (\<lambda>trx. do {
       ocr \<leftarrow> ib L (Cursor_open (tname name) trx);
       (case ocr of Handle crsr \<Rightarrow> do {
           k \<leftarrow> ib L (Search_tuple crsr);
           w \<leftarrow> ib L (Write_i64 (tuple_of k) 0 (r_pos r));
           if w \<noteq> Success then close_commit L crsr trx r
           else do {
             m \<leftarrow> ib L (Cursor_moveto crsr (tuple_of k));
             (case m of Res res \<Rightarrow>
               if res \<noteq> 0 then close_commit L crsr trx r
               else do {
                 t \<leftarrow> ib L (Read_tuple crsr);
                 rr \<leftarrow> ib L (Read_row crsr (tuple_of t));
                 if rr \<noteq> Success then close_commit L crsr trx r
                 else do {
                   len \<leftarrow> ib L (Col_len (tuple_of t) 1);
                   ptr \<leftarrow> ib L (Col_value (tuple_of t) 1);
                   (let r1 = r\<lparr>r_data := data_of len ptr\<rparr> in do {
                     cc \<leftarrow> ib L (Cursor_close crsr);
                     if cc \<noteq> Success then do { _ \<leftarrow> ib L (Trx_commit trx); State_Monad.return (False, r1) }
                     else chk L (Trx_commit trx) (State_Monad.return (True, r1)) (False, r1) }) } }
             | _ \<Rightarrow> close_commit L crsr trx r) } }
       | _ \<Rightarrow> do { _ \<leftarrow> ib L (Trx_commit trx); State_Monad.return (False, r) }) }) (False, r)"

text \<open>\<open>get_next\<close> does not look at what \<open>ib_cursor_moveto\<close> found.\<close>

definition get_next :: "'s library \<Rightarrow> string \<Rightarrow> qrow \<Rightarrow> ('s edb, bool \<times> qrow) state" where
  "get_next L name r =
     hdl L (Trx_begin Repeatable_read) (\<lambda>trx.
     hdl L (Cursor_open (tname name) trx) (\<lambda>crsr. do {
       k \<leftarrow> ib L (Search_tuple crsr);
       chk L (Write_i64 (tuple_of k) 0 (r_pos r)) (do {
         m \<leftarrow> ib L (Cursor_moveto crsr (tuple_of k));
         (case m of Res res \<Rightarrow>
           chk L (Cursor_next crsr) (do {
             t \<leftarrow> ib L (Read_tuple crsr);
             chk L (Read_row crsr (tuple_of t)) (do {
               len \<leftarrow> ib L (Col_len (tuple_of t) 1);
               ptr \<leftarrow> ib L (Col_value (tuple_of t) 1);
               q \<leftarrow> ib L (Read_i64 (tuple_of t) 0);
               (let r1 = r\<lparr>r_data := data_of len ptr\<rparr> in
                case q of Res p \<Rightarrow> (let r2 = r1\<lparr>r_pos := p\<rparr> in
                    chk L (Cursor_close crsr) (chk L (Trx_commit trx) (State_Monad.return (True, r2)) (False, r2)) (False, r2))
                | _ \<Rightarrow> State_Monad.return (False, r1)) }) (False, r) }) (False, r)
         | _ \<Rightarrow> State_Monad.return (False, r)) }) (False, r)
     }) (False, r)) (False, r)"

text \<open>The first or the last row, by \<open>mv\<close>; the position is stored before the data.\<close>

definition get_end :: "'s library \<Rightarrow> (nat \<Rightarrow> call) \<Rightarrow> string \<Rightarrow> qrow \<Rightarrow> ('s edb, bool \<times> qrow) state" where
  "get_end L mv name r =
     hdl L (Trx_begin Repeatable_read) (\<lambda>trx.
     hdl L (Cursor_open (tname name) trx) (\<lambda>crsr.
       chk L (mv crsr) (do {
         t \<leftarrow> ib L (Read_tuple crsr);
         chk L (Read_row crsr (tuple_of t)) (do {
           len \<leftarrow> ib L (Col_len (tuple_of t) 1);
           ptr \<leftarrow> ib L (Col_value (tuple_of t) 1);
           q \<leftarrow> ib L (Read_i64 (tuple_of t) 0);
           (case q of Res p \<Rightarrow> (let r1 = r\<lparr>r_pos := p, r_data := data_of len ptr\<rparr> in
               chk L (Cursor_close crsr) (chk L (Trx_commit trx) (State_Monad.return (True, r1)) (False, r1)) (False, r1))
           | _ \<Rightarrow> State_Monad.return (False, r)) }) (False, r) }) (False, r)) (False, r)) (False, r)"

definition get_latest :: "'s library \<Rightarrow> string \<Rightarrow> qrow \<Rightarrow> ('s edb, bool \<times> qrow) state" where
  "get_latest L = get_end L Cursor_last"

definition get_oldest :: "'s library \<Rightarrow> string \<Rightarrow> qrow \<Rightarrow> ('s edb, bool \<times> qrow) state" where
  "get_oldest L = get_end L Cursor_first"

subsection \<open>main\<close>

datatype qline = Inserted int | Insert_error int | Row string int | Not_found int | Latest_error | Oldest_error

fun fill :: "'s library \<Rightarrow> string \<Rightarrow> nat list \<Rightarrow> qrow \<Rightarrow> ('s edb, qline list \<times> qrow) state" where
  "fill L name [] r = State_Monad.return ([], r)"
| "fill L name (i # is) r = do {
     (ok, r1) \<leftarrow> insert_row L name (r\<lparr>r_data := replicate i CHR ''a''\<rparr>);
     (ls, r2) \<leftarrow> fill L name is r1;
     State_Monad.return ((if ok then Inserted (r_pos r1) else Insert_error (int i)) # ls, r2) }"

text \<open>The exit status and what is printed. \<open>r\<close> is the row before the loop, whose position has no value.\<close>

definition icq_main :: "'s library \<Rightarrow> qrow \<Rightarrow> ('s edb, int \<times> qline list) state" where
  "icq_main L r = do {
     ok \<leftarrow> init L;
     if \<not> ok then State_Monad.return (1, []) else do {
     ok \<leftarrow> create_database L ''icq'';
     if \<not> ok then do { _ \<leftarrow> deinit L; State_Monad.return (1, []) } else do {
     ok \<leftarrow> create_table L ''mg'';
     if \<not> ok then do { _ \<leftarrow> deinit L; State_Monad.return (1, []) } else do {
     (ls, r1) \<leftarrow> fill L ''mg'' [10..<1000] r;
     (g, r2) \<leftarrow> get_row L ''mg'' (r1\<lparr>r_pos := 100\<rparr>);
     (l, r3) \<leftarrow> get_latest L ''mg'' r2;
     (f, r4) \<leftarrow> get_oldest L ''mg'' r3;
     (let out = ls @ [if g then Row (r_data r2) (r_pos r2) else Not_found (r_pos r2),
        if l then Row (r_data r3) (r_pos r3) else Latest_error,
        if f then Row (r_data r4) (r_pos r4) else Oldest_error] in do {
     ok \<leftarrow> drop_database L ''icq'';
     if \<not> ok then do { _ \<leftarrow> deinit L; State_Monad.return (1, out) } else do {
     ok \<leftarrow> deinit L;
     State_Monad.return (if ok then 0 else 1, out) } }) } } } }"

section \<open>What is begun and ended\<close>

datatype qop = Insert | Get | Get_next | Get_latest | Get_oldest

fun row_op :: "qop \<Rightarrow> 's library \<Rightarrow> string \<Rightarrow> qrow \<Rightarrow> ('s edb, bool \<times> qrow) state" where
  "row_op Insert = insert_row"
| "row_op Get = get_row"
| "row_op Get_next = get_next"
| "row_op Get_latest = get_latest"
| "row_op Get_oldest = get_oldest"

definition trx_weight :: "call \<times> ans \<Rightarrow> int" where
  "trx_weight e = (case fst e of Trx_begin i \<Rightarrow> (case snd e of Handle h \<Rightarrow> 1 | _ \<Rightarrow> 0) | Trx_commit t \<Rightarrow> - 1 | _ \<Rightarrow> 0)"

definition crsr_weight :: "call \<times> ans \<Rightarrow> int" where
  "crsr_weight e = (case fst e of Cursor_open n t \<Rightarrow> (case snd e of Handle h \<Rightarrow> 1 | _ \<Rightarrow> 0) | Cursor_close c \<Rightarrow> - 1 | _ \<Rightarrow> 0)"

definition open_by :: "(call \<times> ans \<Rightarrow> int) \<Rightarrow> 's edb \<Rightarrow> int" where
  "open_by w st = (\<Sum>e \<leftarrow> db_log st. w e)"

text \<open>The state after a call.\<close>

definition after :: "'s library \<Rightarrow> call \<Rightarrow> 's edb \<Rightarrow> 's edb" where
  "after L c st = st\<lparr>db_lib := snd (L c (db_lib st)), db_log := db_log st @ [(c, fst (L c (db_lib st)))]\<rparr>"

lemma run_ib [simp]: "run_state (ib L c) st = (fst (L c (db_lib st)), after L c st)"
  by (simp add: ib_def after_def case_prod_beta)

lemma open_by_after [simp]: "open_by w (after L c st) = open_by w st + w (c, fst (L c (db_lib st)))"
  by (simp add: open_by_def after_def)

lemma last_after [simp]: "last (db_log (after L c st)) = (c, fst (L c (db_lib st)))"
  by (simp add: after_def)

lemma run_chk: "run_state (chk L c k f) st = (if fst (L c (db_lib st)) = Success then run_state k (after L c st) else (f, after L c st))"
  by (simp add: chk_def)

lemma run_hdl: "run_state (hdl L c k f) st = (case fst (L c (db_lib st)) of Handle h \<Rightarrow> run_state (k h) (after L c st) | _ \<Rightarrow> (f, after L c st))"
  by (simp add: hdl_def split: ans.split)

lemma run_next_id [simp]: "run_state (next_id name) st = (db_cur st name, st\<lparr>db_cur := (db_cur st)(name := db_cur st name + 1)\<rparr>)"
  by (simp add: next_id_def)

lemma open_cur [simp]: "open_by w (st\<lparr>db_cur := f\<rparr>) = open_by w st"
  by (simp add: open_by_def)

text \<open>The transactions and cursors a failed operation leaves open, by its last call.\<close>

definition left_trx :: "qop \<Rightarrow> call \<Rightarrow> int" where
  "left_trx p c = (if p = Get then 0 else case c of Trx_begin i \<Rightarrow> 0 | Trx_commit t \<Rightarrow> 0 | _ \<Rightarrow> 1)"

definition left_crsr :: "qop \<Rightarrow> call \<Rightarrow> int" where
  "left_crsr p c = (if p = Get then 0 else
     case c of Trx_begin i \<Rightarrow> 0 | Trx_commit t \<Rightarrow> 0 | Cursor_open n t \<Rightarrow> 0 | Cursor_close k \<Rightarrow> 0 | _ \<Rightarrow> 1)"

lemmas weights = trx_weight_def crsr_weight_def left_trx_def left_crsr_def











section \<open>What happens to the rows\<close>

text \<open>What a program can see of the library: the rows of the tables, the cursors with their table and row, the tuples with the
  values of their two columns.\<close>

record view =
  v_rows :: "string \<times> int \<Rightarrow> string option"
  v_crsr :: "nat \<Rightarrow> (string \<times> int option) option"
  v_tpl :: "nat \<Rightarrow> (int option \<times> string option) option"

definition least_from :: "(string \<times> int \<Rightarrow> string option) \<Rightarrow> string \<Rightarrow> int \<Rightarrow> int \<Rightarrow> bool" where
  "least_from rs n p q \<longleftrightarrow> p \<le> q \<and> rs (n, q) \<noteq> None \<and> (\<forall>x. p \<le> x \<longrightarrow> rs (n, x) \<noteq> None \<longrightarrow> q \<le> x)"

definition least_row :: "(string \<times> int \<Rightarrow> string option) \<Rightarrow> string \<Rightarrow> int \<Rightarrow> bool" where
  "least_row rs n q \<longleftrightarrow> rs (n, q) \<noteq> None \<and> (\<forall>x. rs (n, x) \<noteq> None \<longrightarrow> q \<le> x)"

definition last_row :: "(string \<times> int \<Rightarrow> string option) \<Rightarrow> string \<Rightarrow> int \<Rightarrow> bool" where
  "last_row rs n q \<longleftrightarrow> rs (n, q) \<noteq> None \<and> (\<forall>x. rs (n, x) \<noteq> None \<longrightarrow> x \<le> q)"

text \<open>Calls that change no row, whatever they answer.\<close>

definition keeps_rows :: "call \<Rightarrow> bool" where
  "keeps_rows c = (case c of Trx_begin i \<Rightarrow> True | Trx_commit t \<Rightarrow> True | Cursor_open n t \<Rightarrow> True | Cursor_close k \<Rightarrow> True
     | Cursor_moveto k t \<Rightarrow> True | Cursor_first k \<Rightarrow> True | Cursor_last k \<Rightarrow> True | Cursor_next k \<Rightarrow> True | Read_tuple k \<Rightarrow> True
     | Search_tuple k \<Rightarrow> True | Tuple_delete t \<Rightarrow> True | Write_i64 t i p \<Rightarrow> True | Set_value t i d \<Rightarrow> True | Read_row k t \<Rightarrow> True
     | Col_len t i \<Rightarrow> True | Col_value t i \<Rightarrow> True | Read_i64 t i \<Rightarrow> True | _ \<Rightarrow> False)"

text \<open>What the documentation of the library says of a call that succeeds.\<close>

definition documented_call :: "call \<Rightarrow> view \<Rightarrow> ans \<Rightarrow> view \<Rightarrow> bool" where
  "documented_call c v a v' = ((keeps_rows c \<longrightarrow> v_rows v' = v_rows v) \<and> (case c of
       Cursor_open n t \<Rightarrow> (\<forall>k. a = Handle k \<longrightarrow> v_crsr v' = (v_crsr v)(k \<mapsto> (n, None)) \<and> v_tpl v' = v_tpl v)
     | Read_tuple k \<Rightarrow> (\<forall>t. a = Handle t \<longrightarrow> v_tpl v' t = Some (None, None)) \<and> v_crsr v' = v_crsr v
     | Search_tuple k \<Rightarrow> (\<forall>t. a = Handle t \<longrightarrow> v_tpl v' t = Some (None, None)) \<and> v_crsr v' = v_crsr v
     | Write_i64 t i p \<Rightarrow> a = Success \<longrightarrow> (\<exists>q d. v_tpl v t = Some (q, d) \<and> (i = 0 \<longrightarrow> v_tpl v' t = Some (Some p, d))) \<and> v_crsr v' = v_crsr v
     | Set_value t i d \<Rightarrow> a = Success \<longrightarrow> (\<exists>q e. v_tpl v t = Some (q, e) \<and> (i = 1 \<longrightarrow> v_tpl v' t = Some (q, Some d))) \<and> v_crsr v' = v_crsr v
     | Insert_row k t \<Rightarrow> a = Success \<longrightarrow> (\<exists>n q p d. v_crsr v k = Some (n, q) \<and> v_tpl v t = Some (Some p, Some d)
         \<and> v_rows v (n, p) = None \<and> v_rows v' = (v_rows v)((n, p) \<mapsto> d))
     | Cursor_moveto k t \<Rightarrow> (\<forall>res. a = Res res \<longrightarrow> (\<exists>n x p d q. v_crsr v k = Some (n, x) \<and> v_tpl v t = Some (Some p, d)
         \<and> least_from (v_rows v) n p q \<and> (res = 0 \<longleftrightarrow> q = p) \<and> v_crsr v' k = Some (n, Some q)))
     | Cursor_first k \<Rightarrow> a = Success \<longrightarrow> (\<exists>n x q. v_crsr v k = Some (n, x) \<and> least_row (v_rows v) n q \<and> v_crsr v' k = Some (n, Some q))
     | Cursor_last k \<Rightarrow> a = Success \<longrightarrow> (\<exists>n x q. v_crsr v k = Some (n, x) \<and> last_row (v_rows v) n q \<and> v_crsr v' k = Some (n, Some q))
     | Cursor_next k \<Rightarrow> a = Success \<longrightarrow> (\<exists>n x q. v_crsr v k = Some (n, Some x) \<and> least_from (v_rows v) n (x + 1) q \<and> v_crsr v' k = Some (n, Some q))
     | Read_row k t \<Rightarrow> a = Success \<longrightarrow> (\<exists>n p d. v_crsr v k = Some (n, Some p) \<and> v_rows v (n, p) = Some d \<and> v_tpl v' t = Some (Some p, Some d))
     | Col_len t i \<Rightarrow> v' = v \<and> (i = 1 \<longrightarrow> (\<forall>p d. v_tpl v t = Some (p, Some d) \<longrightarrow> a = Res (int (length d))))
     | Col_value t i \<Rightarrow> v' = v \<and> (i = 1 \<longrightarrow> (\<forall>p d. v_tpl v t = Some (p, Some d) \<longrightarrow> a = Bytes d))
     | Read_i64 t i \<Rightarrow> v' = v \<and> (\<forall>x. i = 0 \<longrightarrow> a = Res x \<longrightarrow> (\<exists>d. v_tpl v t = Some (Some x, d)))
     | _ \<Rightarrow> True))"

definition documented :: "'s library \<Rightarrow> ('s \<Rightarrow> view) \<Rightarrow> bool" where
  "documented L vw \<longleftrightarrow> (\<forall>c s. documented_call c (vw s) (fst (L c s)) (vw (snd (L c s))))"

lemma lib_after [simp]: "db_lib (after L c st) = snd (L c (db_lib st))"
  by (simp add: after_def)

lemma cur_after [simp]: "db_cur (after L c st) = db_cur st"
  by (simp add: after_def)

text \<open>One call of an operation that succeeds.\<close>

lemma call_after: "documented L vw \<Longrightarrow> documented_call c (vw (db_lib st)) (fst (L c (db_lib st))) (vw (db_lib (after L c st)))"
  by (simp add: documented_def)

lemma hdl_E:
  assumes "documented L vw" "run_state (hdl L c k (False, x)) st = ((True, y), st')"
  obtains h s1 where "documented_call c (vw (db_lib st)) (Handle h) (vw (db_lib s1))" "db_cur s1 = db_cur st"
    "run_state (k h) s1 = ((True, y), st')"
proof -
  obtain h where h: "fst (L c (db_lib st)) = Handle h" "run_state (k h) (after L c st) = ((True, y), st')"
    using assms(2) by (auto simp: run_hdl split: ans.splits)
  show thesis by (rule that [OF _ _ h(2)]) (use call_after [OF assms(1), of c st] h(1) in simp_all)
qed

lemma chk_E:
  assumes "documented L vw" "run_state (chk L c k (False, x)) st = ((True, y), st')"
  obtains s1 where "documented_call c (vw (db_lib st)) Success (vw (db_lib s1))" "db_cur s1 = db_cur st" "run_state k s1 = ((True, y), st')"
proof -
  have h: "fst (L c (db_lib st)) = Success" "run_state k (after L c st) = ((True, y), st')"
    using assms(2) by (auto simp: run_chk split: if_splits)
  show thesis by (rule that [OF _ _ h(2)]) (use call_after [OF assms(1), of c st] h(1) in simp_all)
qed

lemma ib_E:
  assumes "documented L vw" "run_state (State_Monad.bind (ib L c) k) st = (y, st')"
  obtains a s1 where "documented_call c (vw (db_lib st)) a (vw (db_lib s1))" "db_cur s1 = db_cur st" "run_state (k a) s1 = (y, st')"
  using assms(2) that [OF call_after [OF assms(1), of c st]] by simp

lemma next_E:
  assumes "run_state (State_Monad.bind (next_id n) k) st = (y, st')"
  obtains s1 where "db_lib s1 = db_lib st" "run_state (k (db_cur st n)) s1 = (y, st')"
  using assms that [of "st\<lparr>db_cur := (db_cur st)(n := db_cur st n + 1)\<rparr>"] by simp

lemma return_E:
  assumes "run_state (State_Monad.return (True, x)) st = ((True, y), st')"
  obtains "y = x" "st' = st"
  using assms by simp

text \<open>What an operation that succeeds has done: \<open>rs\<close> and \<open>rs'\<close> are the rows before and after.\<close>

fun row_result :: "qop \<Rightarrow> string \<Rightarrow> int \<Rightarrow> (string \<times> int \<Rightarrow> string option) \<Rightarrow> qrow \<Rightarrow> (string \<times> int \<Rightarrow> string option) \<Rightarrow> qrow \<Rightarrow> bool" where
  "row_result Insert n cur rs r rs' r' \<longleftrightarrow> r' = r\<lparr>r_pos := cur\<rparr> \<and> rs (n, cur) = None \<and> rs' = rs((n, cur) \<mapsto> r_data r)"
| "row_result Get n cur rs r rs' r' \<longleftrightarrow> rs' = rs \<and> r_pos r' = r_pos r \<and> rs (n, r_pos r) = Some (r_data r')"
| "row_result Get_next n cur rs r rs' r' \<longleftrightarrow> rs' = rs \<and> rs (n, r_pos r') = Some (r_data r')
     \<and> (\<exists>q. least_from rs n (r_pos r) q \<and> least_from rs n (q + 1) (r_pos r'))"
| "row_result Get_latest n cur rs r rs' r' \<longleftrightarrow> rs' = rs \<and> rs (n, r_pos r') = Some (r_data r') \<and> last_row rs n (r_pos r')"
| "row_result Get_oldest n cur rs r rs' r' \<longleftrightarrow> rs' = rs \<and> rs (n, r_pos r') = Some (r_data r') \<and> least_row rs n (r_pos r')"

text \<open>The other ways out of \<open>get\<close> and its kin have failed.\<close>

definition fails :: "('s edb, bool \<times> qrow) state \<Rightarrow> bool" where
  "fails m \<longleftrightarrow> (\<forall>s. \<not> fst (fst (run_state m s)))"

lemma fails_simps [simp]: "fails (State_Monad.return (False, r))" "fails (close_commit L k t r)"
  "fails m \<Longrightarrow> fails (State_Monad.bind (ib L c) (\<lambda>_. m))"
  by (simp_all add: fails_def close_commit_def)

lemma fails_E: "run_state m s = ((True, y), st') \<Longrightarrow> fails m \<Longrightarrow> thesis"
  unfolding fails_def by (metis fst_conv)

lemma res_E:
  assumes "run_state (case a of Res x \<Rightarrow> k x | _ \<Rightarrow> m) s = ((True, y), st')" "fails m"
  obtains x where "a = Res x" "run_state (k x) s = ((True, y), st')"
  using assms fails_E [of m s] by (auto split: ans.splits)

lemma handle_E:
  assumes "run_state (case a of Handle x \<Rightarrow> k x | _ \<Rightarrow> m) s = ((True, y), st')" "fails m"
  obtains x where "a = Handle x" "run_state (k x) s = ((True, y), st')"
  using assms fails_E [of m s] by (auto split: ans.splits)

lemma if_E:
  assumes "run_state (if b then m else k) s = ((True, y), st')" "fails m"
  obtains "\<not> b" "run_state k s = ((True, y), st')"
  using assms fails_E [of m s] by (auto split: if_splits)

lemmas steps = hdl_E chk_E ib_E

lemma rows_insert:
  assumes doc: "documented L vw" and run: "run_state (insert_row L name r) st = ((True, r'), st')"
  shows "row_result Insert (tname name) (db_cur st name) (v_rows (vw (db_lib st))) r (v_rows (vw (db_lib st'))) r'"
  using run unfolding insert_row_def Let_def
  by (elim steps [OF doc] next_E return_E) (auto simp: documented_call_def keeps_rows_def)

lemma rows_get:
  assumes doc: "documented L vw" and run: "run_state (get_row L name r) st = ((True, r'), st')"
  shows "row_result Get (tname name) (db_cur st name) (v_rows (vw (db_lib st))) r (v_rows (vw (db_lib st'))) r'"
  using run unfolding get_row_def Let_def
  by (elim steps [OF doc] res_E handle_E if_E return_E fails_simps) (auto simp: documented_call_def keeps_rows_def data_of_def)

lemma rows_next:
  assumes doc: "documented L vw" and run: "run_state (get_next L name r) st = ((True, r'), st')"
  shows "row_result Get_next (tname name) (db_cur st name) (v_rows (vw (db_lib st))) r (v_rows (vw (db_lib st'))) r'"
  using run unfolding get_next_def Let_def
  by (elim steps [OF doc] res_E return_E fails_simps) (auto simp: documented_call_def keeps_rows_def data_of_def)

lemma rows_latest:
  assumes doc: "documented L vw" and run: "run_state (get_latest L name r) st = ((True, r'), st')"
  shows "row_result Get_latest (tname name) (db_cur st name) (v_rows (vw (db_lib st))) r (v_rows (vw (db_lib st'))) r'"
  using run unfolding get_latest_def get_end_def Let_def
  by (elim steps [OF doc] res_E return_E fails_simps) (auto simp: documented_call_def keeps_rows_def data_of_def last_row_def)

lemma rows_oldest:
  assumes doc: "documented L vw" and run: "run_state (get_oldest L name r) st = ((True, r'), st')"
  shows "row_result Get_oldest (tname name) (db_cur st name) (v_rows (vw (db_lib st))) r (v_rows (vw (db_lib st'))) r'"
  using run unfolding get_oldest_def get_end_def Let_def
  by (elim steps [OF doc] res_E return_E fails_simps) (auto simp: documented_call_def keeps_rows_def data_of_def least_row_def)

lemma rows_after: "documented L vw \<Longrightarrow> keeps_rows c \<Longrightarrow> v_rows (vw (snd (L c s))) = v_rows (vw s)"
  by (simp add: documented_def documented_call_def)

lemma rows_kept:
  assumes doc: "documented L vw" and run: "run_state (row_op p L name r) st = (res, st')" and p: "p \<noteq> Insert"
  shows "v_rows (vw (db_lib st')) = v_rows (vw (db_lib st))"
proof -
  note defs = run_hdl run_chk close_commit_def Let_def rows_after [OF doc] keeps_rows_def
  have "v_rows (vw (db_lib (snd (run_state (get_row L name r) st)))) = v_rows (vw (db_lib st))"
    by (simp add: get_row_def defs split: ans.split)
  moreover have "v_rows (vw (db_lib (snd (run_state (get_next L name r) st)))) = v_rows (vw (db_lib st))"
    by (simp add: get_next_def defs split: ans.split)
  moreover have e: "v_rows (vw (db_lib (snd (run_state (get_end L mv name r) st)))) = v_rows (vw (db_lib st))" if "\<forall>k. keeps_rows (mv k)" for mv
    using that by (simp add: get_end_def run_hdl run_chk Let_def rows_after [OF doc] split: ans.split) (simp add: rows_after [OF doc] keeps_rows_def)
  moreover have "\<forall>k. keeps_rows (Cursor_last k)" "\<forall>k. keeps_rows (Cursor_first k)" by (simp_all add: keeps_rows_def)
  ultimately show ?thesis using run p e [of Cursor_last] e [of Cursor_first] by (cases p) (auto simp: get_latest_def get_oldest_def)
qed

text \<open>C39. On a library that behaves as documented, an operation that succeeds has done the following. \<open>insert\<close> has added the row at
  the next position, which was free. \<open>get\<close> has found the row with the position asked for; \<open>get_latest\<close> and \<open>get_oldest\<close> those
  with the highest and the lowest position. \<open>get_next\<close> has found the second row from the position on, counting a row at the position
  itself: the next row when the position is that of a row, but when it is not, the first row behind the position is passed over.
  No operation but \<open>insert\<close> changes a row, whether it succeeds or not.\<close>

theorem store_rows:
  assumes "documented L vw" "run_state (row_op p L name r) st = ((ok, r'), st')"
  shows "(ok \<longrightarrow> row_result p (tname name) (db_cur st name) (v_rows (vw (db_lib st))) r (v_rows (vw (db_lib st'))) r')
    \<and> (p \<noteq> Insert \<longrightarrow> v_rows (vw (db_lib st')) = v_rows (vw (db_lib st)))"
proof (intro conjI impI)
  assume ok
  then show "row_result p (tname name) (db_cur st name) (v_rows (vw (db_lib st))) r (v_rows (vw (db_lib st'))) r'"
    using assms(2) rows_insert [OF assms(1)] rows_get [OF assms(1)] rows_next [OF assms(1)] rows_latest [OF assms(1)] rows_oldest [OF assms(1)]
    by (cases p) (simp_all del: row_result.simps)
qed (rule rows_kept [OF assms])

text \<open>The counter starts at 0 in every process, so on a table that has rows \<open>insert\<close> fails until it is past them.\<close>

lemma restart_insert_fails:
  assumes "documented L vw" "v_rows (vw (db_lib st)) (tname name, db_cur st name) \<noteq> None"
  shows "\<not> fst (fst (run_state (insert_row L name r) st))"
  using rows_insert [OF assms(1), of name r st] assms(2) by (cases "run_state (insert_row L name r) st") auto

text \<open>When the position is not that of a row, \<open>get_next\<close> passes over the row that follows it.\<close>

lemma get_next_skips:
  assumes "row_result Get_next n cur rs r rs' r'" "rs (n, r_pos r) = None" "least_from rs n (r_pos r) q"
  shows "q < r_pos r'"
  using assms by (auto simp: least_from_def)

subsection \<open>A library\<close>

text \<open>A library in memory that keeps the rows in a list, with all the calls of the operations on rows.\<close>

record ref_db =
  rd_rows :: "((string \<times> int) \<times> string) list"
  rd_crsr :: "nat \<Rightarrow> (string \<times> int option) option"
  rd_tpl :: "nat \<Rightarrow> (int option \<times> string option) option"
  rd_next :: nat

definition ref_view :: "ref_db \<Rightarrow> view" where
  "ref_view d = \<lparr>v_rows = map_of (rd_rows d), v_crsr = rd_crsr d, v_tpl = rd_tpl d\<rparr>"

definition positions :: "ref_db \<Rightarrow> string \<Rightarrow> int list" where
  "positions d n = map (\<lambda>e. snd (fst e)) (filter (\<lambda>e. fst (fst e) = n) (rd_rows d))"

fun smallest :: "int list \<Rightarrow> int option" where
  "smallest [] = None"
| "smallest (x # xs) = Some (fold min xs x)"

fun largest :: "int list \<Rightarrow> int option" where
  "largest [] = None"
| "largest (x # xs) = Some (fold max xs x)"

definition put_cursor :: "nat \<Rightarrow> string \<Rightarrow> int option \<Rightarrow> (int \<Rightarrow> ans) \<Rightarrow> ref_db \<Rightarrow> ans \<times> ref_db" where
  "put_cursor k n q answer d = (case q of
       None \<Rightarrow> (Failure, d)
     | Some q \<Rightarrow> (answer q, d\<lparr>rd_crsr := (rd_crsr d)(k \<mapsto> (n, Some q))\<rparr>))"

definition new_tuple :: "ref_db \<Rightarrow> ans \<times> ref_db" where
  "new_tuple d = (Handle (rd_next d), d\<lparr>rd_tpl := (rd_tpl d)(rd_next d \<mapsto> (None, None)), rd_next := rd_next d + 1\<rparr>)"

definition ref_lib :: "ref_db library" where
  "ref_lib c d = (case c of
       Trx_begin i \<Rightarrow> (Handle (rd_next d), d\<lparr>rd_next := rd_next d + 1\<rparr>)
     | Trx_commit t \<Rightarrow> (Success, d)
     | Cursor_open n t \<Rightarrow> (Handle (rd_next d), d\<lparr>rd_crsr := (rd_crsr d)(rd_next d \<mapsto> (n, None)), rd_next := rd_next d + 1\<rparr>)
     | Cursor_close k \<Rightarrow> (Success, d)
     | Read_tuple k \<Rightarrow> new_tuple d
     | Search_tuple k \<Rightarrow> new_tuple d
     | Tuple_delete t \<Rightarrow> (Success, d)
     | Write_i64 t i p \<Rightarrow> (case rd_tpl d t of Some (q, e) \<Rightarrow> (Success, d\<lparr>rd_tpl := (rd_tpl d)(t \<mapsto> (Some p, e))\<rparr>) | None \<Rightarrow> (Failure, d))
     | Set_value t i x \<Rightarrow> (case rd_tpl d t of Some (q, e) \<Rightarrow> (Success, d\<lparr>rd_tpl := (rd_tpl d)(t \<mapsto> (q, Some x))\<rparr>) | None \<Rightarrow> (Failure, d))
     | Insert_row k t \<Rightarrow> (case (rd_crsr d k, rd_tpl d t) of
           (Some (n, q), Some (Some p, Some x)) \<Rightarrow>
             if map_of (rd_rows d) (n, p) = None then (Success, d\<lparr>rd_rows := ((n, p), x) # rd_rows d\<rparr>) else (Failure, d)
         | _ \<Rightarrow> (Failure, d))
     | Cursor_moveto k t \<Rightarrow> (case (rd_crsr d k, rd_tpl d t) of
           (Some (n, q), Some (Some p, x)) \<Rightarrow>
             put_cursor k n (smallest (filter (\<lambda>x. p \<le> x) (positions d n))) (\<lambda>q. Res (if q = p then 0 else 1)) d
         | _ \<Rightarrow> (Failure, d))
     | Cursor_first k \<Rightarrow> (case rd_crsr d k of Some (n, q) \<Rightarrow> put_cursor k n (smallest (positions d n)) (\<lambda>q. Success) d | None \<Rightarrow> (Failure, d))
     | Cursor_last k \<Rightarrow> (case rd_crsr d k of Some (n, q) \<Rightarrow> put_cursor k n (largest (positions d n)) (\<lambda>q. Success) d | None \<Rightarrow> (Failure, d))
     | Cursor_next k \<Rightarrow> (case rd_crsr d k of
           Some (n, Some p) \<Rightarrow> put_cursor k n (smallest (filter (\<lambda>x. p + 1 \<le> x) (positions d n))) (\<lambda>q. Success) d
         | _ \<Rightarrow> (Failure, d))
     | Read_row k t \<Rightarrow> (case rd_crsr d k of Some (n, Some p) \<Rightarrow> (case map_of (rd_rows d) (n, p) of
           Some x \<Rightarrow> (Success, d\<lparr>rd_tpl := (rd_tpl d)(t \<mapsto> (Some p, Some x))\<rparr>) | None \<Rightarrow> (Failure, d)) | _ \<Rightarrow> (Failure, d))
     | Col_len t i \<Rightarrow> (case rd_tpl d t of Some (p, Some x) \<Rightarrow> (Res (int (length x)), d) | _ \<Rightarrow> (Failure, d))
     | Col_value t i \<Rightarrow> (case rd_tpl d t of Some (p, Some x) \<Rightarrow> (Bytes x, d) | _ \<Rightarrow> (Failure, d))
     | Read_i64 t i \<Rightarrow> (case rd_tpl d t of Some (Some p, x) \<Rightarrow> (Res p, d) | _ \<Rightarrow> (Failure, d))
     | _ \<Rightarrow> (Failure, d))"

lemma smallest_iff: "smallest xs = Some q \<longleftrightarrow> q \<in> set xs \<and> (\<forall>x \<in> set xs. q \<le> x)"
proof (cases xs)
  case (Cons y ys)
  have "fold min ys y = Min (set xs)" using Cons by (simp add: Min.set_eq_fold del: set_simps)
  moreover have "Min (set xs) = q \<longleftrightarrow> q \<in> set xs \<and> (\<forall>x \<in> set xs. q \<le> x)" using Cons by (intro Min_eq_iff) auto
  ultimately show ?thesis using Cons by simp
qed simp

lemma largest_iff: "largest xs = Some q \<longleftrightarrow> q \<in> set xs \<and> (\<forall>x \<in> set xs. x \<le> q)"
proof (cases xs)
  case (Cons y ys)
  have "fold max ys y = Max (set xs)" using Cons by (simp add: Max.set_eq_fold del: set_simps)
  moreover have "Max (set xs) = q \<longleftrightarrow> q \<in> set xs \<and> (\<forall>x \<in> set xs. x \<le> q)" using Cons by (intro Max_eq_iff) auto
  ultimately show ?thesis using Cons by simp
qed simp

lemma positions_iff: "x \<in> set (positions d n) \<longleftrightarrow> map_of (rd_rows d) (n, x) \<noteq> None"
  by (force simp: positions_def map_of_eq_None_iff)

lemma ref_rows:
  "smallest (positions d n) = Some q \<longleftrightarrow> least_row (map_of (rd_rows d)) n q"
  "largest (positions d n) = Some q \<longleftrightarrow> last_row (map_of (rd_rows d)) n q"
  "smallest (filter (\<lambda>x. p \<le> x) (positions d n)) = Some q \<longleftrightarrow> least_from (map_of (rd_rows d)) n p q"
  by (auto simp: smallest_iff largest_iff positions_iff least_row_def last_row_def least_from_def)

lemma ref_lib_documented: "documented ref_lib ref_view"
  unfolding documented_def
proof (intro allI)
  fix c d
  show "documented_call c (ref_view d) (fst (ref_lib c d)) (ref_view (snd (ref_lib c d)))"
    by (cases c) (auto simp: documented_call_def keeps_rows_def ref_lib_def ref_view_def put_cursor_def new_tuple_def ref_rows split: option.splits)
qed

definition three_rows :: "ref_db edb" where
  "three_rows = \<lparr>db_lib = \<lparr>rd_rows = [((''icq/q'', 5), ''c''), ((''icq/q'', 0), ''a''), ((''icq/q'', 2), ''b'')],
     rd_crsr = Map.empty, rd_tpl = Map.empty, rd_next = 1\<rparr>, db_cur = (\<lambda>_. 7), db_log = []\<rparr>"

text \<open>What the operations give on three rows at 0, 2 and 5: \<open>get_next\<close> from 2 and from 1 both end at 5.\<close>

lemma three_rows_runs:
  "fst (run_state (row_op Insert ref_lib ''q'' \<lparr>r_pos = 2, r_data = ''x''\<rparr>) three_rows) = (True, \<lparr>r_pos = 7, r_data = ''x''\<rparr>)"
  "fst (run_state (row_op Get ref_lib ''q'' \<lparr>r_pos = 2, r_data = ''x''\<rparr>) three_rows) = (True, \<lparr>r_pos = 2, r_data = ''b''\<rparr>)"
  "fst (run_state (row_op Get_next ref_lib ''q'' \<lparr>r_pos = 2, r_data = ''x''\<rparr>) three_rows) = (True, \<lparr>r_pos = 5, r_data = ''c''\<rparr>)"
  "fst (run_state (row_op Get_latest ref_lib ''q'' \<lparr>r_pos = 2, r_data = ''x''\<rparr>) three_rows) = (True, \<lparr>r_pos = 5, r_data = ''c''\<rparr>)"
  "fst (run_state (row_op Get_oldest ref_lib ''q'' \<lparr>r_pos = 2, r_data = ''x''\<rparr>) three_rows) = (True, \<lparr>r_pos = 0, r_data = ''a''\<rparr>)"
  "fst (run_state (row_op Get_next ref_lib ''q'' \<lparr>r_pos = 1, r_data = ''x''\<rparr>) three_rows) = (True, \<lparr>r_pos = 5, r_data = ''c''\<rparr>)"
  by code_simp+

lemma store_rows_witness:
  "list_all (\<lambda>p. \<exists>r' st'. run_state (row_op p ref_lib ''q'' \<lparr>r_pos = 2, r_data = ''x''\<rparr>) three_rows = ((True, r'), st')
      \<and> row_result p (tname ''q'') 7 (v_rows (ref_view (db_lib three_rows))) \<lparr>r_pos = 2, r_data = ''x''\<rparr>
          (v_rows (ref_view (db_lib st'))) r')
    [Insert, Get, Get_next, Get_latest, Get_oldest]"
proof -
  have run: "\<exists>r' st'. run_state (row_op p ref_lib ''q'' \<lparr>r_pos = 2, r_data = ''x''\<rparr>) three_rows = ((True, r'), st')
      \<and> row_result p (tname ''q'') 7 (v_rows (ref_view (db_lib three_rows))) \<lparr>r_pos = 2, r_data = ''x''\<rparr>
          (v_rows (ref_view (db_lib st'))) r'" for p
  proof -
    have "fst (fst (run_state (row_op p ref_lib ''q'' \<lparr>r_pos = 2, r_data = ''x''\<rparr>) three_rows))"
      using three_rows_runs by (cases p) (simp_all del: row_op.simps)
    then obtain r' st' where run: "run_state (row_op p ref_lib ''q'' \<lparr>r_pos = 2, r_data = ''x''\<rparr>) three_rows = ((True, r'), st')"
      by (metis prod.collapse)
    have "db_cur three_rows ''q'' = 7" by (simp add: three_rows_def)
    with store_rows [OF ref_lib_documented run] run show ?thesis by metis
  qed
  show ?thesis unfolding list_all_iff using run by blast
qed

text \<open>The operations on tables that fail leave their transaction open (and the schema locked), too.\<close>

lemma table_balance:
  assumes "(m = create_table L name \<or> m = drop_queue_table L name)" "run_state m st = (ok, st')"
  shows "ok \<Longrightarrow> open_by trx_weight st' = open_by trx_weight st"
    "\<not> ok \<Longrightarrow> (\<exists>t n. fst (last (db_log st')) = Table_drop t n) \<Longrightarrow> open_by trx_weight st' = open_by trx_weight st + 1"
  using assms
  by (auto simp: create_table_def drop_queue_table_def run_hdl run_chk weights split: ans.splits if_splits)

end
