(* ===== verification/Keywords.thy ===== *)
theory Keywords
  imports Prelude "HOL-Library.Sublist"
begin

section \<open>The keyword table (redis-ckw/ckwlib.c)\<close>

text \<open>
  A table of nodes, mapped from a file: cell \<open>c\<close> of a node points to the node behind the character \<open>c\<close>, 0 when there
  is none, and says whether a keyword ends there. The file does not compile as it is: \<open>check_keywords\<close> passes an
  undeclared third argument to \<open>get_nodes\<close>, which takes two; it is left out here. C strings are lists of characters
  without the zero byte.
\<close>

subsection \<open>Data\<close>

record cell =
  c_point :: nat
  c_end :: bool

text \<open>The nodes mapped and their cells.\<close>

record table =
  t_nodes :: nat
  t_cell :: "nat \<Rightarrow> char \<Rightarrow> cell"

definition MAX_NODE :: int where "MAX_NODE = 2 * 1024 * 1024"

definition cell_at :: "table \<Rightarrow> nat \<Rightarrow> char \<Rightarrow> cell res" where
  "cell_at t p c = (if p < t_nodes t then Inr (t_cell t p c) else Inl Out_of_bounds)"

definition put_cell :: "nat \<Rightarrow> char \<Rightarrow> cell \<Rightarrow> table \<Rightarrow> table" where
  "put_cell p c x t = t\<lparr>t_cell := (t_cell t)(p := (t_cell t p)(c := x))\<rparr>"

subsection \<open>Operations\<close>

text \<open>\<open>used\<close> points into \<open>ints\<close>, at position \<open>u\<close>. \<open>*used++\<close> moves the pointer, not the number. The result is
  the code, the table and the last node, \<open>rp\<close>.\<close>

fun set_loop :: "int list \<Rightarrow> nat \<Rightarrow> string \<Rightarrow> nat \<Rightarrow> nat \<Rightarrow> table \<Rightarrow> (int \<times> table \<times> nat) res" where
  "set_loop ints u [] p rp t = Inr (0, t, rp)"
| "set_loop ints u (c # cs) p rp t =
     fbind (cell_at t p c) (\<lambda>x.
       if c_point x = 0 \<and> cs \<noteq> [] then
         if length ints \<le> u then Inl Out_of_bounds
         else if ints ! u + 1 > MAX_NODE then Inr (- 1, t, p)
         else if length ints \<le> u + 1 then Inl Out_of_bounds
         else if ints ! (u + 1) < 0 then Inl Out_of_bounds
         else let q = nat (ints ! (u + 1)) in set_loop ints (u + 1) cs q p (put_cell p c (x\<lparr>c_point := q\<rparr>) t)
       else set_loop ints u cs (c_point x) p t)"

definition set_nodes :: "table \<Rightarrow> int list \<Rightarrow> string \<Rightarrow> (int \<times> table) res" where
  "set_nodes t ints s = fbind (set_loop ints 0 s 0 0 t) (\<lambda>(r, t1, rp).
     if r = - 1 then Inr (- 1, t1)
     else if s = [] then Inl Out_of_bounds
     else fmap (\<lambda>x. (0, put_cell rp (last s) (x\<lparr>c_end := True\<rparr>) t1)) (cell_at t1 rp (last s)))"

fun get_loop :: "table \<Rightarrow> string \<Rightarrow> nat \<Rightarrow> int res" where
  "get_loop t [] p = Inr 0"
| "get_loop t (c # cs) p = fbind (cell_at t p c) (\<lambda>x. if c_end x then Inr 1 else get_loop t cs (c_point x))"

definition get_nodes :: "table \<Rightarrow> string \<Rightarrow> int res" where
  "get_nodes t s = get_loop t s 0"

fun check_loop :: "table \<Rightarrow> string \<Rightarrow> int \<Rightarrow> int res" where
  "check_loop t [] i = Inr (- 1)"
| "check_loop t (c # cs) i = fbind (get_nodes t (c # cs)) (\<lambda>cr. if cr = 1 then Inr i else check_loop t cs (i + 1))"

definition check_keywords :: "table \<Rightarrow> string \<Rightarrow> int res" where
  "check_keywords t s = check_loop t s 0"

text \<open>\<open>open_db\<close> and \<open>create_db\<close> by the answers of the system: the descriptor, whether \<open>fstat\<close> or \<open>ftruncate\<close>
  succeeds, the address mapped. The results are the address and the descriptors left open. 0 is taken for an error.\<close>

definition open_db :: "int \<Rightarrow> bool \<Rightarrow> nat option \<Rightarrow> nat option \<times> int set" where
  "open_db fd stat_ok m = (if fd \<le> 0 then (None, if fd = 0 then {fd} else {})
     else if \<not> stat_ok then (None, {})
     else case m of None \<Rightarrow> (None, {fd}) | Some a \<Rightarrow> (Some a, {}))"

definition create_db :: "int \<Rightarrow> bool \<Rightarrow> nat option \<Rightarrow> nat option \<times> int set" where
  "create_db fd trunc_ok m = (if fd \<le> 0 then (None, if fd = 0 then {fd} else {})
     else if \<not> trunc_ok then (None, {fd})
     else case m of None \<Rightarrow> (None, {fd}) | Some a \<Rightarrow> (Some a, {}))"

section \<open>What is found\<close>

text \<open>The node a path leads to, and the keywords of a table.\<close>

fun follow :: "table \<Rightarrow> nat \<Rightarrow> string \<Rightarrow> nat option" where
  "follow t p [] = Some p"
| "follow t p (c # cs) = (let q = c_point (t_cell t p c) in if q = 0 then None else follow t q cs)"

definition keyword :: "table \<Rightarrow> string \<Rightarrow> bool" where
  "keyword t w \<longleftrightarrow> w \<noteq> [] \<and> (\<exists>p. follow t 0 (butlast w) = Some p \<and> c_end (t_cell t p (last w)))"


definition table_ok :: "table \<Rightarrow> bool" where
  "table_ok t \<longleftrightarrow> 0 < t_nodes t \<and> (\<forall>p c. p < t_nodes t \<longrightarrow> c_point (t_cell t p c) < t_nodes t)"

lemma cell_ok: "p < t_nodes t \<Longrightarrow> cell_at t p c = Inr (t_cell t p c)"
  by (simp add: cell_at_def)







text \<open>Different paths lead to different nodes.\<close>

definition tree :: "table \<Rightarrow> bool" where
  "tree t \<longleftrightarrow> (\<forall>u v p. follow t 0 u = Some p \<longrightarrow> follow t 0 v = Some p \<longrightarrow> u = v)"

lemma set_loop_one:
  "table_ok t \<Longrightarrow> p < t_nodes t \<Longrightarrow> s \<noteq> [] \<Longrightarrow> n + 1 \<le> MAX_NODE \<Longrightarrow>
   set_loop [n] 0 s p rp t = (case follow t p (butlast s) of None \<Rightarrow> Inl Out_of_bounds | Some q \<Rightarrow> Inr (0, t, q))"
proof (induction s arbitrary: p rp)
  case (Cons c s)
  then show ?case by (cases "s = []") (auto simp: cell_ok table_ok_def Let_def)
qed simp

lemma follow_bound: "table_ok t \<Longrightarrow> p < t_nodes t \<Longrightarrow> follow t p u = Some q \<Longrightarrow> q < t_nodes t"
  by (induction u arbitrary: p) (auto simp: table_ok_def Let_def split: if_splits)

lemma follow_end: "follow (put_cell p c ((t_cell t p c)\<lparr>c_end := b\<rparr>) t) q u = follow t q u"
proof (induction u arbitrary: q)
  case (Cons d u)
  have "c_point (t_cell (put_cell p c ((t_cell t p c)\<lparr>c_end := b\<rparr>) t) q d) = c_point (t_cell t q d)"
    by (simp add: put_cell_def)
  then show ?case using Cons by (simp add: Let_def)
qed simp

text \<open>\<open>set_nodes\<close>, called with a pointer to the number of nodes in use, adds a keyword when every node on its path is there
  already. When a node is missing it reads the word behind that number: the pointer has been incremented instead of it.\<close>

theorem keyword_set:
  assumes t: "table_ok t" "tree t" and s: "s \<noteq> []" "n + 1 \<le> MAX_NODE"
  shows "case follow t 0 (butlast s) of None \<Rightarrow> set_nodes t [n] s = Inl Out_of_bounds
    | Some p \<Rightarrow> (\<exists>t'. set_nodes t [n] s = Inr (0, t') \<and> (\<forall>w. keyword t' w \<longleftrightarrow> keyword t w \<or> w = s))"
proof -
  have z: "0 < t_nodes t" using t by (simp add: table_ok_def)
  note run = set_loop_one [OF t(1) z s, of 0]
  show ?thesis
  proof (cases "follow t 0 (butlast s)")
    case None
    then show ?thesis using run by (simp add: set_nodes_def)
  next
    case (Some p)
    let ?x = "(t_cell t p (last s))\<lparr>c_end := True\<rparr>"
    let ?t = "put_cell p (last s) ?x t"
    have "cell_at t p (last s) = Inr (t_cell t p (last s))" using follow_bound [OF t(1) z Some] by (rule cell_ok)
    then have "set_nodes t [n] s = Inr (0, ?t)" using run Some s(1) by (simp add: set_nodes_def)
    moreover have "keyword ?t w \<longleftrightarrow> keyword t w \<or> w = s" for w
    proof (cases "w = []")
      case False
      have e: "c_end (t_cell ?t q (last w)) \<longleftrightarrow> c_end (t_cell t q (last w)) \<or> (q = p \<and> last w = last s)" for q
        by (simp add: put_cell_def)
      have "follow t 0 (butlast w) = Some p \<and> last w = last s \<longleftrightarrow> w = s"
      proof
        assume "follow t 0 (butlast w) = Some p \<and> last w = last s"
        then have "butlast w = butlast s" "last w = last s" using t(2) Some unfolding tree_def by blast+
        then show "w = s" using False s(1) by (metis append_butlast_last_id)
      qed (use Some in simp)
      then show ?thesis using False s(1) unfolding keyword_def follow_end e by blast
    qed (use s(1) in \<open>simp add: keyword_def\<close>)
    ultimately show ?thesis using Some by simp
  qed
qed

subsection \<open>Examples\<close>

text \<open>A table with the keyword \<open>bc\<close>: in \<open>abc\<close> it is reported at 0.\<close>

definition wit_table :: table where
  "wit_table = \<lparr>t_nodes = 2, t_cell = (\<lambda>p c.
     if p = 0 \<and> c = CHR ''b'' then \<lparr>c_point = 1, c_end = False\<rparr>
     else if p = 1 \<and> c = CHR ''c'' then \<lparr>c_point = 0, c_end = True\<rparr>
     else \<lparr>c_point = 0, c_end = False\<rparr>)\<rparr>"

lemma wrong_position: "check_keywords wit_table ''abc'' = Inr 0"
  by code_simp

lemma wit_table_ok: "table_ok wit_table"
  by (auto simp: table_ok_def wit_table_def)

lemma wit_follow: "follow wit_table 0 u = Some p \<longleftrightarrow> (u = [] \<and> p = 0) \<or> (u = ''b'' \<and> p = 1)"
proof (cases u)
  case (Cons c v)
  then show ?thesis by (cases v) (auto simp: wit_table_def Let_def split: if_splits)
qed auto

lemma wit_tree: "tree wit_table"
  unfolding tree_def by (simp add: wit_follow)


lemma keyword_set_witness:
  "set_nodes wit_table [1] ''xyz'' = Inl Out_of_bounds"
  using keyword_set [OF wit_table_ok wit_tree, of "''xyz''" 1] by (simp add: wit_table_def MAX_NODE_def)

end
