(* ===== verification/HandlerPool.thy ===== *)
theory HandlerPool
  imports Prelude
begin

section \<open>The pool of MySQL handlers (mysqlhandler/handler.cpp)\<close>

text \<open>
  The threads of a Thrift server read rows through connections on which a \<open>HANDLER\<close> has been opened. A thread takes a
  connection from a queue, or makes one when the queue is empty, and puts it back after the query; the queue has a lock, so
  taking and putting are single steps. \<open>handlers_owned\<close> says that over any interleaving every connection has one place.
  What the MySQL library answers is an argument. \<open>close_mysql_handler\<close> has no return statement; it is taken to return.
\<close>

subsection \<open>State\<close>

text \<open>Connections are the addresses of their structures. \<open>hp_live\<close> are those connected, \<open>hp_lost\<close> the structures that are
  allocated and that nothing points to; \<open>hp_holds\<close> is the variable \<open>mysql\<close> of a thread in \<open>handler_read\<close>.\<close>

record hpool =
  hp_queue :: "nat list"
  hp_holds :: "nat \<Rightarrow> nat option"
  hp_live :: "nat set"
  hp_lost :: "nat set"

definition hp_init :: hpool where
  "hp_init = \<lparr>hp_queue = [], hp_holds = (\<lambda>_. None), hp_live = {}, hp_lost = {}\<rparr>"

subsection \<open>Operations\<close>

definition close_mysql_handler :: "nat \<Rightarrow> hpool \<Rightarrow> hpool res" where
  "close_mysql_handler m s = (if m \<in> hp_live s then Inr (s\<lparr>hp_live := hp_live s - {m}\<rparr>) else Inl Use_after_free)"

text \<open>\<open>mem\<close> is what \<open>calloc\<close> answers, \<open>conn\<close> and \<open>opn\<close> whether connecting and the statement succeed.
  Without memory \<open>mysql_init\<close> allocates a structure that is not used, and \<open>NULL\<close> is connected.\<close>

definition new_mysql_handler :: "nat option \<Rightarrow> bool \<Rightarrow> bool \<Rightarrow> hpool \<Rightarrow> (nat option \<times> hpool) res" where
  "new_mysql_handler mem conn opn s = (case mem of
       None \<Rightarrow> Inl Null_deref
     | Some m \<Rightarrow>
        if \<not> conn then Inr (None, s\<lparr>hp_lost := insert m (hp_lost s)\<rparr>)
        else let s1 = s\<lparr>hp_live := insert m (hp_live s)\<rparr> in
          if \<not> opn then fmap (\<lambda>s2. (None, s2)) (close_mysql_handler m s1) else Inr (Some m, s1))"

definition put_mysql_handler :: "nat \<Rightarrow> hpool \<Rightarrow> hpool" where
  "put_mysql_handler m s = s\<lparr>hp_queue := hp_queue s @ [m]\<rparr>"

definition get_mysql_handler :: "nat option \<Rightarrow> bool \<Rightarrow> bool \<Rightarrow> hpool \<Rightarrow> (nat option \<times> hpool) res" where
  "get_mysql_handler mem conn opn s = (case hp_queue s of
       [] \<Rightarrow> new_mysql_handler mem conn opn s
     | m # ms \<Rightarrow> Inr (Some m, s\<lparr>hp_queue := ms\<rparr>))"

text \<open>\<open>handler_read\<close> up to the connection, and from the query on. A result is missing, empty or a row of columns; the value
  returned is \<open>None\<close> where the function ends without a return statement.\<close>

definition read_begin :: "nat \<Rightarrow> nat option \<Rightarrow> bool \<Rightarrow> bool \<Rightarrow> hpool \<Rightarrow> (bool option \<times> hpool) res" where
  "read_begin i mem conn opn s = fmap (\<lambda>(m, s1). case m of
       None \<Rightarrow> (Some False, s1)
     | Some c \<Rightarrow> (None, s1\<lparr>hp_holds := (hp_holds s1)(i \<mapsto> c)\<rparr>)) (get_mysql_handler mem conn opn s)"

datatype mysql_result = No_result | No_row | Row "string list"

definition read_end :: "nat \<Rightarrow> bool \<Rightarrow> mysql_result \<Rightarrow> hpool \<Rightarrow> ((bool option \<times> string option) \<times> hpool) res" where
  "read_end i ok result s = (case hp_holds s i of
       None \<Rightarrow> Inl Null_deref
     | Some m \<Rightarrow>
        let s1 = s\<lparr>hp_holds := (hp_holds s)(i := None)\<rparr> in
        if m \<notin> hp_live s then Inl Use_after_free
        else if \<not> ok then fmap (\<lambda>s2. ((Some False, None), s2)) (close_mysql_handler m s1)
        else let s2 = put_mysql_handler m s1 in
          case result of
            No_result \<Rightarrow> Inr ((None, None), s2)
          | No_row \<Rightarrow> Inr ((Some False, None), s2)
          | Row cols \<Rightarrow> if length cols < 2 then Inl Out_of_bounds else Inr ((Some True, Some (cols ! 1)), s2))"

text \<open>Threads \<open>0\<close> to \<open>n - 1\<close>; memory that is allocated is not given out again, and the statement yields two columns.\<close>

inductive hp_reachable :: "nat \<Rightarrow> hpool \<Rightarrow> bool" for n where
  hp_start: "hp_reachable n hp_init"
| hp_begin: "\<lbrakk>hp_reachable n s; i < n; hp_holds s i = None; a \<notin> hp_live s \<union> hp_lost s;
     read_begin i (Some a) conn opn s = Inr (r, s')\<rbrakk> \<Longrightarrow> hp_reachable n s'"
| hp_end: "\<lbrakk>hp_reachable n s; i < n; hp_holds s i = Some m; read_end i ok res s = Inr (r, s')\<rbrakk> \<Longrightarrow> hp_reachable n s'"

section \<open>Every connection has one place\<close>

definition hp_inv :: "nat \<Rightarrow> hpool \<Rightarrow> bool" where
  "hp_inv n s \<longleftrightarrow> distinct (hp_queue s) \<and> hp_live s = set (hp_queue s) \<union> ran (hp_holds s)
     \<and> set (hp_queue s) \<inter> ran (hp_holds s) = {} \<and> inj_on (hp_holds s) (dom (hp_holds s))
     \<and> dom (hp_holds s) \<subseteq> {..<n} \<and> hp_live s \<inter> hp_lost s = {} \<and> card (hp_live s) \<le> n"

lemma inv_init: "hp_inv n hp_init"
  by (simp add: hp_inv_def hp_init_def)

lemma ran_upd_new: "f i = None \<Longrightarrow> ran (f(i \<mapsto> c)) = insert c (ran f)"
  by (rule ran_map_upd)

lemma ran_upd_none:
  assumes "inj_on f (dom f)" "f i = Some m"
  shows "ran (f(i := None)) = ran f - {m}"
proof -
  have "x \<noteq> m" if "f j = Some x" "j \<noteq> i" for j x
    using assms that by (auto simp: inj_on_def dom_def)
  then have "x \<in> ran (f(i := None)) \<longleftrightarrow> x \<in> ran f \<and> x \<noteq> m" for x
    using assms(2) unfolding ran_def mem_Collect_eq by (metis fun_upd_apply option.distinct(1) option.inject)
  then show ?thesis by blast
qed

lemma inj_upd: "inj_on f (dom f) \<Longrightarrow> f i = None \<Longrightarrow> c \<notin> ran f \<Longrightarrow> inj_on (f(i \<mapsto> c)) (dom (f(i \<mapsto> c)))"
  by (auto simp: inj_on_def ran_def dom_def)

lemma inj_upd_none: "inj_on f (dom f) \<Longrightarrow> inj_on (f(i := None)) (dom (f(i := None)))"
  by (auto simp: inj_on_def dom_def)

lemma card_held: "dom f \<subseteq> {..<n} \<Longrightarrow> card (ran f) \<le> card (dom f) \<and> finite (ran f)" for f :: "nat \<Rightarrow> nat option"
proof -
  assume d: "dom f \<subseteq> {..<n}"
  then have fin: "finite (dom f)" using finite_subset by blast
  have "ran f = (\<lambda>i. the (f i)) ` dom f" by (auto simp: ran_def image_def dom_def)
  then show ?thesis using fin card_image_le [of "dom f" "\<lambda>i. the (f i)"] by simp
qed

lemma begin_inv:
  assumes inv: "hp_inv n s" and i: "i < n" "hp_holds s i = None" and a: "a \<notin> hp_live s \<union> hp_lost s"
  shows "\<exists>r s'. read_begin i (Some a) conn opn s = Inr (r, s') \<and> hp_inv n s'"
proof (cases "hp_queue s")
  case (Cons m ms)
  let ?s = "s\<lparr>hp_queue := ms, hp_holds := (hp_holds s)(i \<mapsto> m)\<rparr>"
  have "m \<notin> ran (hp_holds s)" using inv Cons by (auto simp: hp_inv_def)
  then have "hp_inv n ?s"
    using inv i Cons inj_upd [of "hp_holds s" i m] by (auto simp: hp_inv_def ran_upd_new)
  then show ?thesis using Cons by (simp add: read_begin_def get_mysql_handler_def)
next
  case Nil
  have live: "hp_live s = ran (hp_holds s)" "dom (hp_holds s) \<subseteq> {..<n}" using inv Nil by (auto simp: hp_inv_def)
  have c: "card (insert a (hp_live s)) \<le> n"
  proof -
    have "dom (hp_holds s) \<subseteq> {..<n} - {i}" using live(2) i(2) by auto
    then have "card (dom (hp_holds s)) \<le> card ({..<n} - {i})" by (intro card_mono) auto
    then have "card (hp_live s) \<le> n - 1" using card_held [OF live(2)] live(1) i(1) by simp
    then show ?thesis using card_held [OF live(2)] live(1) a i(1) by simp
  qed
  consider "\<not> conn" | "conn" "\<not> opn" | "conn" "opn" by blast
  then show ?thesis
  proof cases
    case 1
    then have "hp_inv n (s\<lparr>hp_lost := insert a (hp_lost s)\<rparr>)" using inv a by (auto simp: hp_inv_def)
    then show ?thesis using 1 Nil by (simp add: read_begin_def get_mysql_handler_def new_mysql_handler_def)
  next
    case 2
    have "s\<lparr>hp_live := insert a (hp_live s) - {a}\<rparr> = s" using a by simp
    then show ?thesis using 2 Nil inv a by (simp add: read_begin_def get_mysql_handler_def new_mysql_handler_def close_mysql_handler_def)
  next
    case 3
    have "a \<notin> ran (hp_holds s)" using a live(1) by simp
    then have "hp_inv n (s\<lparr>hp_live := insert a (hp_live s), hp_holds := (hp_holds s)(i \<mapsto> a)\<rparr>)"
      using inv i a c Nil inj_upd [of "hp_holds s" i a] by (auto simp: hp_inv_def ran_upd_new)
    then show ?thesis using 3 Nil by (simp add: read_begin_def get_mysql_handler_def new_mysql_handler_def)
  qed
qed

lemma hp_end_inv:
  assumes inv: "hp_inv n s" and m: "hp_holds s i = Some m"
  shows "case read_end i ok res s of Inl e \<Rightarrow> e = Out_of_bounds \<and> (\<exists>cols. res = Row cols \<and> length cols < 2) | Inr (r, s') \<Rightarrow> hp_inv n s'"
proof -
  let ?h = "(hp_holds s)(i := None)"
  have live: "m \<in> hp_live s" using inv m by (auto simp: hp_inv_def ran_def)
  have h: "ran ?h = ran (hp_holds s) - {m}" "inj_on ?h (dom ?h)" "dom ?h \<subseteq> {..<n}" "m \<in> ran (hp_holds s)"
    using inv m ran_upd_none [of "hp_holds s" i m] inj_upd_none [of "hp_holds s" i] by (auto simp: hp_inv_def ran_def)
  have put: "hp_inv n (s\<lparr>hp_holds := ?h, hp_queue := hp_queue s @ [m]\<rparr>)"
    using inv h by (auto simp: hp_inv_def)
  have "card (hp_live s) \<le> n" using inv unfolding hp_inv_def by blast
  then have "card (hp_live s - {m}) \<le> n" using card_Diff1_le [of "hp_live s" m] by linarith
  then have close: "hp_inv n (s\<lparr>hp_holds := ?h, hp_live := hp_live s - {m}\<rparr>)"
    using inv h by (auto simp: hp_inv_def)
  show ?thesis
    using m live put close by (cases res) (auto simp: read_end_def Let_def close_mysql_handler_def put_mysql_handler_def)
qed

lemma hp_reachable_inv: "hp_reachable n s \<Longrightarrow> hp_inv n s"
proof (induction rule: hp_reachable.induct)
  case (hp_begin s i a conn opn r s')
  then show ?case using begin_inv [of n s i a conn opn] by auto
next
  case (hp_end s i m ok res r s')
  then show ?case using hp_end_inv [of n s i m res ok] by (auto split: sum.splits)
qed (rule inv_init)

text \<open>Whatever the threads do and MySQL answers: a connection is in the queue once or in the hands of one thread, never both,
  all that are connected are in one of these places, none is used after it was closed, and there are at most as many as
  threads.\<close>

theorem handlers_owned:
  assumes "hp_reachable n s"
  shows "distinct (hp_queue s) \<and> hp_live s = set (hp_queue s) \<union> ran (hp_holds s) \<and> card (hp_live s) \<le> n
    \<and> (\<forall>i m. hp_holds s i = Some m \<longrightarrow> m \<notin> set (hp_queue s) \<and> (\<forall>j. hp_holds s j = Some m \<longrightarrow> j = i))
    \<and> (\<forall>i m ok res. hp_holds s i = Some m \<longrightarrow> read_end i ok res s \<noteq> Inl Use_after_free)"
proof -
  note inv = hp_reachable_inv [OF assms]
  have "m \<notin> set (hp_queue s)" "hp_holds s j = Some m \<Longrightarrow> j = i" if "hp_holds s i = Some m" for i j m
    using inv that by (auto simp: hp_inv_def ran_def dom_def inj_on_def)
  moreover have "read_end i ok res s \<noteq> Inl Use_after_free" if "hp_holds s i = Some m" for i m ok res
    using hp_end_inv [OF inv that, of res ok] by auto
  ultimately show ?thesis using inv by (auto simp: hp_inv_def)
qed

text \<open>A structure whose connection fails is never freed.\<close>

lemma connect_failure_leaks:
  "hp_queue s = [] \<Longrightarrow> read_begin i (Some a) False opn s = Inr (Some False, s\<lparr>hp_lost := insert a (hp_lost s)\<rparr>)"
  by (simp add: read_begin_def get_mysql_handler_def new_mysql_handler_def)

text \<open>A query that succeeds without a result ends without a value.\<close>

lemma no_result_no_value:
  "hp_holds s i = Some m \<Longrightarrow> m \<in> hp_live s \<Longrightarrow> \<exists>s'. read_end i True No_result s = Inr ((None, None), s')"
  by (simp add: read_end_def Let_def)

lemma handlers_owned_witness:
  "\<exists>s. hp_reachable 16 s \<and> hp_holds s 3 = Some 100 \<and> (\<forall>ok res. read_end 3 ok res s \<noteq> Inl Use_after_free)"
proof -
  let ?s = "hp_init\<lparr>hp_live := {100}, hp_holds := [3 \<mapsto> 100]\<rparr>"
  have "read_begin 3 (Some 100) True True hp_init = Inr (None, ?s)"
    by (simp add: read_begin_def get_mysql_handler_def new_mysql_handler_def hp_init_def)
  then have r: "hp_reachable 16 ?s" by (intro hp_begin [OF hp_start]) (simp_all add: hp_init_def)
  have "hp_holds ?s 3 = Some 100" by simp
  with handlers_owned [OF r] r show ?thesis by blast
qed

end
