(* ===== verification/TunnelVariants.thy ===== *)
theory TunnelVariants
  imports Tunnel
begin

section \<open>Tunnel client ends on POCO and Qt (sock4a-poco, sock4a-qt)\<close>

text \<open>
  Two more client ends of the tunnel. That on POCO serves a browser in a thread with a \<open>select\<close> loop, that on Qt reacts to
  signals. The frameworks are arguments: what they answer to a call. The state is the relay of theory Tunnel, and so is the
  invariant, \<open>relay_ok\<close>: what goes out is the code of an initial part of what came in, all of it while the tunnel is open.
\<close>

subsection \<open>POCO\<close>

text \<open>The loops over the buffer run from its end to its start.\<close>

fun poco_encode :: "byte list \<Rightarrow> nat \<Rightarrow> byte list" where
  "poco_encode buf 0 = buf"
| "poco_encode buf (Suc n) = poco_encode (buf[n := buf ! n + 3]) n"

fun poco_decode :: "byte list \<Rightarrow> nat \<Rightarrow> byte list" where
  "poco_decode buf 0 = buf"
| "poco_decode buf (Suc n) = poco_decode (buf[n := buf ! n - 3]) n"

text \<open>One turn: \<open>select\<close> has nothing, or the first socket that is ready, with the bytes there are to receive and the number of
  bytes the send takes.\<close>

datatype poco_turn = Select_none | Browser_ready "byte list" nat | Socks_ready "byte list" nat

definition poco_move :: "(byte list \<Rightarrow> nat \<Rightarrow> byte list) \<Rightarrow> byte list \<Rightarrow> nat \<Rightarrow> byte list \<times> byte list \<times> bool" where
  "poco_move code d0 k =
     (let d = take 8192 d0; nr = length d in
      if nr = 0 then ([], [], False)
      else let sent = take k (code d nr) in (d, sent, length sent = nr))"

definition poco_step :: "poco_turn \<Rightarrow> relay \<Rightarrow> relay" where
  "poco_step t r = (case t of
       Select_none \<Rightarrow> r
     | Browser_ready d k \<Rightarrow> (case poco_move poco_encode d k of (d', sent, go) \<Rightarrow>
         r\<lparr>ry_in0 := ry_in0 r @ d', ry_out1 := ry_out1 r @ sent, ry_closed := \<not> go\<rparr>)
     | Socks_ready d k \<Rightarrow> (case poco_move poco_decode d k of (d', sent, go) \<Rightarrow>
         r\<lparr>ry_in1 := ry_in1 r @ d', ry_out0 := ry_out0 r @ sent, ry_closed := \<not> go\<rparr>))"

fun poco_run :: "poco_turn list \<Rightarrow> relay \<Rightarrow> relay" where
  "poco_run [] r = r"
| "poco_run (t # ts) r = (if ry_closed r then r else poco_run ts (poco_step t r))"

lemma poco_encode_map: "n \<le> length buf \<Longrightarrow> poco_encode buf n = map (\<lambda>c. c + 3) (take n buf) @ drop n buf"
proof (induction n arbitrary: buf)
  case (Suc n)
  then have "drop n (buf[n := buf ! n + 3]) = (buf ! n + 3) # drop (Suc n) buf"
    by (simp add: Cons_nth_drop_Suc [symmetric])
  then show ?case using Suc by (simp add: take_Suc_conv_app_nth)
qed simp

lemma poco_decode_map: "n \<le> length buf \<Longrightarrow> poco_decode buf n = map (\<lambda>c. c - 3) (take n buf) @ drop n buf"
proof (induction n arbitrary: buf)
  case (Suc n)
  then have "drop n (buf[n := buf ! n - 3]) = (buf ! n - 3) # drop (Suc n) buf"
    by (simp add: Cons_nth_drop_Suc [symmetric])
  then show ?case using Suc by (simp add: take_Suc_conv_app_nth)
qed simp

interpretation poco_enc: byte_code poco_encode "\<lambda>c. c + 3"
  by unfold_locales (simp add: poco_encode_map)

interpretation poco_dec: byte_code poco_decode "\<lambda>c. c - 3"
  by unfold_locales (simp add: poco_decode_map)

subsection \<open>Qt\<close>

definition qt_encode :: "byte list \<Rightarrow> byte list" where
  "qt_encode b = map (\<lambda>c. c + 3) b"

definition qt_decode :: "byte list \<Rightarrow> byte list" where
  "qt_decode b = map (\<lambda>c. c - 3) b"

text \<open>The loop that writes a buffer, by the answers of \<open>write\<close>; the result is what was written and whether all of it was.
  \<open>None\<close>: the loop has not ended with these answers.\<close>

fun qt_write :: "byte list \<Rightarrow> int list \<Rightarrow> byte list \<Rightarrow> (byte list \<times> bool) option" where
  "qt_write [] ws sent = Some (sent, True)"
| "qt_write (c # cs) [] sent = None"
| "qt_write (c # cs) (w # ws) sent =
     (if w = - 1 then Some (sent, False) else qt_write (drop (nat w) (c # cs)) ws (sent @ take (nat w) (c # cs)))"

text \<open>Signals: data from either side with the answers to the writes, and a peer that is gone.\<close>

datatype qt_event = Browser_read "byte list" "int list" | Socks_read "byte list" "int list" | Peer_gone

definition qt_step :: "qt_event \<Rightarrow> relay \<Rightarrow> relay option" where
  "qt_step e r = (case e of
       Browser_read d ws \<Rightarrow>
         if d = [] then Some (r\<lparr>ry_closed := True\<rparr>)
         else map_option (\<lambda>(sent, ok). r\<lparr>ry_in0 := ry_in0 r @ d, ry_out1 := ry_out1 r @ sent, ry_closed := \<not> ok\<rparr>) (qt_write (qt_encode d) ws [])
     | Socks_read d ws \<Rightarrow>
         if d = [] then Some (r\<lparr>ry_closed := True\<rparr>)
         else map_option (\<lambda>(sent, ok). r\<lparr>ry_in1 := ry_in1 r @ d, ry_out0 := ry_out0 r @ sent, ry_closed := \<not> ok\<rparr>) (qt_write (qt_decode d) ws [])
     | Peer_gone \<Rightarrow> Some (r\<lparr>ry_closed := True\<rparr>))"

fun qt_run :: "qt_event list \<Rightarrow> relay \<Rightarrow> relay option" where
  "qt_run [] r = Some r"
| "qt_run (e # es) r = (if ry_closed r then Some r else Option.bind (qt_step e r) (qt_run es))"

subsection \<open>Both pass the streams on\<close>

abbreviation tunnel_ok :: "relay \<Rightarrow> bool" where
  "tunnel_ok \<equiv> relay_ok (\<lambda>c. c + 3) (\<lambda>c. c - 3) []"

lemma poco_move_prefix:
  assumes "\<And>d. code d (length d) = map f d" "poco_move code d0 k = (d, sent, ok)"
  shows "prefix sent (map f d) \<and> (ok \<longrightarrow> sent = map f d)"
proof (cases "take 8192 d0 = []")
  case False
  let ?d = "take 8192 d0"
  have e: "d = ?d" "sent = take k (map f ?d)" "ok \<longleftrightarrow> length (take k (map f ?d)) = length ?d"
    using assms False by (auto simp: poco_move_def Let_def simp del: length_take)
  show ?thesis unfolding e by (auto simp: take_is_prefix simp del: take_map)
qed (use assms(2) in \<open>simp add: poco_move_def\<close>)

lemma poco_step_ok:
  assumes "tunnel_ok r" "\<not> ry_closed r"
  shows "tunnel_ok (poco_step t r)"
proof (cases t)
  case (Browser_ready d0 k)
  obtain d sent ok where m: "poco_move poco_encode d0 k = (d, sent, ok)" by (cases "poco_move poco_encode d0 k")
  from poco_move_prefix [OF poco_enc.code_map m] assms Browser_ready m show ?thesis
    by (auto simp: poco_step_def relay_ok_def)
next
  case (Socks_ready d0 k)
  obtain d sent ok where m: "poco_move poco_decode d0 k = (d, sent, ok)" by (cases "poco_move poco_decode d0 k")
  from poco_move_prefix [OF poco_dec.code_map m] assms Socks_ready m show ?thesis
    by (auto simp: poco_step_def relay_ok_def)
qed (use assms in \<open>simp add: poco_step_def\<close>)

lemma poco_run_ok: "tunnel_ok r \<Longrightarrow> tunnel_ok (poco_run ts r)"
  by (induction ts arbitrary: r) (simp_all add: poco_step_ok)

lemma qt_write_prefix: "qt_write b ws sent = Some (out, ok) \<Longrightarrow> prefix out (sent @ b) \<and> (ok \<longrightarrow> out = sent @ b)"
proof (induction b ws sent rule: qt_write.induct)
  case (3 c cs w ws sent)
  show ?case
  proof (cases "w = - 1")
    case False
    then have "qt_write (drop (nat w) (c # cs)) ws (sent @ take (nat w) (c # cs)) = Some (out, ok)" using 3 by simp
    from "3.IH" [OF False this] show ?thesis by simp
  qed (use 3 in simp)
qed simp_all

lemma qt_step_ok:
  assumes "qt_step e r = Some r'" "tunnel_ok r" "\<not> ry_closed r"
  shows "tunnel_ok r'"
proof (cases e)
  case (Browser_read d ws)
  show ?thesis
  proof (cases "d = []")
    case False
    with assms(1) Browser_read obtain sent ok where w: "qt_write (qt_encode d) ws [] = Some (sent, ok)"
      "r' = r\<lparr>ry_in0 := ry_in0 r @ d, ry_out1 := ry_out1 r @ sent, ry_closed := \<not> ok\<rparr>" by (auto simp: qt_step_def)
    from qt_write_prefix [OF w(1)] assms(2,3) show ?thesis by (auto simp: w(2) relay_ok_def qt_encode_def)
  qed (use assms Browser_read in \<open>auto simp: qt_step_def relay_ok_def\<close>)
next
  case (Socks_read d ws)
  show ?thesis
  proof (cases "d = []")
    case False
    with assms(1) Socks_read obtain sent ok where w: "qt_write (qt_decode d) ws [] = Some (sent, ok)"
      "r' = r\<lparr>ry_in1 := ry_in1 r @ d, ry_out0 := ry_out0 r @ sent, ry_closed := \<not> ok\<rparr>" by (auto simp: qt_step_def)
    from qt_write_prefix [OF w(1)] assms(2,3) show ?thesis by (auto simp: w(2) relay_ok_def qt_decode_def)
  qed (use assms Socks_read in \<open>auto simp: qt_step_def relay_ok_def\<close>)
qed (use assms in \<open>auto simp: qt_step_def relay_ok_def\<close>)

lemma qt_run_ok: "qt_run es r = Some r' \<Longrightarrow> tunnel_ok r \<Longrightarrow> tunnel_ok r'"
proof (induction es arbitrary: r)
  case (Cons e es)
  then show ?case using qt_step_ok [of e r] by (auto simp: bind_eq_Some_conv split: if_splits)
qed simp

text \<open>The client ends on POCO and Qt pass on what they read, in order and encoded: what has gone out on each side is the code of
  an initial part of what came in on the other, and of all of it as long as the tunnel is open.\<close>

theorem variants_transparent:
  "tunnel_ok (poco_run ts relay_start) \<and> (\<forall>r. qt_run es relay_start = Some r \<longrightarrow> tunnel_ok r)"
proof -
  have "tunnel_ok relay_start" by (simp add: relay_ok_def relay_start_def)
  then show ?thesis using poco_run_ok qt_run_ok by blast
qed

text \<open>A \<open>write\<close> of Qt that keeps answering 0 keeps the loop.\<close>

lemma qt_write_stuck: "b \<noteq> [] \<Longrightarrow> qt_write b (replicate n 0) sent = None"
  by (induction n) (cases b; simp)+

lemma variants_transparent_witness:
  "tunnel_ok (the (qt_run [Browser_read [1, 2] [1, 1], Socks_read [5] [1]] relay_start))"
proof -
  have "qt_run [Browser_read [1, 2] [1, 1], Socks_read [5] [1]] relay_start
    = Some (relay_start\<lparr>ry_in0 := [1, 2], ry_out1 := [4, 5], ry_in1 := [5], ry_out0 := [2]\<rparr>)" by code_simp
  with variants_transparent [of "[]" "[Browser_read [1, 2] [1, 1], Socks_read [5] [1]]"] show ?thesis by simp
qed

end
