(* ===== verification/ReplDump.thy ===== *)
theory ReplDump
  imports Tunnel Binlog
begin

section \<open>Fetching a binary log (repl/repl4.c)\<close>

text \<open>
  The program asks a MySQL server for its binary log and writes the events into a file. What the client library answers is an
  argument: whether each call succeeds, and the packets. A packet is the list of its bytes; the first one is the status. \<open>None\<close>
  as a result says that the packets given were not the last.
\<close>

definition EVENT_TYPE_OFFSET :: nat where "EVENT_TYPE_OFFSET = 4"
definition ROTATE_TYPE :: byte where "ROTATE_TYPE = 4"

definition BINLOG_MAGIC :: "byte list" where
  "BINLOG_MAGIC = [0xfe, 0x62, 0x69, 0x6e]"

text \<open>The request: start position, flags, id of the slave, name of the log.\<close>

definition logname :: string where "logname = ''mysql-bin.000001''"

definition dump_request :: "byte list" where
  "dump_request = le_bytes 4 (4 :: 32 word) @ le_bytes 2 (0 :: 16 word) @ le_bytes 4 (0 :: 32 word) @ bytes_of logname"

datatype packet = Packet_error | Packet "byte list"

text \<open>The loop. A packet of less than six bytes has no type, and what lies behind it in the buffer of the connection is looked at.\<close>

fun dump_loop :: "packet list \<Rightarrow> bool \<Rightarrow> byte list \<Rightarrow> byte list option res" where
  "dump_loop [] begin fp = Inr None"
| "dump_loop (Packet_error # ps) begin fp = Inr (Some fp)"
| "dump_loop (Packet d # ps) begin fp =
     (if length d < 1 then Inr (Some fp)
      else if length d < 8 \<and> d ! 0 = 254 then Inr (Some fp)
      else let rbuf = drop 1 d in
        if length rbuf \<le> EVENT_TYPE_OFFSET then Inl Indeterminate_value
        else if rbuf ! EVENT_TYPE_OFFSET = ROTATE_TYPE then
          if begin then dump_loop ps False fp else Inr (Some (fp @ rbuf))
        else dump_loop ps begin (fp @ rbuf))"

text \<open>\<open>main\<close>: the exit status and the file. The file is written to before its pointer is tested.\<close>

definition repl_main :: "bool \<Rightarrow> bool \<Rightarrow> bool \<Rightarrow> bool \<Rightarrow> packet list \<Rightarrow> (int \<times> byte list) option res" where
  "repl_main init_ok connect_ok command_ok open_ok ps =
     (if \<not> init_ok then Inr (Some (- 1, []))
      else if \<not> connect_ok then Inr (Some (- 2, []))
      else if \<not> command_ok then Inr (Some (- 3, []))
      else if \<not> open_ok then Inl Null_deref
      else fmap (map_option (\<lambda>fp. (0, fp))) (dump_loop ps True BINLOG_MAGIC))"

subsection \<open>What the file holds\<close>

definition event_ok :: "byte list \<Rightarrow> bool" where
  "event_ok e \<longleftrightarrow> 7 \<le> length e"

definition is_rotate :: "byte list \<Rightarrow> bool" where
  "is_rotate e \<longleftrightarrow> e ! EVENT_TYPE_OFFSET = ROTATE_TYPE"

lemma dump_events:
  "\<forall>e \<in> set es. event_ok e \<and> \<not> is_rotate e \<Longrightarrow>
   dump_loop (map (\<lambda>e. Packet (0 # e)) es @ ps) begin fp = dump_loop ps begin (fp @ concat es)"
  by (induction es arbitrary: fp) (auto simp: event_ok_def is_rotate_def EVENT_TYPE_OFFSET_def)

lemma dump_rotate:
  "event_ok e \<Longrightarrow> is_rotate e \<Longrightarrow>
   dump_loop (Packet (0 # e) # ps) begin fp = (if begin then dump_loop ps False fp else Inr (Some (fp @ e)))"
  by (auto simp: event_ok_def is_rotate_def EVENT_TYPE_OFFSET_def)

text \<open>The file holds the magic number and the events the server sent, in order, up to the second rotate event and with it; the
  first rotate event, which the server makes up at the start of a dump, is left out.\<close>

theorem repl_dump:
  assumes "\<forall>e \<in> set (pre @ es). event_ok e \<and> \<not> is_rotate e" "event_ok r0" "is_rotate r0" "event_ok r1" "is_rotate r1"
  shows "repl_main True True True True (map (\<lambda>e. Packet (0 # e)) (pre @ [r0] @ es @ [r1]) @ ps)
    = Inr (Some (0, BINLOG_MAGIC @ concat (pre @ es @ [r1])))"
proof -
  have "\<forall>e \<in> set pre. event_ok e \<and> \<not> is_rotate e" "\<forall>e \<in> set es. event_ok e \<and> \<not> is_rotate e" using assms(1) by auto
  then show ?thesis
    using assms(2-5) by (simp add: repl_main_def dump_events dump_rotate del: dump_loop.simps)
qed

text \<open>A log that ends before the second rotate event: the file ends with the last event.\<close>

lemma repl_dump_end:
  "\<forall>e \<in> set es. event_ok e \<and> \<not> is_rotate e \<Longrightarrow>
   repl_main True True True True (map (\<lambda>e. Packet (0 # e)) es @ [Packet [254]]) = Inr (Some (0, BINLOG_MAGIC @ concat es))"
  by (simp add: repl_main_def dump_events)

lemma repl_open_fails: "repl_main True True True False ps = Inl Null_deref"
  by (simp add: repl_main_def)

lemma repl_short_packet: "repl_main True True True True [Packet [0, 1, 2]] = Inl Indeterminate_value"
  by (simp add: repl_main_def EVENT_TYPE_OFFSET_def)

lemma dump_request_length: "length dump_request = 26"
  by (simp add: dump_request_def logname_def bytes_of_def)

lemma repl_dump_witness:
  "repl_main True True True True (map (\<lambda>e. Packet (0 # e)) [[0, 0, 0, 0, 4, 0, 0], [9, 0, 0, 0, 2, 0, 0], [0, 0, 0, 0, 4, 1, 1]])
    = Inr (Some (0, BINLOG_MAGIC @ [9, 0, 0, 0, 2, 0, 0] @ [0, 0, 0, 0, 4, 1, 1]))"
  using repl_dump [of "[]" "[[9, 0, 0, 0, 2, 0, 0]]" "[0, 0, 0, 0, 4, 0, 0]" "[0, 0, 0, 0, 4, 1, 1]" "[]"]
  by (simp add: event_ok_def is_rotate_def EVENT_TYPE_OFFSET_def ROTATE_TYPE_def)

end
