(* ===== verification/LoadFiles.thy ===== *)
theory LoadFiles
  imports Prelude
begin

section \<open>Files of LOAD DATA statements (myreplicator/src/myreplicator.cc)\<close>

text \<open>
  The replicator prints the events of a binary log as statements. The data of a LOAD DATA statement arrive as events of their own: the
  class \<open>Load_log_processor\<close> collects them in temporary files, one for each file id, and hands the name of the file out
  when the statement itself arrives. The theory holds the events (objects of MySQL's event library, here the fields the program
  reads), the file system as far as the program uses it, and the class. \<open>load_refines\<close> relates the class to a map from file
  ids to contents. What a system call answers is a number: 0 for success, \<open>Suc k\<close> for a failure after \<open>k\<close> bytes.
\<close>

subsection \<open>Events\<close>

record fdesc =
  binlog_version :: nat
  common_header_len :: nat
  in_use :: bool
  is_valid :: bool

datatype rows_type = Write_rows | Update_rows | Delete_rows | Pre_ga_write_rows | Pre_ga_update_rows | Pre_ga_delete_rows

datatype ev_body =
    Query_event "string option" bool
  | Create_file_event string "string option" nat "byte list"
  | Append_block_event nat "byte list"
  | Exec_load_event nat
  | Format_description_event fdesc
  | Begin_load_query_event nat "byte list"
  | Execute_load_query_event nat "string option"
  | Table_map_event nat "string option"
  | Rows_event rows_type nat bool
  | Rotate_event string
  | Load_event string
  | Other_event nat

record log_event =
  ev_when :: int
  ev_server :: nat
  ev_pos :: nat
  ev_body :: ev_body

datatype Exit_status = OK_CONTINUE | ERROR_STOP | OK_STOP

subsection \<open>The file system\<close>

record loader =
  ld_dir :: string
  ld_files :: "string \<Rightarrow> byte list option"
  ld_names :: "(string option \<times> log_event option) list"
  ld_io :: "nat \<Rightarrow> nat"
  ld_n :: nat

definition ask :: "loader \<Rightarrow> nat \<times> loader" where
  "ask l = (ld_io l (ld_n l), l\<lparr>ld_n := Suc (ld_n l)\<rparr>)"

text \<open>\<open>my_create\<close> with \<open>O_EXCL\<close>, \<open>my_open\<close> with \<open>O_APPEND\<close>, \<open>my_write\<close>.\<close>

definition my_create :: "string \<Rightarrow> loader \<Rightarrow> bool \<times> loader" where
  "my_create f l = (case ask l of (a, l) \<Rightarrow>
     if a = 0 \<and> ld_files l f = None then (True, l\<lparr>ld_files := (ld_files l)(f \<mapsto> [])\<rparr>) else (False, l))"

definition my_open :: "string \<Rightarrow> loader \<Rightarrow> bool \<times> loader" where
  "my_open f l = (case ask l of (a, l) \<Rightarrow> (a = 0 \<and> ld_files l f \<noteq> None, l))"

definition append_to :: "string \<Rightarrow> byte list \<Rightarrow> loader \<Rightarrow> loader" where
  "append_to f b l = l\<lparr>ld_files := (ld_files l)(f := map_option (\<lambda>c. c @ b) (ld_files l f))\<rparr>"

definition my_write :: "string \<Rightarrow> byte list \<Rightarrow> loader \<Rightarrow> bool \<times> loader" where
  "my_write f b l = (case ask l of (a, l) \<Rightarrow>
     if a = 0 then (True, append_to f b l) else (False, append_to f (take (a - 1) b) l))"

definition my_call :: "loader \<Rightarrow> bool \<times> loader" where
  "my_call l = (case ask l of (a, l) \<Rightarrow> (a = 0, l))"

subsection \<open>Names of files\<close>

definition hex_char :: "nat \<Rightarrow> char" where
  "hex_char d = (if d < 10 then char_of (48 + d) else char_of (87 + d))"

fun show_hex :: "nat \<Rightarrow> string" where
  "show_hex n = (if n < 16 then [hex_char n] else show_hex (n div 16) @ [hex_char (n mod 16)])"

declare show_hex.simps [simp del]

text \<open>\<open>create_unique_file\<close>: \<open>cap\<close> is the size of the buffer that holds the name. A name that does not fit is an
  overflow.\<close>

fun create_loop :: "nat list \<Rightarrow> nat \<Rightarrow> string \<Rightarrow> loader \<Rightarrow> (string option \<times> loader) res" where
  "create_loop [] cap base l = Inr (None, l)"
| "create_loop (v # vs) cap base l = (let f = base @ CHR ''-'' # show_hex v in
     if cap \<le> length f then Inl Buffer_overflow
     else case my_create f l of (ok, l) \<Rightarrow> if ok then Inr (Some f, l) else create_loop vs cap base l)"

definition tries :: "nat list" where "tries = [0..<1000]"

definition create_unique_file :: "nat \<Rightarrow> string \<Rightarrow> loader \<Rightarrow> (string option \<times> loader) res" where
  "create_unique_file = create_loop tries"

subsection \<open>The array of names\<close>

definition init_by_dir_name :: "string \<Rightarrow> loader \<Rightarrow> loader" where
  "init_by_dir_name dir l = l\<lparr>ld_dir := (if dir = [] \<or> last dir = CHR ''/'' then dir else dir @ ''/'')\<rparr>"

text \<open>\<open>set_dynamic\<close> grows the array with zeroed elements.\<close>

definition set_dynamic :: "nat \<Rightarrow> string option \<times> log_event option \<Rightarrow> loader \<Rightarrow> loader" where
  "set_dynamic i r l = l\<lparr>ld_names := (ld_names l @ replicate (Suc i - length (ld_names l)) (None, None))[i := r]\<rparr>"

definition bzero :: "nat \<Rightarrow> loader \<Rightarrow> loader" where
  "bzero i l = l\<lparr>ld_names := (ld_names l)[i := (None, None)]\<rparr>"

definition grab_event :: "nat \<Rightarrow> loader \<Rightarrow> log_event option \<times> loader" where
  "grab_event i l =
     (if length (ld_names l) \<le> i then (None, l)
      else case snd (ld_names l ! i) of None \<Rightarrow> (None, l) | Some ce \<Rightarrow> (Some ce, bzero i l))"

definition grab_fname :: "nat \<Rightarrow> loader \<Rightarrow> string option \<times> loader" where
  "grab_fname i l =
     (if length (ld_names l) \<le> i then (None, l)
      else if snd (ld_names l ! i) = None then (fst (ld_names l ! i), bzero i l)
      else (None, l))"

definition destroy :: "loader \<Rightarrow> loader" where
  "destroy l = l\<lparr>ld_names := []\<rparr>"

subsection \<open>The first event of a statement, and the ones that follow\<close>

text \<open>\<open>set_fname_outside_temp_buf\<close>.\<close>

definition set_fname :: "string \<Rightarrow> log_event \<Rightarrow> log_event" where
  "set_fname f e = (case ev_body e of
       Create_file_event g db i b \<Rightarrow> e\<lparr>ev_body := Create_file_event f db i b\<rparr>
     | Load_event g \<Rightarrow> e\<lparr>ev_body := Load_event f\<rparr>
     | _ \<Rightarrow> e)"

text \<open>\<open>my_malloc\<close>, \<open>set_dynamic\<close> and \<open>my_close\<close> only have an answer. \<open>full_len\<close> is a \<open>uint\<close>: the sum of the two lengths, which
  are \<open>size_t\<close>, is cut to 32 bits.\<close>

definition process_first_event :: "string \<Rightarrow> byte list \<Rightarrow> nat \<Rightarrow> log_event option \<Rightarrow> loader \<Rightarrow> (Exit_status \<times> loader) res" where
  "process_first_event bname block file_id ce l =
     (let full_len = (length (ld_dir l) + length bname + 9 + 9 + 1) mod 2 ^ 32 in
      case my_call l of (ok, l) \<Rightarrow>
      if \<not> ok then Inr (ERROR_STOP, l)
      else fbind (create_unique_file full_len (ld_dir l @ bname @ CHR ''-'' # show_hex file_id) l) (\<lambda>(f, l).
        case f of None \<Rightarrow> Inr (ERROR_STOP, l)
        | Some f \<Rightarrow>
          case my_call l of (ok, l) \<Rightarrow>
          if \<not> ok then Inr (ERROR_STOP, l)
          else let l = set_dynamic file_id (Some f, map_option (set_fname f) ce) l in
            case my_write f block l of (w, l) \<Rightarrow>
            case my_call l of (c, l) \<Rightarrow>
            Inr (if w \<and> c then OK_CONTINUE else ERROR_STOP, l)))"

text \<open>\<open>process\<close> for the three kinds of events. \<open>dirname_length\<close> is a function of MySQL's library.\<close>

definition process_create :: "(string \<Rightarrow> nat) \<Rightarrow> log_event \<Rightarrow> string \<Rightarrow> nat \<Rightarrow> byte list \<Rightarrow> loader \<Rightarrow> (Exit_status \<times> loader) res" where
  "process_create dirname_length ce fname file_id block l =
     process_first_event (drop (dirname_length fname) fname) block file_id (Some ce) l"

definition process_begin :: "nat \<Rightarrow> byte list \<Rightarrow> loader \<Rightarrow> (Exit_status \<times> loader) res" where
  "process_begin file_id block l = process_first_event ''SQL_LOAD_MB'' block file_id None l"

definition process_append :: "nat \<Rightarrow> byte list \<Rightarrow> loader \<Rightarrow> Exit_status \<times> loader" where
  "process_append file_id block l =
     (case (if file_id < length (ld_names l) then fst (ld_names l ! file_id) else None) of
        None \<Rightarrow> (OK_CONTINUE, l)
      | Some f \<Rightarrow>
          case my_open f l of (ok, l) \<Rightarrow>
          if \<not> ok then (ERROR_STOP, l)
          else case my_write f block l of (w, l) \<Rightarrow>
            case my_call l of (c, l) \<Rightarrow>
            (if w \<and> c then OK_CONTINUE else ERROR_STOP, l))"

text \<open>\<open>prepare_new_file_for_old_format\<close>: the buffer has \<open>FN_REFLEN + 1\<close> bytes; \<open>fn_format\<close> is a function
  of MySQL's library.\<close>

definition FN_REFLEN :: nat where "FN_REFLEN = 512"

definition prepare_new_file_for_old_format ::
  "(string \<Rightarrow> string \<Rightarrow> string) \<Rightarrow> string \<Rightarrow> loader \<Rightarrow> (string option \<times> loader) res" where
  "prepare_new_file_for_old_format fn_format fname l = create_unique_file (FN_REFLEN + 1) (fn_format fname (ld_dir l)) l"

text \<open>\<open>load_old_format_file\<close>: the server sends the file in packets, the last of them empty. \<open>None\<close> says that the packets
  given were not enough. The result has the packets that are left.\<close>

datatype net_packet = Net_error | Net "byte list"

fun load_old_loop :: "string \<Rightarrow> net_packet list \<Rightarrow> loader \<Rightarrow> (Exit_status \<times> net_packet list \<times> loader) option" where
  "load_old_loop f [] l = None"
| "load_old_loop f (Net_error # ps) l = Some (ERROR_STOP, ps, l)"
| "load_old_loop f (Net b # ps) l =
     (if b = [] then case my_call l of (ok, l) \<Rightarrow> Some (if ok then OK_CONTINUE else ERROR_STOP, ps, l)
      else case my_write f b l of (ok, l) \<Rightarrow> if ok then load_old_loop f ps l else Some (ERROR_STOP, ps, l))"

definition load_old_format_file ::
  "string \<Rightarrow> string \<Rightarrow> net_packet list \<Rightarrow> loader \<Rightarrow> (Exit_status \<times> net_packet list \<times> loader) option res" where
  "load_old_format_file server_fname f ps l =
     (if FN_REFLEN + 1 < length server_fname + 2 then Inl Buffer_overflow
      else case my_call l of (ok, l) \<Rightarrow> Inr (if ok then load_old_loop f ps l else Some (ERROR_STOP, ps, l)))"

text \<open>\<open>convert_path_to_forward_slashes\<close>.\<close>

definition convert_path :: "string \<Rightarrow> string" where
  "convert_path = map (\<lambda>c. if c = CHR 0x5C then CHR ''/'' else c)"

section \<open>The class and the map it stands for\<close>

definition name_of :: "loader \<Rightarrow> nat \<Rightarrow> string option \<times> log_event option" where
  "name_of l i = (if i < length (ld_names l) then ld_names l ! i else (None, None))"

lemma name_set_dynamic [simp]: "name_of (set_dynamic i r l) j = (if j = i then r else name_of l j)"
  by (auto simp: name_of_def set_dynamic_def nth_append nth_list_update)

lemma name_bzero [simp]: "name_of (bzero i l) j = (if j = i then (None, None) else name_of l j)"
  by (auto simp: name_of_def bzero_def nth_list_update)

lemma name_update [simp]: "name_of (l\<lparr>ld_files := F\<rparr>) = name_of l" "name_of (l\<lparr>ld_n := n\<rparr>) = name_of l" "name_of (l\<lparr>ld_io := a\<rparr>) = name_of l"
  by (simp_all add: name_of_def fun_eq_iff)

lemma files_update [simp]: "ld_files (set_dynamic i r l) = ld_files l" "ld_files (bzero i l) = ld_files l"
  by (simp_all add: set_dynamic_def bzero_def)

lemma grab_event_name: "grab_event i l = (case snd (name_of l i) of None \<Rightarrow> (None, l) | Some ce \<Rightarrow> (Some ce, bzero i l))"
  by (simp add: grab_event_def name_of_def)

lemma bzero_out: "length (ld_names l) \<le> i \<Longrightarrow> bzero i l = l"
  by (cases l) (simp add: bzero_def list_update_beyond)

lemma grab_fname_name: "grab_fname i l = (if snd (name_of l i) = None then (fst (name_of l i), bzero i l) else (None, l))"
  by (simp add: grab_fname_def name_of_def bzero_out)

text \<open>The contents collected for a file id, and whether the create event is kept with them.\<close>

definition loads :: "loader \<Rightarrow> nat \<Rightarrow> (byte list \<times> bool) option" where
  "loads l i = (case name_of l i of (f, e) \<Rightarrow> Option.bind f (\<lambda>f. map_option (\<lambda>c. (c, e \<noteq> None)) (ld_files l f)))"

definition ld_inv :: "loader \<Rightarrow> bool" where
  "ld_inv l \<longleftrightarrow> (\<forall>i f. fst (name_of l i) = Some f \<longrightarrow> ld_files l f \<noteq> None)
     \<and> (\<forall>i j f. fst (name_of l i) = Some f \<longrightarrow> fst (name_of l j) = Some f \<longrightarrow> i = j)
     \<and> (\<forall>i. fst (name_of l i) = None \<longrightarrow> snd (name_of l i) = None)"

text \<open>The answers of the system do not matter to either.\<close>

lemma ask_view [simp]: "ld_files (snd (ask l)) = ld_files l" "name_of (snd (ask l)) = name_of l" "ld_dir (snd (ask l)) = ld_dir l"
  by (simp_all add: ask_def name_of_def fun_eq_iff)

lemma loads_cong: "name_of l = name_of k \<Longrightarrow> ld_files l = ld_files k \<Longrightarrow> loads l = loads k"
  by (simp add: loads_def fun_eq_iff)

lemma inv_cong: "name_of l = name_of k \<Longrightarrow> ld_files l = ld_files k \<Longrightarrow> ld_inv l = ld_inv k"
  by (simp add: ld_inv_def)

lemma my_call_view:
  assumes "my_call l = (ok, k)"
  shows "ld_files k = ld_files l" "name_of k = name_of l" "ld_dir k = ld_dir l"
  using assms by (auto simp: my_call_def ask_def)

lemma my_open_view:
  assumes "my_open f l = (ok, k)"
  shows "ld_files k = ld_files l" "name_of k = name_of l"
  using assms by (auto simp: my_open_def ask_def)

lemma my_create_view:
  assumes "my_create f l = (ok, k)"
  shows "name_of k = name_of l" "ld_dir k = ld_dir l" "ok \<Longrightarrow> ld_files l f = None"
    "ld_files k = (if ok then (ld_files l)(f \<mapsto> []) else ld_files l)"
  using assms by (auto simp: my_create_def ask_def split: if_splits)

lemma my_write_view:
  assumes "my_write f b l = (ok, k)"
  shows "name_of k = name_of l" "\<exists>c. ld_files k = (ld_files l)(f := map_option (\<lambda>d. d @ c) (ld_files l f)) \<and> (ok \<longrightarrow> c = b)"
  using assms by (auto simp: my_write_def append_to_def ask_def split: if_splits)

lemma create_loop_view:
  assumes "create_loop vs cap base l = Inr (r, k)"
  shows "name_of k = name_of l \<and> (case r of None \<Rightarrow> ld_files k = ld_files l
    | Some f \<Rightarrow> ld_files l f = None \<and> ld_files k = (ld_files l)(f \<mapsto> []))"
  using assms
proof (induction vs arbitrary: l)
  case (Cons v vs)
  let ?f = "base @ CHR ''-'' # show_hex v"
  obtain ok l1 where c: "my_create ?f l = (ok, l1)" by fastforce
  note view = my_create_view [OF c]
  show ?case
  proof (cases ok)
    case True
    then show ?thesis using Cons.prems c view by (auto simp: Let_def split: if_splits)
  next
    case False
    then have "create_loop vs cap base l1 = Inr (r, k)" using Cons.prems c by (auto simp: Let_def split: if_splits)
    from Cons.IH [OF this] show ?thesis using view False by (cases r) auto
  qed
qed simp

subsection \<open>The invariant\<close>

lemma inv_files:
  assumes "ld_inv l" "name_of k = name_of l" "\<And>f. ld_files l f \<noteq> None \<Longrightarrow> ld_files k f \<noteq> None"
  shows "ld_inv k"
  using assms unfolding ld_inv_def by metis

lemma inv_bzero: "ld_inv l \<Longrightarrow> ld_inv (bzero i l)"
  by (auto simp: ld_inv_def)

lemma fresh_name: "ld_inv l \<Longrightarrow> ld_files l f = None \<Longrightarrow> fst (name_of l j) \<noteq> Some f"
  unfolding ld_inv_def by blast

lemma inv_set:
  assumes "ld_inv l" "ld_files l f = None" "name_of k = name_of l" "ld_files k = (ld_files l)(f \<mapsto> b)"
  shows "ld_inv (set_dynamic i (Some f, e) k)"
  using assms fresh_name [OF assms(1,2)] unfolding ld_inv_def by (auto simp: assms(3,4))

lemma loads_set:
  assumes "ld_inv l" "ld_files l f = None" "name_of k = name_of l" "ld_files k = (ld_files l)(f \<mapsto> b)"
  shows "loads (set_dynamic i (Some f, e) k) = (loads l)(i \<mapsto> (b, e \<noteq> None))"
proof
  fix j
  show "loads (set_dynamic i (Some f, e) k) j = ((loads l)(i \<mapsto> (b, e \<noteq> None))) j"
    using fresh_name [OF assms(1,2), of j] assms(3,4) by (cases "fst (name_of l j)") (auto simp: loads_def split: prod.splits)
qed

lemma loads_append:
  assumes "ld_inv l" "fst (name_of l i) = Some f" "name_of k = name_of l"
    "ld_files k = (ld_files l)(f := map_option (\<lambda>d. d @ b) (ld_files l f))"
  shows "loads k = (loads l)(i := map_option (\<lambda>(c, e). (c @ b, e)) (loads l i))"
proof
  fix j
  show "loads k j = ((loads l)(i := map_option (\<lambda>(c, e). (c @ b, e)) (loads l i))) j"
  proof (cases "j = i")
    case True
    with assms show ?thesis by (cases "ld_files l f") (auto simp: loads_def split: prod.splits)
  next
    case False
    with assms have "fst (name_of l j) \<noteq> Some f" unfolding ld_inv_def by metis
    with False assms show ?thesis by (auto simp: loads_def split: prod.splits Option.bind_splits)
  qed
qed

subsection \<open>Each operation on the map\<close>

lemma create_view:
  assumes "create_unique_file cap base l = Inr (r, k)"
  shows "name_of k = name_of l" "r = None \<Longrightarrow> ld_files k = ld_files l"
    "r = Some f \<Longrightarrow> ld_files l f = None \<and> ld_files k = (ld_files l)(f \<mapsto> [])"
  using create_loop_view [OF assms [unfolded create_unique_file_def]] by auto

lemma inv_write:
  assumes "my_write f b l = (w, k)" "ld_inv l"
  shows "ld_inv k"
  using my_write_view [OF assms(1)] by (intro inv_files [OF assms(2)]) auto

lemma inv_call: "my_call l = (c, k) \<Longrightarrow> ld_inv l \<Longrightarrow> ld_inv k"
  using my_call_view [of l c k] inv_cong [of k l] by simp

lemma loads_call: "my_call l = (c, k) \<Longrightarrow> loads k = loads l"
  using my_call_view [of l c k] loads_cong [of k l] by simp

lemma loads_write:
  assumes "my_write f b l = (True, k)" "ld_inv l" "fst (name_of l i) = Some f"
  shows "loads k = (loads l)(i := map_option (\<lambda>(c, e). (c @ b, e)) (loads l i))"
  using my_write_view [OF assms(1)] loads_append [OF assms(2,3)] by auto

lemma first_event_view:
  assumes run: "process_first_event bname block fid ce l = Inr (st, l')" and inv: "ld_inv l"
  shows "ld_inv l' \<and> (st = OK_CONTINUE \<longrightarrow> loads l' = (loads l)(fid \<mapsto> (block, ce \<noteq> None)))"
proof -
  obtain ok l1 where l1: "my_call l = (ok, l1)" by fastforce
  note i1 = inv_call [OF l1 inv] and v1 = my_call_view [OF l1]
  show ?thesis
  proof (cases ok)
    case True
    then obtain r l2 where l2: "create_unique_file ((length (ld_dir l) + length bname + 9 + 9 + 1) mod 2 ^ 32) (ld_dir l1 @ bname @ CHR ''-'' # show_hex fid) l1 = Inr (r, l2)"
      using run l1 v1 by (auto simp: process_first_event_def res_simps Let_def)
    note v2 = create_view [OF l2]
    show ?thesis
    proof (cases r)
      case None
      with run l1 l2 True v1 v2 inv_cong [of l2 l1] i1 show ?thesis by (auto simp: process_first_event_def Let_def)
    next
      case (Some f)
      obtain ok2 l3 where l3: "my_call l2 = (ok2, l3)" by fastforce
      note v3 = my_call_view [OF l3]
      have n3: "ld_files l1 f = None" "name_of l3 = name_of l1" "ld_files l3 = (ld_files l1)(f \<mapsto> [])"
        using v2 v3 Some by auto
      have i3: "ld_inv l3" by (rule inv_files [OF i1 n3(2)]) (auto simp: n3(3))
      show ?thesis
      proof (cases ok2)
        case False
        with run l1 l2 l3 True v1 Some i3 show ?thesis by (auto simp: process_first_event_def Let_def)
      next
        case ok2: True
        let ?s = "set_dynamic fid (Some f, map_option (set_fname f) ce) l3"
        have inv_s: "ld_inv ?s" by (rule inv_set [OF i1 n3])
        have ls: "loads ?s = (loads l1)(fid \<mapsto> ([], ce \<noteq> None))" using loads_set [OF i1 n3, of fid "map_option (set_fname f) ce"] by simp
        obtain w l4 where l4: "my_write f block ?s = (w, l4)" by fastforce
        obtain c l5 where l5: "my_call l4 = (c, l5)" by fastforce
        have res: "st = (if w \<and> c then OK_CONTINUE else ERROR_STOP)" "l' = l5"
          using run l1 l2 l3 l4 l5 True ok2 v1 Some by (auto simp: process_first_event_def Let_def)
        have "ld_inv l5" by (rule inv_call [OF l5 inv_write [OF l4 inv_s]])
        moreover have "loads l5 = (loads l)(fid \<mapsto> (block, ce \<noteq> None))" if w
          using loads_write [of f block ?s l4 fid] l4 inv_s ls loads_call [OF l5] loads_call [OF l1] that by simp
        ultimately show ?thesis using res by auto
      qed
    qed
  next
    case False
    with run l1 i1 show ?thesis by (auto simp: process_first_event_def Let_def)
  qed
qed

lemma append_view:
  assumes run: "process_append fid block l = (st, l')" and inv: "ld_inv l"
  shows "ld_inv l' \<and> (st = OK_CONTINUE \<longrightarrow> loads l' = (loads l)(fid := map_option (\<lambda>(c, e). (c @ block, e)) (loads l fid)))"
proof (cases "fst (name_of l fid)")
  case None
  with run have "st = OK_CONTINUE" "l' = l" by (auto simp: process_append_def name_of_def split: if_splits)
  moreover have "loads l fid = None" using None by (cases "name_of l fid") (simp add: loads_def)
  ultimately show ?thesis using inv by (simp add: fun_upd_idem)
next
  case (Some f)
  then have f: "(if fid < length (ld_names l) then fst (ld_names l ! fid) else None) = Some f"
    by (simp add: name_of_def split: if_splits)
  obtain ok l1 where l1: "my_open f l = (ok, l1)" by fastforce
  note v1 = my_open_view [OF l1]
  have i1: "ld_inv l1" using inv inv_cong [of l1 l] v1 by simp
  obtain w l2 where l2: "my_write f block l1 = (w, l2)" by fastforce
  obtain c l3 where l3: "my_call l2 = (c, l3)" by fastforce
  show ?thesis
  proof (cases ok)
    case True
    then have res: "st = (if w \<and> c then OK_CONTINUE else ERROR_STOP)" "l' = l3"
      using run f l1 l2 l3 by (auto simp: process_append_def)
    have "ld_inv l3" by (rule inv_call [OF l3 inv_write [OF l2 i1]])
    moreover have "loads l3 = (loads l)(fid := map_option (\<lambda>(c, e). (c @ block, e)) (loads l fid))" if w
      using loads_write [of f block l1 l2 fid] l2 i1 loads_call [OF l3] loads_cong [of l1 l] v1 Some that by simp
    ultimately show ?thesis using res by auto
  next
    case False
    with run f l1 i1 show ?thesis by (auto simp: process_append_def)
  qed
qed

lemma loads_bzero: "loads (bzero i l) = (loads l)(i := None)"
  by (auto simp: loads_def fun_eq_iff split: prod.splits)

lemma fun_upd_None: "m i = None \<Longrightarrow> m(i := None) = m"
  by (auto simp: fun_eq_iff)

lemma grab_event_view:
  assumes "grab_event i l = (r, l')" "ld_inv l"
  shows "ld_inv l'" "loads l' = (case loads l i of Some (c, True) \<Rightarrow> (loads l)(i := None) | _ \<Rightarrow> loads l)"
proof -
  show "ld_inv l'" using assms inv_bzero by (auto simp: grab_event_name split: option.splits)
  have "fst (name_of l i) = None \<longrightarrow> snd (name_of l i) = None" "\<forall>f. fst (name_of l i) = Some f \<longrightarrow> ld_files l f \<noteq> None"
    using assms(2) unfolding ld_inv_def by blast+
  then show "loads l' = (case loads l i of Some (c, True) \<Rightarrow> (loads l)(i := None) | _ \<Rightarrow> loads l)"
    using assms(1) by (cases "name_of l i") (auto simp: grab_event_name loads_bzero loads_def [of l] split: option.splits bool.splits Option.bind_splits)
qed

lemma grab_fname_view:
  assumes "grab_fname i l = (r, l')" "ld_inv l"
  shows "ld_inv l'" "loads l' = (case loads l i of Some (c, False) \<Rightarrow> (loads l)(i := None) | _ \<Rightarrow> loads l)"
    "case loads l i of Some (c, False) \<Rightarrow> \<exists>f. r = Some f \<and> ld_files l' f = Some c | _ \<Rightarrow> r = None"
proof -
  show "ld_inv l'" using assms inv_bzero by (auto simp: grab_fname_name split: if_splits)
  have h: "fst (name_of l i) = None \<longrightarrow> snd (name_of l i) = None" "\<forall>f. fst (name_of l i) = Some f \<longrightarrow> ld_files l f \<noteq> None"
    using assms(2) unfolding ld_inv_def by blast+
  have n: "loads l i = None \<Longrightarrow> (loads l)(i := None) = loads l" by (rule fun_upd_None)
  show "loads l' = (case loads l i of Some (c, False) \<Rightarrow> (loads l)(i := None) | _ \<Rightarrow> loads l)"
    using assms(1) h n by (cases "name_of l i"; cases "fst (name_of l i)")
      (auto simp: grab_fname_name loads_bzero loads_def [of l] split: option.splits bool.splits if_splits)
  show "case loads l i of Some (c, False) \<Rightarrow> \<exists>f. r = Some f \<and> ld_files l' f = Some c | _ \<Rightarrow> r = None"
    using assms(1) h by (cases "name_of l i"; cases "fst (name_of l i)")
      (auto simp: grab_fname_name loads_def [of l] split: option.splits bool.splits if_splits)
qed

subsection \<open>The refinement\<close>

datatype load_op = First string "byte list" nat "log_event option" | Append nat "byte list" | Grab_event nat | Grab_fname nat

definition load_step :: "load_op \<Rightarrow> loader \<Rightarrow> (Exit_status \<times> loader) res" where
  "load_step p l = (case p of
       First bname b i ce \<Rightarrow> process_first_event bname b i ce l
     | Append i b \<Rightarrow> Inr (process_append i b l)
     | Grab_event i \<Rightarrow> Inr (OK_CONTINUE, snd (grab_event i l))
     | Grab_fname i \<Rightarrow> Inr (OK_CONTINUE, snd (grab_fname i l)))"

text \<open>The map: a new statement replaces what its id had, a block is added behind, a grab takes the entry of its kind out.\<close>

definition spec_step :: "load_op \<Rightarrow> (nat \<Rightarrow> (byte list \<times> bool) option) \<Rightarrow> nat \<Rightarrow> (byte list \<times> bool) option" where
  "spec_step p m = (case p of
       First bname b i ce \<Rightarrow> m(i \<mapsto> (b, ce \<noteq> None))
     | Append i b \<Rightarrow> m(i := map_option (\<lambda>(c, e). (c @ b, e)) (m i))
     | Grab_event i \<Rightarrow> (case m i of Some (c, True) \<Rightarrow> m(i := None) | _ \<Rightarrow> m)
     | Grab_fname i \<Rightarrow> (case m i of Some (c, False) \<Rightarrow> m(i := None) | _ \<Rightarrow> m))"

lemma load_step_view:
  assumes "load_step p l = Inr (st, l')" "ld_inv l"
  shows "ld_inv l' \<and> (st = OK_CONTINUE \<longrightarrow> loads l' = spec_step p (loads l))"
proof (cases p)
  case (First bname b i ce)
  then show ?thesis using first_event_view assms by (simp add: load_step_def spec_step_def)
next
  case (Append i b)
  then show ?thesis using append_view assms by (simp add: load_step_def spec_step_def)
next
  case (Grab_event i)
  obtain r k where "grab_event i l = (r, k)" by fastforce
  then show ?thesis using Grab_event grab_event_view [OF _ assms(2)] assms(1) by (auto simp: load_step_def spec_step_def)
next
  case (Grab_fname i)
  obtain r k where "grab_fname i l = (r, k)" by fastforce
  then show ?thesis using Grab_fname grab_fname_view [OF _ assms(2)] assms(1) by (auto simp: load_step_def spec_step_def)
qed

fun load_run :: "load_op list \<Rightarrow> loader \<Rightarrow> (Exit_status \<times> loader) res" where
  "load_run [] l = Inr (OK_CONTINUE, l)"
| "load_run (p # ps) l = fbind (load_step p l) (\<lambda>(st, l). if st = OK_CONTINUE then load_run ps l else Inr (st, l))"

lemma load_run_view:
  "load_run ps l = Inr (OK_CONTINUE, l') \<Longrightarrow> ld_inv l \<Longrightarrow> ld_inv l' \<and> loads l' = fold spec_step ps (loads l)"
proof (induction ps arbitrary: l)
  case (Cons p ps)
  then obtain l1 where "load_step p l = Inr (OK_CONTINUE, l1)" "load_run ps l1 = Inr (OK_CONTINUE, l')"
    by (auto simp: res_simps split: if_splits)
  with Cons.IH [of l1] load_step_view Cons.prems(2) show ?case by fastforce
qed simp

text \<open>The class keeps one file for each statement that is being loaded. Operations that succeed do to the contents, file id by
  file id, what the map of contents says: no operation changes the data of another file id, whatever files lie in the directory.\<close>

theorem load_refines:
  assumes "ld_inv l" "load_run ps l = Inr (OK_CONTINUE, l')"
  shows "loads l' = fold spec_step ps (loads l)"
  using load_run_view [OF assms(2,1)] by simp

subsection \<open>One statement\<close>

fun blocks_of :: "nat \<Rightarrow> load_op list \<Rightarrow> byte list" where
  "blocks_of i [] = []"
| "blocks_of i (p # ps) = (case p of Append j b \<Rightarrow> if j = i then b else [] | _ \<Rightarrow> []) @ blocks_of i ps"

definition only_appends :: "nat \<Rightarrow> load_op \<Rightarrow> bool" where
  "only_appends i p \<longleftrightarrow> (case p of First f b j ce \<Rightarrow> j \<noteq> i | Append j b \<Rightarrow> True | Grab_event j \<Rightarrow> j \<noteq> i | Grab_fname j \<Rightarrow> j \<noteq> i)"

lemma spec_blocks:
  "list_all (only_appends i) ps \<Longrightarrow> m i = Some (c, e) \<Longrightarrow> fold spec_step ps m i = Some (c @ blocks_of i ps, e)"
proof (induction ps arbitrary: m c)
  case (Cons p ps)
  have "spec_step p m i = Some (c @ (case p of Append j b \<Rightarrow> if j = i then b else [] | _ \<Rightarrow> []), e)"
    using Cons.prems by (cases p) (auto simp: spec_step_def only_appends_def split: option.splits bool.splits)
  with Cons.IH [of "spec_step p m"] Cons.prems(1) show ?case by simp
qed simp

text \<open>C17. The file whose name is handed out for LOAD DATA holds the first block and the blocks that were appended under its file id, in
  order, whatever other statements were loaded in between.\<close>

theorem load_data:
  assumes inv: "ld_inv l" and run: "load_run (First bname b i None # ps) l = Inr (OK_CONTINUE, l')"
    and "list_all (only_appends i) ps" and grab: "grab_fname i l' = (r, l'')"
  shows "\<exists>f. r = Some f \<and> ld_files l'' f = Some (b @ blocks_of i ps)"
proof -
  have "ld_inv l'" "loads l' i = Some (b @ blocks_of i ps, False)"
    using load_run_view [OF run inv] spec_blocks [OF assms(3)] by (simp_all add: spec_step_def)
  with grab_fname_view(3) [OF grab] show ?thesis by simp
qed

subsection \<open>The names fit\<close>

lemma length_hex: "n < 16 ^ k \<Longrightarrow> 0 < k \<Longrightarrow> length (show_hex n) \<le> k"
proof (induction n arbitrary: k rule: show_hex.induct)
  case (1 n)
  show ?case
  proof (cases "n < 16")
    case True
    with 1 show ?thesis by (simp add: show_hex.simps [of n])
  next
    case False
    with "1.prems" obtain j where k: "k = Suc j" "0 < j" by (cases k; cases "k - 1") auto
    with "1.prems"(1) have "n div 16 < 16 ^ j" by (simp add: less_mult_imp_div_less mult.commute)
    from "1.IH" [OF False this k(2)] show ?thesis using False k by (simp add: show_hex.simps [of n])
  qed
qed

lemma create_loop_fits:
  "list_all (\<lambda>v. v < 1000) vs \<Longrightarrow> length base + 4 < cap \<Longrightarrow> \<exists>r. create_loop vs cap base l = Inr r"
proof (induction vs arbitrary: l)
  case (Cons v vs)
  then have "length (show_hex v) \<le> 3" by (intro length_hex) auto
  with Cons show ?case by (auto simp: Let_def split: prod.splits)
qed simp

lemma show_hex_small: "n < 16 \<Longrightarrow> show_hex n = [hex_char n]"
  by (simp add: show_hex.simps)

lemma upt_first: "2 \<le> n \<Longrightarrow> [0..<n] = 0 # 1 # drop 2 [0..<n]"
  by (simp add: upt_conv_Cons drop_upt numeral_2_eq_2)

lemma versions: "tries = 0 # 1 # drop 2 tries"
  unfolding tries_def by (rule upt_first) simp

lemma show_hex_01: "show_hex 0 = ''0''" "show_hex (Suc 0) = ''1''"
  by (simp_all add: show_hex_small hex_char_def char_of_def bit_Suc_0_iff)

lemma create_overflows: "cap \<le> length base + 2 \<Longrightarrow> create_unique_file cap base l = Inl Buffer_overflow"
  unfolding create_unique_file_def by (subst versions) (simp add: show_hex_01)

text \<open>C18. The buffer that is allocated for the name of a temporary file is large enough, for every 32-bit file id and every
  version, exactly as long as its computed length is: below \<open>2 ^ 32\<close> the class never writes behind it. From there on the 32-bit
  length wraps, and once the allocation succeeds the first name tried is written behind the buffer.\<close>

theorem load_name_fits:
  assumes "fid < 2 ^ 32"
  shows "(length (ld_dir l) + length bname + 19 < 2 ^ 32 \<longrightarrow> (\<exists>st l'. process_first_event bname block fid ce l = Inr (st, l')))
    \<and> (2 ^ 32 \<le> length (ld_dir l) + length bname + 19 \<and> fst (my_call l) \<longrightarrow>
        process_first_event bname block fid ce l = Inl Buffer_overflow)"
proof (intro conjI impI)
  let ?n = "length (ld_dir l) + length bname + 9 + 9 + 1"
  let ?base = "ld_dir l @ bname @ CHR ''-'' # show_hex fid"
  have d: "ld_dir (snd (my_call l)) = ld_dir l" using my_call_view(3) [of l] by (cases "my_call l") auto
  show "\<exists>st l'. process_first_event bname block fid ce l = Inr (st, l')" if "length (ld_dir l) + length bname + 19 < 2 ^ 32"
  proof -
    have "length (show_hex fid) \<le> 8" using assms by (intro length_hex) auto
    moreover have "list_all (\<lambda>v. v < 1000) tries" by (simp add: list_all_iff tries_def del: upt_rec_numeral)
    ultimately have "\<exists>r. create_unique_file (?n mod 2 ^ 32) ?base (snd (my_call l)) = Inr r"
      unfolding create_unique_file_def using that by (intro create_loop_fits) auto
    with d show ?thesis by (cases "my_call l") (auto simp: process_first_event_def Let_def split: option.splits prod.splits)
  qed
  assume wrap: "2 ^ 32 \<le> length (ld_dir l) + length bname + 19 \<and> fst (my_call l)"
  then have "?n mod 2 ^ 32 \<le> ?n - 2 ^ 32" by (simp add: le_mod_geq)
  with wrap have "?n mod 2 ^ 32 \<le> length ?base + 2" by simp
  from create_overflows [OF this] d wrap show "process_first_event bname block fid ce l = Inl Buffer_overflow"
    by (cases "my_call l") (auto simp: process_first_event_def Let_def)
qed

text \<open>The old format has no such margin: its buffer is sized for the longest path, without the suffix.\<close>

lemma old_name_overflows:
  assumes "length (fn_format f (ld_dir l)) = FN_REFLEN - 1"
  shows "prepare_new_file_for_old_format fn_format f l = Inl Buffer_overflow"
proof -
  show ?thesis using assms unfolding prepare_new_file_for_old_format_def create_unique_file_def
    by (subst versions) (simp add: FN_REFLEN_def show_hex_01)
qed

subsection \<open>Examples\<close>

lemma create_twice:
  "create_unique_file cap base l = (let f = base @ ''-0'' in
     if cap \<le> length f then Inl Buffer_overflow
     else case my_create f l of (ok, l) \<Rightarrow> if ok then Inr (Some f, l) else (let f = base @ ''-1'' in
       if cap \<le> length f then Inl Buffer_overflow
       else case my_create f l of (ok, l) \<Rightarrow> if ok then Inr (Some f, l) else create_loop (drop 2 tries) cap base l))"
  unfolding create_unique_file_def by (subst versions) (simp add: show_hex_01 Let_def cong: if_cong)

definition loader0 :: loader where
  "loader0 = \<lparr>ld_dir = ''/t/'', ld_files = [''/t/SQL_LOAD_MB-1-0'' \<mapsto> [9]], ld_names = [], ld_io = (\<lambda>_. 0), ld_n = 0\<rparr>"

lemma loader0_inv: "ld_inv loader0"
  by (simp add: ld_inv_def name_of_def loader0_def)

lemmas load_eval = process_first_event_def my_call_def ask_def create_twice my_create_def my_write_def my_open_def append_to_def
  set_dynamic_def bzero_def process_append_def load_step_def show_hex_01 Let_def

text \<open>Two statements at once, with a file in the way of the first.\<close>

lemma load_example:
  "\<exists>l'. load_run [First ''SQL_LOAD_MB'' [1] 1 None, First ''SQL_LOAD_MB'' [2] 0 None, Append 1 [3], Append 0 [4], Append 1 [5]] loader0
      = Inr (OK_CONTINUE, l') \<and> ld_files l' ''/t/SQL_LOAD_MB-1-1'' = Some [1, 3, 5] \<and> fst (grab_fname 1 l') = Some ''/t/SQL_LOAD_MB-1-1''"
  by (simp add: loader0_def load_eval grab_fname_def)


lemma load_refines_witness:
  "\<exists>l'. load_run [First ''SQL_LOAD_MB'' [1] 1 None, Append 1 [3]] loader0 = Inr (OK_CONTINUE, l') \<and> loads l' 1 = Some ([1, 3], False)"
proof -
  obtain l' where run: "load_run [First ''SQL_LOAD_MB'' [1] 1 None, Append 1 [3]] loader0 = Inr (OK_CONTINUE, l')"
    by (simp add: loader0_def load_eval)
  from load_refines [OF loader0_inv run] have "loads l' 1 = Some ([1, 3], False)" by (simp add: spec_step_def)
  with run show ?thesis by blast
qed

lemma load_data_witness:
  "\<exists>l' f. load_run [First ''SQL_LOAD_MB'' [1] 1 None, First ''SQL_LOAD_MB'' [2] 0 None, Append 1 [3], Append 0 [4]] loader0
      = Inr (OK_CONTINUE, l') \<and> fst (grab_fname 1 l') = Some f \<and> ld_files l' f = Some [1, 3]"
proof -
  let ?ps = "[First ''SQL_LOAD_MB'' [2] 0 None, Append 1 [3], Append 0 [4]]"
  obtain l' where run: "load_run (First ''SQL_LOAD_MB'' [1] 1 None # ?ps) loader0 = Inr (OK_CONTINUE, l')"
    by (simp add: loader0_def load_eval)
  obtain r l'' where g: "grab_fname 1 l' = (r, l'')" by fastforce
  have "list_all (only_appends 1) ?ps" by (simp add: only_appends_def)
  from load_data [OF loader0_inv run this g] obtain f where "r = Some f" "ld_files l'' f = Some [1, 3]" by auto
  moreover have "ld_files l'' = ld_files l'" using g by (auto simp: grab_fname_name split: if_splits)
  ultimately show ?thesis using run g by auto
qed

lemma load_name_fits_witness:
  "(\<exists>st l'. process_first_event ''SQL_LOAD_MB'' [] 4294967295 None loader0 = Inr (st, l'))
    \<and> process_first_event (replicate 4294967293 CHR ''a'') [] 1 None loader0 = Inl Buffer_overflow"
proof
  show "\<exists>st l'. process_first_event ''SQL_LOAD_MB'' [] 4294967295 None loader0 = Inr (st, l')"
    by (rule load_name_fits [THEN conjunct1, THEN mp]) (simp_all add: loader0_def)
  show "process_first_event (replicate 4294967293 CHR ''a'') [] 1 None loader0 = Inl Buffer_overflow"
    by (rule load_name_fits [THEN conjunct2, THEN mp]) (simp_all add: loader0_def my_call_def ask_def)
qed

end
