(* ===== verification/Replicator.thy ===== *)
theory Replicator
  imports LoadFiles
begin

section \<open>Printing the events of a binary log (myreplicator/src/myreplicator.cc)\<close>

text \<open>
  The program is MySQL's \<open>mysqlbinlog\<close> with one addition: after every event it writes the name of the log and the position behind
  the event into a file, so that a later run can go on from there. What is printed is the list \<open>rp_out\<close> of the calls that print;
  what \<open>print\<close> itself writes is MySQL's library. \<open>events_window\<close> says which events are printed,
  \<open>position_restart\<close> what the file of positions holds at every moment.
\<close>

subsection \<open>Options and state\<close>

datatype base64_mode = BASE64_NEVER | BASE64_AUTO | BASE64_ALWAYS | BASE64_UNSPEC | BASE64_DECODE_ROWS

record ropts =
  server_id :: nat
  self_server_id :: nat
  base64_mode :: base64_mode
  short_form :: bool
  remote_opt :: bool
  force_if_open :: bool
  database :: "string option"
  stop_datetime :: int
  to_last_remote_log :: bool
  disable_log_bin :: bool
  charset :: "string option"

datatype out =
    Text string
  | At nat
  | Print log_event
  | Print_create log_event
  | Print_load log_event string
  | Base64 log_event
  | Copy_caches

text \<open>The file of positions is a stream: \<open>np_disk\<close> what the file holds, \<open>np_buf\<close> what has been printed since the
  stream was rewound. The buffer is written over the beginning of the file.\<close>

record posfile =
  np_disk :: string
  np_buf :: string

record rep =
  start_datetime :: int
  offset :: "64 word"
  rec_count :: "64 word"
  start_position :: nat
  stop_position :: nat
  glob_desc :: "fdesc option"
  printed_fd :: bool
  map_ignored :: "nat \<Rightarrow> log_event option"
  rp_out :: "out list"
  npfp :: "posfile option"
  current_log_name :: string
  evpos :: nat
  commands :: "byte list list"
  load_processor :: loader

text \<open>What the program uses of MySQL's library: whether printing a format description leaves \<open>printed_fd_event\<close> set, the
  functions on names of files, the descriptions made for old servers, and the parsers of events: one for a packet, one for a file from a
  position on. The latter yields the event and its length, or whether the file has an error.\<close>

record replib =
  sets_fd :: "base64_mode \<Rightarrow> bool \<Rightarrow> log_event \<Rightarrow> bool"
  dirname_length :: "string \<Rightarrow> nat"
  fn_format :: "string \<Rightarrow> string \<Rightarrow> string"
  new_desc :: "nat \<Rightarrow> fdesc"
  read_packet :: "byte list \<Rightarrow> fdesc \<Rightarrow> log_event option"
  read_file :: "byte list \<Rightarrow> nat \<Rightarrow> fdesc \<Rightarrow> bool + log_event \<times> nat"

definition shall_skip_database :: "ropts \<Rightarrow> string option \<Rightarrow> bool" where
  "shall_skip_database opts log_dbname \<longleftrightarrow> database opts \<noteq> None \<and> log_dbname \<noteq> None \<and> log_dbname \<noteq> database opts"

definition emit :: "out list \<Rightarrow> rep \<Rightarrow> rep" where
  "emit xs st = st\<lparr>rp_out := rp_out st @ xs\<rparr>"

definition with_loader :: "(loader \<Rightarrow> 'a \<times> loader) \<Rightarrow> rep \<Rightarrow> 'a \<times> rep" where
  "with_loader f st = (case f (load_processor st) of (a, l) \<Rightarrow> (a, st\<lparr>load_processor := l\<rparr>))"

definition with_loader_res :: "(loader \<Rightarrow> ('a \<times> loader) res) \<Rightarrow> rep \<Rightarrow> ('a \<times> rep) res" where
  "with_loader_res f st = fmap (\<lambda>(a, l). (a, st\<lparr>load_processor := l\<rparr>)) (f (load_processor st))"

text \<open>Two calls of \<open>copy_event_cache_to_file_and_reinit\<close>, the second one only if the first succeeds.\<close>

definition copy_both :: "rep \<Rightarrow> bool \<times> rep" where
  "copy_both st = (case with_loader my_call st of (ok, st) \<Rightarrow> if ok then with_loader my_call st else (False, st))"

definition write_event_header_and_base64 :: "log_event \<Rightarrow> rep \<Rightarrow> Exit_status \<times> rep" where
  "write_event_header_and_base64 ev st =
     (case copy_both st of (ok, st) \<Rightarrow> if ok then (OK_CONTINUE, emit [Base64 ev] st) else (ERROR_STOP, st))"

subsection \<open>The kinds of events\<close>

text \<open>How the switch is left: by \<open>goto end\<close> with an exit status, the flag telling whether \<open>ev\<close> still points to the
  event, or by a return past the end.\<close>

datatype leave = Goto_end Exit_status bool | Return Exit_status

type_synonym handled = "(leave \<times> rep) res"

definition handle_query :: "ropts \<Rightarrow> log_event \<Rightarrow> string option \<Rightarrow> bool \<Rightarrow> rep \<Rightarrow> handled" where
  "handle_query opts ev db trans_keyword st =
     (if \<not> trans_keyword \<and> shall_skip_database opts db then Inr (Goto_end OK_CONTINUE True, st)
      else if base64_mode opts = BASE64_ALWAYS
        then case write_event_header_and_base64 ev st of (rv, st) \<Rightarrow> Inr (Goto_end rv True, st)
      else Inr (Goto_end OK_CONTINUE True, emit [Print ev] st))"

definition handle_create :: "replib \<Rightarrow> ropts \<Rightarrow> log_event \<Rightarrow> string \<Rightarrow> string option \<Rightarrow> nat \<Rightarrow> byte list \<Rightarrow> rep \<Rightarrow> handled" where
  "handle_create L opts ev fname db file_id block st =
     (if shall_skip_database opts db then Inr (Goto_end OK_CONTINUE True, st)
      else case (if base64_mode opts = BASE64_ALWAYS then write_event_header_and_base64 ev st
                 else (OK_CONTINUE, emit [Print_create ev] st)) of (rv, st) \<Rightarrow>
        if rv \<noteq> OK_CONTINUE then Inr (Goto_end rv True, st)
        else case glob_desc st of
            None \<Rightarrow> Inl Null_deref
          | Some d \<Rightarrow>
              if 3 \<le> binlog_version d
              then fmap (\<lambda>(rv, st). (Goto_end rv False, st))
                     (with_loader_res (process_create (dirname_length L) ev fname file_id block) st)
              else Inr (Goto_end OK_CONTINUE True, st))"

definition handle_exec_load :: "log_event \<Rightarrow> nat \<Rightarrow> rep \<Rightarrow> handled" where
  "handle_exec_load ev file_id st =
     (case with_loader (grab_event file_id) (emit [Print ev] st) of (ce, st) \<Rightarrow>
        case ce of
          None \<Rightarrow> Inr (Goto_end OK_CONTINUE True, st)
        | Some ce \<Rightarrow> Inr (Goto_end OK_CONTINUE True, emit [Print_create (case ev_body ce of
              Create_file_event f db i b \<Rightarrow> set_fname (convert_path f) ce | _ \<Rightarrow> ce)] st))"

definition handle_format :: "replib \<Rightarrow> ropts \<Rightarrow> log_event \<Rightarrow> fdesc \<Rightarrow> rep \<Rightarrow> handled" where
  "handle_format L opts ev d st =
     (let st = emit [Print ev] (st\<lparr>glob_desc := Some d,
            printed_fd := printed_fd st \<or> sets_fd L (base64_mode opts) (short_form opts) ev\<rparr>) in
      if \<not> force_if_open opts \<and> in_use d then Inr (Return ERROR_STOP, st) else Inr (Goto_end OK_CONTINUE False, st))"

definition handle_execute_load_query :: "ropts \<Rightarrow> log_event \<Rightarrow> nat \<Rightarrow> string option \<Rightarrow> rep \<Rightarrow> handled" where
  "handle_execute_load_query opts ev file_id db st =
     (case with_loader (grab_fname file_id) st of (fname, st) \<Rightarrow>
        if shall_skip_database opts db then Inr (Goto_end OK_CONTINUE True, st)
        else case fname of
            None \<Rightarrow> Inr (Goto_end OK_CONTINUE True, st)
          | Some f \<Rightarrow> Inr (Goto_end OK_CONTINUE True, emit [Print_load ev (convert_path f)] st))"

text \<open>The events that can only be printed in base64 need a format description that has been printed.\<close>

definition print_base64_event :: "ropts \<Rightarrow> log_event \<Rightarrow> rep \<Rightarrow> handled" where
  "print_base64_event opts ev st =
     (if \<not> printed_fd st \<and> \<not> short_form opts then Inr (Goto_end ERROR_STOP True, st)
      else Inr (Goto_end OK_CONTINUE True, emit [Print ev] st))"

definition handle_table_map :: "ropts \<Rightarrow> log_event \<Rightarrow> nat \<Rightarrow> string option \<Rightarrow> rep \<Rightarrow> handled" where
  "handle_table_map opts ev table_id db st =
     (if shall_skip_database opts db
      then Inr (Goto_end OK_CONTINUE True, st\<lparr>map_ignored := (map_ignored st)(table_id \<mapsto> ev)\<rparr>)
      else print_base64_event opts ev st)"

definition handle_rows :: "ropts \<Rightarrow> log_event \<Rightarrow> nat \<Rightarrow> bool \<Rightarrow> rep \<Rightarrow> handled" where
  "handle_rows opts ev table_id stmt_end st =
     (let skip_event = (map_ignored st table_id \<noteq> None) in
      case (if stmt_end then
              (let st = st\<lparr>map_ignored := Map.empty\<rparr> in
               if skip_event then case copy_both st of (ok, st) \<Rightarrow> (ok, if ok then emit [Copy_caches] st else st)
               else (True, st))
            else (True, st)) of (ok, st) \<Rightarrow>
      if \<not> ok then Inr (Goto_end ERROR_STOP True, st)
      else if skip_event then Inr (Goto_end OK_CONTINUE True, st)
      else print_base64_event opts ev st)"

definition handle_event :: "replib \<Rightarrow> ropts \<Rightarrow> log_event \<Rightarrow> rep \<Rightarrow> handled" where
  "handle_event L opts ev st = (case ev_body ev of
       Query_event db tk \<Rightarrow> handle_query opts ev db tk st
     | Create_file_event fname db i b \<Rightarrow> handle_create L opts ev fname db i b st
     | Append_block_event i b \<Rightarrow>
         (case with_loader (process_append i b) (emit [Print ev] st) of (rv, st) \<Rightarrow> Inr (Goto_end rv True, st))
     | Exec_load_event i \<Rightarrow> handle_exec_load ev i st
     | Format_description_event d \<Rightarrow> handle_format L opts ev d st
     | Begin_load_query_event i b \<Rightarrow>
         fmap (\<lambda>(rv, st). (Goto_end rv True, st)) (with_loader_res (process_begin i b) (emit [Print ev] st))
     | Execute_load_query_event i db \<Rightarrow> handle_execute_load_query opts ev i db st
     | Table_map_event t db \<Rightarrow> handle_table_map opts ev t db st
     | Rows_event k t e \<Rightarrow> handle_rows opts ev t e st
     | _ \<Rightarrow> Inr (Goto_end OK_CONTINUE True, emit [Print ev] st))"

subsection \<open>The file of positions\<close>

definition np_flush :: "posfile \<Rightarrow> posfile" where
  "np_flush f = \<lparr>np_disk = np_buf f @ drop (length (np_buf f)) (np_disk f), np_buf = []\<rparr>"

definition position_text :: "string \<Rightarrow> nat \<Rightarrow> string" where
  "position_text name pos = name @ [LF] @ show_nat pos @ replicate 22 (CHR '' '') @ [LF]"

text \<open>\<open>rewind\<close> writes the buffer out and goes back to the start of the file.\<close>

definition save_position :: "rep \<Rightarrow> rep" where
  "save_position st =
     (case (case npfp st of
              Some f \<Rightarrow> (Some f, st)
            | None \<Rightarrow> (case with_loader my_call st of (ok, st) \<Rightarrow> (if ok then Some \<lparr>np_disk = [], np_buf = []\<rparr> else None, st))) of
        (None, st) \<Rightarrow> st
      | (Some f, st) \<Rightarrow> st\<lparr>npfp := Some ((np_flush f)\<lparr>np_buf := position_text (current_log_name st) (evpos st)\<rparr>)\<rparr>)"

subsection \<open>One event\<close>

definition is_format :: "log_event \<Rightarrow> bool" where
  "is_format ev \<longleftrightarrow> (case ev_body ev of Format_description_event d \<Rightarrow> True | _ \<Rightarrow> False)"

definition at_end :: "log_event \<Rightarrow> leave \<times> rep \<Rightarrow> Exit_status \<times> rep" where
  "at_end ev r = (case r of
       (Return rv, st) \<Rightarrow> (rv, st)
     | (Goto_end rv here, st) \<Rightarrow>
         (let st = st\<lparr>rec_count := rec_count st + 1, evpos := (if here then ev_pos ev else evpos st)\<rparr> in
          (rv, if rv = OK_CONTINUE then save_position st else st)))"

definition process_event :: "replib \<Rightarrow> ropts \<Rightarrow> log_event \<Rightarrow> nat \<Rightarrow> rep \<Rightarrow> (Exit_status \<times> rep) res" where
  "process_event L opts ev pos st = fmap (at_end ev)
     (if offset st \<le> rec_count st \<and> start_datetime st \<le> ev_when ev \<or> is_format ev then
        (let st = (if is_format ev then st else st\<lparr>start_datetime := 0, offset := 0\<rparr>) in
         if server_id opts \<noteq> 0 \<and> server_id opts \<noteq> ev_server ev then Inr (Goto_end OK_CONTINUE True, st)
         else if stop_datetime opts \<le> ev_when ev \<or> stop_position st \<le> pos then Inr (Goto_end OK_STOP True, st)
         else handle_event L opts ev (if short_form opts then st else emit [At pos] st))
      else Inr (Goto_end OK_CONTINUE True, st))"

section \<open>What an event changes\<close>

text \<open>Printing an event leaves the position, the counters and the file of positions alone.\<close>

definition frame :: "rep \<Rightarrow> rep \<Rightarrow> bool" where
  "frame st st' \<longleftrightarrow> st' = st\<lparr>glob_desc := glob_desc st', printed_fd := printed_fd st', map_ignored := map_ignored st',
     rp_out := rp_out st', load_processor := load_processor st'\<rparr>"

lemma frame_refl [simp]: "frame st st"
  by (simp add: frame_def)

lemma frame_trans: "frame a b \<Longrightarrow> frame b c \<Longrightarrow> frame a c"
  by (cases a; cases b; cases c) (simp add: frame_def)

lemma frame_fields:
  assumes "frame st st'"
  shows "npfp st' = npfp st" "current_log_name st' = current_log_name st" "evpos st' = evpos st" "rec_count st' = rec_count st"
    "start_datetime st' = start_datetime st" "offset st' = offset st" "stop_position st' = stop_position st"
    "start_position st' = start_position st" "commands st' = commands st"
  using assms by (cases st; cases st'; simp add: frame_def)+

lemma frame_emit [simp]: "frame st (emit xs st') \<longleftrightarrow> frame st st'" "frame (emit xs st) st' \<longleftrightarrow> frame st st'"
  by (cases st; cases st'; simp add: frame_def emit_def)+

lemma frame_update [simp]: "frame st (st\<lparr>map_ignored := m\<rparr>)" "frame (st\<lparr>map_ignored := m\<rparr>) st' \<longleftrightarrow> frame st st'"
  "frame st (st\<lparr>glob_desc := g\<rparr>)" "frame st (st\<lparr>glob_desc := g, printed_fd := b\<rparr>)"
  "frame (st\<lparr>glob_desc := g, printed_fd := b\<rparr>) st' \<longleftrightarrow> frame st st'"
  by (cases st; cases st'; simp add: frame_def)+

lemma frame_loader: "with_loader f st = (a, st') \<Longrightarrow> frame st st'"
  by (cases st) (auto simp: with_loader_def frame_def split: prod.splits)

lemma frame_loader_res: "with_loader_res f st = Inr (a, st') \<Longrightarrow> frame st st'"
  by (cases st) (auto simp: with_loader_res_def frame_def res_simps)

lemma frame_copy: "copy_both st = (ok, st') \<Longrightarrow> frame st st'"
  by (auto simp: copy_both_def split: prod.splits if_splits dest!: frame_loader intro: frame_trans)

lemma frame_base64: "write_event_header_and_base64 ev st = (rv, st') \<Longrightarrow> frame st st'"
  by (auto simp: write_event_header_and_base64_def split: prod.splits if_splits dest!: frame_copy intro: frame_trans)

lemma frame_query: "handle_query opts ev db tk st = Inr (lv, st') \<Longrightarrow> frame st st' \<and> (\<exists>rv. lv = Goto_end rv True)"
  by (auto simp: handle_query_def split: prod.splits if_splits dest!: frame_base64)

lemma frame_create: "handle_create L opts ev f db i b st = Inr (lv, st') \<Longrightarrow> frame st st' \<and> (\<exists>rv h. lv = Goto_end rv h)"
  by (auto simp: handle_create_def res_simps split: prod.splits if_splits option.splits dest!: frame_base64 frame_loader_res intro: frame_trans)

lemma frame_exec_load: "handle_exec_load ev i st = Inr (lv, st') \<Longrightarrow> frame st st' \<and> (\<exists>rv. lv = Goto_end rv True)"
  by (auto simp: handle_exec_load_def split: prod.splits option.splits dest!: frame_loader intro: frame_trans)

lemma frame_format:
  "handle_format L opts ev d st = Inr (lv, st') \<Longrightarrow> frame st st' \<and> (lv = Goto_end OK_CONTINUE False \<or> lv = Return ERROR_STOP)"
  by (auto simp: handle_format_def Let_def split: if_splits)

lemma frame_execute: "handle_execute_load_query opts ev i db st = Inr (lv, st') \<Longrightarrow> frame st st' \<and> (\<exists>rv. lv = Goto_end rv True)"
  by (auto simp: handle_execute_load_query_def split: prod.splits option.splits if_splits dest!: frame_loader intro: frame_trans)

lemma frame_print: "print_base64_event opts ev st = Inr (lv, st') \<Longrightarrow> frame st st' \<and> (\<exists>rv. lv = Goto_end rv True)"
  by (auto simp: print_base64_event_def split: if_splits)

lemma frame_table: "handle_table_map opts ev t db st = Inr (lv, st') \<Longrightarrow> frame st st' \<and> (\<exists>rv. lv = Goto_end rv True)"
  by (auto simp: handle_table_map_def split: if_splits dest!: frame_print)

lemma frame_rows: "handle_rows opts ev t e st = Inr (lv, st') \<Longrightarrow> frame st st' \<and> (\<exists>rv. lv = Goto_end rv True)"
  by (auto simp: handle_rows_def Let_def split: prod.splits if_splits dest!: frame_print frame_copy intro: frame_trans)

definition is_create :: "log_event \<Rightarrow> bool" where
  "is_create ev \<longleftrightarrow> (case ev_body ev of Create_file_event f db i b \<Rightarrow> True | _ \<Rightarrow> False)"

lemma frame_event:
  assumes "handle_event L opts ev st = Inr (lv, st')"
  shows "frame st st' \<and> (is_format ev \<longrightarrow> lv = Goto_end OK_CONTINUE False \<or> lv = Return ERROR_STOP)
    \<and> (\<not> is_format ev \<longrightarrow> (\<exists>rv h. lv = Goto_end rv h \<and> (\<not> is_create ev \<longrightarrow> h)))"
proof (cases "ev_body ev")
  case (Create_file_event f db i b)
  with assms frame_create show ?thesis by (fastforce simp: handle_event_def is_format_def is_create_def)
next
  case (Append_block_event i b)
  with assms show ?thesis by (auto simp: handle_event_def is_format_def split: prod.splits dest!: frame_loader)
next
  case (Begin_load_query_event i b)
  with assms show ?thesis by (auto simp: handle_event_def is_format_def res_simps dest!: frame_loader_res)
qed (use assms in \<open>auto simp: handle_event_def is_format_def
  dest!: frame_query frame_exec_load frame_format frame_execute frame_table frame_rows\<close>)

text \<open>\<open>ev\<close> is set to null when the event stays with the program: a format description, and the first event of an old LOAD DATA
  statement, which the load processor takes over.\<close>

definition hands_over :: "ropts \<Rightarrow> log_event \<Rightarrow> rep \<Rightarrow> bool" where
  "hands_over opts ev st \<longleftrightarrow> (server_id opts = 0 \<or> server_id opts = ev_server ev) \<and> (case ev_body ev of
       Format_description_event d \<Rightarrow> True
     | Create_file_event f db i b \<Rightarrow> offset st \<le> rec_count st \<and> start_datetime st \<le> ev_when ev
         \<and> \<not> shall_skip_database opts db \<and> (\<exists>d. glob_desc st = Some d \<and> 3 \<le> binlog_version d)
     | _ \<Rightarrow> False)"

lemma hands_over_cases: "hands_over opts ev st \<Longrightarrow> is_format ev \<or> is_create ev"
  by (auto simp: hands_over_def is_format_def is_create_def split: ev_body.splits)

lemma hands_over_name [simp]: "hands_over opts ev (st\<lparr>current_log_name := n\<rparr>) = hands_over opts ev st"
  by (cases "ev_body ev") (simp_all add: hands_over_def)

lemma base64_desc: "write_event_header_and_base64 ev st = (rv, st') \<Longrightarrow> glob_desc st' = glob_desc st"
  by (auto simp: write_event_header_and_base64_def copy_both_def with_loader_def emit_def split: prod.splits if_splits)

lemma create_flag:
  assumes "handle_create L opts ev f db i b st = Inr (Goto_end OK_CONTINUE h, st')"
  shows "h \<longleftrightarrow> \<not> (\<not> shall_skip_database opts db \<and> (\<exists>d. glob_desc st = Some d \<and> 3 \<le> binlog_version d))"
  using assms
  by (auto simp: handle_create_def res_simps emit_def split: prod.splits if_splits option.splits dest!: base64_desc)

lemma event_flag:
  assumes "handle_event L opts ev st = Inr (Goto_end OK_CONTINUE h, st')" "server_id opts = 0 \<or> server_id opts = ev_server ev"
    and "is_create ev \<Longrightarrow> offset s \<le> rec_count s \<and> start_datetime s \<le> ev_when ev" "glob_desc st = glob_desc s"
  shows "h \<longleftrightarrow> \<not> hands_over opts ev s"
proof (cases "is_create ev")
  case True
  then obtain f db i b where c: "ev_body ev = Create_file_event f db i b" by (auto simp: is_create_def split: ev_body.splits)
  with assms(1) have "handle_create L opts ev f db i b st = Inr (Goto_end OK_CONTINUE h, st')" by (simp add: handle_event_def)
  from create_flag [OF this] show ?thesis using assms(2-4) True c by (simp add: hands_over_def)
next
  case False
  with frame_event [OF assms(1)] assms(2) hands_over_cases [of opts ev s] show ?thesis
    by (cases "is_format ev") (auto simp: hands_over_def is_format_def split: ev_body.splits)
qed

lemma process_cases:
  assumes "process_event L opts ev pos st = Inr (rv, st')"
  obtains lv st1 where "(rv, st') = at_end ev (lv, st1)" "npfp st1 = npfp st" "current_log_name st1 = current_log_name st"
    "evpos st1 = evpos st" "rec_count st1 = rec_count st" "stop_position st1 = stop_position st" "start_position st1 = start_position st"
    "rv = OK_CONTINUE \<Longrightarrow> lv = Goto_end OK_CONTINUE (\<not> hands_over opts ev st)"
proof -
  let ?st = "if is_format ev then st else st\<lparr>start_datetime := 0, offset := 0\<rparr>"
  consider (out) "\<not> (offset st \<le> rec_count st \<and> start_datetime st \<le> ev_when ev \<or> is_format ev)"
    | (server) "offset st \<le> rec_count st \<and> start_datetime st \<le> ev_when ev \<or> is_format ev" "server_id opts \<noteq> 0 \<and> server_id opts \<noteq> ev_server ev"
    | (stop) "offset st \<le> rec_count st \<and> start_datetime st \<le> ev_when ev \<or> is_format ev" "\<not> (server_id opts \<noteq> 0 \<and> server_id opts \<noteq> ev_server ev)"
        "stop_datetime opts \<le> ev_when ev \<or> stop_position ?st \<le> pos"
    | (handled) "offset st \<le> rec_count st \<and> start_datetime st \<le> ev_when ev \<or> is_format ev" "\<not> (server_id opts \<noteq> 0 \<and> server_id opts \<noteq> ev_server ev)"
        "\<not> (stop_datetime opts \<le> ev_when ev \<or> stop_position ?st \<le> pos)" by blast
  then show thesis
  proof cases
    case out
    then have "\<not> hands_over opts ev st" by (auto simp: hands_over_def is_format_def split: ev_body.splits)
    with out show thesis using assms by (intro that [of "Goto_end OK_CONTINUE True" st]) (auto simp: process_event_def)
  next
    case server
    then show thesis using assms
      by (intro that [of "Goto_end OK_CONTINUE True" ?st]) (auto simp: process_event_def hands_over_def Let_def)
  next
    case stop
    then show thesis using assms
      by (intro that [of "Goto_end OK_STOP True" ?st]) (auto simp: process_event_def at_end_def Let_def)
  next
    case handled
    then obtain lv st1 where h: "handle_event L opts ev (if short_form opts then ?st else emit [At pos] ?st) = Inr (lv, st1)"
      "(rv, st') = at_end ev (lv, st1)" using assms by (auto simp: process_event_def Let_def res_simps)
    have "frame ?st st1" using frame_event [OF h(1)] by (auto split: if_splits)
    note f = frame_fields [OF this]
    show thesis
    proof (rule that [OF h(2)])
      assume m: "rv = OK_CONTINUE"
      then obtain hr where lv: "lv = Goto_end OK_CONTINUE hr"
        using frame_event [OF h(1)] h(2) by (cases "is_format ev") (auto simp: at_end_def Let_def)
      have "hr \<longleftrightarrow> \<not> hands_over opts ev st"
        by (rule event_flag [OF h(1) [unfolded lv]])
          (use handled in \<open>auto simp: emit_def is_create_def is_format_def split: ev_body.splits\<close>)
      with lv show "lv = Goto_end OK_CONTINUE (\<not> hands_over opts ev st)" by simp
    qed (use f in auto)
  qed
qed

section \<open>The file of positions\<close>

text \<open>What a reader of the file finds: a line with the name, a line that starts with the position.\<close>

definition read_position :: "string \<Rightarrow> (string \<times> nat) option" where
  "read_position s = (case dropWhile (\<lambda>c. c \<noteq> LF) s of
       [] \<Rightarrow> None
     | c # r \<Rightarrow> let ds = takeWhile is_digit r in
         if ds = [] then None
         else Some (takeWhile (\<lambda>c. c \<noteq> LF) s, nat (foldl (\<lambda>x c. 10 * x + int (digit_val c)) 0 ds)))"

lemma take_digits: "takeWhile is_digit (show_nat n @ CHR '' '' # r) = show_nat n"
proof -
  have "takeWhile is_digit (show_nat n @ CHR '' '' # r) = show_nat n @ takeWhile is_digit (CHR '' '' # r)"
    by (rule takeWhile_append2) (use show_nat_digits in auto)
  then show ?thesis by (simp add: is_digit_def)
qed

lemma read_position_text: "LF \<notin> set name \<Longrightarrow> read_position (position_text name pos @ junk) = Some (name, pos)"
proof -
  assume n: "LF \<notin> set name"
  let ?r = "show_nat pos @ CHR '' '' # (replicate 21 (CHR '' '') @ LF # junk)"
  have t: "position_text name pos @ junk = name @ LF # ?r" by (simp add: position_text_def numeral_eq_Suc)
  have "dropWhile (\<lambda>c. c \<noteq> LF) (name @ LF # ?r) = LF # ?r" "takeWhile (\<lambda>c. c \<noteq> LF) (name @ LF # ?r) = name"
    using n by (auto simp: dropWhile_append takeWhile_append dropWhile_eq_Nil_conv takeWhile_eq_all_conv split: if_splits)
  then show ?thesis unfolding t read_position_def by (simp add: Let_def take_digits foldl_show_nat)
qed

definition writes :: "posfile option \<Rightarrow> string \<Rightarrow> nat \<Rightarrow> posfile option \<Rightarrow> bool" where
  "writes f name pos f' \<longleftrightarrow> (case f of
       Some f \<Rightarrow> f' = Some \<lparr>np_disk = np_disk (np_flush f), np_buf = position_text name pos\<rparr>
     | None \<Rightarrow> f' = None \<or> f' = Some \<lparr>np_disk = [], np_buf = position_text name pos\<rparr>)"

lemma save_writes:
  "writes (npfp st) (current_log_name st) (evpos st) (npfp (save_position st))"
  "current_log_name (save_position st) = current_log_name st" "evpos (save_position st) = evpos st"
  by (auto simp: save_position_def writes_def np_flush_def with_loader_def split: option.splits prod.splits)

lemma event_saves:
  assumes "process_event L opts ev pos st = Inr (OK_CONTINUE, st')"
  shows "writes (npfp st) (current_log_name st) (evpos st') (npfp st')" "current_log_name st' = current_log_name st"
    "evpos st' = (if hands_over opts ev st then evpos st else ev_pos ev)"
proof -
  obtain lv st1 where c: "(OK_CONTINUE, st') = at_end ev (lv, st1)" "npfp st1 = npfp st" "current_log_name st1 = current_log_name st"
    "evpos st1 = evpos st" "lv = Goto_end OK_CONTINUE (\<not> hands_over opts ev st)"
    using process_cases [OF assms(1)] by metis
  let ?s = "st1\<lparr>rec_count := rec_count st1 + 1, evpos := (if hands_over opts ev st then evpos st1 else ev_pos ev)\<rparr>"
  have "st' = save_position ?s" using c(1,5) by (simp add: at_end_def Let_def)
  with save_writes [of ?s] c(2-4)
  show "writes (npfp st) (current_log_name st) (evpos st') (npfp st')" "current_log_name st' = current_log_name st"
    "evpos st' = (if hands_over opts ev st then evpos st else ev_pos ev)" by simp_all
qed

text \<open>A run over events, each with the name of its log, and the marks it leaves: the name, and the position behind the last event
  that was not handed over. An event that is handed over keeps the position of the event before it.\<close>

fun run_steps :: "replib \<Rightarrow> ropts \<Rightarrow> (string \<times> log_event \<times> nat) list \<Rightarrow> rep \<Rightarrow> (Exit_status \<times> rep) res" where
  "run_steps L opts [] st = Inr (OK_CONTINUE, st)"
| "run_steps L opts ((name, ev, pos) # es) st =
     fbind (process_event L opts ev pos (st\<lparr>current_log_name := name\<rparr>)) (\<lambda>(rv, st).
       if rv = OK_CONTINUE then run_steps L opts es st else Inr (rv, st))"

fun marks :: "replib \<Rightarrow> ropts \<Rightarrow> (string \<times> log_event \<times> nat) list \<Rightarrow> rep \<Rightarrow> (string \<times> nat) list" where
  "marks L opts [] st = []"
| "marks L opts ((name, ev, pos) # es) st =
     (name, if hands_over opts ev st then evpos st else ev_pos ev)
     # (case process_event L opts ev pos (st\<lparr>current_log_name := name\<rparr>) of Inl f \<Rightarrow> [] | Inr (rv, st) \<Rightarrow> marks L opts es st)"

definition holds_marks :: "posfile option \<Rightarrow> (string \<times> nat) list \<Rightarrow> bool" where
  "holds_marks f ms \<longleftrightarrow> (case f of None \<Rightarrow> True | Some f \<Rightarrow> ms \<noteq> []
     \<and> np_buf f = position_text (fst (last ms)) (snd (last ms))
     \<and> (np_disk f = [] \<or> (butlast ms \<noteq> [] \<and> (\<exists>r. np_disk f = position_text (fst (last (butlast ms))) (snd (last (butlast ms))) @ r))))"

lemma marks_step:
  assumes "holds_marks f ms" "writes f name pos f'"
  shows "holds_marks f' (ms @ [(name, pos)])"
  using assms by (cases f) (auto simp: holds_marks_def writes_def np_flush_def)

lemma run_marks:
  assumes "run_steps L opts es st = Inr (OK_CONTINUE, st')" "holds_marks (npfp st) ms"
  shows "holds_marks (npfp st') (ms @ marks L opts es st)"
  using assms
proof (induction es arbitrary: st ms)
  case (Cons e es)
  obtain name ev pos where e: "e = (name, ev, pos)" by (cases e)
  with Cons.prems(1) obtain st1 where p: "process_event L opts ev pos (st\<lparr>current_log_name := name\<rparr>) = Inr (OK_CONTINUE, st1)"
    "run_steps L opts es st1 = Inr (OK_CONTINUE, st')" by (auto simp: res_simps split: if_splits)
  note s = event_saves [OF p(1)]
  have "holds_marks (npfp st1) (ms @ [(name, evpos st1)])" using marks_step [of "npfp st" ms name "evpos st1"] Cons.prems(2) s by simp
  from Cons.IH [OF p(2) this] have "holds_marks (npfp st') (ms @ [(name, evpos st1)] @ marks L opts es st1)" by simp
  with s(3) e p(1) show ?case by (cases "hands_over opts ev st") simp_all
qed simp

lemma marks_names: "fst ` set (marks L opts es st) \<subseteq> fst ` set es"
proof (induction es arbitrary: st)
  case (Cons e es)
  obtain name ev pos where e: "e = (name, ev, pos)" by (cases e)
  have "fst ` set (marks L opts es s) \<subseteq> fst ` set (e # es)" for s using Cons.IH [of s] by auto
  with e show ?case by (auto split: sum.splits)
qed simp

text \<open>C13. Once the file of positions is open, it can be read back at every moment between two events, of whatever kinds they are: it
  holds the mark of the event before the last (nothing, when there was none), because the stream is written out only when it is rewound.
  When the program ends, it holds the mark of the last event, whatever longer text was there before. The mark of an event is the name of
  its log with the position behind the event; a format description, and a \<open>Create_file\<close> event that the load processor takes
  over, are marked with the position behind the event before them.\<close>

theorem position_restart:
  assumes run: "run_steps L opts es st = Inr (OK_CONTINUE, st')" and open_: "npfp st = None" "npfp st' = Some f"
    and ok: "list_all (\<lambda>(name, ev, pos). LF \<notin> set name) es"
  shows "read_position (np_disk (np_flush f)) = Some (last (marks L opts es st))
    \<and> (np_disk f = [] \<or> read_position (np_disk f) = Some (last (butlast (marks L opts es st))))"
proof -
  let ?ms = "marks L opts es st"
  from run_marks [OF run, of "[]"] open_ have h: "holds_marks (Some f) ?ms" by (simp add: holds_marks_def)
  have lf: "LF \<notin> set (fst m)" if "m \<in> set ?ms" for m
  proof -
    have "fst m \<in> fst ` set es" using that marks_names [of L opts es st] by blast
    then show ?thesis using ok by (auto simp: list_all_iff)
  qed
  have rd: "read_position (position_text (fst m) (snd m) @ r) = Some m" if "m \<in> set ?ms" for m r
    using read_position_text [OF lf [OF that], of "snd m" r] by simp
  have "last ?ms \<in> set ?ms" using h by (simp add: holds_marks_def)
  moreover have "butlast ?ms \<noteq> [] \<Longrightarrow> last (butlast ?ms) \<in> set ?ms" by (rule in_set_butlastD, rule last_in_set)
  ultimately show ?thesis using h rd by (auto simp: holds_marks_def np_flush_def simp del: append_assoc)
qed

section \<open>Which events are printed\<close>

text \<open>Events that are statements or are printed as they are; a run over them with their positions; and what the run is meant to print: nothing
  before the first event that is late enough, in number and in time, then the events of the server asked for, up to the first one
  that is too late, each with its position, and without the statements on other databases.\<close>

definition plain :: "log_event \<Rightarrow> bool" where
  "plain ev \<longleftrightarrow> (case ev_body ev of Query_event db tk \<Rightarrow> True | Rotate_event f \<Rightarrow> True | Other_event n \<Rightarrow> True | _ \<Rightarrow> False)"

fun run_events :: "replib \<Rightarrow> ropts \<Rightarrow> (log_event \<times> nat) list \<Rightarrow> rep \<Rightarrow> (Exit_status \<times> rep) res" where
  "run_events L opts [] st = Inr (OK_CONTINUE, st)"
| "run_events L opts ((ev, pos) # es) st =
     fbind (process_event L opts ev pos st) (\<lambda>(rv, st). if rv = OK_CONTINUE then run_events L opts es st else Inr (rv, st))"

definition wanted_server :: "ropts \<Rightarrow> log_event \<Rightarrow> bool" where
  "wanted_server opts ev \<longleftrightarrow> server_id opts = 0 \<or> server_id opts = ev_server ev"

definition too_late :: "ropts \<Rightarrow> nat \<Rightarrow> log_event \<times> nat \<Rightarrow> bool" where
  "too_late opts stop e \<longleftrightarrow> stop_datetime opts \<le> ev_when (fst e) \<or> stop \<le> snd e"

definition printed :: "ropts \<Rightarrow> log_event \<times> nat \<Rightarrow> out list" where
  "printed opts e = (if short_form opts then [] else [At (snd e)])
     @ (case ev_body (fst e) of
          Query_event db tk \<Rightarrow> if \<not> tk \<and> shall_skip_database opts db then []
            else if base64_mode opts = BASE64_ALWAYS then [Base64 (fst e)] else [Print (fst e)]
        | _ \<Rightarrow> [Print (fst e)])"

definition from_first :: "nat \<Rightarrow> int \<Rightarrow> (log_event \<times> nat) list \<Rightarrow> (log_event \<times> nat) list" where
  "from_first n t es = map snd (dropWhile (\<lambda>(i, e). \<not> (n \<le> i \<and> t \<le> ev_when (fst e))) (enumerate 0 es))"

definition mine :: "ropts \<Rightarrow> (log_event \<times> nat) list \<Rightarrow> (log_event \<times> nat) list" where
  "mine opts = filter (\<lambda>e. wanted_server opts (fst e))"

text \<open>One plain event. \<open>calm\<close> says that no call of the system fails.\<close>

definition calm :: "rep \<Rightarrow> bool" where
  "calm st \<longleftrightarrow> ld_io (load_processor st) = (\<lambda>_. 0)"

lemma copy_calm: "calm st \<Longrightarrow> \<exists>n. copy_both st = (True, st\<lparr>load_processor := (load_processor st)\<lparr>ld_n := n\<rparr>\<rparr>)"
  by (auto simp: copy_both_def with_loader_def my_call_def ask_def calm_def)

definition same_run :: "rep \<Rightarrow> rep \<Rightarrow> bool" where
  "same_run st st' \<longleftrightarrow> start_datetime st' = start_datetime st \<and> offset st' = offset st \<and> rec_count st' = rec_count st
     \<and> stop_position st' = stop_position st \<and> rp_out st' = rp_out st \<and> (calm st \<longrightarrow> calm st')"

lemma save_same: "same_run st (save_position st)"
  by (auto simp: same_run_def save_position_def with_loader_def my_call_def ask_def calm_def split: option.splits prod.splits)

lemma plain_handled:
  assumes "plain ev" "calm st"
  shows "\<exists>st'. handle_event L opts ev (if short_form opts then st else emit [At pos] st) = Inr (Goto_end OK_CONTINUE True, st')
    \<and> same_run (emit (printed opts (ev, pos)) st) st'"
proof -
  let ?s = "if short_form opts then st else emit [At pos] st"
  have c: "calm ?s" "rp_out ?s = rp_out st @ (if short_form opts then [] else [At pos])" "same_run (emit (if short_form opts then [] else [At pos]) st) ?s"
    using assms(2) by (simp_all add: calm_def emit_def same_run_def)
  from copy_calm [OF c(1)] obtain n where n: "copy_both ?s = (True, ?s\<lparr>load_processor := (load_processor ?s)\<lparr>ld_n := n\<rparr>\<rparr>)" by blast
  have "\<exists>st'. handle_event L opts ev ?s = Inr (Goto_end OK_CONTINUE True, st') \<and> same_run (emit (printed opts (ev, pos)) st) st'"
    using assms(1) c n
    by (cases "ev_body ev"; cases "short_form opts")
      (auto simp: plain_def handle_event_def handle_query_def write_event_header_and_base64_def printed_def same_run_def emit_def calm_def)
  then show ?thesis .
qed

lemma process_plain:
  assumes "plain ev" "calm st"
  shows "\<exists>st'. process_event L opts ev pos st =
      Inr (if offset st \<le> rec_count st \<and> start_datetime st \<le> ev_when ev \<and> wanted_server opts ev \<and> too_late opts (stop_position st) (ev, pos)
           then OK_STOP else OK_CONTINUE, st')
    \<and> calm st' \<and> rec_count st' = rec_count st + 1 \<and> stop_position st' = stop_position st
    \<and> (if offset st \<le> rec_count st \<and> start_datetime st \<le> ev_when ev
       then offset st' = 0 \<and> start_datetime st' = 0 \<and> rp_out st' = rp_out st @
         (if wanted_server opts ev \<and> \<not> too_late opts (stop_position st) (ev, pos) then printed opts (ev, pos) else [])
       else offset st' = offset st \<and> start_datetime st' = start_datetime st \<and> rp_out st' = rp_out st)"
proof -
  have nf: "\<not> is_format ev" using assms(1) by (auto simp: plain_def is_format_def split: ev_body.splits)
  let ?st = "st\<lparr>start_datetime := 0, offset := 0\<rparr>"
  have "calm ?st" using assms(2) by (simp add: calm_def)
  from plain_handled [OF assms(1) this, of L opts pos] obtain s1 where
    h: "handle_event L opts ev (if short_form opts then ?st else emit [At pos] ?st) = Inr (Goto_end OK_CONTINUE True, s1)"
    "same_run (emit (printed opts (ev, pos)) ?st) s1" by blast
  have e: "\<And>rv s. at_end ev (Goto_end rv True, s) = (rv, if rv = OK_CONTINUE
      then save_position (s\<lparr>rec_count := rec_count s + 1, evpos := ev_pos ev\<rparr>) else s\<lparr>rec_count := rec_count s + 1, evpos := ev_pos ev\<rparr>)"
    by (simp add: at_end_def Let_def)
  have sv: "\<And>s. same_run (s\<lparr>rec_count := rec_count s + 1, evpos := ev_pos ev\<rparr>) (save_position (s\<lparr>rec_count := rec_count s + 1, evpos := ev_pos ev\<rparr>))"
    by (rule save_same)
  show ?thesis
    using nf h assms(2) sv [of st] sv [of ?st] sv [of s1]
    by (auto simp: process_event_def wanted_server_def too_late_def e Let_def same_run_def emit_def calm_def)
qed

lemma run_started:
  assumes "calm st" "offset st = 0" "start_datetime st = 0" "list_all (\<lambda>(ev, pos). plain ev \<and> 0 \<le> ev_when ev) es"
  shows "\<exists>st'. run_events L opts es st = Inr (if list_ex (too_late opts (stop_position st)) (mine opts es) then OK_STOP else OK_CONTINUE, st')
    \<and> rp_out st' = rp_out st @ concat (map (printed opts) (takeWhile (\<lambda>e. \<not> too_late opts (stop_position st) e) (mine opts es)))"
  using assms
proof (induction es arbitrary: st)
  case (Cons e es)
  obtain ev pos where e: "e = (ev, pos)" by (cases e)
  have "plain ev" using Cons.prems(4) e by simp
  from process_plain [OF this Cons.prems(1), of L opts pos] obtain s1 where
    p: "process_event L opts ev pos st = Inr (if wanted_server opts ev \<and> too_late opts (stop_position st) e then OK_STOP else OK_CONTINUE, s1)"
      "calm s1" "stop_position s1 = stop_position st" "offset s1 = 0" "start_datetime s1 = 0"
      "rp_out s1 = rp_out st @ (if wanted_server opts ev \<and> \<not> too_late opts (stop_position st) e then printed opts e else [])"
    using Cons.prems(2-4) e by auto
  show ?case
  proof (cases "wanted_server opts ev \<and> too_late opts (stop_position st) e")
    case True
    then show ?thesis using p e by (simp add: mine_def)
  next
    case False
    from Cons.IH [OF p(2,4,5)] Cons.prems(4) obtain st' where
      "run_events L opts es s1 = Inr (if list_ex (too_late opts (stop_position s1)) (mine opts es) then OK_STOP else OK_CONTINUE, st')"
      "rp_out st' = rp_out s1 @ concat (map (printed opts) (takeWhile (\<lambda>e. \<not> too_late opts (stop_position s1) e) (mine opts es)))" by auto
    then show ?thesis using p e False by (auto simp: mine_def)
  qed
qed (simp add: mine_def)

lemma run_window:
  fixes opts :: ropts
  assumes "calm st" "list_all (\<lambda>(ev, pos). plain ev \<and> 0 \<le> ev_when ev) es" "rec_count st = of_nat k" "k + length es < 2 ^ 64"
  defines "w \<equiv> mine opts (map snd (dropWhile (\<lambda>(i, e). \<not> (unat (offset st) \<le> i \<and> start_datetime st \<le> ev_when (fst e))) (enumerate k es)))"
  shows "\<exists>st'. run_events L opts es st = Inr (if list_ex (too_late opts (stop_position st)) w then OK_STOP else OK_CONTINUE, st')
    \<and> rp_out st' = rp_out st @ concat (map (printed opts) (takeWhile (\<lambda>e. \<not> too_late opts (stop_position st) e) w))"
  unfolding w_def using assms(1-4)
proof (induction es arbitrary: st k)
  case (Cons e es)
  obtain ev pos where e: "e = (ev, pos)" by (cases e)
  have k: "offset st \<le> rec_count st \<longleftrightarrow> unat (offset st) \<le> k"
    using Cons.prems(3,4) by (simp add: word_le_nat_alt unat_of_nat)
  have "plain ev" using Cons.prems(2) e by simp
  from process_plain [OF this Cons.prems(1), of L opts pos] obtain s1 where
    p: "process_event L opts ev pos st = Inr (if offset st \<le> rec_count st \<and> start_datetime st \<le> ev_when ev \<and> wanted_server opts ev
             \<and> too_late opts (stop_position st) (ev, pos) then OK_STOP else OK_CONTINUE, s1)"
      "calm s1" "rec_count s1 = rec_count st + 1" "stop_position s1 = stop_position st"
      "if offset st \<le> rec_count st \<and> start_datetime st \<le> ev_when ev
       then offset s1 = 0 \<and> start_datetime s1 = 0 \<and> rp_out s1 = rp_out st @
         (if wanted_server opts ev \<and> \<not> too_late opts (stop_position st) (ev, pos) then printed opts (ev, pos) else [])
       else offset s1 = offset st \<and> start_datetime s1 = start_datetime st \<and> rp_out s1 = rp_out st" by auto
  show ?case
  proof (cases "offset st \<le> rec_count st \<and> start_datetime st \<le> ev_when ev")
    case True
    have "\<exists>st'. run_events L opts es s1 = Inr (if list_ex (too_late opts (stop_position st)) (mine opts es) then OK_STOP else OK_CONTINUE, st')
        \<and> rp_out st' = rp_out s1 @ concat (map (printed opts) (takeWhile (\<lambda>e. \<not> too_late opts (stop_position st) e) (mine opts es)))"
      using run_started [of s1 es L opts] p True Cons.prems(2) by simp
    then show ?thesis using p True e k by (auto simp: mine_def)
  next
    case False
    have "\<exists>st'. run_events L opts es s1 = Inr (if list_ex (too_late opts (stop_position s1)) (mine opts (map snd (dropWhile
          (\<lambda>(i, e). \<not> (unat (offset s1) \<le> i \<and> start_datetime s1 \<le> ev_when (fst e))) (enumerate (Suc k) es)))) then OK_STOP else OK_CONTINUE, st')
        \<and> rp_out st' = rp_out s1 @ concat (map (printed opts) (takeWhile (\<lambda>e. \<not> too_late opts (stop_position s1) e) (mine opts (map snd (dropWhile
          (\<lambda>(i, e). \<not> (unat (offset s1) \<le> i \<and> start_datetime s1 \<le> ev_when (fst e))) (enumerate (Suc k) es))))))"
      by (rule Cons.IH) (use p Cons.prems in \<open>auto simp: add.commute\<close>)
    then show ?thesis using p False e k by (auto simp: mine_def)
  qed
qed (simp add: mine_def)

text \<open>C15. For events that are printed as they are, a run prints those of the window the options describe, in order and each with its position: from the
  first event that is late enough in number and in time, those of the server asked for, up to the first of them that is too late in time or
  position; statements on another database are left out. The run says that it has come to the end of the window exactly when such an event
  was met.\<close>

theorem events_window:
  assumes "calm st" "rec_count st = 0" "length es < 2 ^ 64" "list_all (\<lambda>(ev, pos). plain ev \<and> 0 \<le> ev_when ev) es"
    and "w = mine opts (from_first (unat (offset st)) (start_datetime st) es)"
  shows "fmap (\<lambda>(rv, st'). (rv, rp_out st')) (run_events L opts es st)
    = Inr (if list_ex (too_late opts (stop_position st)) w then OK_STOP else OK_CONTINUE,
           rp_out st @ concat (map (printed opts) (takeWhile (\<lambda>e. \<not> too_late opts (stop_position st) e) w)))"
  using run_window [OF assms(1,4), of 0 L opts] assms(2,3,5) unfolding from_first_def by auto

section \<open>Examples\<close>

definition opts0 :: ropts where
  "opts0 = \<lparr>server_id = 0, self_server_id = 1234, base64_mode = BASE64_AUTO, short_form = False, remote_opt = True, force_if_open = True,
     database = Some ''a'', stop_datetime = 2000, to_last_remote_log = False, disable_log_bin = False, charset = None\<rparr>"

definition desc0 :: fdesc where
  "desc0 = \<lparr>binlog_version = 4, common_header_len = 19, in_use = False, is_valid = True\<rparr>"

text \<open>A library whose packets and files hold one event in 13 bytes: the type, the position behind it, the time, and for a
  rotate event the number of the log.\<close>

definition event0 :: "byte list \<Rightarrow> log_event" where
  "event0 b = \<lparr>ev_when = int (unat (b ! 6)), ev_server = 1, ev_pos = unat (b ! 5), ev_body =
     (if b ! 4 = 15 then Format_description_event desc0
      else if b ! 4 = 4 then Rotate_event (if b ! 7 = 1 then ''b.1'' else ''b.2'')
      else if b ! 4 = 2 then Query_event (Some ''a'') False else Other_event 16)\<rparr>"

definition lib0 :: replib where
  "lib0 = \<lparr>sets_fd = (\<lambda>_ _ _. True), dirname_length = (\<lambda>_. 0), fn_format = (\<lambda>f d. d @ f),
     new_desc = (\<lambda>v. desc0\<lparr>binlog_version := v\<rparr>), read_packet = (\<lambda>b d. Some (event0 b)),
     read_file = (\<lambda>b p d. if p + 13 \<le> length b then Inr (event0 (take 13 (drop p b)), 13) else Inl (p < length b))\<rparr>"

definition rep0 :: rep where
  "rep0 = \<lparr>start_datetime = 0, offset = 0, rec_count = 0, start_position = 4, stop_position = 2 ^ 64 - 1, glob_desc = Some desc0,
     printed_fd = False, map_ignored = Map.empty, rp_out = [], npfp = None, current_log_name = [], evpos = 0, commands = [],
     load_processor = loader0\<rparr>"

definition query_at :: "nat \<Rightarrow> int \<Rightarrow> string \<Rightarrow> log_event" where
  "query_at p t db = \<lparr>ev_when = t, ev_server = 1, ev_pos = p, ev_body = Query_event (Some db) False\<rparr>"

lemma calm0: "calm rep0"
  by (simp add: calm_def rep0_def loader0_def)

lemmas rep_eval = process_event_def at_end_def save_position_def with_loader_def my_call_def ask_def emit_def handle_event_def
  handle_format_def handle_query_def is_format_def shall_skip_database_def np_flush_def Let_def

text \<open>A new file of positions, and a shorter position over a longer one.\<close>

lemma position_restart_witness:
  "\<exists>st' f. run_steps lib0 opts0 [(''b.1'', query_at 900 5 ''a'', 4), (''b.1'', query_at 1000 6 ''a'', 900)] rep0 = Inr (OK_CONTINUE, st')
    \<and> npfp st' = Some f \<and> read_position (np_disk f) = Some (''b.1'', 900) \<and> read_position (np_disk (np_flush f)) = Some (''b.1'', 1000)"
proof -
  let ?es = "[(''b.1'', query_at 900 5 ''a'', 4), (''b.1'', query_at 1000 6 ''a'', 900)]"
  obtain st' f where run: "run_steps lib0 opts0 ?es rep0 = Inr (OK_CONTINUE, st')" "npfp st' = Some f" "np_disk f \<noteq> []"
    by (simp add: rep_eval query_at_def opts0_def rep0_def loader0_def lib0_def position_text_def)
  have ok: "list_all (\<lambda>(name, ev, pos). LF \<notin> set name) ?es" by simp
  have "marks lib0 opts0 ?es rep0 = [(''b.1'', 900), (''b.1'', 1000)]"
    using run(1) by (auto simp: hands_over_def query_at_def res_simps split: if_splits)
  with position_restart [OF run(1) _ run(2) ok] run show ?thesis by (auto simp: rep0_def)
qed

lemma events_window_witness:
  "fmap (\<lambda>(rv, st'). (rv, rp_out st')) (run_events lib0 opts0 [(query_at 9 5 ''b'', 4), (query_at 20 6 ''a'', 9), (query_at 30 3000 ''a'', 20)] rep0)
    = Inr (OK_STOP, [At 4, At 9, Print (query_at 20 6 ''a'')])"
proof -
  let ?es = "[(query_at 9 5 ''b'', 4), (query_at 20 6 ''a'', 9), (query_at 30 3000 ''a'', 20)]"
  have "rec_count rep0 = 0" "length ?es < 2 ^ 64" "list_all (\<lambda>(ev, pos). plain ev \<and> 0 \<le> ev_when ev) ?es"
    by (simp_all add: rep0_def plain_def query_at_def)
  from events_window [OF calm0 this refl, of lib0 opts0] show ?thesis
    by (simp add: rep0_def opts0_def from_first_def mine_def wanted_server_def too_late_def printed_def query_at_def shall_skip_database_def)
qed

text \<open>A run over a file of a server's log leaves the first line empty: the name is only set by the rotate events a server sends.\<close>

lemma local_name_empty:
  assumes "process_event L opts ev pos st = Inr (OK_CONTINUE, st')" "current_log_name st = []" "npfp st' = Some f"
  shows "\<exists>r. np_buf f = LF # r"
  using event_saves [OF assms(1)] assms(2,3) by (auto simp: writes_def position_text_def split: option.splits)

end
