(* ===== verification/ReplicatorDump.thy ===== *)
theory ReplicatorDump
  imports Replicator
begin

section \<open>Where the events come from (myreplicator/src/myreplicator.cc)\<close>

text \<open>
  A log is read from a server, which sends one event per packet, or from a file. The theory holds both loops and \<open>main\<close>, which runs
  over the logs of the command line. \<open>remote_as_local\<close> says that both ways print the same; \<open>rotate_position\<close> what the
  file of positions holds when a log has come to its end. Packets are a list (\<open>None\<close> as a result: the list was not enough), and
  the loops over a file have fuel, because MySQL's parser decides how far an event reaches.
\<close>

definition BIN_LOG_HEADER_SIZE :: nat where "BIN_LOG_HEADER_SIZE = 4"
definition PROBE_HEADER_LEN :: nat where "PROBE_HEADER_LEN = 13"

type_synonym dumped = "(Exit_status \<times> rep) option res"

abbreviation done_with :: "Exit_status \<Rightarrow> rep \<Rightarrow> dumped" where
  "done_with rv st \<equiv> Inr (Some (rv, st))"

subsection \<open>From a server\<close>

definition safe_connect :: "rep \<Rightarrow> Exit_status \<times> rep" where
  "safe_connect st = (case with_loader my_call st of (ok, st) \<Rightarrow>
     if \<not> ok then (ERROR_STOP, st)
     else case with_loader my_call st of (ok, st) \<Rightarrow> (if ok then OK_CONTINUE else ERROR_STOP, st))"

text \<open>What the server answers to \<open>SELECT VERSION()\<close>.\<close>

datatype version_answer = Query_failed | No_version | Version string

definition check_master_version :: "replib \<Rightarrow> version_answer \<Rightarrow> rep \<Rightarrow> Exit_status \<times> rep" where
  "check_master_version L a st = (case a of
       Query_failed \<Rightarrow> (ERROR_STOP, st)
     | No_version \<Rightarrow> (ERROR_STOP, st)
     | Version v \<Rightarrow>
         let d = (case v of [] \<Rightarrow> None
                  | c # r \<Rightarrow> if c = CHR ''3'' then Some (new_desc L 1)
                            else if c = CHR ''4'' \<or> c = CHR ''5'' then Some (new_desc L 3)
                            else None);
             st = st\<lparr>glob_desc := d\<rparr> in
         (case d of None \<Rightarrow> (ERROR_STOP, st) | Some d \<Rightarrow> (if is_valid d then OK_CONTINUE else ERROR_STOP, st)))"

text \<open>The dump command: position, flags, id of the slave, name. It is put together in a buffer of 128 bytes.\<close>

definition dump_command :: "nat \<Rightarrow> nat \<Rightarrow> string \<Rightarrow> byte list" where
  "dump_command start self logname =
     le32_bytes (of_nat start) @ [0, 0] @ le32_bytes (of_nat self) @ map (\<lambda>c. of_nat (of_char c)) logname"

definition send_dump :: "ropts \<Rightarrow> string \<Rightarrow> rep \<Rightarrow> (Exit_status \<times> rep) res" where
  "send_dump opts logname st =
     (if 2 ^ 32 - 1 < length logname then Inr (ERROR_STOP, st)
      else if 128 < 10 + length logname then Inl Buffer_overflow
      else case with_loader my_call (st\<lparr>commands := commands st @ [dump_command (start_position st) (self_server_id opts) logname]\<rparr>) of
        (ok, st) \<Rightarrow> Inr (if ok then OK_CONTINUE else ERROR_STOP, st))"

text \<open>One event of a server with binary logs of its own time. \<open>Step\<close> has the number of bytes the position moves.\<close>

datatype remote_turn = Finished Exit_status | Skip | Step nat

definition remote_turn :: "replib \<Rightarrow> ropts \<Rightarrow> string \<Rightarrow> log_event \<Rightarrow> nat \<Rightarrow> nat \<Rightarrow> rep \<Rightarrow> (remote_turn \<times> rep) res" where
  "remote_turn L opts logname ev len old_off st =
     (let go = (\<lambda>len st. fmap (\<lambda>(rv, st). (if rv = OK_CONTINUE then Step (len - 1) else Finished rv, st))
                   (process_event L opts ev old_off st)) in
      case ev_body ev of
        Rotate_event new_log_ident \<Rightarrow>
          (let st = st\<lparr>current_log_name := take (length logname) new_log_ident\<rparr> in
           if ev_when ev = 0 then
             if \<not> to_last_remote_log opts then
               Inr (if new_log_ident \<noteq> logname then Finished OK_CONTINUE else Skip, st)
             else go 1 st
           else go len st)
      | Format_description_event d \<Rightarrow> go (if old_off \<noteq> BIN_LOG_HEADER_SIZE then 1 else len) st
      | _ \<Rightarrow> go len st)"

text \<open>An old server sends the files of LOAD DATA on request, behind the event.\<close>

definition old_load :: "log_event \<Rightarrow> string option" where
  "old_load ev = (case ev_body ev of Load_event f \<Rightarrow> Some f | Create_file_event f db i b \<Rightarrow> Some f | _ \<Rightarrow> None)"

definition old_turn :: "replib \<Rightarrow> ropts \<Rightarrow> log_event \<Rightarrow> string \<Rightarrow> nat \<Rightarrow> net_packet list \<Rightarrow> rep
    \<Rightarrow> (Exit_status \<times> net_packet list \<times> rep) option res" where
  "old_turn L opts ev old_fname old_off ps st =
     fbind (with_loader_res (prepare_new_file_for_old_format (fn_format L) old_fname) st) (\<lambda>(file, st).
       case file of
         None \<Rightarrow> Inr (Some (ERROR_STOP, ps, st))
       | Some f \<Rightarrow> fbind (process_event L opts (set_fname f ev) old_off st) (\<lambda>(rv, st).
           if rv \<noteq> OK_CONTINUE then Inr (Some (rv, ps, st))
           else fmap (map_option (\<lambda>(rv, ps, l). (rv, ps, st\<lparr>load_processor := l\<rparr>)))
                  (load_old_format_file old_fname f ps (load_processor st))))"

lemma load_old_rest: "load_old_loop f ps l = Some (rv, qs, k) \<Longrightarrow> length qs \<le> length ps"
proof (induction ps arbitrary: l)
  case (Cons p ps)
  show ?case
  proof (cases p)
    case (Net b)
    then show ?thesis
      using Cons by (cases "my_call l"; cases "my_write f b l") (fastforce split: if_splits)
  qed (use Cons.prems in simp)
qed simp

lemma load_format_rest: "load_old_format_file sf f ps l = Inr (Some (rv, qs, k)) \<Longrightarrow> length qs \<le> length ps"
  using load_old_rest [of f ps "snd (my_call l)" rv qs k]
  by (cases "my_call l"; cases "fst (my_call l)") (simp_all add: load_old_format_file_def split: if_splits)

lemma old_turn_rest:
  assumes "old_turn L opts ev f pos ps st = Inr (Some (rv, qs, st'))"
  shows "length qs \<le> length ps"
proof -
  obtain r1 st1 where 1: "with_loader_res (prepare_new_file_for_old_format (fn_format L) f) st = Inr (r1, st1)"
    using assms unfolding old_turn_def fbind_eq_Inr by auto
  show ?thesis
  proof (cases r1)
    case None
    with assms 1 show ?thesis by (simp add: old_turn_def)
  next
    case (Some g)
    then obtain rv2 st2 where 2: "process_event L opts (set_fname g ev) pos st1 = Inr (rv2, st2)"
      using assms 1 by (cases "process_event L opts (set_fname g ev) pos st1") (auto simp: old_turn_def)
    show ?thesis
    proof (cases "load_old_format_file f g ps (load_processor st2)")
      case (Inr r)
      with assms 1 2 Some show ?thesis by (cases r) (auto simp: old_turn_def dest: load_format_rest split: if_splits)
    qed (use assms 1 2 Some in \<open>auto simp: old_turn_def split: if_splits\<close>)
  qed
qed

function remote_loop :: "replib \<Rightarrow> ropts \<Rightarrow> string \<Rightarrow> net_packet list \<Rightarrow> nat \<Rightarrow> rep \<Rightarrow> dumped" where
  "remote_loop L opts logname [] old_off st = Inr None"
| "remote_loop L opts logname (Net_error # ps) old_off st = done_with ERROR_STOP st"
| "remote_loop L opts logname (Net b # ps) old_off st =
     (if b = [] then done_with ERROR_STOP st
      else if length b < 8 \<and> hd b = 254 then done_with OK_CONTINUE st
      else case glob_desc st of
          None \<Rightarrow> Inl Null_deref
        | Some d \<Rightarrow> (case read_packet L (tl b) d of
            None \<Rightarrow> done_with ERROR_STOP st
          | Some ev \<Rightarrow>
              (case (if 3 \<le> binlog_version d then None else old_load ev) of
                 None \<Rightarrow> (case remote_turn L opts logname ev (length b) old_off st of
                     Inl e \<Rightarrow> Inl e
                   | Inr (Finished rv, st) \<Rightarrow> done_with rv st
                   | Inr (Skip, st) \<Rightarrow> remote_loop L opts logname ps old_off st
                   | Inr (Step n, st) \<Rightarrow> remote_loop L opts logname ps (old_off + n) st)
               | Some f \<Rightarrow> (case old_turn L opts ev f old_off ps st of
                     Inl e \<Rightarrow> Inl e
                   | Inr None \<Rightarrow> Inr None
                   | Inr (Some (rv, qs, st)) \<Rightarrow>
                       if rv \<noteq> OK_CONTINUE then done_with rv st
                       else remote_loop L opts logname qs (old_off + (length b - 1)) st))))"
  by pat_completeness auto
termination
  by (relation "measure (\<lambda>(L, opts, logname, ps, old_off, st). length ps)") (auto dest: old_turn_rest)

definition dump_remote_log_entries :: "replib \<Rightarrow> ropts \<Rightarrow> string \<Rightarrow> version_answer \<Rightarrow> net_packet list \<Rightarrow> rep \<Rightarrow> dumped" where
  "dump_remote_log_entries L opts logname version ps st =
     (case safe_connect st of (rv, st) \<Rightarrow>
      if rv \<noteq> OK_CONTINUE then done_with rv st
      else case check_master_version L version st of (rv, st) \<Rightarrow>
      if rv \<noteq> OK_CONTINUE then done_with rv st
      else fbind (send_dump opts logname st) (\<lambda>(rv, st).
        if rv \<noteq> OK_CONTINUE then done_with rv st
        else remote_loop L opts logname ps (start_position st) st))"

subsection \<open>From a file\<close>

text \<open>The bytes that can be read, and whether they end with an error of the device. \<open>my_b_read\<close> fails when there are not enough
  of them; it reports an error, and not just the end, when there was one or when it got a part.\<close>

record source =
  src_bytes :: "byte list"
  src_bad :: bool

definition my_b_read :: "source \<Rightarrow> nat \<Rightarrow> nat \<Rightarrow> byte list option" where
  "my_b_read s pos n = (if pos + n \<le> length (src_bytes s) then Some (take n (drop pos (src_bytes s))) else None)"

definition src_error :: "source \<Rightarrow> nat \<Rightarrow> bool" where
  "src_error s pos \<longleftrightarrow> src_bad s \<or> pos < length (src_bytes s)"

definition binlog_magic :: "byte list" where "binlog_magic = [0xfe, 0x62, 0x69, 0x6e]"

fun probe_loop :: "nat \<Rightarrow> replib \<Rightarrow> ropts \<Rightarrow> source \<Rightarrow> nat \<Rightarrow> rep \<Rightarrow> dumped" where
  "probe_loop 0 L opts s tmp_pos st = Inr None"
| "probe_loop (Suc fuel) L opts s tmp_pos st =
     (case my_b_read s tmp_pos PROBE_HEADER_LEN of
        None \<Rightarrow> done_with (if src_error s tmp_pos then ERROR_STOP else OK_CONTINUE) st
      | Some buf \<Rightarrow>
          if buf ! 4 = 1 then
            done_with OK_CONTINUE (if le32 (drop 9 buf) < 19 + (2 + 50 + 4) then st\<lparr>glob_desc := Some (new_desc L 1)\<rparr> else st)
          else if start_position st \<le> tmp_pos then done_with OK_CONTINUE st
          else if buf ! 4 = 15 then
            (case glob_desc st of None \<Rightarrow> Inl Null_deref | Some d \<Rightarrow>
             (case read_file L (src_bytes s) tmp_pos d of
                Inl e \<Rightarrow> done_with ERROR_STOP st
              | Inr (ev, n) \<Rightarrow>
                  if base64_mode opts = BASE64_AUTO \<or> base64_mode opts = BASE64_ALWAYS then
                    (case process_event L opts ev tmp_pos st of
                       Inl e \<Rightarrow> Inl e
                     | Inr (rv, st) \<Rightarrow> if rv \<noteq> OK_CONTINUE then done_with rv st else probe_loop fuel L opts s (tmp_pos + n) st)
                  else (case ev_body ev of
                      Format_description_event d \<Rightarrow> probe_loop fuel L opts s (tmp_pos + n) (st\<lparr>glob_desc := Some d\<rparr>)
                    | _ \<Rightarrow> Inl Indeterminate_value)))
          else if buf ! 4 = 4 then
            (case glob_desc st of None \<Rightarrow> Inl Null_deref | Some d \<Rightarrow>
             (case read_file L (src_bytes s) tmp_pos d of
                Inl e \<Rightarrow> done_with ERROR_STOP st
              | Inr (ev, n) \<Rightarrow> probe_loop fuel L opts s (tmp_pos + n) st))
          else done_with OK_CONTINUE st)"

definition check_header :: "nat \<Rightarrow> replib \<Rightarrow> ropts \<Rightarrow> source \<Rightarrow> rep \<Rightarrow> dumped" where
  "check_header fuel L opts s st =
     (let st = st\<lparr>glob_desc := Some (new_desc L 3)\<rparr> in
      case my_b_read s 0 BIN_LOG_HEADER_SIZE of
        None \<Rightarrow> done_with ERROR_STOP st
      | Some header \<Rightarrow>
          if header \<noteq> binlog_magic then done_with ERROR_STOP st
          else probe_loop fuel L opts s BIN_LOG_HEADER_SIZE st)"

fun local_loop :: "nat \<Rightarrow> replib \<Rightarrow> ropts \<Rightarrow> source \<Rightarrow> nat \<Rightarrow> rep \<Rightarrow> dumped" where
  "local_loop 0 L opts s pos st = Inr None"
| "local_loop (Suc fuel) L opts s pos st =
     (case glob_desc st of None \<Rightarrow> Inl Null_deref | Some d \<Rightarrow>
      (case read_file L (src_bytes s) pos d of
         Inl error \<Rightarrow> done_with (if \<not> in_use d \<and> error then ERROR_STOP else OK_CONTINUE) st
       | Inr (ev, n) \<Rightarrow> (case process_event L opts ev pos st of
             Inl e \<Rightarrow> Inl e
           | Inr (rv, st) \<Rightarrow> if rv \<noteq> OK_CONTINUE then done_with rv st else local_loop fuel L opts s (pos + n) st)))"

text \<open>From the standard input the first bytes are read and thrown away, \<open>IO_SIZE\<close> of them at a time.\<close>

function skip_loop :: "source \<Rightarrow> nat \<Rightarrow> nat \<Rightarrow> nat option" where
  "skip_loop s len pos =
     (if len = 0 then Some pos
      else let tmp = min len 4096 in
        (case my_b_read s pos tmp of None \<Rightarrow> None | Some b \<Rightarrow> skip_loop s (len - tmp) (pos + tmp)))"
  by pat_completeness auto
termination by (relation "measure (\<lambda>(s, len, pos). len)") auto

declare skip_loop.simps [simp del]

definition local_events :: "nat \<Rightarrow> replib \<Rightarrow> ropts \<Rightarrow> source \<Rightarrow> nat \<Rightarrow> rep \<Rightarrow> dumped" where
  "local_events fuel L opts s pos st =
     (case glob_desc st of
        None \<Rightarrow> done_with ERROR_STOP st
      | Some d \<Rightarrow>
          if \<not> is_valid d then done_with ERROR_STOP st
          else if start_position st \<noteq> 0 then local_loop fuel L opts s pos st
          else if my_b_read s pos BIN_LOG_HEADER_SIZE = None then done_with ERROR_STOP st
          else local_loop fuel L opts s (pos + BIN_LOG_HEADER_SIZE) st)"

definition dump_local_log_entries :: "nat \<Rightarrow> replib \<Rightarrow> ropts \<Rightarrow> string \<Rightarrow> source \<Rightarrow> rep \<Rightarrow> dumped" where
  "dump_local_log_entries fuel L opts logname s st =
     (case (if logname \<noteq> ''-'' then with_loader my_call st else (True, st)) of (ok, st) \<Rightarrow>
      if \<not> ok then done_with ERROR_STOP st
      else case with_loader my_call st of (ok, st) \<Rightarrow>
      if \<not> ok then done_with ERROR_STOP st
      else (case check_header fuel L opts s st of
          Inl e \<Rightarrow> Inl e
        | Inr None \<Rightarrow> Inr None
        | Inr (Some (rv, st)) \<Rightarrow>
            if rv \<noteq> OK_CONTINUE then done_with rv st
            else if logname \<noteq> ''-'' then local_events fuel L opts s (start_position st) st
            else (case skip_loop s (start_position st) 0 of
                None \<Rightarrow> done_with ERROR_STOP st
              | Some pos \<Rightarrow> local_events fuel L opts s pos st)))"

subsection \<open>The logs of the command line\<close>

text \<open>A log of the command line: its name, what the server answers and sends, and what the file holds.\<close>

record log_input =
  li_name :: string
  li_version :: version_answer
  li_packets :: "net_packet list"
  li_source :: source

text \<open>Every log has a fresh \<open>PRINT_EVENT_INFO\<close>.\<close>

definition dump_log_entries :: "nat \<Rightarrow> replib \<Rightarrow> ropts \<Rightarrow> log_input \<Rightarrow> rep \<Rightarrow> dumped" where
  "dump_log_entries fuel L opts i st =
     (case with_loader my_call (st\<lparr>printed_fd := False, map_ignored := Map.empty\<rparr>) of (ok, st) \<Rightarrow>
      if \<not> ok then done_with ERROR_STOP st
      else let st = emit [Text (''DELIMITER /*!*/;'' @ [LF])] st in
        fmap (map_option (\<lambda>(rv, st). (rv, emit [Text (''DELIMITER ;'' @ [LF])] st)))
          (if remote_opt opts then dump_remote_log_entries L opts (li_name i) (li_version i) (li_packets i) st
           else dump_local_log_entries fuel L opts (li_name i) (li_source i) st))"

fun logs_loop :: "nat \<Rightarrow> replib \<Rightarrow> ropts \<Rightarrow> nat \<Rightarrow> log_input list \<Rightarrow> Exit_status \<Rightarrow> rep \<Rightarrow> dumped" where
  "logs_loop fuel L opts save_stop_position [] retval st = done_with retval st"
| "logs_loop fuel L opts save_stop_position (i # is) retval st =
     (let st = (if is = [] then st\<lparr>stop_position := save_stop_position\<rparr> else st) in
      case dump_log_entries fuel L opts i st of
        Inl e \<Rightarrow> Inl e
      | Inr None \<Rightarrow> Inr None
      | Inr (Some (rv, st)) \<Rightarrow>
          if rv \<noteq> OK_CONTINUE then done_with rv st
          else logs_loop fuel L opts save_stop_position is rv (st\<lparr>start_position := BIN_LOG_HEADER_SIZE\<rparr>))"

definition head_text :: "ropts \<Rightarrow> string" where
  "head_text opts =
     ''/*!40019 SET @@session.max_insert_delayed_threads=0*/;'' @ [LF]
   @ (if disable_log_bin opts then ''/*!32316 SET @OLD_SQL_LOG_BIN=@@SQL_LOG_BIN, SQL_LOG_BIN=0*/;'' @ [LF] else [])
   @ ''/*!50003 SET @OLD_COMPLETION_TYPE=@@COMPLETION_TYPE,COMPLETION_TYPE=0*/;'' @ [LF]
   @ (case charset opts of None \<Rightarrow> [] | Some cs \<Rightarrow>
        [LF] @ ''/*!40101 SET @OLD_CHARACTER_SET_CLIENT=@@CHARACTER_SET_CLIENT */;''
      @ [LF] @ ''/*!40101 SET @OLD_CHARACTER_SET_RESULTS=@@CHARACTER_SET_RESULTS */;''
      @ [LF] @ ''/*!40101 SET @OLD_COLLATION_CONNECTION=@@COLLATION_CONNECTION */;''
      @ [LF] @ ''/*!40101 SET NAMES '' @ cs @ '' */;'' @ [LF])"

definition tail_text :: "ropts \<Rightarrow> string" where
  "tail_text opts =
     ''# End of log file'' @ [LF] @ ''ROLLBACK /* added by mysqlbinlog */;'' @ [LF]
   @ ''/*!50003 SET COMPLETION_TYPE=@OLD_COMPLETION_TYPE*/;'' @ [LF]
   @ (if disable_log_bin opts then ''/*!32316 SET SQL_LOG_BIN=@OLD_SQL_LOG_BIN*/;'' @ [LF] else [])
   @ (case charset opts of None \<Rightarrow> [] | Some cs \<Rightarrow>
        ''/*!40101 SET CHARACTER_SET_CLIENT=@OLD_CHARACTER_SET_CLIENT */;''
      @ [LF] @ ''/*!40101 SET CHARACTER_SET_RESULTS=@OLD_CHARACTER_SET_RESULTS */;''
      @ [LF] @ ''/*!40101 SET COLLATION_CONNECTION=@OLD_COLLATION_CONNECTION */;'' @ [LF])"

text \<open>\<open>main\<close> behind the options. \<open>exit\<close> writes out what is left in the stream of positions.\<close>

definition main_r :: "nat \<Rightarrow> replib \<Rightarrow> ropts \<Rightarrow> string \<Rightarrow> log_input list \<Rightarrow> rep \<Rightarrow> (int \<times> rep) option res" where
  "main_r fuel L opts dirname_for_local_load is st =
     (let opts = (if base64_mode opts = BASE64_UNSPEC then opts\<lparr>base64_mode := BASE64_AUTO\<rparr> else opts);
          st = emit [Text (head_text opts)] (st\<lparr>load_processor := init_by_dir_name dirname_for_local_load (load_processor st)\<rparr>) in
      fmap (map_option (\<lambda>(rv, st).
          (if rv = ERROR_STOP then 1 else 0,
           (emit [Text (tail_text opts)] st)\<lparr>load_processor := destroy (load_processor st), npfp := map_option np_flush (npfp st),
             glob_desc := None\<rparr>)))
        (logs_loop fuel L opts (stop_position st) is OK_CONTINUE (st\<lparr>stop_position := 2 ^ 64 - 1\<rparr>)))"

section \<open>A server and a file print the same\<close>

text \<open>The name of the log and the file of positions do not matter to what is printed.\<close>

definition swap :: "string \<Rightarrow> posfile option \<Rightarrow> rep \<Rightarrow> rep" where
  "swap n f st = st\<lparr>current_log_name := n, npfp := f\<rparr>"

lemma swap_fields [simp]:
  "rp_out (swap n f st) = rp_out st" "glob_desc (swap n f st) = glob_desc st" "printed_fd (swap n f st) = printed_fd st"
  "map_ignored (swap n f st) = map_ignored st" "load_processor (swap n f st) = load_processor st" "evpos (swap n f st) = evpos st"
  "offset (swap n f st) = offset st" "rec_count (swap n f st) = rec_count st" "start_datetime (swap n f st) = start_datetime st"
  "stop_position (swap n f st) = stop_position st" "npfp (swap n f st) = f" "current_log_name (swap n f st) = n"
  "(swap n f st)\<lparr>map_ignored := m\<rparr> = swap n f (st\<lparr>map_ignored := m\<rparr>)"
  "(swap n f st)\<lparr>load_processor := l\<rparr> = swap n f (st\<lparr>load_processor := l\<rparr>)"
  "(swap n f st)\<lparr>start_datetime := t, offset := k\<rparr> = swap n f (st\<lparr>start_datetime := t, offset := k\<rparr>)"
  "(swap n f st)\<lparr>glob_desc := g, printed_fd := b\<rparr> = swap n f (st\<lparr>glob_desc := g, printed_fd := b\<rparr>)"
  "(swap n f st)\<lparr>rec_count := c, evpos := p\<rparr> = swap n f (st\<lparr>rec_count := c, evpos := p\<rparr>)"
  "emit xs (swap n f st) = swap n f (emit xs st)"
  by (simp_all add: swap_def emit_def)

lemma swap_loader [simp]: "with_loader g (swap n f st) = map_prod id (swap n f) (with_loader g st)"
  by (simp add: with_loader_def split: prod.split)

lemma swap_loader_res [simp]: "with_loader_res g (swap n f st) = fmap (map_prod id (swap n f)) (with_loader_res g st)"
  by (cases "g (load_processor st)") (auto simp: with_loader_res_def)

lemma swap_copy [simp]: "copy_both (swap n f st) = map_prod id (swap n f) (copy_both st)"
  by (simp add: copy_both_def split: prod.split)

lemma swap_base64 [simp]: "write_event_header_and_base64 ev (swap n f st) = map_prod id (swap n f) (write_event_header_and_base64 ev st)"
  by (simp add: write_event_header_and_base64_def split: prod.split)

lemma fmap_swap: "fmap (\<lambda>(rv, st). (F rv, st)) (fmap (map_prod id g) x) = fmap (map_prod id g) (fmap (\<lambda>(rv, st). (F rv, st)) x)"
  by (cases x) (auto split: prod.split)

lemma swap_print: "print_base64_event opts ev (swap n f st) = fmap (map_prod id (swap n f)) (print_base64_event opts ev st)"
  by (simp add: print_base64_event_def)

lemma swap_create: "handle_create L opts ev g db i b (swap n f st) = fmap (map_prod id (swap n f)) (handle_create L opts ev g db i b st)"
  by (auto simp: handle_create_def fmap_swap split: prod.split option.split)

lemma swap_rows: "handle_rows opts ev t e (swap n f st) = fmap (map_prod id (swap n f)) (handle_rows opts ev t e st)"
  by (auto simp: handle_rows_def Let_def swap_print split: prod.split)

lemma swap_event: "handle_event L opts ev (swap n f st) = fmap (map_prod id (swap n f)) (handle_event L opts ev st)"
proof (cases "ev_body ev")
  case (Begin_load_query_event i b)
  then show ?thesis by (simp add: handle_event_def fmap_swap)
qed (auto simp: handle_event_def handle_query_def swap_create swap_rows handle_exec_load_def handle_format_def handle_execute_load_query_def
  handle_table_map_def swap_print Let_def split: prod.split option.split)

text \<open>States that differ in no more than that.\<close>

definition alike :: "rep \<Rightarrow> rep \<Rightarrow> bool" where
  "alike a b \<longleftrightarrow> (\<exists>n f. b = swap n f a \<and> (f = None \<longleftrightarrow> npfp a = None))"

lemma save_alike: "alike a b \<Longrightarrow> alike (save_position a) (save_position b)"
  by (cases a) (auto simp: alike_def save_position_def swap_def with_loader_def split: option.splits prod.splits)

lemma alike_fields:
  assumes "alike a b"
  shows "rp_out b = rp_out a" "glob_desc b = glob_desc a"
  using assms by (auto simp: alike_def)

lemma alike_swap [simp]: "alike a (swap n f a) \<longleftrightarrow> (f = None \<longleftrightarrow> npfp a = None)"
  by (cases a) (auto simp: alike_def swap_def)

definition same_end :: "(Exit_status \<times> rep) res \<Rightarrow> (Exit_status \<times> rep) res \<Rightarrow> bool" where
  "same_end x y \<longleftrightarrow> (case (x, y) of
       (Inl e, Inl e') \<Rightarrow> e = e'
     | (Inr (rv, a), Inr (rv', b)) \<Rightarrow> rv = rv' \<and> alike a b
     | _ \<Rightarrow> False)"

lemma at_end_alike:
  assumes "f = None \<longleftrightarrow> npfp st = None"
  shows "case (at_end ev (lv, st), at_end ev (lv, swap n f st)) of ((rv, a), (rv', b)) \<Rightarrow> rv = rv' \<and> alike a b"
proof (cases lv)
  case (Goto_end rv h)
  let ?s = "st\<lparr>rec_count := rec_count st + 1, evpos := (if h then ev_pos ev else evpos st)\<rparr>"
  have "alike ?s (swap n f ?s)" using assms by simp
  then show ?thesis using Goto_end save_alike by (simp add: at_end_def Let_def)
qed (use assms in \<open>simp add: at_end_def\<close>)

lemma process_alike: "alike a b \<Longrightarrow> same_end (process_event L opts ev pos a) (process_event L opts ev pos b)"
proof -
  assume "alike a b"
  then obtain n f where b: "b = swap n f a" "f = None \<longleftrightarrow> npfp a = None" by (auto simp: alike_def)
  let ?a = "if is_format ev then a else a\<lparr>start_datetime := 0, offset := 0\<rparr>"
  let ?x = "if short_form opts then ?a else emit [At pos] ?a"
  have na: "npfp ?a = npfp a" by simp
  have h: "same_end (fmap (at_end ev) (handle_event L opts ev ?x)) (fmap (at_end ev) (handle_event L opts ev (swap n f ?x)))"
  proof (cases "handle_event L opts ev ?x")
    case (Inr r)
    then obtain lv s where r: "handle_event L opts ev ?x = Inr (lv, s)" by (cases r) auto
    have "frame ?x s" using frame_event [OF r] by blast
    then have "npfp s = npfp a" using frame_fields(1) [of ?x s] by (simp add: emit_def split: if_splits)
    then show ?thesis using r b(2) at_end_alike [of f s ev lv n] by (simp add: swap_event same_end_def split: prod.splits)
  qed (simp add: swap_event same_end_def)
  have e: "\<And>lv s. npfp s = npfp a \<Longrightarrow> same_end (Inr (at_end ev (lv, s))) (Inr (at_end ev (lv, swap n f s)))"
    using at_end_alike [of f _ ev _ n] b(2) by (simp add: same_end_def split: prod.splits)
  show ?thesis
    using h e [of a "Goto_end OK_CONTINUE True"] e [of ?a "Goto_end OK_CONTINUE True"] e [of ?a "Goto_end OK_STOP True"] na
    by (cases "is_format ev"; cases "short_form opts") (simp_all add: process_event_def b(1) Let_def)
qed

text \<open>Only a format description changes the description.\<close>

lemma glob_loader: "with_loader g st = (x, st') \<Longrightarrow> glob_desc st' = glob_desc st"
  by (auto simp: with_loader_def split: prod.splits)

lemma glob_loader_res: "with_loader_res g st = Inr (x, st') \<Longrightarrow> glob_desc st' = glob_desc st"
  by (auto simp: with_loader_res_def res_simps)

lemma glob_emit [simp]: "glob_desc (emit xs st) = glob_desc st"
  by (simp add: emit_def)

lemma glob_copy: "copy_both st = (x, st') \<Longrightarrow> glob_desc st' = glob_desc st"
  by (auto simp: copy_both_def split: prod.splits if_splits dest!: glob_loader)

lemma glob_base64: "write_event_header_and_base64 ev st = (x, st') \<Longrightarrow> glob_desc st' = glob_desc st"
  by (auto simp: write_event_header_and_base64_def split: prod.splits if_splits dest!: glob_copy)

lemma glob_event:
  assumes "handle_event L opts ev st = Inr (lv, st')"
  shows "glob_desc st' = (case ev_body ev of Format_description_event d \<Rightarrow> Some d | _ \<Rightarrow> glob_desc st)"
proof (cases "ev_body ev")
  case (Create_file_event f db i b)
  with assms show ?thesis
    by (auto simp: handle_event_def handle_create_def res_simps split: if_splits prod.splits option.splits dest!: glob_base64 glob_loader_res)
next
  case (Rows_event k t e)
  with assms show ?thesis
    by (auto simp: handle_event_def handle_rows_def print_base64_event_def Let_def split: if_splits prod.splits dest!: glob_copy)
next
  case (Begin_load_query_event i b)
  with assms show ?thesis by (auto simp: handle_event_def res_simps dest!: glob_loader_res)
qed (use assms in \<open>auto simp: handle_event_def handle_query_def handle_exec_load_def handle_format_def handle_execute_load_query_def
  handle_table_map_def print_base64_event_def Let_def split: prod.splits option.splits if_splits dest!: glob_base64 glob_loader\<close>)

lemma glob_save [simp]: "glob_desc (save_position st) = glob_desc st"
  by (auto simp: save_position_def with_loader_def split: option.splits prod.splits)

lemma glob_at_end: "at_end ev (lv, st) = (rv, st') \<Longrightarrow> glob_desc st' = glob_desc st"
  by (cases lv) (auto simp: at_end_def Let_def split: if_splits)

lemma glob_process:
  assumes "process_event L opts ev pos st = Inr (rv, st')"
  shows "glob_desc st' = glob_desc st \<or> (\<exists>d. ev_body ev = Format_description_event d \<and> glob_desc st' = Some d)"
proof (cases "\<exists>lv s. handle_event L opts ev (if short_form opts then (if is_format ev then st else st\<lparr>start_datetime := 0, offset := 0\<rparr>)
    else emit [At pos] (if is_format ev then st else st\<lparr>start_datetime := 0, offset := 0\<rparr>)) = Inr (lv, s) \<and> (rv, st') = at_end ev (lv, s)")
  case True
  then obtain lv s where s: "handle_event L opts ev (if short_form opts then (if is_format ev then st else st\<lparr>start_datetime := 0, offset := 0\<rparr>)
    else emit [At pos] (if is_format ev then st else st\<lparr>start_datetime := 0, offset := 0\<rparr>)) = Inr (lv, s)" "(rv, st') = at_end ev (lv, s)" by blast
  show ?thesis using glob_event [OF s(1)] glob_at_end [of ev lv s rv st'] s(2) by (auto split: ev_body.splits if_splits)
next
  case False
  then show ?thesis using assms
    by (auto simp: process_event_def Let_def res_simps split: if_splits dest: glob_at_end)
qed

text \<open>An event as the server sends it and as the file holds it: the parsers agree on it, whatever surrounds it in the file. A server sends
  rotate events of its own, with the time 0, which are not in the file.\<close>

definition parses :: "replib \<Rightarrow> byte list \<Rightarrow> log_event \<Rightarrow> bool" where
  "parses L b ev \<longleftrightarrow> (\<forall>d. 3 \<le> binlog_version d \<longrightarrow> read_packet L b d = Some ev
     \<and> (\<forall>pre suf. read_file L (pre @ b @ suf) (length pre) d = Inr (ev, length b)))"

definition logged :: "replib \<Rightarrow> byte list \<times> log_event \<Rightarrow> bool" where
  "logged L e \<longleftrightarrow> parses L (fst e) (snd e) \<and> (case ev_body (snd e) of
       Rotate_event f \<Rightarrow> ev_when (snd e) \<noteq> 0
     | Format_description_event d \<Rightarrow> 3 \<le> binlog_version d
     | _ \<Rightarrow> True)"

definition packet_of :: "byte list \<times> log_event \<Rightarrow> net_packet" where
  "packet_of e = Net (0 # fst e)"

definition end_packet :: net_packet where "end_packet = Net [254]"

definition format_first :: "nat \<Rightarrow> (byte list \<times> log_event) list \<Rightarrow> bool" where
  "format_first pos es \<longleftrightarrow> (case es of [] \<Rightarrow> True
     | e # r \<Rightarrow> (is_format (snd e) \<longrightarrow> pos = 4) \<and> list_all (\<lambda>e. \<not> is_format (snd e)) r)"

definition shown :: "dumped \<Rightarrow> (Exit_status \<times> out list) option res" where
  "shown x = fmap (map_option (\<lambda>(rv, st). (rv, rp_out st))) x"

lemma turn_logged:
  assumes "logged L (b, ev)" "is_format ev \<longrightarrow> pos = 4"
  shows "\<exists>n. remote_turn L opts logname ev (length (0 # b)) pos st
    = fmap (\<lambda>(rv, st). (if rv = OK_CONTINUE then Step (length b) else Finished rv, st)) (process_event L opts ev pos (swap n (npfp st) st))"
proof (cases "\<exists>f. ev_body ev = Rotate_event f")
  case True
  then obtain f where f: "ev_body ev = Rotate_event f" by blast
  show ?thesis using assms f
    by (intro exI [of _ "take (length logname) f"]) (simp add: remote_turn_def logged_def swap_def Let_def cong: if_cong)
next
  case False
  have "swap (current_log_name st) (npfp st) st = st" by (simp add: swap_def)
  then have "remote_turn L opts logname ev (length (0 # b)) pos st
    = fmap (\<lambda>(rv, st). (if rv = OK_CONTINUE then Step (length b) else Finished rv, st)) (process_event L opts ev pos (swap (current_log_name st) (npfp st) st))"
    using False assms(2) by (cases "ev_body ev") (auto simp: remote_turn_def is_format_def BIN_LOG_HEADER_SIZE_def Let_def cong: if_cong)
  then show ?thesis by blast
qed

lemma glob_kept:
  assumes "logged L (b, ev)" "process_event L opts ev pos st = Inr (rv, st')" "glob_desc st = Some d" "3 \<le> binlog_version d"
  shows "\<exists>d'. glob_desc st' = Some d' \<and> 3 \<le> binlog_version d'"
  using glob_process [OF assms(2)] assms(1,3,4) by (auto simp: logged_def)

lemma alike_trans: "alike a b \<Longrightarrow> alike b c \<Longrightarrow> alike a c"
  by (cases a; cases b; cases c) (auto simp: alike_def swap_def)

lemma loops_alike:
  assumes "list_all (logged L) es" "format_first (length pre) es" "alike a b" "glob_desc a = Some d" "3 \<le> binlog_version d"
    "\<And>bs d. read_file L bs (length bs) d = Inl False"
  shows "shown (remote_loop L opts logname (map packet_of es @ [end_packet]) (length pre) b)
    = shown (local_loop (Suc (length es)) L opts \<lparr>src_bytes = pre @ concat (map fst es), src_bad = False\<rparr> (length pre) a)"
  using assms
proof (induction es arbitrary: pre a b d)
  case Nil
  then show ?case using alike_fields [OF Nil(3)] by (simp add: end_packet_def shown_def)
next
  case (Cons e es)
  obtain c ev where e: "e = (c, ev)" by (cases e)
  have lg: "logged L (c, ev)" "list_all (logged L) es" using Cons.prems(1) e by simp_all
  have fm: "is_format ev \<longrightarrow> length pre = 4" "list_all (\<lambda>e. \<not> is_format (snd e)) es"
    using Cons.prems(2) e by (simp_all add: format_first_def)
  have next_: "format_first (length (pre @ c)) es" using fm(2) by (cases es) (simp_all add: format_first_def)
  have "parses L c ev" using lg by (simp add: logged_def)
  with Cons.prems(5) have rd: "read_packet L c d = Some ev"
    "read_file L (pre @ concat (map fst (e # es))) (length pre) d = Inr (ev, length c)"
    by (auto simp: parses_def e)
  have pk: "packet_of (c, ev) = Net (0 # c)" by (simp add: packet_of_def)
  note gb = alike_fields(2) [OF Cons.prems(3)]
  obtain n where t: "remote_turn L opts logname ev (length (0 # c)) (length pre) b
    = fmap (\<lambda>(rv, st). (if rv = OK_CONTINUE then Step (length c) else Finished rv, st))
        (process_event L opts ev (length pre) (swap n (npfp b) b))" using turn_logged [OF lg(1) fm(1)] by blast
  have "alike a (swap n (npfp b) b)" by (rule alike_trans [OF Cons.prems(3)]) simp
  from process_alike [OF this, of L opts ev "length pre"]
  have s: "same_end (process_event L opts ev (length pre) a) (process_event L opts ev (length pre) (swap n (npfp b) b))" .
  show ?case
  proof (cases "process_event L opts ev (length pre) a")
    case (Inl x)
    with s t rd gb Cons.prems(4,5) show ?thesis
      by (auto simp: e pk same_end_def shown_def split: sum.splits)
  next
    case (Inr r)
    obtain rv a' where r: "r = (rv, a')" by (cases r)
    with s Inr obtain b' where b': "process_event L opts ev (length pre) (swap n (npfp b) b) = Inr (rv, b')" "alike a' b'"
      by (auto simp: same_end_def split: sum.splits)
    obtain d' where d': "glob_desc a' = Some d'" "3 \<le> binlog_version d'"
      using glob_kept [OF lg(1) Inr [unfolded r] Cons.prems(4,5)] by blast
    have "shown (remote_loop L opts logname (map packet_of es @ [end_packet]) (length (pre @ c)) b')
      = shown (local_loop (Suc (length es)) L opts \<lparr>src_bytes = (pre @ c) @ concat (map fst es), src_bad = False\<rparr> (length (pre @ c)) a')"
      by (rule Cons.IH [OF lg(2) next_ b'(2) d' Cons.prems(6)])
    with b' t rd gb Cons.prems(4,5) Inr r show ?thesis
      by (cases "rv = OK_CONTINUE") (simp_all add: e pk shown_def alike_fields)
  qed
qed

text \<open>C14. A log that a server sends and the same log in a file are printed alike: the loop over the packets, which begin with the rotate event a
  server makes up, prints the same with the same positions and the same exit status as the loop over the file, on every list of events that
  both parsers read alike. One round of fuel for each event and one for the end are enough.\<close>

theorem remote_as_local:
  assumes "list_all (logged L) es" "format_first 4 es" "glob_desc st = Some d" "3 \<le> binlog_version d"
    and "\<And>bs d. read_file L bs (length bs) d = Inl False"
    and "read_packet L r d = Some rot" "ev_body rot = Rotate_event logname" "ev_when rot = 0" "\<not> to_last_remote_log opts"
  shows "shown (remote_loop L opts logname (Net (0 # r) # map packet_of es @ [end_packet]) 4 st)
    = shown (local_loop (Suc (length es)) L opts \<lparr>src_bytes = binlog_magic @ concat (map fst es), src_bad = False\<rparr> 4 st)"
proof -
  let ?st = "st\<lparr>current_log_name := take (length logname) logname\<rparr>"
  have "remote_turn L opts logname rot (length (0 # r)) 4 st = Inr (Skip, ?st)"
    using assms(7-9) by (simp add: remote_turn_def Let_def)
  then have "remote_loop L opts logname (Net (0 # r) # map packet_of es @ [end_packet]) 4 st
    = remote_loop L opts logname (map packet_of es @ [end_packet]) 4 ?st"
    using assms(3,4,6) by simp
  moreover have "?st = swap (take (length logname) logname) (npfp st) st" by (simp add: swap_def)
  then have "alike st ?st" by simp
  have len: "length binlog_magic = 4" by (simp add: binlog_magic_def)
  have "shown (remote_loop L opts logname (map packet_of es @ [end_packet]) 4 ?st)
    = shown (local_loop (Suc (length es)) L opts \<lparr>src_bytes = binlog_magic @ concat (map fst es), src_bad = False\<rparr> 4 st)"
    using loops_alike [of L es binlog_magic st ?st d opts logname] assms(1-5) \<open>alike st ?st\<close> unfolding len by blast
  ultimately show ?thesis by simp
qed

section \<open>The end of a log\<close>

lemma run_rotate:
  assumes "process_event L opts ev pos st = Inr (rv, st')" "ev_body ev = Rotate_event f"
  shows "glob_desc st' = glob_desc st"
  using glob_process [OF assms(1)] assms(2) by auto

text \<open>C16. The real rotate event at the end of a log names the next log, and its position is the end of the log it stands in. The program takes the
  name over before it saves the position: when a run over one log ends, the file of positions holds the name of the next log with a
  position of the old one.\<close>

theorem rotate_position:
  assumes ev: "read_packet L e d = Some ev" "ev_body ev = Rotate_event next_log" "ev_when ev \<noteq> 0"
    and fake: "read_packet L e' d = Some fake" "ev_body fake = Rotate_event next_log" "ev_when fake = 0"
    and names: "next_log \<noteq> logname" "length next_log = length logname" "LF \<notin> set next_log"
    and st: "glob_desc st = Some d" "3 \<le> binlog_version d" "\<not> to_last_remote_log opts"
    and run: "process_event L opts ev pos (st\<lparr>current_log_name := next_log\<rparr>) = Inr (OK_CONTINUE, st1)" "npfp st1 = Some f"
  shows "\<exists>st'. remote_loop L opts logname (Net (0 # e) # Net (0 # e') # ps) pos st = done_with OK_CONTINUE st'
    \<and> npfp st' = Some f \<and> read_position (np_disk (np_flush f)) = Some (next_log, ev_pos ev)"
proof -
  have g: "glob_desc st1 = Some d" using run_rotate [OF run(1) ev(2)] st(1) by simp
  have "\<not> hands_over opts ev st" using ev(2) by (simp add: hands_over_def)
  with event_saves [OF run(1)] run(2) have "\<exists>D. f = \<lparr>np_disk = D, np_buf = position_text next_log (ev_pos ev)\<rparr>"
    by (auto simp: writes_def split: option.splits)
  then have rd: "read_position (np_disk (np_flush f)) = Some (next_log, ev_pos ev)"
    using read_position_text [OF names(3), of "ev_pos ev"] by (auto simp: np_flush_def)
  have t1: "remote_turn L opts logname ev (length (0 # e)) pos st = Inr (Step (length e), st1)"
    using ev names(2) run(1) by (simp add: remote_turn_def Let_def)
  have t2: "remote_turn L opts logname fake n q st1 = Inr (Finished OK_CONTINUE, st1\<lparr>current_log_name := next_log\<rparr>)" for n q
    using fake names(1,2) st(3) by (simp add: remote_turn_def Let_def)
  have "remote_loop L opts logname (Net (0 # e) # Net (0 # e') # ps) pos st = done_with OK_CONTINUE (st1\<lparr>current_log_name := next_log\<rparr>)"
    using t1 t2 ev(1) fake(1) st(1,2) g by simp
  then show ?thesis using rd run(2) by simp
qed

text \<open>A name that has grown is cut to the length of the name the run was started with.\<close>

lemma rotate_name_cut:
  assumes "ev_body ev = Rotate_event f" "ev_when ev = 0" "\<not> to_last_remote_log opts" "remote_turn L opts logname ev len pos st = Inr (t, st')"
  shows "current_log_name st' = take (length logname) f"
  using assms by (auto simp: remote_turn_def Let_def)

text \<open>The buffer for the dump command has room for 118 characters of the name.\<close>

lemma dump_name_overflow:
  "118 < length logname \<Longrightarrow> length logname < 2 ^ 32 \<Longrightarrow> send_dump opts logname st = Inl Buffer_overflow"
  by (simp add: send_dump_def)

lemma dump_command_length: "length (dump_command start self logname) = 10 + length logname"
  by (simp add: dump_command_def)

section \<open>Reading a file comes to an end\<close>

definition consumes :: "replib \<Rightarrow> byte list \<Rightarrow> bool" where
  "consumes L bs \<longleftrightarrow> (\<forall>pos d ev n. read_file L bs pos d = Inr (ev, n) \<longrightarrow> 0 < n \<and> pos + n \<le> length bs)"

lemma check_returns:
  "consumes L (src_bytes s) \<Longrightarrow> length (src_bytes s) - pos < fuel \<Longrightarrow> probe_loop fuel L opts s pos st \<noteq> Inr None"
proof (induction fuel arbitrary: pos st)
  case (Suc fuel)
  have next_: "probe_loop fuel L opts s (pos + n) st' \<noteq> Inr None" if "read_file L (src_bytes s) pos d = Inr (ev, n)" for ev n st' d
  proof (rule Suc.IH [OF Suc.prems(1)])
    have "0 < n \<and> pos + n \<le> length (src_bytes s)" using that Suc.prems(1) unfolding consumes_def by blast
    then show "length (src_bytes s) - (pos + n) < fuel" using Suc.prems(2) by linarith
  qed
  show ?case
    by (auto simp: Let_def split: option.splits sum.splits prod.splits if_splits ev_body.splits dest: next_)
qed simp

lemma local_returns:
  "consumes L (src_bytes s) \<Longrightarrow> length (src_bytes s) - pos < fuel \<Longrightarrow> local_loop fuel L opts s pos st \<noteq> Inr None"
proof (induction fuel arbitrary: pos st)
  case (Suc fuel)
  have next_: "local_loop fuel L opts s (pos + n) st' \<noteq> Inr None" if "read_file L (src_bytes s) pos d = Inr (ev, n)" for ev n st' d
  proof (rule Suc.IH [OF Suc.prems(1)])
    have "0 < n \<and> pos + n \<le> length (src_bytes s)" using that Suc.prems(1) unfolding consumes_def by blast
    then show "length (src_bytes s) - (pos + n) < fuel" using Suc.prems(2) by linarith
  qed
  show ?case
    by (auto split: option.splits sum.splits prod.splits if_splits dest: next_)
qed simp

lemma events_return: "consumes L (src_bytes s) \<Longrightarrow> length (src_bytes s) < fuel \<Longrightarrow> local_events fuel L opts s pos st \<noteq> Inr None"
  using local_returns [of L s pos fuel opts st] local_returns [of L s "pos + BIN_LOG_HEADER_SIZE" fuel opts st]
  by (auto simp: local_events_def split: option.splits)

text \<open>C19. When the parser takes at least a byte for every event it finds and none behind the end, a file is read to its end or to an error: one unit
  of fuel for each byte and one more are enough for the program to come to an answer.\<close>

theorem local_dump_returns:
  assumes "consumes L (src_bytes s)" "length (src_bytes s) < fuel"
  shows "dump_local_log_entries fuel L opts logname s st \<noteq> Inr None"
proof -
  have "check_header fuel L opts s st' \<noteq> Inr None" for st'
    using check_returns [OF assms(1), of BIN_LOG_HEADER_SIZE fuel] assms(2) by (auto simp: check_header_def Let_def split: option.splits)
  then show ?thesis using events_return [OF assms]
    by (auto simp: dump_local_log_entries_def split: prod.splits sum.splits option.splits if_splits)
qed

section \<open>Options\<close>

text \<open>\<open>get_one_option\<close> is called by MySQL's option parser for each option with its argument. The result is an exit status, or the settings
  and what is left of the argument in the command line. Opening a file, MySQL's parsers of names and dates and the question for the
  password are arguments.\<close>

datatype opt_id = Opt_database | Opt_password | Opt_result_file | Opt_remote | Opt_position | Opt_protocol | Opt_start_datetime
  | Opt_stop_datetime | Opt_base64 | Opt_verbose | Opt_version | Opt_help

datatype opt_arg = No_arg | Disabled_option | Arg string

record opt_env =
  can_open :: "string \<Rightarrow> bool"
  protocol_of :: "string \<Rightarrow> nat option"
  mode_of :: "string \<Rightarrow> base64_mode option"
  time_of :: "string \<Rightarrow> int option"
  tty_password :: string

record replicator_settings =
  set_one_database :: bool
  set_pass :: "string option"
  set_result_file :: "string option"
  set_remote :: bool
  set_protocol :: nat
  set_start :: int
  set_stop :: int
  set_mode :: base64_mode
  set_verbose :: nat

text \<open>\<open>convert_str_to_timestamp\<close> and \<open>find_type_or_exit\<close> end the program when they do not know the text.\<close>

definition or_exit :: "'a option \<Rightarrow> ('a \<Rightarrow> int + 'b) \<Rightarrow> int + 'b" where
  "or_exit x k = (case x of None \<Rightarrow> Inl 1 | Some y \<Rightarrow> k y)"

definition arg_text :: "opt_arg \<Rightarrow> string" where
  "arg_text a = (case a of Arg s \<Rightarrow> s | _ \<Rightarrow> [])"

definition get_one_option :: "opt_env \<Rightarrow> opt_id \<Rightarrow> opt_arg \<Rightarrow> replicator_settings \<Rightarrow> int + replicator_settings \<times> opt_arg" where
  "get_one_option E i a s = (case i of
       Opt_database \<Rightarrow> Inr (s\<lparr>set_one_database := True\<rparr>, a)
     | Opt_password \<Rightarrow> (case a of
           No_arg \<Rightarrow> Inr (s\<lparr>set_pass := Some (tty_password E)\<rparr>, a)
         | Disabled_option \<Rightarrow> Inr (s\<lparr>set_pass := Some []\<rparr>, a)
         | Arg p \<Rightarrow> Inr (s\<lparr>set_pass := Some p\<rparr>, Arg (take 1 (map (\<lambda>_. CHR ''x'') p))))
     | Opt_result_file \<Rightarrow> if can_open E (arg_text a) then Inr (s\<lparr>set_result_file := Some (arg_text a)\<rparr>, a) else Inl 1
     | Opt_remote \<Rightarrow> Inr (s\<lparr>set_remote := True\<rparr>, a)
     | Opt_position \<Rightarrow> Inr (s, a)
     | Opt_protocol \<Rightarrow> or_exit (protocol_of E (arg_text a)) (\<lambda>p. Inr (s\<lparr>set_protocol := p\<rparr>, a))
     | Opt_start_datetime \<Rightarrow> or_exit (time_of E (arg_text a)) (\<lambda>t. Inr (s\<lparr>set_start := t\<rparr>, a))
     | Opt_stop_datetime \<Rightarrow> or_exit (time_of E (arg_text a)) (\<lambda>t. Inr (s\<lparr>set_stop := t\<rparr>, a))
     | Opt_base64 \<Rightarrow> (case a of
           No_arg \<Rightarrow> Inr (s\<lparr>set_mode := BASE64_ALWAYS\<rparr>, a)
         | _ \<Rightarrow> or_exit (mode_of E (arg_text a)) (\<lambda>m. Inr (s\<lparr>set_mode := m\<rparr>, a)))
     | Opt_verbose \<Rightarrow> Inr (s\<lparr>set_verbose := (if a = Disabled_option then 0 else Suc (set_verbose s))\<rparr>, a)
     | Opt_version \<Rightarrow> Inl 0
     | Opt_help \<Rightarrow> Inl 0)"

text \<open>Of a password on the command line, only whether it is empty can be seen afterwards.\<close>

lemma password_hidden:
  assumes "get_one_option E Opt_password (Arg p) s = Inr (s', a)"
  shows "set_pass s' = Some p" "a = Arg (if p = [] then [] else ''x'')"
  using assms by (cases p; auto simp: get_one_option_def)+

section \<open>Examples\<close>

definition fd_bytes :: "byte list" where "fd_bytes = [0, 0, 0, 0, 15, 100, 1, 0, 0, 0, 0, 0, 0]"
definition query_bytes :: "byte list" where "query_bytes = [0, 0, 0, 0, 2, 200, 1, 0, 0, 0, 0, 0, 0]"
definition rotate_bytes :: "byte \<Rightarrow> byte \<Rightarrow> byte list" where "rotate_bytes t n = [0, 0, 0, 0, 4, 250, t, n, 0, 0, 0, 0, 0]"

lemmas bytes0 = fd_bytes_def query_bytes_def rotate_bytes_def event0_def

lemma parses0: "length b = 13 \<Longrightarrow> parses lib0 b (event0 b)"
  by (simp add: parses_def lib0_def)

lemma consumes0: "consumes lib0 bs"
  by (auto simp: consumes_def lib0_def split: if_splits)

lemma remote_as_local_witness:
  "shown (remote_loop lib0 opts0 ''b.1'' (Net (0 # rotate_bytes 0 1) # map packet_of [(fd_bytes, event0 fd_bytes), (query_bytes, event0 query_bytes)]
      @ [end_packet]) 4 rep0)
    = shown (local_loop 3 lib0 opts0 \<lparr>src_bytes = binlog_magic @ fd_bytes @ query_bytes, src_bad = False\<rparr> 4 rep0)"
proof -
  let ?es = "[(fd_bytes, event0 fd_bytes), (query_bytes, event0 query_bytes)]"
  have "list_all (logged lib0) ?es" using parses0 [of fd_bytes] parses0 [of query_bytes]
    by (simp add: logged_def bytes0 desc0_def)
  moreover have "format_first 4 ?es" by (simp add: format_first_def is_format_def bytes0)
  moreover have "glob_desc rep0 = Some desc0" "3 \<le> binlog_version desc0" by (simp_all add: rep0_def desc0_def)
  moreover have "\<And>bs d. read_file lib0 bs (length bs) d = Inl False" by (simp add: lib0_def)
  moreover have "read_packet lib0 (rotate_bytes 0 1) desc0 = Some (event0 (rotate_bytes 0 1))" by (simp add: lib0_def)
  moreover have "ev_body (event0 (rotate_bytes 0 1)) = Rotate_event ''b.1''" "ev_when (event0 (rotate_bytes 0 1)) = 0" by (simp_all add: bytes0)
  moreover have "\<not> to_last_remote_log opts0" by (simp add: opts0_def)
  ultimately have "shown (remote_loop lib0 opts0 ''b.1'' (Net (0 # rotate_bytes 0 1) # map packet_of ?es @ [end_packet]) 4 rep0)
    = shown (local_loop (Suc (length ?es)) lib0 opts0 \<lparr>src_bytes = binlog_magic @ concat (map fst ?es), src_bad = False\<rparr> 4 rep0)"
    by (rule remote_as_local)
  then show ?thesis by (simp add: numeral_eq_Suc del: local_loop.simps remote_loop.simps)
qed

lemma rotate_position_witness:
  "\<exists>st' f. remote_loop lib0 opts0 ''b.1'' [Net (0 # rotate_bytes 1 2), Net (0 # rotate_bytes 0 2)] 4 rep0 = done_with OK_CONTINUE st'
    \<and> npfp st' = Some f \<and> read_position (np_disk (np_flush f)) = Some (''b.2'', 250)"
proof -
  let ?e = "event0 (rotate_bytes 1 2)" and ?f = "event0 (rotate_bytes 0 2)"
  obtain st1 f where run: "process_event lib0 opts0 ?e 4 (rep0\<lparr>current_log_name := ''b.2''\<rparr>) = Inr (OK_CONTINUE, st1)" "npfp st1 = Some f"
    by (simp add: rep_eval bytes0 opts0_def rep0_def loader0_def lib0_def)
  have e: "read_packet lib0 (rotate_bytes 1 2) desc0 = Some ?e" "ev_body ?e = Rotate_event ''b.2''" "ev_when ?e \<noteq> 0"
    "read_packet lib0 (rotate_bytes 0 2) desc0 = Some ?f" "ev_body ?f = Rotate_event ''b.2''" "ev_when ?f = 0" "ev_pos ?e = 250"
    by (simp_all add: lib0_def bytes0)
  have g: "glob_desc rep0 = Some desc0" "3 \<le> binlog_version desc0" "\<not> to_last_remote_log opts0"
    by (simp_all add: rep0_def desc0_def opts0_def)
  have n: "''b.2'' \<noteq> ''b.1''" "length ''b.2'' = length ''b.1''" "LF \<notin> set ''b.2''" by simp_all
  from rotate_position [OF e(1-6) n g run, of "[]"] e(7) show ?thesis by auto
qed

lemma local_dump_returns_witness:
  "dump_local_log_entries 18 lib0 opts0 ''b.1'' \<lparr>src_bytes = binlog_magic @ query_bytes, src_bad = False\<rparr> rep0 \<noteq> Inr None"
  by (rule local_dump_returns) (simp_all add: consumes0 binlog_magic_def query_bytes_def)

end
