(* ===== verification/EchoClient.thy ===== *)
theory EchoClient
  imports EchoServer Anet
begin

section \<open>The test client and the echo server together (redis-server/client.c)\<close>

text \<open>
  \<open>client.c\<close> sends the same frame a million times and reads as many bytes back each time. Its main function is
  modelled over a peer: a function from the bytes of a request to the answers of the client's \<open>read\<close> calls.
  The echo server of theory EchoServer, behind a network that cuts the bytes anywhere, is such a peer, and the
  client comes to its end with every request answered.
\<close>

subsection \<open>The client\<close>

definition client_buf :: "byte list" where
  "client_buf = [14, 0, 0, 0] @ replicate 9 0x31 @ [0]"

definition FRAME :: nat where "FRAME = 14"
definition TURNS :: nat where "TURNS = 1000000"

text \<open>What the peer answers to the bytes written in turn \<open>i\<close>; its state is \<open>'s\<close>.\<close>

type_synonym 's peer = "nat \<Rightarrow> 's \<Rightarrow> byte list \<Rightarrow> (read_result list \<times> 's) res"

text \<open>One turn: the results of \<open>anetWrite\<close> and \<open>anetRead\<close> are not looked at, and what is not read of
  \<open>buf2\<close> stays zero. \<open>None\<close>: a call does not return.\<close>

definition client_turn :: "'s peer \<Rightarrow> write_result list \<Rightarrow> nat \<Rightarrow> 's \<Rightarrow> (byte list \<times> 's) option res" where
  "client_turn peer ws i s =
     (case anetWrite client_buf ws [] of
        None \<Rightarrow> Inr None
      | Some (_, sent, _) \<Rightarrow> fmap (\<lambda>(rs, s1). map_option (\<lambda>(_, got, _). (got @ replicate (FRAME - length got) 0, s1))
          (anetRead FRAME rs [])) (peer i s sent))"

text \<open>The loop, with the contents of \<open>buf2\<close> after each turn and the numbers printed.\<close>

fun client_loop :: "'s peer \<Rightarrow> (nat \<Rightarrow> write_result list) \<Rightarrow> nat \<Rightarrow> nat \<Rightarrow> 's \<Rightarrow> (byte list list \<times> nat list \<times> 's) option res" where
  "client_loop peer ws 0 i s = Inr (Some ([], [], s))"
| "client_loop peer ws (Suc n) i s = fbind (client_turn peer (ws i) i s) (\<lambda>r. case r of
       None \<Rightarrow> Inr None
     | Some (buf2, s1) \<Rightarrow> fmap (map_option (\<lambda>(bs, ps, s2). (buf2 # bs, (if i mod 1000 = 0 then [i] else []) @ ps, s2)))
         (client_loop peer ws n (i + 1) s1))"

text \<open>\<open>Inl\<close> is the exit status when there is no connection.\<close>

definition client_main :: "net_env \<Rightarrow> 's peer \<Rightarrow> (nat \<Rightarrow> write_result list) \<Rightarrow> 's \<Rightarrow> (int + byte list list \<times> nat list \<times> 's) option res" where
  "client_main e peer ws s =
     (case anetTcpConnect e ''127.0.0.1'' \<lparr>nt_open = [], nt_err = None\<rparr> of (fd, _) \<Rightarrow>
        if fd = ANET_ERR then Inr (Some (Inl (- 1)))
        else fmap (map_option Inr) (client_loop peer ws TURNS 0 s))"

subsection \<open>The server as the peer\<close>

text \<open>What happens in one turn: the bytes the client's kernel takes at a time, those the server's reads get, those its
  writes get rid of, and those the client's reads get; \<open>w_now\<close> is the clock.\<close>

record weather =
  w_take :: "nat list"
  w_in :: "nat list"
  w_out :: "nat list"
  w_back :: "nat list"
  w_now :: int

fun pieces :: "nat list \<Rightarrow> 'a list \<Rightarrow> 'a list list" where
  "pieces [] xs = []"
| "pieces (n # ns) xs = take n xs # pieces ns (drop n xs)"

text \<open>\<open>mal\<close> is \<open>malloc\<close> for the nodes of a list.\<close>

definition echo_peer :: "(nat lstate \<Rightarrow> nat) \<Rightarrow> nat \<Rightarrow> (nat \<Rightarrow> weather) \<Rightarrow> eserver peer" where
  "echo_peer mal a w i s sent = fmap
     (\<lambda>s'. (map Read_bytes (pieces (w_back (w i)) (map of_char (drop (length (sv_sent s a)) (sv_sent s' a)))), s'))
     (serve_one (mal (es_newjobs s)) (mal (es_processed s)) (length (es_threads s)) (w_now (w i)) a
       (pieces (w_in (w i)) (map (\<lambda>b. char_of (unat b)) sent)) (w_out (w i)) s)"

definition splits :: "nat list \<Rightarrow> nat \<Rightarrow> bool" where
  "splits ns n \<longleftrightarrow> 0 \<notin> set ns \<and> sum_list ns = n"

text \<open>Everything arrives, in pieces of any size.\<close>

definition fair :: "weather \<Rightarrow> bool" where
  "fair v \<longleftrightarrow> splits (w_take v) FRAME \<and> splits (w_in v) FRAME \<and> splits (w_out v) FRAME \<and> splits (w_back v) FRAME"

subsection \<open>Whole counts\<close>

lemma concat_pieces: "concat (pieces ns xs) = take (sum_list ns) xs"
  by (induction ns arbitrary: xs) (simp_all add: take_add)

lemma pieces_nonempty: "\<lbrakk>0 \<notin> set ns; sum_list ns \<le> length xs\<rbrakk> \<Longrightarrow> [] \<notin> set (pieces ns xs)"
  by (induction ns arbitrary: xs) fastforce+

lemma anetWrite_whole:
  "\<lbrakk>0 \<notin> set ks; sum_list ks = length buf\<rbrakk> \<Longrightarrow> anetWrite buf (map Write_bytes ks) acc = Some (int (length acc + length buf), acc @ buf, [])"
proof (induction ks arbitrary: buf acc)
  case Nil
  then show ?case by (simp add: anetWrite.simps [of "[]"])
next
  case (Cons k ks)
  then have "buf \<noteq> []" "0 < k" "sum_list ks = length (drop k buf)" by auto
  with Cons.IH [of "drop k buf" "acc @ take k buf"] Cons.prems show ?case
    by (simp add: anetWrite.simps [of buf])
qed

lemma anetRead_whole:
  "\<lbrakk>[] \<notin> set ds; length acc + length (concat ds) = n\<rbrakk> \<Longrightarrow> anetRead n (map Read_bytes ds) acc = Some (int n, acc @ concat ds, [])"
proof (induction ds arbitrary: acc)
  case Nil
  then show ?case by (simp add: anetRead.simps [of n])
next
  case (Cons d ds)
  then have "d \<noteq> []" "length acc \<noteq> n" "length d \<le> n - length acc" by auto
  with Cons.IH [of "acc @ d"] Cons.prems show ?case
    by (simp add: anetRead.simps [of n _ acc])
qed

subsection \<open>The heap of the queues\<close>

definition few_cells :: "eserver \<Rightarrow> bool" where
  "few_cells s \<longleftrightarrow> few (es_newjobs s) \<and> few (es_processed s)"

lemma few_keep [simp]: "few_cells (put a c s) = few_cells s" "few_cells (s\<lparr>sv_el := L\<rparr>) = few_cells s"
  "few_cells (s\<lparr>sv_sent := out\<rparr>) = few_cells s" "few_cells (s\<lparr>es_pipe := k\<rparr>) = few_cells s"
  "few_cells (s\<lparr>es_active := n\<rparr>) = few_cells s" "few_cells (set_thread t p s) = few_cells s"
  "few_cells (s\<lparr>es_threads := ts\<rparr>) = few_cells s" "few_cells (s\<lparr>sv_open := os\<rparr>) = few_cells s"
  "few_cells (s\<lparr>sv_heap := h\<rparr>) = few_cells s" "few_cells (s\<lparr>sv_clients := k'\<rparr>) = few_cells s"
  by (simp_all add: few_cells_def set_thread_def)

lemma few_events: "unregister fd m s = Inr s' \<Longrightarrow> few_cells s \<Longrightarrow> few_cells s'" "register ok fd m p d s = Inr (r, s') \<Longrightarrow> few_cells s \<Longrightarrow> few_cells s'"
  by (auto simp: unregister_def register_def res_simps)

lemma few_free: "\<lbrakk>freeClient_e a s = Inr s'; few_cells s\<rbrakk> \<Longrightarrow> few_cells s'"
  by (auto simp: freeClient_e_def res_simps dest!: few_events)

lemma few_reset: "\<lbrakk>resetClient_e ok a s = Inr s'; few_cells s\<rbrakk> \<Longrightarrow> few_cells s'"
  by (auto simp: resetClient_e_def res_simps dest!: few_events)

lemma few_queue: "\<lbrakk>queueIOJob_e mem a s = Inr s'; few_cells s\<rbrakk> \<Longrightarrow> few_cells s'"
  using few_push [of mem a "es_newjobs s"]
  by (auto simp: queueIOJob_e_def res_simps Let_def spawnIOThread_def few_cells_def split: option.splits if_splits)

lemma few_read:
  assumes "readQueryFromClient_e ans now mem a s = Inr s'" "few_cells s"
  shows "few_cells s'"
proof -
  have "few_cells s'" if "processInputBuffer_e mem a s1 = Inr s'" "few_cells s1" for s1
    using that few_free [of a s1 s'] few_queue [of mem a s1 s']
    by (auto simp: processInputBuffer_e_def res_simps split: if_splits)
  then show ?thesis using assms few_free [of a s s']
    by (cases ans) (auto simp: readQueryFromClient_e_def res_simps split: if_splits)
qed

lemma few_send: "\<lbrakk>sendReplyToClient_e ans now ok a s = Inr s'; few_cells s\<rbrakk> \<Longrightarrow> few_cells s'"
  by (cases ans; auto simp: sendReplyToClient_e_def res_simps Let_def split: if_splits; (erule few_free | erule few_reset); simp)

lemma few_turn:
  assumes "completed_turn_e ok s = Inr (Some s')" "few_cells s"
  shows "few_cells s'"
proof -
  have k: "few_cells (s\<lparr>es_pipe := es_pipe s - Suc 0, es_processed := q\<rparr>)"
    if "listPopFirst (es_processed s) = Inr (Some (a, q))" for a q
    using assms(2) few_pop [OF that] by (simp add: few_cells_def)
  show ?thesis using assms(1)
    by (auto simp: completed_turn_e_def res_simps split: if_splits option.splits) (erule few_events(2), erule k)
qed

lemma few_take: "\<lbrakk>thread_take t s = Inr s1; few_cells s\<rbrakk> \<Longrightarrow> few_cells s1"
  using few_pop [of "es_newjobs s"] by (auto simp: thread_take_def res_simps few_cells_def set_thread_def split: option.splits)

lemma few_run: "\<lbrakk>thread_run t a s = Inr s1; few_cells s\<rbrakk> \<Longrightarrow> few_cells s1"
  by (auto simp: thread_run_def res_simps)

lemma few_done: "\<lbrakk>thread_push t mem a s = Inr s1; few_cells s\<rbrakk> \<Longrightarrow> few_cells s1"
  using few_push [of mem a "es_processed s"] by (auto simp: thread_push_def res_simps few_cells_def set_thread_def split: option.splits)

lemma few_tell [simp]: "few_cells (thread_tell t s) = few_cells s"
  by (simp add: thread_tell_def)

lemma few_feed: "\<lbrakk>feed mem now a ds s = Inr s'; few_cells s\<rbrakk> \<Longrightarrow> few_cells s'"
  by (induction ds arbitrary: s) (auto simp: res_simps dest: few_read)

lemma few_drain: "\<lbrakk>drain now a ns s = Inr s'; few_cells s\<rbrakk> \<Longrightarrow> few_cells s'"
  by (induction ns arbitrary: s) (auto simp: res_simps dest: few_send)

lemma few_completed: "\<lbrakk>vmThreadedIOCompletedJob_e oks s = Inr s'; few_cells s\<rbrakk> \<Longrightarrow> few_cells s'"
  by (induction oks arbitrary: s) (auto simp: res_simps dest: few_turn split: option.splits if_splits)

lemma few_entry: "\<lbrakk>IOThreadEntryPoint mems t s = Inr s'; few_cells s\<rbrakk> \<Longrightarrow> few_cells s'"
proof (induction mems t s rule: IOThreadEntryPoint.induct)
  case (2 mem mems t s)
  from 2(2) obtain s1 where s1: "thread_take t s = Inr s1" by (auto simp: res_simps)
  have f: "few_cells s1" by (rule few_take [OF s1 2(3)])
  show ?case
  proof (cases "\<exists>a. es_threads s1 ! t = Holding a")
    case True
    then obtain a where a: "es_threads s1 ! t = Holding a" by blast
    with 2(2) s1 obtain s2 s3 where r: "thread_run t a s1 = Inr s2" "thread_push t mem a s2 = Inr s3"
      "IOThreadEntryPoint mems t (thread_tell t s3) = Inr s'"
      by (auto simp: res_simps)
    have "few_cells (thread_tell t s3)" using few_done [OF r(2) few_run [OF r(1) f]] by simp
    then show ?thesis by (rule 2(1) [OF a r(3)])
  next
    case False
    then show ?thesis using 2(2) s1 f by (auto split: ephase.splits)
  qed
qed simp

lemma few_serve:
  assumes "serve_one m1 m2 t now a cs ns s = Inr s'" "few_cells s"
  shows "few_cells s'"
proof -
  obtain s1 s2 s3 where "feed (Some m1) now a cs s = Inr s1" "IOThreadEntryPoint [Some m2, None] t s1 = Inr s2"
    "vmThreadedIOCompletedJob_e [True, True] s2 = Inr s3" "drain now a ns s3 = Inr s'"
    using assms(1) unfolding serve_one_def fbind_eq_Inr by blast
  then show ?thesis using few_feed few_entry few_completed few_drain assms(2) by meson
qed

subsection \<open>Every request is answered\<close>

definition client_text :: string where
  "client_text = map (\<lambda>b. char_of (unat b)) client_buf"

lemma client_text_frame: "frame client_text"
  by code_simp

lemma client_text_bytes: "map of_char client_text = client_buf" "length client_text = FRAME" "length client_buf = FRAME"
  by code_simp+

lemma concat_more: "concat (replicate n x) @ x = concat (replicate (Suc n) x)"
  by (induction n) simp_all

definition served :: "nat \<Rightarrow> eserver \<Rightarrow> nat \<Rightarrow> eserver \<Rightarrow> bool" where
  "served a s n s' \<longleftrightarrow> (\<exists>c. ready a c s') \<and> es_active s' < es_max_threads s' \<and> few_cells s'
     \<and> sv_sent s' a = sv_sent s a @ concat (replicate n client_text)"

lemma turn_served:
  assumes mal: "\<And>q. few q \<Longrightarrow> ls_cells q (mal q) = None" and w: "fair (w i)" and s: "served a s0 n s"
  shows "\<exists>s'. client_turn (echo_peer mal a w) (map Write_bytes (w_take (w i))) i s = Inr (Some (client_buf, s')) \<and> served a s0 (Suc n) s'"
proof -
  obtain c where c: "ready a c s" "es_active s < es_max_threads s" "few_cells s"
    "sv_sent s a = sv_sent s0 a @ concat (replicate n client_text)" using s by (auto simp: served_def)
  have sp: "0 \<notin> set (w_take (w i))" "sum_list (w_take (w i)) = FRAME" "0 \<notin> set (w_in (w i))" "sum_list (w_in (w i)) = FRAME"
    "0 \<notin> set (w_out (w i))" "sum_list (w_out (w i)) = FRAME" "0 \<notin> set (w_back (w i))" "sum_list (w_back (w i)) = FRAME"
    using w by (simp_all add: fair_def splits_def)
  have sent: "anetWrite client_buf (map Write_bytes (w_take (w i))) [] = Some (int FRAME, client_buf, [])"
    using anetWrite_whole [of "w_take (w i)" client_buf "[]"] sp(1,2) client_text_bytes(3) by simp
  let ?in = "pieces (w_in (w i)) client_text"
  let ?run = "serve_one (mal (es_newjobs s)) (mal (es_processed s)) (length (es_threads s)) (w_now (w i)) a ?in (w_out (w i)) s"
  have "concat ?in = client_text" "[] \<notin> set ?in"
    using sp(3,4) client_text_bytes(2) by (simp_all add: concat_pieces pieces_nonempty)
  moreover have "ls_cells (es_newjobs s) (mal (es_newjobs s)) = None" "ls_cells (es_processed s) (mal (es_processed s)) = None"
    using c(3) mal by (simp_all add: few_cells_def)
  ultimately obtain s' c' where s': "?run = Inr s'" "ready a c' s'" "sv_sent s' a = sv_sent s a @ client_text"
    "es_active s' = es_active s" "es_max_threads s' = es_max_threads s"
    using echo_request [OF c(1) client_text_frame _ _ _ sp(5)] sp(6) client_text_bytes(2) c(2) by metis
  let ?ret = "pieces (w_back (w i)) client_buf"
  have "echo_peer mal a w i s client_buf = Inr (map Read_bytes ?ret, s')"
    using s'(1,3) client_text_bytes(1) unfolding echo_peer_def client_text_def [symmetric] by simp
  moreover have "anetRead FRAME (map Read_bytes ?ret) [] = Some (int FRAME, client_buf, [])"
    using anetRead_whole [of ?ret "[]" FRAME] sp(7,8) client_text_bytes(3) by (simp add: concat_pieces pieces_nonempty)
  ultimately have "client_turn (echo_peer mal a w) (map Write_bytes (w_take (w i))) i s = Inr (Some (client_buf, s'))"
    using sent client_text_bytes(3) by (simp add: client_turn_def)
  moreover have "served a s0 (Suc n) s'"
    using s' c few_serve [OF s'(1) c(3)] by (auto simp: served_def concat_more simp del: replicate_Suc)
  ultimately show ?thesis by blast
qed

lemma loop_served:
  assumes mal: "\<And>q. few q \<Longrightarrow> ls_cells q (mal q) = None" and w: "\<And>i. fair (w i)"
  shows "served a s0 k s \<Longrightarrow> \<exists>s'. client_loop (echo_peer mal a w) (\<lambda>i. map Write_bytes (w_take (w i))) n i s
    = Inr (Some (replicate n client_buf, filter (\<lambda>i. i mod 1000 = 0) [i..<i + n], s')) \<and> served a s0 (k + n) s'"
proof (induction n arbitrary: i k s)
  case (Suc n)
  obtain s1 where s1: "client_turn (echo_peer mal a w) (map Write_bytes (w_take (w i))) i s = Inr (Some (client_buf, s1))"
    "served a s0 (Suc k) s1" using turn_served [where w = w, OF mal w Suc.prems] by blast
  obtain s' where s': "client_loop (echo_peer mal a w) (\<lambda>i. map Write_bytes (w_take (w i))) n (i + 1) s1
    = Inr (Some (replicate n client_buf, filter (\<lambda>i. i mod 1000 = 0) [i + 1..<i + 1 + n], s'))" "served a s0 (Suc k + n) s'"
    using Suc.IH [OF s1(2), of "i + 1"] by blast
  have "[i..<i + Suc n] = i # [i + 1..<i + 1 + n]" by (simp add: upt_conv_Cons)
  with s1(1) s' show ?case by (intro exI [of _ s']) simp
qed simp

text \<open>C26. Every request is answered: a client whose connection the server waits on, whatever the sizes in which the
  kernels take and hand over the bytes, is not blocked in any of its million turns; it reads back the frame it sent every
  time, prints each thousandth turn, and leaves the server ready for the next request.\<close>

theorem client_served:
  assumes "\<And>q. few q \<Longrightarrow> ls_cells q (mal q) = None" "\<And>i. fair (w i)"
    and "ready a c s" "es_active s < es_max_threads s" "few_cells s"
    and "ne_socket e = Some fd" "0 \<le> fd" "ne_aton e" "ne_connect e = Connected"
  shows "\<exists>s' c'. client_main e (echo_peer mal a w) (\<lambda>i. map Write_bytes (w_take (w i))) s
      = Inr (Some (Inr (replicate TURNS client_buf, filter (\<lambda>i. i mod 1000 = 0) [0..<TURNS], s')))
    \<and> ready a c' s' \<and> sv_sent s' a = sv_sent s a @ concat (replicate TURNS client_text)"
proof -
  have "served a s 0 s" using assms(3-5) by (auto simp: served_def)
  from loop_served [where w = w and n = TURNS and i = 0, OF assms(1,2) this] obtain s' where
    s': "client_loop (echo_peer mal a w) (\<lambda>i. map Write_bytes (w_take (w i))) TURNS 0 s
      = Inr (Some (replicate TURNS client_buf, filter (\<lambda>i. i mod 1000 = 0) [0..<TURNS], s'))" "served a s TURNS s'" by auto
  obtain n where "anetTcpConnect e ''127.0.0.1'' \<lparr>nt_open = [], nt_err = None\<rparr> = (fd, n)"
    using assms(6-9) by (simp add: anetTcpConnect_def anetTcpGenericConnect_def connect_rest_def connect_end_def)
  then have "client_main e (echo_peer mal a w) (\<lambda>i. map Write_bytes (w_take (w i))) s
      = Inr (Some (Inr (replicate TURNS client_buf, filter (\<lambda>i. i mod 1000 = 0) [0..<TURNS], s')))"
    using s'(1) assms(7) by (simp add: client_main_def ANET_ERR_def)
  with s'(2) show ?thesis by (auto simp: served_def)
qed

text \<open>The pieces change from turn to turn; \<open>malloc\<close> takes the address behind the highest in use.\<close>

definition demo_weather :: "nat \<Rightarrow> weather" where
  "demo_weather i = (if even i then \<lparr>w_take = [14], w_in = [3, 11], w_out = [1, 13], w_back = [14], w_now = 7\<rparr>
     else \<lparr>w_take = [2, 12], w_in = [1, 1, 12], w_out = [14], w_back = [5, 9], w_now = 8\<rparr>)"

definition demo_env :: net_env where
  "demo_env = \<lparr>ne_socket = Some 3, ne_reuse = True, ne_aton = True, ne_host = True, ne_getfl = True, ne_setfl = True,
    ne_connect = Connected, ne_bind = True, ne_listen = True, ne_strerror = []\<rparr>"

lemma demo_malloc: "few q \<Longrightarrow> ls_cells q (Suc (Max (insert 0 (dom (ls_cells q))))) = None"
proof (rule ccontr)
  assume f: "few q" and "ls_cells q (Suc (Max (insert 0 (dom (ls_cells q))))) \<noteq> None"
  then have "Suc (Max (insert 0 (dom (ls_cells q)))) \<in> insert 0 (dom (ls_cells q))" by blast
  with f have "Suc (Max (insert 0 (dom (ls_cells q)))) \<le> Max (insert 0 (dom (ls_cells q)))"
    by (intro Max_ge) (simp_all add: few_def)
  then show False by simp
qed

theorem client_served_witness:
  "\<exists>s s' c'. sv_sent s 100 = [] \<and> client_main demo_env (echo_peer (\<lambda>q. Suc (Max (insert 0 (dom (ls_cells q))))) 100 demo_weather)
      (\<lambda>i. map Write_bytes (w_take (demo_weather i))) s
      = Inr (Some (Inr (replicate TURNS client_buf, filter (\<lambda>i. i mod 1000 = 0) [0..<TURNS], s')))
    \<and> ready 100 c' s' \<and> sv_sent s' 100 = concat (replicate TURNS client_text)"
proof -
  obtain L where L: "ready 100 (new_client_e 5) (demo_e\<lparr>sv_el := L\<rparr>)" using demo_ready by blast
  let ?s = "demo_e\<lparr>sv_el := L\<rparr>"
  have f: "fair (demo_weather i)" for i by (simp add: fair_def splits_def demo_weather_def FRAME_def)
  have a: "es_active ?s < es_max_threads ?s" "few_cells ?s"
    by (simp_all add: demo_e_def few_cells_def few_def empty_list_def)
  have e: "ne_socket demo_env = Some 3" "(0::int) \<le> 3" "ne_aton demo_env" "ne_connect demo_env = Connected" by (simp_all add: demo_env_def)
  have z: "sv_sent ?s 100 = []" by (simp add: demo_e_def)
  from client_served [where w = demo_weather, OF demo_malloc f L a e] show ?thesis unfolding z append_Nil using z by blast
qed

end
