(* ===== verification/RowTypes.thy ===== *)
theory RowTypes
  imports BinlogRow
begin

section \<open>Types of decoded rows (ebinlog/BinlogRow.h)\<close>

text \<open>
  What a caller of the decoder may rely on for arbitrary bytes, not only for those a server writes: the values of a row
  have the Python type and the size that the column type and its metadata prescribe, and the position stays
  inside the buffer. The typing judgement is a function of its own, so that it can be compared with MySQL's types.
\<close>

subsection \<open>The judgement\<close>

text \<open>Numbers, with their width in bits.\<close>

definition int_bits :: "nat \<Rightarrow> nat option" where
  "int_bits ty = map_of [(MYSQL_TYPE_TINY, 8), (MYSQL_TYPE_SHORT, 16), (MYSQL_TYPE_INT24, 24), (MYSQL_TYPE_LONG, 32),
     (MYSQL_TYPE_TIMESTAMP, 32), (MYSQL_TYPE_LONGLONG, 64)] ty"

definition text_types :: "nat list" where
  "text_types = [MYSQL_TYPE_DATETIME, MYSQL_TYPE_TIME, MYSQL_TYPE_NEWDATE, MYSQL_TYPE_DATE, MYSQL_TYPE_YEAR,
     MYSQL_TYPE_ENUM, MYSQL_TYPE_NEWDECIMAL]"

text \<open>Byte strings, with the longest length: that of the length field, or of the array they are copied through.\<close>

definition max_bytes :: "nat \<Rightarrow> nat \<Rightarrow> nat \<Rightarrow> nat option" where
  "max_bytes ty len meta =
     (if ty = MYSQL_TYPE_SET then Some 32
      else if ty = MYSQL_TYPE_BIT then Some 16
      else if ty = MYSQL_TYPE_BLOB then if 1 \<le> meta \<and> meta \<le> 4 then Some (2 ^ (8 * meta) - 1) else None
      else if ty = MYSQL_TYPE_VARCHAR \<or> ty = MYSQL_TYPE_VAR_STRING then Some (if meta < 256 then 255 else 65535)
      else if ty = MYSQL_TYPE_STRING then Some (if len < 256 then 255 else 65535)
      else None)"

definition in_bits :: "nat \<Rightarrow> int \<Rightarrow> bool" where
  "in_bits n i \<longleftrightarrow> - (2 ^ (n - 1)) \<le> i \<and> i < 2 ^ (n - 1)"

text \<open>\<open>typed_as ty len meta v\<close>: \<open>v\<close> is a value of the column. A column of a type the decoder does not know
  is the number 0; a BLOB with a wrong length field is a text.\<close>

definition typed_as :: "nat \<Rightarrow> nat \<Rightarrow> nat \<Rightarrow> pyval \<Rightarrow> bool" where
  "typed_as ty len meta v \<longleftrightarrow> (case v of
       PInt i \<Rightarrow> (case int_bits ty of Some n \<Rightarrow> in_bits n i
         | None \<Rightarrow> i = 0 \<and> ty \<notin> set text_types \<and> max_bytes ty len meta = None \<and> ty \<noteq> MYSQL_TYPE_BLOB
             \<and> ty \<noteq> MYSQL_TYPE_FLOAT \<and> ty \<noteq> MYSQL_TYPE_DOUBLE)
     | PText t \<Rightarrow> ty \<in> set text_types \<or> ty = MYSQL_TYPE_BLOB \<and> max_bytes ty len meta = None
     | PBytes s \<Rightarrow> (case max_bytes ty len meta of Some n \<Rightarrow> length s \<le> n | None \<Rightarrow> False)
     | PFloat w \<Rightarrow> ty = MYSQL_TYPE_FLOAT
     | PDouble w \<Rightarrow> ty = MYSQL_TYPE_DOUBLE)"

definition typed_item :: "nat \<Rightarrow> nat \<Rightarrow> pyval \<Rightarrow> bool" where
  "typed_item ty meta v = (case string_type ty meta of (ty', len) \<Rightarrow> typed_as ty' len meta v)"

subsection \<open>Numbers\<close>

lemma sint_bits: "in_bits LENGTH('w) (sint (w :: 'w::len word))"
  using sint_greater_eq [of w] sint_less [of w] by (simp add: in_bits_def)

lemma sint24_bits:
  assumes "take_bit 24 w = (w :: 32 word)"
  shows "in_bits 24 (sint (if bit w 23 then w OR 0xFF000000 else w))"
proof -
  let ?i = "signed_take_bit 23 (uint w)"
  have r: "- (2 ^ 23) \<le> ?i" "?i < 2 ^ 23" by (rule signed_take_bit_int_greater_eq_minus_exp, rule signed_take_bit_int_less_exp)
  have e: "take_bit 24 (word_of_int ?i :: 32 word) = w"
  proof (rule bit_word_eqI)
    fix k assume "k < LENGTH(32)"
    then have k: "k < 32" by simp
    have "bit (word_of_int ?i :: 32 word) k \<longleftrightarrow> bit (uint w) k" if "k < 24"
      using that by (cases "k = 23") (auto simp: bit_word_of_int_iff bit_signed_take_bit_iff min_def)
    moreover have "bit w k \<longleftrightarrow> k < 24 \<and> bit w k" using assms by (metis bit_take_bit_iff)
    ultimately show "bit (take_bit 24 (word_of_int ?i :: 32 word)) k \<longleftrightarrow> bit w k"
      using k by (auto simp: bit_take_bit_iff bit_uint_iff)
  qed
  have "sint (if bit w 23 then w OR 0xFF000000 else w) = ?i" using sint24 [OF r] unfolding e .
  then show ?thesis using r unfolding in_bits_def by simp
qed

lemma le_word_short: "length bs \<le> n \<Longrightarrow> take_bit (8 * n) (le_word bs :: 'w::len word) = le_word bs"
  by (rule bit_word_eqI) (auto simp: bit_take_bit_iff bit_le_word)

lemma rd_inside: "rd n b p = Inr w \<Longrightarrow> p + n \<le> length b"
  by (simp add: rd_def split: if_splits)

lemma sints_typed:
  "sint1 b p = Inr i \<Longrightarrow> in_bits 8 i \<and> p + 1 \<le> length b" "sint2korr b p = Inr i \<Longrightarrow> in_bits 16 i \<and> p + 2 \<le> length b"
  "sint3korr b p = Inr i \<Longrightarrow> in_bits 24 i \<and> p + 3 \<le> length b" "sint4korr b p = Inr i \<Longrightarrow> in_bits 32 i \<and> p + 4 \<le> length b"
  "sint8korr b p = Inr i \<Longrightarrow> in_bits 64 i \<and> p + 8 \<le> length b"
proof -
  show "sint1 b p = Inr i \<Longrightarrow> in_bits 8 i \<and> p + 1 \<le> length b"
    using sint_bits [where 'w = 8] by (auto simp: sint1_def res_simps dest: rd_inside)
  show "sint2korr b p = Inr i \<Longrightarrow> in_bits 16 i \<and> p + 2 \<le> length b"
    using sint_bits [where 'w = 16] by (auto simp: sint2korr_def res_simps dest: rd_inside)
  show "sint4korr b p = Inr i \<Longrightarrow> in_bits 32 i \<and> p + 4 \<le> length b"
    using sint_bits [where 'w = 32] by (auto simp: sint4korr_def res_simps dest: rd_inside)
  show "sint8korr b p = Inr i \<Longrightarrow> in_bits 64 i \<and> p + 8 \<le> length b"
    using sint_bits [where 'w = 64] by (auto simp: sint8korr_def res_simps dest: rd_inside)
  assume "sint3korr b p = Inr i"
  then obtain w where w: "rd 3 b p = Inr (w :: 32 word)" "i = sint (if bit w 23 then w OR 0xFF000000 else w)"
    by (auto simp: sint3korr_def res_simps)
  then have "take_bit 24 w = w" using le_word_short [of "take 3 (drop p b)" 3, where 'w = 32]
    by (auto simp: rd_def split: if_splits)
  with w sint24_bits show "in_bits 24 i \<and> p + 3 \<le> length b" by (auto dest: rd_inside)
qed

lemma uints_typed:
  "uint1 b p = Inr i \<Longrightarrow> i < 2 ^ 8 \<and> p + 1 \<le> length b" "uint2korr b p = Inr i \<Longrightarrow> i < 2 ^ 16 \<and> p + 2 \<le> length b"
  "uint3korr b p = Inr i \<Longrightarrow> i < 2 ^ 24 \<and> p + 3 \<le> length b" "uint4korr b p = Inr i \<Longrightarrow> i < 2 ^ 32 \<and> p + 4 \<le> length b"
  "uint8korr b p = Inr i \<Longrightarrow> i < 2 ^ 64 \<and> p + 8 \<le> length b"
proof -
  show "uint1 b p = Inr i \<Longrightarrow> i < 2 ^ 8 \<and> p + 1 \<le> length b"
    using unsigned_less [where 'b = 8 and 'a = nat] by (auto simp: uint1_def res_simps dest: rd_inside)
  show "uint2korr b p = Inr i \<Longrightarrow> i < 2 ^ 16 \<and> p + 2 \<le> length b"
    using unsigned_less [where 'b = 16 and 'a = nat] by (auto simp: uint2korr_def res_simps dest: rd_inside)
  show "uint4korr b p = Inr i \<Longrightarrow> i < 2 ^ 32 \<and> p + 4 \<le> length b"
    using unsigned_less [where 'b = 32 and 'a = nat] by (auto simp: uint4korr_def res_simps dest: rd_inside)
  show "uint8korr b p = Inr i \<Longrightarrow> i < 2 ^ 64 \<and> p + 8 \<le> length b"
    using unsigned_less [where 'b = 64 and 'a = nat] by (auto simp: uint8korr_def res_simps dest: rd_inside)
  assume "uint3korr b p = Inr i"
  then obtain w where w: "rd 3 b p = Inr (w :: 32 word)" "i = unat w" by (auto simp: uint3korr_def res_simps)
  then have "take_bit 24 w = w" using le_word_short [of "take 3 (drop p b)" 3, where 'w = 32]
    by (auto simp: rd_def split: if_splits)
  then have "unat w = take_bit 24 (unat w)" by (metis unsigned_take_bit_eq)
  then show "i < 2 ^ 24 \<and> p + 3 \<le> length b" using w take_bit_nat_less_exp [of 24 "unat w"] by (auto dest: rd_inside)
qed

subsection \<open>Values\<close>

lemma py_bytes_typed: "py_bytes b p n = Inr v \<Longrightarrow> \<exists>s. v = PBytes s \<and> length s = n \<and> p + n \<le> length b"
  by (auto simp: py_bytes_def split: if_splits)

lemma counted_typed:
  assumes "counted b p n len = Inr (v, k)"
  shows "\<exists>l s. len = Inr l \<and> v = PBytes s \<and> length s = l \<and> p + k \<le> length b"
proof -
  obtain l where l: "len = Inr l" "py_bytes b (p + n) l = Inr v" "k = (n + l) mod 2 ^ 32"
    using assms by (auto simp: counted_def res_simps)
  have "k \<le> n + l" unfolding l(3) by (rule mod_less_eq_dividend)
  with l py_bytes_typed [OF l(2)] show ?thesis by auto
qed

lemma typed_simps [simp]:
  "typed_as ty len meta (PBytes s) \<longleftrightarrow> (case max_bytes ty len meta of Some n \<Rightarrow> length s \<le> n | None \<Rightarrow> False)"
  "typed_as ty len meta (PText t) \<longleftrightarrow> ty \<in> set text_types \<or> ty = MYSQL_TYPE_BLOB \<and> max_bytes ty len meta = None"
  "typed_as ty len meta (PFloat w) \<longleftrightarrow> ty = MYSQL_TYPE_FLOAT" "typed_as ty len meta (PDouble d) \<longleftrightarrow> ty = MYSQL_TYPE_DOUBLE"
  by (simp_all add: typed_as_def)

lemma blob_typed:
  assumes "1 \<le> meta" "meta \<le> 4" "l < 2 ^ (8 * meta)" "length s = l"
  shows "typed_as MYSQL_TYPE_BLOB len meta (PBytes s)"
  using assms by (simp add: max_bytes_def mysql_types)

lemma bytes_typed:
  assumes "decode_bytes_item b p ty len meta = Inr (v, k)" "ty \<notin> set text_types \<or> ty = MYSQL_TYPE_NEWDECIMAL" "int_bits ty = None" "p \<le> length b"
  shows "typed_as ty len meta v \<and> p + k \<le> length b"
proof -
  note d = assms(1) [unfolded decode_bytes_item_def]
  consider "ty = MYSQL_TYPE_SET" | "ty = MYSQL_TYPE_BLOB" | "ty = MYSQL_TYPE_VARCHAR \<or> ty = MYSQL_TYPE_VAR_STRING" | "ty = MYSQL_TYPE_STRING"
    | "ty = MYSQL_TYPE_BIT" | "ty = MYSQL_TYPE_FLOAT" | "ty = MYSQL_TYPE_DOUBLE" | "ty = MYSQL_TYPE_NEWDECIMAL"
    | "ty \<notin> {MYSQL_TYPE_SET, MYSQL_TYPE_BLOB, MYSQL_TYPE_VARCHAR, MYSQL_TYPE_VAR_STRING, MYSQL_TYPE_STRING, MYSQL_TYPE_BIT,
        MYSQL_TYPE_FLOAT, MYSQL_TYPE_DOUBLE, MYSQL_TYPE_NEWDECIMAL}" by blast
  then show ?thesis
  proof cases
    case 1
    with d show ?thesis by (auto simp: max_bytes_def mysql_types res_simps split: if_splits dest!: py_bytes_typed)
  next
    case 2
    consider "meta = 1" | "meta = 2" | "meta = 3" | "meta = 4" | "meta \<notin> {1, 2, 3, 4}" by blast
    then show ?thesis
    proof cases
      case 5
      with d 2 assms(4) show ?thesis by (auto simp: max_bytes_def mysql_types)
    qed (use d 2 in \<open>auto simp: max_bytes_def mysql_types dest!: counted_typed uints_typed\<close>)
  next
    case 3
    with d show ?thesis by (auto simp: max_bytes_def mysql_types split: if_splits dest!: counted_typed uints_typed)
  next
    case 4
    with d show ?thesis by (auto simp: max_bytes_def mysql_types split: if_splits dest!: counted_typed uints_typed)
  next
    case 5
    with d show ?thesis by (auto simp: max_bytes_def mysql_types res_simps Let_def split: if_splits dest!: py_bytes_typed)
  next
    case 6
    with d show ?thesis by (auto simp: mysql_types res_simps dest!: rd_inside)
  next
    case 7
    with d show ?thesis by (auto simp: mysql_types res_simps dest!: rd_inside)
  next
    case 8
    with d assms(4) show ?thesis by (auto simp: text_types_def mysql_types res_simps)
  next
    case 9
    with d assms show ?thesis by (auto simp: typed_as_def max_bytes_def mysql_types text_types_def)
  qed
qed

lemma item_typed:
  assumes "decodeRowImageItem b p ty0 meta = Inr (v, k)" "p \<le> length b"
  shows "typed_item ty0 meta v \<and> p + k \<le> length b"
proof -
  obtain ty len where st: "string_type ty0 meta = (ty, len)" by (cases "string_type ty0 meta")
  note d = assms(1) [unfolded decodeRowImageItem_def st prod.case]
  have "typed_as ty len meta v \<and> p + k \<le> length b"
  proof (cases "int_bits ty = None")
    case False
    then have "ty \<in> {MYSQL_TYPE_TINY, MYSQL_TYPE_SHORT, MYSQL_TYPE_INT24, MYSQL_TYPE_LONG, MYSQL_TYPE_TIMESTAMP, MYSQL_TYPE_LONGLONG}"
      by (auto simp: int_bits_def split: if_splits)
    with d show ?thesis
      by (auto simp: typed_as_def int_bits_def mysql_types res_simps dest!: sints_typed)
  next
    case True
    show ?thesis
    proof (cases "ty \<in> set text_types \<and> ty \<noteq> MYSQL_TYPE_NEWDECIMAL")
      case t: True
      then have "ty \<in> {MYSQL_TYPE_DATETIME, MYSQL_TYPE_TIME, MYSQL_TYPE_NEWDATE, MYSQL_TYPE_DATE, MYSQL_TYPE_YEAR, MYSQL_TYPE_ENUM}"
        by (auto simp: text_types_def)
      with d assms(2) show ?thesis
        by (auto simp: text_types_def mysql_types res_simps split: if_splits dest!: sints_typed uints_typed)
    next
      case False
      with True d have "decode_bytes_item b p ty len meta = Inr (v, k)"
        by (auto simp: int_bits_def text_types_def mysql_types split: if_splits)
      from bytes_typed [OF this _ True assms(2)] False show ?thesis by blast
    qed
  qed
  then show ?thesis by (simp add: typed_item_def st)
qed

subsection \<open>Rows\<close>

definition null_bit :: "byte list \<Rightarrow> nat \<Rightarrow> nat \<Rightarrow> bool" where
  "null_bit b bm i = (case uint1 b (bm + i div 8) of Inl e \<Rightarrow> False | Inr w \<Rightarrow> bit w (i mod 8))"

definition typed_col :: "tablemap \<Rightarrow> byte list \<Rightarrow> nat \<Rightarrow> nat \<Rightarrow> pyval \<Rightarrow> bool" where
  "typed_col tm b bm i v \<longleftrightarrow> (if null_bit b bm i then v = PInt 0 else i < length (tm_type tm) \<and> i < length (tm_meta tm)
     \<and> typed_item (tm_type tm ! i) (tm_meta tm ! i) v)"

lemma cols_bitmap: "decode_cols n i tm b bm p = Inr r \<Longrightarrow> j < n \<Longrightarrow> bm + (i + j) div 8 < length b"
proof (induction n arbitrary: i j p r)
  case (Suc n)
  from Suc.prems(1) obtain w where w: "uint1 b (bm + i div 8) = Inr w" by (auto simp: res_simps)
  show ?case
  proof (cases j)
    case 0
    then show ?thesis using uints_typed(1) [OF w] by simp
  next
    case (Suc j')
    obtain p' r' where "decode_cols n (i + 1) tm b bm p' = Inr r'"
      using Suc.prems(1) by (auto simp: res_simps split: if_splits)
    from Suc.IH [OF this, of j'] show ?thesis using Suc.prems(2) Suc by simp
  qed
qed simp

lemma cols_typed:
  "\<lbrakk>decode_cols n i tm b bm p = Inr (vs, q); p \<le> length b\<rbrakk> \<Longrightarrow>
    length vs = n \<and> p \<le> q \<and> q \<le> length b \<and> (\<forall>j<n. typed_col tm b bm (i + j) (vs ! j))"
proof (induction n arbitrary: i p vs)
  case (Suc n)
  from Suc.prems(1) obtain w where w: "uint1 b (bm + i div 8) = Inr w" by (auto simp: res_simps)
  have nb: "null_bit b bm i \<longleftrightarrow> bit w (i mod 8)" by (simp add: null_bit_def w)
  obtain v k us where v: "vs = v # us" "decode_cols n (i + 1) tm b bm (p + k) = Inr (us, q)"
    "typed_col tm b bm i v" "p + k \<le> length b"
  proof (cases "bit w (i mod 8)")
    case True
    then show ?thesis using Suc.prems w nb that [of "PInt 0" _ 0] by (auto simp: res_simps typed_col_def)
  next
    case False
    with Suc.prems(1) w obtain ty meta u k us where u: "fetch (tm_type tm) i = Inr ty" "fetch (tm_meta tm) i = Inr meta"
      "decodeRowImageItem b p ty meta = Inr (u, k)" "decode_cols n (i + 1) tm b bm (p + k) = Inr (us, q)" "vs = u # us"
      by (auto simp: res_simps)
    have "typed_col tm b bm i u" using item_typed [OF u(3) Suc.prems(2)] u(1,2) nb False
      by (auto simp: typed_col_def fetch_def split: if_splits)
    then show ?thesis using that [OF u(5,4)] item_typed [OF u(3) Suc.prems(2)] by blast
  qed
  from Suc.IH [OF v(2,4)] have IH: "length us = n" "p + k \<le> q" "q \<le> length b" "\<forall>j<n. typed_col tm b bm (i + 1 + j) (us ! j)" by blast+
  have "typed_col tm b bm (i + j) (vs ! j)" if "j < Suc n" for j
    using that v(1,3) IH(4) by (cases j) auto
  with IH v(1) show ?case by simp
qed simp

text \<open>C31. Whatever bytes the decoder gets: when it returns a row, the row has one value for each column of the table map;
  the value of a column whose null bit is set is 0, and any other has the Python type of the column, a number in
  the range of its width and a byte string no longer than its length field allows; and the position it returns lies
  behind the bitmap and inside the buffer.\<close>

theorem row_typed:
  assumes "decodeOneRow tm b p = Inr (vs, q)" "0 < tm_ncols tm"
  shows "length vs = tm_ncols tm \<and> p + getBitmapSize tm \<le> q \<and> q \<le> length b
    \<and> (\<forall>j<tm_ncols tm. if null_bit b p j then vs ! j = PInt 0
        else typed_item (tm_type tm ! j) (tm_meta tm ! j) (vs ! j))"
proof -
  note d = assms(1) [unfolded decodeOneRow_def]
  have "p + (0 + (tm_ncols tm - 1)) div 8 < length b" using assms(2) by (intro cols_bitmap [OF d]) simp
  moreover have "getBitmapSize tm = Suc ((tm_ncols tm - 1) div 8)" 
    using assms(2) div_add_self2 [of 8 "tm_ncols tm - 1"] by (cases "tm_ncols tm") (simp_all add: getBitmapSize_def)
  ultimately have "p + getBitmapSize tm \<le> length b" by simp
  note t = cols_typed [OF d this]
  have "if null_bit b p j then vs ! j = PInt 0 else typed_item (tm_type tm ! j) (tm_meta tm ! j) (vs ! j)"
    if "j < tm_ncols tm" for j
  proof -
    have "typed_col tm b p j (vs ! j)" using t that by simp
    then show ?thesis by (cases "null_bit b p j") (simp_all add: typed_col_def)
  qed
  with t show ?thesis by blast
qed

definition three_cols :: tablemap where
  "three_cols = \<lparr>tm_id = 1, tm_ncols = 3, tm_meta = [0, 10, 0], tm_type = [1, 15, 3], tm_null = [True, True, True], tm_table = [], tm_db = []\<rparr>"

theorem row_typed_witness:
  "decodeOneRow three_cols [7, 4, 0xFF, 2, 104, 105] 1 = Inr ([PInt (- 1), PBytes [104, 105], PInt 0], 6)
   \<and> typed_item 1 0 (PInt (- 1)) \<and> typed_item 15 10 (PBytes [104, 105]) \<and> null_bit [7, 4, 0xFF, 2, 104, 105] 1 2"
proof -
  let ?b = "[7, 4, 0xFF, 2, 104, 105] :: byte list" and ?cs = "[Tiny, Varchar 10, Long]"
    and ?vs = "[Some (Num (- 1)), Some (Bytes [104, 105]), None]"
  have b: "[7] @ enc_row ?cs ?vs @ [] = ?b"
    by (simp add: enc_row_def null_bitmap_def upt_rec [of 0] Option.is_none_def)
  have "decodeOneRow three_cols ([7] @ enc_row ?cs ?vs @ []) (length [7 :: byte]) = Inr (map py_opt ?vs, length [7 :: byte] + length (enc_row ?cs ?vs))"
    by (rule decodeOneRow_ok) (simp_all add: row_fits_def table_has_def three_cols_def fetch_def All_less_Suc2 numeral_3_eq_3)
  moreover have "length (enc_row ?cs ?vs) = 5" using arg_cong [OF b, of length] by simp
  ultimately have d: "decodeOneRow three_cols ?b 1 = Inr ([PInt (- 1), PBytes [104, 105], PInt 0], 6)"
    unfolding b by (simp add: py_opt_def)
  have n: "\<not> null_bit ?b 1 0" "\<not> null_bit ?b 1 1" "null_bit ?b 1 2"
    by (simp_all add: null_bit_def rd_byte bit_0)
  have "0 < tm_ncols three_cols" by (simp add: three_cols_def)
  from row_typed [OF d this] have t: "\<forall>j<3. if null_bit ?b 1 j then [PInt (- 1), PBytes [104, 105], PInt 0] ! j = PInt 0
      else typed_item ([1, 15, 3] ! j) ([0, 10, 0] ! j) ([PInt (- 1), PBytes [104, 105], PInt 0] ! j)"
    unfolding three_cols_def tablemap.simps by blast
  have "typed_item 1 0 (PInt (- 1))" using spec [OF t, of 0] n(1) by simp
  moreover have "typed_item 15 10 (PBytes [104, 105])" using spec [OF t, of 1] n(2) by simp
  ultimately show ?thesis using d n(3) by blast
qed

end
