(* ===== verification/ProxyProgress.thy ===== *)
theory ProxyProgress
  imports ProxyServer
begin

section \<open>Every request is answered (redis-proxy/redis.c)\<close>

text \<open>
  The steps of theory ProxyServer that work on requests already received: a worker takes, runs, hands over, wakes the
  main thread; the main thread reads a byte of the pipe and writes a piece of a reply. In whatever order they
  happen, there is no infinite run of them, and where none is possible every client waits for its next request, with
  exactly the reply it was owed. So no interleaving deadlocks or forgets a client.
\<close>

subsection \<open>Work\<close>

inductive work :: "server \<Rightarrow> server \<Rightarrow> bool" where
  take_work: "\<lbrakk>t < length (sv_workers s); fst (sv_workers s ! t) = Waiting; l_len (ls_list (sv_newjobs s)) \<noteq> 0;
      worker_take t s = Inr s'\<rbrakk> \<Longrightarrow> work s s'"
| run_work: "\<lbrakk>t < length (sv_workers s); fst (sv_workers s ! t) = Working a; worker_run t as a s = Inr (Done s')\<rbrakk> \<Longrightarrow> work s s'"
| push_work: "\<lbrakk>t < length (sv_workers s); fst (sv_workers s ! t) = Finished a; ls_cells (sv_processed s) b = None;
      worker_push t (Some b) a s = Inr s'\<rbrakk> \<Longrightarrow> work s s'"
| signal_work: "\<lbrakk>t < length (sv_workers s); fst (sv_workers s ! t) = Signalling\<rbrakk> \<Longrightarrow> work s (worker_signal t s)"
| pipe_work: "\<lbrakk>registered (sv_el s) CompletedJob fd msk; 0 < sv_pipe s; completed_turn True s = Inr (Some s')\<rbrakk> \<Longrightarrow> work s s'"
| send_work: "\<lbrakk>registered (sv_el s) SendReplyToClient fd msk; fe_clientData (el_events (sv_el s) fd) = Some a;
      sv_heap s a = Some c; int n \<le> cl_wlen c - cl_wpos c; 0 < n \<or> cl_wlen c = cl_wpos c;
      sendReplyToClient (Wr_bytes n) now True a s = Inr s'\<rbrakk> \<Longrightarrow> work s s'"

lemma work_sstep: "work s s' \<Longrightarrow> sstep s s'"
proof (induction rule: work.induct)
  case (take_work t s s')
  then show ?case by (intro sstep.take_job)
next
  case (run_work t s a as s')
  then show ?case by (intro sstep.run_job)
next
  case (push_work t s a b s')
  then show ?case by (intro sstep.push_job)
next
  case (signal_work t s)
  then show ?case by (intro sstep.signal)
next
  case (pipe_work s fd msk s')
  then show ?case by (intro sstep.handler [of s CompletedJob fd msk "An_pipe True"]) (simp_all add: run_handler_def)
next
  case (send_work s fd msk a c n now s')
  then show ?case
    by (intro sstep.handler [of s SendReplyToClient fd msk "An_write (Wr_bytes n) now True"]) (simp_all add: run_handler_def)
qed

text \<open>A client waits for a request; the bytes of its reply that are out.\<close>

definition reading :: "server \<Rightarrow> nat \<Rightarrow> bool" where
  "reading s a \<longleftrightarrow> (\<exists>c. sv_heap s a = Some c \<and> mask_of (sv_el s) (cl_fd c) = AE_READABLE)"

definition part :: "redisClient \<Rightarrow> string" where
  "part c = take (nat (cl_wpos c)) (case cl_wbuf c of None \<Rightarrow> [] | Some b \<Rightarrow> b)"

definition out_part :: "server \<Rightarrow> nat \<Rightarrow> string" where
  "out_part s a = (case sv_heap s a of None \<Rightarrow> [] | Some c \<Rightarrow> part c)"

text \<open>From \<open>s\<close> to \<open>s'\<close> the client \<open>a\<close> got nothing while it waits, and otherwise a piece of its reply, the rest of it
  if it then waits.\<close>

definition advances :: "server \<Rightarrow> server \<Rightarrow> nat \<Rightarrow> bool" where
  "advances s s' a \<longleftrightarrow> (\<exists>x. sv_sent s' a = sv_sent s a @ x
     \<and> (if reading s a then reading s' a \<and> x = []
        else if reading s' a then is_reply (out_part s a @ x)
        else out_part s' a = out_part s a @ x))"

lemma advances_refl: "advances s s a"
  by (simp add: advances_def)

lemma advances_trans:
  assumes "advances s t a" "advances t u a"
  shows "advances s u a"
proof -
  obtain x where x: "sv_sent t a = sv_sent s a @ x" "reading s a \<Longrightarrow> reading t a \<and> x = []"
    "\<not> reading s a \<Longrightarrow> if reading t a then is_reply (out_part s a @ x) else out_part t a = out_part s a @ x"
    using assms(1) unfolding advances_def by (metis (full_types))
  obtain y where y: "sv_sent u a = sv_sent t a @ y" "reading t a \<Longrightarrow> reading u a \<and> y = []"
    "\<not> reading t a \<Longrightarrow> if reading u a then is_reply (out_part t a @ y) else out_part u a = out_part t a @ y"
    using assms(2) unfolding advances_def by (metis (full_types))
  show ?thesis
    unfolding advances_def using x y by (intro exI [of _ "x @ y"]) (auto split: if_splits)
qed

lemma advances_same:
  assumes "sv_heap s' a = sv_heap s a" "sv_sent s' a = sv_sent s a"
    and "\<And>c. sv_heap s a = Some c \<Longrightarrow> mask_of (sv_el s') (cl_fd c) = AE_READABLE \<longleftrightarrow> mask_of (sv_el s) (cl_fd c) = AE_READABLE"
  shows "advances s s' a"
proof -
  have "reading s' a = reading s a" using assms(1,3) by (auto simp: reading_def)
  moreover have "out_part s' a = out_part s a" using assms(1) by (simp add: out_part_def)
  ultimately show ?thesis using assms(2) by (simp add: advances_def)
qed

text \<open>The other clients, when one changes.\<close>

lemma advances_other:
  assumes inv: "px_inv lfd pfd st s" and a: "sv_heap s a = Some c" and b: "b \<noteq> a"
    and s': "sv_heap s' b = sv_heap s b" "sv_sent s' b = sv_sent s b"
    and ev: "\<And>g. g \<noteq> cl_fd c \<Longrightarrow> el_events (sv_el s') g = el_events (sv_el s) g"
  shows "advances s s' b"
proof (rule advances_same [OF s'])
  fix d assume "sv_heap s b = Some d"
  then have "cl_fd d \<noteq> cl_fd c" using px.cli_other [OF inv a _, of b d] b by auto
  then show "mask_of (sv_el s') (cl_fd d) = AE_READABLE \<longleftrightarrow> mask_of (sv_el s) (cl_fd d) = AE_READABLE" using ev by simp
qed

lemma reading_mask: "sv_heap s a = Some c \<Longrightarrow> reading s a \<longleftrightarrow> mask_of (sv_el s) (cl_fd c) = AE_READABLE"
  by (simp add: reading_def)

subsection \<open>What a step of work does\<close>

lemma take_effect:
  assumes "worker_take t s = Inr s'" "l_len (ls_list (sv_newjobs s)) \<noteq> 0"
  shows "\<exists>a q. listPopFirst (sv_newjobs s) = Inr (Some (a, q)) \<and> s' = set_worker t (Working a, snd (sv_workers s ! t)) (s\<lparr>sv_newjobs := q\<rparr>)"
  using assms by (auto simp: worker_take_def res_simps listPopFirst_def split: option.splits)

lemma run_effect:
  assumes "worker_run t as a s = Inr (Done s')"
  shows "\<exists>c c' m. sv_heap s a = Some c \<and> same_request c c' \<and> whole_reply c' \<and> s' = set_worker t (Finished a, m) (put a c' s)"
proof -
  obtain c x where x: "client_at a s = Inr c" "redisCommandProc as c (snd (sv_workers s ! t)) = Inr x"
    using assms by (auto simp: worker_run_def res_simps)
  from assms x obtain c' m where d: "x = Done (c', m)" "s' = set_worker t (Finished a, m) (put a c' s)"
    by (cases x) (auto simp: worker_run_def)
  have "sv_heap s a = Some c" using x(1) by (simp add: client_at_def split: option.splits)
  then show ?thesis using command_outcome [OF x(2) [unfolded d(1)]] d(2) by blast
qed

lemma push_effect:
  assumes "worker_push t (Some b) a s = Inr s'"
  shows "\<exists>q. listAddNodeTail (Some b) a (sv_processed s) = Inr (Some q) \<and> s' = set_worker t (Signalling, snd (sv_workers s ! t)) (s\<lparr>sv_processed := q\<rparr>)"
  using assms by (auto simp: worker_push_def listAddNodeTail_def Let_def res_simps split: if_splits)

lemma pipe_effect:
  assumes "px_inv lfd pfd st s" "job_inv st s" "0 < sv_pipe s" "completed_turn True s = Inr (Some s')"
  shows "\<exists>a c q L. listPopFirst (sv_processed s) = Inr (Some (a, q)) \<and> sv_heap s a = Some c \<and> mask_of (sv_el s) (cl_fd c) = 0
    \<and> s' = s\<lparr>sv_pipe := sv_pipe s - 1, sv_processed := q, sv_el := L\<rparr> \<and> mask_of L (cl_fd c) = AE_WRITABLE
    \<and> (\<forall>g. g \<noteq> cl_fd c \<longrightarrow> el_events L g = el_events (sv_el s) g)"
proof -
  obtain a q c where q: "listPopFirst (sv_processed s) = Inr (Some (a, q))" "sv_heap s a = Some c"
    using assms(3,4) by (auto simp: completed_turn_def client_at_def res_simps split: option.splits)
  obtain ps where ps: "queue_of st Processed (sv_processed s) ps" "sv_pipe s + card {t. wk s t = Some Signalling} = length ps"
    using assms(2) by (auto simp: job_inv_def)
  have sa: "st a = Some Processed"
  proof (cases ps)
    case (Cons b bs)
    then have "listPopFirst (sv_processed s) = Inr (Some (b, the (map_option snd (case listPopFirst (sv_processed s) of Inr r \<Rightarrow> r | _ \<Rightarrow> None))))"
      using adlist.pop_law [of "sv_processed s" b bs] ps(1) by (auto simp: queue_of_def)
    then have "b = a" using q(1) by simp
    then show ?thesis using ps(1) Cons by (auto simp: queue_of_def)
  qed (use ps assms(3) in simp)
  have m: "mask_of (sv_el s) (cl_fd c) = 0" using client_stage [OF assms(1) q(2)] sa by auto
  let ?s = "s\<lparr>sv_pipe := sv_pipe s - 1, sv_processed := q\<rparr>"
  have "loop_inv (sv_el ?s)" using px.cli_fd(5) [OF assms(1) q(2)] by simp
  from register_ok [OF this px.cli_fd(1,2) [OF assms(1) q(2)], of AE_WRITABLE SendReplyToClient "Some a"]
  obtain L where L: "register True (cl_fd c) AE_WRITABLE SendReplyToClient (Some a) ?s = Inr (AE_OK, ?s\<lparr>sv_el := L\<rparr>)"
    "el_events L = (el_events (sv_el s))(cl_fd c := reg_entry (el_events (sv_el s) (cl_fd c)) AE_WRITABLE SendReplyToClient (Some a))"
    by auto
  have "s' = ?s\<lparr>sv_el := L\<rparr>" using assms(3,4) q L(1) by (simp add: completed_turn_def)
  moreover have "mask_of L (cl_fd c) = AE_WRITABLE" using L(2) m by (simp add: reg_entry_def)
  ultimately show ?thesis using q m L(2) by (intro exI [of _ a] exI [of _ c] exI [of _ q] exI [of _ L]) simp
qed

text \<open>\<open>rest\<close> bytes of the reply are still to be sent.\<close>

definition rest :: "redisClient \<Rightarrow> nat" where
  "rest c = nat (cl_wlen c - cl_wpos c)"

lemma send_effect:
  assumes inv: "px_inv lfd pfd st s" and a: "sv_heap s a = Some c" "st a = Some Writing"
    and n: "int n \<le> cl_wlen c - cl_wpos c" and run: "sendReplyToClient (Wr_bytes n) now True a s = Inr s'"
  shows "\<exists>c' L x. s' = (put a c' s)\<lparr>sv_el := L, sv_sent := (sv_sent s)(a := sv_sent s a @ x)\<rparr> \<and> cl_fd c' = cl_fd c
    \<and> (\<forall>g. g \<noteq> cl_fd c \<longrightarrow> el_events L g = el_events (sv_el s) g)
    \<and> (if n = rest c then mask_of L (cl_fd c) = AE_READABLE \<and> is_reply (part c @ x) \<and> rest c' = 0
       else L = sv_el s \<and> part c' = part c @ x \<and> rest c' + n = rest c)"
proof -
  have ok: "stage_ok (sv_el s) a c Writing" using client_stage [OF inv a(1)] a(2) by auto
  then obtain b where b: "cl_wbuf c = Some b" "0 \<le> cl_wpos c" "cl_wlen c \<le> int (length b)" "cl_wpos c \<le> cl_wlen c"
    "processResponseBuffer b (cl_wlen c) = Inr 1"
    by (auto simp: answered_def whole_reply_def fits_def split: option.splits)
  let ?c = "if 0 < n then c\<lparr>cl_last := now, cl_wpos := cl_wpos c + int n\<rparr> else c"
  let ?x = "take n (drop (nat (cl_wpos c)) b)"
  let ?s = "(put a ?c s)\<lparr>sv_sent := (sv_sent s)(a := sv_sent s a @ ?x)\<rparr>"
  have c: "cl_fd ?c = cl_fd c" "cl_wbuf ?c = cl_wbuf c" "cl_wlen ?c = cl_wlen c" "cl_wpos ?c = cl_wpos c + int n" by auto
  have go: "sendReplyToClient (Wr_bytes n) now True a s = (if cl_wpos ?c = cl_wlen ?c then resetClient True a ?s else Inr ?s)"
    using a(1) b by (simp add: sendReplyToClient_def Let_def)
  have "nat (cl_wpos c + int n) = nat (cl_wpos c) + n" using b(2) by simp
  then have p: "part ?c = part c @ ?x" unfolding part_def c using b(1) by (simp add: take_add)
  have r: "n = rest c \<longleftrightarrow> cl_wpos ?c = cl_wlen ?c" unfolding rest_def c using b(4) n by arith
  show ?thesis
  proof (cases "n = rest c")
    case False
    then have "s' = ?s" "rest ?c + n = rest c" using run go r n b(4) unfolding rest_def c by auto
    moreover have "?s = (put a ?c s)\<lparr>sv_el := sv_el s, sv_sent := (sv_sent s)(a := sv_sent s a @ ?x)\<rparr>" by (simp add: put_def)
    ultimately show ?thesis using False c(1) p by (intro exI [of _ ?c] exI [of _ "sv_el s"] exI [of _ ?x]) simp
  next
    case True
    have heap: "sv_heap ?s a = Some ?c" by simp
    have "0 \<le> cl_fd ?c" "cl_fd ?c < AE_SETSIZE" "loop_inv (sv_el ?s)" "mask_of (sv_el ?s) (cl_fd ?c) \<in> {0, 1, 2}"
      unfolding c using px.cli_fd(1,2,5) [OF inv a(1)] stage_mask [OF ok] by simp_all
    from reset_effect [OF heap this] obtain L where L: "resetClient True a ?s = Inr ((put a (reset_client ?c) ?s)\<lparr>sv_el := L\<rparr>)"
      "\<forall>g. g \<noteq> cl_fd c \<longrightarrow> el_events L g = el_events (sv_el s) g" "entry L (cl_fd c) AE_READABLE ReadQueryFromClient (Some a)"
      unfolding c by auto
    have "s' = (put a (reset_client ?c) s)\<lparr>sv_el := L, sv_sent := (sv_sent s)(a := sv_sent s a @ ?x)\<rparr>"
      using run True r go L(1) by (simp add: put_def)
    moreover have "is_reply (part c @ ?x)"
    proof -
      have "cl_wpos ?c = cl_wlen c" using True r by simp
      then have "part ?c = take (nat (cl_wlen c)) b" unfolding part_def by (simp only: c(2) b(1) option.case)
      then show ?thesis using b p unfolding is_reply_def by (intro exI [of _ b] exI [of _ "cl_wlen c"]) simp
    qed
    moreover have "rest (reset_client ?c) = 0" "cl_fd (reset_client ?c) = cl_fd c" by (simp_all add: rest_def reset_client_def)
    ultimately show ?thesis using True L(2,3) by (intro exI [of _ "reset_client ?c"] exI [of _ L] exI [of _ ?x]) (simp add: entry_def)
  qed
qed

lemma writing_client:
  assumes "px_inv lfd pfd st s" "registered (sv_el s) SendReplyToClient fd msk" "fe_clientData (el_events (sv_el s) fd) = Some a"
  shows "st a = Some Writing"
  using assms(3) by (cases rule: registered_who [OF assms(1,2)]) auto

subsection \<open>No client is lost or left behind\<close>

lemma run_advances:
  assumes inv: "px_inv lfd pfd st s" "job_inv st s" and t: "t < length (sv_workers s)" "fst (sv_workers s ! t) = Working a"
    and run: "worker_run t as a s = Inr (Done s')"
  shows "dom (sv_heap s') = dom (sv_heap s) \<and> advances s s' b"
proof -
  obtain c c' m where r: "sv_heap s a = Some c" "same_request c c'" "s' = set_worker t (Finished a, m) (put a c' s)"
    using run_effect [OF run] by blast
  obtain ns where "hands st Running Working (wk s)" using inv(2) by (auto simp: job_inv_def)
  moreover have "wk s t = Some (Working a)" using t by (simp add: wk_def)
  ultimately have "st a = Some Running" using hands_iff by blast
  then have z: "cl_wpos c = 0" using client_stage [OF inv(1) r(1)] by (auto simp: asked_def idle_def)
  have c: "cl_fd c' = cl_fd c" "cl_wpos c' = 0" using r(2) z by (simp_all add: same_request_def)
  have "advances s s' b"
  proof (cases "b = a")
    case True
    have "part c = []" "part c' = []" using z c(2) by (simp_all add: part_def)
    moreover have "reading s' a = reading s a" using r c(1) by (simp add: reading_def set_worker_def)
    ultimately show ?thesis using True r by (auto simp: advances_def out_part_def set_worker_def)
  next
    case False
    then show ?thesis using r by (intro advances_same) (simp_all add: set_worker_def)
  qed
  then show ?thesis using r by (auto simp: set_worker_def)
qed

lemma pipe_advances:
  assumes inv: "px_inv lfd pfd st s" "job_inv st s" and pipe: "0 < sv_pipe s" "completed_turn True s = Inr (Some s')"
  shows "dom (sv_heap s') = dom (sv_heap s) \<and> advances s s' b"
proof -
  obtain a c q L where p: "sv_heap s a = Some c" "mask_of (sv_el s) (cl_fd c) = 0" "mask_of L (cl_fd c) = AE_WRITABLE"
    "s' = s\<lparr>sv_pipe := sv_pipe s - 1, sv_processed := q, sv_el := L\<rparr>"
    "\<forall>g. g \<noteq> cl_fd c \<longrightarrow> el_events L g = el_events (sv_el s) g"
    using pipe_effect [OF inv pipe] by blast
  have "advances s s' b"
  proof (cases "b = a")
    case True
    with p(1-4) show ?thesis by (intro advances_same) auto
  next
    case False
    with p(4,5) show ?thesis by (intro advances_other [OF inv(1) p(1)]) auto
  qed
  then show ?thesis using p(4) by simp
qed

lemma send_advances:
  assumes inv: "px_inv lfd pfd st s" and a: "sv_heap s a = Some c" "st a = Some Writing"
    and n: "int n \<le> cl_wlen c - cl_wpos c" and run: "sendReplyToClient (Wr_bytes n) now True a s = Inr s'"
  shows "dom (sv_heap s') = dom (sv_heap s) \<and> advances s s' b"
proof -
  obtain c' L x where e: "s' = (put a c' s)\<lparr>sv_el := L, sv_sent := (sv_sent s)(a := sv_sent s a @ x)\<rparr>" "cl_fd c' = cl_fd c"
    "\<forall>g. g \<noteq> cl_fd c \<longrightarrow> el_events L g = el_events (sv_el s) g"
    "if n = rest c then mask_of L (cl_fd c) = AE_READABLE \<and> is_reply (part c @ x) \<and> rest c' = 0
     else L = sv_el s \<and> part c' = part c @ x \<and> rest c' + n = rest c"
    using send_effect [OF inv a n run] by blast
  have "advances s s' b"
  proof (cases "b = a")
    case True
    have "mask_of (sv_el s) (cl_fd c) = AE_WRITABLE" using client_stage [OF inv a(1)] a(2) by (auto simp: entry_def)
    then have "\<not> reading s a" using a(1) by (simp add: reading_def)
    then show ?thesis using True e a(1)
      by (cases "n = rest c") (auto simp: advances_def out_part_def reading_def)
  next
    case False
    with e(1,3) show ?thesis by (intro advances_other [OF inv a(1)]) auto
  qed
  then show ?thesis using e(1) a(1) by auto
qed

lemma work_advances:
  assumes "srv_inv lfd pfd s" "work s s'"
  shows "dom (sv_heap s') = dom (sv_heap s) \<and> advances s s' b"
proof -
  obtain st where inv: "px_inv lfd pfd st s" "job_inv st s" using assms(1) by (auto simp: srv_inv_def)
  have same: "dom (sv_heap s') = dom (sv_heap s) \<and> advances s s' b"
    if "sv_heap s' = sv_heap s" "sv_sent s' = sv_sent s" "sv_el s' = sv_el s" for s'
    using that by (simp add: advances_same)
  show ?thesis
    using assms(2)
  proof cases
    case (take_work t)
    then show ?thesis using take_effect [OF take_work(4,3)] same by (auto simp: set_worker_def)
  next
    case (run_work t a as)
    then show ?thesis by (rule run_advances [OF inv])
  next
    case (push_work t a m)
    then show ?thesis using push_effect [OF push_work(4)] same by (auto simp: set_worker_def)
  next
    case (signal_work t)
    then show ?thesis using same [of s'] by (simp add: worker_signal_def set_worker_def)
  next
    case (pipe_work fd msk)
    then show ?thesis using pipe_advances [OF inv] by blast
  next
    case (send_work fd msk a c n now)
    then show ?thesis using send_advances [OF inv(1) _ writing_client [OF inv(1) send_work(1,2)]] by blast
  qed
qed

subsection \<open>Work ends\<close>

text \<open>Requests not yet given to the command module; bytes not yet sent; what is left to do for the answered ones.\<close>

fun job_weight :: "phase \<Rightarrow> nat" where
  "job_weight (Working a) = 1"
| "job_weight Waiting = 0" | "job_weight (Finished a) = 0" | "job_weight Signalling = 0"

fun hand_weight :: "phase \<Rightarrow> nat" where
  "hand_weight (Finished a) = 4"
| "hand_weight Signalling = 3"
| "hand_weight Waiting = 0" | "hand_weight (Working a) = 0"

definition workers_sum :: "(phase \<Rightarrow> nat) \<Rightarrow> server \<Rightarrow> nat" where
  "workers_sum f s = sum_list (map (\<lambda>w. f (fst w)) (sv_workers s))"

definition jobs_left :: "server \<Rightarrow> nat" where
  "jobs_left s = 2 * unat (l_len (ls_list (sv_newjobs s))) + workers_sum job_weight s"

definition bytes_left :: "server \<Rightarrow> nat" where
  "bytes_left s = (\<Sum>a\<in>dom (sv_heap s). rest (the (sv_heap s a)))"

definition writing :: "server \<Rightarrow> nat \<Rightarrow> nat" where
  "writing s a = of_bool (mask_of (sv_el s) (cl_fd (the (sv_heap s a))) = AE_WRITABLE)"

definition turns_left :: "server \<Rightarrow> nat" where
  "turns_left s = 2 * sv_pipe s + workers_sum hand_weight s + (\<Sum>a\<in>dom (sv_heap s). writing s a)"

definition left :: "(server \<times> server) set" where
  "left = measures [jobs_left, bytes_left, turns_left]"

lemma workers_sum_set:
  assumes "t < length (sv_workers s)"
  shows "workers_sum f (set_worker t w s) + f (fst (sv_workers s ! t)) = workers_sum f s + f (fst w)"
proof -
  let ?f = "\<lambda>w. f (fst w)"
  have "?f (sv_workers s ! t) \<le> sum_list (map ?f (sv_workers s))"
    using elem_le_sum_list [of t "map ?f (sv_workers s)"] assms by simp
  then show ?thesis
    using sum_list_update [of t "map ?f (sv_workers s)" "?f w"] assms
    by (simp add: workers_sum_def set_worker_def map_update)
qed

lemma workers_sum_cong: "sv_workers s' = sv_workers s \<Longrightarrow> workers_sum f s' = workers_sum f s"
  by (simp add: workers_sum_def)

lemma sum_change:
  fixes f g :: "'a \<Rightarrow> nat"
  assumes "finite D" "a \<in> D" "\<And>b. b \<in> D \<Longrightarrow> b \<noteq> a \<Longrightarrow> g b = f b"
  shows "sum g D + f a = sum f D + g a"
proof -
  have "sum g (D - {a}) = sum f (D - {a})" by (rule sum.cong) (use assms(3) in auto)
  then show ?thesis using assms(1,2) by (simp add: sum.remove)
qed

lemma vals_length: "list_vals q vs \<Longrightarrow> unat (l_len (ls_list q)) = length vs"
  by (auto simp: list_vals_def rep_unat_len)

lemma length_pop:
  assumes "list_vals q vs" "listPopFirst q = Inr (Some (a, q'))"
  shows "unat (l_len (ls_list q)) = Suc (unat (l_len (ls_list q')))"
proof (cases vs)
  case Nil
  then have "listPopFirst q = Inr None" using assms(1) by (intro adlist.pop_empty_law) simp
  then show ?thesis using assms(2) by simp
next
  case (Cons b us)
  then have "list_vals q' us" using adlist.pop_law [of q b us] assms by auto
  then show ?thesis using assms(1) Cons by (simp add: vals_length)
qed

lemma fin_heap: "px_inv lfd pfd st s \<Longrightarrow> finite (dom (sv_heap s))"
  by (simp add: cli_inv_def fd_inv_def)

lemma leftI:
  "jobs_left s' < jobs_left s \<Longrightarrow> (s', s) \<in> left"
  "\<lbrakk>jobs_left s' = jobs_left s; bytes_left s' < bytes_left s\<rbrakk> \<Longrightarrow> (s', s) \<in> left"
  "\<lbrakk>jobs_left s' = jobs_left s; bytes_left s' = bytes_left s; turns_left s' < turns_left s\<rbrakk> \<Longrightarrow> (s', s) \<in> left"
  by (simp_all add: left_def)

lemma writing_other:
  assumes inv: "px_inv lfd pfd st s" and a: "sv_heap s a = Some c" "sv_heap s' = (sv_heap s)(a \<mapsto> c')"
    and ev: "\<forall>g. g \<noteq> cl_fd c \<longrightarrow> el_events (sv_el s') g = el_events (sv_el s) g"
  shows "sum (writing s') (dom (sv_heap s')) + writing s a = sum (writing s) (dom (sv_heap s)) + writing s' a"
proof -
  have "writing s' b = writing s b" if "b \<in> dom (sv_heap s)" "b \<noteq> a" for b
  proof -
    obtain d where "sv_heap s b = Some d" using \<open>b \<in> dom (sv_heap s)\<close> by auto
    then show ?thesis using px.cli_other [OF inv a(1)] a(2) ev that(2) by (auto simp: writing_def)
  qed
  then have "sum (writing s') (dom (sv_heap s)) + writing s a = sum (writing s) (dom (sv_heap s)) + writing s' a"
    using a(1) by (intro sum_change [OF fin_heap [OF inv]]) auto
  moreover have "dom (sv_heap s') = dom (sv_heap s)" using a by auto
  ultimately show ?thesis by simp
qed

lemma pipe_left:
  assumes inv: "px_inv lfd pfd st s" "job_inv st s" and pipe: "0 < sv_pipe s" "completed_turn True s = Inr (Some s')"
  shows "(s', s) \<in> left"
proof -
  obtain a c q L where p: "sv_heap s a = Some c" "mask_of (sv_el s) (cl_fd c) = 0" "mask_of L (cl_fd c) = AE_WRITABLE"
    "s' = s\<lparr>sv_pipe := sv_pipe s - 1, sv_processed := q, sv_el := L\<rparr>"
    "\<forall>g. g \<noteq> cl_fd c \<longrightarrow> el_events L g = el_events (sv_el s) g"
    using pipe_effect [OF inv pipe] by blast
  have "sum (writing s') (dom (sv_heap s')) + writing s a = sum (writing s) (dom (sv_heap s)) + writing s' a"
    by (rule writing_other [OF inv(1) p(1), of _ c]) (use p in auto)
  moreover have "writing s a = 0" "writing s' a = 1" using p(1-4) by (simp_all add: writing_def)
  ultimately show ?thesis using p(4) pipe(1) workers_sum_cong [of s' s]
    by (intro leftI(3)) (simp_all add: jobs_left_def bytes_left_def turns_left_def)
qed

lemma send_left:
  assumes inv: "px_inv lfd pfd st s" and a: "sv_heap s a = Some c" "st a = Some Writing"
    and n: "int n \<le> cl_wlen c - cl_wpos c" "0 < n \<or> cl_wlen c = cl_wpos c"
    and run: "sendReplyToClient (Wr_bytes n) now True a s = Inr s'"
  shows "(s', s) \<in> left"
proof -
  obtain c' L x where e: "s' = (put a c' s)\<lparr>sv_el := L, sv_sent := (sv_sent s)(a := sv_sent s a @ x)\<rparr>" "cl_fd c' = cl_fd c"
    "\<forall>g. g \<noteq> cl_fd c \<longrightarrow> el_events L g = el_events (sv_el s) g"
    "if n = rest c then mask_of L (cl_fd c) = AE_READABLE \<and> is_reply (part c @ x) \<and> rest c' = 0
     else L = sv_el s \<and> part c' = part c @ x \<and> rest c' + n = rest c"
    using send_effect [OF inv a n(1) run] by blast
  have dom: "dom (sv_heap s') = dom (sv_heap s)" using e(1) a(1) by auto
  have jobs: "jobs_left s' = jobs_left s" "sv_pipe s' = sv_pipe s" "workers_sum hand_weight s' = workers_sum hand_weight s"
    using workers_sum_cong [of s' s] e(1) by (simp_all add: jobs_left_def put_def)
  have "bytes_left s' + rest c = bytes_left s + rest c'"
    using sum_change [OF fin_heap [OF inv], of a "\<lambda>b. rest (the (sv_heap s' b))" "\<lambda>b. rest (the (sv_heap s b))"] a(1) e(1)
    unfolding bytes_left_def dom by auto
  moreover have "rest c' + n = rest c" using e(4) by (simp split: if_splits)
  ultimately have bytes: "bytes_left s' + n = bytes_left s" by simp
  show ?thesis
  proof (cases "0 < n")
    case True
    then show ?thesis using jobs(1) bytes by (intro leftI(2)) simp_all
  next
    case False
    then have "n = rest c" using n by (simp add: rest_def)
    then have m: "mask_of L (cl_fd c) = AE_READABLE" using e(4) by simp
    have "sum (writing s') (dom (sv_heap s')) + writing s a = sum (writing s) (dom (sv_heap s)) + writing s' a"
      by (rule writing_other [OF inv a(1), of _ c']) (use e in auto)
    moreover have "mask_of (sv_el s) (cl_fd c) = AE_WRITABLE" using client_stage [OF inv a(1)] a(2) by (auto simp: entry_def)
    then have "writing s a = 1" "writing s' a = 0" using a(1) e(1,2) m by (simp_all add: writing_def)
    ultimately show ?thesis using jobs bytes False by (intro leftI(3)) (simp_all add: turns_left_def)
  qed
qed

lemma work_left:
  assumes "srv_inv lfd pfd s" "work s s'"
  shows "(s', s) \<in> left"
proof -
  obtain st where inv: "px_inv lfd pfd st s" "job_inv st s" using assms(1) by (auto simp: srv_inv_def)
  obtain ns ps where j: "list_vals (sv_newjobs s) ns" "list_vals (sv_processed s) ps"
    using inv(2) by (auto simp: job_inv_def queue_of_def)
  show ?thesis
    using assms(2)
  proof cases
    case (take_work t)
    obtain a q where e: "listPopFirst (sv_newjobs s) = Inr (Some (a, q))" "s' = set_worker t (Working a, snd (sv_workers s ! t)) (s\<lparr>sv_newjobs := q\<rparr>)"
      using take_effect [OF take_work(4,3)] by blast
    have "workers_sum job_weight s' = workers_sum job_weight s + 1"
      using workers_sum_set [of t "s\<lparr>sv_newjobs := q\<rparr>" job_weight] take_work(1,2) unfolding e(2) by (simp add: workers_sum_def)
    then show ?thesis using length_pop [OF j(1) e(1)] e(2) by (intro leftI(1)) (simp add: jobs_left_def set_worker_def)
  next
    case (run_work t a as)
    obtain c' m where e: "s' = set_worker t (Finished a, m) (put a c' s)" using run_effect [OF run_work(3)] by blast
    have "workers_sum job_weight s' + 1 = workers_sum job_weight s"
      using workers_sum_set [of t "put a c' s" job_weight] run_work(1,2) unfolding e by (simp add: workers_sum_def put_def)
    then show ?thesis using e by (intro leftI(1)) (simp add: jobs_left_def set_worker_def)
  next
    case (push_work t a b)
    obtain q where e: "s' = set_worker t (Signalling, snd (sv_workers s ! t)) (s\<lparr>sv_processed := q\<rparr>)"
      using push_effect [OF push_work(4)] by blast
    have "workers_sum job_weight s' = workers_sum job_weight s" "workers_sum hand_weight s' + 4 = workers_sum hand_weight s + 3"
      using workers_sum_set [of t "s\<lparr>sv_processed := q\<rparr>" job_weight] workers_sum_set [of t "s\<lparr>sv_processed := q\<rparr>" hand_weight] push_work(1,2)
      unfolding e by (simp_all add: workers_sum_def)
    then show ?thesis using e
      by (intro leftI(3)) (simp_all add: jobs_left_def bytes_left_def turns_left_def writing_def set_worker_def)
  next
    case (signal_work t)
    have "workers_sum job_weight s' = workers_sum job_weight s" "workers_sum hand_weight s' + 3 = workers_sum hand_weight s"
      using workers_sum_set [of t "s\<lparr>sv_pipe := Suc (sv_pipe s)\<rparr>" job_weight]
        workers_sum_set [of t "s\<lparr>sv_pipe := Suc (sv_pipe s)\<rparr>" hand_weight] signal_work(2,3)
      unfolding signal_work(1) worker_signal_def by (simp_all add: workers_sum_def)
    then show ?thesis using signal_work(1)
      by (intro leftI(3)) (simp_all add: jobs_left_def bytes_left_def turns_left_def writing_def set_worker_def worker_signal_def)
  next
    case (pipe_work fd msk)
    then show ?thesis using pipe_left [OF inv] by blast
  next
    case (send_work fd msk a c n now)
    then show ?thesis using send_left [OF inv(1) _ writing_client [OF inv(1) send_work(1,2)]] by blast
  qed
qed

subsection \<open>Where no work is possible\<close>

lemma refusing_returns: "\<exists>r. redisCommandProc [refusing] c m = Inr (Done r)"
  by (simp add: redisCommandProc_def proc_again.simps(2) refusing_def Let_def)

lemma worker_works:
  assumes inv: "srv_inv lfd pfd s" and few: "few (sv_processed s)" and t: "t < length (sv_workers s)" "fst (sv_workers s ! t) \<noteq> Waiting"
  shows "\<exists>s'. work s s'"
proof (cases "fst (sv_workers s ! t)")
  case (Working a)
  obtain st where st: "px_inv lfd pfd st s" "job_inv st s" using inv by (auto simp: srv_inv_def)
  have "wk s t = Some (Working a)" using t Working by (simp add: wk_def)
  then have "st a = Some Running" using st(2) hands_iff by (fastforce simp: job_inv_def)
  then obtain c where c: "sv_heap s a = Some c" using px.cli_live [OF st(1)] by blast
  obtain c' m where "redisCommandProc [refusing] c (snd (sv_workers s ! t)) = Inr (Done (c', m))"
    using refusing_returns by (metis surj_pair)
  then have "worker_run t [refusing] a s = Inr (Done (set_worker t (Finished a, m) (put a c' s)))"
    using c by (simp add: worker_run_def)
  then show ?thesis using work.run_work [OF t(1) Working] by blast
next
  case (Finished a)
  obtain b where b: "ls_cells (sv_processed s) b = None" using few_address [OF few] by blast
  then show ?thesis using push_inv [OF inv t(1) Finished b] work.push_work [OF t(1) Finished b] by blast
next
  case Signalling
  then show ?thesis using work.signal_work [OF t(1)] by blast
qed (use t in simp)

lemma work_enabled:
  assumes inv: "srv_inv lfd pfd s" and few: "few (sv_processed s)" and ws: "sv_workers s \<noteq> []"
    and ports: "lfd \<noteq> pfd" and a: "sv_heap s a = Some c" "\<not> reading s a"
  shows "\<exists>s'. work s s'"
proof -
  obtain st where st: "px_inv lfd pfd st s" "job_inv st s" using inv by (auto simp: srv_inv_def)
  obtain ns ps where j: "queue_of st Queued (sv_newjobs s) ns" "queue_of st Processed (sv_processed s) ps"
    "hands st Running Working (wk s)" "hands st Ran Finished (wk s)"
    "sv_pipe s + card {t. wk s t = Some Signalling} = length ps"
    using st(2) by (auto simp: job_inv_def)
  obtain g where g: "st a = Some g" "stage_ok (sv_el s) a c g" using client_stage [OF st(1) a(1)] by blast
  have busy: "\<exists>s'. work s s'" if "wk s t = Some p" "p \<noteq> Waiting" for t p
    using that worker_works [OF inv few, of t] by (auto simp: wk_def split: if_splits)
  show ?thesis
  proof (cases g)
    case Reading
    then show ?thesis using g(2) a by (simp add: reading_def entry_def)
  next
    case Queued
    then have "ns \<noteq> []" using j(1) g(1) by (auto simp: queue_of_def)
    then have l: "l_len (ls_list (sv_newjobs s)) \<noteq> 0"
      using j(1) vals_length [of "sv_newjobs s" ns] by (auto simp: queue_of_def)
    show ?thesis
    proof (cases "fst (sv_workers s ! 0) = Waiting")
      case True
      then show ?thesis using take_inv [OF inv, of 0] work.take_work [of 0 s, OF _ True l] ws by auto
    next
      case False
      then show ?thesis using worker_works [OF inv few, of 0] ws by simp
    qed
  next
    case Running
    then show ?thesis using hands_iff [OF j(3), of a] g(1) busy by auto
  next
    case Ran
    then show ?thesis using hands_iff [OF j(4), of a] g(1) busy by auto
  next
    case Processed
    show ?thesis
    proof (cases "sv_pipe s = 0")
      case True
      have "length ps \<noteq> 0" using Processed j(2) g(1) by (auto simp: queue_of_def)
      then have "card {t. wk s t = Some Signalling} \<noteq> 0" using True j(5) by simp
      then have "{t. wk s t = Some Signalling} \<noteq> {}" by (metis card.empty)
      then show ?thesis using busy by auto
    next
      case False
      have "entry (sv_el s) pfd AE_READABLE CompletedJob None"
        using st(1) ports by (simp add: cli_inv_def fd_inv_def proxy_roots_def)
      then have "registered (sv_el s) CompletedJob pfd AE_READABLE" by (simp add: registered_def entry_def)
      then show ?thesis using completed_inv [OF st] work.pipe_work False by blast
    qed
  next
    case Writing
    then have e: "entry (sv_el s) (cl_fd c) AE_WRITABLE SendReplyToClient (Some a)" "cl_wpos c \<le> cl_wlen c"
      using g(2) by (simp_all add: answered_def)
    have r: "registered (sv_el s) SendReplyToClient (cl_fd c) AE_WRITABLE" "fe_clientData (el_events (sv_el s) (cl_fd c)) = Some a"
      using e(1) by (simp_all add: registered_def entry_def)
    have n: "int (rest c) \<le> cl_wlen c - cl_wpos c" "0 < rest c \<or> cl_wlen c = cl_wpos c" using e(2) by (auto simp: rest_def)
    obtain s' where "sendReplyToClient (Wr_bytes (rest c)) 0 True a s = Inr s'"
      using send_inv [OF st a(1), of "Wr_bytes (rest c)" 0] g(1) Writing n(1) by auto
    then show ?thesis using work.send_work [OF r a(1) n] by blast
  qed
qed

subsection \<open>What every step leaves of queues and threads\<close>

definition same_out :: "server \<Rightarrow> server \<Rightarrow> bool" where
  "same_out s s' \<longleftrightarrow> sv_processed s' = sv_processed s \<and> sv_workers s' = sv_workers s"

lemma same_out_refl [simp]: "same_out s s" "same_out s (put a c s)" "same_out s (s\<lparr>sv_open := os\<rparr>)" "same_out s (s\<lparr>sv_sent := out\<rparr>)"
  by (simp_all add: same_out_def put_def)

lemma events_same: "unregister fd m s = Inr s' \<Longrightarrow> same_out s s'" "register ok fd m p d s = Inr (r, s') \<Longrightarrow> same_out s s'"
  by (auto simp: unregister_def register_def res_simps same_out_def)

lemma free_same: "freeClient a s = Inr s' \<Longrightarrow> same_out s s'"
  by (auto simp: freeClient_def res_simps same_out_def dest!: events_same)

lemma queue_same: "queueIOJob m a s = Inr s' \<Longrightarrow> same_out s s'"
  by (auto simp: queueIOJob_def res_simps same_out_def split: option.splits)

lemma process_same:
  assumes "processInputBuffer m a s = Inr (Done s')"
  shows "same_out s s'"
proof -
  obtain c x where c: "client_at a s = Inr c" "processRequestBuffer (the (cl_rbuf c)) (cl_rlen c) = Inr x"
    using assms by (auto simp: processInputBuffer_def res_simps)
  show ?thesis
  proof (cases x)
    case (Proc_exit e)
    then show ?thesis using assms c by (simp add: processInputBuffer_def)
  next
    case (Ret v)
    then show ?thesis
      using assms c
      by (auto simp: processInputBuffer_def same_out_def res_simps split: if_splits
          dest!: free_same events_same queue_same)
  qed
qed

lemma read_same: "readQueryFromClient r now m a s = Inr (Done s') \<Longrightarrow> same_out s s'"
  by (auto simp: readQueryFromClient_def res_simps Let_def same_out_def put_def
      split: if_splits read_answer.splits dest!: free_same process_same)

lemma send_same: "sendReplyToClient w now ok a s = Inr s' \<Longrightarrow> same_out s s'"
  by (auto simp: sendReplyToClient_def resetClient_def res_simps Let_def same_out_def put_def
      split: if_splits write_answer.splits option.splits dest!: free_same events_same)

lemma accept_same: "acceptHandler cfd mem ok s = Inr s' \<Longrightarrow> same_out s s'"
  by (auto simp: acceptHandler_def createClient_def res_simps Let_def same_out_def put_def
      split: if_splits option.splits dest!: free_same events_same)

lemma pipe_same:
  assumes "completed_turn ok s = Inr (Some s')"
  shows "sv_workers s' = sv_workers s \<and> (few (sv_processed s) \<longrightarrow> few (sv_processed s'))"
proof -
  obtain a q where q: "listPopFirst (sv_processed s) = Inr (Some (a, q))"
    using assms by (auto simp: completed_turn_def res_simps split: if_splits option.splits)
  then obtain c where c: "client_at a s = Inr c"
    using assms by (auto simp: completed_turn_def res_simps split: if_splits)
  let ?s = "s\<lparr>sv_pipe := sv_pipe s - 1, sv_processed := q\<rparr>"
  have "fmap (\<lambda>(r, s1). Some s1) (register ok (cl_fd c) AE_WRITABLE SendReplyToClient (Some a) ?s) = Inr (Some s')"
    using assms q c by (simp add: completed_turn_def split: if_splits)
  then obtain r where "register ok (cl_fd c) AE_WRITABLE SendReplyToClient (Some a) ?s = Inr (r, s')"
    by (cases "register ok (cl_fd c) AE_WRITABLE SendReplyToClient (Some a) ?s") auto
  then have "same_out ?s s'" by (rule events_same(2))
  then show ?thesis using few_pop [OF q] by (simp add: same_out_def)
qed

lemma handler_same:
  assumes "run_handler p d ans s = Inr (Done s')"
  shows "sv_workers s' = sv_workers s \<and> (few (sv_processed s) \<longrightarrow> few (sv_processed s'))"
  using assms accept_same read_same send_same pipe_same by (cases p; cases d; cases ans) (auto simp: run_handler_def same_out_def res_simps split: option.splits)

lemma step_same:
  assumes "sstep s s'"
  shows "length (sv_workers s') = length (sv_workers s) \<and> (few (sv_processed s) \<longrightarrow> few (sv_processed s'))"
  using assms
proof cases
  case (handler p fd msk ans)
  then show ?thesis using handler_same by metis
next
  case (take_job t)
  then show ?thesis by (auto simp: worker_take_def res_simps set_worker_def split: option.splits)
next
  case (run_job t a as)
  then show ?thesis using run_effect [OF run_job(3)] by (auto simp: set_worker_def put_def)
next
  case (push_job t a b)
  then show ?thesis using push_effect [OF push_job(4)] by (auto simp: set_worker_def intro: few_push)
next
  case (signal t)
  then show ?thesis by (simp add: worker_signal_def set_worker_def)
qed

lemma reachable_same:
  assumes "reachable lfd pfd mods maxc s"
  shows "length (sv_workers s) = length mods \<and> few (sv_processed s)"
  using assms
proof (induction rule: reachable.induct)
  case (start s)
  have "few empty_list" by (simp add: few_def empty_list_def)
  with start show ?case
    by (auto simp: initServer_def Let_def res_simps same_out_def split: if_splits dest!: events_same)
next
  case (step s s')
  then show ?case using step_same by metis
qed

subsection \<open>Runs of work\<close>

lemma work_reachable:
  assumes "reachable lfd pfd mods maxc s" "rtranclp work s v"
  shows "reachable lfd pfd mods maxc v"
  using assms(2)
proof (induction rule: rtranclp_induct)
  case base
  show ?case by (rule assms(1))
next
  case (step t u)
  then show ?case using work_sstep reachable.step by blast
qed

lemma work_ends:
  assumes "ports_ok lfd pfd" "reachable lfd pfd mods maxc s"
  shows "\<not> (\<exists>f. f 0 = s \<and> (\<forall>i. work (f i) (f (Suc i))))"
proof
  assume "\<exists>f. f 0 = s \<and> (\<forall>i. work (f i) (f (Suc i)))"
  then obtain f where f: "f 0 = s" "\<And>i. work (f i) (f (Suc i))" by blast
  have "rtranclp work s (f i)" for i
  proof (induction i)
    case (Suc i)
    then show ?case using f(2) by (rule rtranclp.rtrancl_into_rtrancl)
  qed (simp add: f(1))
  then have "(f (Suc i), f i) \<in> left" for i
    using work_left [OF reachable_inv [OF work_reachable [OF assms(2)] assms(1)] f(2)] by blast
  moreover have "wf left" by (simp add: left_def)
  ultimately show False unfolding wf_iff_no_infinite_down_chain by blast
qed

lemma work_runs:
  assumes "ports_ok lfd pfd" "reachable lfd pfd mods maxc s" "rtranclp work s s'"
  shows "dom (sv_heap s') = dom (sv_heap s) \<and> (\<forall>b. advances s s' b)"
  using assms(3)
proof (induction rule: rtranclp_induct)
  case base
  show ?case by (simp add: advances_refl)
next
  case (step t u)
  have "dom (sv_heap u) = dom (sv_heap t) \<and> advances t u b" for b
    by (rule work_advances [OF reachable_inv [OF work_reachable [OF assms(2) step(1)] assms(1)] step(2)])
  then show ?case using step.IH advances_trans by metis
qed

lemma work_stops:
  assumes "ports_ok lfd pfd" "mods \<noteq> []" and s: "reachable lfd pfd mods maxc s"
    and stop: "\<forall>u. \<not> work s u" and a: "sv_heap s a = Some c"
  shows "reading s a"
proof (rule ccontr)
  assume "\<not> reading s a"
  moreover have "sv_workers s \<noteq> []" "lfd \<noteq> pfd" using reachable_same [OF s] assms(1,2) by (auto simp: ports_ok_def)
  ultimately show False
    using work_enabled [OF reachable_inv [OF s assms(1)] conjunct2 [OF reachable_same [OF s]] _ _ a] stop by blast
qed

text \<open>C12. Every request is answered. In a reachable state of a server with at least one thread, whatever the threads, the
  kernel and the backend do next: the steps that work on received requests cannot go on for ever, and when none of
  them is possible any more, no client has been lost, every client waits for its next request, and each has
  been sent exactly what was missing of its one reply: nothing if it had no request under way.\<close>

theorem proxy_answers:
  assumes "ports_ok lfd pfd" "reachable lfd pfd mods maxc s" "mods \<noteq> []"
  shows "\<not> (\<exists>f. f 0 = s \<and> (\<forall>i. work (f i) (f (Suc i))))
    \<and> (\<forall>s'. rtranclp work s s' \<longrightarrow> (\<forall>u. \<not> work s' u) \<longrightarrow> dom (sv_heap s') = dom (sv_heap s)
        \<and> (\<forall>a \<in> dom (sv_heap s). reading s' a \<and> (\<exists>x. sv_sent s' a = sv_sent s a @ x
             \<and> (if reading s a then x = [] else is_reply (out_part s a @ x)))))"
proof (intro conjI allI impI)
  show "\<not> (\<exists>f. f 0 = s \<and> (\<forall>i. work (f i) (f (Suc i))))" by (rule work_ends [OF assms(1,2)])
  fix s' assume run: "rtranclp work s s'" and stop: "\<forall>u. \<not> work s' u"
  note adv = work_runs [OF assms(1,2) run]
  then show "dom (sv_heap s') = dom (sv_heap s)" by blast
  show "\<forall>a \<in> dom (sv_heap s). reading s' a \<and> (\<exists>x. sv_sent s' a = sv_sent s a @ x
      \<and> (if reading s a then x = [] else is_reply (out_part s a @ x)))"
  proof
    fix a assume "a \<in> dom (sv_heap s)"
    then obtain c where c: "sv_heap s' a = Some c" using adv by blast
    have "reading s' a" by (rule work_stops [OF assms(1,3) work_reachable [OF assms(2) run] stop c])
    moreover have "advances s s' a" using adv by blast
    ultimately show "reading s' a \<and> (\<exists>x. sv_sent s' a = sv_sent s a @ x
      \<and> (if reading s a then x = [] else is_reply (out_part s a @ x)))"
      unfolding advances_def by (metis (full_types))
  qed
qed

text \<open>A client connects and sends PING: its request is in the queue.\<close>

lemma demo_job: "\<exists>s. reachable 3 4 mods 0 s \<and> 100 \<in> dom (sv_heap s) \<and> \<not> reading s 100 \<and> sv_sent s 100 = [] \<and> out_part s 100 = []"
proof -
  let ?d = "enc_request [''PING'']"
  obtain s0 where s0: "initServer 3 4 mods 0 = Inr s0" "registered (sv_el s0) AcceptHandler 3 1" "sv_heap s0 = (\<lambda>_. None)"
    "sv_open s0 = {3, 4}" "sv_maxclients s0 = 0" "fe_clientData (el_events (sv_el s0) 3) = None"
    using demo_start [of mods 0] by auto
  have jobs: "sv_newjobs s0 = empty_list"
    using s0(1) by (auto simp: initServer_def Let_def res_simps register_def split: if_splits)
  have r0: "reachable 3 4 mods 0 s0" using s0(1) by (rule reachable.start)
  have l0: "loop_inv (sv_el (s0\<lparr>sv_open := insert 5 (sv_open s0)\<rparr>))"
    using reachable_inv [OF r0 ports_demo] by (auto simp: srv_inv_def cli_inv_def)
  from register_ok [OF l0, of 5 AE_READABLE ReadQueryFromClient "Some 100"] obtain L where
    L: "register True 5 AE_READABLE ReadQueryFromClient (Some 100) (s0\<lparr>sv_open := insert 5 (sv_open s0)\<rparr>)
      = Inr (AE_OK, s0\<lparr>sv_open := insert 5 (sv_open s0), sv_el := L\<rparr>)" "loop_inv L"
    "el_events L = (el_events (sv_el s0))(5 := reg_entry (el_events (sv_el s0) 5) AE_READABLE ReadQueryFromClient (Some 100))"
    by (auto simp: AE_SETSIZE_def)
  define s1 where "s1 = (put 100 (new_client 5) (s0\<lparr>sv_open := insert 5 (sv_open s0), sv_el := L\<rparr>))\<lparr>sv_clients := sv_clients s0 + 1,
    sv_sent := (sv_sent s0)(100 := []), sv_numconnections := sv_numconnections s0 + 1\<rparr>"
  have "acceptHandler 5 (Some 100) True s0 = Inr s1"
    using L(1) s0(5) by (simp add: acceptHandler_def createClient_def s1_def put_def)
  then have "sstep s0 s1"
    using s0 by (intro sstep.handler [OF s0(2), of "An_accept 5 (Some 100) True"]) (simp_all add: run_handler_def)
  with r0 have r1: "reachable 3 4 mods 0 s1" by (rule reachable.step)
  have e1: "registered (sv_el s1) ReadQueryFromClient 5 1" "fe_clientData (el_events (sv_el s1) 5) = Some 100"
    using L(3) by (simp_all add: s1_def registered_def reg_entry_def and.commute [of _ 1])
  let ?c = "(new_client 5)\<lparr>cl_rbuf := Some (grow_rbuf None 0 ?d), cl_rlen := int (length ?d), cl_last := 0\<rparr>"
  let ?s = "put 100 ?c s1"
  have req: "processRequestBuffer (grow_rbuf None 0 ?d) (int (length ?d)) = Inr (Ret 1)"
    using request_piece [of "[''PING'']" ?d "[]"] by (simp add: grow_rbuf_def ok_request_def ok_bulk_def INT_MAX_def)
  have "loop_inv (sv_el ?s)" using L(2) by (simp add: s1_def)
  from unregister_ok [OF this, of 5 AE_READABLE] obtain L1 where
    L1: "unregister 5 AE_READABLE ?s = Inr (?s\<lparr>sv_el := L1\<rparr>)" "mask_of L1 5 = mask_of (sv_el ?s) 5 AND NOT AE_READABLE" by auto
  obtain q where q: "listAddNodeTail (Some 7) 100 (sv_newjobs s0) = Inr (Some q)"
    using adlist.push_law [OF empty_nat_list, of 7 100] by (auto simp: jobs empty_list_def)
  let ?t = "?s\<lparr>sv_el := L1, sv_newjobs := q\<rparr>"
  have len: "?d \<noteq> []" "length ?d \<le> READ_BUF_LEN" by (simp_all add: enc_request_def enc_bulk_def enc_len_def show_nat.simps READ_BUF_LEN_def)
  have "readQueryFromClient (Rd_bytes ?d) 0 (Some 7) 100 s1 = processInputBuffer (Some 7) 100 ?s"
    using len(1) by (simp add: readQueryFromClient_def s1_def new_client_def READ_BUF_LEN_def INT_MAX_def Let_def)
  also have "\<dots> = Inr (Done ?t)"
    using req L1(1) q by (simp add: processInputBuffer_def new_client_def queueIOJob_def) (simp add: s1_def put_def)
  finally have "sstep s1 ?t"
    using e1 len jobs by (intro sstep.handler [OF e1(1), of "An_read (Rd_bytes ?d) 0 (Some 7)"])
      (simp_all add: run_handler_def, simp add: s1_def put_def empty_list_def)
  with r1 have "reachable 3 4 mods 0 ?t" by (rule reachable.step)
  moreover have "\<not> bit (mask_of L1 5) 0" unfolding L1(2) by (simp add: bit_simps)
  then have "\<not> reading ?t 100" by (auto simp: reading_def new_client_def)
  moreover have "sv_sent ?t 100 = []" "out_part ?t 100 = []" by (simp_all add: s1_def out_part_def part_def new_client_def)
  ultimately show ?thesis by (intro exI [of _ ?t]) simp
qed

lemma ex_stop:
  assumes "\<not> (\<exists>f. f 0 = s \<and> (\<forall>i. r (f i) (f (Suc i))))"
  shows "\<exists>s'. rtranclp r s s' \<and> (\<forall>u. \<not> r s' u)"
proof (rule ccontr)
  assume "\<nexists>s'. rtranclp r s s' \<and> (\<forall>u. \<not> r s' u)"
  then have "\<exists>u. rtranclp r s u \<and> r v u" if "rtranclp r s v" for v
    using that by (meson rtranclp.rtrancl_into_rtrancl)
  then have "\<exists>f. \<forall>n. (rtranclp r s (f n) \<and> (n = 0 \<longrightarrow> f n = s)) \<and> r (f n) (f (Suc n))"
    by (intro dependent_nat_choice) auto
  then show False using assms by blast
qed

theorem proxy_answers_witness:
  "\<exists>s s'. reachable 3 4 [\<lparr>md_fd = -1, md_trace = []\<rparr>] 0 s \<and> \<not> reading s 100 \<and> sv_sent s 100 = []
    \<and> rtranclp work s s' \<and> (\<forall>u. \<not> work s' u) \<and> reading s' 100 \<and> is_reply (sv_sent s' 100)"
proof -
  let ?m = "[\<lparr>md_fd = -1, md_trace = []\<rparr>] :: module list"
  obtain s where s: "reachable 3 4 ?m 0 s" "100 \<in> dom (sv_heap s)" "\<not> reading s 100" "sv_sent s 100 = []" "out_part s 100 = []"
    using demo_job by blast
  note p = proxy_answers [OF ports_demo s(1) list.distinct(2)]
  obtain s' where s': "rtranclp work s s'" "\<forall>u. \<not> work s' u" using ex_stop [OF conjunct1 [OF p]] by blast
  then have "\<forall>a \<in> dom (sv_heap s). reading s' a \<and> (\<exists>x. sv_sent s' a = sv_sent s a @ x
      \<and> (if reading s a then x = [] else is_reply (out_part s a @ x)))" using conjunct2 [OF p] by blast
  from bspec [OF this s(2)] have "reading s' 100 \<and> (\<exists>x. sv_sent s' 100 = sv_sent s 100 @ x \<and> is_reply (out_part s 100 @ x))"
    unfolding if_not_P [OF s(3)] .
  then show ?thesis using s s' by (intro exI [of _ s] exI [of _ s']) auto
qed

end
