(* ===== verification/ProxyStart.thy ===== *)
theory ProxyStart
  imports ProxyServer
begin

section \<open>Starting the proxy (redis-proxy/redis.c)\<close>

text \<open>
  From \<open>main\<close> to the first round of the event loop: the process becomes a daemon, loads the command module, opens the
  port and the pipe and starts the threads. The state is the process: what its descriptors stand for, the contents of
  files, what a signal does. What the system answers is the record \<open>sys_answers\<close>.
\<close>

subsection \<open>The process\<close>

datatype disposition = Ignored | Sigterm_handler | Segv_handler

record proc_state =
  ps_fds :: "int \<Rightarrow> string option"
  ps_files :: "string \<Rightarrow> string"
  ps_signals :: "string \<Rightarrow> disposition option"
  ps_session :: bool

text \<open>\<open>sa_opens f\<close>: \<open>fopen\<close> of \<open>f\<close> succeeds; \<open>sa_null\<close> is the descriptor for \<open>/dev/null\<close>; \<open>sa_threads\<close> are the answers
  of \<open>pthread_create\<close>.\<close>

record sys_answers =
  sa_fork :: int
  sa_null :: "int option"
  sa_opens :: "string \<Rightarrow> bool"
  sa_pid :: nat
  sa_time :: string
  sa_lib :: bool
  sa_symbols :: "string \<Rightarrow> bool"
  sa_dlerror :: string
  sa_server :: int
  sa_neterr :: string
  sa_pipe :: "int option"
  sa_nonblock :: bool
  sa_threads :: "bool list"
  sa_strerror :: string

definition append_to :: "string \<Rightarrow> string \<Rightarrow> proc_state \<Rightarrow> proc_state" where
  "append_to f x p = p\<lparr>ps_files := (ps_files p)(f := ps_files p f @ x)\<rparr>"

definition write_fd :: "int \<Rightarrow> string \<Rightarrow> proc_state \<Rightarrow> proc_state" where
  "write_fd fd x p = (case ps_fds p fd of None \<Rightarrow> p | Some f \<Rightarrow> append_to f x p)"

definition REDIS_DEBUG :: int where "REDIS_DEBUG = 0"
definition REDIS_VERBOSE :: int where "REDIS_VERBOSE = 1"
definition REDIS_NOTICE :: int where "REDIS_NOTICE = 2"
definition REDIS_WARNING :: int where "REDIS_WARNING = 3"
definition REDIS_VERSION :: string where "REDIS_VERSION = ''2.0.4''"

definition NL :: string where "NL = [CHR 0x0A]"

text \<open>The mark of level 4 is the end of the string \<open>c\<close>. \<open>logfile\<close> is \<open>None\<close> for standard output.\<close>

definition redisLog :: "sys_answers \<Rightarrow> int \<Rightarrow> string option \<Rightarrow> int \<Rightarrow> string \<Rightarrow> proc_state \<Rightarrow> proc_state res" where
  "redisLog A verbosity logfile level msg p =
     (if level < verbosity then Inr p
      else if level < 0 \<or> level > 4 then Inl Out_of_bounds
      else let line = ''['' @ show_nat (sa_pid A) @ ''] '' @ sa_time A @ '' '' @ [(''.-*#'' @ [NUL]) ! nat level] @ '' '' @ msg @ NL in
        case logfile of
          None \<Rightarrow> Inr (write_fd 1 line p)
        | Some f \<Rightarrow> Inr (if sa_opens A f then append_to f line p else p))"

definition log_c :: "sys_answers \<Rightarrow> config \<Rightarrow> int \<Rightarrow> string \<Rightarrow> proc_state \<Rightarrow> proc_state res" where
  "log_c A cf = redisLog A (cf_verbosity cf) None"

subsection \<open>Daemon and signals\<close>

text \<open>\<open>Inl\<close> is the exit status.\<close>

definition daemonize :: "sys_answers \<Rightarrow> config \<Rightarrow> proc_state \<Rightarrow> int + proc_state" where
  "daemonize A cf p =
     (if sa_fork A \<noteq> 0 then Inl 0
      else
        let p1 = p\<lparr>ps_session := True\<rparr>;
            p2 = (case sa_null A of None \<Rightarrow> p1
              | Some fd \<Rightarrow>
                  let q = p1\<lparr>ps_fds := (ps_fds p1)(fd \<mapsto> ''/dev/null'', 0 \<mapsto> ''/dev/null'', 1 \<mapsto> ''/dev/null'', 2 \<mapsto> ''/dev/null'')\<rparr>
                  in if fd > 2 then q\<lparr>ps_fds := (ps_fds q)(fd := None)\<rparr> else q)
        in Inr (if sa_opens A (cf_pidfile cf)
                then p2\<lparr>ps_files := (ps_files p2)(cf_pidfile cf := show_nat (sa_pid A) @ NL)\<rparr> else p2))"

definition setupSigSegvAction :: "proc_state \<Rightarrow> proc_state" where
  "setupSigSegvAction p = p\<lparr>ps_signals := (ps_signals p)(''SIGSEGV'' \<mapsto> Segv_handler, ''SIGBUS'' \<mapsto> Segv_handler,
     ''SIGFPE'' \<mapsto> Segv_handler, ''SIGILL'' \<mapsto> Segv_handler, ''SIGTERM'' \<mapsto> Sigterm_handler)\<rparr>"

definition sigtermHandler :: "sys_answers \<Rightarrow> config \<Rightarrow> proc_state \<Rightarrow> (int \<times> proc_state) res" where
  "sigtermHandler A cf p = fmap (Pair 0) (log_c A cf REDIS_WARNING ''SIGTERM received, scheduling shutting down...'' p)"

definition segvHandler :: "sys_answers \<Rightarrow> config \<Rightarrow> nat \<Rightarrow> proc_state \<Rightarrow> (int \<times> proc_state) res" where
  "segvHandler A cf sig p = fmap (Pair 0) (log_c A cf REDIS_WARNING
     (''======= Ooops! Redis '' @ REDIS_VERSION @ '' got signal: -'' @ show_nat sig @ ''- ======='') p)"

subsection \<open>The command module and the threads\<close>

definition extension_symbols :: "string list" where
  "extension_symbols = [''_redisCommandInit'', ''_redisCommandProc'', ''_redisCommandDeinit'', ''_processRequestBuffer'']"

text \<open>\<open>True\<close> when the library and the four symbols are found; the first that is not is reported.\<close>

definition loadExtension_p :: "sys_answers \<Rightarrow> config \<Rightarrow> proc_state \<Rightarrow> (bool \<times> proc_state) res" where
  "loadExtension_p A cf p =
     (if \<not> sa_lib A then
        fmap (Pair False) (log_c A cf REDIS_FATAL (''Load extension '' @ cf_extension cf @ '' error: '' @ sa_dlerror A) p)
      else case filter (\<lambda>x. \<not> sa_symbols A x) extension_symbols of
          [] \<Rightarrow> Inr (True, p)
        | x # r \<Rightarrow> fmap (Pair False) (log_c A cf REDIS_FATAL (''Load symbol '' @ x @ '' error: '' @ sa_dlerror A) p))"

text \<open>\<open>spawnIOThread\<close> tries until a thread is created, \<open>None\<close> while the answers are used up; then the loop over the threads.\<close>

fun spawn :: "sys_answers \<Rightarrow> config \<Rightarrow> bool list \<Rightarrow> proc_state \<Rightarrow> (bool list \<times> proc_state) option res" where
  "spawn A cf [] p = Inr None"
| "spawn A cf (ok # oks) p =
     (if ok then Inr (Some (oks, p))
      else fbind (log_c A cf REDIS_WARNING (''Unable to spawn an I/O thread: '' @ sa_strerror A) p) (spawn A cf oks))"

fun spawn_all :: "sys_answers \<Rightarrow> config \<Rightarrow> nat \<Rightarrow> bool list \<Rightarrow> proc_state \<Rightarrow> proc_state option res" where
  "spawn_all A cf 0 oks p = Inr (Some p)"
| "spawn_all A cf (Suc n) oks p = fbind (spawn A cf oks p) (\<lambda>r. case r of
       None \<Rightarrow> Inr None | Some (oks', q) \<Rightarrow> spawn_all A cf n oks' q)"

subsection \<open>main\<close>

datatype start_end = Exit_status int | Still_spawning | Serving server

definition initServer_p :: "sys_answers \<Rightarrow> config \<Rightarrow> module list \<Rightarrow> proc_state \<Rightarrow> (start_end \<times> proc_state) res" where
  "initServer_p A cf mods p0 =
     (let p = setupSigSegvAction (p0\<lparr>ps_signals := (ps_signals p0)(''SIGHUP'' \<mapsto> Ignored, ''SIGPIPE'' \<mapsto> Ignored)\<rparr>) in
      if \<not> sa_opens A ''/dev/null'' then
        fmap (Pair (Exit_status 1)) (log_c A cf REDIS_WARNING (''Can'' @ [CHR 0x27] @ ''t open /dev/null: '' @ sa_neterr A) p)
      else fbind (loadExtension_p A cf p) (\<lambda>(loaded, p1).
        if \<not> loaded then Inr (Exit_status 1, p1)
        else if sa_server A = - 1 then
          fmap (Pair (Exit_status 1)) (log_c A cf REDIS_WARNING (''Opening TCP port: '' @ sa_neterr A) p1)
        else case sa_pipe A of
            None \<Rightarrow> fmap (Pair (Exit_status 1)) (log_c A cf REDIS_WARNING
              (''Unable to intialized VM: pipe(2): '' @ sa_strerror A @ ''. Exiting.'') p1)
          | Some pfd \<Rightarrow>
              if \<not> sa_nonblock A then Inl Assert_failed
              else fbind (spawn_all A cf (cf_vm_max_threads cf) (sa_threads A) p1) (\<lambda>r. case r of
                  None \<Rightarrow> Inr (Still_spawning, p1)
                | Some p2 \<Rightarrow> fmap (\<lambda>s. (Serving s, p2)) (initServer (sa_server A) pfd mods (cf_maxclients cf)))))"

definition version :: "proc_state \<Rightarrow> int \<times> proc_state" where
  "version p = (0, write_fd 1 (''Redis server version '' @ REDIS_VERSION @ NL) p)"

text \<open>\<open>version\<close> exits, so the status 1 behind it is never reached.\<close>

definition usage :: "proc_state \<Rightarrow> int \<times> proc_state" where
  "usage p = version (write_fd 2 (''Usage: mgcsf'' @ NL) p)"

definition proxy_main :: "sys_answers \<Rightarrow> int \<Rightarrow> module list \<Rightarrow> proc_state \<Rightarrow> (start_end \<times> proc_state) res" where
  "proxy_main A argc mods p =
     (if argc \<noteq> 1 then Inr (case usage p of (st, q) \<Rightarrow> (Exit_status st, q))
      else let cf = initServerConfig in
        case (if cf_daemonize cf then daemonize A cf p else Inr p) of
          Inl st \<Rightarrow> Inr (Exit_status st, p)
        | Inr p1 \<Rightarrow>
            fbind (log_c A cf REDIS_NOTICE (''Server started, Redis version '' @ REDIS_VERSION) p1) (\<lambda>p2.
            fbind (initServer_p A cf mods p2) (\<lambda>(r, p3). case r of
                Serving s \<Rightarrow> fmap (Pair (Serving s)) (log_c A cf REDIS_NOTICE
                  (''The server is now ready to accept connections on port '' @ show_int (cf_port cf)) p3)
              | _ \<Rightarrow> Inr (r, p3))))"

subsection \<open>What the one who starts it sees\<close>

text \<open>Nothing but \<open>/dev/null\<close> and the file \<open>keep\<close> has changed, and standard output is \<open>/dev/null\<close>.\<close>

definition silent :: "string \<Rightarrow> proc_state \<Rightarrow> proc_state \<Rightarrow> bool" where
  "silent keep p q \<longleftrightarrow> ps_fds q 1 = Some ''/dev/null'' \<and> (\<forall>f. f \<noteq> keep \<longrightarrow> f \<noteq> ''/dev/null'' \<longrightarrow> ps_files q f = ps_files p f)"

lemma log_silent: "\<lbrakk>log_c A cf level msg q = Inr q'; silent k p q\<rbrakk> \<Longrightarrow> silent k p q'"
  by (auto simp: log_c_def redisLog_def write_fd_def append_to_def silent_def Let_def split: if_splits option.splits)

lemma daemonize_silent:
  assumes "daemonize A cf p = Inr q" "sa_null A = Some fd"
  shows "silent (cf_pidfile cf) p q"
  using assms by (auto simp: daemonize_def silent_def Let_def split: if_splits)

lemma load_silent: "\<lbrakk>loadExtension_p A cf q = Inr (r, q'); silent k p q\<rbrakk> \<Longrightarrow> silent k p q'"
  by (auto simp: loadExtension_p_def res_simps split: if_splits list.splits elim: log_silent)

lemma spawn_silent: "\<lbrakk>spawn A cf oks q = Inr (Some (oks', q')); silent k p q\<rbrakk> \<Longrightarrow> silent k p q'"
  by (induction A cf oks q rule: spawn.induct) (auto simp: res_simps split: if_splits dest: log_silent)

lemma spawn_all_silent: "\<lbrakk>spawn_all A cf n oks q = Inr (Some q'); silent k p q\<rbrakk> \<Longrightarrow> silent k p q'"
proof (induction n arbitrary: oks q)
  case (Suc n)
  then obtain oks1 q1 where q1: "spawn A cf oks q = Inr (Some (oks1, q1))" "spawn_all A cf n oks1 q1 = Inr (Some q')"
    by (auto simp: res_simps split: option.splits)
  then show ?case using Suc.IH [OF q1(2)] spawn_silent [OF q1(1) Suc.prems(2)] by blast
qed simp

lemma init_silent:
  assumes "initServer_p A cf mods q = Inr (r, q')" "silent k p q"
  shows "silent k p q'"
proof -
  let ?q = "setupSigSegvAction (q\<lparr>ps_signals := (ps_signals q)(''SIGHUP'' \<mapsto> Ignored, ''SIGPIPE'' \<mapsto> Ignored)\<rparr>)"
  have s: "silent k p ?q" using assms(2) by (simp add: silent_def setupSigSegvAction_def)
  note d = assms(1) [unfolded initServer_p_def Let_def]
  show ?thesis
  proof (cases "sa_opens A ''/dev/null''")
    case False
    then show ?thesis using d s by (auto simp: res_simps intro: log_silent)
  next
    case True
    with d obtain loaded q1 where q1: "loadExtension_p A cf ?q = Inr (loaded, q1)" by (auto simp: res_simps)
    note s1 = load_silent [OF q1 s]
    show ?thesis
    proof (cases "loaded \<and> sa_server A \<noteq> - 1 \<and> sa_pipe A \<noteq> None")
      case False
      then show ?thesis using d True q1 s1 by (auto simp: res_simps intro: log_silent split: if_splits)
    next
      case ok: True
      then show ?thesis using d True q1 s1
        by (auto simp: res_simps intro: spawn_all_silent split: if_splits option.splits)
    qed
  qed
qed

text \<open>Whatever goes wrong when the server is started without arguments: the process the caller waits for ends with status 0,
  also when \<open>fork\<close> fails; and the daemon, when its descriptors are on \<open>/dev/null\<close>, leaves no word of it but the
  pid file, which is there even if the start fails.\<close>

theorem start_silent:
  assumes "sa_null A = Some fd"
  shows "(sa_fork A \<noteq> 0 \<longrightarrow> proxy_main A 1 mods p = Inr (Exit_status 0, p))
    \<and> (sa_fork A = 0 \<longrightarrow> (\<forall>r q. proxy_main A 1 mods p = Inr (r, q) \<longrightarrow> silent (cf_pidfile initServerConfig) p q))"
proof (intro conjI impI allI)
  have d: "cf_daemonize initServerConfig" by (simp add: initServerConfig_def)
  assume "sa_fork A \<noteq> 0"
  then show "proxy_main A 1 mods p = Inr (Exit_status 0, p)" by (simp add: proxy_main_def daemonize_def d)
next
  fix r q assume f: "sa_fork A = 0" and run: "proxy_main A 1 mods p = Inr (r, q)"
  have d: "cf_daemonize initServerConfig" by (simp add: initServerConfig_def)
  obtain p1 where p1: "daemonize A initServerConfig p = Inr p1" using f by (simp add: daemonize_def Let_def)
  from run p1 obtain p2 r3 p3 where r: "log_c A initServerConfig REDIS_NOTICE (''Server started, Redis version '' @ REDIS_VERSION) p1 = Inr p2"
    "initServer_p A initServerConfig mods p2 = Inr (r3, p3)" by (auto simp: proxy_main_def d res_simps)
  have s3: "silent (cf_pidfile initServerConfig) p p3"
    by (rule init_silent [OF r(2) log_silent [OF r(1) daemonize_silent [OF p1 assms]]])
  from run p1 r show "silent (cf_pidfile initServerConfig) p q"
    using s3 by (cases r3) (auto simp: proxy_main_def d res_simps elim: log_silent)
qed

text \<open>A start that succeeds gives the state the theorems of ProxyServer begin with.\<close>

theorem start_reachable:
  assumes "proxy_main A argc mods p = Inr (Serving s, q)"
  shows "\<exists>pfd. sa_pipe A = Some pfd \<and> reachable (sa_server A) pfd mods 0 s"
  using assms
  by (auto simp: proxy_main_def initServer_p_def initServerConfig_def usage_def version_def res_simps Let_def
      intro!: reachable.start split: if_splits option.splits start_end.splits sum.splits)

text \<open>Called with arguments it explains itself and reports success.\<close>

lemma usage_status: "argc \<noteq> 1 \<Longrightarrow> \<exists>q. proxy_main A argc mods p = Inr (Exit_status 0, q)"
  by (simp add: proxy_main_def usage_def version_def)

text \<open>The mark of a fatal message is a zero byte.\<close>

lemma fatal_mark:
  "redisLog A 0 None REDIS_FATAL msg p = Inr (write_fd 1 (''['' @ show_nat (sa_pid A) @ ''] '' @ sa_time A @ '' '' @ [NUL] @ '' '' @ msg @ NL) p)"
  by (simp add: redisLog_def REDIS_FATAL_def)

end
