(* ===== verification/Spec2Isabelle.thy ===== *)
theory Spec2Isabelle
  imports Prelude Resp Backend Adlist AeLoop Conns ProxyServer UuidServer VectorUdf UdpFront EchoServer
    InnoConfig InnoTuple InnoOptions Binlog BinlogRow BinlogStream Anet Tunnel TunnelClient Fat GrowServer IpRange QueueStore Keywords HandlerPool TunnelVariants ReplDump LoadFiles Replicator ReplicatorDump EchoClient RowTypes ProxyProgress ProxyStart
begin

text \<open>
  Verification of the servers and utilities of mg-common-utils.

  The repository is a collection of small programs. Five of them are servers built from one kit taken from
  Redis 2.0: an event loop (\<open>ae.c\<close>, \<open>ae_epoll.c\<close>), a linked list (\<open>adlist.c\<close>), socket helpers
  (\<open>anet.c\<close>) and a main file \<open>redis.c\<close> with the handlers. Around them stand a command module of the
  proxy, functions for MySQL, readers of MySQL's binary log and of InnoDB tables, tunnels, a datagram front end, a queue store, a reader of
  FAT images and a counter of addresses. The copies of \<open>ae.c\<close>, \<open>adlist.c\<close> and \<open>anet.c\<close> in the server
  directories are the same files (the copy of \<open>ae.c\<close> in redis-server differs in the flags \<open>aeMain\<close> passes, which are an
  argument here), so each is modelled once.

  \<^bold>\<open>Theories and sources.\<close>

  \<^item> Prelude: C buffers as lists of characters, pointers as offsets, 32-bit conversions, the C library functions
    the programs call. Undefined behaviour is a value of \<open>fault\<close>, so a result \<open>Inr x\<close> says that the
    code ran without it.
  \<^item> Resp: the request and reply scanners of redis-proxy/echo.c. \<open>request_stream\<close>, \<open>reply_stream\<close>:
    on every protocol message cut anywhere, 1 exactly at the last byte. Error codes and the inputs on which the
    request scanner faults are separate theorems.
  \<^item> Backend: \<open>_redisCommandProc\<close> of redis-proxy/echo.c. An \<open>attempt\<close> is what \<open>connect\<close>,
    \<open>poll\<close>, \<open>read\<close>, \<open>write\<close> and the clock answer in one pass; at most two passes are made,
    and \<open>proxy_command_returns\<close> says which answers make each loop end and how the call can end. The length of a reply is an
    \<open>int\<close>, checked where the code adds to it.
  \<^item> Adlist: redis-proxy/adlist.c over a heap of nodes; \<open>list_rep\<close> relates the heap to a list of
    cells. The locale \<open>fifo_queue\<close> is what the servers use of it.
  \<^item> AeLoop: ae.c and ae_epoll.c: the event table, the kernel's interest set, time events, one round of the loop.
    The invariant \<open>loop_inv\<close> (table, maxfd and kernel agree) and the dispatch theorem carry the servers.
  \<^item> Conns: the part of the state all servers share (clients on a heap, descriptors, bytes sent) and the locale
    \<open>client_table\<close> with its invariant; ProxyServer and UuidServer interpret it.
  \<^item> ProxyServer: redis-proxy/redis.c: handlers, worker threads, the two queues and the pipe between them, as a
    step relation over any interleaving, with one invariant (\<open>px_inv\<close>) from which the theorems follow.
  \<^item> ProxyProgress: the steps of the proxy that work on received requests end, whatever their order, and leave every client
    answered (\<open>proxy_answers\<close>); the proof is a lexicographic measure and a lemma that some step is possible.
  \<^item> ProxyStart: \<open>main\<close> of redis-proxy/redis.c up to the event loop: daemon, log, signals, command module, port, pipe and
    threads; \<open>start_reachable\<close> links it to ProxyServer, \<open>start_silent\<close> shows what the caller does not see.
  \<^item> UuidServer: redis-uuid/redis.c and redis-ckw/redis.c, two variants of one program; the locale
    \<open>numbering\<close> holds the arithmetic of the ids and is interpreted for 52 and 64 bits.
  \<^item> EchoServer: redis-server/redis.c and echo.c: frames with a length field, the threads that answer them.
    \<open>echo_request\<close> follows one request from its first byte to the last byte of the answer;
    \<open>echo_use_after_free\<close> is the interleaving that breaks the server.
  \<^item> EchoClient: redis-server/client.c over a peer that answers its bytes, and the echo server behind a network as such a
    peer: \<open>client_served\<close> composes the two programs and shows that the client is never blocked.
  \<^item> VectorUdf: vector_udf/vector.c: a sorted set in a string; refinement of a map from members to scores.
  \<^item> UdpFront: uRedis/udp.c: header codec, the mget request, the split of the reply into datagrams.
  \<^item> InnoConfig, InnoTuple, InnoOptions: dump_innodb/test0aux.c and dump_innodb.c: option files, tuples, the dump,
    configuration and options.
  \<^item> Binlog, BinlogRow, BinlogStream: ebinlog (BinlogTypes.h, BinlogTable.h, BinlogRow.h, BinlogProcessor.cpp): packed
    integers and table maps, values and rows, the stream of events. \<open>binlog_row_roundtrip\<close> decodes what a
    writer of the log produces; \<open>binlog_chunks\<close> says that the cuts of the stream do not matter;
    \<open>binlog_stuck\<close> gives the inputs on which the loop never ends. Python objects are values of a datatype.
  \<^item> RowTypes: a typing judgement for the decoded values; \<open>row_typed\<close> holds for arbitrary bytes.
  \<^item> LoadFiles, Replicator, ReplicatorDump: myreplicator/src/myreplicator.cc, which prints binary logs and keeps a file of positions for a
    restart. LoadFiles has the class that collects the files of LOAD DATA, as a refinement of a map from file ids to contents; Replicator one
    event and the file of positions; ReplicatorDump the dumps of a server and of a file and \<open>main\<close>. \<open>remote_as_local\<close> is a
    simulation of one loop by the other; \<open>rotate_position\<close> shows a wrong restart position.
  \<^item> ReplDump: repl/repl4.c, which saves the events a server sends.
  \<^item> Anet: \<open>anet.c\<close> of the servers and \<open>anet.cpp\<close> of the tunnels, over the answers of kernel and resolver.
  \<^item> Tunnel, TunnelClient, TunnelVariants: sock4a, tcpipe, sock4a-apr, sock4a-poco and sock4a-qt: the relays of both ends, the request a target
    is read from, the pool of connections. \<open>tunnel_transparent\<close> composes the two ends: what leaves the tunnel is what entered it.
  \<^item> GrowServer: redis-uuid/redis-realloc.c, the id server with growing buffers: which buffers are allocated, read and lost.
  \<^item> Fat: fat/main.c: a FAT32 image as a list of bytes; listing of the root directory and contents along a cluster chain.
  \<^item> IpRange: count_log_by_ip_range/main.cpp: bits for the addresses of a list of ranges, and the count of log lines in them.
  \<^item> QueueStore: icq/ehaildb.cpp over HailDB, a parameter; the program is written in the state monad. \<open>documented\<close> states what the
    library promises; \<open>ref_lib\<close> is a library in memory that keeps it and on which every operation succeeds.
  \<^item> Keywords: redis-ckw/ckwlib.c, a keyword trie in a mapped file.
  \<^item> HandlerPool: mysqlhandler/handler.cpp: the pool of handlers under any interleaving of threads.

  \<^bold>\<open>How state and operations correspond.\<close> A struct is a record with the fields the code uses (mapped in the
  manifest), an address on the heap a natural number, a buffer the list of its allocated characters or \<open>None\<close>
  for \<open>NULL\<close>. Each handler is one function from state to state, or to a fault; what a system call answers is an
  argument (a descriptor, a number of bytes, an error). \<open>malloc\<close> and its kin answer an address or nothing.
  Function pointers in the event table are the constructors of a datatype per server. Steps of threads are as fine as the locks and the
  shared data make them: the start of a tunnel worker is one step, since it shares only the queue it pops, and EchoClient runs the
  threads of the echo server in one order, that of a server that serves one client.

  \<^bold>\<open>Bounds and fuel.\<close> The two loops of BinlogStream take fuel, because the code can go round without moving;
  \<open>binlog_chunks\<close> adds the fuel of its two calls and \<open>binlog_stuck\<close> holds for any fuel. The loops over a cluster
  chain or a directory in Fat take fuel, because a chain can go round, and so do the loops over a log in IpRange and over a file in
  ReplicatorDump, where the library says how far an event reaches: \<open>local_dump_returns\<close> shows that one unit for each byte and one
  more are enough, \<open>ip_log_stuck\<close> gives the log on which no fuel is enough. The other loops
  need none: the poll loops of Backend, the relays of the tunnels
  and the loops over threads and cursors take the list of answers they consume, and end with a value of their own
  (\<open>Starved\<close>, \<open>None\<close>) when it is used up; the theorems give lists that are long enough. The round trip of option
  files bounds the number of lines by 2^24, because the code computes the size of its vector in an \<open>int\<close>; \<open>config_no_overflow\<close>
  has no such bound and says what happens beyond it. \<open>load_name_fits\<close> is exact at the 2^32 where the computed length wraps. The
  list theorems bound the length by 2^32, the width of the length field.

  \<^bold>\<open>Not modelled.\<close> Log output, signal handlers, \<open>daemonize\<close> and usage texts of the other servers, which repeat
  those of the proxy (theory ProxyStart); drop_file_cache, one system call; the lessons, examples of library calls; the
  set-up of the Ice service in icq, the Thrift service of mysqlhandler, which is generated, and the samples of curl-cpp; the programs in
  Python, PHP, Java, Go and C#. Of myreplicator the table of options and the memory that is freed are left out. Code outside the
  repository is an argument of the definitions or a step of a relation, constrained only where a theorem names the condition: the
  storage engines behind dump_innodb and icq, the key-value store behind the datagram front end, MySQL's parsers and printers of events,
  \<open>qsort\<close>, the scheduler of the threads.
\<close>

end
